(* ===== verification/Prelude.thy ===== *)
theory Prelude
  imports Main "HOL-Library.Word" "HOL-Library.Multiset"
    "HOL-Library.List_Lexorder" "HOL-Library.Char_ord" "HOL-Library.Product_Lexorder"
begin

text \<open>
  Shared vocabulary of the development: results of fallible Go functions, Go's fixed-width
  integers read as \<open>int\<close>, durations, and the generic lemmas on lists, options and stable
  sorting that the components share.

  \<^item> A Go function returning \<open>(T, error)\<close> returns \<open>'e + 't\<close>: \<open>Inl\<close> is the
    error, \<open>Inr\<close> the value.  \<open>bind_r\<close> is the early return \<open>if err != nil \<dots>\<close>.
  \<^item> Bytes that are only compared or copied are \<open>char\<close> (a Go \<open>string\<close> is a
    \<open>char list\<close>); bytes that are computed with are \<open>8 word\<close>.
  \<^item> \<open>int64\<close> values are \<open>int\<close>, and every arithmetic result is reduced by
    \<open>wrap64\<close>; unsigned values whose wrap-around matters are words.
  \<^item> \<open>sort.SliceStable\<close> with a lexicographic comparison is \<open>sort_key\<close> over the tuple
    of the compared keys, whose order is the lexicographic one of the library.
\<close>

named_theorems go_simps \<open>unfolding rules for the small helpers of the model\<close>
named_theorems inv_intros \<open>preservation rules of component invariants\<close>

subsection \<open>Results\<close>

type_synonym ('e, 'a) res = "'e + 'a"

definition bind_r :: "('e, 'a) res \<Rightarrow> ('a \<Rightarrow> ('e, 'b) res) \<Rightarrow> ('e, 'b) res" where
  "bind_r m f = (case m of Inl e \<Rightarrow> Inl e | Inr x \<Rightarrow> f x)"

lemma bind_r_simps [simp]:
  "bind_r (Inl e) f = Inl e"
  "bind_r (Inr x) f = f x"
  by (simp_all add: bind_r_def)

lemma bind_r_eq_Inr [simp]: "bind_r m f = Inr y \<longleftrightarrow> (\<exists>x. m = Inr x \<and> f x = Inr y)"
  by (cases m) auto

lemma bind_r_eq_Inl: "bind_r m f = Inl e \<longleftrightarrow> m = Inl e \<or> (\<exists>x. m = Inr x \<and> f x = Inl e)"
  by (cases m) auto

lemma bind_r_cong [fundef_cong]:
  assumes "m = m'" and "\<And>x. m' = Inr x \<Longrightarrow> f x = g x"
  shows "bind_r m f = bind_r m' g"
  using assms by (cases m') auto

text \<open>\<open>ensure ok e\<close> is the guard \<open>if !ok { return e }\<close>.\<close>

definition ensure :: "bool \<Rightarrow> 'e \<Rightarrow> ('e, unit) res" where
  "ensure b e = (if b then Inr () else Inl e)"

lemma ensure_simps [simp]:
  "ensure True e = Inr ()"
  "ensure False e = Inl e"
  "ensure b e = Inr u \<longleftrightarrow> b"
  "ensure b e = Inl e' \<longleftrightarrow> \<not> b \<and> e' = e"
  by (auto simp: ensure_def)

subsection \<open>First match\<close>

lemma find_SomeD: "find P xs = Some x \<Longrightarrow> x \<in> set xs \<and> P x"
  by (auto simp: find_Some_iff)

lemma find_None: "find P xs = None \<longleftrightarrow> (\<forall>x\<in>set xs. \<not> P x)"
  by (auto simp: find_None_iff)

lemma map_filter_same: "(\<And>x. x \<in> set xs \<Longrightarrow> f x = g x) \<Longrightarrow> List.map_filter f xs = List.map_filter g xs"
  by (induction xs) (auto simp: map_filter_def)

lemma image_restrict: "U \<subseteq> f ` S \<Longrightarrow> f ` {x \<in> S. f x \<in> U} = U"
  by blast

subsection \<open>Signed 64-bit integers and durations\<close>

definition min_i64 :: int where "min_i64 = - (2 ^ 63)"
definition max_i64 :: int where "max_i64 = 2 ^ 63 - 1"

definition wrap64 :: "int \<Rightarrow> int" where
  "wrap64 x = (x + 2 ^ 63) mod 2 ^ 64 - 2 ^ 63"

definition in_i64 :: "int \<Rightarrow> bool" where
  "in_i64 x \<longleftrightarrow> min_i64 \<le> x \<and> x \<le> max_i64"

lemma wrap64_id: "in_i64 x \<Longrightarrow> wrap64 x = x"
  by (simp add: wrap64_def in_i64_def min_i64_def max_i64_def)

lemma wrap64_in: "in_i64 (wrap64 x)"
proof -
  have "0 \<le> (x + 2 ^ 63) mod 2 ^ 64" and "(x + 2 ^ 63) mod 2 ^ 64 < (2 ^ 64 :: int)"
    by simp_all
  then show ?thesis
    by (simp add: wrap64_def in_i64_def min_i64_def max_i64_def)
qed

text \<open>
  A \<open>time.Time\<close> is the number of nanoseconds since Go's zero time, so \<open>IsZero\<close> is
  \<open>t = 0\<close>; \<open>t.Sub(u)\<close> is a \<open>time.Duration\<close>, an \<open>int64\<close> that saturates.
\<close>

type_synonym go_time = int
type_synonym duration = int

definition time_sub :: "go_time \<Rightarrow> go_time \<Rightarrow> duration" where
  "time_sub t u = max min_i64 (min max_i64 (t - u))"

lemma time_sub_le: "time_sub t u \<le> d \<Longrightarrow> d < max_i64 \<Longrightarrow> t - u \<le> d"
  by (auto simp: time_sub_def min_def max_def split: if_splits)

lemma time_sub_less_iff: "min_i64 < d \<Longrightarrow> d \<le> max_i64 \<Longrightarrow> time_sub t u < d \<longleftrightarrow> t - u < d"
  by (auto simp: time_sub_def min_def max_def min_i64_def max_i64_def)

lemma time_sub_ge_iff: "min_i64 < d \<Longrightarrow> d \<le> max_i64 \<Longrightarrow> d \<le> time_sub t u \<longleftrightarrow> d \<le> t - u"
  by (auto simp: time_sub_def min_def max_def min_i64_def max_i64_def)

subsection \<open>Stable sorting by a key\<close>

text \<open>
  What a caller may rely on when a Go function sorts a slice with
  \<open>sort.SliceStable\<close> by comparing keys lexicographically: the laws every such
  sorter of the model satisfies, proved once.
\<close>

lemma sort_key_unique:
  fixes f :: "'a \<Rightarrow> 'k::linorder"
  assumes "mset xs = mset ys" and "inj_on f (set xs)"
  shows "sort_key f xs = sort_key f ys"
proof (rule properties_for_sort_key)
  show "mset (sort_key f ys) = mset xs" using assms(1) by simp
  show "sorted (map f (sort_key f ys))" by simp
  fix k assume k: "k \<in> set (sort_key f ys)"
  have set_eq: "set xs = set ys" using assms(1) by (rule mset_eq_setD)
  have same: "filter (\<lambda>x. f k = f x) zs = filter (\<lambda>x. k = x) zs"
    if "set zs = set xs" for zs
    using that k assms(2) set_eq by (intro filter_cong) (auto dest: inj_onD)
  have "filter (\<lambda>x. k = x) zs = replicate (count (mset zs) k) k" for zs
    by (induction zs) auto
  then show "filter (\<lambda>x. f k = f x) (sort_key f ys) = filter (\<lambda>x. f k = f x) xs"
    using assms(1) set_eq by (simp add: same)
qed

locale stable_sorter =
  fixes srt :: "'a list \<Rightarrow> 'a list"
    and key :: "'a \<Rightarrow> 'k::linorder"
  assumes srt_eq: "srt xs = sort_key key xs"
begin

lemma srt_mset: "mset (srt xs) = mset xs"
  by (simp add: srt_eq)

lemma srt_set: "set (srt xs) = set xs"
  by (simp add: srt_eq)

lemma srt_length: "length (srt xs) = length xs"
  by (simp add: srt_eq)

lemma srt_sorted: "sorted (map key (srt xs))"
  by (simp add: srt_eq)

lemma srt_id: "sorted (map key xs) \<Longrightarrow> srt xs = xs"
  by (simp add: srt_eq sort_key_id_if_sorted)

lemma srt_idem: "srt (srt xs) = srt xs"
  by (rule srt_id) (rule srt_sorted)

lemma srt_unique: "mset xs = mset ys \<Longrightarrow> inj_on key (set xs) \<Longrightarrow> srt xs = srt ys"
  by (simp add: srt_eq sort_key_unique)

lemma srt_stable: "filter (\<lambda>x. key x = k) (srt xs) = filter (\<lambda>x. key x = k) xs"
  by (simp add: srt_eq sort_key_stable)

end

end
