(* ===== verification/Go_Strings.thy ===== *)
theory Go_Strings
  imports Prelude
begin

text \<open>
  The part of Go's \<open>strings\<close>, \<open>unicode/utf8\<close>, \<open>unicode\<close>, \<open>encoding\<close> and
  \<open>time\<close> packages that the modelled code calls.  A Go string is its list of bytes.
  Decoding follows \<open>utf8.DecodeRuneInString\<close>: an invalid byte is the rune
  \<open>U+FFFD\<close> of width one.  The case tables of \<open>unicode\<close> beyond ASCII are data, not
  code: they are a parameter of type \<open>unicode\<close> of every function that folds case.
\<close>

subsection \<open>UTF-8\<close>

type_synonym rune = nat

definition rune_error :: rune where "rune_error = 65533"

definition byte :: "char \<Rightarrow> nat" where "byte c = of_char c"

lemma byte_less: "byte c < 256"
  by (cases c) (simp add: byte_def of_char_def horner_sum_of_bool_2_less [of _, simplified])

text \<open>The accepted range of the second byte, by first byte (table \<open>first\<close> of \<open>utf8\<close>).\<close>

definition second_ok :: "nat \<Rightarrow> nat \<Rightarrow> bool" where
  "second_ok b0 b1 \<longleftrightarrow>
     (if b0 = 224 then 160 else if b0 = 240 then 144 else 128) \<le> b1 \<and>
     b1 \<le> (if b0 = 237 then 159 else if b0 = 244 then 143 else 191)"

definition cont_ok :: "nat \<Rightarrow> bool" where
  "cont_ok b \<longleftrightarrow> 128 \<le> b \<and> b \<le> 191"

text \<open>\<open>decode_rune s = (r, w, ok)\<close>: rune, width, and whether the bytes were valid.\<close>

definition decode_rune :: "nat list \<Rightarrow> rune \<times> nat \<times> bool" where
  "decode_rune bs = (case bs of [] \<Rightarrow> (rune_error, 0, False) | b0 # t \<Rightarrow>
     if b0 < 128 then (b0, 1, True)
     else if 194 \<le> b0 \<and> b0 \<le> 223 then
       (case t of b1 # _ \<Rightarrow>
          if cont_ok b1 then ((b0 - 192) * 64 + (b1 - 128), 2, True) else (rune_error, 1, False)
        | [] \<Rightarrow> (rune_error, 1, False))
     else if 224 \<le> b0 \<and> b0 \<le> 239 then
       (case t of b1 # b2 # _ \<Rightarrow>
          if second_ok b0 b1 \<and> cont_ok b2
          then ((b0 - 224) * 4096 + (b1 - 128) * 64 + (b2 - 128), 3, True)
          else (rune_error, 1, False)
        | _ \<Rightarrow> (rune_error, 1, False))
     else if 240 \<le> b0 \<and> b0 \<le> 244 then
       (case t of b1 # b2 # b3 # _ \<Rightarrow>
          if second_ok b0 b1 \<and> cont_ok b2 \<and> cont_ok b3
          then ((b0 - 240) * 262144 + (b1 - 128) * 4096 + (b2 - 128) * 64 + (b3 - 128), 4, True)
          else (rune_error, 1, False)
        | _ \<Rightarrow> (rune_error, 1, False))
     else (rune_error, 1, False))"

lemma decode_rune_width: "bs \<noteq> [] \<Longrightarrow> 0 < fst (snd (decode_rune bs))"
  by (auto simp: decode_rune_def split: list.splits)

text \<open>The runes a \<open>for \<dots> range\<close> loop visits, each with its validity.\<close>

function runes :: "nat list \<Rightarrow> (rune \<times> bool) list" where
  "runes [] = []"
| "runes (b # bs) = (let (r, w, ok) = decode_rune (b # bs) in (r, ok) # runes (drop (w - 1) bs))"
  by pat_completeness auto
termination by (relation "measure length") auto

definition valid_utf8 :: "string \<Rightarrow> bool" where
  "valid_utf8 s = list_all snd (runes (map byte s))"

definition rune_list :: "string \<Rightarrow> rune list" where
  "rune_list s = map fst (runes (map byte s))"

lemma runes_ascii: "list_all (\<lambda>b. b < 128) bs \<Longrightarrow> runes bs = map (\<lambda>b. (b, True)) bs"
  by (induction bs rule: runes.induct) (auto simp: decode_rune_def)

lemma rune_list_ascii: "list_all (\<lambda>c. byte c < 128) s \<Longrightarrow> rune_list s = map byte s"
  unfolding rune_list_def by (subst runes_ascii) (simp_all add: list_all_iff comp_def)

definition rune_count :: "string \<Rightarrow> nat" where
  "rune_count s = length (runes (map byte s))"

definition encode_rune :: "rune \<Rightarrow> nat list" where
  "encode_rune r =
     (if r < 128 then [r]
      else if r < 2048 then [192 + r div 64, 128 + r mod 64]
      else if r < 65536 then [224 + r div 4096, 128 + r div 64 mod 64, 128 + r mod 64]
      else [240 + r div 262144, 128 + r div 4096 mod 64, 128 + r div 64 mod 64, 128 + r mod 64])"

text \<open>\<open>unicode.IsControl\<close>: the two C0 and C1 ranges.\<close>

definition is_control :: "rune \<Rightarrow> bool" where
  "is_control r \<longleftrightarrow> r < 32 \<or> 127 \<le> r \<and> r < 160"

subsection \<open>White space\<close>

text \<open>
  \<open>strings.TrimSpace\<close> strips runes with \<open>unicode.IsSpace\<close> from both ends.  The
  encodings of these runes are listed; at the right end \<open>utf8.DecodeLastRuneInString\<close>
  yields a white-space rune exactly when the string ends in its encoding.
\<close>

definition space_runes :: "rune list" where
  "space_runes = [9, 10, 11, 12, 13, 32, 133, 160, 5760, 8192, 8193, 8194, 8195, 8196, 8197,
     8198, 8199, 8200, 8201, 8202, 8232, 8233, 8239, 8287, 12288]"

text \<open>Their UTF-8 encodings.\<close>

definition space_encodings :: "nat list list" where
  "space_encodings = [[9], [10], [11], [12], [13], [32],
     [194, 133], [194, 160], [225, 154, 128], [226, 128, 128], [226, 128, 129], [226, 128, 130],
     [226, 128, 131], [226, 128, 132], [226, 128, 133], [226, 128, 134], [226, 128, 135], [226, 128, 136],
     [226, 128, 137], [226, 128, 138], [226, 128, 168], [226, 128, 169], [226, 128, 175], [226, 129, 159],
     [227, 128, 128]]"

lemma space_encodings_eq: "space_encodings = map encode_rune space_runes"
  by (simp add: space_encodings_def space_runes_def encode_rune_def)

fun is_prefix :: "nat list \<Rightarrow> nat list \<Rightarrow> bool" where
  "is_prefix [] _ = True"
| "is_prefix (_ # _) [] = False"
| "is_prefix (x # xs) (y # ys) = (x = y \<and> is_prefix xs ys)"

definition lead_space :: "nat list list \<Rightarrow> string \<Rightarrow> nat" where
  "lead_space encs s = (case find (\<lambda>e. is_prefix e (map byte s)) encs of Some e \<Rightarrow> length e | None \<Rightarrow> 0)"

function strip_lead :: "nat list list \<Rightarrow> string \<Rightarrow> string" where
  "strip_lead encs s = (if lead_space encs s = 0 \<or> s = [] then s else strip_lead encs (drop (lead_space encs s) s))"
  by pat_completeness auto
termination by (relation "measure (length \<circ> snd)") auto

declare strip_lead.simps [simp del]

definition trim_left :: "string \<Rightarrow> string" where
  "trim_left s = strip_lead space_encodings s"

definition trim_right :: "string \<Rightarrow> string" where
  "trim_right s = rev (strip_lead (map rev space_encodings) (rev s))"

definition trim_space :: "string \<Rightarrow> string" where
  "trim_space s = trim_right (trim_left s)"

lemma is_prefix_take: "is_prefix e (take n xs) \<Longrightarrow> is_prefix e xs"
proof (induction e xs arbitrary: n rule: is_prefix.induct)
  case (3 x xs y ys)
  then show ?case by (cases n) auto
qed auto

lemma lead_space_0_iff:
  assumes "[] \<notin> set encs"
  shows "lead_space encs s = 0 \<longleftrightarrow> (\<forall>e\<in>set encs. \<not> is_prefix e (map byte s))"
proof (cases "find (\<lambda>e. is_prefix e (map byte s)) encs")
  case None
  then have "lead_space encs s = 0" by (simp add: lead_space_def)
  moreover from None have "\<forall>e\<in>set encs. \<not> is_prefix e (map byte s)" by (simp add: find_None_iff)
  ultimately show ?thesis by simp
next
  case (Some e)
  then have "e \<in> set encs" and "is_prefix e (map byte s)" by (auto simp: find_Some_iff)
  with Some assms show ?thesis by (auto simp: lead_space_def)
qed

lemma lead_space_take:
  assumes "[] \<notin> set encs" and "lead_space encs s = 0"
  shows "lead_space encs (take n s) = 0"
  unfolding lead_space_0_iff [OF assms(1)]
proof
  fix e assume e: "e \<in> set encs"
  show "\<not> is_prefix e (map byte (take n s))"
  proof
    assume "is_prefix e (map byte (take n s))"
    then have "is_prefix e (take n (map byte s))" by (simp only: take_map)
    then have "is_prefix e (map byte s)" by (rule is_prefix_take)
    with e assms(2) show False unfolding lead_space_0_iff [OF assms(1)] by blast
  qed
qed

lemma space_encodings_nonempty: "[] \<notin> set space_encodings"
  by (simp add: space_encodings_def)

lemma strip_lead_lead: "lead_space encs (strip_lead encs s) = 0 \<or> strip_lead encs s = []"
  by (induction encs s rule: strip_lead.induct) (subst (1 2) strip_lead.simps, auto)

lemma strip_lead_suffix: "\<exists>n. strip_lead encs s = drop n s"
proof (induction encs s rule: strip_lead.induct)
  case (1 encs s)
  show ?case
  proof (cases "lead_space encs s = 0 \<or> s = []")
    case True
    then have "strip_lead encs s = drop 0 s" by (subst strip_lead.simps) simp
    then show ?thesis by blast
  next
    case False
    with 1 obtain n where "strip_lead encs (drop (lead_space encs s) s) = drop n (drop (lead_space encs s) s)"
      by blast
    moreover have "strip_lead encs s = strip_lead encs (drop (lead_space encs s) s)"
      using False by (subst strip_lead.simps) simp
    ultimately show ?thesis by (auto simp: drop_drop)
  qed
qed

lemma strip_lead_id: "lead_space encs s = 0 \<or> s = [] \<Longrightarrow> strip_lead encs s = s"
  by (subst strip_lead.simps) simp

lemma trim_right_take: "\<exists>n. trim_right s = take n s"
proof -
  obtain n where "strip_lead (map rev space_encodings) (rev s) = drop n (rev s)"
    using strip_lead_suffix by blast
  then have "trim_right s = take (length s - n) s" by (simp add: trim_right_def drop_rev)
  then show ?thesis by blast
qed

lemma trim_space_idem [simp]: "trim_space (trim_space s) = trim_space s"
proof -
  let ?E = "space_encodings" and ?R = "map rev space_encodings"
  let ?l = "trim_left s" and ?t = "trim_space s"
  obtain n where t: "?t = take n ?l" using trim_right_take unfolding trim_space_def by blast
  have "lead_space ?E ?t = 0 \<or> ?t = []"
    using strip_lead_lead[of ?E s]
  proof
    assume "lead_space ?E (strip_lead ?E s) = 0"
    from lead_space_take[OF space_encodings_nonempty this]
    show ?thesis unfolding t trim_left_def by simp
  qed (simp add: t trim_left_def)
  then have l: "trim_left ?t = ?t" by (simp add: trim_left_def strip_lead_id)
  have "lead_space ?R (rev ?t) = 0 \<or> rev ?t = []"
    using strip_lead_lead[of ?R "rev ?l"] by (simp add: trim_space_def trim_right_def)
  then have "trim_right ?t = ?t" by (simp add: trim_right_def strip_lead_id del: rev_is_Nil_conv)
  with l show ?thesis by (simp add: trim_space_def)
qed

lemma trim_space_Nil [simp]: "trim_space [] = []"
  by (simp add: trim_space_def trim_left_def trim_right_def strip_lead_id)

subsection \<open>Case folding\<close>

text \<open>
  \<open>uc_lower\<close> is \<open>unicode.ToLower\<close> and \<open>uc_fold\<close> the least rune of the
  \<open>unicode.SimpleFold\<close> orbit, both on runes beyond ASCII (the ASCII letters are folded by
  the code of \<open>strings\<close> itself).  \<open>strings.EqualFold\<close> compares rune by rune and accepts
  two runes exactly when they lie on the same orbit.
\<close>

record unicode =
  uc_lower :: "rune \<Rightarrow> rune"
  uc_fold :: "rune \<Rightarrow> rune"

definition ascii_unicode :: unicode where
  "ascii_unicode = \<lparr>uc_lower = (\<lambda>r. r), uc_fold = (\<lambda>r. r)\<rparr>"

definition lower_rune :: "unicode \<Rightarrow> rune \<Rightarrow> rune" where
  "lower_rune uc r = (if r < 128 then (if 65 \<le> r \<and> r \<le> 90 then r + 32 else r) else uc_lower uc r)"

definition fold_rune :: "unicode \<Rightarrow> rune \<Rightarrow> rune" where
  "fold_rune uc r = (if r < 128 then (if 97 \<le> r \<and> r \<le> 122 then r - 32 else r) else uc_fold uc r)"

definition to_lower :: "unicode \<Rightarrow> string \<Rightarrow> string" where
  "to_lower uc s = map char_of (concat (map (encode_rune \<circ> lower_rune uc) (rune_list s)))"

definition equal_fold :: "unicode \<Rightarrow> string \<Rightarrow> string \<Rightarrow> bool" where
  "equal_fold uc s t \<longleftrightarrow> map (fold_rune uc) (rune_list s) = map (fold_rune uc) (rune_list t)"

lemma equal_fold_refl [simp]: "equal_fold uc s s"
  by (simp add: equal_fold_def)

lemma equal_fold_sym: "equal_fold uc s t \<Longrightarrow> equal_fold uc t s"
  by (simp add: equal_fold_def)

lemma equal_fold_trans: "equal_fold uc s t \<Longrightarrow> equal_fold uc t u \<Longrightarrow> equal_fold uc s u"
  by (simp add: equal_fold_def)

subsection \<open>Character classes, hexadecimal and base 32\<close>

definition in_range :: "char \<Rightarrow> char \<Rightarrow> char \<Rightarrow> bool" where
  "in_range lo hi c \<longleftrightarrow> byte lo \<le> byte c \<and> byte c \<le> byte hi"

definition is_digit :: "char \<Rightarrow> bool" where
  "is_digit = in_range (CHR ''0'') (CHR ''9'')"

definition is_lower_hex :: "char \<Rightarrow> bool" where
  "is_lower_hex c \<longleftrightarrow> is_digit c \<or> in_range (CHR ''a'') (CHR ''f'') c"

definition is_alnum :: "char \<Rightarrow> bool" where
  "is_alnum c \<longleftrightarrow> is_digit c \<or> in_range (CHR ''a'') (CHR ''z'') c \<or> in_range (CHR ''A'') (CHR ''Z'') c"

definition hex_digit :: "nat \<Rightarrow> char" where
  "hex_digit n = ''0123456789abcdef'' ! n"

definition hex_byte :: "8 word \<Rightarrow> string" where
  "hex_byte b = [hex_digit (unat b div 16), hex_digit (unat b mod 16)]"

text \<open>\<open>fmt.Sprintf("%x", b)\<close> and \<open>hex.EncodeToString\<close>.\<close>

definition hex_string :: "8 word list \<Rightarrow> string" where
  "hex_string bs = concat (map hex_byte bs)"

lemma hex_digit_lower: "n < 16 \<Longrightarrow> is_lower_hex (hex_digit n)"
proof -
  have "\<forall>n\<in>set [0..<16]. is_lower_hex (hex_digit n)" by code_simp
  then show "n < 16 \<Longrightarrow> is_lower_hex (hex_digit n)" by auto
qed

lemma hex_string_lower: "list_all is_lower_hex (hex_string bs)"
proof (induction bs)
  case (Cons b bs)
  have "unat b < 256" by (rule order.strict_trans2 [OF unsigned_less]) simp
  then have "unat b div 16 < 16" and "unat b mod 16 < 16" by (auto simp: less_mult_imp_div_less)
  with Cons show ?case by (simp add: hex_string_def hex_byte_def hex_digit_lower)
qed (simp add: hex_string_def)

lemma hex_string_length [simp]: "length (hex_string bs) = 2 * length bs"
  by (induction bs) (simp_all add: hex_string_def hex_byte_def)

text \<open>
  \<open>base32.Encoding.EncodeToString\<close> without padding: groups of five bits, the last one
  filled with zero bits.
\<close>

definition byte_bits :: "8 word \<Rightarrow> bool list" where
  "byte_bits b = map (\<lambda>i. bit b (7 - i)) [0..<8]"

fun groups5 :: "bool list \<Rightarrow> bool list list" where
  "groups5 (a # b # c # d # e # rest) = [a, b, c, d, e] # groups5 rest"
| "groups5 [] = []"
| "groups5 bs = [take 5 (bs @ [False, False, False, False])]"

definition group_value :: "bool list \<Rightarrow> nat" where
  "group_value = foldl (\<lambda>n b. 2 * n + of_bool b) 0"

definition base32_string :: "string \<Rightarrow> 8 word list \<Rightarrow> string" where
  "base32_string alphabet bs = map (\<lambda>g. alphabet ! group_value g) (groups5 (concat (map byte_bits bs)))"

lemma groups5_length: "g \<in> set (groups5 bs) \<Longrightarrow> length g = 5"
  by (induction bs rule: groups5.induct) auto

lemma group_value_less: "group_value g < 2 ^ length g"
proof (induction g rule: rev_induct)
  case (snoc b g)
  then show ?case by (cases b) (simp_all add: group_value_def)
qed (simp add: group_value_def)

lemma base32_string_alphabet:
  assumes "length alphabet = 32" and "list_all P alphabet"
  shows "list_all P (base32_string alphabet bs)"
proof -
  have "P (alphabet ! group_value g)" if "g \<in> set (groups5 (concat (map byte_bits bs)))" for g
  proof -
    have "group_value g < length alphabet"
      using group_value_less[of g] groups5_length[OF that] assms(1) by simp
    then show ?thesis using assms(2) by (simp add: list_all_length)
  qed
  then show ?thesis by (simp add: base32_string_def list_all_iff)
qed

lemma groups5_count: "length (groups5 bs) = (length bs + 4) div 5"
  by (induction bs rule: groups5.induct) auto

lemma base32_string_length: "length (base32_string alphabet bs) = (8 * length bs + 4) div 5"
proof -
  have "length (concat (map byte_bits bs)) = 8 * length bs"
    by (induction bs) (simp_all add: byte_bits_def)
  then show ?thesis by (simp add: base32_string_def groups5_count)
qed

subsection \<open>RFC 3339 times\<close>

text \<open>
  \<open>time.Parse(time.RFC3339, s)\<close> succeeds, for a string ending in \<open>Z\<close>: four digits of
  year, two of month and day, one or two of the hour, two of minute and second, an optional
  fraction (period or comma and digits), \<open>Z\<close>; each field in its range and the day in its month.
\<close>

definition digits_value :: "string \<Rightarrow> nat" where
  "digits_value s = foldl (\<lambda>n c. 10 * n + (byte c - 48)) 0 s"

definition take_digits :: "nat \<Rightarrow> string \<Rightarrow> (nat \<times> string) option" where
  "take_digits n s =
     (if n \<le> length s \<and> list_all is_digit (take n s) then Some (digits_value (take n s), drop n s) else None)"

definition take_char :: "char \<Rightarrow> string \<Rightarrow> string option" where
  "take_char c s = (case s of [] \<Rightarrow> None | d # t \<Rightarrow> if d = c then Some t else None)"

definition leap_year :: "nat \<Rightarrow> bool" where
  "leap_year y \<longleftrightarrow> y mod 4 = 0 \<and> (y mod 100 \<noteq> 0 \<or> y mod 400 = 0)"

definition days_in :: "nat \<Rightarrow> nat \<Rightarrow> nat" where
  "days_in y m = (if m = 2 then (if leap_year y then 29 else 28)
                  else if m \<in> {4, 6, 9, 11} then 30 else 31)"

definition take_hour :: "string \<Rightarrow> (nat \<times> string) option" where
  "take_hour s = (case take_digits 2 s of Some r \<Rightarrow> Some r | None \<Rightarrow> take_digits 1 s)"

definition skip_fraction :: "string \<Rightarrow> string" where
  "skip_fraction s = (case s of
      p # d # t \<Rightarrow> if (p = CHR ''.'' \<or> p = CHR '','') \<and> is_digit d then dropWhile is_digit t else s
    | _ \<Rightarrow> s)"

definition rfc3339_utc :: "string \<Rightarrow> bool" where
  "rfc3339_utc s =
    (case Option.bind (take_digits 4 s) (\<lambda>(y, s).
          Option.bind (take_char (CHR ''-'') s) (\<lambda>s.
          Option.bind (take_digits 2 s) (\<lambda>(mo, s).
          Option.bind (take_char (CHR ''-'') s) (\<lambda>s.
          Option.bind (take_digits 2 s) (\<lambda>(d, s).
          Option.bind (take_char (CHR ''T'') s) (\<lambda>s.
          Option.bind (take_hour s) (\<lambda>(h, s).
          Option.bind (take_char (CHR '':'') s) (\<lambda>s.
          Option.bind (take_digits 2 s) (\<lambda>(mi, s).
          Option.bind (take_char (CHR '':'') s) (\<lambda>s.
          Option.bind (take_digits 2 s) (\<lambda>(sec, s).
          Some (y, mo, d, h, mi, sec, skip_fraction s)))))))))))) of
       None \<Rightarrow> False
     | Some (y, mo, d, h, mi, sec, rest) \<Rightarrow>
         1 \<le> mo \<and> mo \<le> 12 \<and> 1 \<le> d \<and> d \<le> days_in y mo \<and> h < 24 \<and> mi < 60 \<and> sec < 60 \<and>
         rest = ''Z'')"

subsection \<open>Decimal numerals\<close>

fun itoa_nat :: "nat \<Rightarrow> string" where
  "itoa_nat n = (if n < 10 then [char_of (48 + n)] else itoa_nat (n div 10) @ [char_of (48 + n mod 10)])"

declare itoa_nat.simps [simp del]

definition itoa :: "int \<Rightarrow> string" where
  "itoa i = (if i < 0 then ''-'' @ itoa_nat (nat (- i)) else itoa_nat (nat i))"

lemma is_digit_char: "m < 10 \<Longrightarrow> is_digit (char_of (48 + m))" for m :: nat
  by (auto simp: is_digit_def in_range_def byte_def)

lemma byte_digit: "m < 10 \<Longrightarrow> byte (char_of (48 + m)) = 48 + m" for m :: nat
  by (simp add: byte_def)

lemma itoa_nat_digits: "list_all is_digit (itoa_nat n)"
proof (induction n rule: itoa_nat.induct)
  case (1 n)
  then show ?case using is_digit_char[of n] is_digit_char[of "n mod 10"]
    by (subst itoa_nat.simps) auto
qed

lemma itoa_nat_not_Nil [simp]: "itoa_nat n \<noteq> []"
  by (subst itoa_nat.simps) simp

lemma digits_value_simps [simp]:
  "digits_value [] = 0"
  "digits_value (s @ [c]) = 10 * digits_value s + (byte c - 48)"
  by (simp_all add: digits_value_def)

lemma digits_value_itoa [simp]: "digits_value (itoa_nat n) = n"
proof (induction n rule: itoa_nat.induct)
  case (1 n)
  show ?case
  proof (cases "n < 10")
    case True
    then show ?thesis using digits_value_simps(2)[of "[]" "char_of (48 + n)"]
      by (subst itoa_nat.simps) (simp add: byte_def)
  next
    case False
    then have "digits_value (itoa_nat (n div 10)) = n div 10" using 1 by simp
    with False show ?thesis
      using byte_digit[of "n mod 10"]
      by (subst itoa_nat.simps) simp
  qed
qed

lemma itoa_nat_inject [simp]: "itoa_nat m = itoa_nat n \<longleftrightarrow> m = n"
  using digits_value_itoa by metis

definition pad_zeros :: "nat \<Rightarrow> string \<Rightarrow> string" where
  "pad_zeros n s = replicate (n - length s) (CHR ''0'') @ s"

lemma digits_value_zero: "digits_value (CHR ''0'' # s) = digits_value s"
  by (simp add: digits_value_def byte_def)

lemma digits_value_pad [simp]: "digits_value (pad_zeros n s) = digits_value s"
proof -
  have "digits_value (replicate k (CHR ''0'') @ s) = digits_value s" for k
    by (induction k) (simp_all add: digits_value_zero)
  then show ?thesis by (simp add: pad_zeros_def)
qed

lemma pad_zeros_digits: "list_all is_digit s \<Longrightarrow> list_all is_digit (pad_zeros n s)"
  by (auto simp: pad_zeros_def list_all_iff is_digit_def in_range_def byte_def)

text \<open>\<open>%0nd\<close>: the sign takes a place, the zeros go after it.\<close>

definition fmt_0d :: "nat \<Rightarrow> int \<Rightarrow> string" where
  "fmt_0d n i = (if i < 0 then ''-'' @ pad_zeros (n - 1) (itoa_nat (nat (- i))) else pad_zeros n (itoa_nat (nat i)))"

subsection \<open>Substrings\<close>

text \<open>\<open>strings.Contains\<close>.\<close>

definition contains_str :: "string \<Rightarrow> string \<Rightarrow> bool" where
  "contains_str s t \<longleftrightarrow> list_ex (\<lambda>k. take (length t) (drop k s) = t) [0..<Suc (length s)]"

lemma contains_str_iff: "contains_str s t \<longleftrightarrow> (\<exists>u v. s = u @ t @ v)"
proof
  assume "contains_str s t"
  then obtain k where "take (length t) (drop k s) = t" by (auto simp: contains_str_def list_ex_iff)
  then have "s = take k s @ t @ drop (length t) (drop k s)" by (metis append_take_drop_id)
  then show "\<exists>u v. s = u @ t @ v" by blast
next
  assume "\<exists>u v. s = u @ t @ v"
  then obtain u v where s: "s = u @ t @ v" by blast
  then have "length u \<in> set [0..<Suc (length s)]" "take (length t) (drop (length u) s) = t"
    by (simp_all del: upt_Suc)
  then show "contains_str s t" unfolding contains_str_def list_ex_iff by blast
qed


subsection \<open>Prefixes, fields and deletion\<close>

text \<open>\<open>strings.HasPrefix\<close>, \<open>strings.TrimPrefix\<close>, and \<open>strings.ReplaceAll\<close> with an empty replacement.\<close>

definition has_prefix :: "string \<Rightarrow> string \<Rightarrow> bool" where
  "has_prefix s p \<longleftrightarrow> take (length p) s = p"

definition trim_prefix :: "string \<Rightarrow> string \<Rightarrow> string" where
  "trim_prefix s p = (if has_prefix s p then drop (length p) s else s)"

function delete_all :: "string \<Rightarrow> string \<Rightarrow> string" where
  "delete_all p s = (if p = [] \<or> s = [] then s
     else if has_prefix s p then delete_all p (drop (length p) s)
     else hd s # delete_all p (tl s))"
  by pat_completeness auto
termination by (relation "measure (length \<circ> snd)") auto

declare delete_all.simps [simp del]

text \<open>\<open>strings.Fields\<close>: the maximal runs without white space.\<close>

function fields_from :: "string \<Rightarrow> string \<Rightarrow> string list" where
  "fields_from cur s =
     (if s = [] then (if cur = [] then [] else [cur])
      else if lead_space space_encodings s = 0 then fields_from (cur @ [hd s]) (tl s)
      else (if cur = [] then [] else [cur]) @ fields_from [] (drop (lead_space space_encodings s) s))"
  by pat_completeness auto
termination by (relation "measure (length \<circ> snd)") auto

declare fields_from.simps [simp del]

definition string_fields :: "string \<Rightarrow> string list" where
  "string_fields s = fields_from [] s"

lemma fields_from_nonempty: "\<forall>f\<in>set (fields_from cur s). f \<noteq> []"
proof (induction cur s rule: fields_from.induct)
  case (1 cur s)
  note f = fields_from.simps[of cur s]
  show ?case
  proof (cases "s = []")
    case True
    then show ?thesis unfolding f by simp
  next
    case False
    show ?thesis
    proof (cases "lead_space space_encodings s = 0")
      case True
      then have "\<forall>f\<in>set (fields_from (cur @ [hd s]) (tl s)). f \<noteq> []" using False 1(1) by blast
      then show ?thesis unfolding f using False True by (simp only: if_True if_False refl)
    next
      case sep: False
      then have "\<forall>f\<in>set (fields_from [] (drop (lead_space space_encodings s) s)). f \<noteq> []" using False 1(2) by blast
      then show ?thesis unfolding f using False sep by (auto simp only: if_False set_append set_simps split: if_splits)
    qed
  qed
qed

lemma string_fields_nonempty: "f \<in> set (string_fields s) \<Longrightarrow> f \<noteq> []"
  using fields_from_nonempty by (auto simp: string_fields_def)

lemma lead_space_plain:
  assumes "33 \<le> byte c" "byte c < 128"
  shows "lead_space space_encodings (c # s) = 0" and "lead_space (map rev space_encodings) (c # s) = 0"
proof -
  have "byte c \<noteq> 194" "byte c \<noteq> 225" "byte c \<noteq> 226" "byte c \<noteq> 227" "byte c \<noteq> 32"
     "byte c \<noteq> 9" "byte c \<noteq> 10" "byte c \<noteq> 11" "byte c \<noteq> 12" "byte c \<noteq> 13" using assms by auto
  moreover have "e \<in> set space_encodings \<Longrightarrow> 128 \<le> last e \<or> last e < 33" for e
    by (auto simp: space_encodings_def)
  moreover have "\<forall>e\<in>set (map rev space_encodings). \<exists>x xs. e = x # xs \<and> (128 \<le> x \<or> x < 33)"
    unfolding space_encodings_def by simp
  moreover have "\<forall>e\<in>set space_encodings. \<exists>x xs. e = x # xs \<and> (128 \<le> x \<or> x < 33)"
    unfolding space_encodings_def by simp
  ultimately show "lead_space space_encodings (c # s) = 0" "lead_space (map rev space_encodings) (c # s) = 0"
    using assms unfolding lead_space_def
    by (fastforce simp: find_None_iff split: option.splits dest: find_SomeD)+
qed

text \<open>Words of printing ASCII.\<close>

definition plain :: "string \<Rightarrow> bool" where
  "plain s \<longleftrightarrow> s \<noteq> [] \<and> list_all (\<lambda>c. 33 \<le> byte c \<and> byte c < 128) s"

lemma plain_trim: "plain s \<Longrightarrow> trim_space s = s"
proof -
  assume s: "plain s"
  then have "s \<noteq> []" "rev s \<noteq> []" by (simp_all add: plain_def)
  then obtain c t d u where e: "s = c # t" "rev s = d # u" unfolding neq_Nil_conv by blast
  have "c \<in> set s" "d \<in> set s" using e(1) arg_cong[OF e(2), of set] by auto
  then have "33 \<le> byte c" "byte c < 128" "33 \<le> byte d" "byte d < 128" using s by (auto simp: plain_def list_all_iff)
  then have "trim_left s = s" "strip_lead (map rev space_encodings) (d # u) = d # u"
    by (simp_all add: trim_left_def e(1) strip_lead_id lead_space_plain)
  then have "trim_left s = s" "strip_lead (map rev space_encodings) (rev s) = rev s" unfolding e(2) .
  then show ?thesis by (simp add: trim_space_def trim_right_def)
qed

lemma fields_from_plain: "list_all (\<lambda>c. 33 \<le> byte c \<and> byte c < 128) s \<Longrightarrow> fields_from cur s = (if cur @ s = [] then [] else [cur @ s])"
proof (induction s arbitrary: cur)
  case Nil
  then show ?case by (simp add: fields_from.simps[of _ "[]"])
next
  case (Cons c s)
  then show ?case by (simp add: fields_from.simps[of _ "c # s"] lead_space_plain)
qed

lemma plain_fields: "plain s \<Longrightarrow> string_fields s = [s]"
  by (simp add: string_fields_def fields_from_plain plain_def)

end
