(* ===== verification/Annotations_Doc.thy ===== *)
theory Annotations_Doc
  imports Go_Strings
begin

text \<open>
  The annotations document (\<open>cassini-annotations/document.go\<close>): the tags of a meeting and
  the marks that apply them.  Records are the Go structs, a pointer member is an
  \<open>option\<close>, and every validation function returns the first error it finds.  A document is
  a value here: \<open>Clone\<close> copies every pointer of it, so no two live documents share one.
\<close>

subsection \<open>Data\<close>

record actor =
  act_kind :: string
  act_id :: string

record target =
  tg_kind :: string
  tg_start :: "int option"
  tg_end :: "int option"

record tag =
  tag_id :: string
  tag_label :: string
  tag_color :: "string option"
  tag_icon :: "string option"

record item =
  it_id :: string
  it_tag_id :: string
  it_target :: target
  it_created :: string
  it_actor :: actor
  it_operation :: string

record meeting =
  mt_title :: string
  mt_set_at :: string
  mt_actor :: actor

record annotations =
  an_format :: string
  an_revision :: int
  an_audio :: string
  an_namespace :: string
  an_tags :: "tag list"
  an_items :: "item list"
  an_meeting :: "meeting option"

definition annotations_format_v1 :: string where "annotations_format_v1 = ''cassini.annotations.v1''"
definition target_meeting :: string where "target_meeting = ''meeting''"
definition target_time_range :: string where "target_time_range = ''time-range''"
definition max_annotation_tags :: nat where "max_annotation_tags = 200"
definition max_annotation_items :: nat where "max_annotation_items = 2000"
definition max_label_runes :: nat where "max_label_runes = 64"
definition max_title_runes :: nat where "max_title_runes = 200"
definition max_actor_id_len :: nat where "max_actor_id_len = 256"
definition id_random_bytes :: nat where "id_random_bytes = 16"

definition is_annotation_tag_color :: "string \<Rightarrow> bool" where
  "is_annotation_tag_color s \<longleftrightarrow> s \<in> {''slate'', ''red'', ''orange'', ''amber'', ''green'', ''teal'',
     ''cyan'', ''blue'', ''indigo'', ''violet'', ''purple'', ''pink''}"

definition is_annotation_tag_icon :: "string \<Rightarrow> bool" where
  "is_annotation_tag_icon s \<longleftrightarrow> s \<in> {'''', ''star'', ''flag'', ''bolt'', ''bookmark'', ''check'', ''alert'',
     ''bug'', ''heart'', ''question'', ''lightbulb'', ''target'', ''users'',
     ''calendar'', ''money'', ''lock'', ''chat''}"

subsection \<open>Identifiers\<close>

text \<open>\<open>annotationIDRE\<close>, \<open>annotationNamespaceRE\<close> and \<open>sha256HexRE\<close>, as matchers.\<close>

definition is_annotation_id :: "string \<Rightarrow> bool" where
  "is_annotation_id s = (case s of [] \<Rightarrow> False
     | c # cs \<Rightarrow> is_alnum c \<and> length cs \<le> 63 \<and>
         list_all (\<lambda>d. is_alnum d \<or> d = CHR ''_'' \<or> d = CHR ''-'') cs)"

fun match_groups :: "nat list \<Rightarrow> string \<Rightarrow> bool" where
  "match_groups [] s = (s = [])"
| "match_groups [n] s = (length s = n \<and> list_all is_lower_hex s)"
| "match_groups (n # m # ns) s =
     (n < length s \<and> list_all is_lower_hex (take n s) \<and> s ! n = CHR ''-'' \<and>
      match_groups (m # ns) (drop (Suc n) s))"

definition is_annotation_namespace :: "string \<Rightarrow> bool" where
  "is_annotation_namespace s \<longleftrightarrow>
     take 9 s = ''urn:uuid:'' \<and> match_groups [8, 4, 4, 4, 12] (drop 9 s)"

definition is_sha256_hex :: "string \<Rightarrow> bool" where
  "is_sha256_hex s \<longleftrightarrow> length s = 64 \<and> list_all is_lower_hex s"

text \<open>
  \<open>crypto/rand\<close>: the n-th read of the process answers sixteen bytes or an error.  A
  function that reads takes the number of reads done so far and returns the next one.
\<close>

type_synonym rng = "nat \<Rightarrow> 8 word list option"

definition id_alphabet :: string where
  "id_alphabet = ''abcdefghijklmnopqrstuvwxyz234567''"

definition new_annotation_id :: "rng \<Rightarrow> string \<Rightarrow> nat \<Rightarrow> (string \<times> nat) option" where
  "new_annotation_id rng prefix n =
     (case rng n of None \<Rightarrow> None
      | Some buf \<Rightarrow> Some (prefix @ ''_'' @ base32_string id_alphabet buf, Suc n))"

lemma byte_inj: "byte c = byte d \<Longrightarrow> c = d"
  by (simp add: byte_def)

lemma id_alphabet_ok:
  "length id_alphabet = 32"
  "list_all (\<lambda>d. is_alnum d \<or> d = CHR ''_'' \<or> d = CHR ''-'') id_alphabet"
  by (simp_all add: id_alphabet_def) code_simp

lemma new_annotation_id_valid:
  assumes "new_annotation_id rng prefix n = Some (i, n')"
    and "\<And>buf. rng n = Some buf \<Longrightarrow> length buf = id_random_bytes"
    and "prefix \<in> {''tag'', ''mk'', ''op''}"
  shows "is_annotation_id i"
proof -
  obtain buf where i: "i = prefix @ ''_'' @ base32_string id_alphabet buf"
    and len: "length buf = 16"
    using assms(1,2) by (auto simp: new_annotation_id_def id_random_bytes_def split: option.splits)
  have "list_all (\<lambda>d. is_alnum d \<or> d = CHR ''_'' \<or> d = CHR ''-'') (base32_string id_alphabet buf)"
    by (rule base32_string_alphabet [OF id_alphabet_ok])
  moreover have "length (base32_string id_alphabet buf) = 26"
    using len by (simp add: base32_string_length)
  moreover have "is_alnum (CHR ''t'') \<and> is_alnum (CHR ''a'') \<and> is_alnum (CHR ''g'') \<and>
      is_alnum (CHR ''m'') \<and> is_alnum (CHR ''k'') \<and> is_alnum (CHR ''o'') \<and> is_alnum (CHR ''p'')"
    by code_simp
  ultimately show ?thesis using assms(3) by (auto simp: i is_annotation_id_def)
qed

subsection \<open>Validation of the parts\<close>

datatype text_err = NotTrimmed | NotUtf8 | BadLength nat | HasControl

definition validate_annotation_label :: "string \<Rightarrow> (text_err, unit) res" where
  "validate_annotation_label label =
     (if label \<noteq> trim_space label then Inl NotTrimmed
      else if \<not> valid_utf8 label then Inl NotUtf8
      else let n = rune_count label in
        if n = 0 \<or> n > max_label_runes then Inl (BadLength n)
        else if list_ex is_control (rune_list label) then Inl HasControl
        else Inr ())"

definition validate_annotation_title :: "string \<Rightarrow> (text_err, unit) res" where
  "validate_annotation_title title =
     (if title \<noteq> trim_space title then Inl NotTrimmed
      else if \<not> valid_utf8 title then Inl NotUtf8
      else let n = rune_count title in
        if n = 0 \<or> n > max_title_runes then Inl (BadLength n)
        else if list_ex is_control (rune_list title) then Inl HasControl
        else Inr ())"

datatype target_err = MeetingWithTimes | RangeNeedsBoth | StartNegative int | RangeEmpty int int
  | DurationUnknown | EndPastAudio int int | UnknownKind string

definition validate_annotation_target :: "target \<Rightarrow> int \<Rightarrow> (target_err, unit) res" where
  "validate_annotation_target t dur =
     (if tg_kind t = target_meeting then
        (if tg_start t \<noteq> None \<or> tg_end t \<noteq> None then Inl MeetingWithTimes else Inr ())
      else if tg_kind t = target_time_range then
        (case (tg_start t, tg_end t) of
           (Some start, Some end) \<Rightarrow>
             if start < 0 then Inl (StartNegative start)
             else if end \<le> start then Inl (RangeEmpty start end)
             else if dur \<le> 0 then Inl DurationUnknown
             else if end > dur then Inl (EndPastAudio end dur)
             else Inr ()
         | _ \<Rightarrow> Inl RangeNeedsBoth)
      else Inl (UnknownKind (tg_kind t)))"

datatype time_err = NotUtc string | NotRfc3339 string

definition validate_annotation_time :: "string \<Rightarrow> (time_err, unit) res" where
  "validate_annotation_time s =
     (if s = [] \<or> last s \<noteq> CHR ''Z'' then Inl (NotUtc s)
      else if \<not> rfc3339_utc s then Inl (NotRfc3339 s) else Inr ())"

subsection \<open>Validation of a document\<close>

datatype doc_err = DocMissing | BadFormat string | BadRevision int | BadAudio | BadNamespace string
  | TooManyTags nat | TooManyItems nat
  | TagIdInvalid nat string | TagIdTwice nat string | TagLabelErr nat text_err
  | TagColorErr nat | TagIconErr nat
  | MeetingTitleErr text_err | MeetingTimeErr time_err | MeetingActorKindErr | MeetingActorIdErr
  | ItemIdInvalid nat string | ItemIdTwice nat string | ItemTagErr nat string
  | ItemTargetErr nat target_err | ItemTimeErr nat time_err | ItemActorKindErr nat
  | ItemActorIdErr nat | ItemOperationErr nat string

definition lift_err :: "('e \<Rightarrow> 'f) \<Rightarrow> ('e, 'a) res \<Rightarrow> ('f, 'a) res" where
  "lift_err f r = (case r of Inl e \<Rightarrow> Inl (f e) | Inr x \<Rightarrow> Inr x)"

lemma lift_err_Inr [simp]: "lift_err f r = Inr x \<longleftrightarrow> r = Inr x"
  by (simp add: lift_err_def split: sum.splits)

lemma lift_err_Inl [simp]: "lift_err f r = Inl y \<longleftrightarrow> (\<exists>e. r = Inl e \<and> y = f e)"
  by (auto simp: lift_err_def split: sum.splits)

definition opt_valid_utf8 :: "string option \<Rightarrow> bool" where
  "opt_valid_utf8 v = (case v of None \<Rightarrow> True | Some s \<Rightarrow> valid_utf8 s)"

definition bad_actor_id :: "string \<Rightarrow> bool" where
  "bad_actor_id i \<longleftrightarrow> trim_space i = [] \<or> length i > max_actor_id_len"

text \<open>The loop over the tags; \<open>seen\<close> is the set \<open>tagIDs\<close>, \<open>i\<close> the index.\<close>

fun validate_tags :: "nat \<Rightarrow> string list \<Rightarrow> tag list \<Rightarrow> (doc_err, string list) res" where
  "validate_tags i seen [] = Inr seen"
| "validate_tags i seen (t # ts) =
     (if \<not> is_annotation_id (tag_id t) then Inl (TagIdInvalid i (tag_id t))
      else if tag_id t \<in> set seen then Inl (TagIdTwice i (tag_id t))
      else case validate_annotation_label (tag_label t) of
        Inl e \<Rightarrow> Inl (TagLabelErr i e)
      | Inr _ \<Rightarrow>
          if \<not> opt_valid_utf8 (tag_color t) then Inl (TagColorErr i)
          else if \<not> opt_valid_utf8 (tag_icon t) then Inl (TagIconErr i)
          else validate_tags (Suc i) (tag_id t # seen) ts)"

definition validate_meeting :: "meeting option \<Rightarrow> (doc_err, unit) res" where
  "validate_meeting mo = (case mo of None \<Rightarrow> Inr () | Some m \<Rightarrow>
     (case validate_annotation_title (mt_title m) of
        Inl e \<Rightarrow> Inl (MeetingTitleErr e)
      | Inr _ \<Rightarrow> (case validate_annotation_time (mt_set_at m) of
        Inl e \<Rightarrow> Inl (MeetingTimeErr e)
      | Inr _ \<Rightarrow>
          if trim_space (act_kind (mt_actor m)) = [] then Inl MeetingActorKindErr
          else if bad_actor_id (act_id (mt_actor m)) then Inl MeetingActorIdErr
          else Inr ())))"

fun validate_items :: "string list \<Rightarrow> int \<Rightarrow> nat \<Rightarrow> string list \<Rightarrow> item list \<Rightarrow> (doc_err, unit) res" where
  "validate_items tag_ids dur i seen [] = Inr ()"
| "validate_items tag_ids dur i seen (it # its) =
     (if \<not> is_annotation_id (it_id it) then Inl (ItemIdInvalid i (it_id it))
      else if it_id it \<in> set seen then Inl (ItemIdTwice i (it_id it))
      else if it_tag_id it \<notin> set tag_ids then Inl (ItemTagErr i (it_tag_id it))
      else case validate_annotation_target (it_target it) dur of
        Inl e \<Rightarrow> Inl (ItemTargetErr i e)
      | Inr _ \<Rightarrow> (case validate_annotation_time (it_created it) of
        Inl e \<Rightarrow> Inl (ItemTimeErr i e)
      | Inr _ \<Rightarrow>
          if trim_space (act_kind (it_actor it)) = [] then Inl (ItemActorKindErr i)
          else if bad_actor_id (act_id (it_actor it)) then Inl (ItemActorIdErr i)
          else if \<not> is_annotation_id (it_operation it) then Inl (ItemOperationErr i (it_operation it))
          else validate_items tag_ids dur (Suc i) (it_id it # seen) its))"

definition validate_annotations :: "annotations option \<Rightarrow> int \<Rightarrow> (doc_err, unit) res" where
  "validate_annotations d dur = (case d of None \<Rightarrow> Inl DocMissing | Some a \<Rightarrow>
     if an_format a \<noteq> annotations_format_v1 then Inl (BadFormat (an_format a))
     else if an_revision a < 1 then Inl (BadRevision (an_revision a))
     else if \<not> is_sha256_hex (an_audio a) then Inl BadAudio
     else if \<not> is_annotation_namespace (an_namespace a) then Inl (BadNamespace (an_namespace a))
     else if length (an_tags a) > max_annotation_tags then Inl (TooManyTags (length (an_tags a)))
     else if length (an_items a) > max_annotation_items then Inl (TooManyItems (length (an_items a)))
     else bind_r (validate_tags 0 [] (an_tags a)) (\<lambda>tag_ids.
          bind_r (validate_meeting (an_meeting a)) (\<lambda>_.
          validate_items tag_ids dur 0 [] (an_items a))))"

subsection \<open>What a valid document is\<close>

definition wf_text :: "nat \<Rightarrow> string \<Rightarrow> bool" where
  "wf_text n s \<longleftrightarrow> trim_space s = s \<and> valid_utf8 s \<and> 0 < rune_count s \<and> rune_count s \<le> n \<and>
     (\<forall>r\<in>set (rune_list s). \<not> is_control r)"

definition wf_target :: "int \<Rightarrow> target \<Rightarrow> bool" where
  "wf_target dur t \<longleftrightarrow>
     tg_kind t = target_meeting \<and> tg_start t = None \<and> tg_end t = None \<or>
     tg_kind t = target_time_range \<and>
       (\<exists>s e. tg_start t = Some s \<and> tg_end t = Some e \<and> 0 \<le> s \<and> s < e \<and> e \<le> dur)"

definition wf_time :: "string \<Rightarrow> bool" where
  "wf_time s \<longleftrightarrow> s \<noteq> [] \<and> last s = CHR ''Z'' \<and> rfc3339_utc s"

definition wf_actor :: "actor \<Rightarrow> bool" where
  "wf_actor a \<longleftrightarrow> trim_space (act_kind a) \<noteq> [] \<and> trim_space (act_id a) \<noteq> [] \<and>
     length (act_id a) \<le> max_actor_id_len"

definition wf_tag :: "tag \<Rightarrow> bool" where
  "wf_tag t \<longleftrightarrow> is_annotation_id (tag_id t) \<and> wf_text max_label_runes (tag_label t) \<and>
     opt_valid_utf8 (tag_color t) \<and> opt_valid_utf8 (tag_icon t)"

definition wf_item :: "int \<Rightarrow> item \<Rightarrow> bool" where
  "wf_item dur it \<longleftrightarrow> is_annotation_id (it_id it) \<and> wf_target dur (it_target it) \<and>
     wf_time (it_created it) \<and> wf_actor (it_actor it) \<and> is_annotation_id (it_operation it)"

definition wf_meeting :: "meeting \<Rightarrow> bool" where
  "wf_meeting m \<longleftrightarrow> wf_text max_title_runes (mt_title m) \<and> wf_time (mt_set_at m) \<and> wf_actor (mt_actor m)"

definition refs_ok :: "annotations \<Rightarrow> bool" where
  "refs_ok a \<longleftrightarrow> distinct (map tag_id (an_tags a)) \<and> distinct (map it_id (an_items a)) \<and>
     it_tag_id ` set (an_items a) \<subseteq> tag_id ` set (an_tags a)"

definition wf_annotations :: "int \<Rightarrow> annotations \<Rightarrow> bool" where
  "wf_annotations dur a \<longleftrightarrow>
     an_format a = annotations_format_v1 \<and> 1 \<le> an_revision a \<and> is_sha256_hex (an_audio a) \<and>
     is_annotation_namespace (an_namespace a) \<and>
     length (an_tags a) \<le> max_annotation_tags \<and> length (an_items a) \<le> max_annotation_items \<and>
     refs_ok a \<and> list_all wf_tag (an_tags a) \<and> list_all (wf_item dur) (an_items a) \<and>
     (\<forall>m. an_meeting a = Some m \<longrightarrow> wf_meeting m)"

lemma validate_label_iff: "validate_annotation_label s = Inr u \<longleftrightarrow> wf_text max_label_runes s"
  by (auto simp: validate_annotation_label_def wf_text_def Let_def list_ex_iff)

lemma validate_title_iff: "validate_annotation_title s = Inr u \<longleftrightarrow> wf_text max_title_runes s"
  by (auto simp: validate_annotation_title_def wf_text_def Let_def list_ex_iff)

lemma validate_target_iff: "validate_annotation_target t dur = Inr u \<longleftrightarrow> wf_target dur t"
  by (auto simp: validate_annotation_target_def wf_target_def target_meeting_def target_time_range_def
      split: option.splits)

lemma validate_time_iff: "validate_annotation_time s = Inr u \<longleftrightarrow> wf_time s"
  by (simp add: validate_annotation_time_def wf_time_def)

lemmas validate_part_iffs = validate_label_iff validate_title_iff validate_target_iff validate_time_iff

lemma case_res_Inr: "(case r of Inl e \<Rightarrow> Inl (f e) | Inr x \<Rightarrow> g x) = Inr y \<longleftrightarrow> (\<exists>x. r = Inr x \<and> g x = Inr y)"
  by (simp split: sum.splits)

lemma validate_tags_iff:
  "validate_tags i seen ts = Inr ids \<longleftrightarrow>
     list_all wf_tag ts \<and> distinct (map tag_id ts) \<and> set (map tag_id ts) \<inter> set seen = {} \<and>
     ids = rev (map tag_id ts) @ seen"
proof (induction ts arbitrary: i seen)
  case (Cons t ts)
  have step: "validate_tags i seen (t # ts) = Inr ids \<longleftrightarrow>
      wf_tag t \<and> tag_id t \<notin> set seen \<and> validate_tags (Suc i) (tag_id t # seen) ts = Inr ids"
    by (auto simp: case_res_Inr validate_part_iffs wf_tag_def)
  show ?case unfolding step Cons.IH by auto
qed auto

lemma validate_meeting_iff: "validate_meeting mo = Inr u \<longleftrightarrow> (\<forall>m. mo = Some m \<longrightarrow> wf_meeting m)"
  by (cases mo) (auto simp: validate_meeting_def case_res_Inr validate_part_iffs wf_meeting_def
      wf_actor_def bad_actor_id_def)

lemma validate_items_iff:
  "validate_items ids dur i seen its = Inr () \<longleftrightarrow>
     list_all (wf_item dur) its \<and> distinct (map it_id its) \<and> set (map it_id its) \<inter> set seen = {} \<and>
     it_tag_id ` set its \<subseteq> set ids"
proof (induction its arbitrary: i seen)
  case (Cons it its)
  have step: "validate_items ids dur i seen (it # its) = Inr () \<longleftrightarrow>
      wf_item dur it \<and> it_id it \<notin> set seen \<and> it_tag_id it \<in> set ids \<and>
      validate_items ids dur (Suc i) (it_id it # seen) its = Inr ()"
    by (auto simp: case_res_Inr validate_part_iffs wf_item_def wf_actor_def bad_actor_id_def)
  show ?case unfolding step Cons.IH by auto
qed auto

text \<open>
  C39: the writer's check accepts exactly the well-formed documents: the format, revision,
  audio digest and namespace are right, the limits hold, tag and item ids are valid and
  distinct, every mark names a tag of the document, and every label, colour, target, time and
  actor is well formed.  (A missing document is refused.)
\<close>

theorem validate_annotations_iff:
  "validate_annotations d dur = Inr () \<longleftrightarrow> (\<exists>a. d = Some a \<and> wf_annotations dur a)"
  by (cases d) (auto simp: validate_annotations_def validate_tags_iff validate_meeting_iff
      validate_items_iff wf_annotations_def refs_ok_def bind_r_eq_Inr)

subsection \<open>Canonical order\<close>

definition int64_value :: "int option \<Rightarrow> int" where
  "int64_value p = (case p of None \<Rightarrow> 0 | Some v \<Rightarrow> v)"

definition tag_key :: "unicode \<Rightarrow> tag \<Rightarrow> string \<times> string" where
  "tag_key uc t = (to_lower uc (tag_label t), tag_id t)"

definition item_key :: "item \<Rightarrow> bool \<times> int \<times> int \<times> string" where
  "item_key it = (tg_kind (it_target it) \<noteq> target_meeting, int64_value (tg_start (it_target it)),
     int64_value (tg_end (it_target it)), it_id it)"

definition sort_tags :: "unicode \<Rightarrow> tag list \<Rightarrow> tag list" where
  "sort_tags uc = sort_key (tag_key uc)"

definition sort_items :: "item list \<Rightarrow> item list" where
  "sort_items = sort_key item_key"

definition canonicalize :: "unicode \<Rightarrow> annotations \<Rightarrow> annotations" where
  "canonicalize uc a = a\<lparr>an_tags := sort_tags uc (an_tags a), an_items := sort_items (an_items a)\<rparr>"

interpretation tag_order: stable_sorter "sort_tags uc" "tag_key uc"
  by unfold_locales (simp add: sort_tags_def)

interpretation item_order: stable_sorter sort_items item_key
  by unfold_locales (simp add: sort_items_def)

definition resolved :: "unicode \<Rightarrow> annotations option \<Rightarrow> string \<Rightarrow> bool" where
  "resolved uc d audio = (case d of None \<Rightarrow> False
     | Some a \<Rightarrow> if an_audio a = [] then False else an_audio a = to_lower uc (trim_space audio))"

lemma canonicalize_simps [simp]:
  "an_format (canonicalize uc a) = an_format a"
  "an_revision (canonicalize uc a) = an_revision a"
  "an_audio (canonicalize uc a) = an_audio a"
  "an_namespace (canonicalize uc a) = an_namespace a"
  "an_meeting (canonicalize uc a) = an_meeting a"
  "set (an_tags (canonicalize uc a)) = set (an_tags a)"
  "set (an_items (canonicalize uc a)) = set (an_items a)"
  "mset (an_tags (canonicalize uc a)) = mset (an_tags a)"
  "mset (an_items (canonicalize uc a)) = mset (an_items a)"
  "length (an_tags (canonicalize uc a)) = length (an_tags a)"
  "length (an_items (canonicalize uc a)) = length (an_items a)"
  by (simp_all add: canonicalize_def tag_order.srt_set item_order.srt_set tag_order.srt_mset
      item_order.srt_mset tag_order.srt_length item_order.srt_length)

lemma distinct_map_mset: "mset xs = mset ys \<Longrightarrow> distinct (map f xs) = distinct (map f ys)"
  by (metis mset_map mset_eq_imp_distinct_iff)

lemma refs_ok_canonicalize [simp]: "refs_ok (canonicalize uc a) = refs_ok a"
  using distinct_map_mset[of "an_tags (canonicalize uc a)" "an_tags a" tag_id]
    distinct_map_mset[of "an_items (canonicalize uc a)" "an_items a" it_id]
  by (simp add: refs_ok_def)

lemma wf_annotations_canonicalize: "wf_annotations dur (canonicalize uc a) = wf_annotations dur a"
  by (simp add: wf_annotations_def list_all_iff)

lemma inj_on_by_id: "distinct (map f xs) \<Longrightarrow> (\<And>x y. k x = k y \<Longrightarrow> f x = f y) \<Longrightarrow> inj_on k (set xs)"
  unfolding distinct_map inj_on_def by blast

text \<open>
  canonical order is total.  Two writers holding the same tags and marks, in whatever
  order each collected them, produce the same document; canonicalising again changes nothing,
  and no tag or mark is lost.
\<close>

theorem canonicalize_unique:
  assumes "mset (an_tags a) = mset (an_tags b)" and "mset (an_items a) = mset (an_items b)"
    and "refs_ok a"
    and "an_format a = an_format b" "an_revision a = an_revision b" "an_audio a = an_audio b"
      "an_namespace a = an_namespace b" "an_meeting a = an_meeting b"
  shows "canonicalize uc a = canonicalize uc b
    \<and> canonicalize uc (canonicalize uc a) = canonicalize uc a
    \<and> mset (an_items (canonicalize uc a)) = mset (an_items a)
    \<and> sorted (map item_key (an_items (canonicalize uc a)))"
proof (intro conjI)
  have "inj_on (tag_key uc) (set (an_tags a))"
    using assms(3) by (intro inj_on_by_id [where f = tag_id]) (auto simp: refs_ok_def tag_key_def)
  moreover have "inj_on item_key (set (an_items a))"
    using assms(3) by (intro inj_on_by_id [where f = it_id]) (auto simp: refs_ok_def item_key_def)
  ultimately show "canonicalize uc a = canonicalize uc b"
    using assms(4-) by (simp add: canonicalize_def tag_order.srt_unique [OF assms(1)]
        item_order.srt_unique [OF assms(2)])
qed (simp_all add: canonicalize_def tag_order.srt_idem item_order.srt_idem item_order.srt_mset
    item_order.srt_sorted)

subsection \<open>A document for the witnesses\<close>

definition ex_actor :: actor where
  "ex_actor = \<lparr>act_kind = ''person'', act_id = ''ada''\<rparr>"

definition ex_range :: "int \<Rightarrow> int \<Rightarrow> target" where
  "ex_range s e = \<lparr>tg_kind = ''time-range'', tg_start = Some s, tg_end = Some e\<rparr>"

definition ex_tag :: "string \<Rightarrow> string \<Rightarrow> tag" where
  "ex_tag i l = \<lparr>tag_id = i, tag_label = l, tag_color = None, tag_icon = None\<rparr>"

definition ex_item :: "string \<Rightarrow> string \<Rightarrow> target \<Rightarrow> string \<Rightarrow> item" where
  "ex_item i t tg oid = \<lparr>it_id = i, it_tag_id = t, it_target = tg,
     it_created = ''2024-05-01T10:00:00Z'', it_actor = ex_actor, it_operation = oid\<rparr>"

definition ex_doc :: "tag list \<Rightarrow> item list \<Rightarrow> annotations" where
  "ex_doc ts its = \<lparr>an_format = annotations_format_v1, an_revision = 1,
     an_audio = replicate 64 (CHR ''a''),
     an_namespace = ''urn:uuid:01234567-89ab-4def-8123-456789abcdef'',
     an_tags = ts, an_items = its, an_meeting = None\<rparr>"

lemma canonicalize_unique_witness:
  "canonicalize ascii_unicode (ex_doc [ex_tag ''t1'' ''b'', ex_tag ''t2'' ''a''] []) =
   canonicalize ascii_unicode (ex_doc [ex_tag ''t2'' ''a'', ex_tag ''t1'' ''b''] [])"
  by (rule canonicalize_unique [THEN conjunct1])
    (simp_all add: ex_doc_def refs_ok_def ex_tag_def)

end
