(* ===== verification/Annotations_Ops.thy ===== *)
theory Annotations_Ops
  imports Annotations_Doc
begin

text \<open>
  The annotation operations (\<open>cassini-annotations/ops.go\<close>, \<open>mutate.go\<close>): a batch of
  marks, unmarks, relabels, merges, restyles and title changes is worked out in memory against a
  copy of the document, and \<open>MutateBatch\<close> turns the result into the next validated snapshot.
  The Go functions edit the copy through a pointer; here each returns the edited document, the
  number of random reads done so far where it mints ids, and the \<open>notFound\<close> list it appends to.
\<close>

subsection \<open>Data\<close>

record op_tag =
  ot_id :: string
  ot_label :: "string option"

record op =
  op_op :: string
  op_tag :: "op_tag option"
  op_target :: "target option"
  op_item_id :: string
  op_tag_id :: string
  op_operation_id :: string
  op_label :: "string option"
  op_into :: "op_tag option"
  op_color :: "string option"
  op_icon :: "string option"
  op_title :: "string option"

record tag_style =
  ts_label :: string
  ts_color :: string
  ts_icon :: "string option"

record batch =
  ba_ops :: "op list"
  ba_styles :: "tag_style list"
  ba_initial :: "string \<Rightarrow> tag option"

record stamp =
  st_actor_kind :: string
  st_actor_id :: string
  st_operation :: string
  st_created :: string

record outcome =
  oc_doc :: annotations
  oc_changed :: bool
  oc_added :: "string list"
  oc_removed :: "string list"
  oc_not_found :: "string list"

text \<open>
  A \<open>Failure\<close> carries its exit code, the operation it happened in once
  \<open>ApplyBatch\<close> has wrapped it, and the reason; \<open>MintError\<close> is the plain error of
  \<open>newAnnotationID\<close> and \<open>NewNamespace\<close>.
\<close>

datatype reason = NeedsTag | NeedsTarget | OpLabelErr string text_err | TagNeedsIdOrLabel
  | OpTargetErr target_err | TagUndefined string | NeedsItemId | NeedsTagId | NeedsOperationId
  | NeedsLabel | LabelTaken string string | NeedsColorOrIcon | NotAColor | NotAnIcon
  | NeedsInto | IntoNeedsLabel | MergeIntoItself | TitleErr text_err | UnknownOp
  | DifferentAudio | InvalidDoc doc_err

datatype ann_err = Failure int "(nat \<times> string) option" reason | MintError

definition exit_invalid :: int where "exit_invalid = 4"

definition invalid :: "reason \<Rightarrow> (ann_err, 'a) res" where
  "invalid r = Inl (Failure exit_invalid None r)"

lemma invalid_neq_Inr [simp]: "invalid r \<noteq> Inr x"
  by (simp add: invalid_def)

subsection \<open>Helpers\<close>

text \<open>\<open>annotateOpLabel\<close>: the trimmed label, and whether there was one.\<close>

definition annotate_op_label :: "string option \<Rightarrow> string \<Rightarrow> (ann_err, string \<times> bool) res" where
  "annotate_op_label raw member = (case raw of None \<Rightarrow> Inr ([], False)
     | Some s \<Rightarrow> let label = trim_space s in
        (case validate_annotation_label label of
           Inl e \<Rightarrow> invalid (OpLabelErr member e)
         | Inr _ \<Rightarrow> Inr (label, True)))"

definition check_annotate_target :: "target \<Rightarrow> int \<Rightarrow> (ann_err, unit) res" where
  "check_annotate_target t dur = (case validate_annotation_target t dur of
     Inl e \<Rightarrow> invalid (OpTargetErr e) | Inr _ \<Rightarrow> Inr ())"

text \<open>\<open>findAnnotationTag\<close> answers the empty string when the tag must be defined.\<close>

definition find_annotation_tag :: "unicode \<Rightarrow> annotations \<Rightarrow> string \<Rightarrow> string \<Rightarrow> bool \<Rightarrow> string" where
  "find_annotation_tag uc doc i label has_label =
     (if i \<noteq> [] then
        (case find (\<lambda>t. tag_id t = i) (an_tags doc) of Some t \<Rightarrow> tag_id t | None \<Rightarrow> [])
      else if has_label then
        (case find (\<lambda>t. equal_fold uc (tag_label t) label) (an_tags doc) of Some t \<Rightarrow> tag_id t | None \<Rightarrow> [])
      else [])"

definition same_int64_pointer :: "int option \<Rightarrow> int option \<Rightarrow> bool" where
  "same_int64_pointer a b = (case (a, b) of (Some x, Some y) \<Rightarrow> x = y
     | (None, None) \<Rightarrow> True | _ \<Rightarrow> False)"

definition same_annotation_target :: "target \<Rightarrow> target \<Rightarrow> bool" where
  "same_annotation_target a b \<longleftrightarrow> tg_kind a = tg_kind b \<and>
     same_int64_pointer (tg_start a) (tg_start b) \<and> same_int64_pointer (tg_end a) (tg_end b)"

definition copy_annotation_target :: "target \<Rightarrow> target" where
  "copy_annotation_target t = \<lparr>tg_kind = tg_kind t, tg_start = tg_start t, tg_end = tg_end t\<rparr>"

definition remove_annotation_items :: "(item \<Rightarrow> bool) \<Rightarrow> annotations \<Rightarrow> annotations \<times> nat" where
  "remove_annotation_items match doc =
     (let kept = filter (\<lambda>it. \<not> match it) (an_items doc)
      in (doc\<lparr>an_items := kept\<rparr>, length (an_items doc) - length kept))"

definition drop_unused_annotation_tags :: "annotations \<Rightarrow> annotations" where
  "drop_unused_annotation_tags doc =
     doc\<lparr>an_tags := filter (\<lambda>t. tag_id t \<in> set (map it_tag_id (an_items doc))) (an_tags doc)\<rparr>"

definition empty_doc :: annotations where
  "empty_doc = \<lparr>an_format = [], an_revision = 0, an_audio = [], an_namespace = [],
     an_tags = [], an_items = [], an_meeting = None\<rparr>"

text \<open>\<open>Clone\<close>: a fresh copy; nil answers an empty document.\<close>

definition clone :: "annotations option \<Rightarrow> annotations" where
  "clone d = (case d of None \<Rightarrow> empty_doc
     | Some a \<Rightarrow> a\<lparr>an_items := map (\<lambda>it. it\<lparr>it_target := copy_annotation_target (it_target it)\<rparr>) (an_items a)\<rparr>)"

fun unique_strings_from :: "string list \<Rightarrow> string list \<Rightarrow> string list" where
  "unique_strings_from seen [] = []"
| "unique_strings_from seen (v # vs) =
     (if v \<in> set seen then unique_strings_from seen vs else v # unique_strings_from (v # seen) vs)"

definition unique_strings :: "string list \<Rightarrow> string list" where
  "unique_strings = unique_strings_from []"

lemma same_int64_pointer_eq [simp]: "same_int64_pointer a b \<longleftrightarrow> a = b"
  by (auto simp: same_int64_pointer_def split: option.splits)

lemma same_annotation_target_eq [simp]: "same_annotation_target a b \<longleftrightarrow> a = b"
  by (cases a; cases b) (simp add: same_annotation_target_def)

lemma copy_annotation_target_eq [simp]: "copy_annotation_target t = t"
  by (simp add: copy_annotation_target_def)

lemma clone_Some [simp]: "clone (Some a) = a"
  by (simp add: clone_def)

lemma clone_None [simp]: "clone None = empty_doc"
  by (simp add: clone_def)

lemma set_unique_strings_from: "set (unique_strings_from seen vs) = set vs - set seen"
  by (induction seen vs rule: unique_strings_from.induct) auto

lemma distinct_unique_strings_from: "distinct (unique_strings_from seen vs)"
  by (induction seen vs rule: unique_strings_from.induct) (auto simp: set_unique_strings_from)

subsection \<open>The operations\<close>

definition mark_item :: "stamp \<Rightarrow> string \<Rightarrow> string \<Rightarrow> target \<Rightarrow> item" where
  "mark_item st i tid t = \<lparr>it_id = i, it_tag_id = tid, it_target = t, it_created = st_created st,
     it_actor = \<lparr>act_kind = st_actor_kind st, act_id = st_actor_id st\<rparr>,
     it_operation = st_operation st\<rparr>"

text \<open>
  \<open>mark_tag\<close> is the part of \<open>applyMarkOp\<close> that finds or defines the tag: it answers the
  tag's id, the document with the tag defined, and the number of random reads.
\<close>

definition mark_tag ::
  "unicode \<Rightarrow> rng \<Rightarrow> op_tag \<Rightarrow> string \<Rightarrow> bool \<Rightarrow> annotations \<Rightarrow> nat
   \<Rightarrow> (ann_err, string \<times> annotations \<times> nat) res" where
  "mark_tag uc rng ot label has_label doc n =
     (let found = find_annotation_tag uc doc (ot_id ot) label has_label in
      if found \<noteq> [] then Inr (found, doc, n)
      else if \<not> has_label then invalid (TagUndefined (ot_id ot))
      else
        (case (if ot_id ot \<noteq> [] then Some (ot_id ot, n) else new_annotation_id rng ''tag'' n) of
           None \<Rightarrow> Inl MintError
         | Some (tid, n') \<Rightarrow>
             Inr (tid, doc\<lparr>an_tags := an_tags doc @
               [\<lparr>tag_id = tid, tag_label = label, tag_color = None, tag_icon = None\<rparr>]\<rparr>, n')))"

definition apply_mark_op ::
  "unicode \<Rightarrow> rng \<Rightarrow> op \<Rightarrow> int \<Rightarrow> stamp \<Rightarrow> annotations \<Rightarrow> nat \<Rightarrow> (ann_err, annotations \<times> nat) res" where
  "apply_mark_op uc rng op dur st doc n =
     (case op_tag op of None \<Rightarrow> invalid NeedsTag | Some ot \<Rightarrow>
     (case op_target op of None \<Rightarrow> invalid NeedsTarget | Some tg0 \<Rightarrow>
      bind_r (annotate_op_label (ot_label ot) ''tag.label'') (\<lambda>(label, has_label).
      if ot_id ot = [] \<and> \<not> has_label then invalid TagNeedsIdOrLabel
      else let tg = copy_annotation_target tg0 in
      bind_r (check_annotate_target tg dur) (\<lambda>_.
      bind_r (mark_tag uc rng ot label has_label doc n) (\<lambda>(tid, doc, n).
      if list_ex (\<lambda>it. it_tag_id it = tid \<and> same_annotation_target (it_target it) tg) (an_items doc)
      then Inr (doc, n)
      else (case new_annotation_id rng ''mk'' n of
          None \<Rightarrow> Inl MintError
        | Some (iid, n) \<Rightarrow> Inr (doc\<lparr>an_items := an_items doc @ [mark_item st iid tid tg]\<rparr>, n)))))))"

definition note_missing :: "nat \<Rightarrow> string \<Rightarrow> string list \<Rightarrow> string list" where
  "note_missing removed i nf = (if removed = 0 then nf @ [i] else nf)"

definition apply_unmark_op :: "op \<Rightarrow> annotations \<Rightarrow> string list \<Rightarrow> (ann_err, annotations \<times> string list) res" where
  "apply_unmark_op op doc nf =
     (if op_item_id op = [] then invalid NeedsItemId
      else let (doc, removed) = remove_annotation_items (\<lambda>it. it_id it = op_item_id op) doc
           in Inr (doc, note_missing removed (op_item_id op) nf))"

definition apply_unmark_tag_op ::
  "op \<Rightarrow> int \<Rightarrow> annotations \<Rightarrow> string list \<Rightarrow> (ann_err, annotations \<times> string list) res" where
  "apply_unmark_tag_op op dur doc nf =
     (if op_tag_id op = [] then invalid NeedsTagId
      else bind_r (case op_target op of None \<Rightarrow> Inr None
          | Some t \<Rightarrow> bind_r (check_annotate_target (copy_annotation_target t) dur)
              (\<lambda>_. Inr (Some (copy_annotation_target t)))) (\<lambda>tg.
        let (doc, removed) = remove_annotation_items (\<lambda>it. it_tag_id it = op_tag_id op \<and>
              (case tg of None \<Rightarrow> True | Some t \<Rightarrow> same_annotation_target (it_target it) t)) doc
        in Inr (doc, note_missing removed (op_tag_id op) nf)))"

definition apply_undo_operation_op ::
  "op \<Rightarrow> annotations \<Rightarrow> string list \<Rightarrow> (ann_err, annotations \<times> string list) res" where
  "apply_undo_operation_op op doc nf =
     (if op_operation_id op = [] then invalid NeedsOperationId
      else let (doc, removed) = remove_annotation_items (\<lambda>it. it_operation it = op_operation_id op) doc
           in Inr (doc, note_missing removed (op_operation_id op) nf))"

text \<open>\<open>update_first p f\<close> edits the first element with \<open>p\<close> in place.\<close>

fun update_first :: "('a \<Rightarrow> bool) \<Rightarrow> ('a \<Rightarrow> 'a) \<Rightarrow> 'a list \<Rightarrow> 'a list" where
  "update_first p f [] = []"
| "update_first p f (x # xs) = (if p x then f x # xs else x # update_first p f xs)"

definition label_clash :: "unicode \<Rightarrow> string \<Rightarrow> string \<Rightarrow> tag list \<Rightarrow> tag option" where
  "label_clash uc tid label ts = find (\<lambda>t. tag_id t \<noteq> tid \<and> equal_fold uc (tag_label t) label) ts"

definition apply_relabel_op ::
  "unicode \<Rightarrow> op \<Rightarrow> annotations \<Rightarrow> string list \<Rightarrow> (ann_err, annotations \<times> string list) res" where
  "apply_relabel_op uc op doc nf =
     (if op_tag_id op = [] then invalid NeedsTagId
      else if op_label op = None then invalid NeedsLabel
      else bind_r (annotate_op_label (op_label op) ''label'') (\<lambda>(label, _).
        if \<not> list_ex (\<lambda>t. tag_id t = op_tag_id op) (an_tags doc) then Inr (doc, nf @ [op_tag_id op])
        else (case label_clash uc (op_tag_id op) label (an_tags doc) of
            Some t \<Rightarrow> invalid (LabelTaken label (tag_id t))
          | None \<Rightarrow> Inr (doc\<lparr>an_tags := update_first (\<lambda>t. tag_id t = op_tag_id op)
                (\<lambda>t. t\<lparr>tag_label := label\<rparr>) (an_tags doc)\<rparr>, nf))))"

definition restyle_tag :: "op \<Rightarrow> tag \<Rightarrow> tag" where
  "restyle_tag op t =
     (let t = (case op_color op of None \<Rightarrow> t | Some c \<Rightarrow> t\<lparr>tag_color := Some c\<rparr>)
      in case op_icon op of None \<Rightarrow> t | Some c \<Rightarrow> t\<lparr>tag_icon := Some c\<rparr>)"

definition apply_restyle_op :: "op \<Rightarrow> annotations \<Rightarrow> string list \<Rightarrow> (ann_err, annotations \<times> string list) res" where
  "apply_restyle_op op doc nf =
     (if op_tag_id op = [] then invalid NeedsTagId
      else if op_color op = None \<and> op_icon op = None then invalid NeedsColorOrIcon
      else if (case op_color op of None \<Rightarrow> False | Some c \<Rightarrow> \<not> is_annotation_tag_color c) then invalid NotAColor
      else if (case op_icon op of None \<Rightarrow> False | Some c \<Rightarrow> \<not> is_annotation_tag_icon c) then invalid NotAnIcon
      else if list_ex (\<lambda>t. tag_id t = op_tag_id op) (an_tags doc)
        then Inr (doc\<lparr>an_tags := update_first (\<lambda>t. tag_id t = op_tag_id op) (restyle_tag op) (an_tags doc)\<rparr>, nf)
      else Inr (doc, nf @ [op_tag_id op]))"

text \<open>The move loop of \<open>applyMergeTagOp\<close>, with its growing list of covered targets.\<close>

fun merge_items :: "string \<Rightarrow> string \<Rightarrow> target list \<Rightarrow> item list \<Rightarrow> item list" where
  "merge_items src dst covered [] = []"
| "merge_items src dst covered (it # its) =
     (if it_tag_id it = src then
        (if list_ex (\<lambda>t. same_annotation_target t (it_target it)) covered then merge_items src dst covered its
         else it\<lparr>it_tag_id := dst\<rparr> # merge_items src dst (covered @ [it_target it]) its)
      else it # merge_items src dst covered its)"

definition apply_merge_tag_op ::
  "unicode \<Rightarrow> op \<Rightarrow> annotations \<Rightarrow> string list \<Rightarrow> (ann_err, annotations \<times> string list) res" where
  "apply_merge_tag_op uc op doc nf =
     (if op_tag_id op = [] then invalid NeedsTagId
      else (case op_into op of None \<Rightarrow> invalid NeedsInto | Some into \<Rightarrow>
        if ot_id into = [] then invalid NeedsInto
        else bind_r (annotate_op_label (ot_label into) ''into.label'') (\<lambda>(label, has_label).
          if \<not> has_label then invalid IntoNeedsLabel
          else if ot_id into = op_tag_id op then invalid MergeIntoItself
          else if \<not> list_ex (\<lambda>t. tag_id t = op_tag_id op) (an_tags doc) then Inr (doc, nf @ [op_tag_id op])
          else bind_r
            (if find_annotation_tag uc doc (ot_id into) [] False = [] then
               (case label_clash uc (op_tag_id op) label (an_tags doc) of
                  Some t \<Rightarrow> invalid (LabelTaken label (tag_id t))
                | None \<Rightarrow> Inr (doc\<lparr>an_tags := an_tags doc @
                    [\<lparr>tag_id = ot_id into, tag_label = label, tag_color = None, tag_icon = None\<rparr>]\<rparr>))
             else Inr doc) (\<lambda>doc.
            let covered = map it_target (filter (\<lambda>it. it_tag_id it = ot_id into) (an_items doc))
            in Inr (doc\<lparr>an_items := merge_items (op_tag_id op) (ot_id into) covered (an_items doc)\<rparr>, nf)))))"

definition apply_set_title_op :: "op \<Rightarrow> stamp \<Rightarrow> annotations \<Rightarrow> (ann_err, annotations) res" where
  "apply_set_title_op op st doc =
     (let title = (case op_title op of None \<Rightarrow> [] | Some t \<Rightarrow> trim_space t) in
      if title = [] then Inr (doc\<lparr>an_meeting := None\<rparr>)
      else (case validate_annotation_title title of
          Inl e \<Rightarrow> invalid (TitleErr e)
        | Inr _ \<Rightarrow>
            if (case an_meeting doc of None \<Rightarrow> False | Some m \<Rightarrow> mt_title m = title) then Inr doc
            else Inr (doc\<lparr>an_meeting := Some \<lparr>mt_title = title, mt_set_at = st_created st,
              mt_actor = \<lparr>act_kind = st_actor_kind st, act_id = st_actor_id st\<rparr>\<rparr>\<rparr>)))"

subsection \<open>Batches\<close>

definition with_nf :: "nat \<Rightarrow> (ann_err, annotations \<times> string list) res
    \<Rightarrow> (ann_err, annotations \<times> nat \<times> string list) res" where
  "with_nf n r = bind_r r (\<lambda>(doc, nf). Inr (doc, n, nf))"

text \<open>The \<open>switch\<close> of \<open>ApplyBatch\<close>.\<close>

definition apply_op ::
  "unicode \<Rightarrow> rng \<Rightarrow> int \<Rightarrow> stamp \<Rightarrow> op \<Rightarrow> annotations \<Rightarrow> nat \<Rightarrow> string list
   \<Rightarrow> (ann_err, annotations \<times> nat \<times> string list) res" where
  "apply_op uc rng dur st op doc n nf =
     (if op_op op = ''mark'' then bind_r (apply_mark_op uc rng op dur st doc n) (\<lambda>(doc, n). Inr (doc, n, nf))
      else if op_op op = ''unmark'' then with_nf n (apply_unmark_op op doc nf)
      else if op_op op = ''unmark-tag'' then with_nf n (apply_unmark_tag_op op dur doc nf)
      else if op_op op = ''undo-operation'' then with_nf n (apply_undo_operation_op op doc nf)
      else if op_op op = ''relabel'' then with_nf n (apply_relabel_op uc op doc nf)
      else if op_op op = ''merge-tag'' then with_nf n (apply_merge_tag_op uc op doc nf)
      else if op_op op = ''restyle'' then with_nf n (apply_restyle_op op doc nf)
      else if op_op op = ''set-title'' then
        bind_r (apply_set_title_op op st doc) (\<lambda>doc. Inr (doc, n, nf))
      else invalid UnknownOp)"

definition wrap_op_err :: "nat \<Rightarrow> string \<Rightarrow> ann_err \<Rightarrow> ann_err" where
  "wrap_op_err i name e = (case e of Failure c _ r \<Rightarrow> Failure c (Some (i, name)) r | MintError \<Rightarrow> MintError)"

text \<open>Trusted appearance for tags the batch has just defined, once per tag.\<close>

fun init_tags :: "(string \<Rightarrow> tag option) \<Rightarrow> string list \<Rightarrow> string list \<Rightarrow> tag list \<Rightarrow> tag list \<times> string list" where
  "init_tags initial existing done [] = ([], done)"
| "init_tags initial existing done (t # ts) =
     (case initial (tag_id t) of
        Some t0 \<Rightarrow>
          if tag_id t \<notin> set existing \<and> tag_id t \<notin> set done then
            (let (ts', done') = init_tags initial existing (tag_id t # done) ts
             in (t\<lparr>tag_color := tag_color t0, tag_icon := tag_icon t0\<rparr> # ts', done'))
          else (let (ts', done') = init_tags initial existing done ts in (t # ts', done'))
      | None \<Rightarrow> (let (ts', done') = init_tags initial existing done ts in (t # ts', done')))"

fun apply_ops_loop ::
  "unicode \<Rightarrow> rng \<Rightarrow> int \<Rightarrow> stamp \<Rightarrow> (string \<Rightarrow> tag option) \<Rightarrow> string list
   \<Rightarrow> nat \<Rightarrow> op list \<Rightarrow> annotations \<Rightarrow> nat \<Rightarrow> string list \<Rightarrow> string list
   \<Rightarrow> (ann_err, annotations \<times> string list) res" where
  "apply_ops_loop uc rng dur st initial existing i [] doc n nf done = Inr (doc, nf)"
| "apply_ops_loop uc rng dur st initial existing i (op # ops) doc n nf done =
     (case apply_op uc rng dur st op doc n nf of
        Inl e \<Rightarrow> Inl (wrap_op_err i (op_op op) e)
      | Inr (doc, n, nf) \<Rightarrow>
          (let (ts, done) = init_tags initial existing done (an_tags doc)
           in apply_ops_loop uc rng dur st initial existing (Suc i) ops (doc\<lparr>an_tags := ts\<rparr>) n nf done))"

definition style_tag ::
  "unicode \<Rightarrow> (string \<Rightarrow> tag option) \<Rightarrow> string list \<Rightarrow> tag_style \<Rightarrow> tag \<Rightarrow> tag" where
  "style_tag uc initial existing s t =
     (if tag_id t \<in> set existing \<or> initial (tag_id t) \<noteq> None
         \<or> \<not> equal_fold uc (tag_label t) (ts_label s) then t
      else t\<lparr>tag_color := Some (ts_color s),
             tag_icon := Some (case ts_icon s of None \<Rightarrow> [] | Some ic \<Rightarrow> ic)\<rparr>)"

definition style_tags ::
  "unicode \<Rightarrow> (string \<Rightarrow> tag option) \<Rightarrow> string list \<Rightarrow> tag_style list \<Rightarrow> tag list \<Rightarrow> tag list" where
  "style_tags uc initial existing styles ts =
     foldl (\<lambda>ts s. map (style_tag uc initial existing s) ts) ts styles"

definition apply_batch ::
  "unicode \<Rightarrow> rng \<Rightarrow> nat \<Rightarrow> annotations option \<Rightarrow> batch \<Rightarrow> int \<Rightarrow> stamp \<Rightarrow> (ann_err, outcome) res" where
  "apply_batch uc rng n current b dur st =
     (let before = canonicalize uc (clone current);
          existing = map tag_id (an_tags before) in
      bind_r (apply_ops_loop uc rng dur st (ba_initial b) existing 0 (ba_ops b) (clone current) n [] [])
        (\<lambda>(doc, nf).
         let doc = doc\<lparr>an_tags := style_tags uc (ba_initial b) existing (ba_styles b) (an_tags doc)\<rparr>;
             work = canonicalize uc (drop_unused_annotation_tags doc);
             before_ids = map it_id (an_items before);
             after_ids = map it_id (an_items work)
         in Inr \<lparr>oc_doc = work,
                 oc_changed = (an_tags before \<noteq> an_tags work \<or> an_items before \<noteq> an_items work
                               \<or> an_meeting before \<noteq> an_meeting work),
                 oc_added = filter (\<lambda>i. i \<notin> set before_ids) after_ids,
                 oc_removed = filter (\<lambda>i. i \<notin> set after_ids) before_ids,
                 oc_not_found = unique_strings nf\<rparr>))"

definition validate_tag_style :: "tag_style \<Rightarrow> bool" where
  "validate_tag_style s \<longleftrightarrow> validate_annotation_label (trim_space (ts_label s)) = Inr () \<and>
     is_annotation_tag_color (ts_color s) \<and>
     (case ts_icon s of None \<Rightarrow> True | Some i \<Rightarrow> is_annotation_tag_icon i)"

subsection \<open>The next snapshot\<close>

definition new_namespace :: "8 word list option \<Rightarrow> (ann_err, string) res" where
  "new_namespace r = (case r of None \<Rightarrow> Inl MintError | Some b \<Rightarrow>
     (let b = b[6 := or (and (b ! 6) 15) 64];
          b = b[8 := or (and (b ! 8) 63) 128]
      in Inr (''urn:uuid:'' @ hex_string (take 4 b) @ ''-'' @ hex_string (take 2 (drop 4 b)) @ ''-'' @
         hex_string (take 2 (drop 6 b)) @ ''-'' @ hex_string (take 2 (drop 8 b)) @ ''-'' @
         hex_string (drop 10 b))))"

text \<open>
  \<open>MutateBatch\<close>: whether the marks are bound to other audio, the header fields of the next
  snapshot, and the whole.  The read of \<open>NewNamespace\<close> comes after the batch's own reads;
  its result is the argument \<open>ns_read\<close>.
\<close>

definition marks_unresolved :: "unicode \<Rightarrow> annotations option \<Rightarrow> string \<Rightarrow> bool" where
  "marks_unresolved uc current audio = (case current of None \<Rightarrow> False
     | Some a \<Rightarrow> an_items a \<noteq> [] \<and> \<not> resolved uc current audio)"

definition next_snapshot :: "annotations option \<Rightarrow> bool \<Rightarrow> string \<Rightarrow> string \<Rightarrow> annotations \<Rightarrow> annotations" where
  "next_snapshot current unresolved audio namespace doc =
     (let doc = doc\<lparr>an_format := annotations_format_v1, an_revision := 1,
            an_audio := audio, an_namespace := namespace\<rparr>
      in case current of None \<Rightarrow> doc
         | Some a \<Rightarrow>
             let doc = doc\<lparr>an_revision := wrap64 (an_revision a + 1), an_namespace := an_namespace a\<rparr>
             in if unresolved \<and> an_items doc \<noteq> [] then doc\<lparr>an_audio := an_audio a\<rparr> else doc)"

definition mutate_batch ::
  "unicode \<Rightarrow> rng \<Rightarrow> 8 word list option \<Rightarrow> annotations option \<Rightarrow> batch \<Rightarrow> int \<Rightarrow> string \<Rightarrow> string
   \<Rightarrow> stamp \<Rightarrow> (ann_err, outcome) res" where
  "mutate_batch uc rng ns_read current b dur audio namespace st =
     (let unresolved = marks_unresolved uc current audio in
      if unresolved \<and> list_ex (\<lambda>op. op_op op = ''mark'') (ba_ops b) then Inl (Failure 5 None DifferentAudio)
      else let dur = (if unresolved then max_i64 else dur) in
      bind_r (apply_batch uc rng 0 current b dur st) (\<lambda>oc.
        if \<not> oc_changed oc then Inr oc
        else let doc = next_snapshot current unresolved audio namespace (oc_doc oc) in
        bind_r (if an_namespace doc = [] then new_namespace ns_read else Inr (an_namespace doc)) (\<lambda>ns.
        let doc = doc\<lparr>an_namespace := ns\<rparr> in
        (case validate_annotations (Some doc) dur of
           Inl e \<Rightarrow> Inl (Failure 4 None (InvalidDoc e))
         | Inr _ \<Rightarrow> Inr (oc\<lparr>oc_doc := doc\<rparr>)))))"

subsection \<open>The invariant of the working document\<close>

definition core_ok :: "int \<Rightarrow> annotations \<Rightarrow> bool" where
  "core_ok dur a \<longleftrightarrow> refs_ok a \<and> list_all wf_tag (an_tags a) \<and> list_all (wf_item dur) (an_items a) \<and>
     (\<forall>m. an_meeting a = Some m \<longrightarrow> wf_meeting m)"

definition wf_stamp :: "stamp \<Rightarrow> bool" where
  "wf_stamp st \<longleftrightarrow> wf_time (st_created st) \<and> is_annotation_id (st_operation st) \<and>
     wf_actor \<lparr>act_kind = st_actor_kind st, act_id = st_actor_id st\<rparr>"

definition explicit_ids :: "op \<Rightarrow> string set" where
  "explicit_ids op = {i. i \<noteq> [] \<and> (\<exists>ot. (op_tag op = Some ot \<or> op_into op = Some ot) \<and> ot_id ot = i)}"

definition wf_op :: "op \<Rightarrow> bool" where
  "wf_op op \<longleftrightarrow> (\<forall>i\<in>explicit_ids op. is_annotation_id i)"

definition minted :: "rng \<Rightarrow> string \<Rightarrow> nat \<Rightarrow> string option" where
  "minted rng p n = map_option fst (new_annotation_id rng p n)"

definition doc_ids :: "annotations \<Rightarrow> string set" where
  "doc_ids a = tag_id ` set (an_tags a) \<union> it_id ` set (an_items a)"

text \<open>
  The random reads before the \<open>N\<close>-th are sixteen bytes each, mint no id of
  \<open>known\<close>, and no two of them mint the same id.
\<close>

definition fresh_rng :: "rng \<Rightarrow> nat \<Rightarrow> string set \<Rightarrow> bool" where
  "fresh_rng rng N known \<longleftrightarrow>
     (\<forall>m<N. (\<forall>buf. rng m = Some buf \<longrightarrow> length buf = id_random_bytes) \<and>
       (\<forall>p\<in>{''tag'', ''mk''}. \<forall>i. minted rng p m = Some i \<longrightarrow> i \<notin> known \<and>
          (\<forall>k<N. \<forall>q\<in>{''tag'', ''mk''}. minted rng q k = Some i \<longrightarrow> k = m \<and> q = p)))"

definition id_pool :: "rng \<Rightarrow> nat \<Rightarrow> string set \<Rightarrow> string set" where
  "id_pool rng n known = known \<union> {i. \<exists>p\<in>{''tag'', ''mk''}. \<exists>m<n. minted rng p m = Some i}"

definition work_ok :: "rng \<Rightarrow> string set \<Rightarrow> int \<Rightarrow> nat \<Rightarrow> annotations \<Rightarrow> bool" where
  "work_ok rng known dur n a \<longleftrightarrow> core_ok dur a \<and> doc_ids a \<subseteq> id_pool rng n known"

lemma id_pool_mono: "n \<le> n' \<Longrightarrow> id_pool rng n known \<subseteq> id_pool rng n' known"
  by (force simp: id_pool_def)

lemma work_ok_mono: "work_ok rng known dur n a \<Longrightarrow> n \<le> n' \<Longrightarrow> work_ok rng known dur n' a"
  using id_pool_mono unfolding work_ok_def by blast

lemma new_id_facts:
  assumes "new_annotation_id rng p n = Some (i, n')" and "p \<in> {''tag'', ''mk''}"
    and "fresh_rng rng N known" and "n < N"
  shows "n' = Suc n" "is_annotation_id i" "i \<notin> id_pool rng n known" "i \<in> id_pool rng n' known"
proof -
  have m: "minted rng p n = Some i" using assms(1) by (simp add: minted_def)
  show n': "n' = Suc n" using assms(1) by (auto simp: new_annotation_id_def split: option.splits)
  show "is_annotation_id i"
    using assms by (intro new_annotation_id_valid [OF assms(1)]) (auto simp: fresh_rng_def)
  show "i \<notin> id_pool rng n known"
  proof
    assume "i \<in> id_pool rng n known"
    then consider "i \<in> known" | q k where "q \<in> {''tag'', ''mk''}" "k < n" "minted rng q k = Some i"
      by (auto simp only: id_pool_def mem_Collect_eq Un_iff Bex_def)
    then show False
    proof cases
      case 1
      then show False using m assms(2,3,4) unfolding fresh_rng_def by blast
    next
      case 2
      then have "k < N" using assms(4) by simp
      with 2 m assms(2,3,4) have "k = n" unfolding fresh_rng_def by blast
      with 2 show False by simp
    qed
  qed
  show "i \<in> id_pool rng n' known"
    using m assms(2) unfolding n' id_pool_def by blast
qed

lemma wf_op_tag_id:
  "wf_op op \<Longrightarrow> op_tag op = Some ot \<or> op_into op = Some ot \<Longrightarrow> ot_id ot \<noteq> [] \<Longrightarrow> is_annotation_id (ot_id ot)"
  by (auto simp: wf_op_def explicit_ids_def)

lemma annotate_op_label_Inr:
  "annotate_op_label raw mem = Inr (l, h) \<Longrightarrow> h \<Longrightarrow> wf_text max_label_runes l"
  by (auto simp: annotate_op_label_def Let_def case_res_Inr validate_label_iff split: option.splits sum.splits)

lemma annotate_op_label_None:
  "annotate_op_label raw mem = Inr (l, h) \<Longrightarrow> h \<longleftrightarrow> raw \<noteq> None"
  by (auto simp: annotate_op_label_def Let_def split: option.splits sum.splits)

lemma check_target_iff: "check_annotate_target t dur = Inr () \<longleftrightarrow> wf_target dur t"
  using validate_target_iff[of t dur "()"]
  by (auto simp: check_annotate_target_def simp del: validate_target_iff split: sum.splits)

lemma annotation_id_nonempty: "is_annotation_id i \<Longrightarrow> i \<noteq> []"
  by (auto simp: is_annotation_id_def)

lemma core_tag_nonempty: "core_ok dur a \<Longrightarrow> t \<in> set (an_tags a) \<Longrightarrow> tag_id t \<noteq> []"
  by (auto simp: core_ok_def list_all_iff wf_tag_def dest: annotation_id_nonempty)

lemma find_by_id:
  assumes "\<And>t. t \<in> set (an_tags doc) \<Longrightarrow> tag_id t \<noteq> []" "i \<noteq> []"
  shows "find_annotation_tag uc doc i l h = (if i \<in> tag_id ` set (an_tags doc) then i else [])"
proof (cases "find (\<lambda>t. tag_id t = i) (an_tags doc)")
  case None
  then have "i \<notin> tag_id ` set (an_tags doc)" by (auto simp: find_None)
  with None assms(2) show ?thesis by (simp add: find_annotation_tag_def)
next
  case (Some t)
  from find_SomeD[OF this] have "i \<in> tag_id ` set (an_tags doc)" "tag_id t = i" by auto
  with Some assms(2) show ?thesis by (simp add: find_annotation_tag_def)
qed

lemma find_tag_mem:
  "find_annotation_tag uc doc i l h \<noteq> [] \<Longrightarrow> find_annotation_tag uc doc i l h \<in> tag_id ` set (an_tags doc)"
  by (auto simp: find_annotation_tag_def dest!: find_SomeD split: option.splits if_splits)

lemma core_ok_add_tag:
  assumes "core_ok dur a" "i \<notin> tag_id ` set (an_tags a)" "is_annotation_id i" "wf_text max_label_runes l"
  shows "core_ok dur (a\<lparr>an_tags := an_tags a @ [\<lparr>tag_id = i, tag_label = l, tag_color = None, tag_icon = None\<rparr>]\<rparr>)"
  using assms by (auto simp: core_ok_def refs_ok_def wf_tag_def opt_valid_utf8_def)

lemma core_ok_add_item:
  assumes "core_ok dur a" "wf_item dur it" "it_id it \<notin> it_id ` set (an_items a)"
    "it_tag_id it \<in> tag_id ` set (an_tags a)"
  shows "core_ok dur (a\<lparr>an_items := an_items a @ [it]\<rparr>)"
  using assms by (auto simp: core_ok_def refs_ok_def)

lemma work_ok_add_tag:
  assumes "work_ok rng known dur n doc" "tid \<notin> tag_id ` set (an_tags doc)" "is_annotation_id tid"
    "wf_text max_label_runes l" "tid \<in> id_pool rng n' known" "n \<le> n'"
  shows "work_ok rng known dur n'
    (doc\<lparr>an_tags := an_tags doc @ [\<lparr>tag_id = tid, tag_label = l, tag_color = None, tag_icon = None\<rparr>]\<rparr>)"
  using assms core_ok_add_tag id_pool_mono[of n n' rng known]
  by (auto simp: work_ok_def doc_ids_def)

lemma mark_tag_cases:
  assumes "mark_tag uc rng ot l h doc n = Inr (tid, doc', n')"
  shows "find_annotation_tag uc doc (ot_id ot) l h \<noteq> [] \<and>
      tid = find_annotation_tag uc doc (ot_id ot) l h \<and> doc' = doc \<and> n' = n
    \<or> find_annotation_tag uc doc (ot_id ot) l h = [] \<and> h \<and>
      doc' = doc\<lparr>an_tags := an_tags doc @ [\<lparr>tag_id = tid, tag_label = l, tag_color = None, tag_icon = None\<rparr>]\<rparr> \<and>
      (ot_id ot \<noteq> [] \<and> tid = ot_id ot \<and> n' = n \<or>
       ot_id ot = [] \<and> new_annotation_id rng ''tag'' n = Some (tid, n'))"
    (is "?found \<or> ?defined")
  using assms by (auto simp: mark_tag_def Let_def split: option.splits if_splits)

lemma mark_tag_ok:
  assumes r: "mark_tag uc rng ot l h doc n = Inr (tid, doc', n')"
    and ok: "work_ok rng known dur n doc" and fresh: "fresh_rng rng N known" "n < N"
    and expl: "ot_id ot \<noteq> [] \<Longrightarrow> is_annotation_id (ot_id ot) \<and> ot_id ot \<in> known"
    and lab: "h \<Longrightarrow> wf_text max_label_runes l"
  shows "work_ok rng known dur n' doc' \<and> n \<le> n' \<and> n' \<le> Suc n \<and> tid \<in> tag_id ` set (an_tags doc')"
proof (cases "find_annotation_tag uc doc (ot_id ot) l h = []")
  case False
  with mark_tag_cases[OF r] have "tid = find_annotation_tag uc doc (ot_id ot) l h" "doc' = doc" "n' = n"
    by auto
  with find_tag_mem[of uc doc "ot_id ot" l h] False ok show ?thesis by auto
next
  case True
  with mark_tag_cases[OF r] have h: h
    and doc': "doc' = doc\<lparr>an_tags := an_tags doc @ [\<lparr>tag_id = tid, tag_label = l, tag_color = None, tag_icon = None\<rparr>]\<rparr>"
    and src: "ot_id ot \<noteq> [] \<and> tid = ot_id ot \<and> n' = n \<or>
       ot_id ot = [] \<and> new_annotation_id rng ''tag'' n = Some (tid, n')"
    by blast+
  have core: "core_ok dur doc" and ids: "doc_ids doc \<subseteq> id_pool rng n known"
    using ok by (auto simp: work_ok_def)
  have tid: "tid \<notin> tag_id ` set (an_tags doc) \<and> is_annotation_id tid \<and> tid \<in> id_pool rng n' known
      \<and> n \<le> n' \<and> n' \<le> Suc n"
    using src
  proof
    assume e: "ot_id ot \<noteq> [] \<and> tid = ot_id ot \<and> n' = n"
    with True have "tid \<notin> tag_id ` set (an_tags doc)"
      using find_by_id[OF core_tag_nonempty[OF core]] by (auto split: if_splits)
    with e expl show ?thesis by (simp add: id_pool_def)
  next
    assume e: "ot_id ot = [] \<and> new_annotation_id rng ''tag'' n = Some (tid, n')"
    have "n' = Suc n" "is_annotation_id tid" "tid \<notin> id_pool rng n known" "tid \<in> id_pool rng n' known"
      using new_id_facts[of rng "''tag''" n tid n' N known] e fresh by simp_all
    with ids show ?thesis by (auto simp: doc_ids_def)
  qed
  then show ?thesis using work_ok_add_tag[OF ok, of tid l n'] lab[OF h] by (simp add: doc')
qed

lemma apply_mark_op_ok:
  assumes r: "apply_mark_op uc rng op dur st doc n = Inr (doc', n')"
    and ok: "work_ok rng known dur n doc" and fresh: "fresh_rng rng N known" "Suc n < N"
    and op: "wf_op op" "explicit_ids op \<subseteq> known" and st: "wf_stamp st"
  shows "work_ok rng known dur n' doc' \<and> n \<le> n' \<and> n' \<le> Suc (Suc n)"
proof -
  from r obtain ot tg l h tid doc1 n1 where o: "op_tag op = Some ot" "op_target op = Some tg"
    and l: "annotate_op_label (ot_label ot) ''tag.label'' = Inr (l, h)"
    and tg: "check_annotate_target tg dur = Inr ()"
    and m: "mark_tag uc rng ot l h doc n = Inr (tid, doc1, n1)"
    and fin: "(doc', n') = (doc1, n1) \<or>
      (\<exists>iid. new_annotation_id rng ''mk'' n1 = Some (iid, n') \<and>
         doc' = doc1\<lparr>an_items := an_items doc1 @ [mark_item st iid tid tg]\<rparr>)"
    by (auto simp: apply_mark_op_def Let_def split: option.splits if_splits)
  have expl: "ot_id ot \<noteq> [] \<Longrightarrow> is_annotation_id (ot_id ot) \<and> ot_id ot \<in> known"
    using op o by (auto simp: wf_op_def explicit_ids_def)
  have 1: "work_ok rng known dur n1 doc1 \<and> n \<le> n1 \<and> n1 \<le> Suc n \<and> tid \<in> tag_id ` set (an_tags doc1)"
    using mark_tag_ok[OF m ok fresh(1)] fresh(2) expl annotate_op_label_Inr[OF l] by simp
  from fin show ?thesis
  proof
    assume "(doc', n') = (doc1, n1)" with 1 show ?thesis by simp
  next
    assume "\<exists>iid. new_annotation_id rng ''mk'' n1 = Some (iid, n') \<and>
         doc' = doc1\<lparr>an_items := an_items doc1 @ [mark_item st iid tid tg]\<rparr>"
    then obtain iid where i: "new_annotation_id rng ''mk'' n1 = Some (iid, n')"
      and doc': "doc' = doc1\<lparr>an_items := an_items doc1 @ [mark_item st iid tid tg]\<rparr>" by blast
    have f: "n' = Suc n1" "is_annotation_id iid" "iid \<notin> id_pool rng n1 known" "iid \<in> id_pool rng n' known"
      using new_id_facts[OF i _ fresh(1)] 1 fresh(2) by simp_all
    have "wf_item dur (mark_item st iid tid tg)"
      using f(2) tg st by (simp add: wf_item_def mark_item_def check_target_iff wf_stamp_def)
    moreover have "iid \<notin> it_id ` set (an_items doc1)"
      using f(3) 1 by (auto simp: work_ok_def doc_ids_def)
    ultimately have "core_ok dur doc'"
      unfolding doc' using 1 by (intro core_ok_add_item) (auto simp: work_ok_def mark_item_def)
    moreover have "doc_ids doc' \<subseteq> id_pool rng n' known"
      using 1 f(1,4) id_pool_mono[of n1 n' rng known]
      by (auto simp: work_ok_def doc_ids_def doc' mark_item_def)
    ultimately show ?thesis using 1 f(1) by (simp add: work_ok_def)
  qed
qed

lemma work_ok_filter_items:
  "work_ok rng known dur n a \<Longrightarrow> work_ok rng known dur n (a\<lparr>an_items := filter P (an_items a)\<rparr>)"
  by (auto simp: work_ok_def core_ok_def refs_ok_def doc_ids_def list_all_iff distinct_map_filter)

lemma work_ok_map_tags:
  assumes "work_ok rng known dur n a" "map tag_id ts = map tag_id (an_tags a)" "list_all wf_tag ts"
  shows "work_ok rng known dur n (a\<lparr>an_tags := ts\<rparr>)"
proof -
  have "tag_id ` set ts = tag_id ` set (an_tags a)" using assms(2) by (metis set_map)
  then show ?thesis using assms by (simp add: work_ok_def core_ok_def refs_ok_def doc_ids_def)
qed

lemma update_first_map:
  "(\<And>x. g (f x) = g x) \<Longrightarrow> map g (update_first p f xs) = map g xs"
  by (induction p f xs rule: update_first.induct) auto

lemma update_first_all:
  "list_all Q xs \<Longrightarrow> (\<And>x. Q x \<Longrightarrow> p x \<Longrightarrow> Q (f x)) \<Longrightarrow> list_all Q (update_first p f xs)"
  by (induction p f xs rule: update_first.induct) auto

lemma list_all_palette:
  "list_all valid_utf8 [''slate'', ''red'', ''orange'', ''amber'', ''green'', ''teal'',
     ''cyan'', ''blue'', ''indigo'', ''violet'', ''purple'', ''pink'', '''', ''star'', ''flag'',
     ''bolt'', ''bookmark'', ''check'', ''alert'', ''bug'', ''heart'', ''question'', ''lightbulb'',
     ''target'', ''users'', ''calendar'', ''money'', ''lock'', ''chat'']"
  by code_simp

lemma color_valid_utf8: "is_annotation_tag_color c \<Longrightarrow> valid_utf8 c"
  using list_all_palette unfolding is_annotation_tag_color_def list.pred_inject by blast

lemma icon_valid_utf8: "is_annotation_tag_icon c \<Longrightarrow> valid_utf8 c"
  using list_all_palette unfolding is_annotation_tag_icon_def list.pred_inject by blast

lemma remove_items_ok:
  "work_ok rng known dur n a \<Longrightarrow> work_ok rng known dur n (fst (remove_annotation_items P a))"
  by (simp add: remove_annotation_items_def Let_def work_ok_filter_items)

lemma apply_removal_ops_ok:
  assumes "work_ok rng known dur n doc"
  shows "apply_unmark_op op doc nf = Inr (d, nf') \<Longrightarrow> work_ok rng known dur n d"
    "apply_unmark_tag_op op dur' doc nf = Inr (d, nf') \<Longrightarrow> work_ok rng known dur n d"
    "apply_undo_operation_op op doc nf = Inr (d, nf') \<Longrightarrow> work_ok rng known dur n d"
  using remove_items_ok[OF assms]
  by (auto simp: apply_unmark_op_def apply_unmark_tag_op_def apply_undo_operation_op_def
      case_prod_beta split: if_splits)

lemma apply_relabel_op_ok:
  assumes "apply_relabel_op uc op doc nf = Inr (d, nf')" "work_ok rng known dur n doc"
  shows "work_ok rng known dur n d"
proof -
  from assms(1) obtain l h where l: "annotate_op_label (op_label op) ''label'' = Inr (l, h)"
    and some: "op_label op \<noteq> None"
    and d: "d = doc \<or> d = doc\<lparr>an_tags := update_first (\<lambda>t. tag_id t = op_tag_id op)
                (\<lambda>t. t\<lparr>tag_label := l\<rparr>) (an_tags doc)\<rparr>"
    by (auto simp: apply_relabel_op_def split: if_splits option.splits)
  have "wf_text max_label_runes l"
    using annotate_op_label_Inr[OF l] annotate_op_label_None[OF l] some by simp
  then have "list_all wf_tag (update_first (\<lambda>t. tag_id t = op_tag_id op)
      (\<lambda>t. t\<lparr>tag_label := l\<rparr>) (an_tags doc))"
    using assms(2) by (intro update_first_all) (auto simp: work_ok_def core_ok_def wf_tag_def)
  then show ?thesis
    using d work_ok_map_tags[OF assms(2) update_first_map] assms(2) by auto
qed

lemma restyle_tag_simps [simp]:
  "tag_id (restyle_tag op t) = tag_id t" "tag_label (restyle_tag op t) = tag_label t"
  by (simp_all add: restyle_tag_def Let_def split: option.splits)

lemma apply_restyle_op_ok:
  assumes "apply_restyle_op op doc nf = Inr (d, nf')" "work_ok rng known dur n doc"
  shows "work_ok rng known dur n d"
proof -
  from assms(1) have c: "\<And>c. op_color op = Some c \<Longrightarrow> valid_utf8 c"
      and i: "\<And>c. op_icon op = Some c \<Longrightarrow> valid_utf8 c"
    and d: "d = doc \<or> d = doc\<lparr>an_tags := update_first (\<lambda>t. tag_id t = op_tag_id op) (restyle_tag op) (an_tags doc)\<rparr>"
    by (auto simp: apply_restyle_op_def split: if_splits option.splits
        intro: color_valid_utf8 icon_valid_utf8)
  have "wf_tag (restyle_tag op t)" if "wf_tag t" for t
    using that c i by (auto simp: wf_tag_def restyle_tag_def Let_def opt_valid_utf8_def split: option.splits)
  then have "list_all wf_tag (update_first (\<lambda>t. tag_id t = op_tag_id op) (restyle_tag op) (an_tags doc))"
    using assms(2) by (intro update_first_all) (auto simp: work_ok_def core_ok_def)
  then show ?thesis
    using d work_ok_map_tags[OF assms(2) update_first_map] assms(2) by auto
qed

lemma merge_items_ids: "it_id ` set (merge_items s d c its) \<subseteq> it_id ` set its"
  by (induction s d c its rule: merge_items.induct) auto

lemma merge_items_distinct:
  "distinct (map it_id its) \<Longrightarrow> distinct (map it_id (merge_items s d c its))"
proof (induction s d c its rule: merge_items.induct)
  case (2 s d c it its)
  then show ?case
    using merge_items_ids[of s d c its] merge_items_ids[of s d "c @ [it_target it]" its] by auto
qed simp

lemma merge_items_tag_ids: "it_tag_id ` set (merge_items s d c its) \<subseteq> insert d (it_tag_id ` set its)"
  by (induction s d c its rule: merge_items.induct) auto

lemma merge_items_wf: "list_all (wf_item dur) its \<Longrightarrow> list_all (wf_item dur) (merge_items s d c its)"
  by (induction s d c its rule: merge_items.induct) (auto simp: wf_item_def)

lemma work_ok_merge:
  assumes ok: "work_ok rng known dur n a" and i: "i \<in> tag_id ` set (an_tags a)"
  shows "work_ok rng known dur n (a\<lparr>an_items := merge_items s i c (an_items a)\<rparr>)"
proof -
  let ?m = "merge_items s i c (an_items a)"
  have "it_tag_id ` set ?m \<subseteq> tag_id ` set (an_tags a)"
    using merge_items_tag_ids[of s i c "an_items a"] ok i unfolding work_ok_def core_ok_def refs_ok_def
    by blast
  moreover have "it_id ` set ?m \<subseteq> id_pool rng n known"
    using merge_items_ids[of s i c "an_items a"] ok unfolding work_ok_def doc_ids_def by blast
  ultimately show ?thesis
    using ok by (simp add: work_ok_def core_ok_def refs_ok_def doc_ids_def merge_items_distinct merge_items_wf)
qed

lemma apply_merge_tag_op_ok:
  assumes r: "apply_merge_tag_op uc op doc nf = Inr (d, nf')" and ok: "work_ok rng known dur n doc"
    and op: "wf_op op" "explicit_ids op \<subseteq> known"
  shows "work_ok rng known dur n d"
proof -
  from r obtain into l where into: "op_into op = Some into" "ot_id into \<noteq> []"
    and l: "annotate_op_label (ot_label into) ''into.label'' = Inr (l, True)"
    and d: "d = doc \<or> (\<exists>doc1. d = doc1\<lparr>an_items := merge_items (op_tag_id op) (ot_id into)
        (map it_target (filter (\<lambda>it. it_tag_id it = ot_id into) (an_items doc1))) (an_items doc1)\<rparr> \<and>
        (find_annotation_tag uc doc (ot_id into) [] False \<noteq> [] \<and> doc1 = doc \<or>
         find_annotation_tag uc doc (ot_id into) [] False = [] \<and> doc1 = doc\<lparr>an_tags := an_tags doc @
            [\<lparr>tag_id = ot_id into, tag_label = l, tag_color = None, tag_icon = None\<rparr>]\<rparr>))"
    by (auto simp: apply_merge_tag_op_def Let_def split: if_splits option.splits)
  have i: "is_annotation_id (ot_id into)" "ot_id into \<in> known"
    using op into by (auto simp: wf_op_def explicit_ids_def)
  have core: "core_ok dur doc" using ok by (simp add: work_ok_def)
  note byid = find_by_id[OF core_tag_nonempty[OF core] into(2)]
  show ?thesis
  proof (cases "d = doc")
    case False
    with d obtain doc1 where d: "d = doc1\<lparr>an_items := merge_items (op_tag_id op) (ot_id into)
        (map it_target (filter (\<lambda>it. it_tag_id it = ot_id into) (an_items doc1))) (an_items doc1)\<rparr>"
    and c: "find_annotation_tag uc doc (ot_id into) [] False \<noteq> [] \<and> doc1 = doc \<or>
         find_annotation_tag uc doc (ot_id into) [] False = [] \<and> doc1 = doc\<lparr>an_tags := an_tags doc @
            [\<lparr>tag_id = ot_id into, tag_label = l, tag_color = None, tag_icon = None\<rparr>]\<rparr>" by blast
    have "work_ok rng known dur n doc1 \<and> ot_id into \<in> tag_id ` set (an_tags doc1)"
      using c
    proof (elim disjE conjE)
      assume "find_annotation_tag uc doc (ot_id into) [] False \<noteq> []" "doc1 = doc"
      then show ?thesis using ok byid[where uc = uc and l = "[]" and h = False]
        by (simp split: if_splits)
    next
      assume f: "find_annotation_tag uc doc (ot_id into) [] False = []"
        and d1: "doc1 = doc\<lparr>an_tags := an_tags doc @
            [\<lparr>tag_id = ot_id into, tag_label = l, tag_color = None, tag_icon = None\<rparr>]\<rparr>"
      have "ot_id into \<notin> tag_id ` set (an_tags doc)" using f byid[where uc = uc and l = "[]" and h = False] into(2) by (auto split: if_splits)
      then show ?thesis
        using work_ok_add_tag[OF ok _ i(1) annotate_op_label_Inr[OF l TrueI], of n] i(2)
        by (simp add: d1 id_pool_def)
    qed
    then show ?thesis unfolding d using work_ok_merge by blast
  qed (use ok in simp)
qed

lemma work_ok_set_meeting:
  assumes "work_ok rng known dur n doc" "\<And>m. mo = Some m \<Longrightarrow> wf_meeting m"
  shows "work_ok rng known dur n (doc\<lparr>an_meeting := mo\<rparr>)"
  using assms by (simp add: work_ok_def core_ok_def refs_ok_def doc_ids_def)

lemma apply_set_title_op_ok:
  assumes r: "apply_set_title_op op st doc = Inr d" and ok: "work_ok rng known dur n doc" "wf_stamp st"
  shows "work_ok rng known dur n d"
proof -
  have "d = doc \<or> (\<exists>mo. d = doc\<lparr>an_meeting := mo\<rparr> \<and> (\<forall>m. mo = Some m \<longrightarrow> wf_meeting m))"
    using r ok(2) by (auto simp: apply_set_title_op_def Let_def wf_meeting_def wf_stamp_def
        validate_title_iff split: sum.splits if_splits)
  then show ?thesis using ok(1) work_ok_set_meeting by blast
qed

lemma apply_op_ok:
  assumes r: "apply_op uc rng dur st op doc n nf = Inr (d, n', nf')"
    and ok: "work_ok rng known dur n doc" and fresh: "fresh_rng rng N known" "Suc n < N"
    and op: "wf_op op" "explicit_ids op \<subseteq> known" and st: "wf_stamp st"
  shows "work_ok rng known dur n' d \<and> n \<le> n' \<and> n' \<le> Suc (Suc n)"
proof -
  have "n' = n \<and> work_ok rng known dur n d \<or> apply_mark_op uc rng op dur st doc n = Inr (d, n')"
    using r apply_removal_ops_ok[OF ok] apply_relabel_op_ok[OF _ ok] apply_restyle_op_ok[OF _ ok]
      apply_merge_tag_op_ok[OF _ ok op] apply_set_title_op_ok[OF _ ok st]
    by (auto simp: apply_op_def with_nf_def split: if_splits)
  then show ?thesis using apply_mark_op_ok[OF _ ok fresh op st] by auto
qed

lemma init_tags_ids: "map tag_id (fst (init_tags initial existing done ts)) = map tag_id ts"
  by (induction initial existing "done" ts rule: init_tags.induct) (auto simp: case_prod_beta split: option.splits)

definition wf_initial :: "(string \<Rightarrow> tag option) \<Rightarrow> bool" where
  "wf_initial initial \<longleftrightarrow>
     (\<forall>i t. initial i = Some t \<longrightarrow> opt_valid_utf8 (tag_color t) \<and> opt_valid_utf8 (tag_icon t))"

lemma init_tags_wf:
  "wf_initial initial \<Longrightarrow> list_all wf_tag ts \<Longrightarrow> list_all wf_tag (fst (init_tags initial existing done ts))"
  by (induction initial existing "done" ts rule: init_tags.induct)
    (auto simp: case_prod_beta wf_initial_def wf_tag_def split: option.splits)

lemma apply_ops_loop_ok:
  assumes "apply_ops_loop uc rng dur st initial existing i ops doc n nf done = Inr (d, nf')"
    and "work_ok rng known dur n doc" "fresh_rng rng N known" "n + 2 * length ops \<le> N"
    and "list_all wf_op ops" "(\<Union>op\<in>set ops. explicit_ids op) \<subseteq> known" "wf_stamp st" "wf_initial initial"
  shows "\<exists>n'. work_ok rng known dur n' d"
  using assms
proof (induction ops arbitrary: i doc n nf "done")
  case (Cons op ops)
  from Cons.prems(1) obtain d1 n1 nf1 where
    1: "apply_op uc rng dur st op doc n nf = Inr (d1, n1, nf1)"
    and 2: "apply_ops_loop uc rng dur st initial existing (Suc i) ops
        (d1\<lparr>an_tags := fst (init_tags initial existing done (an_tags d1))\<rparr>) n1 nf1
        (snd (init_tags initial existing done (an_tags d1))) = Inr (d, nf')"
    by (auto simp: case_prod_beta split: sum.splits)
  have s: "work_ok rng known dur n1 d1 \<and> n \<le> n1 \<and> n1 \<le> Suc (Suc n)"
    using apply_op_ok[OF 1 Cons.prems(2,3)] Cons.prems(4-7) by simp
  have "work_ok rng known dur n1 (d1\<lparr>an_tags := fst (init_tags initial existing done (an_tags d1))\<rparr>)"
    using s by (intro work_ok_map_tags init_tags_wf init_tags_ids Cons.prems(8))
      (auto simp: work_ok_def core_ok_def)
  from Cons.IH[OF 2 this Cons.prems(3)] show ?case using Cons.prems(4-8) s by simp
qed auto

definition wf_style :: "tag_style \<Rightarrow> bool" where
  "wf_style s \<longleftrightarrow> valid_utf8 (ts_color s) \<and> opt_valid_utf8 (ts_icon s)"

lemma style_tags_ids: "map tag_id (style_tags uc initial existing styles ts) = map tag_id ts"
  by (induction styles arbitrary: ts) (auto simp: style_tags_def style_tag_def)

lemma valid_utf8_Nil [simp]: "valid_utf8 []"
  by (simp add: valid_utf8_def)

lemma style_tags_wf:
  "list_all wf_style styles \<Longrightarrow> list_all wf_tag ts \<Longrightarrow>
     list_all wf_tag (style_tags uc initial existing styles ts)"
proof (induction styles arbitrary: ts)
  case (Cons s styles)
  have "wf_tag (style_tag uc initial existing s t)" if "wf_tag t" for t
    using that Cons.prems(1) by (auto simp: style_tag_def wf_tag_def wf_style_def opt_valid_utf8_def split: option.splits)
  with Cons have "list_all wf_tag (map (style_tag uc initial existing s) ts)" by (simp add: list_all_iff)
  with Cons show ?case by (simp add: style_tags_def)
qed (simp add: style_tags_def)

lemma core_ok_drop_unused: "core_ok dur a \<Longrightarrow> core_ok dur (drop_unused_annotation_tags a)"
proof -
  assume a: "core_ok dur a"
  let ?d = "drop_unused_annotation_tags a"
  have t: "an_tags ?d = filter (\<lambda>t. tag_id t \<in> set (map it_tag_id (an_items a))) (an_tags a)"
    and i: "an_items ?d = an_items a" and m: "an_meeting ?d = an_meeting a"
    by (simp_all add: drop_unused_annotation_tags_def)
  have "it_tag_id ` set (an_items a) \<subseteq> tag_id ` set (an_tags ?d)"
  proof (rule image_subsetI)
    fix it assume it: "it \<in> set (an_items a)"
    with a have "it_tag_id it \<in> tag_id ` set (an_tags a)" unfolding core_ok_def refs_ok_def by blast
    then obtain t where "t \<in> set (an_tags a)" "it_tag_id it = tag_id t" by blast
    with it show "it_tag_id it \<in> tag_id ` set (an_tags ?d)" unfolding \<open>an_tags ?d = _\<close> by force
  qed
  moreover have "list_all wf_tag (an_tags ?d)" using a unfolding core_ok_def t list_all_iff by auto
  moreover have "distinct (map tag_id (an_tags ?d))"
    using a unfolding core_ok_def refs_ok_def t by (simp only: distinct_map_filter)
  ultimately show ?thesis using a unfolding core_ok_def refs_ok_def i m by blast
qed

lemma core_ok_canonicalize [simp]: "core_ok dur (canonicalize uc a) = core_ok dur a"
  by (simp add: core_ok_def list_all_iff)

definition wf_batch :: "batch \<Rightarrow> bool" where
  "wf_batch b \<longleftrightarrow> list_all wf_op (ba_ops b) \<and> list_all wf_style (ba_styles b) \<and> wf_initial (ba_initial b)"

text \<open>The ids a batch may meet: those of the document and those its operations carry.\<close>

definition known_ids :: "annotations \<Rightarrow> batch \<Rightarrow> string set" where
  "known_ids a b = doc_ids a \<union> (\<Union>op\<in>set (ba_ops b). explicit_ids op)"

lemma apply_batch_doc:
  assumes "apply_batch uc rng n current b dur st = Inr oc"
  obtains doc nf where
    "apply_ops_loop uc rng dur st (ba_initial b) (map tag_id (an_tags (canonicalize uc (clone current)))) 0
       (ba_ops b) (clone current) n [] [] = Inr (doc, nf)"
    "oc_doc oc = canonicalize uc (drop_unused_annotation_tags (doc\<lparr>an_tags := style_tags uc (ba_initial b)
       (map tag_id (an_tags (canonicalize uc (clone current)))) (ba_styles b) (an_tags doc)\<rparr>))"
  using assms by (auto simp: apply_batch_def Let_def)

lemma apply_batch_core_ok:
  assumes r: "apply_batch uc rng 0 current b dur st = Inr oc"
    and ok: "core_ok dur (clone current)" and b: "wf_batch b" and st: "wf_stamp st"
    and fresh: "fresh_rng rng (2 * length (ba_ops b)) (known_ids (clone current) b)"
  shows "core_ok dur (oc_doc oc)"
proof -
  let ?ex = "map tag_id (an_tags (canonicalize uc (clone current)))"
  obtain doc nf where
    loop: "apply_ops_loop uc rng dur st (ba_initial b) ?ex 0 (ba_ops b) (clone current) 0 [] [] = Inr (doc, nf)"
    and oc: "oc_doc oc = canonicalize uc (drop_unused_annotation_tags (doc\<lparr>an_tags := style_tags uc (ba_initial b)
       ?ex (ba_styles b) (an_tags doc)\<rparr>))"
    using r by (rule apply_batch_doc)
  have "work_ok rng (known_ids (clone current) b) dur 0 (clone current)"
    using ok by (auto simp: work_ok_def known_ids_def id_pool_def)
  from apply_ops_loop_ok[OF loop this fresh] b st obtain n' where
    w: "work_ok rng (known_ids (clone current) b) dur n' doc"
    by (auto simp: wf_batch_def known_ids_def)
  have "work_ok rng (known_ids (clone current) b) dur n' (doc\<lparr>an_tags := style_tags uc (ba_initial b)
       ?ex (ba_styles b) (an_tags doc)\<rparr>)"
    using w b by (intro work_ok_map_tags style_tags_ids style_tags_wf) (auto simp: work_ok_def core_ok_def wf_batch_def)
  then show ?thesis unfolding oc core_ok_canonicalize
    by (intro core_ok_drop_unused) (simp add: work_ok_def)
qed


lemma core_ok_iff: "wf_annotations dur a \<longleftrightarrow>
    core_ok dur a \<and> an_format a = annotations_format_v1 \<and> 1 \<le> an_revision a \<and> is_sha256_hex (an_audio a) \<and>
    is_annotation_namespace (an_namespace a) \<and>
    length (an_tags a) \<le> max_annotation_tags \<and> length (an_items a) \<le> max_annotation_items"
  unfolding wf_annotations_def core_ok_def by blast

lemma core_ok_fields [simp]:
  "core_ok dur (a\<lparr>an_format := f\<rparr>) = core_ok dur a"
  "core_ok dur (a\<lparr>an_revision := r\<rparr>) = core_ok dur a"
  "core_ok dur (a\<lparr>an_audio := s\<rparr>) = core_ok dur a"
  "core_ok dur (a\<lparr>an_namespace := s\<rparr>) = core_ok dur a"
  by (simp_all add: core_ok_def refs_ok_def)

lemma wf_target_mono: "wf_target d t \<Longrightarrow> d \<le> d' \<Longrightarrow> wf_target d' t"
  by (auto simp: wf_target_def)

lemma core_ok_mono: "core_ok d a \<Longrightarrow> d \<le> d' \<Longrightarrow> core_ok d' a"
  by (auto simp: core_ok_def list_all_iff wf_item_def intro: wf_target_mono)

lemma core_ok_no_items: "core_ok d a \<Longrightarrow> an_items a = [] \<Longrightarrow> core_ok d' a"
  by (simp add: core_ok_def)

lemma match_groups_snoc:
  assumes "length g = n" "list_all is_lower_hex g"
  shows "match_groups (n # m # ns) (g @ CHR ''-'' # s) = match_groups (m # ns) s"
  using assms by (simp add: nth_append)

lemma new_namespace_valid:
  assumes "new_namespace (Some b) = Inr ns" "length b = 16"
  shows "is_annotation_namespace ns"
proof -
  define b' where "b' = b[6 := or (and (b ! 6) 15) 64, 8 := or (and (b[6 := or (and (b ! 6) 15) 64] ! 8) 63) 128]"
  have len: "length b' = 16" using assms(2) by (simp add: b'_def)
  have ns: "ns = ''urn:uuid:'' @ hex_string (take 4 b') @ CHR ''-'' #
      hex_string (take 2 (drop 4 b')) @ CHR ''-'' # hex_string (take 2 (drop 6 b')) @ CHR ''-'' #
      hex_string (take 2 (drop 8 b')) @ CHR ''-'' # hex_string (drop 10 b')"
    using assms(1) by (simp add: new_namespace_def Let_def b'_def)
  have l: "length (hex_string (take 4 b')) = 8" "length (hex_string (take 2 (drop 4 b'))) = 4"
    "length (hex_string (take 2 (drop 6 b'))) = 4" "length (hex_string (take 2 (drop 8 b'))) = 4"
    "length (hex_string (drop 10 b')) = 12"
    using len by simp_all
  have "match_groups [8, 4, 4, 4, 12] (hex_string (take 4 b') @ CHR ''-'' #
      hex_string (take 2 (drop 4 b')) @ CHR ''-'' # hex_string (take 2 (drop 6 b')) @ CHR ''-'' #
      hex_string (take 2 (drop 8 b')) @ CHR ''-'' # hex_string (drop 10 b'))"
    unfolding match_groups_snoc[OF l(1) hex_string_lower] match_groups_snoc[OF l(2) hex_string_lower]
      match_groups_snoc[OF l(3) hex_string_lower] match_groups_snoc[OF l(4) hex_string_lower]
      match_groups.simps(2)
    by (intro conjI l(5) hex_string_lower)
  then show ?thesis unfolding is_annotation_namespace_def ns by simp
qed

lemma mutate_batch_Inr:
  assumes "mutate_batch uc rng nsr current b dur audio namespace st = Inr oc" "oc_changed oc"
  defines "unres \<equiv> marks_unresolved uc current audio"
  defines "d \<equiv> (if unres then max_i64 else dur)"
  obtains oc0 where "apply_batch uc rng 0 current b d st = Inr oc0" "oc_changed oc0"
    "\<not> (unres \<and> list_ex (\<lambda>op. op_op op = ''mark'') (ba_ops b))"
    "oc = oc0\<lparr>oc_doc := (next_snapshot current unres audio namespace (oc_doc oc0))\<lparr>an_namespace := an_namespace (oc_doc oc)\<rparr>\<rparr>"
    "wf_annotations d (oc_doc oc)"
    "let ns = an_namespace (next_snapshot current unres audio namespace (oc_doc oc0))
     in if ns = [] then new_namespace nsr = Inr (an_namespace (oc_doc oc)) else an_namespace (oc_doc oc) = ns"
proof -
  let ?snap = "\<lambda>oc0. next_snapshot current unres audio namespace (oc_doc oc0)"
  let ?ns = "\<lambda>oc0. if an_namespace (?snap oc0) = [] then new_namespace nsr else Inr (an_namespace (?snap oc0))"
  let ?fin = "\<lambda>oc0 ns. case validate_annotations (Some ((?snap oc0)\<lparr>an_namespace := ns\<rparr>)) d of
      Inl e \<Rightarrow> Inl (Failure 4 None (InvalidDoc e)) | Inr _ \<Rightarrow> Inr (oc0\<lparr>oc_doc := (?snap oc0)\<lparr>an_namespace := ns\<rparr>\<rparr>)"
  let ?rest = "\<lambda>oc0. if \<not> oc_changed oc0 then Inr oc0 else bind_r (?ns oc0) (?fin oc0)"
  have m: "\<not> (unres \<and> list_ex (\<lambda>op. op_op op = ''mark'') (ba_ops b))"
  proof
    assume "unres \<and> list_ex (\<lambda>op. op_op op = ''mark'') (ba_ops b)"
    then have "mutate_batch uc rng nsr current b dur audio namespace st = Inl (Failure 5 None DifferentAudio)"
      by (simp add: mutate_batch_def unres_def)
    with assms(1) show False by simp
  qed
  then have "mutate_batch uc rng nsr current b dur audio namespace st
      = bind_r (apply_batch uc rng 0 current b d st) ?rest"
    by (simp only: mutate_batch_def Let_def unres_def d_def if_False)
  then have "bind_r (apply_batch uc rng 0 current b d st) ?rest = Inr oc"
    using assms(1) by (rule subst)
  then obtain oc0 where a: "apply_batch uc rng 0 current b d st = Inr oc0" and r: "?rest oc0 = Inr oc"
    unfolding bind_r_eq_Inr by blast
  have ch: "oc_changed oc0"
  proof (rule ccontr)
    assume "\<not> oc_changed oc0" with r assms(2) show False by simp
  qed
  with r have "bind_r (?ns oc0) (?fin oc0) = Inr oc" by simp
  then obtain ns where ns: "?ns oc0 = Inr ns" and f: "?fin oc0 ns = Inr oc"
    unfolding bind_r_eq_Inr by blast
  from f have v: "validate_annotations (Some ((?snap oc0)\<lparr>an_namespace := ns\<rparr>)) d = Inr ()"
    and oc: "oc = oc0\<lparr>oc_doc := (?snap oc0)\<lparr>an_namespace := ns\<rparr>\<rparr>"
    by (simp_all split: sum.splits)
  have doc: "oc_doc oc = (?snap oc0)\<lparr>an_namespace := ns\<rparr>" by (simp add: oc)
  show ?thesis
  proof (rule that[OF a ch m])
    show "oc = oc0\<lparr>oc_doc := (?snap oc0)\<lparr>an_namespace := an_namespace (oc_doc oc)\<rparr>\<rparr>"
      by (simp add: oc)
    show "wf_annotations d (oc_doc oc)" using v unfolding doc validate_annotations_iff by simp
    show "let ns = an_namespace (?snap oc0)
        in if ns = [] then new_namespace nsr = Inr (an_namespace (oc_doc oc)) else an_namespace (oc_doc oc) = ns"
      using ns by (simp add: doc split: if_splits)
  qed
qed

subsection \<open>Only \<open>mark\<close> adds marks\<close>

definition mark_sites :: "annotations \<Rightarrow> (string \<times> target) set" where
  "mark_sites a = (\<lambda>it. (it_id it, it_target it)) ` set (an_items a)"

lemma merge_items_sites:
  "(\<lambda>it. (it_id it, it_target it)) ` set (merge_items s d c its) \<subseteq> (\<lambda>it. (it_id it, it_target it)) ` set its"
  by (induction s d c its rule: merge_items.induct) auto

lemma remove_items_sites: "mark_sites (fst (remove_annotation_items P a)) \<subseteq> mark_sites a"
  by (auto simp: remove_annotation_items_def Let_def mark_sites_def)

lemma removal_ops_sites:
  "apply_unmark_op op doc nf = Inr (d, nf') \<Longrightarrow> mark_sites d \<subseteq> mark_sites doc"
  "apply_unmark_tag_op op dur' doc nf = Inr (d, nf') \<Longrightarrow> mark_sites d \<subseteq> mark_sites doc"
  "apply_undo_operation_op op doc nf = Inr (d, nf') \<Longrightarrow> mark_sites d \<subseteq> mark_sites doc"
  using remove_items_sites[of _ doc]
  by (force simp: apply_unmark_op_def apply_unmark_tag_op_def apply_undo_operation_op_def
      case_prod_beta split: if_splits)+

lemma tag_ops_sites:
  "apply_relabel_op uc op doc nf = Inr (d, nf') \<Longrightarrow> mark_sites d = mark_sites doc"
  "apply_restyle_op op doc nf = Inr (d, nf') \<Longrightarrow> mark_sites d = mark_sites doc"
  "apply_set_title_op op st doc = Inr d \<Longrightarrow> mark_sites d = mark_sites doc"
  by (auto simp: apply_relabel_op_def apply_restyle_op_def apply_set_title_op_def mark_sites_def Let_def
      split: if_splits option.splits sum.splits)

lemma merge_op_sites:
  "apply_merge_tag_op uc op doc nf = Inr (d, nf') \<Longrightarrow> mark_sites d \<subseteq> mark_sites doc"
  using merge_items_sites
  by (auto simp: apply_merge_tag_op_def mark_sites_def Let_def split: if_splits option.splits) blast+

lemma apply_op_sites:
  assumes "apply_op uc rng dur st op doc n nf = Inr (d, n', nf')" "op_op op \<noteq> ''mark''"
  shows "mark_sites d \<subseteq> mark_sites doc"
  using assms
  by (auto simp del: subset_iff simp: apply_op_def with_nf_def split: if_splits
      dest!: removal_ops_sites tag_ops_sites merge_op_sites dest: subsetD)

lemma apply_ops_loop_sites:
  assumes "apply_ops_loop uc rng dur st initial existing i ops doc n nf done = Inr (d, nf')"
    "list_all (\<lambda>op. op_op op \<noteq> ''mark'') ops"
  shows "mark_sites d \<subseteq> mark_sites doc"
  using assms
proof (induction ops arbitrary: i doc n nf "done")
  case (Cons op ops)
  from Cons.prems(1) obtain d1 n1 nf1 where
    1: "apply_op uc rng dur st op doc n nf = Inr (d1, n1, nf1)"
    and 2: "apply_ops_loop uc rng dur st initial existing (Suc i) ops
        (d1\<lparr>an_tags := fst (init_tags initial existing done (an_tags d1))\<rparr>) n1 nf1
        (snd (init_tags initial existing done (an_tags d1))) = Inr (d, nf')"
    by (auto simp: case_prod_beta split: sum.splits)
  show ?case using Cons.IH[OF 2] apply_op_sites[OF 1] Cons.prems(2) by (simp add: mark_sites_def)
qed auto

lemma apply_batch_sites:
  assumes "apply_batch uc rng n current b dur st = Inr oc"
    "list_all (\<lambda>op. op_op op \<noteq> ''mark'') (ba_ops b)"
  shows "mark_sites (oc_doc oc) \<subseteq> mark_sites (clone current)"
  using assms(1)
proof (rule apply_batch_doc)
  fix doc nf
  assume l: "apply_ops_loop uc rng dur st (ba_initial b) (map tag_id (an_tags (canonicalize uc (clone current)))) 0
       (ba_ops b) (clone current) n [] [] = Inr (doc, nf)"
    and oc: "oc_doc oc = canonicalize uc (drop_unused_annotation_tags (doc\<lparr>an_tags := style_tags uc (ba_initial b)
       (map tag_id (an_tags (canonicalize uc (clone current)))) (ba_styles b) (an_tags doc)\<rparr>))"
  have "mark_sites (oc_doc oc) = mark_sites doc"
    by (simp add: oc mark_sites_def drop_unused_annotation_tags_def)
  with apply_ops_loop_sites[OF l assms(2)] show ?thesis by simp
qed

subsection \<open>The next snapshot\<close>

text \<open>
  C1: a batch that changes a document yields a valid next snapshot: its revision is one more,
  its tag namespace is the old one, and when the old marks were made against other audio the
  batch contained no mark, every mark of the result is one of the old marks on its old target,
  and the result keeps the old audio digest as long as a mark is left.
\<close>

theorem mutate_batch_snapshot:
  assumes "mutate_batch uc rng nsr (Some a) b dur audio namespace st = Inr oc" and "oc_changed oc"
    and "an_namespace a \<noteq> []"
  shows "wf_annotations (if marks_unresolved uc (Some a) audio then max_i64 else dur) (oc_doc oc)
    \<and> an_revision (oc_doc oc) = wrap64 (an_revision a + 1)
    \<and> an_namespace (oc_doc oc) = an_namespace a
    \<and> (\<not> marks_unresolved uc (Some a) audio \<longrightarrow> an_audio (oc_doc oc) = audio)
    \<and> (marks_unresolved uc (Some a) audio \<longrightarrow>
         list_all (\<lambda>op. op_op op \<noteq> ''mark'') (ba_ops b)
         \<and> mark_sites (oc_doc oc) \<subseteq> mark_sites a
         \<and> an_audio (oc_doc oc) = (if an_items (oc_doc oc) = [] then audio else an_audio a))"
  using assms(1,2)
proof (rule mutate_batch_Inr)
  fix oc0 :: outcome
  let ?u = "marks_unresolved uc (Some a) audio"
  let ?snap = "next_snapshot (Some a) ?u audio namespace (oc_doc oc0)"
  assume ap: "apply_batch uc rng 0 (Some a) b (if ?u then max_i64 else dur) st = Inr oc0"
    and nm: "\<not> (?u \<and> list_ex (\<lambda>op. op_op op = ''mark'') (ba_ops b))"
    and oc: "oc = oc0\<lparr>oc_doc := ?snap\<lparr>an_namespace := an_namespace (oc_doc oc)\<rparr>\<rparr>"
    and wf: "wf_annotations (if ?u then max_i64 else dur) (oc_doc oc)"
    and ns: "let ns = an_namespace ?snap
     in if ns = [] then new_namespace nsr = Inr (an_namespace (oc_doc oc)) else an_namespace (oc_doc oc) = ns"
  have doc: "oc_doc oc = ?snap\<lparr>an_namespace := an_namespace (oc_doc oc)\<rparr>"
    using oc by (metis outcome.select_convs(1) outcome.surjective outcome.update_convs(1))
  have snap_ns: "an_namespace ?snap = an_namespace a"
    by (simp add: next_snapshot_def Let_def)
  have rev: "an_revision (oc_doc oc) = wrap64 (an_revision a + 1)"
    by (subst doc) (simp add: next_snapshot_def Let_def)
  have items: "an_items (oc_doc oc) = an_items (oc_doc oc0)"
    by (subst doc) (simp add: next_snapshot_def Let_def)
  have audio: "an_audio (oc_doc oc) = (if ?u \<and> an_items (oc_doc oc) \<noteq> [] then an_audio a else audio)"
    unfolding items by (subst doc) (simp add: next_snapshot_def Let_def)
  have marks: "list_all (\<lambda>op. op_op op \<noteq> ''mark'') (ba_ops b)" if ?u
    using nm that by (auto simp: list_all_iff list_ex_iff)
  have "mark_sites (oc_doc oc) \<subseteq> mark_sites a" if ?u
    using apply_batch_sites[OF ap marks[OF that]] by (simp add: mark_sites_def items)
  with wf rev audio marks ns snap_ns assms(3) show ?thesis by (simp add: Let_def)
qed

definition ex_stamp :: stamp where
  "ex_stamp = \<lparr>st_actor_kind = ''person'', st_actor_id = ''ada'', st_operation = ''op_1'',
     st_created = ''2024-05-01T10:00:00Z''\<rparr>"

definition ex_op :: "string \<Rightarrow> op" where
  "ex_op name = \<lparr>op_op = name, op_tag = None, op_target = None, op_item_id = [], op_tag_id = [],
     op_operation_id = [], op_label = None, op_into = None, op_color = None, op_icon = None, op_title = None\<rparr>"

definition ex_batch :: "op list \<Rightarrow> batch" where
  "ex_batch ops = \<lparr>ba_ops = ops, ba_styles = [], ba_initial = (\<lambda>_. None)\<rparr>"

definition ex_rng :: rng where
  "ex_rng n = Some (replicate 15 0 @ [word_of_nat n])"

definition ex_marked :: annotations where
  "ex_marked = (ex_doc [ex_tag ''t1'' ''todo''] [ex_item ''m1'' ''t1'' (ex_range 0 500) ''op_0''])\<lparr>an_audio := []\<rparr>"

definition ex_audio :: string where "ex_audio = replicate 64 (CHR ''a'')"

lemma mutate_batch_snapshot_witness:
  "\<exists>oc. mutate_batch ascii_unicode ex_rng None (Some ex_marked)
      (ex_batch [(ex_op ''unmark'')\<lparr>op_item_id := ''m1''\<rparr>]) 1000 ex_audio [] ex_stamp = Inr oc
    \<and> an_revision (oc_doc oc) = 2 \<and> an_namespace (oc_doc oc) = an_namespace ex_marked"
proof -
  let ?r = "mutate_batch ascii_unicode ex_rng None (Some ex_marked)
      (ex_batch [(ex_op ''unmark'')\<lparr>op_item_id := ''m1''\<rparr>]) 1000 ex_audio [] ex_stamp"
  have "case ?r of Inr oc \<Rightarrow> oc_changed oc | Inl _ \<Rightarrow> False" by code_simp
  then obtain oc where oc: "?r = Inr oc" "oc_changed oc" by (auto split: sum.splits)
  have ns: "an_namespace ex_marked \<noteq> []" by (simp add: ex_marked_def ex_doc_def)
  have "wrap64 (an_revision ex_marked + 1) = 2" by (simp add: ex_marked_def ex_doc_def wrap64_def)
  with mutate_batch_snapshot[OF oc ns] oc(1) show ?thesis by auto
qed

lemma namespace_update_id: "an_namespace x = ns \<Longrightarrow> x\<lparr>an_namespace := ns\<rparr> = (x :: annotations)"
  by (cases x) simp

lemma mutate_batch_Some:
  assumes "an_namespace a \<noteq> []"
    and "\<not> (marks_unresolved uc (Some a) audio \<and> list_ex (\<lambda>op. op_op op = ''mark'') (ba_ops b))"
  shows "mutate_batch uc rng nsr (Some a) b dur audio namespace st =
    bind_r (apply_batch uc rng 0 (Some a) b (if marks_unresolved uc (Some a) audio then max_i64 else dur) st)
      (\<lambda>oc. if \<not> oc_changed oc then Inr oc
        else let doc = next_snapshot (Some a) (marks_unresolved uc (Some a) audio) audio namespace (oc_doc oc)
        in case validate_annotations (Some doc) (if marks_unresolved uc (Some a) audio then max_i64 else dur) of
             Inl e \<Rightarrow> Inl (Failure 4 None (InvalidDoc e)) | Inr _ \<Rightarrow> Inr (oc\<lparr>oc_doc := doc\<rparr>))"
proof -
  have ns: "an_namespace (next_snapshot (Some a) u audio namespace d) = an_namespace a" for u d
    by (simp add: next_snapshot_def Let_def)
  show ?thesis
    using assms(1) unfolding mutate_batch_def Let_def if_not_P[OF assms(2)] ns namespace_update_id[OF ns]
    by (auto intro!: bind_r_cong simp: namespace_update_id[OF ns] split: sum.splits)
qed

lemma core_ok_next_snapshot [simp]: "core_ok d (next_snapshot c u audio ns doc) = core_ok d doc"
  by (auto simp: next_snapshot_def Let_def split: option.splits)

text \<open>
  C23: the final validation of \<open>MutateBatch\<close> is a backstop.  From a valid document, with a
  well-formed batch and stamp and fresh random ids, a batch that applies and stays within the
  limits on tags and marks is never refused by it.
\<close>

theorem mutate_batch_succeeds:
  assumes ap: "apply_batch uc rng 0 (Some a) b
        (if marks_unresolved uc (Some a) audio then max_i64 else dur) st = Inr oc0"
    and limits: "length (an_tags (oc_doc oc0)) \<le> max_annotation_tags"
      "length (an_items (oc_doc oc0)) \<le> max_annotation_items"
    and nm: "\<not> (marks_unresolved uc (Some a) audio \<and> list_ex (\<lambda>op. op_op op = ''mark'') (ba_ops b))"
    and ok: "wf_annotations dur a" "dur \<le> max_i64" "an_revision a < max_i64"
    and b: "wf_batch b" and st: "wf_stamp st" and audio: "is_sha256_hex audio"
    and fresh: "fresh_rng rng (2 * length (ba_ops b)) (known_ids a b)"
  shows "\<exists>oc. mutate_batch uc rng nsr (Some a) b dur audio namespace st = Inr oc
    \<and> an_tags (oc_doc oc) = an_tags (oc_doc oc0) \<and> an_items (oc_doc oc) = an_items (oc_doc oc0)"
proof -
  let ?u = "marks_unresolved uc (Some a) audio"
  let ?d = "if ?u then max_i64 else dur"
  let ?doc = "next_snapshot (Some a) ?u audio namespace (oc_doc oc0)"
  have ns_ok: "is_annotation_namespace (an_namespace a)" "an_namespace a \<noteq> []"
    using ok(1) by (auto simp: wf_annotations_def is_annotation_namespace_def)
  have "core_ok ?d (clone (Some a))"
    using ok(1,2) core_ok_mono[of dur a] by (auto simp: core_ok_iff)
  then have c: "core_ok ?d (oc_doc oc0)"
    using apply_batch_core_ok[OF ap _ b st] fresh by simp
  have "1 \<le> an_revision ?doc" "is_sha256_hex (an_audio ?doc)"
    using ok(1,3) audio wrap64_id[of "an_revision a + 1"]
    by (auto simp: next_snapshot_def Let_def wf_annotations_def in_i64_def min_i64_def max_i64_def)
  with c ns_ok limits have "wf_annotations ?d ?doc"
    unfolding core_ok_iff core_ok_next_snapshot by (simp add: next_snapshot_def Let_def)
  then have "validate_annotations (Some ?doc) ?d = Inr ()"
    unfolding validate_annotations_iff by simp
  moreover have "an_tags ?doc = an_tags (oc_doc oc0)" "an_items ?doc = an_items (oc_doc oc0)"
    by (simp_all add: next_snapshot_def Let_def)
  ultimately show ?thesis
    unfolding mutate_batch_Some[OF ns_ok(2) nm] ap bind_r_simps by (simp add: Let_def)
qed

definition ex_small :: annotations where
  "ex_small = ex_doc [] []"

definition ex_mark :: "string \<Rightarrow> op" where
  "ex_mark label = (ex_op ''mark'')\<lparr>op_tag := Some \<lparr>ot_id = [], ot_label = Some label\<rparr>,
     op_target := Some (ex_range 100 200)\<rparr>"

lemma ex_small_wf: "wf_annotations 1000 ex_small"
proof -
  have "validate_annotations (Some ex_small) 1000 = Inr ()" by code_simp
  then show ?thesis unfolding validate_annotations_iff by simp
qed

lemma ex_stamp_wf: "wf_stamp ex_stamp"
  unfolding wf_stamp_def wf_time_def by code_simp

lemma ex_batch_mark_wf: "wf_batch (ex_batch [ex_mark l])"
  by (simp add: wf_batch_def ex_batch_def ex_mark_def wf_op_def explicit_ids_def wf_initial_def ex_op_def)

lemma ex_rng_fresh: "fresh_rng ex_rng (Suc (Suc 0)) (known_ids ex_small (ex_batch [ex_mark l]))"
proof -
  have m: "\<forall>m\<in>set [0, 1]. \<forall>p\<in>set [''tag'', ''mk'']. \<forall>k\<in>set [0, 1]. \<forall>q\<in>set [''tag'', ''mk''].
      minted ex_rng q k = minted ex_rng p m \<longrightarrow> k = m \<and> q = p"
    by code_simp
  have k: "known_ids ex_small (ex_batch [ex_mark l]) = {}"
    by (simp add: known_ids_def doc_ids_def ex_small_def ex_doc_def ex_batch_def explicit_ids_def ex_mark_def ex_op_def)
  have lt: "i < Suc (Suc 0) \<longleftrightarrow> i \<in> set [0, 1]" for i by auto
  show ?thesis unfolding fresh_rng_def k lt
    using m by (auto simp: ex_rng_def id_random_bytes_def) 
qed

lemma mutate_batch_succeeds_witness:
  "\<exists>oc. mutate_batch ascii_unicode ex_rng None (Some ex_small) (ex_batch [ex_mark ''todo'']) 1000
      ex_audio [] ex_stamp = Inr oc"
proof -
  let ?r = "apply_batch ascii_unicode ex_rng 0 (Some ex_small) (ex_batch [ex_mark ''todo'']) 1000 ex_stamp"
  have "case ?r of Inr oc \<Rightarrow> length (an_tags (oc_doc oc)) \<le> 200 \<and> length (an_items (oc_doc oc)) \<le> 2000 | Inl _ \<Rightarrow> False"
    by code_simp
  then obtain oc where oc: "?r = Inr oc" "length (an_tags (oc_doc oc)) \<le> max_annotation_tags"
      "length (an_items (oc_doc oc)) \<le> max_annotation_items"
    by (auto simp: max_annotation_tags_def max_annotation_items_def split: sum.splits)
  have u: "\<not> marks_unresolved ascii_unicode (Some ex_small) ex_audio"
    by (simp add: marks_unresolved_def ex_small_def ex_doc_def)
  have sha: "is_sha256_hex ex_audio" by code_simp
  have num: "(1000::int) \<le> max_i64" "an_revision ex_small < max_i64"
    by (simp_all add: max_i64_def ex_small_def ex_doc_def)
  have fresh: "fresh_rng ex_rng (2 * length (ba_ops (ex_batch [ex_mark ''todo''])))
      (known_ids ex_small (ex_batch [ex_mark ''todo'']))"
    using ex_rng_fresh[of "''todo''"] by (simp add: ex_batch_def numeral_2_eq_2)
  have ap: "apply_batch ascii_unicode ex_rng 0 (Some ex_small) (ex_batch [ex_mark ''todo''])
      (if marks_unresolved ascii_unicode (Some ex_small) ex_audio then max_i64 else 1000) ex_stamp = Inr oc"
    using oc(1) u by simp
  have nm: "\<not> (marks_unresolved ascii_unicode (Some ex_small) ex_audio \<and>
      list_ex (\<lambda>op. op_op op = ''mark'') (ba_ops (ex_batch [ex_mark ''todo''])))"
    using u by simp
  show ?thesis
    using mutate_batch_succeeds[OF ap oc(2,3) nm ex_small_wf num ex_batch_mark_wf ex_stamp_wf sha fresh,
        where nsr = None and namespace = "[]"] by blast
qed

subsection \<open>Retrying a mark\<close>

definition labels_unambiguous :: "unicode \<Rightarrow> annotations \<Rightarrow> bool" where
  "labels_unambiguous uc a \<longleftrightarrow> (\<forall>t\<in>set (an_tags a). \<forall>t'\<in>set (an_tags a).
     equal_fold uc (tag_label t) (tag_label t') \<longrightarrow> tag_id t = tag_id t')"

definition tag_names :: "annotations \<Rightarrow> (string \<times> string) set" where
  "tag_names a = (\<lambda>t. (tag_id t, tag_label t)) ` set (an_tags a)"

lemma labels_unambiguous_names: "labels_unambiguous uc a \<longleftrightarrow>
    (\<forall>p\<in>tag_names a. \<forall>q\<in>tag_names a. equal_fold uc (snd p) (snd q) \<longrightarrow> fst p = fst q)"
  by (simp add: labels_unambiguous_def tag_names_def)

lemma init_tags_names:
  "map (\<lambda>t. (tag_id t, tag_label t)) (fst (init_tags initial existing done ts)) =
   map (\<lambda>t. (tag_id t, tag_label t)) ts"
  by (induction initial existing "done" ts rule: init_tags.induct) (auto simp: case_prod_beta split: option.splits)

lemma style_tags_names:
  "map (\<lambda>t. (tag_id t, tag_label t)) (style_tags uc initial existing styles ts) =
   map (\<lambda>t. (tag_id t, tag_label t)) ts"
  by (induction styles arbitrary: ts) (auto simp: style_tags_def style_tag_def)

lemma init_tags_existing:
  "tag_id ` set ts \<subseteq> set existing \<Longrightarrow> fst (init_tags initial existing done ts) = ts"
  by (induction initial existing "done" ts rule: init_tags.induct) (auto simp: case_prod_beta split: option.splits)

lemma style_tags_existing:
  "tag_id ` set ts \<subseteq> set existing \<Longrightarrow> style_tags uc initial existing styles ts = ts"
  by (induction styles arbitrary: ts)
    (auto simp: style_tags_def style_tag_def image_subset_iff intro!: map_idI)

lemma mark_op_repeat:
  assumes "op_tag op = Some ot" "op_target op = Some tg"
    and "annotate_op_label (ot_label ot) ''tag.label'' = Inr (l, h)"
    and "ot_id ot \<noteq> [] \<or> h" "check_annotate_target tg dur = Inr ()"
    and "find_annotation_tag uc doc (ot_id ot) l h = tid" "tid \<noteq> []"
    and "\<exists>it\<in>set (an_items doc). it_tag_id it = tid \<and> it_target it = tg"
  shows "apply_mark_op uc rng op dur st doc n = Inr (doc, n)"
  using assms by (auto simp: apply_mark_op_def mark_tag_def Let_def list_ex_iff)

lemma apply_mark_op_cases:
  assumes r: "apply_mark_op uc rng op dur st doc n = Inr (doc', n')"
  shows "\<exists>ot tg l h tid doc1 n1. op_tag op = Some ot \<and> op_target op = Some tg \<and>
    annotate_op_label (ot_label ot) ''tag.label'' = Inr (l, h) \<and> (ot_id ot \<noteq> [] \<or> h) \<and>
    check_annotate_target tg dur = Inr () \<and> mark_tag uc rng ot l h doc n = Inr (tid, doc1, n1) \<and>
    (doc' = doc1 \<and> (\<exists>it\<in>set (an_items doc1). it_tag_id it = tid \<and> it_target it = tg) \<or>
     (\<exists>iid. doc' = doc1\<lparr>an_items := an_items doc1 @ [mark_item st iid tid tg]\<rparr>))"
proof -
  obtain ot where o: "op_tag op = Some ot" using r by (cases "op_tag op") (auto simp: apply_mark_op_def)
  obtain tg where t: "op_target op = Some tg"
    using r o by (cases "op_target op") (auto simp: apply_mark_op_def)
  obtain l h where l: "annotate_op_label (ot_label ot) ''tag.label'' = Inr (l, h)"
    using r o t by (auto simp: apply_mark_op_def)
  have ne: "ot_id ot \<noteq> [] \<or> h" using r o t l by (auto simp: apply_mark_op_def split: if_splits)
  have tg: "check_annotate_target tg dur = Inr ()" using r o t l ne by (auto simp: apply_mark_op_def Let_def)
  obtain tid doc1 n1 where m: "mark_tag uc rng ot l h doc n = Inr (tid, doc1, n1)"
    using r o t l ne tg by (auto simp: apply_mark_op_def Let_def split: if_splits)
  have "(if list_ex (\<lambda>it. it_tag_id it = tid \<and> same_annotation_target (it_target it) tg) (an_items doc1)
      then Inr (doc1, n1)
      else (case new_annotation_id rng ''mk'' n1 of
          None \<Rightarrow> Inl MintError
        | Some (iid, n) \<Rightarrow> Inr (doc1\<lparr>an_items := an_items doc1 @ [mark_item st iid tid tg]\<rparr>, n))) = Inr (doc', n')"
    using r ne m by (cases h) (auto simp: apply_mark_op_def Let_def o t l tg)
  then have "doc' = doc1 \<and> (\<exists>it\<in>set (an_items doc1). it_tag_id it = tid \<and> it_target it = tg) \<or>
     (\<exists>iid. doc' = doc1\<lparr>an_items := an_items doc1 @ [mark_item st iid tid tg]\<rparr>)"
    by (auto simp: list_ex_iff split: if_splits option.splits)
  with o t l ne tg m show ?thesis by blast
qed

lemma apply_mark_op_facts:
  assumes r: "apply_mark_op uc rng op dur st doc n = Inr (doc', n')" and core: "core_ok dur0 doc"
  obtains ot tg l h tid where "op_tag op = Some ot" "op_target op = Some tg"
    "annotate_op_label (ot_label ot) ''tag.label'' = Inr (l, h)" "ot_id ot \<noteq> [] \<or> h"
    "check_annotate_target tg dur = Inr ()" "tid \<noteq> []" "tid \<in> tag_id ` set (an_tags doc')"
    "\<exists>it\<in>set (an_items doc'). it_tag_id it = tid \<and> it_target it = tg"
    "ot_id ot \<noteq> [] \<Longrightarrow> tid = ot_id ot"
    "ot_id ot = [] \<Longrightarrow> labels_unambiguous uc doc \<Longrightarrow> labels_unambiguous uc doc' \<and>
       (\<exists>t\<in>set (an_tags doc'). tag_id t = tid \<and> equal_fold uc (tag_label t) l)"
proof -
  from apply_mark_op_cases[OF r] obtain ot tg l h tid doc1 n1 where o: "op_tag op = Some ot" "op_target op = Some tg"
    and l: "annotate_op_label (ot_label ot) ''tag.label'' = Inr (l, h)" and ne: "ot_id ot \<noteq> [] \<or> h"
    and tg: "check_annotate_target tg dur = Inr ()"
    and m: "mark_tag uc rng ot l h doc n = Inr (tid, doc1, n1)"
    and fin: "doc' = doc1 \<and> (\<exists>it\<in>set (an_items doc1). it_tag_id it = tid \<and> it_target it = tg) \<or>
      (\<exists>iid. doc' = doc1\<lparr>an_items := an_items doc1 @ [mark_item st iid tid tg]\<rparr>)"
    by blast
  have tags: "an_tags doc' = an_tags doc1" using fin by auto
  have it: "\<exists>it\<in>set (an_items doc'). it_tag_id it = tid \<and> it_target it = tg"
    using fin by (auto simp: mark_item_def)
  have lu: "labels_unambiguous uc doc' = labels_unambiguous uc doc1"
    by (simp add: labels_unambiguous_def tags)
  let ?f = "find_annotation_tag uc doc (ot_id ot) l h"
  show ?thesis
  proof (cases "?f = []")
    case False
    with mark_tag_cases[OF m] have tid: "tid = ?f" and d: "doc1 = doc" by auto
    show ?thesis
    proof (rule that[OF o l ne tg _ _ it])
      show "tid \<noteq> []" using False tid by simp
      show "tid \<in> tag_id ` set (an_tags doc')" using find_tag_mem[OF False] by (simp add: tags d tid)
      show "tid = ot_id ot" if "ot_id ot \<noteq> []"
        using False find_by_id[OF core_tag_nonempty[OF core] that] by (simp add: tid split: if_splits)
      show "labels_unambiguous uc doc' \<and> (\<exists>t\<in>set (an_tags doc'). tag_id t = tid \<and> equal_fold uc (tag_label t) l)"
        if "ot_id ot = []" "labels_unambiguous uc doc"
        using that False lu by (auto simp: tid tags d find_annotation_tag_def dest!: find_SomeD split: option.splits if_splits)
    qed
  next
    case True
    with mark_tag_cases[OF m] have h: h
      and d: "doc1 = doc\<lparr>an_tags := an_tags doc @ [\<lparr>tag_id = tid, tag_label = l, tag_color = None, tag_icon = None\<rparr>]\<rparr>"
      and src: "ot_id ot \<noteq> [] \<and> tid = ot_id ot \<or> ot_id ot = [] \<and> new_annotation_id rng ''tag'' n = Some (tid, n1)"
      by blast+
    show ?thesis
    proof (rule that[OF o l ne tg _ _ it])
      show "tid \<noteq> []" using src by (auto simp: new_annotation_id_def split: option.splits)
      show "tid \<in> tag_id ` set (an_tags doc')" by (simp add: tags d)
      show "tid = ot_id ot" if "ot_id ot \<noteq> []" using src that by simp
      show "labels_unambiguous uc doc' \<and> (\<exists>t\<in>set (an_tags doc'). tag_id t = tid \<and> equal_fold uc (tag_label t) l)"
        if "ot_id ot = []" "labels_unambiguous uc doc"
      proof -
        have no: "\<not> equal_fold uc (tag_label t) l" if "t \<in> set (an_tags doc)" for t
          using True \<open>ot_id ot = []\<close> h that core_tag_nonempty[OF core]
          by (auto simp: find_annotation_tag_def find_None dest!: find_SomeD split: option.splits)
        have "labels_unambiguous uc doc1"
          unfolding labels_unambiguous_def
        proof (intro ballI impI)
          fix t t' assume t: "t \<in> set (an_tags doc1)" "t' \<in> set (an_tags doc1)"
            and e: "equal_fold uc (tag_label t) (tag_label t')"
          consider "t \<in> set (an_tags doc)" "t' \<in> set (an_tags doc)"
            | "t \<in> set (an_tags doc)" "tag_label t' = l" | "tag_label t = l" "t' \<in> set (an_tags doc)" | "t = t'"
            using t by (auto simp: d)
          then show "tag_id t = tag_id t'"
          proof cases
            case 1 then show ?thesis using that(2) e unfolding labels_unambiguous_def by blast
          next
            case 2 then show ?thesis using no e by simp
          next
            case 3 then show ?thesis using no[of t'] equal_fold_sym[OF e] by simp
          qed simp
        qed
        then show ?thesis unfolding lu by (simp add: tags d)
      qed
    qed
  qed
qed


lemma init_loop_existing:
  "tag_id ` set (an_tags doc) \<subseteq> set existing \<Longrightarrow>
   apply_op uc rng dur st op doc n [] = Inr (doc, n, []) \<Longrightarrow>
   apply_ops_loop uc rng dur st initial existing 0 [op] doc n [] [] = Inr (doc, [])"
  using init_tags_existing[of "an_tags doc" existing initial "[]"] by (simp add: case_prod_beta)

lemma apply_batch_unchanged:
  assumes canon: "canonicalize uc a = a" and used: "drop_unused_annotation_tags a = a"
    and op: "ba_ops b = [op]" and same: "apply_op uc rng dur st op a n [] = Inr (a, n, [])"
  shows "apply_batch uc rng n (Some a) b dur st = Inr \<lparr>oc_doc = a, oc_changed = False, oc_added = [],
    oc_removed = [], oc_not_found = []\<rparr>"
proof -
  have l: "apply_ops_loop uc rng dur st (ba_initial b) (map tag_id (an_tags a)) 0 [op] a n [] [] = Inr (a, [])"
    using same by (intro init_loop_existing) auto
  have s: "a\<lparr>an_tags := style_tags uc (ba_initial b) (map tag_id (an_tags a)) (ba_styles b) (an_tags a)\<rparr> = a"
    by (subst style_tags_existing) auto
  show ?thesis
    unfolding apply_batch_def Let_def clone_Some canon op l bind_r_simps prod.case s used
    by (simp add: unique_strings_def)
qed

lemma drop_unused_idem: "drop_unused_annotation_tags (canonicalize uc (drop_unused_annotation_tags d)) =
    canonicalize uc (drop_unused_annotation_tags d)"
proof -
  let ?c = "canonicalize uc (drop_unused_annotation_tags d)"
  have "tag_id t \<in> set (map it_tag_id (an_items ?c))" if "t \<in> set (an_tags ?c)" for t
    using that by (auto simp: drop_unused_annotation_tags_def)
  then have "filter (\<lambda>t. tag_id t \<in> set (map it_tag_id (an_items ?c))) (an_tags ?c) = an_tags ?c"
    by (intro filter_True) blast
  then show ?thesis by (simp only: drop_unused_annotation_tags_def[of ?c]) simp
qed

lemma canonicalize_idem [simp]: "canonicalize uc (canonicalize uc a) = canonicalize uc a"
  by (simp add: canonicalize_def tag_order.srt_idem item_order.srt_idem)

lemma find_unambiguous:
  assumes "labels_unambiguous uc a" "t \<in> set (an_tags a)" "equal_fold uc (tag_label t) l"
  shows "find_annotation_tag uc a [] l True = tag_id t"
proof (cases "find (\<lambda>t. equal_fold uc (tag_label t) l) (an_tags a)")
  case None
  with assms show ?thesis by (auto simp: find_None)
next
  case (Some t')
  from find_SomeD[OF Some] have "tag_id t' = tag_id t"
    using assms equal_fold_trans equal_fold_sym unfolding labels_unambiguous_def by metis
  with Some show ?thesis by (simp add: find_annotation_tag_def)
qed



lemma ex_small_unambiguous: "labels_unambiguous uc ex_small"
  by (simp add: labels_unambiguous_def ex_small_def ex_doc_def)


definition ex_clash :: annotations where
  "ex_clash = ex_doc [ex_tag ''a1'' ''X''] [ex_item ''m0'' ''a1'' (ex_range 0 5) ''op_0'']"

definition ex_clash_ops :: "op list" where
  "ex_clash_ops =
     [(ex_op ''mark'')\<lparr>op_tag := Some \<lparr>ot_id = ''a0'', ot_label = Some ''x''\<rparr>, op_target := Some (ex_range 10 20)\<rparr>,
      (ex_op ''mark'')\<lparr>op_tag := Some \<lparr>ot_id = [], ot_label = Some ''x''\<rparr>, op_target := Some (ex_range 30 40)\<rparr>]"

text \<open>
  Without that assumption a retry is not safe.  A mark with an explicit new id may give a
  label a second tag; a second mark of the batch, by label, then finds the older tag before the
  document is sorted and the newer one after it, so sending the same batch again adds a mark.
\<close>

lemma mark_retry_ambiguous:
  "case apply_batch ascii_unicode ex_rng 0 (Some ex_clash) (ex_batch ex_clash_ops) 1000 ex_stamp of
     Inl _ \<Rightarrow> False
   | Inr oc \<Rightarrow> length (oc_added oc) = 2 \<and>
       (case apply_batch ascii_unicode ex_rng 5 (Some (oc_doc oc)) (ex_batch ex_clash_ops) 1000 ex_stamp of
          Inl _ \<Rightarrow> False
        | Inr oc' \<Rightarrow> oc_changed oc' \<and> length (oc_added oc') = 1)"
  by code_simp

subsection \<open>Undoing a run of marks\<close>

lemma mark_op_appends:
  assumes "apply_mark_op uc rng op dur st doc n = Inr (doc', n')"
  shows "(\<exists>new. an_items doc' = an_items doc @ new \<and> (\<forall>it\<in>set new. it_operation it = st_operation st)) \<and>
    an_meeting doc' = an_meeting doc \<and> tag_id ` set (an_tags doc) \<subseteq> tag_id ` set (an_tags doc')"
proof -
  from apply_mark_op_cases[OF assms] obtain ot tg l h tid doc1 n1 where
    m: "mark_tag uc rng ot l h doc n = Inr (tid, doc1, n1)"
    and fin: "doc' = doc1 \<or> (\<exists>iid. doc' = doc1\<lparr>an_items := an_items doc1 @ [mark_item st iid tid tg]\<rparr>)"
    by blast
  have d1: "an_items doc1 = an_items doc \<and> an_meeting doc1 = an_meeting doc \<and>
      tag_id ` set (an_tags doc) \<subseteq> tag_id ` set (an_tags doc1)"
    using mark_tag_cases[OF m] by auto
  from fin show ?thesis
  proof
    assume "\<exists>iid. doc' = doc1\<lparr>an_items := an_items doc1 @ [mark_item st iid tid tg]\<rparr>"
    then obtain iid where "doc' = doc1\<lparr>an_items := an_items doc1 @ [mark_item st iid tid tg]\<rparr>" ..
    with d1 show ?thesis by (auto simp: mark_item_def)
  qed (use d1 in auto)
qed

lemma marks_loop_appends:
  assumes "apply_ops_loop uc rng dur st initial existing i ops doc n nf done = Inr (d, nf')"
    "list_all (\<lambda>op. op_op op = ''mark'') ops"
  shows "(\<exists>new. an_items d = an_items doc @ new \<and> (\<forall>it\<in>set new. it_operation it = st_operation st)) \<and>
    an_meeting d = an_meeting doc \<and> tag_id ` set (an_tags doc) \<subseteq> tag_id ` set (an_tags d)"
  using assms
proof (induction ops arbitrary: i doc n nf "done")
  case (Cons op ops)
  from Cons.prems obtain d1 n1 where
    1: "apply_mark_op uc rng op dur st doc n = Inr (d1, n1)"
    and 2: "apply_ops_loop uc rng dur st initial existing (Suc i) ops
        (d1\<lparr>an_tags := fst (init_tags initial existing done (an_tags d1))\<rparr>) n1 nf
        (snd (init_tags initial existing done (an_tags d1))) = Inr (d, nf')"
    by (auto simp: case_prod_beta apply_op_def split: sum.splits)
  have t: "tag_id ` set (fst (init_tags initial existing done (an_tags d1))) = tag_id ` set (an_tags d1)"
    using arg_cong[OF init_tags_ids[of initial existing "done" "an_tags d1"], of set] by simp
  have ops: "list_all (\<lambda>op. op_op op = ''mark'') ops" using Cons.prems(2) by simp
  from Cons.IH[OF 2 ops] obtain new2 where n2: "an_items d = an_items d1 @ new2"
      "\<forall>it\<in>set new2. it_operation it = st_operation st" "an_meeting d = an_meeting d1"
      "tag_id ` set (an_tags d1) \<subseteq> tag_id ` set (an_tags d)"
    by (auto simp: t)
  from mark_op_appends[OF 1] obtain new1 where n1: "an_items d1 = an_items doc @ new1"
      "\<forall>it\<in>set new1. it_operation it = st_operation st" "an_meeting d1 = an_meeting doc"
      "tag_id ` set (an_tags doc) \<subseteq> tag_id ` set (an_tags d1)"
    by blast
  have "an_items d = an_items doc @ (new1 @ new2)" "\<forall>it\<in>set (new1 @ new2). it_operation it = st_operation st"
    using n1(1,2) n2(1,2) by auto
  with n1(3,4) n2(3,4) show ?case by (metis order_trans)
qed auto



subsection \<open>Merging tags\<close>

definition mark_key :: "item \<Rightarrow> string \<times> target" where
  "mark_key it = (it_tag_id it, it_target it)"

definition tag_targets :: "string \<Rightarrow> item list \<Rightarrow> target set" where
  "tag_targets t its = it_target ` {it \<in> set its. it_tag_id it = t}"

lemma tag_targets_Nil [simp]: "tag_targets t [] = {}"
  by (simp add: tag_targets_def)

lemma tag_targets_Cons: "tag_targets t (it # its) =
    (if it_tag_id it = t then insert (it_target it) (tag_targets t its) else tag_targets t its)"
  by (auto simp: tag_targets_def)

lemma merge_items_no_source: "s \<noteq> d \<Longrightarrow> tag_targets s (merge_items s d c its) = {}"
  by (induction s d c its rule: merge_items.induct) (auto simp: tag_targets_Cons)

lemma merge_items_targets:
  "s \<noteq> d \<Longrightarrow> x \<in> tag_targets d (merge_items s d c its) \<or> x \<in> set c \<longleftrightarrow>
     x \<in> tag_targets s its \<or> x \<in> tag_targets d its \<or> x \<in> set c"
proof (induction s d c its rule: merge_items.induct)
  case (1 s d c)
  then show ?case by simp
next
  case (2 s d c it its)
  consider (other) "it_tag_id it \<noteq> s"
    | (dup) "it_tag_id it = s" "list_ex (\<lambda>t. same_annotation_target t (it_target it)) c"
    | (move) "it_tag_id it = s" "\<not> list_ex (\<lambda>t. same_annotation_target t (it_target it)) c" by blast
  then show ?case
  proof cases
    case other
    with 2(3)[OF other 2(4)] show ?thesis by (auto simp: tag_targets_Cons)
  next
    case dup
    then have "it_target it \<in> set c" by (auto simp: list_ex_iff)
    with dup 2(1)[OF dup 2(4)] 2(4) show ?thesis by (auto simp: tag_targets_Cons)
  next
    case move
    with 2(2)[OF move 2(4)] 2(4) show ?thesis by (auto simp: tag_targets_Cons)
  qed
qed

lemma merge_items_keeps: "s \<noteq> d \<Longrightarrow> tag_targets d its \<subseteq> tag_targets d (merge_items s d c its)"
  by (induction s d c its rule: merge_items.induct) (auto simp: tag_targets_Cons)

lemma merge_items_others:
  "s \<noteq> d \<Longrightarrow> filter (\<lambda>it. it_tag_id it \<noteq> s \<and> it_tag_id it \<noteq> d) (merge_items s d c its) =
     filter (\<lambda>it. it_tag_id it \<noteq> s \<and> it_tag_id it \<noteq> d) its"
  by (induction s d c its rule: merge_items.induct) auto

lemma merge_items_keys:
  "s \<noteq> d \<Longrightarrow> it \<in> set (merge_items s d c its) \<Longrightarrow>
     mark_key it \<in> mark_key ` set its \<or> it_tag_id it = d \<and> it_target it \<notin> set c"
proof (induction s d c its rule: merge_items.induct)
  case (2 s d c i its)
  consider (other) "it_tag_id i \<noteq> s"
    | (dup) "it_tag_id i = s" "list_ex (\<lambda>t. same_annotation_target t (it_target i)) c"
    | (move) "it_tag_id i = s" "\<not> list_ex (\<lambda>t. same_annotation_target t (it_target i)) c" by blast
  then show ?case
  proof cases
    case other
    with 2(3)[OF other 2(4)] 2(5) show ?thesis by auto
  next
    case dup
    with 2(1)[OF dup 2(4)] 2(5) show ?thesis by auto
  next
    case move
    with 2(5) consider "it = i\<lparr>it_tag_id := d\<rparr>" | "it \<in> set (merge_items s d (c @ [it_target i]) its)"
      by auto
    then show ?thesis
    proof cases
      case 1
      with move(2) show ?thesis by (auto simp: list_ex_iff)
    next
      case 2
      from \<open>\<lbrakk>it_tag_id i = s; \<not> list_ex (\<lambda>t. same_annotation_target t (it_target i)) c; s \<noteq> d; it \<in> set (merge_items s d (c @ [it_target i]) its)\<rbrakk> \<Longrightarrow> _\<close> [OF move \<open>s \<noteq> d\<close> 2]
      show ?thesis by auto
    qed
  qed
qed simp

lemma merge_items_no_dup:
  "s \<noteq> d \<Longrightarrow> distinct (map mark_key its) \<Longrightarrow> tag_targets d its \<subseteq> set c \<Longrightarrow>
     distinct (map mark_key (merge_items s d c its))"
proof (induction s d c its rule: merge_items.induct)
  case (2 s d c it its)
  have sub: "tag_targets d its \<subseteq> set c" using 2(6) by (auto simp: tag_targets_Cons split: if_splits)
  have dist: "mark_key it \<notin> mark_key ` set its" "distinct (map mark_key its)" using 2(5) by auto
  show ?case
  proof (cases "it_tag_id it = s")
    case True
    show ?thesis
    proof (cases "list_ex (\<lambda>t. same_annotation_target t (it_target it)) c")
      case True
      with \<open>it_tag_id it = s\<close> 2(1)[OF _ _ 2(4) dist(2) sub] show ?thesis by simp
    next
      case False
      let ?c = "c @ [it_target it]"
      have "mark_key x \<noteq> (d, it_target it)" if x: "x \<in> set (merge_items s d ?c its)" for x
      proof
        assume k: "mark_key x = (d, it_target it)"
        from merge_items_keys[OF 2(4) x] show False
        proof
          assume "mark_key x \<in> mark_key ` set its"
          then have "it_target it \<in> tag_targets d its" by (auto simp: k tag_targets_def) (auto simp: mark_key_def)
          with sub False show False by (auto simp: list_ex_iff)
        qed (use k in \<open>simp add: mark_key_def\<close>)
      qed
      moreover have "distinct (map mark_key (merge_items s d ?c its))"
        using True False sub dist(2) 2(2,4) by auto
      moreover have "mark_key (it\<lparr>it_tag_id := d\<rparr>) = (d, it_target it)" by (simp add: mark_key_def)
      ultimately show ?thesis using True False by fastforce
    qed
  next
    case False
    have "mark_key x \<noteq> mark_key it" if x: "x \<in> set (merge_items s d c its)" for x
    proof
      assume k: "mark_key x = mark_key it"
      from merge_items_keys[OF 2(4) x] show False
      proof
        assume "mark_key x \<in> mark_key ` set its" with k dist(1) show False by simp
      next
        assume "it_tag_id x = d \<and> it_target x \<notin> set c"
        with k 2(6) show False by (simp add: mark_key_def tag_targets_Cons)
      qed
    qed
    then have "mark_key it \<notin> mark_key ` set (merge_items s d c its)" by (metis imageE)
    with False 2(3)[OF False 2(4) dist(2) sub] show ?thesis by simp
  qed
qed simp

lemma apply_merge_tag_op_cases:
  assumes r: "apply_merge_tag_op uc op doc nf = Inr (d, nf')" and into: "op_into op = Some into"
    and src: "op_tag_id op \<in> tag_id ` set (an_tags doc)"
  shows "ot_id into \<noteq> op_tag_id op \<and> an_items d = merge_items (op_tag_id op) (ot_id into)
        (map it_target (filter (\<lambda>it. it_tag_id it = ot_id into) (an_items doc))) (an_items doc) \<and> nf' = nf"
proof -
  have "list_ex (\<lambda>t. tag_id t = op_tag_id op) (an_tags doc)" using src by (auto simp: list_ex_iff)
  with r into show ?thesis
    by (auto simp: apply_merge_tag_op_def Let_def split: if_splits option.splits)
qed

text \<open>
  merging a tag of the document into another moves its coverage and nothing else: no
  mark of the source is left, the destination covers exactly the targets either covered before,
  marks of other tags keep their place, and a document without duplicate marks gets none.
\<close>

theorem merge_tag_moves_coverage:
  assumes r: "apply_merge_tag_op uc op doc nf = Inr (d, nf')" and into: "op_into op = Some into"
    and src: "op_tag_id op \<in> tag_id ` set (an_tags doc)"
  shows "tag_targets (op_tag_id op) (an_items d) = {}
    \<and> tag_targets (ot_id into) (an_items d) =
        tag_targets (op_tag_id op) (an_items doc) \<union> tag_targets (ot_id into) (an_items doc)
    \<and> filter (\<lambda>it. it_tag_id it \<noteq> op_tag_id op \<and> it_tag_id it \<noteq> ot_id into) (an_items d) =
        filter (\<lambda>it. it_tag_id it \<noteq> op_tag_id op \<and> it_tag_id it \<noteq> ot_id into) (an_items doc)
    \<and> (distinct (map mark_key (an_items doc)) \<longrightarrow> distinct (map mark_key (an_items d)))"
proof -
  let ?c = "map it_target (filter (\<lambda>it. it_tag_id it = ot_id into) (an_items doc))"
  from apply_merge_tag_op_cases[OF assms] have ne: "op_tag_id op \<noteq> ot_id into"
    and d: "an_items d = merge_items (op_tag_id op) (ot_id into) ?c (an_items doc)" by auto
  have c: "set ?c = tag_targets (ot_id into) (an_items doc)" by (auto simp: tag_targets_def)
  have t: "tag_targets (ot_id into) (an_items d) =
      tag_targets (op_tag_id op) (an_items doc) \<union> tag_targets (ot_id into) (an_items doc)"
    unfolding d using merge_items_targets[OF ne, of _ ?c "an_items doc"]
      merge_items_keeps[OF ne, of "an_items doc" ?c] unfolding c by blast
  have "distinct (map mark_key (an_items doc)) \<longrightarrow> distinct (map mark_key (an_items d))"
    unfolding d using merge_items_no_dup[OF ne, of "an_items doc" ?c] unfolding c by blast
  with t merge_items_no_source[OF ne] merge_items_others[OF ne] show ?thesis unfolding d by blast
qed

definition ex_merge_op :: op where
  "ex_merge_op = (ex_op ''merge-tag'')\<lparr>op_tag_id := ''t1'', op_into := Some \<lparr>ot_id = ''t2'', ot_label = Some ''fun''\<rparr>\<rparr>"

definition ex_two :: annotations where
  "ex_two = ex_doc [ex_tag ''t1'' ''todo'', ex_tag ''t2'' ''fun'']
     [ex_item ''m1'' ''t1'' (ex_range 0 5) ''op_0'', ex_item ''m2'' ''t2'' (ex_range 0 5) ''op_0'',
      ex_item ''m3'' ''t1'' (ex_range 6 9) ''op_0'']"

lemma merge_tag_moves_coverage_witness:
  "\<exists>d nf. apply_merge_tag_op ascii_unicode ex_merge_op ex_two [] = Inr (d, nf)
     \<and> tag_targets ''t2'' (an_items d) = {ex_range 0 5, ex_range 6 9} \<and> length (an_items d) = 2"
proof -
  let ?r = "apply_merge_tag_op ascii_unicode ex_merge_op ex_two []"
  have "case ?r of Inr (d, nf) \<Rightarrow> length (an_items d) = 2 | Inl _ \<Rightarrow> False" by code_simp
  then obtain d nf where r: "?r = Inr (d, nf)" and l: "length (an_items d) = 2" by (auto split: sum.splits)
  have "op_into ex_merge_op = Some \<lparr>ot_id = ''t2'', ot_label = Some ''fun''\<rparr>"
    "op_tag_id ex_merge_op \<in> tag_id ` set (an_tags ex_two)"
    by (simp_all add: ex_merge_op_def ex_op_def ex_two_def ex_doc_def ex_tag_def)
  from merge_tag_moves_coverage[OF r this] have "tag_targets ''t2'' (an_items d) =
      tag_targets ''t1'' (an_items ex_two) \<union> tag_targets ''t2'' (an_items ex_two)"
    by (simp add: ex_merge_op_def ex_op_def)
  also have "\<dots> = {ex_range 0 5, ex_range 6 9}"
    by (simp add: tag_targets_Cons ex_two_def ex_doc_def ex_item_def insert_commute)
  finally show ?thesis using r l by blast
qed

end
