(* ===== verification/Job_Store.thy ===== *)
theory Job_Store
  imports Go_Strings
begin

text \<open>
  The operator's durable job state (\<open>run.go\<close>, \<open>attempt_store.go\<close>,
  \<open>build_store.go\<close>, \<open>seal_store.go\<close>, \<open>publish_store.go\<close>,
  \<open>startup_store.go\<close> under \<open>cassini-operator/internal/operator\<close>).

  A SQLite table is an association list from primary key to row, \<open>UPDATE \<dots> WHERE\<close> edits the
  rows that match, and a transaction runs on a copy that replaces the database only when it
  commits.  Every SQL call may fail: the k-th call of a transaction fails when \<open>flt k\<close>.
  Both tables share most of their columns: those are the record \<open>cols\<close>, which the rows of
  \<open>jobs\<close> and \<open>job_attempts\<close> extend.
\<close>

subsection \<open>Rows\<close>

datatype stage = Record | Build | Seal | Publish | Done
datatype state = Queued | Running | Succeeded | Failed | Interrupted | Blocked

type_synonym time_str = string

record cols =
  c_stage :: stage
  c_state :: state
  c_run_path :: "string option"
  c_meeting_path :: "string option"
  c_opus_path :: "string option"
  c_opus_sha256 :: "string option"
  c_site_path :: "string option"
  c_error :: "string option"
  c_stop_reason :: "string option"
  c_stop_requested :: "time_str option"
  c_stop_signal_sent :: "time_str option"
  c_exit_code :: "int option"
  c_stop_detail :: "string option"
  c_created :: time_str
  c_updated :: time_str
  c_record_queued :: "time_str option"
  c_record_started :: "time_str option"
  c_record_finished :: "time_str option"
  c_build_queued :: "time_str option"
  c_retry_not_before :: "time_str option"
  c_deferrals :: int
  c_build_started :: "time_str option"
  c_build_finished :: "time_str option"
  c_seal_queued :: "time_str option"
  c_seal_started :: "time_str option"
  c_seal_finished :: "time_str option"
  c_publish_queued :: "time_str option"
  c_publish_started :: "time_str option"
  c_publish_finished :: "time_str option"
  c_interrupted :: "time_str option"
  c_completed :: "time_str option"

record job = cols +
  j_provider :: string
  j_request :: string
  j_attempt :: int
  j_reruns :: int

record attempt = cols +
  a_trigger :: string
  a_request :: string
  a_speaker_edits :: "string option"
  a_record_log :: "string option"
  a_build_log :: "string option"
  a_seal_log :: "string option"
  a_publish_log :: "string option"
  a_summary_started :: string
  a_summary_finished :: string
  a_summary_reason :: string
  a_summary_status :: string
  a_summary_model :: string
  a_transcription_status :: string
  a_transcription_reason :: string
  a_transcription_model :: string
  a_transcription_revision :: string
  a_transcription_device :: string

record db =
  db_jobs :: "(string \<times> job) list"
  db_attempts :: "((string \<times> int) \<times> attempt) list"
  db_cleanup :: "string list"
  db_events :: "(string \<times> string \<times> int) list"

datatype db_err = SqlError | NoRows | NotEligible | PublishNotClaimable | RowCount nat | UnknownStage

subsection \<open>Statements and transactions\<close>

definition update_where :: "('k \<Rightarrow> 'r \<Rightarrow> bool) \<Rightarrow> ('r \<Rightarrow> 'r) \<Rightarrow> ('k \<times> 'r) list \<Rightarrow> ('k \<times> 'r) list" where
  "update_where P f t = map (\<lambda>(k, r). (k, if P k r then f r else r)) t"

definition affected :: "('k \<Rightarrow> 'r \<Rightarrow> bool) \<Rightarrow> ('k \<times> 'r) list \<Rightarrow> nat" where
  "affected P t = length (filter (\<lambda>(k, r). P k r) t)"

type_synonym faults = "nat \<Rightarrow> bool"

definition sql :: "faults \<Rightarrow> nat \<Rightarrow> 'a \<Rightarrow> (db_err, 'a) res" where
  "sql flt k x = (if flt k then Inl SqlError else Inr x)"

definition insert_row :: "faults \<Rightarrow> nat \<Rightarrow> 'k \<Rightarrow> 'r \<Rightarrow> ('k \<times> 'r) list \<Rightarrow> (db_err, ('k \<times> 'r) list) res" where
  "insert_row flt k key r t =
     (if flt k \<or> key \<in> set (map fst t) then Inl SqlError else Inr (t @ [(key, r)]))"

text \<open>
  \<open>BeginTx\<close> is call 0 and \<open>Commit\<close> call 9.  A body that answers \<open>None\<close> returns
  without committing; an error or a missing commit rolls back.  The state-change event is
  emitted after a successful commit only.
\<close>

definition with_tx ::
  "faults \<Rightarrow> (db \<Rightarrow> (db_err, (db \<times> string \<times> string \<times> int) option) res) \<Rightarrow> db \<Rightarrow> (db_err, bool) res \<times> db" where
  "with_tx flt body db =
     (if flt 0 then (Inl SqlError, db)
      else case body db of
        Inl e \<Rightarrow> (Inl e, db)
      | Inr None \<Rightarrow> (Inr False, db)
      | Inr (Some (db', ev)) \<Rightarrow>
          if flt 9 then (Inl SqlError, db) else (Inr True, db'\<lparr>db_events := db_events db' @ [ev]\<rparr>))"

definition current_attempt_number :: "faults \<Rightarrow> nat \<Rightarrow> string \<Rightarrow> db \<Rightarrow> (db_err, int) res" where
  "current_attempt_number flt k i db =
     (if flt k then Inl SqlError
      else case map_of (db_jobs db) i of None \<Rightarrow> Inl NoRows | Some j \<Rightarrow> Inr (j_attempt j))"

definition set_job :: "string \<Rightarrow> (job \<Rightarrow> job) \<Rightarrow> db \<Rightarrow> db" where
  "set_job i f db = db\<lparr>db_jobs := update_where (\<lambda>k _. k = i) f (db_jobs db)\<rparr>"

definition set_attempt :: "string \<Rightarrow> int \<Rightarrow> (attempt \<Rightarrow> attempt) \<Rightarrow> db \<Rightarrow> db" where
  "set_attempt i n f db = db\<lparr>db_attempts := update_where (\<lambda>k _. k = (i, n)) f (db_attempts db)\<rparr>"

text \<open>
  The shape shared by the unconditional stage marks: update the job, read its current attempt
  number, update that attempt, commit, emit.  \<open>mark_stage_at\<close> reads the number first.
\<close>

definition mark_stage ::
  "faults \<Rightarrow> string \<Rightarrow> string \<Rightarrow> (job \<Rightarrow> job) \<Rightarrow> (attempt \<Rightarrow> attempt) \<Rightarrow> db \<Rightarrow> (db_err, bool) res \<times> db" where
  "mark_stage flt ev i fj fa = with_tx flt (\<lambda>db.
     bind_r (sql flt 1 (set_job i fj db)) (\<lambda>db.
     bind_r (current_attempt_number flt 2 i db) (\<lambda>n.
     bind_r (sql flt 3 (set_attempt i n fa db)) (\<lambda>db.
     Inr (Some (db, ev, i, n))))))"

definition mark_stage_at ::
  "faults \<Rightarrow> string \<Rightarrow> string \<Rightarrow> (job \<Rightarrow> job) \<Rightarrow> (attempt \<Rightarrow> attempt) \<Rightarrow> db \<Rightarrow> (db_err, bool) res \<times> db" where
  "mark_stage_at flt ev i fj fa = with_tx flt (\<lambda>db.
     bind_r (current_attempt_number flt 1 i db) (\<lambda>n.
     bind_r (sql flt 2 (set_job i fj db)) (\<lambda>db.
     bind_r (sql flt 3 (set_attempt i n fa db)) (\<lambda>db.
     Inr (Some (db, ev, i, n))))))"

definition nullable_string :: "string \<Rightarrow> string option" where
  "nullable_string v = (let v = trim_space v in if v = [] then None else Some v)"

fun first_non_empty :: "string list \<Rightarrow> string" where
  "first_non_empty [] = []"
| "first_non_empty (v # vs) = (if trim_space v \<noteq> [] then trim_space v else first_non_empty vs)"

definition coalesce :: "'a option \<Rightarrow> 'a \<Rightarrow> 'a option" where
  "coalesce a b = (case a of None \<Rightarrow> Some b | Some x \<Rightarrow> Some x)"

lemma map_of_update_where:
  "map_of (update_where P f t) k = map_option (\<lambda>r. if P k r then f r else r) (map_of t k)"
  by (induction t) (auto simp: update_where_def)

lemma keys_update_where [simp]: "map fst (update_where P f t) = map fst t"
  by (induction t) (auto simp: update_where_def)

lemma affected_0: "affected P t = 0 \<longleftrightarrow> (\<forall>(k, r)\<in>set t. \<not> P k r)"
  by (auto simp: affected_def filter_empty_conv)

subsection \<open>The record stage\<close>

record record_result =
  rr_run_path :: string
  rr_stop_reason :: string
  rr_stop_detail :: string
  rr_exit_code :: "int option"

text \<open>The row columns a fresh \<open>INSERT\<close> leaves at their defaults.\<close>

definition fresh_cols :: "stage \<Rightarrow> state \<Rightarrow> time_str \<Rightarrow> time_str \<Rightarrow> cols" where
  "fresh_cols sg st created updated = \<lparr>c_stage = sg, c_state = st, c_run_path = None, c_meeting_path = None,
     c_opus_path = None, c_opus_sha256 = None, c_site_path = None, c_error = None,
     c_stop_reason = None, c_stop_requested = None, c_stop_signal_sent = None,
     c_exit_code = None, c_stop_detail = None, c_created = created, c_updated = updated,
     c_record_queued = None, c_record_started = None, c_record_finished = None,
     c_build_queued = None, c_retry_not_before = None, c_deferrals = 0,
     c_build_started = None, c_build_finished = None,
     c_seal_queued = None, c_seal_started = None, c_seal_finished = None,
     c_publish_queued = None, c_publish_started = None, c_publish_finished = None,
     c_interrupted = None, c_completed = None\<rparr>"

definition mk_attempt :: "cols \<Rightarrow> string \<Rightarrow> string \<Rightarrow> string option \<Rightarrow> attempt" where
  "mk_attempt c trigger request edits = cols.extend c (attempt.fields trigger request edits None None None None [] [] [] [] [] [] [] [] [] [])"

definition mk_job :: "cols \<Rightarrow> string \<Rightarrow> string \<Rightarrow> int \<Rightarrow> int \<Rightarrow> job" where
  "mk_job c provider request n reruns = cols.extend c (job.fields provider request n reruns)"

text \<open>
  \<open>prepareRecordJob\<close> builds the new job at record/queued with attempt 1;
  \<open>deletes\<close> is \<open>deletesSourceMedia\<close> of it.
\<close>

definition new_job :: "string \<Rightarrow> string \<Rightarrow> time_str \<Rightarrow> job" where
  "new_job provider request now =
     mk_job ((fresh_cols Record Queued now now)\<lparr>c_record_queued := Some now\<rparr>) provider request 1 0"

definition insert_initial_attempt :: "faults \<Rightarrow> nat \<Rightarrow> string \<Rightarrow> job \<Rightarrow> db \<Rightarrow> (db_err, db) res" where
  "insert_initial_attempt flt k i j db =
     bind_r (insert_row flt k (i, 1)
       (mk_attempt ((fresh_cols (c_stage j) (c_state j) (c_created j) (c_updated j))\<lparr>c_record_queued := c_record_queued j\<rparr>)
         ''initial'' (j_request j) None) (db_attempts db))
     (\<lambda>t. Inr (db\<lparr>db_attempts := t\<rparr>))"

definition insert_queued_job :: "faults \<Rightarrow> bool \<Rightarrow> string \<Rightarrow> job \<Rightarrow> db \<Rightarrow> (db_err, bool) res \<times> db" where
  "insert_queued_job flt deletes i j = with_tx flt (\<lambda>db.
     bind_r (insert_row flt 1 i
       (mk_job ((fresh_cols (c_stage j) (c_state j) (c_created j) (c_updated j))\<lparr>c_record_queued := c_record_queued j\<rparr>)
         (j_provider j) (j_request j) (j_attempt j) (j_reruns j)) (db_jobs db)) (\<lambda>t.
     let db = db\<lparr>db_jobs := t\<rparr> in
     bind_r (if deletes then (if flt 2 \<or> i \<in> set (db_cleanup db) then Inl SqlError
                              else Inr (db\<lparr>db_cleanup := db_cleanup db @ [i]\<rparr>)) else Inr db) (\<lambda>db.
     bind_r (insert_initial_attempt flt 3 i j db) (\<lambda>db.
     Inr (Some (db, ''job.created'', i, 1))))))"

definition mark_record_running :: "faults \<Rightarrow> string \<Rightarrow> time_str \<Rightarrow> db \<Rightarrow> (db_err, bool) res \<times> db" where
  "mark_record_running flt i started = mark_stage flt ''job.updated'' i
     (\<lambda>j. j\<lparr>c_stage := Record, c_state := Running, c_updated := started, c_record_started := Some started\<rparr>)
     (\<lambda>a. a\<lparr>c_stage := Record, c_state := Running, c_updated := started, c_record_started := Some started\<rparr>)"

definition mark_record_stop_requested ::
  "faults \<Rightarrow> string \<Rightarrow> time_str \<Rightarrow> time_str \<Rightarrow> db \<Rightarrow> (db_err, bool) res \<times> db" where
  "mark_record_stop_requested flt i requested sent = mark_stage flt ''attempt.updated'' i
     (\<lambda>j. j\<lparr>c_stop_requested := coalesce (c_stop_requested j) requested,
            c_stop_signal_sent := coalesce (c_stop_signal_sent j) sent, c_updated := sent\<rparr>)
     (\<lambda>a. a\<lparr>c_stop_requested := coalesce (c_stop_requested a) requested,
            c_stop_signal_sent := coalesce (c_stop_signal_sent a) sent, c_updated := sent\<rparr>)"

definition update_record_outcome ::
  "faults \<Rightarrow> string \<Rightarrow> record_result \<Rightarrow> string \<Rightarrow> time_str \<Rightarrow> db \<Rightarrow> (db_err, bool) res \<times> db" where
  "update_record_outcome flt i res canonical now = mark_stage flt ''attempt.updated'' i
     (\<lambda>j. j\<lparr>c_stop_reason := nullable_string (rr_stop_reason res), c_exit_code := rr_exit_code res,
            c_stop_detail := nullable_string (rr_stop_detail res), c_run_path := Some canonical, c_updated := now\<rparr>)
     (\<lambda>a. a\<lparr>c_stop_reason := nullable_string (rr_stop_reason res), c_exit_code := rr_exit_code res,
            c_stop_detail := nullable_string (rr_stop_detail res),
            c_run_path := nullable_string (rr_run_path res), c_updated := now\<rparr>)"

definition mark_record_succeeded_terminal ::
  "faults \<Rightarrow> string \<Rightarrow> string \<Rightarrow> string \<Rightarrow> record_result \<Rightarrow> time_str \<Rightarrow> db \<Rightarrow> (db_err, bool) res \<times> db" where
  "mark_record_succeeded_terminal flt i canonical attempt_path res now = mark_stage flt ''job.updated'' i
     (\<lambda>j. j\<lparr>c_stage := Done, c_state := Succeeded, c_run_path := Some canonical, c_meeting_path := None,
            c_site_path := None, c_error := None, c_stop_reason := nullable_string (rr_stop_reason res),
            c_exit_code := rr_exit_code res, c_stop_detail := nullable_string (rr_stop_detail res),
            c_updated := now, c_record_finished := Some now, c_completed := Some now,
            c_build_queued := None, c_build_started := None, c_build_finished := None,
            c_publish_queued := None, c_publish_started := None, c_publish_finished := None,
            c_interrupted := None\<rparr>)
     (\<lambda>a. a\<lparr>c_stage := Done, c_state := Succeeded, c_run_path := Some attempt_path, c_error := None,
            c_stop_reason := nullable_string (rr_stop_reason res), c_exit_code := rr_exit_code res,
            c_stop_detail := nullable_string (rr_stop_detail res), c_updated := now,
            c_record_finished := Some now, c_completed := Some now, c_interrupted := None\<rparr>)"

definition mark_record_failed ::
  "faults \<Rightarrow> string \<Rightarrow> string \<Rightarrow> record_result \<Rightarrow> time_str \<Rightarrow> db \<Rightarrow> (db_err, bool) res \<times> db" where
  "mark_record_failed flt i err res now = mark_stage flt ''attempt.updated'' i
     (\<lambda>j. j\<lparr>c_stage := Done, c_state := Failed, c_error := Some (trim_space err),
            c_stop_reason := nullable_string (rr_stop_reason res), c_exit_code := rr_exit_code res,
            c_stop_detail := nullable_string (first_non_empty [rr_stop_detail res, err]), c_updated := now,
            c_record_finished := Some now, c_completed := Some now\<rparr>)
     (\<lambda>a. a\<lparr>c_stage := Done, c_state := Failed, c_run_path := nullable_string (rr_run_path res),
            c_error := Some (trim_space err),
            c_stop_reason := nullable_string (rr_stop_reason res), c_exit_code := rr_exit_code res,
            c_stop_detail := nullable_string (first_non_empty [rr_stop_detail res, err]), c_updated := now,
            c_record_finished := Some now, c_completed := Some now\<rparr>)"

subsection \<open>The build stage\<close>

record build_task =
  bt_job :: string
  bt_attempt :: int
  bt_run_path :: string
  bt_deferrals :: int

definition mark_build_queued ::
  "faults \<Rightarrow> string \<Rightarrow> string \<Rightarrow> string \<Rightarrow> time_str \<Rightarrow> db \<Rightarrow> (db_err, bool) res \<times> db" where
  "mark_build_queued flt i job_path attempt_path now = mark_stage flt ''job.updated'' i
     (\<lambda>j. j\<lparr>c_stage := Build, c_state := Queued, c_run_path := Some job_path, c_updated := now,
            c_record_finished := Some now, c_build_queued := Some now, c_retry_not_before := None,
            c_deferrals := 0, c_completed := None, c_error := None\<rparr>)
     (\<lambda>a. a\<lparr>c_stage := Build, c_state := Queued, c_run_path := Some attempt_path, c_updated := now,
            c_record_finished := Some now, c_build_queued := Some now, c_retry_not_before := None,
            c_deferrals := 0, c_completed := None, c_error := None\<rparr>)"

text \<open>SQL's \<open>x IS NULL OR x <= t\<close> on the fixed-width timestamps.\<close>

definition due :: "time_str option \<Rightarrow> time_str \<Rightarrow> bool" where
  "due x now = (case x of None \<Rightarrow> True | Some t \<Rightarrow> t \<le> now)"

text \<open>
  The conditional pair of updates shared by the claim, the deferral and the block of a build:
  nothing to do when no job row matches, an error when the attempt row does not.
\<close>

definition cond_pair ::
  "faults \<Rightarrow> string \<Rightarrow> int \<Rightarrow> (job \<Rightarrow> bool) \<Rightarrow> (job \<Rightarrow> job) \<Rightarrow> (attempt \<Rightarrow> bool) \<Rightarrow> (attempt \<Rightarrow> attempt)
   \<Rightarrow> db \<Rightarrow> (db_err, bool) res \<times> db" where
  "cond_pair flt i n Pj fj Pa fa = with_tx flt (\<lambda>db.
     bind_r (sql flt 1 (update_where (\<lambda>k j. k = i \<and> Pj j) fj (db_jobs db))) (\<lambda>jobs.
     bind_r (sql flt 2 (affected (\<lambda>k j. k = i \<and> Pj j) (db_jobs db))) (\<lambda>claimed.
     if claimed = 0 then Inr None
     else let db = db\<lparr>db_jobs := jobs\<rparr>; Q = (\<lambda>k a. k = (i, n) \<and> Pa a) in
       bind_r (sql flt 3 (update_where Q fa (db_attempts db))) (\<lambda>atts.
       bind_r (sql flt 4 (affected Q (db_attempts db))) (\<lambda>m.
       if m \<noteq> 1 then Inl (RowCount m)
       else Inr (Some (db\<lparr>db_attempts := atts\<rparr>, ''job.updated'', i, n)))))))"

definition claim_build_running :: "faults \<Rightarrow> build_task \<Rightarrow> time_str \<Rightarrow> db \<Rightarrow> (db_err, bool) res \<times> db" where
  "claim_build_running flt task now = cond_pair flt (bt_job task) (bt_attempt task)
     (\<lambda>j. j_attempt j = bt_attempt task \<and> c_run_path j = Some (bt_run_path task) \<and>
          c_stage j = Build \<and> c_state j = Queued \<and> c_deferrals j = bt_deferrals task \<and>
          due (c_retry_not_before j) now)
     (\<lambda>j. j\<lparr>c_state := Running, c_updated := now, c_build_started := Some now,
            c_retry_not_before := None, c_error := None\<rparr>)
     (\<lambda>a. c_stage a = Build \<and> c_state a = Queued \<and> c_deferrals a = bt_deferrals task)
     (\<lambda>a. a\<lparr>c_stage := Build, c_state := Running, c_updated := now, c_build_started := Some now,
            c_retry_not_before := None, c_error := None,
            a_summary_started := [], a_summary_finished := [], a_summary_reason := []\<rparr>)"

definition mark_build_deferred ::
  "faults \<Rightarrow> build_task \<Rightarrow> int \<Rightarrow> string \<Rightarrow> time_str \<Rightarrow> time_str \<Rightarrow> db \<Rightarrow> (db_err, bool) res \<times> db" where
  "mark_build_deferred flt task next detail now retry = cond_pair flt (bt_job task) (bt_attempt task)
     (\<lambda>j. j_attempt j = bt_attempt task \<and> c_stage j = Build \<and> c_state j = Running \<and>
          c_deferrals j = bt_deferrals task)
     (\<lambda>j. j\<lparr>c_state := Queued, c_error := Some (trim_space detail), c_updated := now,
            c_build_started := None, c_retry_not_before := Some retry, c_deferrals := next\<rparr>)
     (\<lambda>a. c_stage a = Build \<and> c_state a = Running)
     (\<lambda>a. a\<lparr>c_state := Queued, c_error := Some (trim_space detail), c_updated := now,
            c_build_started := None, c_retry_not_before := Some retry, c_deferrals := next\<rparr>)"

definition mark_build_blocked ::
  "faults \<Rightarrow> build_task \<Rightarrow> string \<Rightarrow> time_str \<Rightarrow> db \<Rightarrow> (db_err, bool) res \<times> db" where
  "mark_build_blocked flt task detail now = cond_pair flt (bt_job task) (bt_attempt task)
     (\<lambda>j. j_attempt j = bt_attempt task \<and> c_stage j = Build \<and> c_state j = Running \<and>
          c_deferrals j = bt_deferrals task)
     (\<lambda>j. j\<lparr>c_state := Blocked, c_error := Some (trim_space detail), c_updated := now,
            c_build_started := None, c_retry_not_before := None\<rparr>)
     (\<lambda>a. c_stage a = Build \<and> c_state a = Running)
     (\<lambda>a. a\<lparr>c_state := Blocked, c_error := Some (trim_space detail), c_updated := now,
            c_build_started := None, c_retry_not_before := None\<rparr>)"

definition mark_build_succeeded ::
  "faults \<Rightarrow> string \<Rightarrow> string \<Rightarrow> string \<Rightarrow> time_str \<Rightarrow> db \<Rightarrow> (db_err, bool) res \<times> db" where
  "mark_build_succeeded flt i job_path attempt_path now = mark_stage flt ''job.updated'' i
     (\<lambda>j. j\<lparr>c_stage := Done, c_state := Succeeded, c_meeting_path := Some job_path, c_updated := now,
            c_build_finished := Some now, c_completed := Some now, c_error := None\<rparr>)
     (\<lambda>a. a\<lparr>c_stage := Done, c_state := Succeeded, c_meeting_path := Some attempt_path, c_updated := now,
            c_build_finished := Some now, c_completed := Some now, c_error := None\<rparr>)"

definition mark_build_failed ::
  "faults \<Rightarrow> string \<Rightarrow> string \<Rightarrow> string \<Rightarrow> time_str \<Rightarrow> db \<Rightarrow> (db_err, bool) res \<times> db" where
  "mark_build_failed flt i attempt_path err now = mark_stage_at flt ''job.updated'' i
     (\<lambda>j. j\<lparr>c_stage := Done, c_state := Failed, c_error := Some (trim_space err), c_updated := now,
            c_build_finished := Some now, c_completed := Some now\<rparr>)
     (\<lambda>a. a\<lparr>c_stage := Done, c_state := Failed, c_meeting_path := nullable_string (trim_space attempt_path),
            c_error := Some (trim_space err), c_updated := now,
            c_build_finished := Some now, c_completed := Some now\<rparr>)"

subsection \<open>The seal stage\<close>

record seal_task =
  sl_job :: string
  sl_attempt :: int
  sl_meeting_path :: string

definition mark_seal_queued ::
  "faults \<Rightarrow> string \<Rightarrow> string \<Rightarrow> string \<Rightarrow> time_str \<Rightarrow> db \<Rightarrow> (db_err, bool) res \<times> db" where
  "mark_seal_queued flt i job_path attempt_path now = mark_stage flt ''job.updated'' i
     (\<lambda>j. j\<lparr>c_stage := Seal, c_state := Queued, c_updated := now, c_build_finished := Some now,
            c_seal_queued := Some now, c_completed := None, c_error := None\<rparr>)
     (\<lambda>a. a\<lparr>c_stage := Seal, c_state := Queued, c_meeting_path := Some attempt_path, c_updated := now,
            c_build_finished := Some now, c_seal_queued := Some now, c_completed := None, c_error := None\<rparr>)"

text \<open>The conditional claim of the seal and publish stages, which read the attempt number afterwards.\<close>

definition claim_stage ::
  "faults \<Rightarrow> string \<Rightarrow> stage \<Rightarrow> (job \<Rightarrow> job) \<Rightarrow> (attempt \<Rightarrow> attempt) \<Rightarrow> db \<Rightarrow> (db_err, bool) res \<times> db" where
  "claim_stage flt i sg fj fa = with_tx flt (\<lambda>db.
     let Q = (\<lambda>k j. k = i \<and> c_stage j = sg \<and> c_state j = Queued) in
     bind_r (sql flt 1 (update_where Q fj (db_jobs db))) (\<lambda>jobs.
     bind_r (sql flt 2 (affected Q (db_jobs db))) (\<lambda>claimed.
     if claimed = 0 then Inr None
     else let db = db\<lparr>db_jobs := jobs\<rparr> in
       bind_r (current_attempt_number flt 3 i db) (\<lambda>n.
       bind_r (sql flt 4 (set_attempt i n fa db)) (\<lambda>db.
       Inr (Some (db, ''job.updated'', i, n)))))))"

definition claim_seal_running :: "faults \<Rightarrow> string \<Rightarrow> time_str \<Rightarrow> db \<Rightarrow> (db_err, bool) res \<times> db" where
  "claim_seal_running flt i now = claim_stage flt i Seal
     (\<lambda>j. j\<lparr>c_state := Running, c_updated := now, c_seal_started := Some now\<rparr>)
     (\<lambda>a. a\<lparr>c_stage := Seal, c_state := Running, c_updated := now, c_seal_started := Some now\<rparr>)"

definition mark_seal_succeeded ::
  "faults \<Rightarrow> string \<Rightarrow> string \<Rightarrow> string \<Rightarrow> string \<Rightarrow> time_str \<Rightarrow> db \<Rightarrow> (db_err, bool) res \<times> db" where
  "mark_seal_succeeded flt i job_opus attempt_opus sha now = mark_stage flt ''job.updated'' i
     (\<lambda>j. j\<lparr>c_stage := Publish, c_state := Queued, c_updated := now, c_seal_finished := Some now,
            c_publish_queued := Some now, c_completed := None, c_error := None\<rparr>)
     (\<lambda>a. a\<lparr>c_stage := Publish, c_state := Queued, c_opus_path := Some attempt_opus,
            c_opus_sha256 := Some sha, c_updated := now, c_seal_finished := Some now,
            c_publish_queued := Some now, c_completed := None, c_error := None\<rparr>)"

definition mark_seal_failed ::
  "faults \<Rightarrow> string \<Rightarrow> string \<Rightarrow> string \<Rightarrow> time_str \<Rightarrow> db \<Rightarrow> (db_err, bool) res \<times> db" where
  "mark_seal_failed flt i attempt_opus err now = mark_stage_at flt ''job.updated'' i
     (\<lambda>j. j\<lparr>c_stage := Done, c_state := Failed, c_error := Some (trim_space err), c_updated := now,
            c_seal_finished := Some now, c_completed := Some now\<rparr>)
     (\<lambda>a. a\<lparr>c_stage := Done, c_state := Failed, c_opus_path := nullable_string (trim_space attempt_opus),
            c_error := Some (trim_space err), c_updated := now,
            c_seal_finished := Some now, c_completed := Some now\<rparr>)"

subsection \<open>The publish stage\<close>

record publish_task =
  pt_job :: string
  pt_attempt :: int
  pt_opus_path :: string
  pt_opus_sha256 :: string

text \<open>\<open>MarkPublishQueued\<close>, which production never calls.\<close>

definition mark_publish_queued ::
  "faults \<Rightarrow> string \<Rightarrow> string \<Rightarrow> string \<Rightarrow> time_str \<Rightarrow> db \<Rightarrow> (db_err, bool) res \<times> db" where
  "mark_publish_queued flt i job_path attempt_path now = mark_stage flt ''job.updated'' i
     (\<lambda>j. j\<lparr>c_stage := Publish, c_state := Queued, c_meeting_path := Some job_path, c_updated := now,
            c_build_finished := Some now, c_publish_queued := Some now, c_completed := None, c_error := None\<rparr>)
     (\<lambda>a. a\<lparr>c_stage := Publish, c_state := Queued, c_meeting_path := Some attempt_path, c_updated := now,
            c_build_finished := Some now, c_publish_queued := Some now, c_completed := None, c_error := None\<rparr>)"

definition mark_publish_running :: "faults \<Rightarrow> string \<Rightarrow> time_str \<Rightarrow> db \<Rightarrow> (db_err, unit) res \<times> db" where
  "mark_publish_running flt i now db =
     (let (r, db') = claim_stage flt i Publish
            (\<lambda>j. j\<lparr>c_state := Running, c_updated := now, c_publish_started := Some now\<rparr>)
            (\<lambda>a. a\<lparr>c_stage := Publish, c_state := Running, c_updated := now, c_publish_started := Some now\<rparr>) db
      in (case r of Inl e \<Rightarrow> Inl e | Inr won \<Rightarrow> if won then Inr () else Inl PublishNotClaimable, db'))"

text \<open>
  \<open>edits\<close> is the outcome of \<open>markSpeakerEditsPublishedTx\<close>, whose table is not modelled:
  its error, if any, fails the transaction.
\<close>

definition mark_publish_succeeded ::
  "faults \<Rightarrow> (db_err, unit) res \<Rightarrow> string \<Rightarrow> string \<Rightarrow> string \<Rightarrow> time_str \<Rightarrow> db \<Rightarrow> (db_err, bool) res \<times> db" where
  "mark_publish_succeeded flt edits i job_site attempt_site now = with_tx flt (\<lambda>db.
     bind_r (sql flt 1 (set_job i
       (\<lambda>j. j\<lparr>c_stage := Done, c_state := Succeeded, c_site_path := Some job_site, c_updated := now,
              c_publish_finished := Some now, c_completed := Some now, c_error := None\<rparr>) db)) (\<lambda>db.
     bind_r (current_attempt_number flt 2 i db) (\<lambda>n.
     bind_r (sql flt 3 (set_attempt i n
       (\<lambda>a. a\<lparr>c_stage := Done, c_state := Succeeded, c_site_path := Some attempt_site, c_updated := now,
              c_publish_finished := Some now, c_completed := Some now, c_error := None\<rparr>) db)) (\<lambda>db.
     bind_r edits (\<lambda>_. Inr (Some (db, ''job.updated'', i, n)))))))"

definition mark_publish_failed ::
  "faults \<Rightarrow> string \<Rightarrow> string \<Rightarrow> string \<Rightarrow> string \<Rightarrow> time_str \<Rightarrow> db \<Rightarrow> (db_err, bool) res \<times> db" where
  "mark_publish_failed flt i job_site attempt_site err now =
     (let job_site = trim_space job_site; attempt_site = trim_space attempt_site in
      mark_stage_at flt ''job.updated'' i
       (\<lambda>j. if job_site = [] then
              j\<lparr>c_stage := Done, c_state := Failed, c_error := Some (trim_space err), c_updated := now,
                c_publish_finished := Some now, c_completed := Some now\<rparr>
            else
              j\<lparr>c_stage := Done, c_state := Failed, c_site_path := Some job_site, c_error := Some (trim_space err),
                c_updated := now, c_publish_finished := Some now, c_completed := Some now\<rparr>)
       (\<lambda>a. a\<lparr>c_stage := Done, c_state := Failed, c_site_path := nullable_string attempt_site,
              c_error := Some (trim_space err), c_updated := now,
              c_publish_finished := Some now, c_completed := Some now\<rparr>))"

subsection \<open>Restart, log paths and new attempts\<close>

definition incomplete :: "('a) cols_scheme \<Rightarrow> bool" where
  "incomplete r \<longleftrightarrow> c_state r \<notin> {Succeeded, Failed, Interrupted, Blocked} \<and>
     \<not> (c_state r = Queued \<and> c_stage r \<in> {Build, Seal, Publish})"

definition mark_incomplete_jobs_interrupted :: "faults \<Rightarrow> time_str \<Rightarrow> db \<Rightarrow> (db_err, nat) res \<times> db" where
  "mark_incomplete_jobs_interrupted flt now db =
     (if flt 0 \<or> flt 1 \<or> flt 2 \<or> flt 3 \<or> flt 9 then (Inl SqlError, db)
      else (Inr (affected (\<lambda>_ j. incomplete j) (db_jobs db)),
        db\<lparr>db_jobs := update_where (\<lambda>_ j. incomplete j)
               (\<lambda>j. j\<lparr>c_state := Interrupted, c_updated := now, c_interrupted := Some now\<rparr>) (db_jobs db),
           db_attempts := update_where (\<lambda>_ a. incomplete a)
               (\<lambda>a. a\<lparr>c_state := Interrupted, c_updated := now, c_interrupted := Some now\<rparr>) (db_attempts db)\<rparr>))"

definition set_attempt_stage_log_path ::
  "faults \<Rightarrow> string \<Rightarrow> int \<Rightarrow> string \<Rightarrow> string \<Rightarrow> time_str \<Rightarrow> db \<Rightarrow> (db_err, bool) res \<times> db" where
  "set_attempt_stage_log_path flt i n sg path now db =
     (let upd = (if sg = ''record'' then Some (\<lambda>a. a\<lparr>c_updated := now, a_record_log := Some path\<rparr>)
          else if sg = ''build'' then Some (\<lambda>a. a\<lparr>c_updated := now, a_build_log := Some path\<rparr>)
          else if sg = ''seal'' then Some (\<lambda>a. a\<lparr>c_updated := now, a_seal_log := Some path\<rparr>)
          else if sg = ''publish'' then Some (\<lambda>a. a\<lparr>c_updated := now, a_publish_log := Some path\<rparr>)
          else None)
      in case upd of None \<Rightarrow> (Inl UnknownStage, db)
         | Some f \<Rightarrow> if flt 1 then (Inl SqlError, db)
             else (Inr True, (set_attempt i n f db)\<lparr>db_events := db_events db @ [(''attempt.updated'', i, n)]\<rparr>))"

record step_outcomes =
  so_transcription_status :: string
  so_transcription_reason :: string
  so_transcription_model :: string
  so_transcription_revision :: string
  so_transcription_device :: string
  so_summary_status :: string
  so_summary_reason :: string
  so_summary_model :: string
  so_summary_started :: string
  so_summary_finished :: string

definition attempt_summary_times ::
  "string \<Rightarrow> string \<Rightarrow> string \<Rightarrow> string \<Rightarrow> string \<Rightarrow> string \<times> string" where
  "attempt_summary_times kind bs bf rs rf =
     (if kind = ''refine'' then (rs, rf) else if rs = [] then (bs, bf)
      else if bs = [] then (rs, rf) else (bs, rf))"

text \<open>The columns \<open>RecordAttemptStepOutcomes\<close> writes on an attempt row it read.\<close>

definition apply_outcomes :: "step_outcomes \<Rightarrow> attempt \<Rightarrow> attempt" where
  "apply_outcomes o' a =
     (let (st, fin) = attempt_summary_times (a_trigger a) (so_summary_started o') (so_summary_finished o')
            (a_summary_started a) (a_summary_finished a);
          reason = (if so_summary_status o' = ''completed'' \<and>
                       (a_summary_finished a \<noteq> [] \<or> a_summary_reason a = ''template_fallback'')
                    then a_summary_reason a else so_summary_reason o')
      in a\<lparr>a_transcription_status := so_transcription_status o',
           a_transcription_reason := so_transcription_reason o',
           a_summary_status := so_summary_status o', a_summary_reason := reason,
           a_transcription_model := so_transcription_model o',
           a_transcription_revision := so_transcription_revision o',
           a_transcription_device := so_transcription_device o',
           a_summary_model := so_summary_model o',
           a_summary_started := st, a_summary_finished := fin\<rparr>)"

definition record_attempt_step_outcomes ::
  "faults \<Rightarrow> string \<Rightarrow> int \<Rightarrow> step_outcomes \<Rightarrow> db \<Rightarrow> (db_err, unit) res \<times> db" where
  "record_attempt_step_outcomes flt i n o' db =
     (if flt 0 \<or> flt 1 then (Inl SqlError, db)
      else if map_of (db_attempts db) (i, n) = None then (Inr (), db)
      else if flt 2 \<or> flt 9 then (Inl SqlError, db)
      else (Inr (), set_attempt i n (apply_outcomes o') db))"

definition set_attempt_summary_replay_reason ::
  "faults \<Rightarrow> string \<Rightarrow> int \<Rightarrow> string \<Rightarrow> db \<Rightarrow> (db_err, unit) res \<times> db" where
  "set_attempt_summary_replay_reason flt i n reason db =
     (if flt 0 then (Inl SqlError, db)
      else (Inr (), set_attempt i n (\<lambda>a. a\<lparr>a_summary_status := ''completed'', a_summary_reason := reason\<rparr>) db))"

definition set_attempt_summary_times ::
  "faults \<Rightarrow> string \<Rightarrow> int \<Rightarrow> string \<Rightarrow> string \<Rightarrow> db \<Rightarrow> (db_err, unit) res \<times> db" where
  "set_attempt_summary_times flt i n started finished db =
     (if flt 0 then (Inl SqlError, db)
      else (Inr (), set_attempt i n (\<lambda>a. a\<lparr>a_summary_started := started, a_summary_finished := finished\<rparr>) db))"

text \<open>
  \<open>queueAttemptTx\<close>.  \<open>ready path\<close> says that the run bundle at \<open>path\<close> has a readable
  manifest in state and stage ready and passes \<open>requireReadyRunBundle\<close>: files, which the
  model does not have.
\<close>

definition queue_attempt_tx ::
  "faults \<Rightarrow> (string \<Rightarrow> bool) \<Rightarrow> string \<Rightarrow> string \<Rightarrow> string option \<Rightarrow> time_str \<Rightarrow> db \<Rightarrow> (db_err, int \<times> db) res" where
  "queue_attempt_tx flt ready i kind edits now db =
     (if flt 1 then Inl SqlError
      else case map_of (db_jobs db) i of
        None \<Rightarrow> Inl NoRows
      | Some j \<Rightarrow>
          if c_state j \<notin> {Failed, Succeeded, Interrupted, Blocked} then Inl NotEligible
          else let path = (case c_run_path j of None \<Rightarrow> [] | Some p \<Rightarrow> trim_space p) in
            if path = [] then Inl NotEligible
            else if kind \<noteq> ''summarize'' \<and> \<not> ready path then Inl NotEligible
            else let n = j_attempt j + 1 in
              bind_r (insert_row flt 2 (i, n)
                (mk_attempt ((fresh_cols Build Queued now now)\<lparr>c_run_path := Some path, c_build_queued := Some now\<rparr>)
                   kind (j_request j) edits) (db_attempts db)) (\<lambda>atts.
              bind_r (sql flt 3 (set_job i
                (\<lambda>j. j\<lparr>c_stage := Build, c_state := Queued, j_attempt := n, j_reruns := n - 1,
                       c_run_path := Some path, c_error := None, c_updated := now,
                       c_build_queued := Some now, c_retry_not_before := None, c_deferrals := 0,
                       c_build_started := None, c_build_finished := None,
                       c_seal_queued := None, c_seal_started := None, c_seal_finished := None,
                       c_publish_queued := None, c_publish_started := None, c_publish_finished := None,
                       c_interrupted := None, c_completed := None\<rparr>) (db\<lparr>db_attempts := atts\<rparr>))) (\<lambda>db.
              Inr (n, db))))"

text \<open>
  \<open>QueueRerunAttempt\<close>.  \<open>admitted\<close> is the outcome of the checks before the transaction
  (source retention, deletion, archive operations) and \<open>edits\<close> the frozen speaker edits.
  The row is read before the transaction (call 10) and again after the commit (call 11), so the
  caller can see an error although the attempt is queued.
\<close>

definition queue_rerun_attempt ::
  "faults \<Rightarrow> (string \<Rightarrow> bool) \<Rightarrow> bool \<Rightarrow> (db_err, string option) res \<Rightarrow> string \<Rightarrow> time_str \<Rightarrow> db
   \<Rightarrow> (db_err, bool) res \<times> db" where
  "queue_rerun_attempt flt ready admitted edits i now db =
     (if flt 10 then (Inl SqlError, db)
      else if map_of (db_jobs db) i = None then (Inl NoRows, db)
      else if \<not> admitted then (Inl NotEligible, db)
      else let (r, db') = with_tx flt (\<lambda>db. bind_r edits (\<lambda>ed.
             bind_r (queue_attempt_tx flt ready i ''rerun'' ed now db) (\<lambda>(n, db).
             Inr (Some (db, ''job.updated'', i, n))))) db
           in (if r = Inr True \<and> flt 11 then Inl SqlError else r, db'))"

subsection \<open>The durable backlogs\<close>

definition str_of :: "string option \<Rightarrow> string" where
  "str_of v = (case v of None \<Rightarrow> [] | Some s \<Rightarrow> s)"

text \<open>SQLite orders NULL before every text.\<close>

definition null_first :: "string option \<Rightarrow> bool \<times> string" where
  "null_first v = (v \<noteq> None, str_of v)"

definition list_queued_build_tasks :: "time_str \<Rightarrow> db \<Rightarrow> build_task list" where
  "list_queued_build_tasks now db =
     map (\<lambda>(i, j). \<lparr>bt_job = i, bt_attempt = j_attempt j, bt_run_path = str_of (c_run_path j),
                    bt_deferrals = c_deferrals j\<rparr>)
       (sort_key (\<lambda>(i, j). (null_first (c_build_queued j), i))
         (filter (\<lambda>(i, j). c_stage j = Build \<and> c_state j = Queued \<and> c_run_path j \<noteq> None \<and>
                           due (c_retry_not_before j) now) (db_jobs db)))"

definition list_queued_seal_tasks :: "db \<Rightarrow> seal_task list" where
  "list_queued_seal_tasks db =
     List.map_filter (\<lambda>(i, j). case map_of (db_attempts db) (i, j_attempt j) of None \<Rightarrow> None
         | Some a \<Rightarrow> (case c_meeting_path a of None \<Rightarrow> None
             | Some m \<Rightarrow> Some \<lparr>sl_job = i, sl_attempt = j_attempt j, sl_meeting_path = m\<rparr>))
       (sort_key (\<lambda>(i, j). (null_first (c_seal_queued j), i))
         (filter (\<lambda>(i, j). c_stage j = Seal \<and> c_state j = Queued) (db_jobs db)))"

definition list_queued_publish_tasks :: "db \<Rightarrow> publish_task list" where
  "list_queued_publish_tasks db =
     List.map_filter (\<lambda>(i, j). case map_of (db_attempts db) (i, j_attempt j) of None \<Rightarrow> None
         | Some a \<Rightarrow> Some \<lparr>pt_job = i, pt_attempt = j_attempt j, pt_opus_path = str_of (c_opus_path a),
                           pt_opus_sha256 = str_of (c_opus_sha256 a)\<rparr>)
       (sort_key (\<lambda>(i, j). (null_first (c_publish_queued j), i))
         (filter (\<lambda>(i, j). c_stage j = Publish \<and> c_state j = Queued) (db_jobs db)))"

subsection \<open>The invariant\<close>

definition terminal :: "state \<Rightarrow> bool" where
  "terminal s \<longleftrightarrow> s \<in> {Failed, Succeeded, Interrupted, Blocked}"

text \<open>A job row and its current attempt row tell the same story.\<close>

definition agree :: "job \<Rightarrow> attempt \<Rightarrow> bool" where
  "agree j a \<longleftrightarrow> c_stage a = c_stage j \<and> c_state a = c_state j \<and> c_deferrals a = c_deferrals j \<and>
     (c_stage j = Build \<longrightarrow> c_run_path j \<noteq> None) \<and>
     (c_stage j = Seal \<longrightarrow> c_meeting_path a \<noteq> None) \<and>
     (c_stage j = Publish \<longrightarrow> c_opus_path a \<noteq> None \<and> c_opus_sha256 a \<noteq> None)"

definition job_ok :: "db \<Rightarrow> string \<Rightarrow> job \<Rightarrow> bool" where
  "job_ok db i j \<longleftrightarrow> 1 \<le> j_attempt j \<and> j_reruns j = j_attempt j - 1 \<and>
     (\<forall>n. map_of (db_attempts db) (i, n) \<noteq> None \<longleftrightarrow> 1 \<le> n \<and> n \<le> j_attempt j) \<and>
     (\<forall>a. map_of (db_attempts db) (i, j_attempt j) = Some a \<longrightarrow> agree j a) \<and>
     (\<forall>n a. n < j_attempt j \<longrightarrow> map_of (db_attempts db) (i, n) = Some a \<longrightarrow> terminal (c_state a))"

definition job_inv :: "db \<Rightarrow> bool" where
  "job_inv db \<longleftrightarrow> distinct (map fst (db_jobs db)) \<and> distinct (map fst (db_attempts db)) \<and>
     (\<forall>i n. map_of (db_attempts db) (i, n) \<noteq> None \<longrightarrow> map_of (db_jobs db) i \<noteq> None) \<and>
     (\<forall>i j. map_of (db_jobs db) i = Some j \<longrightarrow> job_ok db i j)"

lemma job_inv_current:
  assumes "job_inv db" "map_of (db_jobs db) i = Some j"
  obtains a where "map_of (db_attempts db) (i, j_attempt j) = Some a" "agree j a"
  using assms by (fastforce simp: job_inv_def job_ok_def)

lemma job_inv_events [simp]: "job_inv (db\<lparr>db_events := e\<rparr>) = job_inv db"
  by (simp add: job_inv_def job_ok_def)

lemma set_job_simps [simp]:
  "db_attempts (set_job i f db) = db_attempts db"
  "map_of (db_jobs (set_job i f db)) k = (if k = i then map_option f (map_of (db_jobs db) k) else map_of (db_jobs db) k)"
  "map fst (db_jobs (set_job i f db)) = map fst (db_jobs db)"
  "db_cleanup (set_job i f db) = db_cleanup db" "db_events (set_job i f db) = db_events db"
  by (auto simp: set_job_def map_of_update_where option.map_ident split: option.splits)

lemma set_attempt_simps [simp]:
  "db_jobs (set_attempt i n f db) = db_jobs db"
  "map_of (db_attempts (set_attempt i n f db)) k =
     (if k = (i, n) then map_option f (map_of (db_attempts db) k) else map_of (db_attempts db) k)"
  "map fst (db_attempts (set_attempt i n f db)) = map fst (db_attempts db)"
  "db_cleanup (set_attempt i n f db) = db_cleanup db" "db_events (set_attempt i n f db) = db_events db"
  by (auto simp: set_attempt_def map_of_update_where option.map_ident split: option.splits)

text \<open>An edit of a job row and its current attempt row that keeps the pair in agreement.\<close>

definition pair_ok :: "(job \<Rightarrow> job) \<Rightarrow> (attempt \<Rightarrow> attempt) \<Rightarrow> job \<Rightarrow> attempt \<Rightarrow> bool" where
  "pair_ok fj fa j a \<longleftrightarrow> j_attempt (fj j) = j_attempt j \<and> j_reruns (fj j) = j_reruns j \<and>
     agree (fj j) (fa a)"

lemma job_inv_pair:
  assumes inv: "job_inv db" and j: "map_of (db_jobs db) i = Some j" and n: "n = j_attempt j"
    and ok: "\<And>a. map_of (db_attempts db) (i, n) = Some a \<Longrightarrow> agree j a \<Longrightarrow> pair_ok fj fa j a"
    and jobs: "\<And>k. map_of (db_jobs db') k = (if k = i then Some (fj j) else map_of (db_jobs db) k)"
      "map fst (db_jobs db') = map fst (db_jobs db)"
    and atts: "\<And>k. map_of (db_attempts db') k =
       (if k = (i, n) then map_option fa (map_of (db_attempts db) k) else map_of (db_attempts db) k)"
      "map fst (db_attempts db') = map fst (db_attempts db)"
  shows "job_inv db'"
proof -
  obtain a where a: "map_of (db_attempts db) (i, n) = Some a" and ag: "agree j a"
    using job_inv_current[OF inv j] n by auto
  have p: "pair_ok fj fa j a" using ok[OF a ag] .
  have ji: "job_ok db i j" using inv j by (simp add: job_inv_def)
  have "job_ok db' i (fj j)"
    using ji p a n unfolding job_ok_def atts(1) pair_ok_def by (auto split: if_splits)
  moreover have "job_ok db' k x" if "k \<noteq> i" "map_of (db_jobs db) k = Some x" for k x
  proof -
    have "job_ok db k x" using inv that(2) unfolding job_inv_def by blast
    then show ?thesis using that(1) unfolding job_ok_def atts(1) by simp
  qed
  ultimately show ?thesis
    using inv unfolding job_inv_def jobs atts by (auto split: if_splits) blast+
qed

lemma with_tx_inv:
  assumes "job_inv db" and "\<And>db' ev. body db = Inr (Some (db', ev)) \<Longrightarrow> job_inv db'"
  shows "job_inv (snd (with_tx flt body db))"
  using assms by (auto simp: with_tx_def split: sum.splits option.splits)

lemma mark_stage_inv:
  assumes inv: "job_inv db"
    and ok: "\<And>j a. map_of (db_jobs db) i = Some j \<Longrightarrow> agree j a \<Longrightarrow> pair_ok fj fa j a"
  shows "job_inv (snd (mark_stage flt ev i fj fa db))" "job_inv (snd (mark_stage_at flt ev i fj fa db))"
proof -
  have s: "job_inv (set_attempt i n fa (set_job i fj db))"
    if "map_of (db_jobs db) i = Some j" "n = j_attempt j" for j n
    using that ok by (intro job_inv_pair[OF inv that(1,2), of fj fa]) auto
  show "job_inv (snd (mark_stage_at flt ev i fj fa db))"
    unfolding mark_stage_at_def using s
    by (intro with_tx_inv inv) (auto simp: sql_def current_attempt_number_def split: if_splits option.splits)
  have at: "j_attempt (fj j) = j_attempt j" if "map_of (db_jobs db) i = Some j" for j
    using job_inv_current[OF inv that] ok[OF that] by (metis pair_ok_def)
  show "job_inv (snd (mark_stage flt ev i fj fa db))"
    unfolding mark_stage_def using s at
    by (intro with_tx_inv inv) (auto simp: sql_def current_attempt_number_def split: if_splits option.splits)
qed

lemma cond_pair_inv:
  assumes inv: "job_inv db"
    and ok: "\<And>j a. map_of (db_jobs db) i = Some j \<Longrightarrow> agree j a \<Longrightarrow> Pj j \<Longrightarrow> j_attempt j = n \<and> pair_ok fj fa j a"
  shows "job_inv (snd (cond_pair flt i n Pj fj Pa fa db))"
  unfolding cond_pair_def
proof (intro with_tx_inv inv)
  fix db' ev
  let ?Q = "\<lambda>k j. k = i \<and> Pj j" and ?R = "\<lambda>k a. k = (i, n) \<and> Pa a"
  assume "bind_r (sql flt 1 (update_where ?Q fj (db_jobs db))) (\<lambda>jobs.
     bind_r (sql flt 2 (affected ?Q (db_jobs db))) (\<lambda>claimed.
     if claimed = 0 then Inr None
     else let db = db\<lparr>db_jobs := jobs\<rparr>; Q = ?R in
       bind_r (sql flt 3 (update_where Q fa (db_attempts db))) (\<lambda>atts.
       bind_r (sql flt 4 (affected Q (db_attempts db))) (\<lambda>m.
       if m \<noteq> 1 then Inl (RowCount m)
       else Inr (Some (db\<lparr>db_attempts := atts\<rparr>, ''job.updated'', i, n)))))) = Inr (Some (db', ev))"
  then have c: "affected ?Q (db_jobs db) \<noteq> 0" and m: "affected ?R (db_attempts db) = 1"
    and db': "db' = db\<lparr>db_jobs := update_where ?Q fj (db_jobs db), db_attempts := update_where ?R fa (db_attempts db)\<rparr>"
    by (auto simp: sql_def Let_def split: if_splits)
  from c obtain j where "(i, j) \<in> set (db_jobs db)" and P: "Pj j" by (auto simp: affected_0)
  then have j: "map_of (db_jobs db) i = Some j" using inv by (simp add: job_inv_def)
  from m obtain a where "((i, n), a) \<in> set (db_attempts db)" and Pa: "Pa a"
    using affected_0[of ?R "db_attempts db"] by auto
  then have a: "map_of (db_attempts db) (i, n) = Some a" using inv by (simp add: job_inv_def)
  obtain a' where a': "map_of (db_attempts db) (i, j_attempt j) = Some a'" "agree j a'"
    using job_inv_current[OF inv j] .
  with ok[OF j a'(2) P] have n: "n = j_attempt j" by simp
  show "job_inv db'"
  proof (rule job_inv_pair[OF inv j n, of fj fa])
    show "pair_ok fj fa j b" if "map_of (db_attempts db) (i, n) = Some b" "agree j b" for b
      using ok[OF j that(2) P] by simp
  qed (use P Pa j a in \<open>auto simp: db' map_of_update_where option.map_ident split: option.splits\<close>)
qed

lemma claim_stage_inv:
  assumes inv: "job_inv db"
    and ok: "\<And>j a. map_of (db_jobs db) i = Some j \<Longrightarrow> agree j a \<Longrightarrow> c_stage j = sg \<Longrightarrow> c_state j = Queued
      \<Longrightarrow> pair_ok fj fa j a"
  shows "job_inv (snd (claim_stage flt i sg fj fa db))"
  unfolding claim_stage_def
proof (intro with_tx_inv inv)
  fix db' ev
  let ?Q = "\<lambda>k j. k = i \<and> c_stage j = sg \<and> c_state j = Queued"
  assume "(let Q = ?Q in
     bind_r (sql flt 1 (update_where Q fj (db_jobs db))) (\<lambda>jobs.
     bind_r (sql flt 2 (affected Q (db_jobs db))) (\<lambda>claimed.
     if claimed = 0 then Inr None
     else let db = db\<lparr>db_jobs := jobs\<rparr> in
       bind_r (current_attempt_number flt 3 i db) (\<lambda>n.
       bind_r (sql flt 4 (set_attempt i n fa db)) (\<lambda>db.
       Inr (Some (db, ''job.updated'', i, n))))))) = Inr (Some (db', ev))"
  then obtain n where c: "affected ?Q (db_jobs db) \<noteq> 0"
    and n: "current_attempt_number flt 3 i (db\<lparr>db_jobs := update_where ?Q fj (db_jobs db)\<rparr>) = Inr n"
    and db': "db' = set_attempt i n fa (db\<lparr>db_jobs := update_where ?Q fj (db_jobs db)\<rparr>)"
    by (auto simp: sql_def Let_def split: if_splits)
  from c obtain j where "(i, j) \<in> set (db_jobs db)" and P: "c_stage j = sg" "c_state j = Queued"
    by (auto simp: affected_0)
  then have j: "map_of (db_jobs db) i = Some j" using inv by (simp add: job_inv_def)
  have n': "n = j_attempt (fj j)"
    using n j P by (auto simp: current_attempt_number_def map_of_update_where split: if_splits option.splits)
  obtain a' where a': "map_of (db_attempts db) (i, j_attempt j) = Some a'" "agree j a'"
    using job_inv_current[OF inv j] .
  have nn: "n = j_attempt j" using ok[OF j a'(2) P] n' by (simp add: pair_ok_def)
  show "job_inv db'"
  proof (rule job_inv_pair[OF inv j nn, of fj fa])
    show "pair_ok fj fa j b" if "map_of (db_attempts db) (i, n) = Some b" "agree j b" for b
      using ok[OF j that(2) P] .
  qed (use P j in \<open>auto simp: db' map_of_update_where option.map_ident split: option.splits\<close>)
qed


lemma mk_attempt_simps [simp]:
  "c_stage (mk_attempt c t r e) = c_stage c" "c_state (mk_attempt c t r e) = c_state c"
  "c_deferrals (mk_attempt c t r e) = c_deferrals c" "c_run_path (mk_attempt c t r e) = c_run_path c"
  "a_request (mk_attempt c t r e) = r" "a_trigger (mk_attempt c t r e) = t"
  "a_speaker_edits (mk_attempt c t r e) = e"
  by (simp_all add: mk_attempt_def attempt.defs cols.defs)

lemma mk_job_simps [simp]:
  "c_stage (mk_job c p r n m) = c_stage c" "c_state (mk_job c p r n m) = c_state c"
  "c_deferrals (mk_job c p r n m) = c_deferrals c" "c_run_path (mk_job c p r n m) = c_run_path c"
  "c_created (mk_job c p r n m) = c_created c" "c_updated (mk_job c p r n m) = c_updated c"
  "c_record_queued (mk_job c p r n m) = c_record_queued c"
  "j_attempt (mk_job c p r n m) = n" "j_reruns (mk_job c p r n m) = m"
  "j_request (mk_job c p r n m) = r" "j_provider (mk_job c p r n m) = p"
  by (simp_all add: mk_job_def job.defs cols.defs)

lemma fresh_cols_simps [simp]:
  "c_stage (fresh_cols sg st c u) = sg" "c_state (fresh_cols sg st c u) = st"
  "c_deferrals (fresh_cols sg st c u) = 0" "c_run_path (fresh_cols sg st c u) = None"
  "c_created (fresh_cols sg st c u) = c" "c_updated (fresh_cols sg st c u) = u"
  by (simp_all add: fresh_cols_def)

lemma map_of_append_new: "k \<notin> set (map fst t) \<Longrightarrow>
    map_of (t @ [(k, r)]) x = (if x = k then Some r else map_of t x)"
proof (cases "x = k")
  case True
  assume "k \<notin> set (map fst t)"
  then have "map_of t k = None" by (simp add: map_of_eq_None_iff)
  with True show ?thesis by (simp add: map_add_def)
next
  case False
  then show ?thesis by (simp add: map_add_def split: option.splits)
qed

lemma insert_queued_job_inv:
  assumes inv: "job_inv db" and j: "j = new_job provider request now"
  shows "job_inv (snd (insert_queued_job flt deletes i j db))"
  unfolding insert_queued_job_def
proof (intro with_tx_inv inv)
  fix db' ev
  let ?j = "mk_job ((fresh_cols (c_stage j) (c_state j) (c_created j) (c_updated j))\<lparr>c_record_queued := c_record_queued j\<rparr>)
         (j_provider j) (j_request j) (j_attempt j) (j_reruns j)"
  let ?a = "mk_attempt ((fresh_cols (c_stage j) (c_state j) (c_created j) (c_updated j))\<lparr>c_record_queued := c_record_queued j\<rparr>)
         ''initial'' (j_request j) None"
  assume "bind_r (insert_row flt 1 i ?j (db_jobs db)) (\<lambda>t.
     let db = db\<lparr>db_jobs := t\<rparr> in
     bind_r (if deletes then (if flt 2 \<or> i \<in> set (db_cleanup db) then Inl SqlError
                              else Inr (db\<lparr>db_cleanup := db_cleanup db @ [i]\<rparr>)) else Inr db) (\<lambda>db.
     bind_r (insert_initial_attempt flt 3 i j db) (\<lambda>db.
     Inr (Some (db, ''job.created'', i, 1))))) = Inr (Some (db', ev))"
  then have new: "i \<notin> set (map fst (db_jobs db))" and newa: "(i, 1) \<notin> set (map fst (db_attempts db))"
    and jobs: "db_jobs db' = db_jobs db @ [(i, ?j)]" and atts: "db_attempts db' = db_attempts db @ [((i, 1), ?a)]"
    by (auto simp: insert_row_def insert_initial_attempt_def Let_def split: if_splits)
  have none: "map_of (db_jobs db) i = None" using new by (simp add: map_of_eq_None_iff)
  then have noatt: "map_of (db_attempts db) (i, n) = None" for n
    using inv unfolding job_inv_def by (metis option.distinct(1))
  have mj: "map_of (db_jobs db') k = (if k = i then Some ?j else map_of (db_jobs db) k)" for k
    unfolding jobs by (rule map_of_append_new[OF new])
  have ma: "map_of (db_attempts db') k = (if k = (i, 1) then Some ?a else map_of (db_attempts db) k)" for k
    unfolding atts by (rule map_of_append_new[OF newa])
  have "job_ok db' i ?j"
    by (auto simp: job_ok_def ma noatt j new_job_def agree_def)
  moreover have "job_ok db' k x" if "k \<noteq> i" "map_of (db_jobs db) k = Some x" for k x
  proof -
    have "job_ok db k x" using inv that(2) unfolding job_inv_def by blast
    then show ?thesis using that(1) unfolding job_ok_def ma by simp
  qed
  ultimately have rows: "\<forall>k x. map_of (db_jobs db') k = Some x \<longrightarrow> job_ok db' k x"
    unfolding mj by (auto split: if_splits)
  have fk: "\<forall>k n. map_of (db_attempts db') (k, n) \<noteq> None \<longrightarrow> map_of (db_jobs db') k \<noteq> None"
    using inv unfolding mj ma job_inv_def by (auto split: if_splits) blast
  show "job_inv db'"
    unfolding job_inv_def using inv new newa rows fk by (auto simp: job_inv_def jobs atts)
qed

lemma queue_attempt_tx_cases:
  assumes "queue_attempt_tx flt ready i kind edits now db = Inr (n, db')"
  obtains j path where "map_of (db_jobs db) i = Some j" "terminal (c_state j)" "c_run_path j = Some path"
    "trim_space path \<noteq> []" "kind \<noteq> ''summarize'' \<Longrightarrow> ready (trim_space path)" "n = j_attempt j + 1"
    "(i, n) \<notin> set (map fst (db_attempts db))"
    "db_attempts db' = db_attempts db @ [((i, n), mk_attempt ((fresh_cols Build Queued now now)
       \<lparr>c_run_path := Some (trim_space path), c_build_queued := Some now\<rparr>) kind (j_request j) edits)]"
    "\<exists>f. db_jobs db' = update_where (\<lambda>k _. k = i) f (db_jobs db) \<and>
       (\<forall>j. j_attempt (f j) = n \<and> j_reruns (f j) = n - 1 \<and> c_stage (f j) = Build \<and> c_state (f j) = Queued \<and>
          c_deferrals (f j) = 0 \<and> c_run_path (f j) = Some (trim_space path) \<and>
          c_opus_path (f j) = c_opus_path j \<and> c_meeting_path (f j) = c_meeting_path j \<and>
          c_retry_not_before (f j) = None)"
    "db_events db' = db_events db"
proof -
  obtain j where j: "map_of (db_jobs db) i = Some j"
    using assms by (auto simp: queue_attempt_tx_def split: if_splits option.splits)
  have t: "terminal (c_state j)"
    using assms j by (auto simp: queue_attempt_tx_def terminal_def split: if_splits)
  obtain path where p: "c_run_path j = Some path" "trim_space path \<noteq> []"
    using assms j by (cases "c_run_path j") (auto simp: queue_attempt_tx_def Let_def split: if_splits)
  have r: "kind \<noteq> ''summarize'' \<Longrightarrow> ready (trim_space path)"
    using assms j p by (auto simp: queue_attempt_tx_def Let_def split: if_splits)
  have e: "bind_r (insert_row flt 2 (i, j_attempt j + 1)
       (mk_attempt ((fresh_cols Build Queued now now)\<lparr>c_run_path := Some (trim_space path), c_build_queued := Some now\<rparr>)
          kind (j_request j) edits) (db_attempts db)) (\<lambda>atts.
     bind_r (sql flt 3 (set_job i
       (\<lambda>j'. j'\<lparr>c_stage := Build, c_state := Queued, j_attempt := j_attempt j + 1, j_reruns := j_attempt j + 1 - 1,
              c_run_path := Some (trim_space path), c_error := None, c_updated := now,
              c_build_queued := Some now, c_retry_not_before := None, c_deferrals := 0,
              c_build_started := None, c_build_finished := None,
              c_seal_queued := None, c_seal_started := None, c_seal_finished := None,
              c_publish_queued := None, c_publish_started := None, c_publish_finished := None,
              c_interrupted := None, c_completed := None\<rparr>) (db\<lparr>db_attempts := atts\<rparr>))) (\<lambda>db.
     Inr (j_attempt j + 1, db))) = Inr (n, db')"
    using assms j p t by (simp add: queue_attempt_tx_def Let_def terminal_def split: if_splits)
  show ?thesis
    by (rule that[OF j t p r]) (use e in \<open>auto simp: insert_row_def sql_def set_job_def split: if_splits
        intro!: exI[of _ "\<lambda>j'. j'\<lparr>c_stage := Build, c_state := Queued, j_attempt := j_attempt j + 1, j_reruns := j_attempt j + 1 - 1,
              c_run_path := Some (trim_space path), c_error := None, c_updated := now,
              c_build_queued := Some now, c_retry_not_before := None, c_deferrals := 0,
              c_build_started := None, c_build_finished := None,
              c_seal_queued := None, c_seal_started := None, c_seal_finished := None,
              c_publish_queued := None, c_publish_started := None, c_publish_finished := None,
              c_interrupted := None, c_completed := None\<rparr>"]\<close>)
qed

lemma queue_attempt_tx_inv:
  assumes inv: "job_inv db" and q: "queue_attempt_tx flt ready i kind edits now db = Inr (n, db')"
  shows "job_inv db'"
  using q
proof (rule queue_attempt_tx_cases)
  fix j :: job and path
  let ?a = "mk_attempt ((fresh_cols Build Queued now now)\<lparr>c_run_path := Some (trim_space path), c_build_queued := Some now\<rparr>)
      kind (j_request j) edits"
  assume j: "map_of (db_jobs db) i = Some j" and t: "terminal (c_state j)" and n: "n = j_attempt j + 1"
    and new: "(i, n) \<notin> set (map fst (db_attempts db))"
    and atts: "db_attempts db' = db_attempts db @ [((i, n), ?a)]"
    and "\<exists>f. db_jobs db' = update_where (\<lambda>k _. k = i) f (db_jobs db) \<and>
       (\<forall>j. j_attempt (f j) = n \<and> j_reruns (f j) = n - 1 \<and> c_stage (f j) = Build \<and> c_state (f j) = Queued \<and>
          c_deferrals (f j) = 0 \<and> c_run_path (f j) = Some (trim_space path) \<and>
          c_opus_path (f j) = c_opus_path j \<and> c_meeting_path (f j) = c_meeting_path j \<and>
          c_retry_not_before (f j) = None)"
  then obtain f where jobs: "db_jobs db' = update_where (\<lambda>k _. k = i) f (db_jobs db)"
    and f: "\<forall>j. j_attempt (f j) = n \<and> j_reruns (f j) = n - 1 \<and> c_stage (f j) = Build \<and> c_state (f j) = Queued \<and>
          c_deferrals (f j) = 0 \<and> c_run_path (f j) = Some (trim_space path)" by blast
  have mj: "map_of (db_jobs db') k = (if k = i then Some (f j) else map_of (db_jobs db) k)" for k
    using j by (auto simp: jobs map_of_update_where option.map_ident split: option.splits)
  have ma: "map_of (db_attempts db') k = (if k = (i, n) then Some ?a else map_of (db_attempts db) k)" for k
    unfolding atts by (rule map_of_append_new[OF new])
  have ji: "job_ok db i j" using inv j unfolding job_inv_def by blast
  obtain a where a: "map_of (db_attempts db) (i, j_attempt j) = Some a" "agree j a"
    using job_inv_current[OF inv j] .
  have ta: "terminal (c_state a)" using a(2) t by (simp add: agree_def)
  have "job_ok db' i (f j)"
    unfolding job_ok_def ma
  proof (intro conjI allI impI)
    fix m
    have "map_of (db_attempts db) (i, m) \<noteq> None \<longleftrightarrow> 1 \<le> m \<and> m \<le> j_attempt j"
      using ji unfolding job_ok_def by blast
    then show "(if (i, m) = (i, n) then Some ?a else map_of (db_attempts db) (i, m)) \<noteq> None \<longleftrightarrow>
        1 \<le> m \<and> m \<le> j_attempt (f j)"
      using f n ji by (auto simp: job_ok_def)
  next
    fix m x
    assume m: "m < j_attempt (f j)"
      and x: "(if (i, m) = (i, n) then Some ?a else map_of (db_attempts db) (i, m)) = Some x"
    then have "map_of (db_attempts db) (i, m) = Some x" and le: "m \<le> j_attempt j"
      using f n by (auto split: if_splits)
    then show "terminal (c_state x)"
    proof (cases "m = j_attempt j")
      case False
      with le have "m < j_attempt j" by simp
      with ji \<open>map_of (db_attempts db) (i, m) = Some x\<close> show ?thesis unfolding job_ok_def by blast
    qed (use a ta in auto)
  qed (use f n ji in \<open>auto simp: job_ok_def agree_def\<close>)
  moreover have "job_ok db' k x" if "k \<noteq> i" "map_of (db_jobs db) k = Some x" for k x
  proof -
    have "job_ok db k x" using inv that(2) unfolding job_inv_def by blast
    then show ?thesis using that(1) unfolding job_ok_def ma by simp
  qed
  ultimately have rows: "\<forall>k x. map_of (db_jobs db') k = Some x \<longrightarrow> job_ok db' k x"
    unfolding mj by (auto split: if_splits)
  have fk: "\<forall>k n. map_of (db_attempts db') (k, n) \<noteq> None \<longrightarrow> map_of (db_jobs db') k \<noteq> None"
    using inv unfolding mj ma job_inv_def by (auto split: if_splits) blast
  show "job_inv db'"
    unfolding job_inv_def using inv new rows fk by (auto simp: job_inv_def jobs atts)
qed

lemma incomplete_agree: "agree j a \<Longrightarrow> incomplete a = incomplete j"
  by (simp add: agree_def incomplete_def)

lemma terminal_complete: "terminal (c_state r) \<Longrightarrow> \<not> incomplete r"
  by (auto simp: terminal_def incomplete_def)

lemma mark_incomplete_inv:
  assumes inv: "job_inv db"
  shows "job_inv (snd (mark_incomplete_jobs_interrupted flt now db))"
proof -
  let ?fj = "\<lambda>r. r\<lparr>c_state := Interrupted, c_updated := now, c_interrupted := Some now\<rparr>"
  let ?db = "db\<lparr>db_jobs := update_where (\<lambda>_ j. incomplete j) ?fj (db_jobs db),
       db_attempts := update_where (\<lambda>_ a. incomplete a) ?fj (db_attempts db)\<rparr>"
  have upd: "map_of (db_attempts ?db) k = map_option (\<lambda>a. if incomplete a then ?fj a else a) (map_of (db_attempts db) k)" for k
    by (simp add: map_of_update_where)
  have same: "j_attempt (if incomplete j then ?fj j else j) = j_attempt j"
    "j_reruns (if incomplete j then ?fj j else j) = j_reruns j" for j :: job
    by simp_all
  have ok: "job_ok ?db i (if incomplete j then ?fj j else j)" if "map_of (db_jobs db) i = Some j" for i j
  proof -
    have ji: "job_ok db i j" using inv that unfolding job_inv_def by blast
    show ?thesis
      unfolding job_ok_def same upd
    proof (intro conjI allI impI)
      fix a assume "map_option (\<lambda>a. if incomplete a then ?fj a else a) (map_of (db_attempts db) (i, j_attempt j)) = Some a"
      then obtain a0 where a0: "map_of (db_attempts db) (i, j_attempt j) = Some a0"
        and a: "a = (if incomplete a0 then ?fj a0 else a0)"
        by (auto simp only: map_option_eq_Some)
      then have "agree j a0" using ji by (simp add: job_ok_def)
      then show "agree (if incomplete j then ?fj j else j) a"
        using incomplete_agree[of j a0] by (auto simp: a agree_def)
    next
      fix n a assume n: "n < j_attempt j"
        and "map_option (\<lambda>a. if incomplete a then ?fj a else a) (map_of (db_attempts db) (i, n)) = Some a"
      then obtain a0 where a0: "map_of (db_attempts db) (i, n) = Some a0"
        and a: "a = (if incomplete a0 then ?fj a0 else a0)"
        by (auto simp only: map_option_eq_Some)
      from n have "terminal (c_state a0)" using ji a0 by (simp add: job_ok_def)
      then show "terminal (c_state a)" by (auto simp: a terminal_complete terminal_def)
    qed (use ji in \<open>auto simp: job_ok_def\<close>)
  qed
  have rows: "\<forall>i j. map_of (db_jobs ?db) i = Some j \<longrightarrow> job_ok ?db i j"
  proof (intro allI impI)
    fix i j assume "map_of (db_jobs ?db) i = Some j"
    then have "map_option (\<lambda>j. if incomplete j then ?fj j else j) (map_of (db_jobs db) i) = Some j"
      by (simp add: map_of_update_where)
    then obtain j0 where "map_of (db_jobs db) i = Some j0" "j = (if incomplete j0 then ?fj j0 else j0)"
      by (auto simp only: map_option_eq_Some)
    then show "job_ok ?db i j" using ok by blast
  qed
  have fk: "\<forall>i n. map_of (db_attempts ?db) (i, n) \<noteq> None \<longrightarrow> map_of (db_jobs ?db) i \<noteq> None"
  proof (intro allI impI)
    fix i n assume "map_of (db_attempts ?db) (i, n) \<noteq> None"
    then have "map_of (db_attempts db) (i, n) \<noteq> None" by (simp only: upd option.map_disc_iff not_False_eq_True)
    then have "map_of (db_jobs db) i \<noteq> None" using inv unfolding job_inv_def by blast
    then show "map_of (db_jobs ?db) i \<noteq> None" by (simp add: map_of_update_where)
  qed
  have "job_inv ?db"
    using rows fk inv unfolding job_inv_def by simp
  with inv show ?thesis by (simp add: mark_incomplete_jobs_interrupted_def)
qed

subsection \<open>The operations as a step relation\<close>

text \<open>
  Every production operation of the store, with any arguments and any faults.
  \<open>MarkPublishQueued\<close> is left out: production never calls it.
\<close>

inductive store_step :: "(string \<Rightarrow> bool) \<Rightarrow> db \<Rightarrow> db \<Rightarrow> bool" for ready where
  insert: "store_step ready db (snd (insert_queued_job flt d i (new_job p r t) db))"
| record_running: "store_step ready db (snd (mark_record_running flt i t db))"
| stop_requested: "store_step ready db (snd (mark_record_stop_requested flt i t u db))"
| record_outcome: "store_step ready db (snd (update_record_outcome flt i res c t db))"
| record_done: "store_step ready db (snd (mark_record_succeeded_terminal flt i c ap res t db))"
| record_failed: "store_step ready db (snd (mark_record_failed flt i e res t db))"
| build_queued: "store_step ready db (snd (mark_build_queued flt i c ap t db))"
| build_claim: "store_step ready db (snd (claim_build_running flt task t db))"
| build_deferred: "store_step ready db (snd (mark_build_deferred flt task m e t u db))"
| build_blocked: "store_step ready db (snd (mark_build_blocked flt task e t db))"
| build_done: "store_step ready db (snd (mark_build_succeeded flt i c ap t db))"
| build_failed: "store_step ready db (snd (mark_build_failed flt i ap e t db))"
| seal_queued: "store_step ready db (snd (mark_seal_queued flt i c ap t db))"
| seal_claim: "store_step ready db (snd (claim_seal_running flt i t db))"
| seal_done: "store_step ready db (snd (mark_seal_succeeded flt i c ap sha t db))"
| seal_failed: "store_step ready db (snd (mark_seal_failed flt i ap e t db))"
| publish_claim: "store_step ready db (snd (mark_publish_running flt i t db))"
| publish_done: "store_step ready db (snd (mark_publish_succeeded flt edits i c ap t db))"
| publish_failed: "store_step ready db (snd (mark_publish_failed flt i c ap e t db))"
| startup: "store_step ready db (snd (mark_incomplete_jobs_interrupted flt t db))"
| log_path: "store_step ready db (snd (set_attempt_stage_log_path flt i n sg path t db))"
| step_outcomes: "store_step ready db (snd (record_attempt_step_outcomes flt i n o' db))"
| replay_reason: "store_step ready db (snd (set_attempt_summary_replay_reason flt i n reason db))"
| summary_times: "store_step ready db (snd (set_attempt_summary_times flt i n s f db))"
| rerun: "store_step ready db (snd (queue_rerun_attempt flt ready adm ed i t db))"
| other_attempt: "queue_attempt_tx flt ready i kind ed t db = Inr (n, db') \<Longrightarrow> store_step ready db db'"

definition empty_db :: db where
  "empty_db = \<lparr>db_jobs = [], db_attempts = [], db_cleanup = [], db_events = []\<rparr>"

definition reachable :: "(string \<Rightarrow> bool) \<Rightarrow> db \<Rightarrow> bool" where
  "reachable ready db \<longleftrightarrow> (store_step ready)\<^sup>*\<^sup>* empty_db db"

lemmas mark_defs = mark_record_running_def mark_record_stop_requested_def update_record_outcome_def
  mark_record_succeeded_terminal_def mark_record_failed_def mark_build_queued_def
  mark_build_succeeded_def mark_build_failed_def mark_seal_queued_def mark_seal_succeeded_def
  mark_seal_failed_def mark_publish_failed_def

lemma mark_publish_succeeded_eq:
  "snd (mark_publish_succeeded flt edits i c ap t db) = (case edits of Inl _ \<Rightarrow> db | Inr _ \<Rightarrow>
     snd (mark_stage flt ''job.updated'' i
       (\<lambda>j. j\<lparr>c_stage := Done, c_state := Succeeded, c_site_path := Some c, c_updated := t,
              c_publish_finished := Some t, c_completed := Some t, c_error := None\<rparr>)
       (\<lambda>a. a\<lparr>c_stage := Done, c_state := Succeeded, c_site_path := Some ap, c_updated := t,
              c_publish_finished := Some t, c_completed := Some t, c_error := None\<rparr>) db))"
  by (cases edits) (auto simp: mark_publish_succeeded_def mark_stage_def with_tx_def sql_def
      current_attempt_number_def split: option.splits)

lemma set_attempt_inv:
  assumes inv: "job_inv db"
    and f: "\<And>a. c_stage (f a) = c_stage a \<and> c_state (f a) = c_state a \<and> c_deferrals (f a) = c_deferrals a \<and>
      c_meeting_path (f a) = c_meeting_path a \<and> c_opus_path (f a) = c_opus_path a \<and> c_opus_sha256 (f a) = c_opus_sha256 a"
  shows "job_inv (set_attempt i n f db)"
proof -
  have at: "map_of (db_attempts (set_attempt i n f db)) k = Some x \<Longrightarrow>
      \<exists>x0. map_of (db_attempts db) k = Some x0 \<and> (x = x0 \<or> x = f x0)" for k x
    by (auto split: if_splits)
  have none: "map_of (db_attempts (set_attempt i n f db)) k = None \<longleftrightarrow> map_of (db_attempts db) k = None" for k
    by simp
  have "job_ok (set_attempt i n f db) k j" if "job_ok db k j" for k j
    unfolding job_ok_def none
  proof (intro conjI allI impI)
    fix a assume "map_of (db_attempts (set_attempt i n f db)) (k, j_attempt j) = Some a"
    from at[OF this] obtain x0 where x: "map_of (db_attempts db) (k, j_attempt j) = Some x0" "a = x0 \<or> a = f x0" by blast
    then have "agree j x0" using that by (simp add: job_ok_def)
    with x(2) show "agree j a" by (auto simp: agree_def f)
  next
    fix m a assume "m < j_attempt j" "map_of (db_attempts (set_attempt i n f db)) (k, m) = Some a"
    from at[OF this(2)] this(1) obtain x0 where x: "map_of (db_attempts db) (k, m) = Some x0" "a = x0 \<or> a = f x0"
      and "m < j_attempt j" by blast
    then have "terminal (c_state x0)" using that unfolding job_ok_def by blast
    with x(2) show "terminal (c_state a)" by (auto simp: f)
  qed (use that in \<open>simp_all add: job_ok_def\<close>)
  then have rows: "\<forall>k j. map_of (db_jobs (set_attempt i n f db)) k = Some j \<longrightarrow> job_ok (set_attempt i n f db) k j"
    using inv unfolding job_inv_def set_attempt_simps(1) by blast
  have fk: "\<forall>k m. map_of (db_attempts (set_attempt i n f db)) (k, m) \<noteq> None \<longrightarrow>
      map_of (db_jobs (set_attempt i n f db)) k \<noteq> None"
    using inv unfolding job_inv_def none set_attempt_simps(1) by blast
  have "distinct (map fst (db_jobs (set_attempt i n f db)))" "distinct (map fst (db_attempts (set_attempt i n f db)))"
    using inv unfolding job_inv_def set_attempt_simps(1,3) by blast+
  with rows fk show ?thesis unfolding job_inv_def by blast
qed

lemma log_path_cases:
  "snd (set_attempt_stage_log_path flt i n sg path t db) = db \<or>
   (\<exists>f ev. snd (set_attempt_stage_log_path flt i n sg path t db) = (set_attempt i n f db)\<lparr>db_events := ev\<rparr> \<and>
     (\<forall>a. c_stage (f a) = c_stage a \<and> c_state (f a) = c_state a \<and> c_deferrals (f a) = c_deferrals a \<and>
      c_run_path (f a) = c_run_path a \<and> c_site_path (f a) = c_site_path a \<and>
      c_meeting_path (f a) = c_meeting_path a \<and> c_opus_path (f a) = c_opus_path a \<and> c_opus_sha256 (f a) = c_opus_sha256 a))"
proof -
  define upd where "upd = (if sg = ''record'' then Some (\<lambda>a :: attempt. a\<lparr>c_updated := t, a_record_log := Some path\<rparr>)
          else if sg = ''build'' then Some (\<lambda>a. a\<lparr>c_updated := t, a_build_log := Some path\<rparr>)
          else if sg = ''seal'' then Some (\<lambda>a. a\<lparr>c_updated := t, a_seal_log := Some path\<rparr>)
          else if sg = ''publish'' then Some (\<lambda>a. a\<lparr>c_updated := t, a_publish_log := Some path\<rparr>)
          else None)"
  have u: "c_stage (f a) = c_stage a \<and> c_state (f a) = c_state a \<and> c_deferrals (f a) = c_deferrals a \<and>
      c_run_path (f a) = c_run_path a \<and> c_site_path (f a) = c_site_path a \<and>
      c_meeting_path (f a) = c_meeting_path a \<and> c_opus_path (f a) = c_opus_path a \<and> c_opus_sha256 (f a) = c_opus_sha256 a"
    if "upd = Some f" for f and a :: attempt
    using that by (auto simp: upd_def split: if_splits)
  show ?thesis
  proof (cases upd)
    case None
    then show ?thesis unfolding set_attempt_stage_log_path_def Let_def upd_def[symmetric] by simp
  next
    case (Some f)
    then have e: "snd (set_attempt_stage_log_path flt i n sg path t db) = (if flt 1 then db else
        (set_attempt i n f db)\<lparr>db_events := db_events db @ [(''attempt.updated'', i, n)]\<rparr>)"
      unfolding set_attempt_stage_log_path_def Let_def upd_def[symmetric] by simp
    show ?thesis
    proof (cases "flt 1")
      case True
      with e have "snd (set_attempt_stage_log_path flt i n sg path t db) = db" by simp
      then show ?thesis ..
    next
      case False
      with e have "snd (set_attempt_stage_log_path flt i n sg path t db) =
        (set_attempt i n f db)\<lparr>db_events := db_events db @ [(''attempt.updated'', i, n)]\<rparr>" by simp
      with u[OF Some] show ?thesis by blast
    qed
  qed
qed

text \<open>The three writes of the step columns touch nothing the invariant reads.\<close>

lemma apply_outcomes_simps [simp]:
  "c_stage (apply_outcomes o' a) = c_stage a" "c_state (apply_outcomes o' a) = c_state a"
  "c_deferrals (apply_outcomes o' a) = c_deferrals a" "c_run_path (apply_outcomes o' a) = c_run_path a"
  "c_site_path (apply_outcomes o' a) = c_site_path a" "c_meeting_path (apply_outcomes o' a) = c_meeting_path a"
  "c_opus_path (apply_outcomes o' a) = c_opus_path a" "c_opus_sha256 (apply_outcomes o' a) = c_opus_sha256 a"
  by (simp_all add: apply_outcomes_def Let_def case_prod_beta)

lemma step_columns_cases:
  "snd (record_attempt_step_outcomes flt i n o' db) \<in> {db, set_attempt i n (apply_outcomes o') db}"
  "snd (set_attempt_summary_replay_reason flt i n reason db) \<in>
     {db, set_attempt i n (\<lambda>a. a\<lparr>a_summary_status := ''completed'', a_summary_reason := reason\<rparr>) db}"
  "snd (set_attempt_summary_times flt i n s f db) \<in>
     {db, set_attempt i n (\<lambda>a. a\<lparr>a_summary_started := s, a_summary_finished := f\<rparr>) db}"
  by (simp_all add: record_attempt_step_outcomes_def set_attempt_summary_replay_reason_def
      set_attempt_summary_times_def)

lemma store_step_inv:
  assumes "store_step ready db db'" and inv: "job_inv db"
  shows "job_inv db'"
  using assms(1)
proof cases
  case (insert flt d i p r t)
  then show ?thesis using insert_queued_job_inv[OF inv] by blast
next
  case (build_claim flt task t)
  show ?thesis unfolding build_claim claim_build_running_def
    by (rule cond_pair_inv[OF inv]) (auto simp: pair_ok_def agree_def)
next
  case (build_deferred flt task m e t u)
  show ?thesis unfolding build_deferred mark_build_deferred_def
    by (rule cond_pair_inv[OF inv]) (auto simp: pair_ok_def agree_def)
next
  case (build_blocked flt task e t)
  show ?thesis unfolding build_blocked mark_build_blocked_def
    by (rule cond_pair_inv[OF inv]) (auto simp: pair_ok_def agree_def)
next
  case (seal_claim flt i t)
  show ?thesis unfolding seal_claim claim_seal_running_def
    by (rule claim_stage_inv[OF inv]) (auto simp: pair_ok_def agree_def)
next
  case (publish_claim flt i t)
  show ?thesis unfolding publish_claim mark_publish_running_def Let_def case_prod_beta snd_conv
    by (rule claim_stage_inv[OF inv]) (auto simp: pair_ok_def agree_def)
next
  case (publish_done flt edits i c ap t)
  show ?thesis unfolding publish_done mark_publish_succeeded_eq using inv
    by (auto intro!: mark_stage_inv simp: pair_ok_def agree_def split: sum.splits)
next
  case (startup flt t)
  then show ?thesis using mark_incomplete_inv[OF inv] by simp
next
  case (log_path flt i n sg path t)
  show ?thesis
    using log_path_cases[of flt i n sg path t db] set_attempt_inv[OF inv] inv unfolding log_path
    by (elim disjE exE conjE) (simp_all only: job_inv_events simp_thms)
next
  case (step_outcomes flt i n o')
  show ?thesis using step_columns_cases(1)[of flt i n o' db] inv set_attempt_inv[OF inv, of "apply_outcomes o'" i n]
    unfolding step_outcomes by auto
next
  case (replay_reason flt i n reason)
  show ?thesis using step_columns_cases(2)[of flt i n reason db] inv
      set_attempt_inv[OF inv, of "\<lambda>a. a\<lparr>a_summary_status := ''completed'', a_summary_reason := reason\<rparr>" i n]
    unfolding replay_reason by auto
next
  case (summary_times flt i n s f)
  show ?thesis using step_columns_cases(3)[of flt i n s f db] inv
      set_attempt_inv[OF inv, of "\<lambda>a. a\<lparr>a_summary_started := s, a_summary_finished := f\<rparr>" i n]
    unfolding summary_times by auto
next
  case (rerun flt adm ed i t)
  show ?thesis unfolding rerun queue_rerun_attempt_def
    using inv queue_attempt_tx_inv[OF inv] by (auto intro!: with_tx_inv simp: Let_def case_prod_beta)
next
  case (other_attempt flt i kind ed t n)
  then show ?thesis using queue_attempt_tx_inv[OF inv] by blast
qed (unfold mark_defs Let_def, auto intro!: mark_stage_inv[OF inv] simp: pair_ok_def agree_def)

lemma empty_db_inv: "job_inv empty_db"
  by (simp add: job_inv_def empty_db_def)

lemma reachable_inv: "reachable ready db \<Longrightarrow> job_inv db"
  unfolding reachable_def
  by (induction rule: rtranclp_induct) (auto intro: empty_db_inv store_step_inv)

text \<open>
  C2: every reachable state of the store is consistent, whatever operations ran, with whatever
  arguments, and whichever SQL calls failed: a job has exactly the attempts 1 to its current
  number and one rerun less than attempts, its row and its current attempt's row agree on
  stage, state and deferral count, and every earlier attempt has ended.
\<close>

theorem store_consistent:
  assumes "reachable ready db" and "map_of (db_jobs db) i = Some j"
  shows "1 \<le> j_attempt j \<and> j_reruns j = j_attempt j - 1
    \<and> (\<forall>n. map_of (db_attempts db) (i, n) \<noteq> None \<longleftrightarrow> 1 \<le> n \<and> n \<le> j_attempt j)
    \<and> (\<exists>a. map_of (db_attempts db) (i, j_attempt j) = Some a
         \<and> c_stage a = c_stage j \<and> c_state a = c_state j \<and> c_deferrals a = c_deferrals j)
    \<and> (\<forall>n a. n < j_attempt j \<and> map_of (db_attempts db) (i, n) = Some a \<longrightarrow>
         c_state a \<in> {Failed, Succeeded, Interrupted, Blocked})"
proof -
  have inv: "job_inv db" using reachable_inv assms(1) .
  then have ok: "job_ok db i j" using assms(2) unfolding job_inv_def by blast
  obtain a where "map_of (db_attempts db) (i, j_attempt j) = Some a" "agree j a"
    using job_inv_current[OF inv assms(2)] .
  then show ?thesis using ok unfolding job_ok_def terminal_def agree_def by blast
qed

text \<open>
  C24: no publish without a sealed artifact.  In every reachable state a task of the publish
  backlog names the artifact path and digest its attempt's row records (so both are there), and
  every job at publish/queued is in the backlog.
\<close>

theorem publish_backlog_sealed:
  assumes "reachable ready db"
  shows "(\<forall>t\<in>set (list_queued_publish_tasks db). \<exists>a.
       map_of (db_attempts db) (pt_job t, pt_attempt t) = Some a
       \<and> c_opus_path a = Some (pt_opus_path t) \<and> c_opus_sha256 a = Some (pt_opus_sha256 t))
    \<and> (\<forall>i j. map_of (db_jobs db) i = Some j \<and> c_stage j = Publish \<and> c_state j = Queued \<longrightarrow>
         i \<in> pt_job ` set (list_queued_publish_tasks db))"
proof -
  have inv: "job_inv db" using reachable_inv assms .
  have row: "map_of (db_jobs db) i = Some j" if "(i, j) \<in> set (db_jobs db)" for i j
    using inv that unfolding job_inv_def by simp
  have att: "\<exists>a. map_of (db_attempts db) (i, j_attempt j) = Some a \<and> agree j a"
    if "(i, j) \<in> set (db_jobs db)" for i j
    using job_inv_current[OF inv row[OF that]] by blast
  show ?thesis
  proof (intro conjI ballI allI impI)
    fix t assume "t \<in> set (list_queued_publish_tasks db)"
    then obtain i j where ij: "(i, j) \<in> set (db_jobs db)" "c_stage j = Publish"
      and t: "(case map_of (db_attempts db) (i, j_attempt j) of None \<Rightarrow> None
         | Some a \<Rightarrow> Some \<lparr>pt_job = i, pt_attempt = j_attempt j, pt_opus_path = str_of (c_opus_path a),
                           pt_opus_sha256 = str_of (c_opus_sha256 a)\<rparr>) = Some t"
      by (auto simp: list_queued_publish_tasks_def List.map_filter_def)
    from att[OF ij(1)] obtain a where "map_of (db_attempts db) (i, j_attempt j) = Some a" "agree j a" by blast
    with t ij(2) show "\<exists>a. map_of (db_attempts db) (pt_job t, pt_attempt t) = Some a
       \<and> c_opus_path a = Some (pt_opus_path t) \<and> c_opus_sha256 a = Some (pt_opus_sha256 t)"
      by (auto simp: agree_def str_of_def)
  next
    fix i j assume "map_of (db_jobs db) i = Some j \<and> c_stage j = Publish \<and> c_state j = Queued"
    then have ij: "(i, j) \<in> set (db_jobs db)" "c_stage j = Publish" "c_state j = Queued"
      by (auto dest: map_of_SomeD)
    from att[OF ij(1)] obtain a where "map_of (db_attempts db) (i, j_attempt j) = Some a" by blast
    with ij show "i \<in> pt_job ` set (list_queued_publish_tasks db)"
      by (force simp: list_queued_publish_tasks_def List.map_filter_def)
  qed
qed

subsection \<open>Earlier attempts are immutable\<close>

lemma with_tx_cases:
  "snd (with_tx flt body db) = db \<or>
   (\<exists>db' ev. body db = Inr (Some (db', ev)) \<and> snd (with_tx flt body db) = db'\<lparr>db_events := db_events db' @ [ev]\<rparr>
      \<and> fst (with_tx flt body db) = Inr True)"
  by (auto simp: with_tx_def split: sum.splits option.splits)

lemma mark_stage_past:
  assumes "\<And>j. j_attempt (fj j) = j_attempt j" "map_of (db_jobs db) i = Some j" "n \<noteq> j_attempt j"
  shows "map_of (db_attempts (snd (mark_stage flt ev k fj fa db))) (i, n) = map_of (db_attempts db) (i, n)"
    "map_of (db_attempts (snd (mark_stage_at flt ev k fj fa db))) (i, n) = map_of (db_attempts db) (i, n)"
  using assms by (auto simp: mark_stage_def mark_stage_at_def with_tx_def sql_def current_attempt_number_def
      split: option.splits if_splits)

lemma cond_pair_past:
  assumes "(i, n) \<noteq> (k, m)"
  shows "map_of (db_attempts (snd (cond_pair flt k m Pj fj Pa fa db))) (i, n) = map_of (db_attempts db) (i, n)"
proof -
  have "map_option (\<lambda>r. r) x = x" for x :: "attempt option" by (cases x) auto
  then show ?thesis using assms
    by (auto simp: cond_pair_def with_tx_def sql_def Let_def map_of_update_where split: if_splits)
qed

lemma cond_pair_noop:
  assumes "\<And>j. (k, j) \<in> set (db_jobs db) \<Longrightarrow> \<not> Pj j"
  shows "snd (cond_pair flt k m Pj fj Pa fa db) = db"
proof -
  have "affected (\<lambda>k' j. k' = k \<and> Pj j) (db_jobs db) = 0" using assms by (auto simp: affected_0)
  then show ?thesis by (simp add: cond_pair_def with_tx_def sql_def)
qed

lemma cond_pair_past':
  assumes inv: "job_inv db" and j: "map_of (db_jobs db) i = Some j" and n: "n < j_attempt j"
    and P: "\<And>j. Pj j \<Longrightarrow> j_attempt j = m"
  shows "map_of (db_attempts (snd (cond_pair flt k m Pj fj Pa fa db))) (i, n) = map_of (db_attempts db) (i, n)"
proof (cases "k = i \<and> m = n")
  case True
  have "\<not> Pj x" if "(k, x) \<in> set (db_jobs db)" for x
  proof -
    have "x = j" using that True j inv by (simp add: job_inv_def)
    then show ?thesis using P[of j] n True by auto
  qed
  then show ?thesis using cond_pair_noop[of k db Pj] by simp
next
  case False
  then show ?thesis by (intro cond_pair_past) auto
qed

lemma claim_stage_past:
  assumes fj: "\<And>j. j_attempt (fj j) = j_attempt j" and j: "map_of (db_jobs db) i = Some j" and n: "n \<noteq> j_attempt j"
  shows "map_of (db_attempts (snd (claim_stage flt k sg fj fa db))) (i, n) = map_of (db_attempts db) (i, n)"
  using assms
  by (auto simp: claim_stage_def with_tx_def sql_def Let_def current_attempt_number_def map_of_update_where
      split: if_splits option.splits)

definition frozen :: "attempt \<Rightarrow> attempt \<Rightarrow> bool" where
  "frozen a b \<longleftrightarrow> c_stage b = c_stage a \<and> c_state b = c_state a \<and> c_run_path b = c_run_path a \<and>
     c_meeting_path b = c_meeting_path a \<and> c_opus_path b = c_opus_path a \<and>
     c_opus_sha256 b = c_opus_sha256 a \<and> c_site_path b = c_site_path a"

lemma frozen_refl [simp]: "frozen a a"
  by (simp add: frozen_def)

lemma queue_attempt_tx_old:
  assumes "queue_attempt_tx flt ready k kind edits now db = Inr (m, db')" "map_of (db_attempts db) x = Some a"
  shows "map_of (db_attempts db') x = Some a"
  using assms(1)
proof (rule queue_attempt_tx_cases)
  fix j :: job and path
  assume new: "(k, m) \<notin> set (map fst (db_attempts db))"
    and atts: "db_attempts db' = db_attempts db @ [((k, m), mk_attempt ((fresh_cols Build Queued now now)
       \<lparr>c_run_path := Some (trim_space path), c_build_queued := Some now\<rparr>) kind (j_request j) edits)]"
  have "map_of (db_attempts db) (k, m) = None" using new by (simp add: map_of_eq_None_iff)
  then show ?thesis using assms(2) unfolding atts map_of_append_new[OF new] by auto
qed

text \<open>
  C26: artifacts of earlier attempts are immutable.  No operation of the store, with any
  arguments and faults, changes the outcome or the artifact paths and digest of an attempt
  before the current one.
\<close>

theorem past_attempts_immutable:
  assumes reach: "reachable ready db" and step: "store_step ready db db'"
    and j: "map_of (db_jobs db) i = Some j" and n: "n < j_attempt j"
    and a: "map_of (db_attempts db) (i, n) = Some a"
  shows "\<exists>b. map_of (db_attempts db') (i, n) = Some b \<and> frozen a b"
proof -
  have inv: "job_inv db" using reachable_inv reach .
  have ne: "n \<noteq> j_attempt j" using n by simp
  note past = mark_stage_past[OF _ j ne] claim_stage_past[OF _ j ne] cond_pair_past'[OF inv j n]
  have same: ?thesis if "map_of (db_attempts db') (i, n) = map_of (db_attempts db) (i, n)"
    using that a by simp
  from step show ?thesis
  proof cases
    case (insert flt d k p r t)
    have new: "map_of (db_attempts (snd (insert_queued_job flt d k (new_job p r t) db))) (i, n) =
        map_of (db_attempts db) (i, n)"
      using a by (auto simp: insert_queued_job_def with_tx_def insert_initial_attempt_def insert_row_def Let_def
          split: if_splits)
    then show ?thesis using same insert by simp
  next
    case (log_path flt k m sg path t)
    show ?thesis
      using log_path_cases[of flt k m sg path t db] a unfolding log_path
      by (auto simp: frozen_def)
  next
    case (step_outcomes flt k m o')
    show ?thesis using step_columns_cases(1)[of flt k m o' db] a unfolding step_outcomes
      by (auto simp: frozen_def)
  next
    case (replay_reason flt k m reason)
    show ?thesis using step_columns_cases(2)[of flt k m reason db] a unfolding replay_reason
      by (auto simp: frozen_def)
  next
    case (summary_times flt k m s f)
    show ?thesis using step_columns_cases(3)[of flt k m s f db] a unfolding summary_times
      by (auto simp: frozen_def)
  next
    case (publish_done flt edits k c ap t)
    then show ?thesis by (intro same) (simp add: mark_publish_succeeded_eq past split: sum.splits)
  next
    case (publish_claim flt k t)
    then show ?thesis by (intro same) (simp add: mark_publish_running_def Let_def case_prod_beta past)
  next
    case (startup flt t)
    have "job_ok db i j" using inv j unfolding job_inv_def by blast
    then have "terminal (c_state a)" using n a unfolding job_ok_def by blast
    then have "\<not> incomplete a" by (rule terminal_complete)
    then show ?thesis unfolding startup using a
      by (simp add: mark_incomplete_jobs_interrupted_def map_of_update_where)
  next
    case (rerun flt adm ed k t)
    have "map_of (db_attempts (snd (queue_rerun_attempt flt ready adm ed k t db))) (i, n) = Some a"
      using a queue_attempt_tx_old[OF _ a]
      by (auto simp: queue_rerun_attempt_def with_tx_def split: sum.splits option.splits)
    then show ?thesis unfolding rerun by simp
  next
    case (other_attempt flt k kind ed t m)
    then show ?thesis using queue_attempt_tx_old[OF _ a] by auto
  next
    case (build_claim flt task t)
    show ?thesis unfolding build_claim claim_build_running_def
      by (rule same[unfolded build_claim claim_build_running_def]) (rule cond_pair_past'[OF inv j n], simp)
  next
    case (build_deferred flt task m e t u)
    show ?thesis unfolding build_deferred mark_build_deferred_def
      by (rule same[unfolded build_deferred mark_build_deferred_def]) (rule cond_pair_past'[OF inv j n], simp)
  next
    case (build_blocked flt task e t)
    show ?thesis unfolding build_blocked mark_build_blocked_def
      by (rule same[unfolded build_blocked mark_build_blocked_def]) (rule cond_pair_past'[OF inv j n], simp)
  qed (unfold mark_defs claim_seal_running_def Let_def, (rule same, simp add: past)+)
qed

subsection \<open>Claims\<close>

text \<open>
  What a worker relies on when it claims a job by a conditional update: the claim is won only
  on a queued row, which is queued no longer, and a lost claim changes nothing.  The build,
  seal and publish claims are interpretations.
\<close>

fun race :: "('w \<Rightarrow> db \<Rightarrow> bool \<times> db) \<Rightarrow> 'w list \<Rightarrow> db \<Rightarrow> bool list \<times> db" where
  "race claim [] db = ([], db)"
| "race claim (w # ws) db =
     (let (won, db) = claim w db; (rs, db) = race claim ws db in (won # rs, db))"

locale claim_lock =
  fixes claim :: "'w \<Rightarrow> db \<Rightarrow> bool \<times> db" and queued :: "db \<Rightarrow> bool" and inv :: "db \<Rightarrow> bool"
  assumes won: "inv db \<Longrightarrow> claim w db = (True, db') \<Longrightarrow> queued db \<and> \<not> queued db'"
    and lost: "claim w db = (False, db') \<Longrightarrow> db' = db"
    and keeps: "inv db \<Longrightarrow> inv (snd (claim w db))"
begin

lemma race_wins:
  "inv db \<Longrightarrow> count_list (fst (race claim ws db)) True \<le> (if queued db then 1 else 0)"
proof (induction ws arbitrary: db)
  case (Cons w ws)
  obtain b db1 where c: "claim w db = (b, db1)" by (cases "claim w db")
  have i1: "inv db1" using keeps[OF Cons.prems, of w] c by simp
  obtain rs db2 where r: "race claim ws db1 = (rs, db2)" by (cases "race claim ws db1")
  show ?case
  proof (cases b)
    case True
    with won[OF Cons.prems, of w db1] c have "queued db" "\<not> queued db1" by auto
    with Cons.IH[OF i1] c r True show ?thesis by simp
  next
    case False
    with lost[of w db db1] c have "db1 = db" by simp
    with Cons.IH[OF i1] c r False show ?thesis by simp
  qed
qed simp

lemma at_most_one: "inv db \<Longrightarrow> count_list (fst (race claim ws db)) True \<le> 1"
  using race_wins[of db ws] by (auto split: if_splits)

end

definition stage_queued :: "stage \<Rightarrow> string \<Rightarrow> db \<Rightarrow> bool" where
  "stage_queued sg i db \<longleftrightarrow> (\<exists>j. map_of (db_jobs db) i = Some j \<and> c_stage j = sg \<and> c_state j = Queued)"

definition claim_result :: "(db_err, bool) res \<times> db \<Rightarrow> bool \<times> db" where
  "claim_result r = (fst r = Inr True, snd r)"

text \<open>A worker's call: its faults, its task and its clock.\<close>

definition build_worker :: "string \<Rightarrow> faults \<times> build_task \<times> time_str \<Rightarrow> db \<Rightarrow> bool \<times> db" where
  "build_worker i w db = (case w of (flt, task, now) \<Rightarrow>
     claim_result (claim_build_running flt (task\<lparr>bt_job := i\<rparr>) now db))"

definition seal_worker :: "string \<Rightarrow> faults \<times> time_str \<Rightarrow> db \<Rightarrow> bool \<times> db" where
  "seal_worker i w db = (case w of (flt, now) \<Rightarrow> claim_result (claim_seal_running flt i now db))"

definition publish_worker :: "string \<Rightarrow> faults \<times> time_str \<Rightarrow> db \<Rightarrow> bool \<times> db" where
  "publish_worker i w db = (case w of (flt, now) \<Rightarrow>
     (let (r, db') = mark_publish_running flt i now db in (r = Inr (), db')))"

lemma cond_pair_won:
  assumes "fst (cond_pair flt i n Pj fj Pa fa db) = Inr True"
  shows "(\<exists>j. (i, j) \<in> set (db_jobs db) \<and> Pj j) \<and>
    db_jobs (snd (cond_pair flt i n Pj fj Pa fa db)) = update_where (\<lambda>k j. k = i \<and> Pj j) fj (db_jobs db)"
  using assms affected_0[of "\<lambda>k j. k = i \<and> Pj j" "db_jobs db"]
  by (auto simp: cond_pair_def with_tx_def sql_def Let_def split: if_splits)

lemma cond_pair_lost:
  "fst (cond_pair flt i n Pj fj Pa fa db) \<noteq> Inr True \<Longrightarrow> snd (cond_pair flt i n Pj fj Pa fa db) = db"
  using with_tx_cases unfolding cond_pair_def by blast

lemma with_tx_won:
  "fst (with_tx flt body db) = Inr True \<Longrightarrow> \<exists>db' ev. body db = Inr (Some (db', ev)) \<and>
     snd (with_tx flt body db) = db'\<lparr>db_events := db_events db' @ [ev]\<rparr>"
  by (auto simp: with_tx_def split: sum.splits option.splits if_splits)

lemma claim_stage_won:
  assumes "fst (claim_stage flt i sg fj fa db) = Inr True"
  shows "(\<exists>j. (i, j) \<in> set (db_jobs db) \<and> c_stage j = sg \<and> c_state j = Queued) \<and>
    db_jobs (snd (claim_stage flt i sg fj fa db)) =
      update_where (\<lambda>k j. k = i \<and> c_stage j = sg \<and> c_state j = Queued) fj (db_jobs db)"
proof -
  let ?Q = "\<lambda>k j. k = i \<and> c_stage j = sg \<and> c_state j = Queued"
  from with_tx_won[OF assms[unfolded claim_stage_def]] obtain db' ev where
    b: "(let Q = ?Q in
     bind_r (sql flt 1 (update_where Q fj (db_jobs db))) (\<lambda>jobs.
     bind_r (sql flt 2 (affected Q (db_jobs db))) (\<lambda>claimed.
     if claimed = 0 then Inr None
     else let db = db\<lparr>db_jobs := jobs\<rparr> in
       bind_r (current_attempt_number flt 3 i db) (\<lambda>n.
       bind_r (sql flt 4 (set_attempt i n fa db)) (\<lambda>db.
       Inr (Some (db, ''job.updated'', i, n))))))) = Inr (Some (db', ev))"
    and s: "snd (claim_stage flt i sg fj fa db) = db'\<lparr>db_events := db_events db' @ [ev]\<rparr>"
    unfolding claim_stage_def by blast
  from b have c: "affected ?Q (db_jobs db) \<noteq> 0"
    and db': "db_jobs db' = update_where ?Q fj (db_jobs db)"
    by (auto simp: sql_def Let_def split: if_splits)
  from c obtain j where "(i, j) \<in> set (db_jobs db)" "c_stage j = sg" "c_state j = Queued"
    by (auto simp: affected_0)
  with db' s show ?thesis by auto
qed

lemma claim_stage_lost:
  "fst (claim_stage flt i sg fj fa db) \<noteq> Inr True \<Longrightarrow> snd (claim_stage flt i sg fj fa db) = db"
  using with_tx_cases unfolding claim_stage_def by blast

lemma not_queued_after:
  assumes inv: "job_inv db" and jobs: "db_jobs db' = update_where (\<lambda>k j. k = i \<and> P j) f (db_jobs db)"
    and j: "(i, j) \<in> set (db_jobs db)" and P: "P j" and f: "c_state (f j) \<noteq> Queued"
  shows "\<not> stage_queued sg i db'"
proof -
  have "map_of (db_jobs db) i = Some j" using inv j by (simp add: job_inv_def)
  then show ?thesis using P f by (auto simp: stage_queued_def jobs map_of_update_where)
qed

interpretation build_claim: claim_lock "build_worker i" "stage_queued Build i" job_inv
proof
  fix db w db'
  assume inv: "job_inv db" and c: "build_worker i w db = (True, db')"
  obtain flt task now where w: "w = (flt, task, now)" by (cases w)
  let ?t = "task\<lparr>bt_job := i\<rparr>"
  from c have r: "fst (claim_build_running flt ?t now db) = Inr True"
    and db': "db' = snd (claim_build_running flt ?t now db)"
    by (simp_all add: w build_worker_def claim_result_def)
  note won = cond_pair_won[OF r[unfolded claim_build_running_def]]
  from won obtain j where j: "(i, j) \<in> set (db_jobs db)"
    and P: "j_attempt j = bt_attempt ?t \<and> c_run_path j = Some (bt_run_path ?t) \<and>
          c_stage j = Build \<and> c_state j = Queued \<and> c_deferrals j = bt_deferrals ?t \<and>
          due (c_retry_not_before j) now" by auto
  have "map_of (db_jobs db) i = Some j" using inv j by (simp add: job_inv_def)
  with P have q: "stage_queued Build i db" by (simp add: stage_queued_def)
  have "\<not> stage_queued Build (bt_job ?t) db'"
    unfolding db' claim_build_running_def
    by (rule not_queued_after[OF inv won[THEN conjunct2], of j]) (use j P in simp_all)
  with q show "stage_queued Build i db \<and> \<not> stage_queued Build i db'" by simp
next
  fix w db db'
  assume "build_worker i w db = (False, db')"
  then show "db' = db"
    using cond_pair_lost by (auto simp: build_worker_def claim_result_def claim_build_running_def split: prod.splits)
next
  fix db w assume "job_inv db"
  then show "job_inv (snd (build_worker i w db))"
    using store_step_inv[OF store_step.build_claim, of db]
    by (auto simp: build_worker_def claim_result_def split: prod.splits)
qed

interpretation seal_claim: claim_lock "seal_worker i" "stage_queued Seal i" job_inv
proof
  fix db w db'
  assume inv: "job_inv db" and c: "seal_worker i w db = (True, db')"
  obtain flt now where w: "w = (flt, now)" by (cases w)
  from c have r: "fst (claim_seal_running flt i now db) = Inr True"
    and db': "db' = snd (claim_seal_running flt i now db)"
    by (simp_all add: w seal_worker_def claim_result_def)
  note won = claim_stage_won[OF r[unfolded claim_seal_running_def]]
  from won obtain j where j: "(i, j) \<in> set (db_jobs db)" and P: "c_stage j = Seal \<and> c_state j = Queued" by auto
  have "map_of (db_jobs db) i = Some j" using inv j by (simp add: job_inv_def)
  with P have q: "stage_queued Seal i db" by (simp add: stage_queued_def)
  have "\<not> stage_queued Seal i db'"
    unfolding db' claim_seal_running_def
    by (rule not_queued_after[OF inv won[THEN conjunct2] j]) (use P in simp_all)
  with q show "stage_queued Seal i db \<and> \<not> stage_queued Seal i db'" by simp
next
  fix w db db'
  assume "seal_worker i w db = (False, db')"
  then show "db' = db"
    using claim_stage_lost by (auto simp: seal_worker_def claim_result_def claim_seal_running_def split: prod.splits)
next
  fix db w assume "job_inv db"
  then show "job_inv (snd (seal_worker i w db))"
    using store_step_inv[OF store_step.seal_claim, of db]
    by (auto simp: seal_worker_def claim_result_def split: prod.splits)
qed

lemma mark_publish_running_result:
  "fst (mark_publish_running flt i now db) = Inr () \<longleftrightarrow> fst (claim_stage flt i Publish
        (\<lambda>j. j\<lparr>c_state := Running, c_updated := now, c_publish_started := Some now\<rparr>)
        (\<lambda>a. a\<lparr>c_stage := Publish, c_state := Running, c_updated := now, c_publish_started := Some now\<rparr>) db) = Inr True"
  "snd (mark_publish_running flt i now db) = snd (claim_stage flt i Publish
        (\<lambda>j. j\<lparr>c_state := Running, c_updated := now, c_publish_started := Some now\<rparr>)
        (\<lambda>a. a\<lparr>c_stage := Publish, c_state := Running, c_updated := now, c_publish_started := Some now\<rparr>) db)"
  by (auto simp: mark_publish_running_def Let_def case_prod_beta split: sum.splits if_splits)

interpretation publish_claim: claim_lock "publish_worker i" "stage_queued Publish i" job_inv
proof
  fix db w db'
  assume inv: "job_inv db" and c: "publish_worker i w db = (True, db')"
  obtain flt now where w: "w = (flt, now)" by (cases w)
  from c have r: "fst (mark_publish_running flt i now db) = Inr ()"
    and db': "db' = snd (mark_publish_running flt i now db)"
    by (simp_all add: w publish_worker_def Let_def case_prod_beta)
  note won = claim_stage_won[OF r[unfolded mark_publish_running_result]]
  from won obtain j where j: "(i, j) \<in> set (db_jobs db)" and P: "c_stage j = Publish \<and> c_state j = Queued" by auto
  have "map_of (db_jobs db) i = Some j" using inv j by (simp add: job_inv_def)
  with P have q: "stage_queued Publish i db" by (simp add: stage_queued_def)
  have "\<not> stage_queued Publish i db'"
    unfolding db' mark_publish_running_result
    by (rule not_queued_after[OF inv won[THEN conjunct2] j]) (use P in simp_all)
  with q show "stage_queued Publish i db \<and> \<not> stage_queued Publish i db'" by simp
next
  fix w db db'
  assume "publish_worker i w db = (False, db')"
  then show "db' = db"
    using claim_stage_lost mark_publish_running_result
    by (auto simp: publish_worker_def Let_def case_prod_beta split: prod.splits)
next
  fix db w assume "job_inv db"
  then show "job_inv (snd (publish_worker i w db))"
    using store_step_inv[OF store_step.publish_claim, of db]
    by (auto simp: publish_worker_def Let_def case_prod_beta split: prod.splits)
qed

text \<open>
  C25: a queued stage runs once.  However often a queued task is delivered, to however many
  workers, in whatever order and whichever SQL calls fail, at most one worker wins the claim of
  the job's build, seal or publish.
\<close>

theorem stage_claimed_once:
  assumes "reachable ready db"
  shows "count_list (fst (race (build_worker i) bs db)) True \<le> 1
    \<and> count_list (fst (race (seal_worker i) ss db)) True \<le> 1
    \<and> count_list (fst (race (publish_worker i) ps db)) True \<le> 1"
  using reachable_inv[OF assms] build_claim.at_most_one seal_claim.at_most_one publish_claim.at_most_one
  by blast

subsection \<open>The backlog can be claimed\<close>

lemma map_of_reachable_row:
  assumes "job_inv db" "(i, j) \<in> set (db_jobs db)"
  shows "map_of (db_jobs db) i = Some j"
  using assms by (simp add: job_inv_def)

lemma affected_pos: "(k, r) \<in> set t \<Longrightarrow> P k r \<Longrightarrow> affected P t \<noteq> 0"
  by (auto simp: affected_0)

lemma affected_key:
  assumes "distinct (map fst t)" "map_of t k = Some r" "P r"
  shows "affected (\<lambda>x r. x = k \<and> P r) t = 1"
proof -
  from assms(2) have "(k, r) \<in> set t" by (rule map_of_SomeD)
  then obtain xs ys where t: "t = xs @ (k, r) # ys" by (auto dest: split_list)
  have "filter (\<lambda>(x, r). x = k \<and> P r) xs = []" "filter (\<lambda>(x, r). x = k \<and> P r) ys = []"
    using assms(1) unfolding t by (force simp: filter_empty_conv)+
  then show ?thesis using assms(3) by (simp add: affected_def t)
qed

lemma claim_build_ok:
  assumes reach: "reachable ready db" and t: "t \<in> set (list_queued_build_tasks now db)"
    and clock: "now \<le> later" and ok: "\<And>k. \<not> flt k"
  shows "\<exists>j db'. map_of (db_jobs db) (bt_job t) = Some j \<and> bt_attempt t = j_attempt j \<and>
    bt_deferrals t = c_deferrals j \<and> c_run_path j = Some (bt_run_path t) \<and>
    claim_build_running flt t later db = (Inr True, db') \<and>
    db_events db' = db_events db @ [(''job.updated'', bt_job t, bt_attempt t)] \<and>
    map_of (db_jobs db') (bt_job t) = Some (j\<lparr>c_state := Running, c_updated := later,
        c_build_started := Some later, c_retry_not_before := None, c_error := None\<rparr>) \<and>
    c_stage j = Build"
proof -
  have inv: "job_inv db" using reachable_inv reach .
  obtain i j where ij: "(i, j) \<in> set (db_jobs db)" and st: "c_stage j = Build" "c_state j = Queued"
    and p: "c_run_path j \<noteq> None" and d: "due (c_retry_not_before j) now"
    and teq: "t = \<lparr>bt_job = i, bt_attempt = j_attempt j, bt_run_path = str_of (c_run_path j), bt_deferrals = c_deferrals j\<rparr>"
    using t by (auto simp: list_queued_build_tasks_def)
  have j: "map_of (db_jobs db) i = Some j" using map_of_reachable_row[OF inv ij] .
  obtain a where a: "map_of (db_attempts db) (i, j_attempt j) = Some a" and ag: "agree j a"
    using job_inv_current[OF inv j] .
  have due: "due (c_retry_not_before j) later"
    using d clock by (auto simp: due_def split: option.splits)
  let ?Pj = "\<lambda>j'. j_attempt j' = bt_attempt t \<and> c_run_path j' = Some (bt_run_path t) \<and>
          c_stage j' = Build \<and> c_state j' = Queued \<and> c_deferrals j' = bt_deferrals t \<and>
          due (c_retry_not_before j') later"
  let ?Pa = "\<lambda>a. c_stage a = Build \<and> c_state a = Queued \<and> c_deferrals a = bt_deferrals t"
  have Pj: "?Pj j" using st p due by (auto simp: teq str_of_def)
  have Pa: "?Pa a" using ag st by (simp add: agree_def teq)
  have 1: "affected (\<lambda>k j. k = i \<and> ?Pj j) (db_jobs db) = 1"
    using affected_key[OF _ j, of ?Pj] Pj inv by (simp add: job_inv_def)
  have 2: "affected (\<lambda>k a. k = (i, j_attempt j) \<and> ?Pa a) (db_attempts db) = 1"
    using affected_key[OF _ a, of ?Pa] Pa inv by (simp add: job_inv_def)
  have ti: "bt_job t = i" "bt_attempt t = j_attempt j" by (simp_all add: teq)
  have r: "claim_build_running flt t later db = (Inr True, (db\<lparr>db_jobs := update_where (\<lambda>k j. k = i \<and> ?Pj j)
      (\<lambda>j. j\<lparr>c_state := Running, c_updated := later, c_build_started := Some later,
            c_retry_not_before := None, c_error := None\<rparr>) (db_jobs db),
      db_attempts := update_where (\<lambda>k a. k = (i, j_attempt j) \<and> ?Pa a)
       (\<lambda>a. a\<lparr>c_stage := Build, c_state := Running, c_updated := later, c_build_started := Some later,
            c_retry_not_before := None, c_error := None,
            a_summary_started := [], a_summary_finished := [], a_summary_reason := []\<rparr>) (db_attempts db)\<rparr>)
      \<lparr>db_events := db_events db @ [(''job.updated'', i, j_attempt j)]\<rparr>)"
    unfolding claim_build_running_def cond_pair_def with_tx_def sql_def Let_def ti
    using 1 2 ok by (simp add: ti)
  show ?thesis
    unfolding r using j Pj by (simp add: ti map_of_update_where teq)
qed

text \<open>
  the durable build backlog is live.  In every reachable state each listed build task,
  delivered to a worker whose clock has not gone back and whose SQL calls succeed, is claimed:
  the job runs, the requirement that exactly one attempt row changes holds, and the event
  is emitted.
\<close>

theorem build_backlog_claimable:
  assumes reach: "reachable ready db" and t: "t \<in> set (list_queued_build_tasks now db)"
    and clock: "now \<le> later" and ok: "\<And>k. \<not> flt k"
  shows "\<exists>db'. claim_build_running flt t later db = (Inr True, db')
    \<and> db_events db' = db_events db @ [(''job.updated'', bt_job t, bt_attempt t)]
    \<and> (\<exists>j. map_of (db_jobs db') (bt_job t) = Some j \<and> c_stage j = Build \<and> c_state j = Running)"
  using claim_build_ok[OF assms] by fastforce

subsection \<open>Restart\<close>

lemma update_where_twice:
  assumes "\<And>k r. P k r \<Longrightarrow> \<not> P k (f r)"
  shows "affected P (update_where P f t) = 0"
  using assms by (auto simp: affected_0 update_where_def split: if_splits)

lemma update_where_none: "affected P t = 0 \<Longrightarrow> update_where P f t = t"
  by (auto simp: affected_0 update_where_def intro!: map_idI)

lemma filter_update_where:
  assumes "\<And>k r. P k r \<Longrightarrow> \<not> Q (k, r) \<and> \<not> Q (k, f r)"
  shows "filter Q (update_where P f t) = filter Q t"
proof (induction t)
  case (Cons x t)
  then show ?case using assms[of "fst x" "snd x"]
    by (cases x; cases "P (fst x) (snd x)") (simp_all add: update_where_def)
qed (simp add: update_where_def)

text \<open>
  a restart loses no queued work and reports an interruption once.  Marking the incomplete
  jobs interrupted leaves the build, seal and publish backlogs exactly as they were, leaves no
  job running, and a second restart changes nothing, so no interruption is stamped again.
\<close>

theorem restart_keeps_backlogs:
  assumes reach: "reachable ready db"
    and r: "mark_incomplete_jobs_interrupted flt now db = (Inr n, db')"
  shows "list_queued_build_tasks t db' = list_queued_build_tasks t db
    \<and> list_queued_seal_tasks db' = list_queued_seal_tasks db
    \<and> list_queued_publish_tasks db' = list_queued_publish_tasks db
    \<and> (\<forall>i j. map_of (db_jobs db') i = Some j \<longrightarrow> c_state j \<noteq> Running)
    \<and> snd (mark_incomplete_jobs_interrupted flt' now' db') = db'"
proof -
  let ?fj = "\<lambda>r. r\<lparr>c_state := Interrupted, c_updated := now, c_interrupted := Some now\<rparr>"
  have inv: "job_inv db" using reachable_inv reach .
  have jobs: "db_jobs db' = update_where (\<lambda>_ j. incomplete j) ?fj (db_jobs db)"
    and atts: "db_attempts db' = update_where (\<lambda>_ a. incomplete a) ?fj (db_attempts db)"
    using r by (auto simp: mark_incomplete_jobs_interrupted_def split: if_splits)
  have stage: "filter (\<lambda>(i, j). c_stage j = sg \<and> c_state j = Queued \<and> X i j) (db_jobs db') =
      filter (\<lambda>(i, j). c_stage j = sg \<and> c_state j = Queued \<and> X i j) (db_jobs db)"
    if "sg \<in> {Build, Seal, Publish}" for sg X
    unfolding jobs using that by (intro filter_update_where) (auto simp: incomplete_def)
  have stage2: "filter (\<lambda>(i, j). c_stage j = sg \<and> c_state j = Queued) (db_jobs db') =
      filter (\<lambda>(i, j). c_stage j = sg \<and> c_state j = Queued) (db_jobs db)"
    if "sg \<in> {Build, Seal, Publish}" for sg
    using stage[OF that, of "\<lambda>_ _. True"] by simp
  have att: "map_of (db_attempts db') (i, j_attempt j) = map_of (db_attempts db) (i, j_attempt j)"
    if "(i, j) \<in> set (db_jobs db)" "c_stage j \<in> {Build, Seal, Publish}" "c_state j = Queued" for i j
  proof -
    note h = that
    obtain a where a: "map_of (db_attempts db) (i, j_attempt j) = Some a" and ag: "agree j a"
      by (rule job_inv_current[OF inv map_of_reachable_row[OF inv h(1)]])
    then have "\<not> incomplete a" using h(2,3) by (auto simp: incomplete_def agree_def)
    with a show ?thesis by (simp add: atts map_of_update_where)
  qed
  have "list_queued_build_tasks t db' = list_queued_build_tasks t db"
    using stage[of Build "\<lambda>_ j. c_run_path j \<noteq> None \<and> due (c_retry_not_before j) t"]
    by (simp add: list_queued_build_tasks_def)
  moreover have "list_queued_seal_tasks db' = list_queued_seal_tasks db"
    unfolding list_queued_seal_tasks_def stage2[of Seal, simplified]
    by (rule map_filter_same) (auto simp: att)
  moreover have "list_queued_publish_tasks db' = list_queued_publish_tasks db"
    unfolding list_queued_publish_tasks_def stage2[of Publish, simplified]
    by (rule map_filter_same) (auto simp: att)
  moreover have "\<forall>i j. map_of (db_jobs db') i = Some j \<longrightarrow> c_state j \<noteq> Running"
  proof (intro allI impI)
    fix i j assume "map_of (db_jobs db') i = Some j"
    then obtain z where z: "(if incomplete z then ?fj z else z) = j"
      unfolding jobs map_of_update_where map_option_eq_Some by blast
    show "c_state j \<noteq> Running"
      unfolding z[symmetric] by (cases "incomplete z") (simp, auto simp: incomplete_def)
  qed
  moreover have "snd (mark_incomplete_jobs_interrupted flt' now' db') = db'"
  proof -
    have "affected (\<lambda>_ j. incomplete j) (db_jobs db') = 0" "affected (\<lambda>_ a. incomplete a) (db_attempts db') = 0"
      unfolding jobs atts by (rule update_where_twice, simp add: incomplete_def)+
    then show ?thesis by (simp add: mark_incomplete_jobs_interrupted_def update_where_none)
  qed
  ultimately show ?thesis by blast
qed

subsection \<open>Reruns\<close>

lemma queue_attempt_tx_ok:
  assumes inv: "job_inv db" and q: "queue_attempt_tx flt ready i kind ed now db = Inr (n, db')"
  shows "\<exists>j j' a'. map_of (db_jobs db) i = Some j \<and> terminal (c_state j) \<and>
    (kind \<noteq> ''summarize'' \<longrightarrow> ready (trim_space (str_of (c_run_path j)))) \<and>
    n = j_attempt j + 1 \<and> map_of (db_attempts db) (i, n) = None \<and>
    map_of (db_jobs db') i = Some j' \<and> c_stage j' = Build \<and> c_state j' = Queued \<and>
    j_attempt j' = n \<and> j_request j' = j_request j \<and> c_deferrals j' = 0 \<and> c_retry_not_before j' = None \<and>
    c_run_path j' = Some (trim_space (str_of (c_run_path j))) \<and>
    map_of (db_attempts db') (i, n) = Some a' \<and> a_request a' = j_request j \<and> a_trigger a' = kind \<and>
    a_speaker_edits a' = ed \<and> c_stage a' = Build \<and> c_state a' = Queued"
proof -
  obtain j where j: "map_of (db_jobs db) i = Some j"
    using q by (auto simp: queue_attempt_tx_def split: if_splits option.splits)
  have jo: "job_ok db i j" using inv j unfolding job_inv_def by blast
  have new: "map_of (db_attempts db) (i, j_attempt j + 1) = None"
  proof (rule ccontr)
    assume "map_of (db_attempts db) (i, j_attempt j + 1) \<noteq> None"
    then have "j_attempt j + 1 \<le> j_attempt j" using jo unfolding job_ok_def by blast
    then show False by simp
  qed
  show ?thesis
    using q j new
    by (auto simp: queue_attempt_tx_def insert_row_def sql_def Let_def terminal_def str_of_def map_add_def
        split: if_splits option.splits)
qed

lemma with_tx_lost: "with_tx flt body db = (r, db') \<Longrightarrow> r \<noteq> Inr True \<Longrightarrow> db' = db"
  using with_tx_cases[of flt body db] by auto

lemma queue_rerun_cases:
  assumes "queue_rerun_attempt flt ready adm edits i now db = (r, db')"
  shows "(db' = db \<and> r \<noteq> Inr True) \<or>
    (\<exists>e n db1. edits = Inr e \<and> queue_attempt_tx flt ready i ''rerun'' e now db = Inr (n, db1) \<and>
       db' = db1\<lparr>db_events := db_events db1 @ [(''job.updated'', i, n)]\<rparr>)"
proof -
  define body where "body = (\<lambda>db. bind_r edits (\<lambda>ed.
             bind_r (queue_attempt_tx flt ready i ''rerun'' ed now db) (\<lambda>(n, db).
             Inr (Some (db, ''job.updated'', i, n)))))"
  obtain r1 db1 where t: "with_tx flt body db = (r1, db1)" by (cases "with_tx flt body db")
  from assms have "(db' = db \<and> r \<noteq> Inr True) \<or> (db' = db1 \<and> (r = Inr True \<longrightarrow> r1 = Inr True) \<and> (r1 \<noteq> Inr True \<longrightarrow> r = r1))"
    unfolding queue_rerun_attempt_def body_def[symmetric] t by (auto split: if_splits)
  moreover have "db1 = db" if "r1 \<noteq> Inr True" using with_tx_lost[OF t that] .
  moreover have "\<exists>e n db2. edits = Inr e \<and> queue_attempt_tx flt ready i ''rerun'' e now db = Inr (n, db2) \<and>
       db1 = db2\<lparr>db_events := db_events db2 @ [(''job.updated'', i, n)]\<rparr>" if won: "r1 = Inr True"
  proof -
    from with_tx_won[of flt body db] t won obtain db2 ev where
      b: "body db = Inr (Some (db2, ev))" "db1 = db2\<lparr>db_events := db_events db2 @ [ev]\<rparr>" by auto
    then show ?thesis by (cases edits; cases "queue_attempt_tx flt ready i ''rerun'' (projr edits) now db")
      (auto simp: body_def)
  qed
  ultimately show ?thesis by blast
qed

text \<open>
  A rerun is a fresh attempt over the recorded source.  When a rerun changes the store (it
  does whenever it is reported queued), the job had stopped on a ready run bundle; its attempt
  number grows by one, the attempt row is new, carries the job's request and the frozen speaker
  edits, the job is in the build backlog at once for any clock, and no earlier attempt row moved.
\<close>

theorem rerun_queues_fresh_attempt:
  assumes reach: "reachable ready0 db"
    and r: "queue_rerun_attempt flt ready adm edits i now db = (r, db')"
  shows "if db' = db then r \<noteq> Inr True else (\<exists>j e a. map_of (db_jobs db) i = Some j \<and> terminal (c_state j)
      \<and> ready (trim_space (str_of (c_run_path j))) \<and> edits = Inr e
      \<and> map_of (db_attempts db) (i, j_attempt j + 1) = None
      \<and> map_of (db_attempts db') (i, j_attempt j + 1) = Some a
      \<and> a_request a = j_request j \<and> a_speaker_edits a = e \<and> a_trigger a = ''rerun''
      \<and> (\<forall>t. \<lparr>bt_job = i, bt_attempt = j_attempt j + 1,
           bt_run_path = trim_space (str_of (c_run_path j)), bt_deferrals = 0\<rparr> \<in> set (list_queued_build_tasks t db'))
      \<and> (\<forall>k x. map_of (db_attempts db) k = Some x \<longrightarrow> map_of (db_attempts db') k = Some x))"
proof -
  have inv: "job_inv db" using reachable_inv reach .
  from queue_rerun_cases[OF r] show ?thesis
  proof (elim disjE conjE exE)
    fix e n db1
    assume e: "edits = Inr e"
      and q: "queue_attempt_tx flt ready i ''rerun'' e now db = Inr (n, db1)"
      and db': "db' = db1\<lparr>db_events := db_events db1 @ [(''job.updated'', i, n)]\<rparr>"
    obtain j j' a' where j: "map_of (db_jobs db) i = Some j" "terminal (c_state j)"
        "ready (trim_space (str_of (c_run_path j)))" "n = j_attempt j + 1" "map_of (db_attempts db) (i, n) = None"
      and j': "map_of (db_jobs db1) i = Some j'" "c_stage j' = Build" "c_state j' = Queued" "j_attempt j' = n"
        "c_deferrals j' = 0" "c_retry_not_before j' = None"
        "c_run_path j' = Some (trim_space (str_of (c_run_path j)))"
      and a': "map_of (db_attempts db1) (i, n) = Some a'" "a_request a' = j_request j" "a_trigger a' = ''rerun''"
        "a_speaker_edits a' = e"
      using queue_attempt_tx_ok[OF inv q] by auto
    have "(i, j') \<in> set (db_jobs db1)" using j'(1) by (rule map_of_SomeD)
    then have "\<lparr>bt_job = i, bt_attempt = n, bt_run_path = trim_space (str_of (c_run_path j)), bt_deferrals = 0\<rparr>
        \<in> set (list_queued_build_tasks t db')" for t
      using j' by (force simp: list_queued_build_tasks_def db' due_def str_of_def)
    moreover have "map_of (db_attempts db') k = Some x" if "map_of (db_attempts db) k = Some x" for k x
      using queue_attempt_tx_old[OF q, of k x] that by (simp add: db')
    moreover have "db' \<noteq> db" using j(5) a'(1) by (auto simp: db')
    ultimately show ?thesis using j a' e by (auto simp: db')
  qed simp
qed

text \<open>
  What a rerun needs.  When every SQL call succeeds, a rerun is queued exactly for an
  admitted job that stopped (succeeded, failed, interrupted or blocked), whose run path is a ready
  bundle and whose speaker edits could be frozen.
\<close>

theorem rerun_admission:
  assumes reach: "reachable ready0 db" and ok: "\<And>k. \<not> flt k"
  shows "fst (queue_rerun_attempt flt ready adm edits i now db) = Inr True \<longleftrightarrow>
    adm \<and> (\<exists>e. edits = Inr e) \<and> (\<exists>j. map_of (db_jobs db) i = Some j \<and> terminal (c_state j) \<and>
      trim_space (str_of (c_run_path j)) \<noteq> [] \<and> ready (trim_space (str_of (c_run_path j))))"
proof (cases "map_of (db_jobs db) i")
  case (Some j)
  have inv: "job_inv db" using reachable_inv reach .
  then have jo: "job_ok db i j" using Some unfolding job_inv_def by blast
  have "(i, j_attempt j + 1) \<notin> set (map fst (db_attempts db))"
  proof
    assume "(i, j_attempt j + 1) \<in> set (map fst (db_attempts db))"
    then have "map_of (db_attempts db) (i, j_attempt j + 1) \<noteq> None" by (simp add: map_of_eq_None_iff)
    then have "j_attempt j + 1 \<le> j_attempt j" using jo unfolding job_ok_def by blast
    then show False by simp
  qed
  then show ?thesis using Some ok
    by (auto simp: queue_rerun_attempt_def with_tx_def queue_attempt_tx_def insert_row_def sql_def Let_def
        terminal_def str_of_def split: sum.splits option.splits)
qed (simp add: queue_rerun_attempt_def ok)

subsection \<open>Example runs\<close>

text \<open>A job that records, builds, fails its build, and is rerun.\<close>

definition no_faults :: faults where "no_faults k = False"

definition ex_ready :: "string \<Rightarrow> bool" where "ex_ready p \<longleftrightarrow> p = ''run''"

definition ex_new :: db where
  "ex_new = snd (insert_queued_job no_faults False ''j1'' (new_job ''nc'' ''{}'' ''0'') empty_db)"
definition ex_building :: db where
  "ex_building = snd (mark_build_queued no_faults ''j1'' ''run'' ''run'' ''1'' ex_new)"
definition ex_failed :: db where
  "ex_failed = snd (mark_build_failed no_faults ''j1'' [] ''x'' ''2'' ex_building)"
definition ex_rerun :: db where
  "ex_rerun = snd (queue_rerun_attempt no_faults ex_ready True (Inr None) ''j1'' ''3'' ex_failed)"
definition ex_sealed :: db where
  "ex_sealed = snd (mark_seal_succeeded no_faults ''j1'' ''o'' ''o'' ''ab'' ''2'' ex_building)"

lemma reachable_step: "reachable ready db \<Longrightarrow> store_step ready db db' \<Longrightarrow> reachable ready db'"
  by (simp add: reachable_def)

lemma reachable_empty: "reachable ready empty_db"
  by (simp add: reachable_def)

lemma ex_reachable [simp]:
  "reachable ready ex_new" "reachable ready ex_building" "reachable ready ex_failed"
  "reachable ready ex_sealed" "reachable ex_ready ex_rerun"
proof -
  have 1: "reachable r ex_new" for r
    unfolding ex_new_def by (rule reachable_step[OF reachable_empty store_step.insert])
  have 2: "reachable r ex_building" for r
    unfolding ex_building_def by (rule reachable_step[OF 1 store_step.build_queued])
  have 3: "reachable r ex_failed" for r
    unfolding ex_failed_def by (rule reachable_step[OF 2 store_step.build_failed])
  show "reachable ready ex_new" "reachable ready ex_building" "reachable ready ex_failed"
    by (fact 1 2 3)+
  show "reachable ready ex_sealed"
    unfolding ex_sealed_def by (rule reachable_step[OF 2 store_step.seal_done])
  show "reachable ex_ready ex_rerun"
    unfolding ex_rerun_def by (rule reachable_step[OF 3 store_step.rerun])
qed

lemma ex_rows:
  "map_option (\<lambda>j. (j_attempt j, c_stage j, c_state j, c_run_path j)) (map_of (db_jobs ex_rerun) ''j1'') =
     Some (2, Build, Queued, Some ''run'')"
  "map_option c_state (map_of (db_attempts ex_rerun) (''j1'', 1)) = Some Failed"
  "list_queued_build_tasks ''1'' ex_building =
     [\<lparr>bt_job = ''j1'', bt_attempt = 1, bt_run_path = ''run'', bt_deferrals = 0\<rparr>]"
  "fst (queue_rerun_attempt no_faults ex_ready True (Inr None) ''j1'' ''3'' ex_failed) = Inr True"
  "list_queued_publish_tasks ex_sealed =
     [\<lparr>pt_job = ''j1'', pt_attempt = 1, pt_opus_path = ''o'', pt_opus_sha256 = ''ab''\<rparr>]"
  "fst (mark_incomplete_jobs_interrupted no_faults ''9'' ex_new) = Inr 1"
  by code_simp+

lemma store_consistent_witness:
  "reachable ex_ready ex_rerun \<and> (\<exists>j. map_of (db_jobs ex_rerun) ''j1'' = Some j \<and> j_attempt j = 2 \<and> j_reruns j = 1)"
proof -
  obtain j where j: "map_of (db_jobs ex_rerun) ''j1'' = Some j" "j_attempt j = 2" using ex_rows(1) by auto
  with store_consistent[OF ex_reachable(5) j(1)] show ?thesis by simp
qed

lemma publish_backlog_sealed_witness:
  "reachable ex_ready ex_sealed \<and> (\<exists>a. map_of (db_attempts ex_sealed) (''j1'', 1) = Some a \<and>
     c_opus_path a = Some ''o'' \<and> c_opus_sha256 a = Some ''ab'')"
  using publish_backlog_sealed[OF ex_reachable(4)] by (simp add: ex_rows)

lemma past_attempts_immutable_witness:
  "\<exists>a b. map_of (db_attempts ex_rerun) (''j1'', 1) = Some a \<and> c_state a = Failed \<and>
     map_of (db_attempts (snd (mark_build_succeeded no_faults ''j1'' ''m'' ''m'' ''5'' ex_rerun))) (''j1'', 1) = Some b \<and>
     frozen a b"
proof -
  obtain j where j: "map_of (db_jobs ex_rerun) ''j1'' = Some j" "1 < j_attempt j" using ex_rows(1) by auto
  obtain a where a: "map_of (db_attempts ex_rerun) (''j1'', 1) = Some a" "c_state a = Failed" using ex_rows(2) by auto
  show ?thesis
    using past_attempts_immutable[OF ex_reachable(5) store_step.build_done j a(1)] a by blast
qed

lemma stage_claimed_once_witness:
  "reachable ex_ready ex_building \<and>
   count_list (fst (race (build_worker ''j1'')
     (replicate 2 (no_faults, \<lparr>bt_job = [], bt_attempt = 1, bt_run_path = ''run'', bt_deferrals = 0\<rparr>, ''2'')) ex_building)) True = 1"
proof -
  let ?ws = "replicate 2 (no_faults, \<lparr>bt_job = [], bt_attempt = 1, bt_run_path = ''run'', bt_deferrals = 0\<rparr>, ''2'')"
  have "count_list (fst (race (build_worker ''j1'') ?ws ex_building)) True \<le> 1"
    using stage_claimed_once[OF ex_reachable(2)] by blast
  moreover have "fst (race (build_worker ''j1'') ?ws ex_building) = [True, False]" by code_simp
  ultimately show ?thesis by simp
qed

lemma build_backlog_claimable_witness:
  "\<exists>db'. claim_build_running no_faults \<lparr>bt_job = ''j1'', bt_attempt = 1, bt_run_path = ''run'', bt_deferrals = 0\<rparr>
     ''2'' ex_building = (Inr True, db')"
  using build_backlog_claimable[OF ex_reachable(2), of
      "\<lparr>bt_job = ''j1'', bt_attempt = 1, bt_run_path = ''run'', bt_deferrals = 0\<rparr>" "''1''" "''2''" no_faults]
  by (auto simp: ex_rows no_faults_def)

lemma restart_keeps_backlogs_witness:
  "\<exists>n db'. mark_incomplete_jobs_interrupted no_faults ''9'' ex_new = (Inr n, db') \<and> n = 1 \<and>
     (\<forall>i j. map_of (db_jobs db') i = Some j \<longrightarrow> c_state j \<noteq> Running)"
proof -
  obtain db' where "mark_incomplete_jobs_interrupted no_faults ''9'' ex_new = (Inr 1, db')"
    using ex_rows(6) by (cases "mark_incomplete_jobs_interrupted no_faults ''9'' ex_new") auto
  with restart_keeps_backlogs[OF ex_reachable(1) this] show ?thesis by blast
qed

lemma rerun_queues_fresh_attempt_witness:
  "\<exists>a. map_of (db_attempts ex_rerun) (''j1'', 2) = Some a \<and> a_trigger a = ''rerun''"
proof -
  have ne: "ex_rerun \<noteq> ex_failed"
  proof
    assume "ex_rerun = ex_failed"
    then have "map_option j_attempt (map_of (db_jobs ex_rerun) ''j1'') = map_option j_attempt (map_of (db_jobs ex_failed) ''j1'')"
      by simp
    moreover have "map_option j_attempt (map_of (db_jobs ex_failed) ''j1'') = Some 1" by code_simp
    moreover have "map_option j_attempt (map_of (db_jobs ex_rerun) ''j1'') = Some 2" by code_simp
    ultimately show False by simp
  qed
  have "queue_rerun_attempt no_faults ex_ready True (Inr None) ''j1'' ''3'' ex_failed = (Inr True, ex_rerun)"
    using ex_rows(4) by (simp add: ex_rerun_def prod_eq_iff)
  from rerun_queues_fresh_attempt[OF ex_reachable(3) this]
  obtain j a where "map_of (db_jobs ex_failed) ''j1'' = Some j"
    "map_of (db_attempts ex_rerun) (''j1'', j_attempt j + 1) = Some a" "a_trigger a = ''rerun''" using ne by auto
  moreover have "map_option j_attempt (map_of (db_jobs ex_failed) ''j1'') = Some 1" by code_simp
  ultimately show ?thesis by auto
qed

lemma rerun_admission_witness:
  "fst (queue_rerun_attempt no_faults ex_ready True (Inr None) ''j1'' ''3'' ex_failed) = Inr True \<and>
   (\<exists>j. map_of (db_jobs ex_failed) ''j1'' = Some j \<and> ex_ready (trim_space (str_of (c_run_path j))))"
  using rerun_admission[OF ex_reachable(3), of no_faults ex_ready True "Inr None" "''j1''" "''3''"]
  by (auto simp: ex_rows no_faults_def)

end
