(* ===== verification/Stage_Workers.thy ===== *)
theory Stage_Workers
  imports Job_Store
begin

text \<open>
  The operator's hand-offs and stage workers (\<open>handoff.go\<close>, \<open>build_runtime.go\<close>,
  \<open>seal_runtime.go\<close>, \<open>publish_runtime.go\<close> under
  \<open>cassini-operator/internal/operator\<close>): the requeue dispatcher, the build retry delay, and
  one definition per worker, from claim to final mark.  What a worker runs outside the store (the
  recorder's build and pack, the sink's delivery, clocks, files) is its argument; whether a
  channel has room at a send is an argument too, since other goroutines fill and drain it.
\<close>

subsection \<open>The requeue dispatcher\<close>

definition requeue_key :: "string \<Rightarrow> int \<Rightarrow> string" where
  "requeue_key i n = i @ ''|'' @ itoa n"

text \<open>
  One pass over the queued rows: a task already handed over is skipped, another is sent when its
  channel has room at that moment (\<open>room k\<close>, the k-th attempted send) and otherwise leaves a
  backlog.  The answer is the grown set of handed-over keys, the tasks sent, and the flag.
\<close>

fun dispatch_loop :: "(nat \<Rightarrow> bool) \<Rightarrow> ('t \<Rightarrow> string) \<Rightarrow> nat \<Rightarrow> 't list \<Rightarrow> string set \<Rightarrow> string set \<times> 't list \<times> bool" where
  "dispatch_loop room key k [] sent = (sent, [], False)"
| "dispatch_loop room key k (t # ts) sent =
     (if key t \<in> sent then dispatch_loop room key k ts sent
      else if room k then
        (let (sent', out, b) = dispatch_loop room key (k + 1) ts (insert (key t) sent) in (sent', t # out, b))
      else (let (sent', out, b) = dispatch_loop room key (k + 1) ts sent in (sent', out, True)))"

definition prune_dispatched :: "string set \<Rightarrow> string set \<Rightarrow> string set" where
  "prune_dispatched sent queued = sent \<inter> queued"

definition dispatch_queued ::
  "(nat \<Rightarrow> bool) \<Rightarrow> ('t \<Rightarrow> string) \<Rightarrow> (db_err, 't list) res \<Rightarrow> string set \<Rightarrow> string set \<times> 't list \<times> bool" where
  "dispatch_queued room key listed sent = (case listed of
     Inl e \<Rightarrow> (sent, [], False)
   | Inr ts \<Rightarrow> (let (sent', out, b) = dispatch_loop room key 0 ts sent
               in (prune_dispatched sent' (key ` set ts), out, b)))"

definition build_key :: "build_task \<Rightarrow> string" where "build_key t = requeue_key (bt_job t) (bt_attempt t)"
definition seal_key :: "seal_task \<Rightarrow> string" where "seal_key t = requeue_key (sl_job t) (sl_attempt t)"
definition publish_key :: "publish_task \<Rightarrow> string" where "publish_key t = requeue_key (pt_job t) (pt_attempt t)"

definition dispatch_queued_build_tasks :: "bool \<Rightarrow> (nat \<Rightarrow> bool) \<Rightarrow> time_str \<Rightarrow> db \<Rightarrow> string set \<Rightarrow> string set \<times> build_task list \<times> bool" where
  "dispatch_queued_build_tasks fails room now db sent =
     dispatch_queued room build_key (if fails then Inl SqlError else Inr (list_queued_build_tasks now db)) sent"

definition dispatch_queued_seal_tasks :: "bool \<Rightarrow> (nat \<Rightarrow> bool) \<Rightarrow> db \<Rightarrow> string set \<Rightarrow> string set \<times> seal_task list \<times> bool" where
  "dispatch_queued_seal_tasks fails room db sent =
     dispatch_queued room seal_key (if fails then Inl SqlError else Inr (list_queued_seal_tasks db)) sent"

definition dispatch_queued_publish_tasks :: "bool \<Rightarrow> (nat \<Rightarrow> bool) \<Rightarrow> db \<Rightarrow> string set \<Rightarrow> string set \<times> publish_task list \<times> bool" where
  "dispatch_queued_publish_tasks fails room db sent =
     dispatch_queued room publish_key (if fails then Inl SqlError else Inr (list_queued_publish_tasks db)) sent"

text \<open>The delay to the next pass, in nanoseconds.\<close>

definition requeue_scan_idle_interval :: int where "requeue_scan_idle_interval = 15000000000"
definition requeue_scan_retry_delay :: int where "requeue_scan_retry_delay = 500000000"

definition requeue_delay :: "bool \<Rightarrow> bool \<Rightarrow> bool \<Rightarrow> int" where
  "requeue_delay b s p = (if b \<or> s \<or> p then requeue_scan_retry_delay else requeue_scan_idle_interval)"

lemma dispatch_loop_spec:
  assumes "dispatch_loop room key k ts sent = (sent', out, b)"
  shows "sent' = sent \<union> key ` set out \<and> set out \<subseteq> set ts \<and> (\<forall>t\<in>set out. key t \<notin> sent) \<and>
    distinct (map key out) \<and> ((\<exists>t\<in>set ts. key t \<notin> sent') \<longrightarrow> b) \<and> (distinct (map key ts) \<longrightarrow> b \<longrightarrow> (\<exists>t\<in>set ts. key t \<notin> sent'))"
  using assms
proof (induction ts arbitrary: k sent sent' out b)
  case (Cons t ts)
  show ?case
  proof (cases "key t \<in> sent")
    case True
    then have "dispatch_loop room key k ts sent = (sent', out, b)" using Cons.prems by simp
    from Cons.IH[OF this] True show ?thesis by auto
  next
    case new: False
    show ?thesis
    proof (cases "room k")
      case True
      obtain s1 o1 b1 where d: "dispatch_loop room key (k + 1) ts (insert (key t) sent) = (s1, o1, b1)"
        by (cases "dispatch_loop room key (k + 1) ts (insert (key t) sent)")
      with Cons.prems new True have e: "sent' = s1" "out = t # o1" "b = b1" by auto
      from Cons.IH[OF d] show ?thesis unfolding e using new by auto
    next
      case False
      obtain s1 o1 b1 where d: "dispatch_loop room key (k + 1) ts sent = (s1, o1, b1)"
        by (cases "dispatch_loop room key (k + 1) ts sent")
      with Cons.prems new False have e: "sent' = s1" "out = o1" "b = True" by auto
      from Cons.IH[OF d] new show ?thesis unfolding e by auto
    qed
  qed
qed simp

text \<open>
  What the dispatcher relies on: a listing never names a key twice.  The three backlogs are
  interpretations.
\<close>

locale requeue =
  fixes listing :: "db \<Rightarrow> 't list" and key :: "'t \<Rightarrow> string" and inv :: "db \<Rightarrow> bool"
  assumes keys_distinct: "inv db \<Longrightarrow> distinct (map key (listing db))"
begin

lemma pass_exact:
  assumes "inv db" "dispatch_queued room key (Inr (listing db)) sent = (sent', out, b)"
  shows "sent' = key ` set (listing db) \<inter> (sent \<union> key ` set out)
    \<and> set out \<subseteq> {t \<in> set (listing db). key t \<notin> sent} \<and> distinct out
    \<and> (b \<longleftrightarrow> (\<exists>t\<in>set (listing db). key t \<notin> sent'))"
proof -
  obtain s1 where d: "dispatch_loop room key 0 (listing db) sent = (s1, out, b)"
    and s': "sent' = s1 \<inter> key ` set (listing db)"
    using assms(2) by (auto simp: dispatch_queued_def prune_dispatched_def split: prod.splits)
  from dispatch_loop_spec[OF d] keys_distinct[OF assms(1)] show ?thesis
    unfolding s' by (auto simp: distinct_map)
qed

end

lemma itoa_nat_no_bar: "CHR ''|'' \<notin> set (itoa_nat n)"
  using itoa_nat_digits[of n] by (auto simp: list_all_iff is_digit_def in_range_def byte_def)

lemma itoa_no_bar: "c \<in> set (itoa n) \<Longrightarrow> c \<noteq> CHR ''|''"
  using itoa_nat_no_bar by (auto simp: itoa_def split: if_splits)

lemma requeue_key_job: "requeue_key i n = requeue_key i' n' \<Longrightarrow> i = i'"
proof -
  have s: "dropWhile (\<lambda>c. c \<noteq> CHR ''|'') (rev (requeue_key i n)) = CHR ''|'' # rev i" for i n
    using itoa_no_bar[of _ n] by (simp add: requeue_key_def dropWhile_append)
  assume "requeue_key i n = requeue_key i' n'"
  then have "CHR ''|'' # rev i = CHR ''|'' # rev i'" using s by metis
  then show ?thesis by simp
qed

lemma distinct_rows:
  assumes "job_inv db"
  shows "distinct (map fst (sort_key k (filter P (db_jobs db))))"
proof -
  have "distinct (map fst (db_jobs db))" using assms by (simp add: job_inv_def)
  then show ?thesis by (auto simp: distinct_map intro: inj_on_subset)
qed

lemma distinct_map_filter:
  assumes "distinct (map fst xs)" "\<And>x y. f x = Some y \<Longrightarrow> g y = fst x"
  shows "distinct (map g (List.map_filter f xs))"
  using assms(1)
proof (induction xs)
  case (Cons x xs)
  have "g ` set (List.map_filter f xs) \<subseteq> fst ` set xs"
    using assms(2) by (force simp: List.map_filter_def)
  with Cons show ?case using assms(2) by (auto simp: List.map_filter_simps split: option.splits)
qed (simp add: List.map_filter_simps)

lemma distinct_key:
  assumes "distinct (map job ts)" "\<And>t. key t = requeue_key (job t) (n t)"
  shows "distinct (map key ts)"
  using assms by (auto simp: distinct_map inj_on_def dest: requeue_key_job)

interpretation build_requeue: requeue "list_queued_build_tasks now" build_key job_inv
proof
  fix db assume "job_inv db"
  have "map bt_job (list_queued_build_tasks now db) =
    map fst (sort_key (\<lambda>(i, j). (null_first (c_build_queued j), i))
         (filter (\<lambda>(i, j). c_stage j = Build \<and> c_state j = Queued \<and> c_run_path j \<noteq> None \<and>
                           due (c_retry_not_before j) now) (db_jobs db)))"
    by (simp add: list_queued_build_tasks_def case_prod_beta comp_def)
  then have "distinct (map bt_job (list_queued_build_tasks now db))"
    using distinct_rows[OF \<open>job_inv db\<close>] by simp
  then show "distinct (map build_key (list_queued_build_tasks now db))"
    by (rule distinct_key) (simp add: build_key_def)
qed

interpretation seal_requeue: requeue list_queued_seal_tasks seal_key job_inv
proof
  fix db assume "job_inv db"
  then have "distinct (map sl_job (list_queued_seal_tasks db))"
    unfolding list_queued_seal_tasks_def
    by (intro distinct_map_filter distinct_rows) (auto split: option.splits)
  then show "distinct (map seal_key (list_queued_seal_tasks db))"
    by (rule distinct_key) (simp add: seal_key_def)
qed

interpretation publish_requeue: requeue list_queued_publish_tasks publish_key job_inv
proof
  fix db assume "job_inv db"
  then have "distinct (map pt_job (list_queued_publish_tasks db))"
    unfolding list_queued_publish_tasks_def
    by (intro distinct_map_filter distinct_rows) (auto split: option.splits)
  then show "distinct (map publish_key (list_queued_publish_tasks db))"
    by (rule distinct_key) (simp add: publish_key_def)
qed

text \<open>
  The dispatcher's pass is exact.  Over the backlogs of any reachable state, whichever sends
  found room, it sends tasks that are queued and were not handed over before, each once; it then
  remembers exactly the queued tasks handed over, so a task that left its queue may be sent again
  later; and it reports a backlog exactly when some queued task was never handed over.
\<close>

theorem dispatch_pass_exact:
  assumes "reachable ready db"
  shows "(case dispatch_queued_build_tasks False room now db sent of (sent', out, b) \<Rightarrow>
       sent' = build_key ` set (list_queued_build_tasks now db) \<inter> (sent \<union> build_key ` set out)
     \<and> set out \<subseteq> {t \<in> set (list_queued_build_tasks now db). build_key t \<notin> sent} \<and> distinct out
     \<and> (b = (\<exists>t\<in>set (list_queued_build_tasks now db). build_key t \<notin> sent')))
  \<and> (case dispatch_queued_seal_tasks False room db sent of (sent', out, b) \<Rightarrow>
       sent' = seal_key ` set (list_queued_seal_tasks db) \<inter> (sent \<union> seal_key ` set out)
     \<and> set out \<subseteq> {t \<in> set (list_queued_seal_tasks db). seal_key t \<notin> sent} \<and> distinct out
     \<and> (b = (\<exists>t\<in>set (list_queued_seal_tasks db). seal_key t \<notin> sent')))
  \<and> (case dispatch_queued_publish_tasks False room db sent of (sent', out, b) \<Rightarrow>
       sent' = publish_key ` set (list_queued_publish_tasks db) \<inter> (sent \<union> publish_key ` set out)
     \<and> set out \<subseteq> {t \<in> set (list_queued_publish_tasks db). publish_key t \<notin> sent} \<and> distinct out
     \<and> (b = (\<exists>t\<in>set (list_queued_publish_tasks db). publish_key t \<notin> sent')))"
  using build_requeue.pass_exact[OF reachable_inv[OF assms]]
    seal_requeue.pass_exact[OF reachable_inv[OF assms]] publish_requeue.pass_exact[OF reachable_inv[OF assms]]
  unfolding dispatch_queued_build_tasks_def dispatch_queued_seal_tasks_def dispatch_queued_publish_tasks_def
    if_False by (auto 0 0 split: prod.splits)

lemma dispatch_pass_exact_witness:
  "snd (dispatch_queued_build_tasks False (\<lambda>_. False) ''1'' ex_building {}) = ([], True)
   \<and> (\<exists>t\<in>set (list_queued_build_tasks ''1'' ex_building).
        build_key t \<notin> fst (dispatch_queued_build_tasks False (\<lambda>_. False) ''1'' ex_building {}))"
proof -
  obtain s out b where d: "dispatch_queued_build_tasks False (\<lambda>_. False) ''1'' ex_building {} = (s, out, b)"
    by (cases "dispatch_queued_build_tasks False (\<lambda>_. False) ''1'' ex_building {}")
  then have "out = []" "b" by (auto simp: dispatch_queued_build_tasks_def dispatch_queued_def ex_rows)
  with dispatch_pass_exact[OF ex_reachable(2), where room = "\<lambda>_. False" and now = "''1''" and sent = "{}"] d show ?thesis by auto
qed

subsection \<open>The retry delay of a deferred build\<close>

definition default_build_resource_retry_delay :: int where "default_build_resource_retry_delay = 15000000000"
definition max_build_resource_retry_delay :: int where "max_build_resource_retry_delay = 900000000000"
definition default_max_build_resource_deferrals :: int where "default_max_build_resource_deferrals = 16"

text \<open>The doubling loop on 64-bit durations, by the number of rounds left.\<close>

fun retry_loop :: "nat \<Rightarrow> int \<Rightarrow> int" where
  "retry_loop 0 delay = (if delay > max_build_resource_retry_delay then max_build_resource_retry_delay else delay)"
| "retry_loop (Suc n) delay =
     (if delay < max_build_resource_retry_delay then
        (if delay > max_build_resource_retry_delay div 2 then max_build_resource_retry_delay
         else retry_loop n (wrap64 (delay * 2)))
      else if delay > max_build_resource_retry_delay then max_build_resource_retry_delay else delay)"

definition exponential_build_retry_delay :: "int \<Rightarrow> int \<Rightarrow> int" where
  "exponential_build_retry_delay base n =
     (let base = (if base \<le> 0 then default_build_resource_retry_delay else base);
          n = (if n < 1 then 1 else n)
      in retry_loop (nat (n - 1)) base)"

lemma wrap64_small: "0 \<le> d \<Longrightarrow> d \<le> max_build_resource_retry_delay div 2 \<Longrightarrow> wrap64 (d * 2) = d * 2"
  by (simp add: wrap64_def max_build_resource_retry_delay_def)

lemma retry_loop_exact:
  "0 < d \<Longrightarrow> retry_loop n d = min max_build_resource_retry_delay (d * 2 ^ n)"
proof (induction n arbitrary: d)
  case (Suc n)
  have g: "d * 2 \<le> d * 2 ^ Suc n" using Suc.prems by simp
  show ?case
  proof (cases "d < max_build_resource_retry_delay \<and> d \<le> max_build_resource_retry_delay div 2")
    case True
    then show ?thesis using Suc.IH[of "d * 2"] Suc.prems wrap64_small[of d] by (simp add: mult.assoc)
  next
    case False
    then have "max_build_resource_retry_delay \<le> d * 2" by (auto simp: max_build_resource_retry_delay_def)
    then have "min max_build_resource_retry_delay (d * 2 ^ Suc n) = max_build_resource_retry_delay"
      using g by (intro min_absorb1) (rule order_trans)
    moreover have "retry_loop (Suc n) d = max_build_resource_retry_delay"
      using False by (auto simp: max_build_resource_retry_delay_def)
    ultimately show ?thesis by simp
  qed
qed (simp add: min_def)

text \<open>
  The retry delay of a deferred build is the doubled base capped at fifteen minutes, for
  every deferral count and every base (15 seconds when none is set), with no overflow on the way;
  so it never shrinks from one deferral to the next.
\<close>

lemma retry_delay_exact:
  "exponential_build_retry_delay base n =
     min max_build_resource_retry_delay
       ((if base \<le> 0 then default_build_resource_retry_delay else base) * 2 ^ nat (n - 1))
   \<and> exponential_build_retry_delay base n \<le> exponential_build_retry_delay base (n + 1)"
proof -
  have e: "exponential_build_retry_delay base c =
     min max_build_resource_retry_delay
       ((if base \<le> 0 then default_build_resource_retry_delay else base) * 2 ^ nat (c - 1))" for c
  proof (cases "c < 1")
    case True
    then have "nat (c - 1) = 0" by simp
    then show ?thesis using True retry_loop_exact[of _ 0]
      by (simp add: exponential_build_retry_delay_def default_build_resource_retry_delay_def min_def)
  next
    case False
    then show ?thesis using retry_loop_exact[of _ "nat (c - 1)"]
      by (simp add: exponential_build_retry_delay_def default_build_resource_retry_delay_def)
  qed
  have "(2::int) ^ nat (n - 1) \<le> 2 ^ nat (n + 1 - 1)" by (rule power_increasing) auto
  then have "(if base \<le> 0 then default_build_resource_retry_delay else base) * 2 ^ nat (n - 1) \<le>
      (if base \<le> 0 then default_build_resource_retry_delay else base) * 2 ^ nat (n + 1 - 1)"
    by (simp add: default_build_resource_retry_delay_def)
  then show ?thesis unfolding e by auto
qed

subsection \<open>The workers\<close>

text \<open>
  The worker's settings: the deferral limit and the base retry delay, whether a request asks for
  its source media to be deleted (\<open>deletesSourceMedia\<close>, JSON), and the text of a store error.
\<close>

record worker_cfg =
  wc_max_deferrals :: int
  wc_retry_delay :: int
  wc_deletes :: "string \<Rightarrow> bool"
  wc_err_text :: "db_err \<Rightarrow> string"

definition build_resource_deferral_limit :: "worker_cfg \<Rightarrow> int" where
  "build_resource_deferral_limit cfg =
     (if wc_max_deferrals cfg > 0 then wc_max_deferrals cfg else default_max_build_resource_deferrals)"

definition get_job :: "faults \<Rightarrow> string \<Rightarrow> db \<Rightarrow> (db_err, job) res" where
  "get_job flt i db = (if flt 0 then Inl SqlError else
     case map_of (db_jobs db) i of None \<Rightarrow> Inl NoRows | Some j \<Rightarrow> Inr j)"

text \<open>
  What the build ended with: a bundle (with its readable step outcomes, if any), a yield to a
  recording (with the error of the clean-up, if any), unavailable resources (permanent, awaiting a
  model, detail, bundle path) or another failure (bundle path, detail).
\<close>

datatype build_outcome =
    Built string "step_outcomes option"
  | Yielded "string option"
  | Unavailable bool bool string string
  | Build_failed string string

text \<open>What a worker hands on: nothing, a retry at a time, or a task, sent or left to the dispatcher.\<close>

datatype 't hand_off = Idle | Retry_at build_task time_str | Sent 't | Kicked 't

definition offer :: "bool \<Rightarrow> 't \<Rightarrow> 't hand_off" where
  "offer room t = (if room then Sent t else Kicked t)"

definition enqueue_build_job ::
  "faults \<Rightarrow> bool \<Rightarrow> string \<Rightarrow> int \<Rightarrow> string \<Rightarrow> string \<Rightarrow> time_str \<Rightarrow> db \<Rightarrow> (db_err, build_task hand_off) res \<times> db" where
  "enqueue_build_job flt room i n job_path attempt_path now db =
     (case mark_build_queued flt i job_path attempt_path now db of
        (Inl e, db) \<Rightarrow> (Inl e, db)
      | (Inr _, db) \<Rightarrow> (Inr (offer room \<lparr>bt_job = i, bt_attempt = n, bt_run_path = job_path, bt_deferrals = 0\<rparr>), db))"

text \<open>\<open>fmt\<close> is the outcome of resolving and recording the meeting's format.\<close>

definition enqueue_seal_job ::
  "faults \<Rightarrow> (db_err, unit) res \<Rightarrow> bool \<Rightarrow> string \<Rightarrow> int \<Rightarrow> string \<Rightarrow> string \<Rightarrow> time_str \<Rightarrow> db
   \<Rightarrow> (db_err, seal_task hand_off) res \<times> db" where
  "enqueue_seal_job flt fmt room i n job_path attempt_path now db =
     (case fmt of Inl e \<Rightarrow> (Inl e, db)
      | Inr _ \<Rightarrow> (case mark_seal_queued flt i job_path attempt_path now db of
          (Inl e, db) \<Rightarrow> (Inl e, db)
        | (Inr _, db) \<Rightarrow> (Inr (offer room \<lparr>sl_job = i, sl_attempt = n, sl_meeting_path = attempt_path\<rparr>), db)))"

definition enqueue_publish_after_seal ::
  "faults \<Rightarrow> bool \<Rightarrow> seal_task \<Rightarrow> string \<Rightarrow> string \<Rightarrow> string \<Rightarrow> time_str \<Rightarrow> db
   \<Rightarrow> (db_err, publish_task hand_off) res \<times> db" where
  "enqueue_publish_after_seal flt room task canonical opus digest now db =
     (case mark_seal_succeeded flt (sl_job task) canonical opus digest now db of
        (Inl e, db) \<Rightarrow> (Inl e, db)
      | (Inr _, db) \<Rightarrow> (Inr (offer room \<lparr>pt_job = sl_job task, pt_attempt = sl_attempt task,
            pt_opus_path = opus, pt_opus_sha256 = digest\<rparr>), db))"

text \<open>
  \<open>runBuildJob\<close>.  \<open>stop\<close> says that the operator shuts down or admission failed before the
  claim; \<open>flt k\<close> are the faults of its k-th store call; \<open>at d\<close> is the time d from now.
\<close>

definition defer_build ::
  "worker_cfg \<Rightarrow> faults \<Rightarrow> build_task \<Rightarrow> int \<Rightarrow> string \<Rightarrow> time_str \<Rightarrow> time_str \<Rightarrow> db \<Rightarrow> seal_task hand_off \<times> db" where
  "defer_build cfg flt task next detail now retry db =
     (case mark_build_deferred flt task next detail now retry db of
        (Inl _, db) \<Rightarrow> (Idle, db)
      | (Inr deferred, db) \<Rightarrow> (if deferred then Retry_at (task\<lparr>bt_deferrals := next\<rparr>) retry else Idle, db))"

definition run_build_job ::
  "worker_cfg \<Rightarrow> bool \<Rightarrow> (nat \<Rightarrow> faults) \<Rightarrow> (db_err, unit) res \<Rightarrow> bool \<Rightarrow> build_task \<Rightarrow> time_str \<Rightarrow> time_str
   \<Rightarrow> (int \<Rightarrow> time_str) \<Rightarrow> build_outcome \<Rightarrow> db \<Rightarrow> seal_task hand_off \<times> db" where
  "run_build_job cfg stop flt fmt room task started finished at outcome db =
     (if stop then (Idle, db) else
      case claim_build_running (flt 0) task started db of
        (Inl _, db) \<Rightarrow> (Idle, db)
      | (Inr claimed, db) \<Rightarrow> if \<not> claimed then (Idle, db) else
        (case outcome of
           Yielded (Some e) \<Rightarrow> (Idle, snd (mark_build_failed (flt 1) (bt_job task) [] e finished db))
         | Yielded None \<Rightarrow> defer_build cfg (flt 1) task (bt_deferrals task)
             ''build yielded to recording priority'' finished (at 0) db
         | Unavailable permanent awaits detail built \<Rightarrow>
             (let next = bt_deferrals task + 1;
                  ceiling = (permanent \<or> next > build_resource_deferral_limit cfg);
                  retry = defer_build cfg (flt 3) task next (trim_space detail) finished
                    (at (exponential_build_retry_delay (wc_retry_delay cfg) next)) db
              in if \<not> ceiling then retry
                 else case get_job (flt 1) (bt_job task) db of
                   Inl _ \<Rightarrow> (Idle, db)
                 | Inr job \<Rightarrow>
                     if \<not> permanent \<and> awaits \<and> wc_deletes cfg (j_request job) then retry
                     else if wc_deletes cfg (j_request job)
                       then (Idle, snd (mark_build_failed (flt 2) (bt_job task) built detail finished db))
                     else (Idle, snd (mark_build_blocked (flt 2) task (trim_space detail) finished db)))
         | Build_failed built detail \<Rightarrow>
             (Idle, snd (mark_build_failed (flt 1) (bt_job task) built detail finished db))
         | Built meeting steps \<Rightarrow>
             (let db = (case steps of None \<Rightarrow> db
                  | Some s \<Rightarrow> snd (record_attempt_step_outcomes (flt 1) (bt_job task) (bt_attempt task) s db))
              in case enqueue_seal_job (flt 2) fmt room (bt_job task) (bt_attempt task) meeting meeting finished db of
                   (Inr h, db) \<Rightarrow> (h, db)
                 | (Inl e, db) \<Rightarrow>
                     (Idle, snd (mark_seal_failed (flt 3) (bt_job task) [] (wc_err_text cfg e) finished db)))))"

datatype seal_outcome = Packed string string | Digest_failed string string | Pack_failed string

definition run_seal_job ::
  "worker_cfg \<Rightarrow> bool \<Rightarrow> (nat \<Rightarrow> faults) \<Rightarrow> bool \<Rightarrow> seal_task \<Rightarrow> time_str \<Rightarrow> time_str \<Rightarrow> seal_outcome \<Rightarrow> db
   \<Rightarrow> publish_task hand_off \<times> db" where
  "run_seal_job cfg stop flt room task started finished outcome db =
     (if stop then (Idle, db) else
      case claim_seal_running (flt 0) (sl_job task) started db of
        (Inl _, db) \<Rightarrow> (Idle, db)
      | (Inr claimed, db) \<Rightarrow> if \<not> claimed then (Idle, db) else
        (case outcome of
           Pack_failed e \<Rightarrow> (Idle, snd (mark_seal_failed (flt 1) (sl_job task) [] e finished db))
         | Digest_failed opus e \<Rightarrow> (Idle, snd (mark_seal_failed (flt 1) (sl_job task) opus e finished db))
         | Packed opus digest \<Rightarrow>
             (case enqueue_publish_after_seal (flt 1) room task opus opus digest finished db of
                (Inr h, db) \<Rightarrow> (h, db)
              | (Inl e, db) \<Rightarrow>
                  (Idle, snd (mark_publish_failed (flt 2) (sl_job task) [] [] (wc_err_text cfg e) finished db)))))"

text \<open>
  \<open>runPublishJob\<close> up to its last write of the job's rows: the site build, then the sink's
  delivery.  Notification, indexing and clean-up come after and do not touch these rows.
\<close>

datatype publish_outcome = Site_failed string string | Refused string string | Delivered string string

definition run_publish_job ::
  "bool \<Rightarrow> (nat \<Rightarrow> faults) \<Rightarrow> (db_err, unit) res \<Rightarrow> publish_task \<Rightarrow> time_str \<Rightarrow> time_str \<Rightarrow> publish_outcome \<Rightarrow> db \<Rightarrow> db" where
  "run_publish_job stop flt edits task started finished outcome db =
     (if stop then db else
      case mark_publish_running (flt 0) (pt_job task) started db of
        (Inl _, db) \<Rightarrow> db
      | (Inr _, db) \<Rightarrow>
        (case outcome of
           Site_failed site detail \<Rightarrow> snd (mark_publish_failed (flt 1) (pt_job task) [] site detail finished db)
         | Refused site e \<Rightarrow> snd (mark_publish_failed (flt 1) (pt_job task) [] site e finished db)
         | Delivered site location \<Rightarrow>
             snd (mark_publish_succeeded (flt 1) edits (pt_job task) location site finished db)))"

subsection \<open>What the workers do when their calls succeed\<close>

lemma mark_stage_ok:
  assumes "map_of (db_jobs db) i = Some j" "j_attempt (fj j) = j_attempt j" "\<And>k. \<not> flt k"
  shows "mark_stage flt ev i fj fa db = (Inr True,
      (set_attempt i (j_attempt j) fa (set_job i fj db))\<lparr>db_events := db_events db @ [(ev, i, j_attempt j)]\<rparr>)"
    "mark_stage_at flt ev i fj fa db = (Inr True,
      (set_attempt i (j_attempt j) fa (set_job i fj db))\<lparr>db_events := db_events db @ [(ev, i, j_attempt j)]\<rparr>)"
  using assms by (simp_all add: mark_stage_def mark_stage_at_def with_tx_def sql_def current_attempt_number_def)

lemma cond_pair_ok:
  assumes inv: "job_inv db" and j: "map_of (db_jobs db) i = Some j" and n: "n = j_attempt j"
    and Pj: "Pj j" and Pa: "\<And>a. agree j a \<Longrightarrow> Pa a" and ok: "\<And>k. \<not> flt k"
  shows "\<exists>db'. cond_pair flt i n Pj fj Pa fa db = (Inr True, db') \<and> map_of (db_jobs db') i = Some (fj j)"
proof -
  obtain a where a: "map_of (db_attempts db) (i, n) = Some a" and ag: "agree j a"
    unfolding n by (rule job_inv_current[OF inv j])
  have 1: "affected (\<lambda>k j. k = i \<and> Pj j) (db_jobs db) = 1"
    using affected_key[OF _ j, of Pj] Pj inv by (simp add: job_inv_def)
  have 2: "affected (\<lambda>k a. k = (i, n) \<and> Pa a) (db_attempts db) = 1"
    using affected_key[OF _ a, of Pa] Pa[OF ag] inv by (simp add: job_inv_def)
  show ?thesis
    unfolding cond_pair_def with_tx_def sql_def Let_def
    using 1 2 ok j Pj by (simp add: map_of_update_where)
qed

lemma claim_stage_ok:
  assumes inv: "job_inv db" and j: "map_of (db_jobs db) i = Some j" "c_stage j = sg" "c_state j = Queued"
    and keep: "j_attempt (fj j) = j_attempt j" and ok: "\<And>k. \<not> flt k"
  shows "\<exists>db'. claim_stage flt i sg fj fa db = (Inr True, db') \<and> map_of (db_jobs db') i = Some (fj j)"
proof -
  have 1: "affected (\<lambda>k j. k = i \<and> c_stage j = sg \<and> c_state j = Queued) (db_jobs db) = 1"
    using affected_key[OF _ j(1), of "\<lambda>j. c_stage j = sg \<and> c_state j = Queued"] j inv by (simp add: job_inv_def)
  show ?thesis
    unfolding claim_stage_def with_tx_def sql_def Let_def current_attempt_number_def
    using 1 ok j keep by (simp add: map_of_update_where)
qed

lemma in_build_backlog:
  assumes "map_of (db_jobs db) i = Some j" "c_stage j = Build" "c_state j = Queued" "c_run_path j = Some p"
    "due (c_retry_not_before j) now"
  shows "\<lparr>bt_job = i, bt_attempt = j_attempt j, bt_run_path = p, bt_deferrals = c_deferrals j\<rparr>
    \<in> set (list_queued_build_tasks now db)"
proof -
  have "(i, j) \<in> set (db_jobs db)" using assms(1) by (rule map_of_SomeD)
  then show ?thesis using assms(2-) by (force simp: list_queued_build_tasks_def str_of_def)
qed

lemma defer_build_ok:
  assumes inv: "job_inv db" and j: "map_of (db_jobs db) (bt_job t) = Some j" "c_stage j = Build" "c_state j = Running"
      "bt_attempt t = j_attempt j" "bt_deferrals t = c_deferrals j" "c_run_path j = Some (bt_run_path t)"
    and ok: "\<And>k. \<not> flt k"
  shows "\<exists>db' j'. defer_build cfg flt t next detail now retry db = (Retry_at (t\<lparr>bt_deferrals := next\<rparr>) retry, db') \<and>
    map_of (db_jobs db') (bt_job t) = Some j' \<and> c_stage j' = Build \<and> c_state j' = Queued \<and>
    t\<lparr>bt_deferrals := next\<rparr> \<in> set (list_queued_build_tasks retry db')"
proof -
  let ?fj = "\<lambda>j. j\<lparr>c_state := Queued, c_error := Some (trim_space detail), c_updated := now,
            c_build_started := None, c_retry_not_before := Some retry, c_deferrals := next\<rparr>"
  have "\<exists>db'. mark_build_deferred flt t next detail now retry db = (Inr True, db') \<and>
      map_of (db_jobs db') (bt_job t) = Some (?fj j)"
    unfolding mark_build_deferred_def
    by (rule cond_pair_ok[OF inv j(1)]) (use j(2-) ok in \<open>simp_all add: agree_def\<close>)
  then obtain db' where r: "mark_build_deferred flt t next detail now retry db = (Inr True, db')"
    and j': "map_of (db_jobs db') (bt_job t) = Some (?fj j)" by blast
  have "t\<lparr>bt_deferrals := next\<rparr> \<in> set (list_queued_build_tasks retry db')"
    using in_build_backlog[OF j', of "bt_run_path t" retry] j by (cases t) (simp add: due_def)
  then show ?thesis using r j' j by (simp add: defer_build_def)
qed

lemma step_outcomes_ok:
  assumes inv: "job_inv db" and j: "map_of (db_jobs db) i = Some j" and ok: "\<And>k. \<not> flt k"
  shows "job_inv (snd (record_attempt_step_outcomes flt i n s db)) \<and>
    map_of (db_jobs (snd (record_attempt_step_outcomes flt i n s db))) i = Some j"
  using store_step_inv[OF store_step.step_outcomes inv] step_columns_cases(1)[of flt i n s db] j by auto

lemma mark_failed_ok:
  assumes "map_of (db_jobs db) i = Some j" "\<And>k. \<not> flt k"
  shows "\<exists>j'. map_of (db_jobs (snd (mark_build_failed flt i p e now db))) i = Some j' \<and> c_stage j' = Done \<and> c_state j' = Failed"
    "\<exists>j'. map_of (db_jobs (snd (mark_seal_failed flt i p e now db))) i = Some j' \<and> c_stage j' = Done \<and> c_state j' = Failed"
    "\<exists>j'. map_of (db_jobs (snd (mark_publish_failed flt i p q e now db))) i = Some j' \<and> c_stage j' = Done \<and> c_state j' = Failed"
  using assms by (simp_all add: mark_build_failed_def mark_seal_failed_def mark_publish_failed_def Let_def mark_stage_ok)

lemma mark_blocked_ok:
  assumes inv: "job_inv db" and j: "map_of (db_jobs db) (bt_job t) = Some j" "c_stage j = Build" "c_state j = Running"
      "bt_attempt t = j_attempt j" "bt_deferrals t = c_deferrals j" and ok: "\<And>k. \<not> flt k"
  shows "\<exists>j'. map_of (db_jobs (snd (mark_build_blocked flt t e now db))) (bt_job t) = Some j' \<and> c_stage j' = Build \<and> c_state j' = Blocked"
proof -
  let ?fj = "\<lambda>j. j\<lparr>c_state := Blocked, c_error := Some (trim_space e), c_updated := now,
            c_build_started := None, c_retry_not_before := None\<rparr>"
  have "\<exists>db'. mark_build_blocked flt t e now db = (Inr True, db') \<and> map_of (db_jobs db') (bt_job t) = Some (?fj j)"
    unfolding mark_build_blocked_def
    by (rule cond_pair_ok[OF inv j(1)]) (use j(2-) ok in \<open>simp_all add: agree_def\<close>)
  then show ?thesis using j by auto
qed

text \<open>
  What a claimed build leaves of its job and hands on, by outcome, when the store's calls
  succeed: \<open>deletes\<close> says that the job's source media are deleted after processing.
\<close>

fun build_settled ::
  "worker_cfg \<Rightarrow> bool \<Rightarrow> bool \<Rightarrow> build_task \<Rightarrow> (int \<Rightarrow> time_str) \<Rightarrow> build_outcome
   \<Rightarrow> seal_task hand_off \<Rightarrow> db \<Rightarrow> job \<Rightarrow> bool" where
  "build_settled cfg deletes room t at (Built m st) h db j =
     (c_stage j = Seal \<and> c_state j = Queued \<and>
      h = offer room \<lparr>sl_job = bt_job t, sl_attempt = bt_attempt t, sl_meeting_path = m\<rparr>)"
| "build_settled cfg deletes room t at (Yielded (Some e)) h db j =
     (c_stage j = Done \<and> c_state j = Failed \<and> h = Idle)"
| "build_settled cfg deletes room t at (Yielded None) h db j =
     (c_stage j = Build \<and> c_state j = Queued \<and> h = Retry_at t (at 0) \<and>
      t \<in> set (list_queued_build_tasks (at 0) db))"
| "build_settled cfg deletes room t at (Build_failed p d) h db j =
     (c_stage j = Done \<and> c_state j = Failed \<and> h = Idle)"
| "build_settled cfg deletes room t at (Unavailable permanent awaits d p) h db j =
     (let next = bt_deferrals t + 1; retry = at (exponential_build_retry_delay (wc_retry_delay cfg) next) in
      if (permanent \<or> build_resource_deferral_limit cfg < next) \<and> \<not> (\<not> permanent \<and> awaits \<and> deletes)
      then h = Idle \<and> (if deletes then c_stage j = Done \<and> c_state j = Failed
                       else c_stage j = Build \<and> c_state j = Blocked)
      else c_stage j = Build \<and> c_state j = Queued \<and> h = Retry_at (t\<lparr>bt_deferrals := next\<rparr>) retry \<and>
           t\<lparr>bt_deferrals := next\<rparr> \<in> set (list_queued_build_tasks retry db))"


subsection \<open>From a built meeting to its publication\<close>

lemma in_seal_backlog:
  assumes "map_of (db_jobs db) i = Some j" "c_stage j = Seal" "c_state j = Queued"
    "map_of (db_attempts db) (i, j_attempt j) = Some a" "c_meeting_path a = Some m"
  shows "\<lparr>sl_job = i, sl_attempt = j_attempt j, sl_meeting_path = m\<rparr> \<in> set (list_queued_seal_tasks db)"
proof -
  have "(i, j) \<in> set (db_jobs db)" using assms(1) by (rule map_of_SomeD)
  then show ?thesis using assms(2-) by (force simp: list_queued_seal_tasks_def List.map_filter_def)
qed

lemma in_publish_backlog:
  assumes "map_of (db_jobs db) i = Some j" "c_stage j = Publish" "c_state j = Queued"
    "map_of (db_attempts db) (i, j_attempt j) = Some a" "c_opus_path a = Some p" "c_opus_sha256 a = Some d"
  shows "\<lparr>pt_job = i, pt_attempt = j_attempt j, pt_opus_path = p, pt_opus_sha256 = d\<rparr>
    \<in> set (list_queued_publish_tasks db)"
proof -
  have "(i, j) \<in> set (db_jobs db)" using assms(1) by (rule map_of_SomeD)
  then show ?thesis using assms(2-) by (force simp: list_queued_publish_tasks_def List.map_filter_def str_of_def)
qed

lemma seal_queued_ok:
  assumes inv: "job_inv db" and j: "map_of (db_jobs db) i = Some j" and ok: "\<And>k. \<not> flt k"
  shows "\<exists>db' j'. enqueue_seal_job flt (Inr ()) room i n p m now db =
      (Inr (offer room \<lparr>sl_job = i, sl_attempt = n, sl_meeting_path = m\<rparr>), db') \<and> job_inv db' \<and>
    map_of (db_jobs db') i = Some j' \<and> c_stage j' = Seal \<and> c_state j' = Queued \<and> j_attempt j' = j_attempt j \<and>
    \<lparr>sl_job = i, sl_attempt = j_attempt j, sl_meeting_path = m\<rparr> \<in> set (list_queued_seal_tasks db')"
proof -
  let ?fj = "\<lambda>j. j\<lparr>c_stage := Seal, c_state := Queued, c_updated := now, c_build_finished := Some now,
            c_seal_queued := Some now, c_completed := None, c_error := None\<rparr>"
  let ?fa = "\<lambda>a. a\<lparr>c_stage := Seal, c_state := Queued, c_meeting_path := Some m, c_updated := now,
            c_build_finished := Some now, c_seal_queued := Some now, c_completed := None, c_error := None\<rparr>"
  let ?db = "(set_attempt i (j_attempt j) ?fa (set_job i ?fj db))\<lparr>db_events := db_events db @ [(''job.updated'', i, j_attempt j)]\<rparr>"
  have r: "mark_seal_queued flt i p m now db = (Inr True, ?db)"
    using mark_stage_ok(1)[OF j, of ?fj flt] ok by (simp add: mark_seal_queued_def)
  have inv': "job_inv ?db"
    using store_step_inv[OF store_step.seal_queued inv, of flt i p m now] by (simp only: r snd_conv)
  obtain a where a: "map_of (db_attempts db) (i, j_attempt j) = Some a" by (rule job_inv_current[OF inv j])
  have "\<lparr>sl_job = i, sl_attempt = j_attempt (?fj j), sl_meeting_path = m\<rparr> \<in> set (list_queued_seal_tasks ?db)"
    by (rule in_seal_backlog[of _ _ "?fj j" "?fa a"]) (use j a in simp_all)
  then show ?thesis using inv' j by (simp add: enqueue_seal_job_def r)
qed

lemma run_seal_job_ok:
  assumes inv: "job_inv db" and j: "map_of (db_jobs db) (sl_job t) = Some j" "c_stage j = Seal" "c_state j = Queued"
      "sl_attempt t = j_attempt j" and ok: "\<And>k m. \<not> flt k m"
  shows "\<exists>db' j' a. run_seal_job cfg False flt room t started finished (Packed opus digest) db =
      (offer room \<lparr>pt_job = sl_job t, pt_attempt = sl_attempt t, pt_opus_path = opus, pt_opus_sha256 = digest\<rparr>, db') \<and>
    job_inv db' \<and> map_of (db_jobs db') (sl_job t) = Some j' \<and> c_stage j' = Publish \<and> c_state j' = Queued \<and>
    j_attempt j' = j_attempt j \<and>
    \<lparr>pt_job = sl_job t, pt_attempt = sl_attempt t, pt_opus_path = opus, pt_opus_sha256 = digest\<rparr>
      \<in> set (list_queued_publish_tasks db') \<and>
    map_of (db_attempts db') (sl_job t, sl_attempt t) = Some a \<and> c_opus_path a = Some opus \<and> c_opus_sha256 a = Some digest"
proof -
  let ?i = "sl_job t"
  let ?gj = "\<lambda>j. j\<lparr>c_state := Running, c_updated := started, c_seal_started := Some started\<rparr>"
  have "\<exists>db1. claim_seal_running (flt 0) ?i started db = (Inr True, db1) \<and> map_of (db_jobs db1) ?i = Some (?gj j)"
    unfolding claim_seal_running_def by (rule claim_stage_ok[OF inv]) (use j ok in simp_all)
  then obtain db1 where c: "claim_seal_running (flt 0) ?i started db = (Inr True, db1)"
    and j1: "map_of (db_jobs db1) ?i = Some (?gj j)" by blast
  have inv1: "job_inv db1" using store_step_inv[OF store_step.seal_claim inv, of "flt 0" ?i started] by (simp add: c)
  let ?fj = "\<lambda>j. j\<lparr>c_stage := Publish, c_state := Queued, c_updated := finished, c_seal_finished := Some finished,
            c_publish_queued := Some finished, c_completed := None, c_error := None\<rparr>"
  let ?fa = "\<lambda>a. a\<lparr>c_stage := Publish, c_state := Queued, c_opus_path := Some opus,
            c_opus_sha256 := Some digest, c_updated := finished, c_seal_finished := Some finished,
            c_publish_queued := Some finished, c_completed := None, c_error := None\<rparr>"
  let ?db = "(set_attempt ?i (j_attempt j) ?fa (set_job ?i ?fj db1))\<lparr>db_events := db_events db1 @ [(''job.updated'', ?i, j_attempt j)]\<rparr>"
  have r: "mark_seal_succeeded (flt 1) ?i opus opus digest finished db1 = (Inr True, ?db)"
    using mark_stage_ok(1)[OF j1, of ?fj "flt 1"] ok by (simp add: mark_seal_succeeded_def)
  have inv': "job_inv ?db"
    using store_step_inv[OF store_step.seal_done inv1, of "flt 1" ?i opus opus digest finished] by (simp only: r snd_conv)
  obtain a where a: "map_of (db_attempts db1) (?i, j_attempt (?gj j)) = Some a" by (rule job_inv_current[OF inv1 j1])
  have "\<lparr>pt_job = ?i, pt_attempt = j_attempt (?fj (?gj j)), pt_opus_path = opus, pt_opus_sha256 = digest\<rparr>
      \<in> set (list_queued_publish_tasks ?db)"
    by (rule in_publish_backlog[of _ _ "?fj (?gj j)" "?fa a"]) (use j1 a in simp_all)
  then show ?thesis
    using inv' j j1 a unfolding run_seal_job_def by (simp add: c enqueue_publish_after_seal_def r del: One_nat_def)
qed

lemma run_publish_job_ok:
  assumes inv: "job_inv db" and j: "map_of (db_jobs db) (pt_job t) = Some j" "c_stage j = Publish" "c_state j = Queued"
    and ok: "\<And>k m. \<not> flt k m"
  shows "\<exists>j'. map_of (db_jobs (run_publish_job False flt (Inr ()) t started finished outcome db)) (pt_job t) = Some j' \<and>
    c_stage j' = Done \<and> (case outcome of
      Delivered site location \<Rightarrow> c_state j' = Succeeded \<and> c_site_path j' = Some location
    | _ \<Rightarrow> c_state j' = Failed)"
proof -
  let ?i = "pt_job t"
  let ?gj = "\<lambda>j. j\<lparr>c_state := Running, c_updated := started, c_publish_started := Some started\<rparr>"
  let ?ga = "\<lambda>a. a\<lparr>c_stage := Publish, c_state := Running, c_updated := started, c_publish_started := Some started\<rparr>"
  have "\<exists>db1. claim_stage (flt 0) ?i Publish ?gj ?ga db = (Inr True, db1) \<and> map_of (db_jobs db1) ?i = Some (?gj j)"
    by (rule claim_stage_ok[OF inv]) (use j ok in simp_all)
  then obtain db1 where c: "claim_stage (flt 0) ?i Publish ?gj ?ga db = (Inr True, db1)"
    and j1: "map_of (db_jobs db1) ?i = Some (?gj j)" by blast
  then have m: "mark_publish_running (flt 0) ?i started db = (Inr (), db1)" by (simp add: mark_publish_running_def)
  have okk: "\<not> flt k n" for k n by (rule ok)
  show ?thesis
  proof (cases outcome)
    case (Delivered site location)
    then show ?thesis using j1 okk unfolding run_publish_job_def Delivered
      by (simp add: m mark_publish_succeeded_eq mark_stage_ok(1)[OF j1] del: One_nat_def)
  qed (use mark_failed_ok(3)[OF j1, of "flt 1"] okk in \<open>simp_all add: run_publish_job_def m del: One_nat_def\<close>)
qed

lemma run_build_job_built:
  assumes reach: "reachable ready db" and t: "t \<in> set (list_queued_build_tasks now db)"
    and clock: "now \<le> started" and ok: "\<And>k m. \<not> flt k m"
  shows "\<exists>db' j. run_build_job cfg False flt (Inr ()) room t started finished at (Built m steps) db =
      (offer room \<lparr>sl_job = bt_job t, sl_attempt = bt_attempt t, sl_meeting_path = m\<rparr>, db') \<and> job_inv db' \<and>
    map_of (db_jobs db') (bt_job t) = Some j \<and> c_stage j = Seal \<and> c_state j = Queued \<and> j_attempt j = bt_attempt t \<and>
    \<lparr>sl_job = bt_job t, sl_attempt = bt_attempt t, sl_meeting_path = m\<rparr> \<in> set (list_queued_seal_tasks db')"
proof -
  obtain j db1 where j: "bt_attempt t = j_attempt j"
    and c: "claim_build_running (flt 0) t started db = (Inr True, db1)"
    and j1: "map_of (db_jobs db1) (bt_job t) = Some (j\<lparr>c_state := Running, c_updated := started,
        c_build_started := Some started, c_retry_not_before := None, c_error := None\<rparr>)"
    using claim_build_ok[OF reach t clock, of "flt 0"] ok by blast
  have inv: "job_inv db1"
    using store_step_inv[OF store_step.build_claim reachable_inv[OF reach], of "flt 0" t started] by (simp add: c)
  define db2 where "db2 = (case steps of None \<Rightarrow> db1
      | Some s \<Rightarrow> snd (record_attempt_step_outcomes (flt 1) (bt_job t) (bt_attempt t) s db1))"
  have "job_inv db2 \<and> map_of (db_jobs db2) (bt_job t) = map_of (db_jobs db1) (bt_job t)"
    using step_outcomes_ok[OF inv j1, of "flt 1"] inv j1 ok by (auto simp: db2_def split: option.splits)
  then have inv2: "job_inv db2" and j2: "map_of (db_jobs db2) (bt_job t) = Some (j\<lparr>c_state := Running,
      c_updated := started, c_build_started := Some started, c_retry_not_before := None, c_error := None\<rparr>)"
    using j1 by simp_all
  obtain db' j' where e: "enqueue_seal_job (flt 2) (Inr ()) room (bt_job t) (bt_attempt t) m m finished db2 =
      (Inr (offer room \<lparr>sl_job = bt_job t, sl_attempt = bt_attempt t, sl_meeting_path = m\<rparr>), db')"
    "job_inv db'" "map_of (db_jobs db') (bt_job t) = Some j'" "c_stage j' = Seal" "c_state j' = Queued"
    "j_attempt j' = j_attempt j"
    "\<lparr>sl_job = bt_job t, sl_attempt = j_attempt j, sl_meeting_path = m\<rparr> \<in> set (list_queued_seal_tasks db')"
    using seal_queued_ok[OF inv2 j2, of "flt 2" room "bt_attempt t" m m finished] ok by auto
  show ?thesis unfolding run_build_job_def using e(2-)
    by (simp add: c db2_def[symmetric] e(1) j[symmetric] del: One_nat_def)
qed

text \<open>
  C15: the pipeline publishes what it sealed.  A queued build of a reachable state, built, sealed
  and delivered by workers whose store calls succeed, ends at done/succeeded with the delivered
  location; and the task each worker hands on, through a channel or not, is the task the next
  stage's durable backlog names: the build's own bundle, then the sealed artifact and its digest.
\<close>

theorem pipeline_publishes_sealed:
  assumes reach: "reachable ready db" and t: "t \<in> set (list_queued_build_tasks now db)"
    and clock: "now \<le> started" and ok: "\<And>k m. \<not> flt k m"
    and st: "st = \<lparr>sl_job = bt_job t, sl_attempt = bt_attempt t, sl_meeting_path = meeting\<rparr>"
    and pt: "pt = \<lparr>pt_job = bt_job t, pt_attempt = bt_attempt t, pt_opus_path = opus, pt_opus_sha256 = digest\<rparr>"
  shows "\<exists>db1 db2 j.
      run_build_job cfg False flt (Inr ()) r1 t started f1 at (Built meeting steps) db = (offer r1 st, db1)
    \<and> st \<in> set (list_queued_seal_tasks db1)
    \<and> run_seal_job cfg False flt r2 st s2 f2 (Packed opus digest) db1 = (offer r2 pt, db2)
    \<and> pt \<in> set (list_queued_publish_tasks db2)
    \<and> map_of (db_jobs (run_publish_job False flt (Inr ()) pt s3 f3 (Delivered site location) db2)) (bt_job t) = Some j
    \<and> c_stage j = Done \<and> c_state j = Succeeded \<and> c_site_path j = Some location"
proof -
  obtain db1 j1 where b: "run_build_job cfg False flt (Inr ()) r1 t started f1 at (Built meeting steps) db = (offer r1 st, db1)"
      "job_inv db1" "map_of (db_jobs db1) (sl_job st) = Some j1" "c_stage j1 = Seal" "c_state j1 = Queued"
      "sl_attempt st = j_attempt j1" "st \<in> set (list_queued_seal_tasks db1)"
    using run_build_job_built[OF reach t clock, of flt cfg r1 f1 at meeting steps] ok by (auto simp: st)
  obtain db2 j2 where s: "run_seal_job cfg False flt r2 st s2 f2 (Packed opus digest) db1 = (offer r2 pt, db2)"
      "job_inv db2" "map_of (db_jobs db2) (pt_job pt) = Some j2" "c_stage j2 = Publish" "c_state j2 = Queued"
      "pt \<in> set (list_queued_publish_tasks db2)"
    using run_seal_job_ok[OF b(2-6), of flt cfg r2 s2 f2 opus digest] ok by (auto simp: st pt)
  obtain j where "map_of (db_jobs (run_publish_job False flt (Inr ()) pt s3 f3 (Delivered site location) db2)) (pt_job pt) = Some j"
      "c_stage j = Done" "c_state j = Succeeded" "c_site_path j = Some location"
    using run_publish_job_ok[OF s(2-5), of flt s3 f3 "Delivered site location"] ok by auto
  with b s show ?thesis by (auto simp: pt)
qed

lemma mark_stage_row:
  "map_of (db_jobs (snd (mark_stage flt ev i fj fa db))) i \<in> {map_of (db_jobs db) i, map_option fj (map_of (db_jobs db) i)}"
  "map_of (db_jobs (snd (mark_stage_at flt ev i fj fa db))) i \<in> {map_of (db_jobs db) i, map_option fj (map_of (db_jobs db) i)}"
  by (auto simp: mark_stage_def mark_stage_at_def with_tx_def sql_def current_attempt_number_def
      split: option.splits)

lemma mark_stage_row_cases:
  "map_of (db_jobs (snd (mark_stage flt ev i fj fa db))) i = Some j' \<Longrightarrow>
     map_of (db_jobs db) i = Some j' \<or> (\<exists>j. j' = fj j)"
  "map_of (db_jobs (snd (mark_stage_at flt ev i fj fa db))) i = Some j' \<Longrightarrow>
     map_of (db_jobs db) i = Some j' \<or> (\<exists>j. j' = fj j)"
  using mark_stage_row[of flt ev i fj fa db] by (cases "map_of (db_jobs db) i"; auto)+

lemma claim_stage_row:
  assumes "map_of (db_jobs (snd (claim_stage flt i sg fj fa db))) i = Some j'"
  shows "\<exists>j. map_of (db_jobs db) i = Some j \<and> (j' = j \<or> j' = fj j)"
  using assms
  by (auto simp: claim_stage_def with_tx_def sql_def Let_def current_attempt_number_def map_of_update_where
      split: if_splits option.splits)

text \<open>
  C5: nothing is published that was not delivered.  Whatever store calls fail, the publish
  worker turns a job that had not succeeded into a succeeded one only after the sink accepted the
  meeting, and records the location the sink answered.
\<close>

theorem publish_needs_delivery:
  assumes j: "map_of (db_jobs db) (pt_job t) = Some j" "c_state j \<noteq> Succeeded"
    and j': "map_of (db_jobs (run_publish_job stop flt edits t started finished outcome db)) (pt_job t) = Some j'"
      "c_state j' = Succeeded"
  shows "\<exists>site location. outcome = Delivered site location \<and> c_site_path j' = Some location \<and> edits = Inr ()"
proof -
  obtain r db1 where m: "mark_publish_running (flt 0) (pt_job t) started db = (r, db1)"
    by (cases "mark_publish_running (flt 0) (pt_job t) started db")
  have db1: "db1 = snd (claim_stage (flt 0) (pt_job t) Publish
        (\<lambda>j. j\<lparr>c_state := Running, c_updated := started, c_publish_started := Some started\<rparr>)
        (\<lambda>a. a\<lparr>c_stage := Publish, c_state := Running, c_updated := started, c_publish_started := Some started\<rparr>) db)"
    using mark_publish_running_result(2)[of "flt 0" "pt_job t" started db] m by simp
  have n1: "c_state j1 \<noteq> Succeeded" if "map_of (db_jobs db1) (pt_job t) = Some j1" for j1
    using claim_stage_row that[unfolded db1] j by fastforce
  have failed: "c_state j2 \<noteq> Succeeded"
    if "map_of (db_jobs (snd (mark_publish_failed (flt 1) (pt_job t) [] site e finished db1))) (pt_job t) = Some j2" for j2 site e
  proof -
    have "map_of (db_jobs db1) (pt_job t) = Some j2 \<or> c_state j2 = Failed"
      using mark_stage_row_cases(2)[OF that[unfolded mark_publish_failed_def Let_def]] by auto
    then show ?thesis using n1 by auto
  qed
  show ?thesis
  proof (cases "stop \<or> (\<exists>e. r = Inl e)")
    case True
    then show ?thesis using j j' n1 by (auto simp: run_publish_job_def m split: if_splits)
  next
    case False
    then obtain u where r: "r = Inr u" "\<not> stop" by (cases r) auto
    show ?thesis
    proof (cases outcome)
      case (Delivered site location)
      have row: "map_of (db_jobs (snd (mark_publish_succeeded (flt 1) edits (pt_job t) location site finished db1))) (pt_job t) = Some j'"
        using j'(1) by (simp add: run_publish_job_def m r Delivered del: One_nat_def)
      obtain v where e: "edits = Inr v"
        using row n1 j'(2) by (cases edits) (auto simp: mark_publish_succeeded_eq)
      from row[unfolded mark_publish_succeeded_eq e sum.case] have "c_site_path j' = Some location"
        using mark_stage_row_cases(1) n1 j'(2) by fastforce
      then show ?thesis using Delivered e by auto
    qed (use j' failed in \<open>auto simp: run_publish_job_def m r simp del: One_nat_def\<close>)
  qed
qed

subsection \<open>A delivery that is lost\<close>

text \<open>The dispatcher's build passes in sequence, each over the store of its moment.\<close>

fun build_passes :: "((nat \<Rightarrow> bool) \<times> time_str \<times> db) list \<Rightarrow> string set \<Rightarrow> build_task list" where
  "build_passes [] sent = []"
| "build_passes ((room, now, db) # ps) sent =
     (let (sent', out, b) = dispatch_queued_build_tasks False room now db sent in out @ build_passes ps sent')"

lemma sent_stays:
  assumes "dispatch_queued_build_tasks False room now db sent = (sent', out, b)"
    and "t \<in> set (list_queued_build_tasks now db)" "build_key t \<in> sent"
  shows "build_key t \<in> sent' \<and> t \<notin> set out"
proof -
  obtain s1 where d: "dispatch_loop room build_key 0 (list_queued_build_tasks now db) sent = (s1, out, b)"
    and s': "sent' = s1 \<inter> build_key ` set (list_queued_build_tasks now db)"
    using assms(1) by (auto simp: dispatch_queued_build_tasks_def dispatch_queued_def prune_dispatched_def split: prod.splits)
  from dispatch_loop_spec[OF d] assms(2,3) show ?thesis unfolding s' by auto
qed

text \<open>
  a claim that fails strands its task.  When a task the dispatcher handed over meets a store
  error at its claim, the worker leaves the store as it was and drops the task; as long as the row
  stays queued, no later pass of the dispatcher hands it over again, however much room there is.
\<close>

theorem failed_claim_strands_task:
  assumes d: "dispatch_queued_build_tasks False room now db sent = (sent', out, b)" and t: "t \<in> set out"
    and claim: "fst (claim_build_running (flt 0) t started db) = Inl e"
    and queued: "\<And>r n db'. (r, n, db') \<in> set ps \<Longrightarrow> t \<in> set (list_queued_build_tasks n db')"
  shows "run_build_job cfg stop flt fmt r1 t started finished at outcome db = (Idle, db)
    \<and> t \<in> set (list_queued_build_tasks now db) \<and> t \<notin> set (build_passes ps sent')"
proof -
  obtain s1 where dl: "dispatch_loop room build_key 0 (list_queued_build_tasks now db) sent = (s1, out, b)"
    and s': "sent' = s1 \<inter> build_key ` set (list_queued_build_tasks now db)"
    using d by (auto simp: dispatch_queued_build_tasks_def dispatch_queued_def prune_dispatched_def split: prod.splits)
  have in1: "t \<in> set (list_queued_build_tasks now db)" and k: "build_key t \<in> sent'"
    using dispatch_loop_spec[OF dl] t unfolding s' by auto
  have "fst (claim_build_running (flt 0) t started db) \<noteq> Inr True" by (simp add: claim)
  then have "snd (claim_build_running (flt 0) t started db) = db"
    unfolding claim_build_running_def by (rule cond_pair_lost)
  then have c: "claim_build_running (flt 0) t started db = (Inl e, db)" using claim by (simp add: prod_eq_iff)
  have "t \<notin> set (build_passes ps s)" if "build_key t \<in> s" for s
    using queued that
  proof (induction ps arbitrary: s)
    case (Cons p ps)
    obtain r n db' where p: "p = (r, n, db')" by (cases p)
    obtain s' out' b' where q: "dispatch_queued_build_tasks False r n db' s = (s', out', b')"
      by (cases "dispatch_queued_build_tasks False r n db' s")
    have "t \<in> set (list_queued_build_tasks n db')" using Cons.prems(1)[of r n db'] by (simp add: p)
    note st = sent_stays[OF q this Cons.prems(2)]
    have "t \<notin> set (build_passes ps s')"
      by (rule Cons.IH) (use st Cons.prems(1) in \<open>auto simp: p\<close>)
    with st show ?case by (simp add: p q)
  qed simp
  with in1 k c show ?thesis by (simp add: run_build_job_def)
qed

subsection \<open>Witnesses\<close>

definition ex_task :: build_task where
  "ex_task = \<lparr>bt_job = ''j1'', bt_attempt = 1, bt_run_path = ''run'', bt_deferrals = 0\<rparr>"

definition ex_cfg :: worker_cfg where
  "ex_cfg = \<lparr>wc_max_deferrals = 0, wc_retry_delay = 0, wc_deletes = (\<lambda>_. False), wc_err_text = (\<lambda>_. [])\<rparr>"

lemma ex_task_queued: "list_queued_build_tasks ''1'' ex_building = [ex_task]"
  by (simp add: ex_rows ex_task_def)


lemma pipeline_publishes_sealed_witness:
  "\<exists>db1. run_build_job ex_cfg False (\<lambda>_. no_faults) (Inr ()) False ex_task ''2'' ''3'' (\<lambda>_. ''9'') (Built ''m'' None) ex_building =
     (Kicked \<lparr>sl_job = ''j1'', sl_attempt = 1, sl_meeting_path = ''m''\<rparr>, db1) \<and>
     \<lparr>sl_job = ''j1'', sl_attempt = 1, sl_meeting_path = ''m''\<rparr> \<in> set (list_queued_seal_tasks db1)"
proof -
  have 1: "ex_task \<in> set (list_queued_build_tasks ''1'' ex_building)" by (simp add: ex_task_queued)
  have 2: "''1'' \<le> ''2''" by code_simp
  have 3: "\<not> (\<lambda>_. no_faults) k m" for k m :: nat by (simp add: no_faults_def)
  show ?thesis
    using pipeline_publishes_sealed[where flt = "\<lambda>_. no_faults" and cfg = ex_cfg and ?r1.0 = False and ?f1.0 = "''3''"
        and at = "\<lambda>_. ''9''" and meeting = "''m''" and steps = None
        and ?r2.0 = True and ?s2.0 = "''4''" and ?f2.0 = "''5''" and opus = "''o''" and digest = "''d''"
        and ?s3.0 = "''6''" and ?f3.0 = "''7''" and site = "''s''" and location = "''l''", OF ex_reachable(2) 1 2 3 refl refl]
    by (auto simp: ex_task_def offer_def)
qed

definition ex_published :: db where
  "ex_published = run_publish_job False (\<lambda>_. no_faults) (Inr ())
     \<lparr>pt_job = ''j1'', pt_attempt = 1, pt_opus_path = ''o'', pt_opus_sha256 = ''ab''\<rparr> ''3'' ''4'' (Delivered ''s'' ''loc'') ex_sealed"

lemma publish_needs_delivery_witness:
  "\<exists>j'. map_of (db_jobs ex_published) ''j1'' = Some j' \<and> c_state j' = Succeeded \<and> c_site_path j' = Some ''loc''"
proof -
  have "map_option c_state (map_of (db_jobs ex_sealed) ''j1'') = Some Queued"
    "map_option c_state (map_of (db_jobs ex_published) ''j1'') = Some Succeeded" by code_simp+
  then obtain j j' where j: "map_of (db_jobs ex_sealed) ''j1'' = Some j" "c_state j = Queued"
    and j': "map_of (db_jobs ex_published) ''j1'' = Some j'" "c_state j' = Succeeded" by auto
  show ?thesis
    using publish_needs_delivery[of ex_sealed "\<lparr>pt_job = ''j1'', pt_attempt = 1, pt_opus_path = ''o'', pt_opus_sha256 = ''ab''\<rparr>"
        j False "\<lambda>_. no_faults" "Inr ()" "''3''" "''4''" "Delivered ''s'' ''loc''" j'] j j'
    by (simp add: ex_published_def)
qed

lemma failed_claim_strands_task_witness:
  "run_build_job ex_cfg False (\<lambda>_ k. k = 1) (Inr ()) True ex_task ''2'' ''3'' (\<lambda>_. ''9'') (Built ''m'' None) ex_building = (Idle, ex_building)
   \<and> ex_task \<notin> set (build_passes [(\<lambda>_. True, ''1'', ex_building), (\<lambda>_. True, ''1'', ex_building)] {build_key ex_task})"
proof -
  have d: "dispatch_queued_build_tasks False (\<lambda>_. True) ''1'' ex_building {} = ({build_key ex_task}, [ex_task], False)"
    by (simp add: dispatch_queued_build_tasks_def dispatch_queued_def ex_task_queued prune_dispatched_def)
  have c: "fst (claim_build_running (\<lambda>k. k = 1) ex_task ''2'' ex_building) = Inl SqlError"
    by (simp add: claim_build_running_def cond_pair_def with_tx_def sql_def)
  show ?thesis
    using failed_claim_strands_task[OF d, of ex_task "\<lambda>_ k. k = 1" "''2''" SqlError
        "[(\<lambda>_. True, ''1'', ex_building), (\<lambda>_. True, ''1'', ex_building)]" ex_cfg False "Inr ()" True "''3''"
        "\<lambda>_. ''9''" "Built ''m'' None"] c
    by (auto simp: ex_task_queued)
qed

end
