(* ===== verification/Transcript_Segments.thy ===== *)
theory Transcript_Segments
  imports Go_Strings "HOL-Library.Signed_Division"
begin

text \<open>
  The transcript of a meeting (\<open>internal/transcribe/format.go\<close> of the recorder): words and
  segments, the grouping loop that \<open>AssembleSegments\<close> and \<open>MergeAndSortSegments\<close> share, the
  insertion sort, the contract \<open>ValidateSegments\<close> enforces, and the documents written from
  the segments (\<open>transcript.words.v1.json\<close> before JSON encoding, \<open>captions.vtt\<close>).
  The locale \<open>flush_loop\<close> states the grouping loop on its break rule alone; its two
  interpretations are the two functions.  \<open>int64\<close> milliseconds are \<open>int\<close>; the one
  subtraction of the loops wraps.
\<close>


subsection \<open>Words and segments\<close>

text \<open>A \<open>float64\<close> that is only copied is its bit pattern.\<close>

record stt_word =
  w_text :: string
  w_start_ms :: int
  w_end_ms :: int
  w_gap_db :: "64 word"
  w_has_gap :: bool
  w_low_confidence :: bool
  w_extent_cap :: int

text \<open>
  Times for which no difference leaves \<open>int64\<close>: about 73 million years of milliseconds.
\<close>

definition small_ms :: "int \<Rightarrow> bool" where
  "small_ms x \<longleftrightarrow> - (2 ^ 61) \<le> x \<and> x \<le> 2 ^ 61"

definition small_word :: "stt_word \<Rightarrow> bool" where
  "small_word w \<longleftrightarrow> small_ms (w_start_ms w) \<and> small_ms (w_end_ms w)"

lemma small_diff: "small_ms a \<Longrightarrow> small_ms b \<Longrightarrow> wrap64 (a - b) = a - b"
  by (rule wrap64_id) (simp add: in_i64_def min_i64_def max_i64_def small_ms_def)

record segment =
  sg_speaker :: string
  sg_start_ms :: int
  sg_end_ms :: int
  sg_text :: string
  sg_words :: "stt_word list"

record audio_stream =
  as_index :: int
  as_speaker_id :: string
  as_speaker_label :: string

fun join_strings :: "string \<Rightarrow> string list \<Rightarrow> string" where
  "join_strings sep [] = []"
| "join_strings sep [x] = x"
| "join_strings sep (x # y # xs) = x @ sep @ join_strings sep (y # xs)"

definition words_to_text :: "stt_word list \<Rightarrow> string" where
  "words_to_text ws = join_strings '' '' (map w_text ws)"

definition default_segment_gap_threshold_ms :: int where "default_segment_gap_threshold_ms = 1500"
definition default_segment_max_words :: int where "default_segment_max_words = 60"

subsection \<open>The grouping loop\<close>

text \<open>
  The variables both loops keep: the segments emitted so far, and the speaker, the words and
  the bounds of the group being collected.
\<close>

record group_st =
  g_segs :: "segment list"
  g_speaker :: string
  g_cur :: "stt_word list"
  g_start_ms :: int
  g_end_ms :: int

definition flush_group :: "group_st \<Rightarrow> group_st" where
  "flush_group st =
     (if g_cur st = [] then st
      else st\<lparr>g_segs := g_segs st @ [\<lparr>sg_speaker = g_speaker st, sg_start_ms = g_start_ms st,
                sg_end_ms = g_end_ms st, sg_text = words_to_text (g_cur st), sg_words = g_cur st\<rparr>],
              g_cur := [], g_start_ms := 0, g_end_ms := 0\<rparr>)"

definition extend_group :: "string \<Rightarrow> stt_word \<Rightarrow> group_st \<Rightarrow> group_st" where
  "extend_group speaker w st =
     (if g_cur st = []
      then st\<lparr>g_speaker := speaker, g_start_ms := w_start_ms w, g_end_ms := w_end_ms w, g_cur := [w]\<rparr>
      else st\<lparr>g_start_ms := (if w_start_ms w < g_start_ms st then w_start_ms w else g_start_ms st),
              g_end_ms := (if w_end_ms w > g_end_ms st then w_end_ms w else g_end_ms st),
              g_cur := g_cur st @ [w]\<rparr>)"

definition init_group :: "string \<Rightarrow> group_st" where
  "init_group speaker = \<lparr>g_segs = [], g_speaker = speaker, g_cur = [], g_start_ms = 0, g_end_ms = 0\<rparr>"

text \<open>\<open>AssembleSegments\<close>: one speaker's words, the caller's limits.\<close>

definition assemble_breaks :: "int \<Rightarrow> int \<Rightarrow> string \<Rightarrow> int \<Rightarrow> nat \<Rightarrow> stt_word \<Rightarrow> bool" where
  "assemble_breaks gap_threshold max_words speaker end_ms n w \<longleftrightarrow>
     wrap64 (w_start_ms w - end_ms) > gap_threshold \<or> int n \<ge> max_words"

definition assemble_step :: "string \<Rightarrow> int \<Rightarrow> int \<Rightarrow> group_st \<Rightarrow> stt_word \<Rightarrow> group_st" where
  "assemble_step speaker gap_threshold max_words st w =
     extend_group speaker w
       (if g_cur st \<noteq> [] \<and> assemble_breaks gap_threshold max_words (g_speaker st) (g_end_ms st) (length (g_cur st)) w
        then flush_group st else st)"

definition effective_gap :: "int \<Rightarrow> int" where
  "effective_gap g = (if g \<le> 0 then default_segment_gap_threshold_ms else g)"

definition effective_max_words :: "int \<Rightarrow> int" where
  "effective_max_words n = (if n \<le> 0 then default_segment_max_words else n)"

definition assemble_segments :: "string \<Rightarrow> stt_word list \<Rightarrow> int \<Rightarrow> int \<Rightarrow> segment list" where
  "assemble_segments speaker ws gap_threshold max_words =
     g_segs (flush_group (foldl (assemble_step speaker (effective_gap gap_threshold) (effective_max_words max_words))
       (init_group speaker) ws))"

text \<open>
  \<open>sortSegments\<close>, the in-place insertion sort: the sorted prefix is kept reversed, and the
  inner loop moves the new segment back past every later start.
\<close>

fun sift_segment :: "segment \<Rightarrow> segment list \<Rightarrow> segment list" where
  "sift_segment x [] = [x]"
| "sift_segment x (p # ps) = (if sg_start_ms x < sg_start_ms p then p # sift_segment x ps else x # p # ps)"

definition sort_segments :: "segment list \<Rightarrow> segment list" where
  "sort_segments segs = rev (foldl (\<lambda>acc x. sift_segment x acc) [] segs)"

text \<open>\<open>MergeAndSortSegments\<close>: every speaker's words in time order.\<close>

type_synonym attributed = "string \<times> stt_word"

definition segment_words :: "segment \<Rightarrow> attributed list" where
  "segment_words s = map (Pair (sg_speaker s)) (sg_words s)"

definition merge_words :: "segment list list \<Rightarrow> attributed list" where
  "merge_words per_speaker = concat (map segment_words (concat per_speaker))"

definition merge_wordless :: "segment list list \<Rightarrow> segment list" where
  "merge_wordless per_speaker = filter (\<lambda>s. sg_words s = []) (concat per_speaker)"

definition sort_words :: "attributed list \<Rightarrow> attributed list" where
  "sort_words ws = sort_key (\<lambda>(_, w). w_start_ms w) ws"

definition merge_breaks :: "string \<Rightarrow> int \<Rightarrow> nat \<Rightarrow> attributed \<Rightarrow> bool" where
  "merge_breaks speaker end_ms n a \<longleftrightarrow>
     fst a \<noteq> speaker \<or> wrap64 (w_start_ms (snd a) - end_ms) > default_segment_gap_threshold_ms
     \<or> int n \<ge> default_segment_max_words"

definition merge_step :: "group_st \<Rightarrow> attributed \<Rightarrow> group_st" where
  "merge_step st a =
     extend_group (fst a) (snd a)
       (if g_cur st \<noteq> [] \<and> merge_breaks (g_speaker st) (g_end_ms st) (length (g_cur st)) a
        then flush_group st else st)"

definition merge_groups :: "attributed list \<Rightarrow> segment list" where
  "merge_groups ws = g_segs (flush_group (foldl merge_step (init_group []) ws))"

definition merge_and_sort_segments :: "segment list list \<Rightarrow> segment list" where
  "merge_and_sort_segments per_speaker =
     sort_segments (merge_groups (sort_words (merge_words per_speaker)) @ merge_wordless per_speaker)"

subsection \<open>The transcript contract\<close>

datatype seg_err =
    SegOrder nat int int
  | WordOrder nat nat string int int
  | WordBounds nat nat string int int int int

fun validate_words :: "nat \<Rightarrow> segment \<Rightarrow> nat \<Rightarrow> stt_word list \<Rightarrow> (seg_err, unit) res" where
  "validate_words i s j [] = Inr ()"
| "validate_words i s j (w # ws) =
     (if w_start_ms w > w_end_ms w then Inl (WordOrder i j (w_text w) (w_start_ms w) (w_end_ms w))
      else if w_start_ms w < sg_start_ms s \<or> w_end_ms w > sg_end_ms s
      then Inl (WordBounds i j (w_text w) (sg_start_ms s) (sg_end_ms s) (w_start_ms w) (w_end_ms w))
      else validate_words i s (Suc j) ws)"

fun validate_from :: "nat \<Rightarrow> segment list \<Rightarrow> (seg_err, unit) res" where
  "validate_from i [] = Inr ()"
| "validate_from i (s # ss) =
     (if sg_start_ms s > sg_end_ms s then Inl (SegOrder i (sg_start_ms s) (sg_end_ms s))
      else bind_r (validate_words i s 0 (sg_words s)) (\<lambda>_. validate_from (Suc i) ss))"

definition validate_segments :: "segment list \<Rightarrow> (seg_err, unit) res" where
  "validate_segments segs = validate_from 0 segs"

definition count_words :: "segment list \<Rightarrow> nat" where
  "count_words segs = foldl (\<lambda>n s. n + length (sg_words s)) 0 segs"

definition duration_ms_from_segments :: "segment list \<Rightarrow> int" where
  "duration_ms_from_segments segs = foldl (\<lambda>m s. if sg_end_ms s > m then sg_end_ms s else m) 0 segs"

subsection \<open>What a grouped segment is\<close>

text \<open>
  A tight segment carries exactly its words' text and bounds; it is unbroken when no break was due
  inside it.
\<close>

definition earliest_start :: "stt_word list \<Rightarrow> int" where
  "earliest_start ws = Min (set (map w_start_ms ws))"

definition latest_end :: "stt_word list \<Rightarrow> int" where
  "latest_end ws = Max (set (map w_end_ms ws))"

definition tight :: "segment \<Rightarrow> bool" where
  "tight s \<longleftrightarrow> sg_words s \<noteq> [] \<and> sg_text s = words_to_text (sg_words s)
     \<and> sg_start_ms s = earliest_start (sg_words s) \<and> sg_end_ms s = latest_end (sg_words s)"

lemma bounds_single [simp]:
  "earliest_start [w] = w_start_ms w" "latest_end [w] = w_end_ms w"
  by (simp_all add: earliest_start_def latest_end_def)

lemma earliest_start_snoc: "ws \<noteq> [] \<Longrightarrow> earliest_start (ws @ [w]) = min (earliest_start ws) (w_start_ms w)"
  by (simp add: earliest_start_def Min_insert min.commute)

lemma latest_end_snoc: "ws \<noteq> [] \<Longrightarrow> latest_end (ws @ [w]) = max (latest_end ws) (w_end_ms w)"
  by (simp add: latest_end_def Max_insert max.commute)

lemma earliest_start_le: "w \<in> set ws \<Longrightarrow> earliest_start ws \<le> w_start_ms w"
  by (simp add: earliest_start_def)

lemma latest_end_ge: "w \<in> set ws \<Longrightarrow> w_end_ms w \<le> latest_end ws"
  by (simp add: latest_end_def)

lemma earliest_start_mem: "ws \<noteq> [] \<Longrightarrow> \<exists>w\<in>set ws. earliest_start ws = w_start_ms w"
proof -
  assume "ws \<noteq> []"
  then have "Min (w_start_ms ` set ws) \<in> w_start_ms ` set ws" by (intro Min_in) auto
  then show ?thesis by (auto simp: earliest_start_def)
qed

definition all_units :: "segment list \<Rightarrow> attributed list" where
  "all_units segs = concat (map segment_words segs)"

lemma all_units_simps [simp]:
  "all_units [] = []"
  "all_units (s # ss) = segment_words s @ all_units ss"
  "all_units (ss @ ts) = all_units ss @ all_units ts"
  by (simp_all add: all_units_def)

text \<open>
  The loop both functions run.  Its laws are on the break rule alone: \<open>item\<close> says which speaker
  and word an element stands for, \<open>spk_ok\<close> is what holds of the running group's speaker.
\<close>

locale flush_loop =
  fixes step :: "group_st \<Rightarrow> 'a \<Rightarrow> group_st"
    and brk :: "string \<Rightarrow> int \<Rightarrow> nat \<Rightarrow> 'a \<Rightarrow> bool"
    and item :: "'a \<Rightarrow> attributed"
    and spk_ok :: "string \<Rightarrow> bool"
  assumes step_eq: "step st a = extend_group (fst (item a)) (snd (item a))
      (if g_cur st \<noteq> [] \<and> brk (g_speaker st) (g_end_ms st) (length (g_cur st)) a then flush_group st else st)"
    and brk_speaker: "spk_ok spk \<Longrightarrow> fst (item a) \<noteq> spk \<Longrightarrow> brk spk e n a"
    and item_ok: "spk_ok (fst (item a))"
begin

definition unbroken :: "segment \<Rightarrow> bool" where
  "unbroken s \<longleftrightarrow> (\<exists>as. map item as = segment_words s
     \<and> (\<forall>i. 0 < i \<longrightarrow> i < length as \<longrightarrow>
          \<not> brk (sg_speaker s) (latest_end (take i (sg_words s))) i (as ! i)))"

definition broken :: "segment \<Rightarrow> segment \<Rightarrow> bool" where
  "broken s t \<longleftrightarrow> (\<exists>a. item a = hd (segment_words t) \<and> brk (sg_speaker s) (sg_end_ms s) (length (sg_words s)) a)"

definition collected :: "string \<Rightarrow> stt_word list \<Rightarrow> segment" where
  "collected spk ws = \<lparr>sg_speaker = spk, sg_start_ms = 0, sg_end_ms = 0, sg_text = [], sg_words = ws\<rparr>"

definition group_inv :: "'a list \<Rightarrow> group_st \<Rightarrow> bool" where
  "group_inv as st \<longleftrightarrow>
     all_units (g_segs st) @ map (Pair (g_speaker st)) (g_cur st) = map item as
     \<and> (\<forall>s\<in>set (g_segs st). tight s \<and> unbroken s)
     \<and> successively broken (g_segs st)
     \<and> (g_cur st \<noteq> [] \<longrightarrow> spk_ok (g_speaker st)
         \<and> g_start_ms st = earliest_start (g_cur st)
         \<and> g_end_ms st = latest_end (g_cur st)
         \<and> unbroken (collected (g_speaker st) (g_cur st))
         \<and> (g_segs st \<noteq> [] \<longrightarrow> broken (last (g_segs st)) (collected (g_speaker st) (g_cur st))))"

lemma unbroken_collected: "unbroken s \<longleftrightarrow> unbroken (collected (sg_speaker s) (sg_words s))"
  by (simp add: unbroken_def segment_words_def collected_def)

lemma broken_collected: "broken u s \<longleftrightarrow> broken u (collected (sg_speaker s) (sg_words s))"
  by (simp add: broken_def segment_words_def collected_def)

lemma group_invD:
  assumes "group_inv as st" and "g_cur st \<noteq> []"
  shows "spk_ok (g_speaker st)" and "g_start_ms st = earliest_start (g_cur st)"
    and "g_end_ms st = latest_end (g_cur st)" and "unbroken (collected (g_speaker st) (g_cur st))"
    and "g_segs st \<noteq> [] \<Longrightarrow> broken (last (g_segs st)) (collected (g_speaker st) (g_cur st))"
  using assms by (simp_all add: group_inv_def)

lemma flush_inv:
  assumes "group_inv as st"
  shows "group_inv as (flush_group st) \<and> g_cur (flush_group st) = []"
proof (cases "g_cur st = []")
  case True
  with assms show ?thesis by (simp add: flush_group_def)
next
  case False
  note g = group_invD[OF assms False]
  define s where "s = \<lparr>sg_speaker = g_speaker st, sg_start_ms = g_start_ms st, sg_end_ms = g_end_ms st,
    sg_text = words_to_text (g_cur st), sg_words = g_cur st\<rparr>"
  have sp: "sg_speaker s = g_speaker st" "sg_words s = g_cur st" by (simp_all add: s_def)
  have u: "unbroken s" using g(4) by (subst unbroken_collected) (simp add: sp)
  have b: "g_segs st \<noteq> [] \<Longrightarrow> broken (last (g_segs st)) s"
    using g(5) by (subst broken_collected) (simp add: sp)
  have t: "tight s" using False g(2,3) by (simp add: s_def tight_def)
  have w: "segment_words s = map (Pair (g_speaker st)) (g_cur st)" by (simp add: segment_words_def sp)
  have f: "flush_group st = st\<lparr>g_segs := g_segs st @ [s], g_cur := [], g_start_ms := 0, g_end_ms := 0\<rparr>"
    using False by (simp add: flush_group_def s_def)
  have "successively broken (g_segs st @ [s])"
    using assms b by (auto simp: group_inv_def successively_append_iff)
  with assms u t w show ?thesis unfolding f by (simp add: group_inv_def)
qed

lemma unbroken_single: "item a = (spk, w) \<Longrightarrow> unbroken (collected spk [w])"
  unfolding unbroken_def collected_def by (rule exI[of _ "[a]"]) (auto simp: segment_words_def)

lemma unbroken_snoc:
  assumes "unbroken (collected spk ws)"
    and "item a = (spk, w)" and "\<not> brk spk (latest_end ws) (length ws) a"
  shows "unbroken (collected spk (ws @ [w]))"
proof -
  from assms(1) obtain as where as: "map item as = map (Pair spk) ws"
    and nb: "\<And>i. 0 < i \<Longrightarrow> i < length as \<Longrightarrow> \<not> brk spk (latest_end (take i ws)) i (as ! i)"
    by (auto simp: unbroken_def segment_words_def collected_def)
  have len: "length as = length ws" using as by (metis length_map)
  show ?thesis unfolding unbroken_def
    by (rule exI[of _ "as @ [a]"])
      (use as nb len assms(2,3) in \<open>auto simp: segment_words_def collected_def nth_append less_Suc_eq\<close>)
qed

lemma start_inv:
  assumes inv: "group_inv as st" and cur: "g_cur st = []" and it: "item a = (spk, w)"
    and br: "g_segs st \<noteq> [] \<Longrightarrow> brk (sg_speaker (last (g_segs st))) (sg_end_ms (last (g_segs st)))
        (length (sg_words (last (g_segs st)))) a"
  shows "group_inv (as @ [a]) (extend_group spk w st)"
proof -
  have "g_segs st \<noteq> [] \<Longrightarrow> broken (last (g_segs st)) (collected spk [w])"
    unfolding broken_def by (rule exI[of _ a]) (simp add: br it collected_def segment_words_def)
  with inv cur it item_ok[of a] unbroken_single[OF it] show ?thesis
    by (simp add: group_inv_def extend_group_def)
qed

lemma step_inv:
  assumes inv: "group_inv as st" and first: "g_cur st = [] \<Longrightarrow> g_segs st = []"
  shows "group_inv (as @ [a]) (step st a) \<and> g_cur (step st a) \<noteq> []"
proof -
  obtain spk w where it: "item a = (spk, w)" by (cases "item a")
  have ne: "g_cur (step st a) \<noteq> []" by (simp add: step_eq extend_group_def)
  have "group_inv (as @ [a]) (step st a)"
  proof (cases "g_cur st \<noteq> [] \<and> brk (g_speaker st) (g_end_ms st) (length (g_cur st)) a")
    case True
    then have st: "step st a = extend_group spk w (flush_group st)" by (simp add: step_eq it)
    from flush_inv[OF inv] True show ?thesis unfolding st
      by (intro start_inv[OF _ _ it]) (auto simp: flush_group_def)
  next
    case nb: False
    then have st: "step st a = extend_group spk w st" by (auto simp: step_eq it)
    show ?thesis
    proof (cases "g_cur st = []")
      case True
      with first start_inv[OF inv True it] show ?thesis by (simp add: st)
    next
      case False
      note g = group_invD[OF inv False]
      from nb False brk_speaker[OF g(1), of a] have spk: "spk = g_speaker st" by (auto simp: it)
      have "unbroken (collected spk (g_cur st @ [w]))"
        using g(3,4) nb False it by (intro unbroken_snoc[where a = a]) (auto simp: spk)
      moreover have "g_segs st \<noteq> [] \<Longrightarrow> broken (last (g_segs st)) (collected spk (g_cur st @ [w]))"
        using g(5) False by (simp add: broken_def segment_words_def collected_def spk)
      moreover have "g_start_ms (extend_group spk w st) = earliest_start (g_cur st @ [w])"
        "g_end_ms (extend_group spk w st) = latest_end (g_cur st @ [w])"
        using False g(2,3)
        by (auto simp: extend_group_def earliest_start_snoc latest_end_snoc)
      ultimately show ?thesis
        unfolding st using inv False it g(1) by (simp add: group_inv_def extend_group_def spk)
    qed
  qed
  with ne show ?thesis by simp
qed

lemma loop_inv:
  "group_inv as (foldl step (init_group spk) as) \<and>
    (g_cur (foldl step (init_group spk) as) = [] \<longrightarrow> g_segs (foldl step (init_group spk) as) = [])"
proof (induction as rule: rev_induct)
  case Nil
  then show ?case by (simp add: init_group_def group_inv_def)
next
  case (snoc a as)
  with step_inv[of as "foldl step (init_group spk) as" a] show ?case by simp
qed

lemma groups_exact:
  assumes "out = g_segs (flush_group (foldl step (init_group spk) as))"
  shows "all_units out = map item as \<and> (\<forall>s\<in>set out. tight s \<and> unbroken s) \<and> successively broken out"
proof -
  define st where "st = flush_group (foldl step (init_group spk) as)"
  have "group_inv as st" and "g_cur st = []"
    using flush_inv[OF conjunct1[OF loop_inv]] unfolding st_def by blast+
  moreover have "out = g_segs st" using assms by (simp add: st_def)
  ultimately show ?thesis by (simp add: group_inv_def)
qed

end

lemma map_Pair_eq: "map (Pair x) as = map (Pair y) bs \<Longrightarrow> as = bs"
  by (induction as arbitrary: bs) (auto simp: Cons_eq_map_conv)

interpretation assemble_loop: flush_loop "assemble_step speaker gap max_words" "assemble_breaks gap max_words"
  "Pair speaker" "\<lambda>s. s = speaker" for speaker gap max_words
  by unfold_locales (simp_all add: assemble_step_def)

interpretation merge_loop: flush_loop merge_step merge_breaks "\<lambda>a. a" "\<lambda>_. True"
  by unfold_locales (simp_all add: merge_step_def merge_breaks_def)

lemma merge_groups_exact:
  "all_units (merge_groups ws) = ws \<and> (\<forall>s\<in>set (merge_groups ws). tight s \<and> merge_loop.unbroken s)"
  using merge_loop.groups_exact[of "merge_groups ws" "[]" ws] by (simp add: merge_groups_def)

lemma unbroken_length: "merge_loop.unbroken s \<Longrightarrow> length (sg_words s) \<le> 60"
proof (rule ccontr)
  assume u: "merge_loop.unbroken s" and "\<not> length (sg_words s) \<le> 60"
  then have l: "60 < length (segment_words s)" by (simp add: segment_words_def)
  with u have "\<not> merge_breaks (sg_speaker s) (latest_end (take 60 (sg_words s))) 60 (segment_words s ! 60)"
    by (auto simp: merge_loop.unbroken_def)
  then show False by (simp add: merge_breaks_def default_segment_max_words_def)
qed

lemma sift_segment_mset: "mset (sift_segment x ps) = add_mset x (mset ps)"
  by (induction ps) auto

lemma sift_segment_set: "set (sift_segment x ps) = insert x (set ps)"
  by (induction ps) auto

lemma sift_segment_sorted:
  "sorted_wrt (\<lambda>s t. sg_start_ms t \<le> sg_start_ms s) ps \<Longrightarrow>
   sorted_wrt (\<lambda>s t. sg_start_ms t \<le> sg_start_ms s) (sift_segment x ps)"
  by (induction ps) (auto simp: sift_segment_set intro: order_trans)

lemma sift_segment_stable:
  "filter (\<lambda>s. sg_start_ms s = k) (sift_segment x ps) = filter (\<lambda>s. sg_start_ms s = k) (x # ps)"
  by (induction ps) auto

lemma sort_segments_eq: "sort_segments segs = sort_key sg_start_ms segs"
proof -
  let ?f = "foldl (\<lambda>acc x. sift_segment x acc) []"
  have m: "mset (?f xs) = mset xs" for xs
    by (induction xs rule: rev_induct) (simp_all add: sift_segment_mset)
  have s: "sorted_wrt (\<lambda>s t. sg_start_ms t \<le> sg_start_ms s) (?f xs)" for xs
    by (induction xs rule: rev_induct) (simp_all add: sift_segment_sorted)
  have f: "filter (\<lambda>s. sg_start_ms s = k) (?f xs) = rev (filter (\<lambda>s. sg_start_ms s = k) xs)" for k xs
    by (induction xs rule: rev_induct) (simp_all add: sift_segment_stable)
  have "sort_key sg_start_ms segs = rev (?f segs)"
  proof (rule properties_for_sort_key)
    show "mset (rev (?f segs)) = mset segs" by (simp add: m)
    show "sorted (map sg_start_ms (rev (?f segs)))"
      using s[of segs] by (simp add: sorted_wrt_map sorted_wrt_rev)
    show "filter (\<lambda>x. sg_start_ms k = sg_start_ms x) (rev (?f segs)) = filter (\<lambda>x. sg_start_ms k = sg_start_ms x) segs" for k
      using arg_cong[OF f[of "sg_start_ms k" segs], of rev] by (simp add: rev_filter[symmetric] eq_commute)
  qed
  then show ?thesis by (simp add: sort_segments_def)
qed

interpretation segment_order: stable_sorter sort_segments sg_start_ms
  by unfold_locales (rule sort_segments_eq)

interpretation word_order: stable_sorter sort_words "\<lambda>(_, w). w_start_ms w"
  by unfold_locales (simp add: sort_words_def)

lemma tight_sorted:
  assumes "sorted (map (\<lambda>(_, w). w_start_ms w) (all_units segs))" and "\<forall>s\<in>set segs. tight s"
  shows "sorted (map sg_start_ms segs)"
  using assms
proof (induction segs)
  case (Cons s segs)
  have "sg_start_ms s \<le> sg_start_ms t" if "t \<in> set segs" for t
  proof -
    have "tight s" "tight t" using Cons.prems that by auto
    then obtain v w where v: "v \<in> set (sg_words s)" and w: "w \<in> set (sg_words t)" "sg_start_ms t = w_start_ms w"
      using earliest_start_mem[of "sg_words t"] by (fastforce simp: tight_def neq_Nil_conv)
    have "w_start_ms v \<le> w_start_ms w"
      using Cons.prems(1) v w(1) that
      by (fastforce simp: sorted_append all_units_def segment_words_def)
    moreover have "sg_start_ms s \<le> w_start_ms v"
      using \<open>tight s\<close> v by (simp add: tight_def earliest_start_le)
    ultimately show ?thesis using w(2) by simp
  qed
  with Cons show ?case by (simp add: sorted_append)
qed simp

lemma all_units_wordless: "all_units (filter (\<lambda>s. sg_words s \<noteq> []) segs) = all_units segs"
  by (induction segs) (auto simp: segment_words_def)

lemma merge_parts:
  assumes "out = merge_and_sort_segments per"
  shows "filter (\<lambda>s. sg_words s \<noteq> []) out = merge_groups (sort_words (merge_words per))"
    and "filter (\<lambda>s. sg_words s = []) out = sort_segments (merge_wordless per)"
    and "sorted (map sg_start_ms out)"
    and "mset out = mset (merge_groups (sort_words (merge_words per))) + mset (merge_wordless per)"
proof -
  let ?g = "merge_groups (sort_words (merge_words per))"
  note g = merge_groups_exact[of "sort_words (merge_words per)"]
  have sorted: "sorted (map sg_start_ms ?g)"
    using g word_order.srt_sorted[of "merge_words per"] by (intro tight_sorted) auto
  have ne: "filter (\<lambda>s. sg_words s \<noteq> []) ?g = ?g" "filter (\<lambda>s. sg_words s = []) ?g = []"
    using g by (auto simp: filter_id_conv filter_empty_conv tight_def)
  have nw: "filter (\<lambda>s. sg_words s \<noteq> []) (merge_wordless per) = []"
    "filter (\<lambda>s. sg_words s = []) (merge_wordless per) = merge_wordless per"
    by (simp_all add: merge_wordless_def filter_empty_conv)
  show "filter (\<lambda>s. sg_words s \<noteq> []) out = ?g"
    using sorted by (simp add: assms merge_and_sort_segments_def sort_segments_eq filter_sort ne nw sort_key_id_if_sorted)
  show "filter (\<lambda>s. sg_words s = []) out = sort_segments (merge_wordless per)"
    by (simp add: assms merge_and_sort_segments_def sort_segments_eq filter_sort ne nw)
  show "sorted (map sg_start_ms out)"
    by (simp add: assms merge_and_sort_segments_def segment_order.srt_sorted)
  show "mset out = mset ?g + mset (merge_wordless per)"
    by (simp add: assms merge_and_sort_segments_def segment_order.srt_mset)
qed

subsection \<open>Assembling\<close>

text \<open>
  AssembleSegments keeps every word of the speaker in order, gives each segment exactly its
  words' text, earliest start and latest end, breaks wherever the gap to the running end exceeds
  the threshold or the word limit is reached, and breaks nowhere else.
\<close>

theorem assemble_segments_exact:
  assumes "out = assemble_segments speaker ws gap max_words"
    and "brk = assemble_breaks (effective_gap gap) (effective_max_words max_words) speaker"
  shows "all_units out = map (Pair speaker) ws \<and>
    (\<forall>s\<in>set out. sg_speaker s = speaker \<and> tight s \<and>
       (\<forall>i. 0 < i \<longrightarrow> i < length (sg_words s) \<longrightarrow> \<not> brk (latest_end (take i (sg_words s))) i (sg_words s ! i))) \<and>
    successively (\<lambda>s t. brk (sg_end_ms s) (length (sg_words s)) (hd (sg_words t))) out"
proof -
  let ?G = "effective_gap gap" and ?M = "effective_max_words max_words"
  note g = assemble_loop.groups_exact[of out speaker ?G ?M speaker ws]
  have out: "out = g_segs (flush_group (foldl (assemble_step speaker ?G ?M) (init_group speaker) ws))"
    by (simp add: assms(1) assemble_segments_def)
  from g[OF out] have u: "all_units out = map (Pair speaker) ws" and t: "\<forall>s\<in>set out. tight s"
    and nb: "\<forall>s\<in>set out. assemble_loop.unbroken ?G ?M speaker s"
    and b: "successively (assemble_loop.broken ?G ?M speaker) out" by auto
  have spk: "sg_speaker s = speaker" if "s \<in> set out" for s
  proof -
    from t that obtain w where "w \<in> set (sg_words s)" by (fastforce simp: tight_def neq_Nil_conv)
    with that have "(sg_speaker s, w) \<in> set (all_units out)" by (auto simp: all_units_def segment_words_def)
    with u show ?thesis by auto
  qed
  have "\<not> brk (latest_end (take i (sg_words s))) i (sg_words s ! i)"
    if s: "s \<in> set out" and i: "0 < i" "i < length (sg_words s)" for s i
  proof -
    from nb s obtain as where as: "map (Pair speaker) as = segment_words s"
      and n: "\<And>i. 0 < i \<Longrightarrow> i < length as \<Longrightarrow>
        \<not> assemble_breaks ?G ?M (sg_speaker s) (latest_end (take i (sg_words s))) i (as ! i)"
      by (auto simp: assemble_loop.unbroken_def)
    from as have "as = sg_words s" unfolding segment_words_def by (rule map_Pair_eq)
    with n i spk[OF s] show ?thesis by (simp add: assms(2))
  qed
  moreover have "successively (\<lambda>s t. brk (sg_end_ms s) (length (sg_words s)) (hd (sg_words t))) out"
  proof (rule successively_mono[OF b])
    fix s t assume st: "s \<in> set out" "t \<in> set out" and br: "assemble_loop.broken ?G ?M speaker s t"
    then have "sg_words t \<noteq> []" using t by (simp add: tight_def)
    with br spk[OF st(1)] show "brk (sg_end_ms s) (length (sg_words s)) (hd (sg_words t))"
      by (auto simp: assemble_loop.broken_def segment_words_def assms(2) hd_map)
  qed
  ultimately show ?thesis using u t spk by auto
qed

lemma merge_keeps:
  assumes "out = merge_and_sort_segments per"
  shows "all_units out = sort_words (merge_words per) \<and>
    filter (\<lambda>s. sg_words s = []) out = sort_segments (merge_wordless per) \<and>
    sorted (map sg_start_ms out) \<and>
    (\<forall>s\<in>set out. sg_words s \<noteq> [] \<longrightarrow> tight s \<and> length (sg_words s) \<le> 60)"
proof -
  note m = merge_parts[OF assms] and g = merge_groups_exact[of "sort_words (merge_words per)"]
  have "all_units out = all_units (filter (\<lambda>s. sg_words s \<noteq> []) out)" by (simp only: all_units_wordless)
  with m(1) g have "all_units out = sort_words (merge_words per)" by simp
  moreover have "tight s \<and> length (sg_words s) \<le> 60" if "s \<in> set out" "sg_words s \<noteq> []" for s
  proof -
    from that have "s \<in> set (filter (\<lambda>s. sg_words s \<noteq> []) out)" by simp
    then have "s \<in> set (merge_groups (sort_words (merge_words per)))" unfolding m(1) .
    with g show ?thesis by (auto intro: unbroken_length)
  qed
  ultimately show ?thesis using m(2,3) by simp
qed

text \<open>
  C22: MergeAndSortSegments keeps every word with its speaker, exactly once and in the stable
  order of start times, keeps the text-only segments, orders the result by start, and gives each
  segment of words its exact text and bounds, one speaker and at most 60 words.
\<close>

theorem merge_keeps_words:
  assumes "out = merge_and_sort_segments per"
  shows "all_units out = sort_words (merge_words per) \<and>
    filter (\<lambda>s. sg_words s = []) out = sort_segments (merge_wordless per) \<and>
    sorted (map sg_start_ms out) \<and>
    (\<forall>s\<in>set out. sg_words s \<noteq> [] \<longrightarrow> tight s \<and> length (sg_words s) \<le> 60)"
  by (rule merge_keeps) (rule assms)

subsection \<open>The contract\<close>

definition word_ordered :: "stt_word \<Rightarrow> bool" where
  "word_ordered w \<longleftrightarrow> w_start_ms w \<le> w_end_ms w"

definition segment_valid :: "segment \<Rightarrow> bool" where
  "segment_valid s \<longleftrightarrow> sg_start_ms s \<le> sg_end_ms s
     \<and> (\<forall>w\<in>set (sg_words s). word_ordered w \<and> sg_start_ms s \<le> w_start_ms w \<and> w_end_ms w \<le> sg_end_ms s)"

lemma validate_words_iff: "validate_words i s j ws = Inr u \<longleftrightarrow>
    (\<forall>w\<in>set ws. word_ordered w \<and> sg_start_ms s \<le> w_start_ms w \<and> w_end_ms w \<le> sg_end_ms s)"
  by (induction ws arbitrary: j) (auto simp: word_ordered_def)

lemma validate_from_iff: "validate_from i ss = Inr u \<longleftrightarrow> (\<forall>s\<in>set ss. segment_valid s)"
  by (induction ss arbitrary: i) (auto simp: validate_words_iff segment_valid_def)

lemma validate_segments_iff: "validate_segments ss = Inr u \<longleftrightarrow> (\<forall>s\<in>set ss. segment_valid s)"
  by (simp add: validate_segments_def validate_from_iff)

lemma tight_valid: "tight s \<Longrightarrow> segment_valid s \<longleftrightarrow> (\<forall>w\<in>set (sg_words s). word_ordered w)"
proof
  assume t: "tight s" and o: "\<forall>w\<in>set (sg_words s). word_ordered w"
  from t obtain w where w: "w \<in> set (sg_words s)" by (fastforce simp: tight_def neq_Nil_conv)
  have "sg_start_ms s \<le> w_start_ms w" "w_end_ms w \<le> sg_end_ms s"
    using t w by (simp_all add: tight_def earliest_start_le latest_end_ge)
  with t o w show "segment_valid s"
    by (force simp: segment_valid_def tight_def word_ordered_def intro: earliest_start_le latest_end_ge)
qed (simp add: segment_valid_def)

text \<open>
  Whatever MergeAndSortSegments returns passes ValidateSegments exactly when the words it was
  given do not end before they start and the text-only segments do not either: merging never
  produces an invalid document from valid words, and never hides an invalid one.
\<close>

theorem merge_validates:
  "validate_segments (merge_and_sort_segments per) = Inr () \<longleftrightarrow>
     (\<forall>(spk, w)\<in>set (merge_words per). word_ordered w) \<and>
     (\<forall>s\<in>set (merge_wordless per). sg_start_ms s \<le> sg_end_ms s)"
proof -
  define out where "out = merge_and_sort_segments per"
  note m = merge_parts[OF out_def] and g = merge_groups_exact[of "sort_words (merge_words per)"]
  let ?g = "merge_groups (sort_words (merge_words per))"
  have set_out: "set out = set ?g \<union> set (merge_wordless per)"
    using arg_cong[OF m(4), of set_mset] by simp
  have "set (merge_words per) = set (all_units ?g)" using g by (simp add: word_order.srt_set)
  also have "\<dots> = (\<Union>s\<in>set ?g. Pair (sg_speaker s) ` set (sg_words s))"
    by (simp add: all_units_def segment_words_def)
  finally have w: "(\<forall>(spk, w)\<in>set (merge_words per). word_ordered w) \<longleftrightarrow>
      (\<forall>s\<in>set ?g. \<forall>w\<in>set (sg_words s). word_ordered w)" by auto
  have "(\<forall>s\<in>set ?g. segment_valid s) \<longleftrightarrow> (\<forall>s\<in>set ?g. \<forall>w\<in>set (sg_words s). word_ordered w)"
    using g tight_valid by auto
  moreover have "(\<forall>s\<in>set (merge_wordless per). segment_valid s) \<longleftrightarrow>
      (\<forall>s\<in>set (merge_wordless per). sg_start_ms s \<le> sg_end_ms s)"
    by (auto simp: merge_wordless_def segment_valid_def)
  ultimately show ?thesis
    unfolding out_def[symmetric] validate_segments_iff set_out w by auto
qed

subsection \<open>The written documents\<close>

text \<open>\<open>we_gap\<close> is the pointer \<open>AttributionGapDB\<close>: \<open>None\<close> is nil.\<close>

record word_entry =
  we_id :: string
  we_text :: string
  we_start_ms :: int
  we_end_ms :: int
  we_gap :: "64 word option"
  we_low_confidence :: bool

record segment_entry =
  se_id :: string
  se_speaker :: string
  se_start_ms :: int
  se_end_ms :: int
  se_text :: string
  se_words :: "word_entry list"

record speaker_entry =
  sp_id :: string
  sp_label :: string

record transcript_file =
  tf_version :: string
  tf_src :: string
  tf_duration_ms :: int
  tf_sha256 :: string
  tf_speakers :: "speaker_entry list"
  tf_segments :: "segment_entry list"

definition transcript_words_version :: string where "transcript_words_version = ''transcript.words.v1''"

definition label_for_speaker :: "string \<Rightarrow> audio_stream list \<Rightarrow> string" where
  "label_for_speaker i streams =
     (case find (\<lambda>s. as_speaker_id s = i) streams of Some s \<Rightarrow> as_speaker_label s | None \<Rightarrow> i)"

fun speaker_entries_loop :: "audio_stream list \<Rightarrow> string list \<Rightarrow> segment list \<Rightarrow> speaker_entry list" where
  "speaker_entries_loop streams seen [] = []"
| "speaker_entries_loop streams seen (s # ss) =
     (if sg_speaker s = [] \<or> sg_speaker s \<in> set seen then speaker_entries_loop streams seen ss
      else \<lparr>sp_id = sg_speaker s, sp_label = label_for_speaker (sg_speaker s) streams\<rparr>
           # speaker_entries_loop streams (sg_speaker s # seen) ss)"

definition build_speaker_entries :: "audio_stream list \<Rightarrow> segment list \<Rightarrow> speaker_entry list" where
  "build_speaker_entries streams segs = speaker_entries_loop streams [] segs"

definition transcript_segment_id :: "nat \<Rightarrow> string" where
  "transcript_segment_id i = ''seg_'' @ pad_zeros 6 (itoa_nat i)"

definition transcript_word_id :: "string \<Rightarrow> nat \<Rightarrow> string" where
  "transcript_word_id sid j = sid @ '':w_'' @ itoa_nat j"

definition mk_word_entry :: "string \<Rightarrow> nat \<Rightarrow> stt_word \<Rightarrow> word_entry" where
  "mk_word_entry sid j w = \<lparr>we_id = transcript_word_id sid j, we_text = w_text w,
     we_start_ms = w_start_ms w, we_end_ms = w_end_ms w,
     we_gap = (if w_has_gap w then Some (w_gap_db w) else None), we_low_confidence = w_low_confidence w\<rparr>"

definition mk_segment_entry :: "nat \<Rightarrow> segment \<Rightarrow> segment_entry" where
  "mk_segment_entry i s = \<lparr>se_id = transcript_segment_id i, se_speaker = sg_speaker s,
     se_start_ms = sg_start_ms s, se_end_ms = sg_end_ms s, se_text = sg_text s,
     se_words = map (\<lambda>(j, w). mk_word_entry (transcript_segment_id i) j w) (List.enumerate 0 (sg_words s))\<rparr>"

definition build_transcript_segment_entries :: "segment list \<Rightarrow> segment_entry list" where
  "build_transcript_segment_entries segs = map (\<lambda>(i, s). mk_segment_entry i s) (List.enumerate 0 segs)"

definition build_transcript_file :: "audio_stream list \<Rightarrow> segment list \<Rightarrow> int \<Rightarrow> string \<Rightarrow> transcript_file" where
  "build_transcript_file streams segs dur sha =
     \<lparr>tf_version = transcript_words_version, tf_src = ''meeting.webm'', tf_duration_ms = dur, tf_sha256 = sha,
      tf_speakers = build_speaker_entries streams segs,
      tf_segments = build_transcript_segment_entries segs\<rparr>"

definition write_transcript_json :: "audio_stream list \<Rightarrow> segment list \<Rightarrow> int \<Rightarrow> (seg_err, transcript_file) res" where
  "write_transcript_json streams segs dur =
     bind_r (validate_segments segs) (\<lambda>_. Inr (build_transcript_file streams segs dur []))"

text \<open>
  \<open>vttTime\<close>.  The float conversions \<open>d.Hours()\<close>, \<open>d.Minutes()\<close> and \<open>d.Seconds()\<close> cut
  off to the whole part, which for a whole number of milliseconds is the truncated quotient.
\<close>

definition vtt_time :: "int \<Rightarrow> string" where
  "vtt_time ms =
     (let d = wrap64 (ms * 1000000);
          h = d sdiv 3600000000000; m = (d sdiv 60000000000) smod 60;
          s = (d sdiv 1000000000) smod 60; ms2 = (d sdiv 1000000) smod 1000
      in fmt_0d 2 h @ '':'' @ fmt_0d 2 m @ '':'' @ fmt_0d 2 s @ ''.'' @ fmt_0d 3 ms2)"

definition caption_cue :: "audio_stream list \<Rightarrow> segment \<Rightarrow> string" where
  "caption_cue streams s =
     vtt_time (sg_start_ms s) @ '' --> '' @ vtt_time (sg_end_ms s) @ [CHR 10]
     @ ''<'' @ label_for_speaker (sg_speaker s) streams @ ''> '' @ sg_text s @ [CHR 10, CHR 10]"

definition captions_vtt :: "audio_stream list \<Rightarrow> segment list \<Rightarrow> string" where
  "captions_vtt streams segs = ''WEBVTT'' @ [CHR 10, CHR 10] @ concat (map (caption_cue streams) segs)"

definition logical_speaker_count :: "audio_stream list \<Rightarrow> nat" where
  "logical_speaker_count streams =
     length (foldl (\<lambda>seen s. if as_index s < 0 then seen
                         else let i = trim_space (as_speaker_id s) in
                           if i = [] then seen else List.insert i seen) [] streams)"

lemma speaker_entries_loop_ids:
  "distinct (map sp_id (speaker_entries_loop streams seen segs)) \<and>
   set (map sp_id (speaker_entries_loop streams seen segs)) = sg_speaker ` set segs - {[]} - set seen"
  by (induction segs arbitrary: seen) auto

lemma transcript_segment_id_inject: "transcript_segment_id i = transcript_segment_id j \<longleftrightarrow> i = j"
proof
  assume "transcript_segment_id i = transcript_segment_id j"
  then have "digits_value (pad_zeros 6 (itoa_nat i)) = digits_value (pad_zeros 6 (itoa_nat j))"
    by (simp add: transcript_segment_id_def)
  then show "i = j" by simp
qed simp

lemma digit_not_colon: "list_all is_digit s \<Longrightarrow> CHR '':'' \<notin> set s"
  by (auto simp: list_all_iff is_digit_def in_range_def byte_def)

lemma segment_id_no_colon: "CHR '':'' \<notin> set (transcript_segment_id i)"
  using digit_not_colon[OF pad_zeros_digits[OF itoa_nat_digits]] by (simp add: transcript_segment_id_def)

lemma word_id_parts:
  "takeWhile (\<lambda>c. c \<noteq> CHR '':'') (transcript_word_id (transcript_segment_id i) j) = transcript_segment_id i"
  "dropWhile (\<lambda>c. c \<noteq> CHR '':'') (transcript_word_id (transcript_segment_id i) j) = '':w_'' @ itoa_nat j"
  using segment_id_no_colon[of i]
  by (simp_all add: transcript_word_id_def takeWhile_append dropWhile_append)

lemma word_id_inject:
  "transcript_word_id (transcript_segment_id i) j = transcript_word_id (transcript_segment_id i') j' \<longleftrightarrow> i = i' \<and> j = j'"
proof
  assume e: "transcript_word_id (transcript_segment_id i) j = transcript_word_id (transcript_segment_id i') j'"
  from arg_cong[OF e, of "takeWhile (\<lambda>c. c \<noteq> CHR '':'')"] arg_cong[OF e, of "dropWhile (\<lambda>c. c \<noteq> CHR '':'')"]
  show "i = i' \<and> j = j'" unfolding word_id_parts by (simp add: transcript_segment_id_inject)
qed simp

lemma segment_entry_ids:
  "map se_id (map (\<lambda>(i, s). mk_segment_entry i s) (List.enumerate n segs)) = map transcript_segment_id [n..<n + length segs]"
  by (induction segs arbitrary: n) (simp_all add: mk_segment_entry_def upt_rec)

lemma word_entry_ids:
  "map we_id (se_words (mk_segment_entry i s)) = map (transcript_word_id (transcript_segment_id i)) [0..<length (sg_words s)]"
proof -
  have "map we_id (map (\<lambda>(j, w). mk_word_entry sid j w) (List.enumerate n ws)) = map (transcript_word_id sid) [n..<n + length ws]"
    for sid n ws by (induction ws arbitrary: n) (simp_all add: mk_word_entry_def upt_rec)
  from this[of "transcript_segment_id i" 0 "sg_words s"] show ?thesis by (simp add: mk_segment_entry_def)
qed

definition all_word_ids :: "segment_entry list \<Rightarrow> string list" where
  "all_word_ids es = concat (map (\<lambda>e. map we_id (se_words e)) es)"

lemma all_word_ids_mem:
  "x \<in> set (all_word_ids (map (\<lambda>(i, s). mk_segment_entry i s) (List.enumerate n segs))) \<Longrightarrow>
   \<exists>i j. n \<le> i \<and> x = transcript_word_id (transcript_segment_id i) j"
proof (induction segs arbitrary: n)
  case (Cons s segs)
  then consider "x \<in> set (map (transcript_word_id (transcript_segment_id n)) [0..<length (sg_words s)])"
    | "x \<in> set (all_word_ids (map (\<lambda>(i, s). mk_segment_entry i s) (List.enumerate (Suc n) segs)))"
    by (auto simp: all_word_ids_def word_entry_ids simp flip: set_map)
  then show ?case
  proof cases
    case 2
    from Cons.IH[OF this] show ?thesis using Suc_leD by blast
  qed auto
qed (simp add: all_word_ids_def)

lemma word_ids_distinct:
  "distinct (all_word_ids (map (\<lambda>(i, s). mk_segment_entry i s) (List.enumerate n segs)))"
proof (induction segs arbitrary: n)
  case (Cons s segs)
  let ?rest = "map (\<lambda>(i, s). mk_segment_entry i s) (List.enumerate (Suc n) segs)"
  have eq: "all_word_ids (map (\<lambda>(i, s). mk_segment_entry i s) (List.enumerate n (s # segs))) =
      map (transcript_word_id (transcript_segment_id n)) [0..<length (sg_words s)] @ all_word_ids ?rest"
    by (simp add: all_word_ids_def word_entry_ids)
  have "distinct (map (transcript_word_id (transcript_segment_id n)) [0..<length (sg_words s)])"
    by (simp add: distinct_map inj_on_def word_id_inject)
  moreover have "x \<notin> set (all_word_ids ?rest)"
    if x: "x \<in> set (map (transcript_word_id (transcript_segment_id n)) [0..<length (sg_words s)])" for x
  proof
    assume "x \<in> set (all_word_ids ?rest)"
    from all_word_ids_mem[OF this] x show False by (auto simp: word_id_inject)
  qed
  ultimately show ?case using Cons[of "Suc n"] unfolding eq by (auto simp: disjoint_iff simp del: set_map)
qed (simp add: all_word_ids_def)

text \<open>
  C40: in the transcript document every segment id and every word id is unique, none is shared
  between the two kinds, and speakers[] lists exactly the non-empty speakers of the segments,
  each once, for any number of segments.
\<close>

theorem transcript_ids_unique:
  assumes "doc = build_transcript_file streams segs dur sha"
  shows "distinct (map se_id (tf_segments doc) @ all_word_ids (tf_segments doc)) \<and>
    distinct (map sp_id (tf_speakers doc)) \<and>
    set (map sp_id (tf_speakers doc)) = sg_speaker ` set segs - {[]}"
proof -
  let ?es = "build_transcript_segment_entries segs"
  have ids: "map se_id ?es = map transcript_segment_id [0..<length segs]"
    using segment_entry_ids[of 0 segs] by (simp add: build_transcript_segment_entries_def)
  have "distinct (map se_id ?es)" unfolding ids
    by (simp add: distinct_map inj_on_def transcript_segment_id_inject)
  moreover have "distinct (all_word_ids ?es)"
    using word_ids_distinct[of 0 segs] by (simp add: build_transcript_segment_entries_def)
  moreover have "CHR '':'' \<in> set x" if "x \<in> set (all_word_ids ?es)" for x
    using all_word_ids_mem[of x 0 segs] that
    by (auto simp: build_transcript_segment_entries_def transcript_word_id_def)
  moreover have "CHR '':'' \<notin> set x" if "x \<in> set (map se_id ?es)" for x
    using that segment_id_no_colon unfolding ids by auto
  ultimately have "distinct (map se_id ?es @ all_word_ids ?es)"
    by (auto simp del: set_map)
  then show ?thesis using speaker_entries_loop_ids[of streams "[]" segs]
    by (simp add: assms build_transcript_file_def build_speaker_entries_def)
qed

subsection \<open>Concrete instances\<close>

definition ex_word :: "string \<Rightarrow> int \<Rightarrow> int \<Rightarrow> stt_word" where
  "ex_word t a b = \<lparr>w_text = t, w_start_ms = a, w_end_ms = b, w_gap_db = 0, w_has_gap = False,
     w_low_confidence = False, w_extent_cap = 0\<rparr>"

definition ex_segments :: "segment list list" where
  "ex_segments =
     [assemble_segments ''ann'' [ex_word ''so'' 0 200, ex_word ''yes'' 300 600] 1500 60,
      assemble_segments ''bob'' [ex_word ''mm'' 250 280] 1500 60]"

theorem assemble_segments_exact_witness:
  "all_units (assemble_segments ''ann'' [ex_word ''so'' 0 200, ex_word ''yes'' 3000 3600] 0 0) =
     [(''ann'', ex_word ''so'' 0 200), (''ann'', ex_word ''yes'' 3000 3600)] \<and>
   length (assemble_segments ''ann'' [ex_word ''so'' 0 200, ex_word ''yes'' 3000 3600] 0 0) = 2"
proof -
  have "length (assemble_segments ''ann'' [ex_word ''so'' 0 200, ex_word ''yes'' 3000 3600] 0 0) = 2"
    by code_simp
  then show ?thesis
    using conjunct1[OF assemble_segments_exact[OF refl refl, of "''ann''" "[ex_word ''so'' 0 200, ex_word ''yes'' 3000 3600]" 0 0]]
    by simp
qed

theorem merge_keeps_words_witness:
  "all_units (merge_and_sort_segments ex_segments) =
     [(''ann'', ex_word ''so'' 0 200), (''bob'', ex_word ''mm'' 250 280), (''ann'', ex_word ''yes'' 300 600)]"
proof -
  have "sort_words (merge_words ex_segments) =
     [(''ann'', ex_word ''so'' 0 200), (''bob'', ex_word ''mm'' 250 280), (''ann'', ex_word ''yes'' 300 600)]"
    by code_simp
  with merge_keeps_words[OF refl, of ex_segments] show ?thesis by simp
qed

theorem merge_validates_witness: "validate_segments (merge_and_sort_segments ex_segments) = Inr ()"
proof -
  have "\<forall>(spk, w)\<in>set (merge_words ex_segments). word_ordered w" by code_simp
  moreover have "\<forall>s\<in>set (merge_wordless ex_segments). sg_start_ms s \<le> sg_end_ms s" by code_simp
  ultimately show ?thesis using merge_validates[of ex_segments] by blast
qed

theorem transcript_ids_unique_witness:
  "distinct (map se_id (tf_segments (build_transcript_file [] (concat ex_segments) 600 [])))"
  using transcript_ids_unique[OF refl, of "[]" "concat ex_segments" 600 "[]"] by (simp add: distinct_append)

end
