(* ===== verification/Voices.thy ===== *)
theory Voices
  imports Transcript_Segments
begin

text \<open>
  Voices on a shared device (\<open>internal/transcribe/diarize.go\<close> of the recorder): the diarizer's
  turns, their union per speaker, the rule that gives each word to a turn, and the split of one
  participant's words into voices.  Float seconds enter only in \<open>normalizeTurns\<close>, whose two
  float operations are arguments; sums and differences of \<open>int64\<close> milliseconds wrap.
\<close>


subsection \<open>Turns\<close>

record speaker_turn =
  tn_start :: int
  tn_end :: int
  tn_speaker :: int

text \<open>Raw diarizer output in seconds; \<open>'f\<close> is \<open>float64\<close>.\<close>

record 'f raw_turn =
  rt_start :: 'f
  rt_end :: 'f
  rt_speaker :: int

definition clamp_ms :: "int \<Rightarrow> int \<Rightarrow> int" where
  "clamp_ms v duration_ms =
     (if v < 0 then 0 else if duration_ms > 0 \<and> v > duration_ms then duration_ms else v)"

definition turn_key :: "speaker_turn \<Rightarrow> int \<times> int \<times> int" where
  "turn_key t = (tn_start t, tn_end t, tn_speaker t)"

definition sort_turns :: "speaker_turn list \<Rightarrow> speaker_turn list" where
  "sort_turns ts = sort_key turn_key ts"

text \<open>
  \<open>finite\<close> and \<open>to_ms\<close> are the float operations \<open>finite(v)\<close> and \<open>int64(v*1000)\<close>.
\<close>

fun normalize_loop :: "('f \<Rightarrow> bool) \<Rightarrow> ('f \<Rightarrow> int) \<Rightarrow> int \<Rightarrow> 'f raw_turn list \<Rightarrow> speaker_turn list" where
  "normalize_loop fin to_ms duration_ms [] = []"
| "normalize_loop fin to_ms duration_ms (r # rs) =
     (if rt_speaker r < 0 \<or> \<not> fin (rt_start r) \<or> \<not> fin (rt_end r) then normalize_loop fin to_ms duration_ms rs
      else let start = clamp_ms (to_ms (rt_start r)) duration_ms;
               stop = clamp_ms (to_ms (rt_end r)) duration_ms in
        if stop \<le> start then normalize_loop fin to_ms duration_ms rs
        else \<lparr>tn_start = start, tn_end = stop, tn_speaker = rt_speaker r\<rparr> # normalize_loop fin to_ms duration_ms rs)"

definition normalize_turns :: "('f \<Rightarrow> bool) \<Rightarrow> ('f \<Rightarrow> int) \<Rightarrow> 'f raw_turn list \<Rightarrow> int \<Rightarrow> speaker_turn list" where
  "normalize_turns fin to_ms raw duration_ms = sort_turns (normalize_loop fin to_ms duration_ms raw)"

definition usable_turn :: "speaker_turn \<Rightarrow> bool" where
  "usable_turn t \<longleftrightarrow> \<not> (tn_start t < 0 \<or> tn_end t \<le> tn_start t \<or> tn_speaker t < 0)"

text \<open>The keys of an insertion-ordered map, in the order they were first seen.\<close>

fun first_seen_from :: "'k list \<Rightarrow> 'k list \<Rightarrow> 'k list" where
  "first_seen_from seen [] = []"
| "first_seen_from seen (x # xs) =
     (if x \<in> set seen then first_seen_from seen xs else x # first_seen_from (x # seen) xs)"

definition first_seen :: "'k list \<Rightarrow> 'k list" where
  "first_seen xs = first_seen_from [] xs"

text \<open>
  One step of the interval merge; the merged intervals are kept reversed, so the last one is the
  head.
\<close>

fun merge_interval :: "speaker_turn list \<Rightarrow> speaker_turn \<Rightarrow> speaker_turn list" where
  "merge_interval [] t = [t]"
| "merge_interval (m # ms) t =
     (if tn_start t \<le> tn_end m
      then (if tn_end t > tn_end m then m\<lparr>tn_end := tn_end t\<rparr> else m) # ms
      else t # m # ms)"

definition merge_intervals :: "speaker_turn list \<Rightarrow> speaker_turn list" where
  "merge_intervals ts = rev (foldl merge_interval [] ts)"

definition union_turns :: "speaker_turn list \<Rightarrow> speaker_turn list" where
  "union_turns turns =
     (let us = filter usable_turn turns in
      sort_turns (concat (map (\<lambda>s. merge_intervals (sort_turns (filter (\<lambda>t. tn_speaker t = s) us)))
        (first_seen (map tn_speaker us)))))"

subsection \<open>Assigning words\<close>

definition turn_overlap :: "stt_word \<Rightarrow> speaker_turn \<Rightarrow> int" where
  "turn_overlap w t = wrap64 (min (w_end_ms w) (tn_end t) - max (w_start_ms w) (tn_start t))"

definition turn_gap :: "stt_word \<Rightarrow> speaker_turn \<Rightarrow> int" where
  "turn_gap w t = max (max (wrap64 (tn_start t - w_end_ms w)) (wrap64 (w_start_ms w - tn_end t))) 0"

text \<open>\<open>order\<close> with \<open>sums\<close>: the sums in insertion order.\<close>

fun add_overlap :: "int \<Rightarrow> int \<Rightarrow> (int \<times> int) list \<Rightarrow> (int \<times> int) list" where
  "add_overlap s d [] = [(s, d)]"
| "add_overlap s d ((k, v) # sums) = (if k = s then (k, wrap64 (v + d)) # sums else (k, v) # add_overlap s d sums)"

definition overlap_sums :: "stt_word \<Rightarrow> speaker_turn list \<Rightarrow> (int \<times> int) list" where
  "overlap_sums w merged =
     foldl (\<lambda>sums t. if turn_overlap w t \<le> 0 then sums else add_overlap (tn_speaker t) (turn_overlap w t) sums) [] merged"

fun best_sum :: "int \<times> int \<Rightarrow> (int \<times> int) list \<Rightarrow> int" where
  "best_sum best [] = fst best"
| "best_sum best (x # xs) = best_sum (if snd x > snd best then x else best) xs"

fun nearest_turn :: "stt_word \<Rightarrow> speaker_turn \<Rightarrow> int \<Rightarrow> speaker_turn list \<Rightarrow> speaker_turn" where
  "nearest_turn w best best_gap [] = best"
| "nearest_turn w best best_gap (t # ts) =
     (if turn_gap w t < best_gap then nearest_turn w t (turn_gap w t) ts else nearest_turn w best best_gap ts)"

definition assign_word :: "speaker_turn list \<Rightarrow> stt_word \<Rightarrow> int" where
  "assign_word merged w =
     (case overlap_sums w merged of
        x # xs \<Rightarrow> best_sum x xs
      | [] \<Rightarrow> tn_speaker (nearest_turn w (hd merged) (turn_gap w (hd merged)) (tl merged)))"

definition assign_words_to_turns :: "stt_word list \<Rightarrow> speaker_turn list \<Rightarrow> int list option" where
  "assign_words_to_turns ws turns =
     (let merged = union_turns turns in if merged = [] then None else Some (map (assign_word merged) ws))"

subsection \<open>Splitting a stream into voices\<close>

definition sub_speaker_id :: "string \<Rightarrow> int \<Rightarrow> string" where
  "sub_speaker_id parent n = parent @ ''~'' @ itoa n"

text \<open>The rank of a diarizer speaker, 0 for one without a usable turn (a missing key).\<close>

definition voice_order :: "speaker_turn list \<Rightarrow> int list" where
  "voice_order turns = first_seen (map tn_speaker (filter usable_turn (sort_turns turns)))"

fun position :: "'k \<Rightarrow> 'k list \<Rightarrow> nat option" where
  "position k [] = None"
| "position k (x # xs) = (if x = k then Some 0 else map_option Suc (position k xs))"

definition voice_ordinal :: "speaker_turn list \<Rightarrow> int \<Rightarrow> nat" where
  "voice_ordinal turns s = (case position s (voice_order turns) of Some i \<Rightarrow> Suc i | None \<Rightarrow> 0)"

record split_result =
  sr_parent_id :: string
  sr_sub_speaker_ids :: "string list"
  sr_words_per_speaker :: "nat list"
  sr_turn_count :: nat
  sr_speaker_count :: nat

definition count_turn_speakers :: "speaker_turn list \<Rightarrow> nat" where
  "count_turn_speakers turns = length (first_seen (map tn_speaker turns))"

definition parent_segment :: "string \<Rightarrow> segment \<Rightarrow> bool" where
  "parent_segment parent s \<longleftrightarrow> sg_speaker s = parent \<and> sg_words s \<noteq> []"

definition parent_words :: "string \<Rightarrow> segment list \<Rightarrow> stt_word list" where
  "parent_words parent segs = sort_key w_start_ms (concat (map sg_words (filter (parent_segment parent) segs)))"

text \<open>\<open>perVoice[n]\<close>, and the loop over the voices that received words.\<close>

definition voice_words :: "speaker_turn list \<Rightarrow> int list \<Rightarrow> stt_word list \<Rightarrow> nat \<Rightarrow> stt_word list" where
  "voice_words turns assigned ws n = map snd (filter (\<lambda>(s, w). voice_ordinal turns s = n) (zip assigned ws))"

definition voice_segment :: "string \<Rightarrow> nat \<Rightarrow> stt_word list \<Rightarrow> segment" where
  "voice_segment parent n ws =
     \<lparr>sg_speaker = sub_speaker_id parent (int n), sg_start_ms = 0, sg_end_ms = 0, sg_text = [], sg_words = ws\<rparr>"

definition split_speaker_segments :: "segment list \<Rightarrow> string \<Rightarrow> speaker_turn list \<Rightarrow> segment list \<times> split_result" where
  "split_speaker_segments segs parent turns =
     (let result = \<lparr>sr_parent_id = parent, sr_sub_speaker_ids = [], sr_words_per_speaker = [],
            sr_turn_count = length turns, sr_speaker_count = count_turn_speakers turns\<rparr>;
          rest = map (\<lambda>s. [s]) (filter (\<lambda>s. \<not> parent_segment parent s) segs);
          ws = parent_words parent segs in
      if ws = [] then (segs, result)
      else case assign_words_to_turns ws turns of
        None \<Rightarrow> (segs, result)
      | Some assigned \<Rightarrow>
          let voices = filter (\<lambda>n. voice_words turns assigned ws n \<noteq> []) [1..<Suc (length (voice_order turns))] in
          (merge_and_sort_segments (rest @ map (\<lambda>n. [voice_segment parent n (voice_words turns assigned ws n)]) voices),
           result\<lparr>sr_sub_speaker_ids := map (\<lambda>n. sub_speaker_id parent (int n)) voices,
                  sr_words_per_speaker := map (\<lambda>n. length (voice_words turns assigned ws n)) voices\<rparr>))"

subsection \<open>First-seen order\<close>

lemma first_seen_from_spec:
  "distinct (first_seen_from seen xs) \<and> set (first_seen_from seen xs) = set xs - set seen"
  by (induction xs arbitrary: seen) auto

lemma first_seen_spec [simp]: "distinct (first_seen xs)" "set (first_seen xs) = set xs"
  using first_seen_from_spec[of "[]" xs] by (simp_all add: first_seen_def)

lemma first_seen_Nil_iff [simp]: "first_seen xs = [] \<longleftrightarrow> xs = []"
  using first_seen_spec(2)[of xs] by (metis set_empty)

lemma position_None: "position k xs = None \<longleftrightarrow> k \<notin> set xs"
  by (induction xs) auto

lemma position_Some: "position k xs = Some i \<Longrightarrow> i < length xs \<and> xs ! i = k"
  by (induction xs arbitrary: i) (auto split: if_splits)

lemma position_nth: "distinct xs \<Longrightarrow> i < length xs \<Longrightarrow> position (xs ! i) xs = Some i"
  by (induction xs arbitrary: i) (auto simp: nth_Cons split: nat.splits)

lemma voice_ordinal_range:
  assumes "s \<in> set (map tn_speaker (filter usable_turn turns))"
  shows "1 \<le> voice_ordinal turns s" and "voice_ordinal turns s \<le> length (voice_order turns)"
proof -
  have "s \<in> set (voice_order turns)" using assms by (simp add: voice_order_def sort_turns_def)
  then obtain i where "position s (voice_order turns) = Some i"
    using position_None[of s "voice_order turns"] by auto
  with position_Some[OF this] show "1 \<le> voice_ordinal turns s" "voice_ordinal turns s \<le> length (voice_order turns)"
    by (simp_all add: voice_ordinal_def)
qed

subsection \<open>The union of a speaker's turns\<close>

definition covered :: "int \<Rightarrow> speaker_turn list \<Rightarrow> int set" where
  "covered s ts = (\<Union>t\<in>{t \<in> set ts. tn_speaker t = s}. {tn_start t..<tn_end t})"

lemma covered_simps [simp]:
  "covered s [] = {}"
  "covered s (t # ts) = (if tn_speaker t = s then {tn_start t..<tn_end t} else {}) \<union> covered s ts"
  "covered s (ts @ us) = covered s ts \<union> covered s us"
  by (auto simp: covered_def)

lemma covered_set: "set ts = set us \<Longrightarrow> covered s ts = covered s us"
  by (simp add: covered_def)

text \<open>Merged so far, latest first: all of one speaker, non-empty, each ending before the next begins.\<close>

definition merged_ok :: "int \<Rightarrow> speaker_turn list \<Rightarrow> bool" where
  "merged_ok s ms \<longleftrightarrow> (\<forall>m\<in>set ms. tn_speaker m = s \<and> usable_turn m) \<and>
     sorted_wrt (\<lambda>m m'. tn_end m' < tn_start m) ms"

lemma merge_interval_step:
  assumes "merged_ok s ms" and "usable_turn t" and "tn_speaker t = s"
    and "\<forall>m\<in>set ms. tn_start m \<le> tn_start t"
  shows "merged_ok s (merge_interval ms t) \<and> covered s (merge_interval ms t) = covered s (t # ms) \<and>
    (\<forall>m\<in>set (merge_interval ms t). tn_start m \<le> tn_start t)"
proof (cases ms)
  case Nil
  with assms show ?thesis by (simp add: merged_ok_def)
next
  case (Cons m ms')
  with assms show ?thesis by (auto simp: merged_ok_def usable_turn_def)
qed

lemma foldl_merge_interval:
  assumes "sorted (map tn_start ts)" and "\<forall>t\<in>set ts. usable_turn t \<and> tn_speaker t = s"
  shows "merged_ok s (foldl merge_interval [] ts) \<and> covered s (foldl merge_interval [] ts) = covered s ts \<and>
    (\<forall>m\<in>set (foldl merge_interval [] ts). \<exists>t\<in>set ts. tn_start m \<le> tn_start t)"
  using assms
proof (induction ts rule: rev_induct)
  case Nil
  then show ?case by (simp add: merged_ok_def)
next
  case (snoc t ts)
  let ?m = "foldl merge_interval [] ts"
  from snoc have ok: "merged_ok s ?m" and c: "covered s ?m = covered s ts"
    and le: "\<forall>m\<in>set ?m. \<exists>t\<in>set ts. tn_start m \<le> tn_start t"
    by (auto simp: sorted_append)
  have "\<forall>m\<in>set ?m. tn_start m \<le> tn_start t"
    using le snoc.prems(1) by (fastforce simp: sorted_append)
  with merge_interval_step[OF ok, of t] snoc.prems(2) c show ?case by auto
qed

lemma filter_concat_owner:
  assumes "distinct ks" and "\<And>k t. t \<in> set (g k) \<Longrightarrow> own t = k"
  shows "filter (\<lambda>t. own t = k) (concat (map g ks)) = (if k \<in> set ks then g k else [])"
  using assms(1)
proof (induction ks)
  case (Cons a ks)
  have "filter (\<lambda>t. own t = k) (g a) = (if a = k then g a else [])"
    using assms(2)[of _ a] by (auto simp: filter_id_conv filter_empty_conv)
  with Cons show ?case by auto
qed simp

definition speaker_turns :: "int \<Rightarrow> speaker_turn list \<Rightarrow> speaker_turn list" where
  "speaker_turns s turns = sort_turns (filter (\<lambda>t. tn_speaker t = s) (filter usable_turn turns))"

interpretation turn_order: stable_sorter sort_turns turn_key
  by unfold_locales (simp add: sort_turns_def)

lemma turn_key_start: "sorted (map turn_key ts) \<Longrightarrow> sorted (map tn_start ts)"
  by (auto simp: sorted_map turn_key_def less_eq_prod_def elim!: sorted_wrt_mono_rel[rotated])

lemma speaker_turns_merged:
  "merged_ok s (rev (merge_intervals (speaker_turns s turns))) \<and>
   covered s (merge_intervals (speaker_turns s turns)) = covered s (filter usable_turn turns)"
proof -
  have "sorted (map tn_start (speaker_turns s turns))"
    unfolding speaker_turns_def by (rule turn_key_start) (rule turn_order.srt_sorted)
  moreover have "\<forall>t\<in>set (speaker_turns s turns). usable_turn t \<and> tn_speaker t = s"
    by (simp add: speaker_turns_def turn_order.srt_set)
  ultimately have m: "merged_ok s (foldl merge_interval [] (speaker_turns s turns))"
    and c: "covered s (foldl merge_interval [] (speaker_turns s turns)) = covered s (speaker_turns s turns)"
    using foldl_merge_interval by blast+
  have "covered s (merge_intervals (speaker_turns s turns)) = covered s (foldl merge_interval [] (speaker_turns s turns))"
    by (rule covered_set) (simp add: merge_intervals_def)
  moreover have "covered s (speaker_turns s turns) = covered s (filter usable_turn turns)"
    by (auto simp: covered_def speaker_turns_def turn_order.srt_set)
  ultimately show ?thesis using m c by (simp add: merge_intervals_def)
qed

lemma union_speaker:
  "filter (\<lambda>t. tn_speaker t = s) (union_turns turns) = merge_intervals (speaker_turns s turns)"
proof -
  let ?ks = "first_seen (map tn_speaker (filter usable_turn turns))"
  let ?g = "\<lambda>k. merge_intervals (speaker_turns k turns)"
  have own: "tn_speaker t = k" if "t \<in> set (?g k)" for t k
    using speaker_turns_merged[of k turns] that by (auto simp: merged_ok_def)
  have none: "?g s = []" if "s \<notin> set ?ks"
  proof -
    from that have "filter (\<lambda>t. tn_speaker t = s) (filter usable_turn turns) = []"
      by (force simp: filter_empty_conv)
    then show ?thesis by (simp add: speaker_turns_def merge_intervals_def sort_turns_def)
  qed
  have u: "union_turns turns = sort_turns (concat (map ?g ?ks))"
    by (simp add: union_turns_def speaker_turns_def Let_def)
  have "filter (\<lambda>t. tn_speaker t = s) (union_turns turns) = sort_turns (filter (\<lambda>t. tn_speaker t = s) (concat (map ?g ?ks)))"
    unfolding u by (simp add: sort_turns_def filter_sort)
  also have "\<dots> = sort_turns (?g s)"
    using filter_concat_owner[of ?ks ?g tn_speaker s] own none by auto
  also have "\<dots> = ?g s"
  proof (rule turn_order.srt_id)
    have "sorted_wrt (\<lambda>m m'. tn_end m < tn_start m' \<and> usable_turn m) (?g s)"
    proof -
      have "sorted_wrt (\<lambda>m m'. tn_end m < tn_start m') (?g s)" and us: "\<forall>m\<in>set (?g s). usable_turn m"
        using speaker_turns_merged[of s turns] by (auto simp: merged_ok_def sorted_wrt_rev)
      then show ?thesis by (simp add: sorted_wrt_iff_nth_less)
    qed
    then show "sorted (map turn_key (?g s))" unfolding sorted_map
      by (rule sorted_wrt_mono_rel[rotated]) (auto simp: turn_key_def usable_turn_def)
  qed
  finally show ?thesis .
qed

lemma union_speaker_facts:
  "sorted_wrt (\<lambda>m m'. tn_end m < tn_start m') (filter (\<lambda>t. tn_speaker t = s) (union_turns turns))"
  "covered s (union_turns turns) = covered s (filter usable_turn turns)"
  "t \<in> set (union_turns turns) \<Longrightarrow> usable_turn t"
proof -
  show "sorted_wrt (\<lambda>m m'. tn_end m < tn_start m') (filter (\<lambda>t. tn_speaker t = s) (union_turns turns))"
    using speaker_turns_merged[of s turns] by (simp add: union_speaker merged_ok_def sorted_wrt_rev)
  have "covered s (union_turns turns) = covered s (filter (\<lambda>t. tn_speaker t = s) (union_turns turns))"
    by (auto simp: covered_def)
  then show "covered s (union_turns turns) = covered s (filter usable_turn turns)"
    using speaker_turns_merged[of s turns] by (simp add: union_speaker)
  assume "t \<in> set (union_turns turns)"
  then have "t \<in> set (filter (\<lambda>u. tn_speaker u = tn_speaker t) (union_turns turns))" by simp
  then have "t \<in> set (merge_intervals (speaker_turns (tn_speaker t) turns))" unfolding union_speaker .
  moreover have "\<forall>m\<in>set (merge_intervals (speaker_turns (tn_speaker t) turns)). usable_turn m"
    using speaker_turns_merged[of "tn_speaker t" turns] by (simp add: merged_ok_def)
  ultimately show "usable_turn t" by blast
qed

lemma usable_covered: "(\<exists>t\<in>set ts. usable_turn t) \<longleftrightarrow> (\<exists>s. covered s (filter usable_turn ts) \<noteq> {})"
  by (fastforce simp: covered_def usable_turn_def)

lemma union_empty_iff: "union_turns turns = [] \<longleftrightarrow> \<not> (\<exists>t\<in>set turns. usable_turn t)"
proof
  assume "union_turns turns = []"
  then have "covered s (filter usable_turn turns) = {}" for s
    using union_speaker_facts(2)[of s turns] by simp
  then show "\<not> (\<exists>t\<in>set turns. usable_turn t)" unfolding usable_covered by blast
next
  assume "\<not> (\<exists>t\<in>set turns. usable_turn t)"
  then have "filter usable_turn turns = []" by (simp add: filter_empty_conv)
  then show "union_turns turns = []" by (simp add: union_turns_def first_seen_def sort_turns_def)
qed

lemma union_speakers: "t \<in> set (union_turns turns) \<Longrightarrow> tn_speaker t \<in> set (map tn_speaker (filter usable_turn turns))"
proof -
  assume t: "t \<in> set (union_turns turns)"
  with union_speaker_facts(3)[OF this] have "covered (tn_speaker t) (union_turns turns) \<noteq> {}"
    by (fastforce simp: covered_def usable_turn_def)
  then obtain u where "u \<in> set (filter usable_turn turns)" and "tn_speaker u = tn_speaker t"
    unfolding union_speaker_facts(2) by (auto simp: covered_def)
  then show ?thesis by (auto intro: rev_image_eqI)
qed

subsection \<open>The largest overlap\<close>

text \<open>The loops that keep the first best element seen.\<close>

fun keep_best :: "('a \<Rightarrow> int) \<Rightarrow> 'a \<Rightarrow> 'a list \<Rightarrow> 'a" where
  "keep_best f best [] = best"
| "keep_best f best (x # xs) = keep_best f (if f x > f best then x else best) xs"

lemma keep_best_split:
  assumes "L = as @ best # bs @ xs" and "\<forall>a\<in>set as. f a < f best" and "\<forall>b\<in>set bs. f b \<le> f best"
  shows "\<exists>cs ds. L = cs @ keep_best f best xs # ds \<and> (\<forall>a\<in>set cs. f a < f (keep_best f best xs)) \<and>
    (\<forall>b\<in>set ds. f b \<le> f (keep_best f best xs))"
  using assms
proof (induction xs arbitrary: as best bs)
  case (Cons x xs)
  show ?case
  proof (cases "f x > f best")
    case True
    have "L = (as @ best # bs) @ x # [] @ xs" using Cons.prems(1) by simp
    from Cons.IH[OF this] Cons.prems(2,3) True show ?thesis by fastforce
  next
    case False
    have "L = as @ best # (bs @ [x]) @ xs" using Cons.prems(1) by simp
    from Cons.IH[OF this] Cons.prems(2,3) False show ?thesis by auto
  qed
qed auto

lemma find_append: "find P (xs @ ys) = (case find P xs of None \<Rightarrow> find P ys | Some x \<Rightarrow> Some x)"
  by (induction xs) auto

lemma keep_best_find: "find (\<lambda>x. \<forall>y\<in>set (best # xs). f y \<le> f x) (best # xs) = Some (keep_best f best xs)"
proof -
  let ?L = "best # xs"
  obtain cs ds where L: "?L = cs @ keep_best f best xs # ds"
    and a: "\<forall>a\<in>set cs. f a < f (keep_best f best xs)" and b: "\<forall>b\<in>set ds. f b \<le> f (keep_best f best xs)"
    using keep_best_split[of ?L "[]" best "[]" xs f] by auto
  have L_mem: "keep_best f best xs \<in> set ?L" unfolding L by simp
  have top: "\<forall>y\<in>set ?L. f y \<le> f (keep_best f best xs)" unfolding L using a b by auto
  have "\<not> (\<forall>y\<in>set ?L. f y \<le> f x)" if "x \<in> set cs" for x
    using a that L by (meson L_mem leD)
  then have "find (\<lambda>x. \<forall>y\<in>set ?L. f y \<le> f x) cs = None"
    by (simp add: find_None_iff)
  then have "find (\<lambda>x. \<forall>y\<in>set ?L. f y \<le> f x) (cs @ keep_best f best xs # ds) = Some (keep_best f best xs)"
    using top by (simp add: find_append)
  then show ?thesis unfolding L[symmetric] .
qed

lemma best_sum_keep: "best_sum x xs = fst (keep_best snd x xs)"
  by (induction x xs rule: best_sum.induct) auto

lemma nearest_turn_keep: "nearest_turn w t (turn_gap w t) ts = keep_best (\<lambda>t. - turn_gap w t) t ts"
  by (induction ts arbitrary: t) auto

definition small_turn :: "speaker_turn \<Rightarrow> bool" where
  "small_turn t \<longleftrightarrow> small_ms (tn_start t) \<and> small_ms (tn_end t)"

text \<open>Reference: the milliseconds of a word that lie inside some turn of a speaker.\<close>

definition spoken_ms :: "stt_word \<Rightarrow> speaker_turn list \<Rightarrow> int \<Rightarrow> int" where
  "spoken_ms w ts s = int (card ({w_start_ms w..<w_end_ms w} \<inter> covered s ts))"

lemma turn_overlap_small:
  assumes "small_word w" and "small_turn t"
  shows "turn_overlap w t = min (w_end_ms w) (tn_end t) - max (w_start_ms w) (tn_start t)"
  using assms unfolding turn_overlap_def
  by (intro small_diff) (auto simp: small_word_def small_turn_def min_def max_def)

lemma turn_overlap_card:
  assumes "small_word w" and "small_turn t"
  shows "int (card ({w_start_ms w..<w_end_ms w} \<inter> {tn_start t..<tn_end t})) = max 0 (turn_overlap w t)"
  unfolding turn_overlap_small[OF assms] by (auto simp: min_def max_def)

text \<open>The turns of each speaker, in their order, do not touch.\<close>

definition apart :: "speaker_turn list \<Rightarrow> bool" where
  "apart ts \<longleftrightarrow> (\<forall>s. sorted_wrt (\<lambda>m m'. tn_end m < tn_start m') (filter (\<lambda>t. tn_speaker t = s) ts))"

lemma spoken_ms_snoc:
  assumes "small_word w" and "small_turn t" and "apart (ts @ [t])"
  shows "spoken_ms w (ts @ [t]) s = spoken_ms w ts s + (if tn_speaker t = s then max 0 (turn_overlap w t) else 0)"
proof (cases "tn_speaker t = s")
  case True
  let ?I = "{w_start_ms w..<w_end_ms w}"
  have "\<forall>u\<in>set ts. tn_speaker u = s \<longrightarrow> tn_end u < tn_start t"
    using assms(3)[unfolded apart_def, rule_format, of s] True by (simp add: sorted_wrt_append)
  then have "(?I \<inter> covered s ts) \<inter> (?I \<inter> {tn_start t..<tn_end t}) = {}"
    by (fastforce simp: covered_def)
  moreover have "?I \<inter> covered s (ts @ [t]) = (?I \<inter> covered s ts) \<union> (?I \<inter> {tn_start t..<tn_end t})"
    using True by auto
  ultimately have "card (?I \<inter> covered s (ts @ [t])) = card (?I \<inter> covered s ts) + card (?I \<inter> {tn_start t..<tn_end t})"
    by (simp add: card_Un_disjoint)
  then show ?thesis unfolding spoken_ms_def using True turn_overlap_card[OF assms(1,2)] by simp
qed (simp add: spoken_ms_def)

lemma spoken_ms_bounds: "small_word w \<Longrightarrow> 0 \<le> spoken_ms w ts s \<and> spoken_ms w ts s \<le> 2 ^ 62"
proof -
  assume w: "small_word w"
  have "card ({w_start_ms w..<w_end_ms w} \<inter> covered s ts) \<le> card {w_start_ms w..<w_end_ms w}"
    by (rule card_mono) auto
  then have "spoken_ms w ts s \<le> max 0 (w_end_ms w - w_start_ms w)" by (simp add: spoken_ms_def)
  also have "\<dots> \<le> 2 ^ 62" using w by (simp add: small_word_def small_ms_def)
  finally show ?thesis by (simp add: spoken_ms_def)
qed

lemma card_max_pos:
  assumes "finite A" and "int (card A) = max 0 d"
  shows "A \<noteq> {} \<longleftrightarrow> 0 < d"
proof
  assume "A \<noteq> {}"
  with assms(1) have "0 < card A" by (simp add: card_gt_0_iff)
  with assms(2) show "0 < d" by linarith
next
  assume "0 < d"
  with assms(2) show "A \<noteq> {}" by auto
qed

lemma spoken_ms_pos:
  assumes "small_word w" and "\<forall>t\<in>set ts. small_turn t"
  shows "0 < spoken_ms w ts s \<longleftrightarrow> s \<in> set (map tn_speaker (filter (\<lambda>t. 0 < turn_overlap w t) ts))"
proof -
  let ?I = "{w_start_ms w..<w_end_ms w}"
  have "0 < spoken_ms w ts s \<longleftrightarrow> ?I \<inter> covered s ts \<noteq> {}" by (auto simp: spoken_ms_def card_gt_0_iff)
  also have "\<dots> \<longleftrightarrow> (\<exists>t\<in>set ts. tn_speaker t = s \<and> ?I \<inter> {tn_start t..<tn_end t} \<noteq> {})"
    unfolding covered_def by blast
  also have "\<dots> \<longleftrightarrow> (\<exists>t\<in>set ts. tn_speaker t = s \<and> 0 < turn_overlap w t)"
  proof (intro bex_cong refl conj_cong)
    fix t assume "t \<in> set ts"
    with assms have "int (card (?I \<inter> {tn_start t..<tn_end t})) = max 0 (turn_overlap w t)"
      by (intro turn_overlap_card) auto
    then show "?I \<inter> {tn_start t..<tn_end t} \<noteq> {} \<longleftrightarrow> 0 < turn_overlap w t"
      by (rule card_max_pos[rotated]) simp
  qed
  also have "\<dots> \<longleftrightarrow> s \<in> set (map tn_speaker (filter (\<lambda>t. 0 < turn_overlap w t) ts))" by auto
  finally show ?thesis .
qed

lemma add_overlap_map:
  assumes "distinct ks"
  shows "add_overlap s d (map (\<lambda>k. (k, f k)) ks) =
    (if s \<in> set ks then map (\<lambda>k. (k, if k = s then wrap64 (f s + d) else f k)) ks
     else map (\<lambda>k. (k, f k)) ks @ [(s, d)])"
  using assms by (induction ks) auto

lemma first_seen_snoc: "first_seen (xs @ [x]) = (if x \<in> set xs then first_seen xs else first_seen xs @ [x])"
proof -
  have "first_seen_from seen (xs @ [x]) =
      (if x \<in> set xs \<union> set seen then first_seen_from seen xs else first_seen_from seen xs @ [x])" for seen
    by (induction xs arbitrary: seen) auto
  then show ?thesis by (simp add: first_seen_def)
qed

lemma overlap_sums_eq:
  assumes "small_word w" and "\<forall>t\<in>set ts. small_turn t" and "apart ts"
  shows "overlap_sums w ts = map (\<lambda>s. (s, spoken_ms w ts s))
    (first_seen (map tn_speaker (filter (\<lambda>t. 0 < turn_overlap w t) ts)))"
  using assms(2,3)
proof (induction ts rule: rev_induct)
  case Nil
  then show ?case by (simp add: overlap_sums_def first_seen_def)
next
  case (snoc t ts)
  let ?o = "\<lambda>ts. first_seen (map tn_speaker (filter (\<lambda>t. 0 < turn_overlap w t) ts))"
  have ap: "apart ts" using snoc.prems(2) by (simp add: apart_def sorted_wrt_append)
  have t: "small_turn t" and ts: "\<forall>t\<in>set ts. small_turn t" using snoc.prems(1) by auto
  note ih = snoc.IH[OF ts ap]
  note am = spoken_ms_snoc[OF assms(1) t snoc.prems(2)]
  have step: "overlap_sums w (ts @ [t]) =
     (if turn_overlap w t \<le> 0 then overlap_sums w ts else add_overlap (tn_speaker t) (turn_overlap w t) (overlap_sums w ts))"
    by (simp add: overlap_sums_def)
  show ?case
  proof (cases "turn_overlap w t \<le> 0")
    case True
    then have "spoken_ms w (ts @ [t]) s = spoken_ms w ts s" for s by (simp add: am)
    with True show ?thesis unfolding step ih by simp
  next
    case False
    show ?thesis
    proof (cases "tn_speaker t \<in> set (?o ts)")
      case True
      have "wrap64 (spoken_ms w ts (tn_speaker t) + turn_overlap w t) = spoken_ms w (ts @ [t]) (tn_speaker t)"
        using False spoken_ms_bounds[OF assms(1), of "ts @ [t]" "tn_speaker t"] am[of "tn_speaker t"]
        by (subst wrap64_id) (simp_all add: in_i64_def min_i64_def max_i64_def)
      moreover have "spoken_ms w (ts @ [t]) k = spoken_ms w ts k" if "k \<noteq> tn_speaker t" for k
        using that by (simp add: am)
      ultimately show ?thesis unfolding step ih using True False
        by (auto simp: add_overlap_map first_seen_snoc)
    next
      case new: False
      then have "\<not> 0 < spoken_ms w ts (tn_speaker t)"
        unfolding spoken_ms_pos[OF assms(1) ts] by simp
      then have t_new: "spoken_ms w (ts @ [t]) (tn_speaker t) = turn_overlap w t"
        using False spoken_ms_bounds[OF assms(1), of ts "tn_speaker t"] by (simp add: am)
      have "spoken_ms w (ts @ [t]) k = spoken_ms w ts k" if "k \<noteq> tn_speaker t" for k
        using that by (simp add: am)
      then have "map (\<lambda>k. (k, spoken_ms w ts k)) (?o ts) = map (\<lambda>k. (k, spoken_ms w (ts @ [t]) k)) (?o ts)"
        using new by (intro map_cong refl) (metis (no_types, lifting))
      with t_new new False show ?thesis unfolding step ih
        by (simp add: add_overlap_map first_seen_snoc)
    qed
  qed
qed

subsection \<open>The rule for words\<close>

lemma find_first_seen: "find P (first_seen xs) = find P xs"
proof -
  have "find P (first_seen_from seen xs) = find P xs" if "\<forall>x\<in>set seen. \<not> P x" for seen
    using that by (induction xs arbitrary: seen) auto
  then show ?thesis by (simp add: first_seen_def)
qed

lemma find_map: "find P (map f xs) = map_option f (find (P \<circ> f) xs)"
  by (induction xs) auto

lemma find_cong': "(\<And>x. x \<in> set xs \<Longrightarrow> P x = Q x) \<Longrightarrow> find P xs = find Q xs"
  by (induction xs) auto

lemma apart_union: "apart (union_turns turns)"
  by (simp add: apart_def union_speaker_facts)

lemma spoken_ms_union: "spoken_ms w (union_turns turns) s = spoken_ms w (filter usable_turn turns) s"
  by (simp add: spoken_ms_def union_speaker_facts(2))

lemma assign_word_overlap:
  assumes w: "small_word w" and small: "\<forall>t\<in>set U. small_turn t" and "apart U" and "0 < spoken_ms w U s0"
  shows "find (\<lambda>s. \<forall>s'. spoken_ms w U s' \<le> spoken_ms w U s)
      (map tn_speaker (filter (\<lambda>t. 0 < turn_overlap w t) U)) = Some (assign_word U w)"
proof -
  let ?o = "map tn_speaker (filter (\<lambda>t. 0 < turn_overlap w t) U)"
  let ?sums = "map (\<lambda>s. (s, spoken_ms w U s)) (first_seen ?o)"
  note sums = overlap_sums_eq[OF w small assms(3)]
  have ne: "?sums \<noteq> []" using assms(4) spoken_ms_pos[OF w small, of s0] by (auto simp: filter_empty_conv)
  then obtain x xs where xs: "?sums = x # xs" by (cases ?sums) auto
  have "find (\<lambda>x. \<forall>y\<in>set ?sums. snd y \<le> snd x) ?sums = Some (keep_best snd x xs)"
    unfolding xs by (rule keep_best_find)
  then have "find ((\<lambda>x. \<forall>y\<in>set ?sums. snd y \<le> snd x) \<circ> (\<lambda>s. (s, spoken_ms w U s))) (first_seen ?o) \<noteq> None
      \<and> map_option (\<lambda>s. (s, spoken_ms w U s))
        (find ((\<lambda>x. \<forall>y\<in>set ?sums. snd y \<le> snd x) \<circ> (\<lambda>s. (s, spoken_ms w U s))) (first_seen ?o)) = Some (keep_best snd x xs)"
    unfolding find_map by auto
  then have f: "find (\<lambda>s. \<forall>s'\<in>set ?o. spoken_ms w U s' \<le> spoken_ms w U s) (first_seen ?o) = Some (fst (keep_best snd x xs))"
    by (auto simp: comp_def dest: arg_cong[of _ _ fst])
  have all: "(\<forall>s'\<in>set ?o. spoken_ms w U s' \<le> spoken_ms w U s) \<longleftrightarrow> (\<forall>s'. spoken_ms w U s' \<le> spoken_ms w U s)" for s
  proof -
    have "spoken_ms w U s' \<le> spoken_ms w U s" if "s' \<notin> set ?o" for s'
      using that spoken_ms_pos[OF w small, of s'] spoken_ms_bounds[OF w, of U s] by linarith
    then show ?thesis by blast
  qed
  have "assign_word U w = fst (keep_best snd x xs)"
    unfolding assign_word_def sums xs by (simp add: best_sum_keep)
  with f show ?thesis unfolding find_first_seen all by simp
qed

lemma assign_word_gap:
  assumes w: "small_word w" and small: "\<forall>t\<in>set U. small_turn t" and "apart U" and "U \<noteq> []"
    and none: "\<forall>s. spoken_ms w U s \<le> 0"
  shows "map_option tn_speaker (find (\<lambda>t. \<forall>t'\<in>set U. turn_gap w t \<le> turn_gap w t') U) = Some (assign_word U w)"
proof -
  obtain t ts where U: "U = t # ts" using assms(4) by (cases U) auto
  let ?o = "map tn_speaker (filter (\<lambda>t. 0 < turn_overlap w t) U)"
  have "set ?o = {}"
    using none spoken_ms_pos[OF w small] by (metis equals0I not_less)
  then have "overlap_sums w U = []" unfolding overlap_sums_eq[OF w small assms(3)]
    by (simp only: set_empty) (simp add: first_seen_def)
  then have "assign_word U w = tn_speaker (keep_best (\<lambda>t. - turn_gap w t) t ts)"
    by (simp add: assign_word_def U nearest_turn_keep)
  then show ?thesis using keep_best_find[of t ts "\<lambda>t. - turn_gap w t"] by (simp add: U)
qed

lemma assign_word_mem:
  assumes "U \<noteq> []" shows "assign_word U w \<in> set (map tn_speaker U)"
proof -
  have kb: "keep_best f x xs \<in> set (x # xs)" for f :: "'b \<Rightarrow> int" and x xs
    by (induction f x xs rule: keep_best.induct) auto
  have sums: "fst ` set (overlap_sums w ts) \<subseteq> tn_speaker ` set ts" for ts
  proof (induction ts rule: rev_induct)
    case (snoc t ts)
    have "set (map fst (add_overlap s d xs)) = insert s (set (map fst xs))" for s d xs
      by (induction s d xs rule: add_overlap.induct) (simp_all del: set_map add: insert_commute)
    with snoc show ?case by (auto simp: overlap_sums_def)
  qed (simp add: overlap_sums_def)
  show ?thesis
  proof (cases "overlap_sums w U")
    case Nil
    obtain t ts where U: "U = t # ts" using assms by (cases U) auto
    with Nil kb[of "\<lambda>t. - turn_gap w t" t ts] show ?thesis
      by (auto simp: assign_word_def nearest_turn_keep)
  next
    case (Cons x xs)
    with kb[of snd x xs] sums[of U] show ?thesis by (auto simp: assign_word_def best_sum_keep)
  qed
qed

lemma small_union:
  assumes "\<forall>t\<in>set turns. small_turn t" shows "\<forall>t\<in>set (union_turns turns). small_turn t"
proof
  fix t assume t: "t \<in> set (union_turns turns)"
  let ?c = "covered (tn_speaker t) (filter usable_turn turns)"
  have "usable_turn t" using union_speaker_facts(3)[OF t] .
  then have "tn_start t \<in> ?c" "tn_end t - 1 \<in> ?c"
    unfolding union_speaker_facts(2)[symmetric] using t by (auto simp: covered_def usable_turn_def intro!: bexI[of _ t])
  with assms show "small_turn t" by (fastforce simp: covered_def small_turn_def small_ms_def)
qed

text \<open>Reference: whom a word belongs to, given the merged turns.\<close>

definition expected_speaker :: "stt_word \<Rightarrow> speaker_turn list \<Rightarrow> int option" where
  "expected_speaker w turns =
     (let ms = spoken_ms w (filter usable_turn turns); U = union_turns turns in
      if \<exists>s. 0 < ms s
      then find (\<lambda>s. \<forall>s'. ms s' \<le> ms s) (map tn_speaker (filter (\<lambda>t. 0 < turn_overlap w t) U))
      else map_option tn_speaker (find (\<lambda>t. \<forall>t'\<in>set U. turn_gap w t \<le> turn_gap w t') U))"

text \<open>
  C16: for every word assignWordsToTurns answers with the speaker whose turns, overlapping ones
  counted once, cover most of the word's milliseconds, the first in turn order among equals; a word
  no turn covers goes to the nearest turn, again the first among equals; without a usable turn it
  answers nil.  Times up to 2^61 ms in absolute value.
\<close>

theorem assign_words_exact:
  assumes "\<forall>w\<in>set ws. small_word w" and "\<forall>t\<in>set turns. small_turn t"
  shows "case assign_words_to_turns ws turns of
      None \<Rightarrow> \<not> (\<exists>t\<in>set turns. usable_turn t)
    | Some out \<Rightarrow> (\<exists>t\<in>set turns. usable_turn t) \<and> map Some out = map (\<lambda>w. expected_speaker w turns) ws"
proof (cases "union_turns turns = []")
  case True
  then show ?thesis using union_empty_iff[of turns] by (simp add: assign_words_to_turns_def Let_def)
next
  case False
  note small = small_union[OF assms(2)] and ap = apart_union[of turns]
  have "expected_speaker w turns = Some (assign_word (union_turns turns) w)" if "w \<in> set ws" for w
  proof (cases "\<exists>s. 0 < spoken_ms w (union_turns turns) s")
    case True
    then obtain s where "0 < spoken_ms w (union_turns turns) s" ..
    from assign_word_overlap[OF _ small ap this] assms(1) that True show ?thesis
      by (simp add: expected_speaker_def Let_def spoken_ms_union)
  next
    case none: False
    then have "\<forall>s. spoken_ms w (union_turns turns) s \<le> 0" by (simp add: not_less)
    from assign_word_gap[OF _ small ap False this] assms(1) that none show ?thesis
      by (simp add: expected_speaker_def Let_def spoken_ms_union del: not_less not_less_iff_gr_or_eq)
  qed
  then show ?thesis using False union_empty_iff[of turns]
    by (simp add: assign_words_to_turns_def Let_def comp_def)
qed

subsection \<open>Splitting keeps the words\<close>

lemma mset_by_class:
  "distinct ns \<Longrightarrow> mset (concat (map (\<lambda>n. filter (\<lambda>x. f x = n) xs) ns)) = filter_mset (\<lambda>x. f x \<in> set ns) (mset xs)"
proof (induction ns)
  case (Cons n ns)
  have "filter_mset (\<lambda>x. f x = n) M + filter_mset (\<lambda>x. f x \<in> set ns) M = filter_mset (\<lambda>x. f x \<in> set (n # ns)) M" for M
    using Cons.prems by (induction M) auto
  with Cons show ?case by (simp add: mset_filter)
qed simp

lemma assigned_ordinals:
  assumes "assign_words_to_turns ws turns = Some assigned" and "s \<in> set assigned"
  shows "voice_ordinal turns s \<in> set [1..<Suc (length (voice_order turns))]"
proof -
  from assms(1) have ne: "union_turns turns \<noteq> []" and a: "assigned = map (assign_word (union_turns turns)) ws"
    by (auto simp: assign_words_to_turns_def Let_def split: if_splits)
  from a assms(2) obtain w where "s = assign_word (union_turns turns) w" by auto
  with assign_word_mem[OF ne, of w] obtain t where "t \<in> set (union_turns turns)" "s = tn_speaker t" by auto
  with union_speakers have "s \<in> set (map tn_speaker (filter usable_turn turns))" by blast
  from voice_ordinal_range[OF this] show ?thesis by auto
qed

lemma other_units:
  "all_units (filter (\<lambda>s. \<not> parent_segment parent s) segs) = filter (\<lambda>u. fst u \<noteq> parent) (all_units segs)"
proof (induction segs)
  case (Cons s segs)
  have "filter (\<lambda>u. fst u \<noteq> parent) (segment_words s) = (if sg_speaker s = parent then [] else segment_words s)"
    by (auto simp: segment_words_def filter_empty_conv filter_id_conv)
  with Cons show ?case by (auto simp: parent_segment_def segment_words_def)
qed simp

lemma parent_units:
  "mset (map (Pair parent) (parent_words parent segs)) = mset (filter (\<lambda>u. fst u = parent) (all_units segs))"
proof -
  have "map (Pair parent) (concat (map sg_words (filter (parent_segment parent) segs))) =
      filter (\<lambda>u. fst u = parent) (all_units segs)"
  proof (induction segs)
    case (Cons s segs)
    have "filter (\<lambda>u. fst u = parent) (segment_words s) = (if sg_speaker s = parent then segment_words s else [])"
      by (auto simp: segment_words_def filter_empty_conv filter_id_conv)
    with Cons show ?case by (auto simp: parent_segment_def segment_words_def)
  qed simp
  then show ?thesis by (metis mset_map mset_sort parent_words_def)
qed

definition voiced :: "string \<Rightarrow> speaker_turn list \<Rightarrow> int list \<Rightarrow> stt_word list \<Rightarrow> attributed list" where
  "voiced parent turns assigned ws =
     map (\<lambda>(s, w). (sub_speaker_id parent (int (voice_ordinal turns s)), w)) (zip assigned ws)"

lemma voice_units:
  assumes "assign_words_to_turns ws turns = Some assigned"
  shows "mset (concat (map (\<lambda>n. segment_words (voice_segment parent n (voice_words turns assigned ws n)))
      (filter (\<lambda>n. voice_words turns assigned ws n \<noteq> []) [1..<Suc (length (voice_order turns))])))
    = mset (voiced parent turns assigned ws)"
proof -
  let ?ns = "[1..<Suc (length (voice_order turns))]"
  let ?z = "zip assigned ws" and ?g = "\<lambda>(s, w). (sub_speaker_id parent (int (voice_ordinal turns s)), w)"
  let ?c = "\<lambda>n. filter (\<lambda>x. voice_ordinal turns (fst x) = n) ?z"
  have seg: "segment_words (voice_segment parent n (voice_words turns assigned ws n)) = map ?g (?c n)" for n
    by (auto simp: segment_words_def voice_segment_def voice_words_def case_prod_unfold intro!: map_cong)
  have drop: "concat (map f (filter (\<lambda>n. voice_words turns assigned ws n \<noteq> []) ns)) = concat (map f ns)"
    if "\<And>n. voice_words turns assigned ws n = [] \<Longrightarrow> f n = []" for f :: "nat \<Rightarrow> 'c list" and ns
    using that by (induction ns) auto
  have "mset (concat (map (map ?g \<circ> ?c) ?ns)) = image_mset ?g (mset (concat (map ?c ?ns)))"
    by (simp add: map_concat flip: mset_map)
  also have "mset (concat (map ?c ?ns)) = filter_mset (\<lambda>x. voice_ordinal turns (fst x) \<in> set ?ns) (mset ?z)"
    by (rule mset_by_class) simp
  also have "\<dots> = mset ?z"
  proof -
    have "\<forall>x\<in>set ?z. voice_ordinal turns (fst x) \<in> set ?ns"
    proof
      fix x assume "x \<in> set ?z"
      then have "fst x \<in> set assigned" by (metis prod.collapse set_zip_leftD)
      then show "voice_ordinal turns (fst x) \<in> set ?ns" by (rule assigned_ordinals[OF assms])
    qed
    then show ?thesis by (simp add: filter_mset_eq_conv del: set_upt)
  qed
  finally have "mset (concat (map (map ?g \<circ> ?c) ?ns)) = mset (voiced parent turns assigned ws)"
    unfolding voiced_def by (simp only: mset_map)
  moreover have "concat (map (\<lambda>n. segment_words (voice_segment parent n (voice_words turns assigned ws n)))
      (filter (\<lambda>n. voice_words turns assigned ws n \<noteq> []) ?ns)) = concat (map (map ?g \<circ> ?c) ?ns)"
    by (subst drop) (auto simp: segment_words_def voice_segment_def comp_def simp flip: seg)
  ultimately show ?thesis by simp
qed

lemma split_keeps:
  assumes "split_speaker_segments segs parent turns = (out, res)"
  shows "case (parent_words parent segs, assign_words_to_turns (parent_words parent segs) turns) of
      (w # ws, Some assigned) \<Rightarrow>
        mset (all_units out) = mset (filter (\<lambda>u. fst u \<noteq> parent) (all_units segs))
          + mset (voiced parent turns assigned (w # ws)) \<and>
        sum_list (sr_words_per_speaker res) = length (filter (\<lambda>u. fst u = parent) (all_units segs)) \<and>
        length (sr_words_per_speaker res) = length (sr_sub_speaker_ids res)
    | _ \<Rightarrow> out = segs \<and> sr_sub_speaker_ids res = []"
proof (cases "parent_words parent segs")
  case Nil
  with assms show ?thesis by (auto simp: split_speaker_segments_def Let_def)
next
  case (Cons w ws)
  show ?thesis
  proof (cases "assign_words_to_turns (w # ws) turns")
    case None
    with Cons assms show ?thesis by (auto simp: split_speaker_segments_def Let_def)
  next
    case (Some assigned)
    let ?vs = "filter (\<lambda>n. voice_words turns assigned (w # ws) n \<noteq> []) [1..<Suc (length (voice_order turns))]"
    let ?vw = "voice_words turns assigned (w # ws)"
    let ?rest = "filter (\<lambda>s. \<not> parent_segment parent s) segs"
    have out: "out = merge_and_sort_segments (map (\<lambda>s. [s]) ?rest @ map (\<lambda>n. [voice_segment parent n (?vw n)]) ?vs)"
      and res: "sr_words_per_speaker res = map (\<lambda>n. length (?vw n)) ?vs" "length (sr_sub_speaker_ids res) = length ?vs"
      using assms Cons Some by (auto simp: split_speaker_segments_def Let_def)
    have one: "concat (map (\<lambda>x. [f x]) xs) = map f xs" for f :: "'d \<Rightarrow> segment" and xs by (induction xs) auto
    have "mset (all_units out) = mset (merge_words (map (\<lambda>s. [s]) ?rest @ map (\<lambda>n. [voice_segment parent n (?vw n)]) ?vs))"
      unfolding out conjunct1[OF merge_keeps[OF refl]] by (simp add: word_order.srt_mset)
    also have "\<dots> = mset (all_units ?rest) + mset (concat (map (\<lambda>n. segment_words (voice_segment parent n (?vw n))) ?vs))"
      by (simp add: merge_words_def all_units_def one comp_def)
    also have "\<dots> = mset (filter (\<lambda>u. fst u \<noteq> parent) (all_units segs)) + mset (voiced parent turns assigned (w # ws))"
      unfolding voice_units[OF Some] other_units ..
    finally have m: "mset (all_units out) = mset (filter (\<lambda>u. fst u \<noteq> parent) (all_units segs))
        + mset (voiced parent turns assigned (w # ws))" .
    have "sum_list (map (\<lambda>n. length (?vw n)) ?vs)
        = length (concat (map (\<lambda>n. segment_words (voice_segment parent n (?vw n))) ?vs))"
      by (simp add: length_concat comp_def segment_words_def voice_segment_def)
    also have "\<dots> = length (voiced parent turns assigned (w # ws))"
      using arg_cong[OF voice_units[OF Some], of size parent] by (simp only: size_mset)
    also have "\<dots> = length (w # ws)"
      using Some by (auto simp: voiced_def assign_words_to_turns_def Let_def split: if_splits)
    also have "\<dots> = length (filter (\<lambda>u. fst u = parent) (all_units segs))"
      using arg_cong[OF parent_units[of parent segs], of size] unfolding Cons
      by (simp only: size_mset length_map)
    finally have "sum_list (sr_words_per_speaker res) = length (filter (\<lambda>u. fst u = parent) (all_units segs))"
      unfolding res(1) .
    with m Some Cons res show ?thesis by simp
  qed
qed

text \<open>
  Splitting a device's stream keeps every word: either nothing changes and no voice is
  listed (no usable turn, or no words of the device), or the words of every other speaker stay with
  them and each word of the device goes, unchanged, to the voice numbered by its assigned diarizer
  speaker; the listed counts add up to the device's words.
\<close>

theorem split_keeps_words:
  assumes "split_speaker_segments segs parent turns = (out, res)"
  shows "case (parent_words parent segs, assign_words_to_turns (parent_words parent segs) turns) of
      (w # ws, Some assigned) \<Rightarrow>
        mset (all_units out) = mset (filter (\<lambda>u. fst u \<noteq> parent) (all_units segs))
          + mset (voiced parent turns assigned (w # ws)) \<and>
        sum_list (sr_words_per_speaker res) = length (filter (\<lambda>u. fst u = parent) (all_units segs)) \<and>
        length (sr_words_per_speaker res) = length (sr_sub_speaker_ids res)
    | _ \<Rightarrow> out = segs \<and> sr_sub_speaker_ids res = []"
  by (rule split_keeps) (rule assms)

subsection \<open>Concrete instances\<close>

definition ex_turns :: "speaker_turn list" where
  "ex_turns = [\<lparr>tn_start = 0, tn_end = 250, tn_speaker = 4\<rparr>, \<lparr>tn_start = 200, tn_end = 900, tn_speaker = 1\<rparr>,
     \<lparr>tn_start = 100, tn_end = 260, tn_speaker = 4\<rparr>]"

theorem assign_words_exact_witness:
  "expected_speaker (ex_word ''a'' 210 300) ex_turns = Some 1 \<and>
   expected_speaker (ex_word ''b'' 950 950) ex_turns = Some 1"
proof -
  let ?ws = "[ex_word ''a'' 210 300, ex_word ''b'' 950 950]"
  have "assign_words_to_turns ?ws ex_turns = Some [1, 1]" by code_simp
  moreover have "\<forall>w\<in>set ?ws. small_word w" "\<forall>t\<in>set ex_turns. small_turn t" by code_simp+
  ultimately have "map Some [1, 1] = map (\<lambda>w. expected_speaker w ex_turns) ?ws"
    using assign_words_exact[of ?ws ex_turns] by (simp only: option.case)
  then show ?thesis unfolding list.map list.inject by (intro conjI) (elim conjE, erule sym)+
qed

theorem split_keeps_words_witness:
  "case split_speaker_segments (concat ex_segments) ''ann'' ex_turns of (out, res) \<Rightarrow>
     sr_sub_speaker_ids res = [''ann~1'', ''ann~2''] \<and> sr_words_per_speaker res = [1, 1] \<and>
     sum_list (sr_words_per_speaker res) = length (filter (\<lambda>u. fst u = ''ann'') (all_units (concat ex_segments)))"
proof -
  obtain out res where s: "split_speaker_segments (concat ex_segments) ''ann'' ex_turns = (out, res)"
    by (cases "split_speaker_segments (concat ex_segments) ''ann'' ex_turns")
  have ids: "sr_sub_speaker_ids (snd (split_speaker_segments (concat ex_segments) ''ann'' ex_turns)) = [''ann~1'', ''ann~2'']"
    "sr_words_per_speaker (snd (split_speaker_segments (concat ex_segments) ''ann'' ex_turns)) = [1, 1]"
    by code_simp+
  have "parent_words ''ann'' (concat ex_segments) = [ex_word ''so'' 0 200, ex_word ''yes'' 300 600]" by code_simp
  with split_keeps_words[OF s] ids s show ?thesis
    by (auto split: option.splits)
qed

end
