(* ===== verification/Speaker_Edits.thy ===== *)
theory Speaker_Edits
  imports Voices
begin

text \<open>
  People's edits to a meeting's speakers (\<open>internal/transcribe/speaker_edits.go\<close> of the
  recorder): the document and its validation, voice ids and default labels, and
  \<open>ApplySpeakerEdits\<close>, which replays splits, merges and names on the original transcript.
  The strict JSON decoding of \<open>ParseSpeakerEdits\<close> is not modelled; the turn sets are a partial
  function from participant ids.
\<close>


subsection \<open>The edits document\<close>

definition speaker_edits_format :: string where "speaker_edits_format = ''cassini.speaker-edits.v1''"
definition max_speaker_label_runes :: nat where "max_speaker_label_runes = 64"

record speaker_merge =
  sm_from :: string
  sm_into :: string

record speaker_label =
  sl_speaker :: string
  sl_label :: string

record speaker_edits =
  ed_format :: string
  ed_revision :: int
  ed_splits :: "string list"
  ed_merges :: "speaker_merge list"
  ed_labels :: "speaker_label list"

datatype label_err = LabelLength | LabelSpaces | LabelControl

datatype edits_err =
    BadFormat string
  | NegativeRevision
  | CannotSplit string
  | SplitTwice string
  | InvalidMerge string string
  | MergedTwice string
  | MergeChain string string
  | LabelWithoutSpeaker
  | LabelledTwice string
  | BadLabel label_err
  | TurnsMismatch string string

definition validate_speaker_label :: "string \<Rightarrow> (label_err, unit) res" where
  "validate_speaker_label label =
     (let n = rune_count label in
      if n = 0 \<or> n > max_speaker_label_runes then Inl LabelLength
      else if trim_space label \<noteq> label then Inl LabelSpaces
      else if list_ex is_control (rune_list label) then Inl LabelControl
      else Inr ())"

subsection \<open>Voice ids and labels\<close>

text \<open>\<open>strings.LastIndex\<close>.\<close>

definition last_index :: "string \<Rightarrow> string \<Rightarrow> nat option" where
  "last_index sub s = find (\<lambda>i. take (length sub) (drop i s) = sub) (rev [0..<Suc (length s)])"

definition is_voice_id :: "string \<Rightarrow> bool" where
  "is_voice_id i \<longleftrightarrow> CHR ''~'' \<in> set i"

definition voice_parent :: "string \<Rightarrow> string" where
  "voice_parent i = (case last_index ''~'' i of Some k \<Rightarrow> if k > 0 then take k i else [] | None \<Rightarrow> [])"

text \<open>
  \<open>fmt.Sscanf(s, "%d", &n)\<close>: white space but no newline, a sign, digits; \<open>None\<close> when
  scanning fails, which leaves \<open>n\<close> alone.
\<close>

definition sscanf_d :: "string \<Rightarrow> int option" where
  "sscanf_d s =
     (let rest = trim_left s; skipped = take (length s - length rest) s;
          sign = (case rest of c # _ \<Rightarrow> if c \<in> {CHR ''+'', CHR ''-''} then [c] else [] | [] \<Rightarrow> []);
          digits = takeWhile is_digit (drop (length sign) rest);
          v = (if sign = ''-'' then - int (digits_value digits) else int (digits_value digits)) in
      if CHR 10 \<in> set skipped \<or> digits = [] \<or> \<not> in_i64 v then None else Some v)"

definition voice_number :: "string \<Rightarrow> int" where
  "voice_number i =
     (case last_index ''~'' i of
        Some k \<Rightarrow> if k > 0 then (case sscanf_d (drop (Suc k) i) of Some n \<Rightarrow> n | None \<Rightarrow> 0) else 0
      | None \<Rightarrow> 0)"

definition voice_separator :: string where
  "voice_separator = [CHR '' '', CHR 0xC2, CHR 0xB7] @ '' Speaker ''"

definition default_voice_label :: "string \<Rightarrow> int \<Rightarrow> string" where
  "default_voice_label parent_label n = parent_label @ voice_separator @ itoa n"

definition trim_digits :: "string \<Rightarrow> string" where
  "trim_digits s = rev (dropWhile is_digit (rev (dropWhile is_digit s)))"

definition device_label_from_voice_label :: "string \<Rightarrow> string" where
  "device_label_from_voice_label label =
     (case last_index voice_separator label of
        None \<Rightarrow> []
      | Some i \<Rightarrow>
          if i = 0 then []
          else let n = drop (i + length voice_separator) label in
            if n = [] \<or> trim_digits n \<noteq> [] then [] else take i label)"

subsection \<open>Validation\<close>

fun validate_splits :: "string list \<Rightarrow> string list \<Rightarrow> (edits_err, unit) res" where
  "validate_splits seen [] = Inr ()"
| "validate_splits seen (s # ss) =
     (if s = [] \<or> is_voice_id s then Inl (CannotSplit s)
      else if s \<in> set seen then Inl (SplitTwice s)
      else validate_splits (s # seen) ss)"

fun validate_merges :: "string list \<Rightarrow> speaker_merge list \<Rightarrow> (edits_err, unit) res" where
  "validate_merges merged [] = Inr ()"
| "validate_merges merged (m # ms) =
     (if \<not> is_voice_id (sm_from m) \<or> \<not> is_voice_id (sm_into m) \<or> sm_from m = sm_into m
         \<or> voice_parent (sm_from m) \<noteq> voice_parent (sm_into m)
      then Inl (InvalidMerge (sm_from m) (sm_into m))
      else if sm_from m \<in> set merged then Inl (MergedTwice (sm_from m))
      else validate_merges (sm_from m # merged) ms)"

fun validate_chains :: "string list \<Rightarrow> speaker_merge list \<Rightarrow> (edits_err, unit) res" where
  "validate_chains merged [] = Inr ()"
| "validate_chains merged (m # ms) =
     (if sm_into m \<in> set merged then Inl (MergeChain (sm_from m) (sm_into m)) else validate_chains merged ms)"

fun validate_labels :: "string list \<Rightarrow> speaker_label list \<Rightarrow> (edits_err, unit) res" where
  "validate_labels labelled [] = Inr ()"
| "validate_labels labelled (l # ls) =
     (if sl_speaker l = [] then Inl LabelWithoutSpeaker
      else if sl_speaker l \<in> set labelled then Inl (LabelledTwice (sl_speaker l))
      else case validate_speaker_label (sl_label l) of
        Inl e \<Rightarrow> Inl (BadLabel e)
      | Inr _ \<Rightarrow> validate_labels (sl_speaker l # labelled) ls)"

definition validate_edits :: "speaker_edits \<Rightarrow> (edits_err, unit) res" where
  "validate_edits d =
     (if ed_format d \<noteq> speaker_edits_format then Inl (BadFormat (ed_format d))
      else if ed_revision d < 0 then Inl NegativeRevision
      else bind_r (validate_splits [] (ed_splits d)) (\<lambda>_.
           bind_r (validate_merges [] (ed_merges d)) (\<lambda>_.
           bind_r (validate_chains (map sm_from (ed_merges d)) (ed_merges d)) (\<lambda>_.
           validate_labels [] (ed_labels d)))))"

subsection \<open>Applying the edits\<close>

record roster_entry =
  ro_id :: string
  ro_label :: string

text \<open>The part of a stored \<open>SpeakerTurnSet\<close> the edits use.\<close>

record turn_set =
  ts_speaker_id :: string
  ts_turns :: "speaker_turn list"

record edits_report =
  er_splits :: "split_result list"
  er_missing :: "string list"
  er_inconclusive :: "string list"
  er_merged :: nat

fun apply_splits :: "(string \<Rightarrow> turn_set option) \<Rightarrow> string list \<Rightarrow> segment list \<Rightarrow> edits_report
    \<Rightarrow> (edits_err, segment list \<times> edits_report) res" where
  "apply_splits sets [] segs rep = Inr (segs, rep)"
| "apply_splits sets (s # ss) segs rep =
     (case sets s of
        None \<Rightarrow> apply_splits sets ss segs (rep\<lparr>er_missing := er_missing rep @ [s]\<rparr>)
      | Some tset \<Rightarrow>
          if ts_speaker_id tset \<noteq> s then Inl (TurnsMismatch (ts_speaker_id tset) s)
          else let (out, res) = split_speaker_segments segs s (ts_turns tset);
                   rep' = rep\<lparr>er_splits := er_splits rep @ [res]\<rparr> in
            if length (sr_sub_speaker_ids res) < 2
            then apply_splits sets ss segs (rep'\<lparr>er_inconclusive := er_inconclusive rep' @ [s]\<rparr>)
            else apply_splits sets ss out rep')"

definition merge_target :: "speaker_merge list \<Rightarrow> segment list \<Rightarrow> string \<Rightarrow> string option" where
  "merge_target merges segs s =
     (case map_of (rev (map (\<lambda>m. (sm_from m, sm_into m)) merges)) s of
        Some t \<Rightarrow> if t \<in> sg_speaker ` set segs then Some t else None
      | None \<Rightarrow> None)"

definition apply_merges :: "speaker_merge list \<Rightarrow> segment list \<Rightarrow> segment list \<times> nat" where
  "apply_merges merges segs =
     (let n = length (filter (\<lambda>s. merge_target merges segs (sg_speaker s) \<noteq> None) segs) in
      if merges \<noteq> [] \<and> n > 0
      then (merge_and_sort_segments
              (map (\<lambda>s. [case merge_target merges segs (sg_speaker s) of
                           Some t \<Rightarrow> s\<lparr>sg_speaker := t\<rparr> | None \<Rightarrow> s]) segs), n)
      else (segs, n))"

definition label_for :: "roster_entry list \<Rightarrow> speaker_label list \<Rightarrow> string \<Rightarrow> string" where
  "label_for base_roster labels i =
     (let base = map_of (rev (map (\<lambda>r. (ro_id r, ro_label r)) base_roster)) in
      case map_of (rev (map (\<lambda>l. (sl_speaker l, sl_label l)) labels)) i of
        Some l \<Rightarrow> l
      | None \<Rightarrow> (case base i of
          Some l \<Rightarrow> l
        | None \<Rightarrow>
            let parent = voice_parent i in
            if parent \<noteq> []
            then default_voice_label (case base parent of Some l \<Rightarrow> if l = [] then parent else l | None \<Rightarrow> parent)
                   (voice_number i)
            else i))"

text \<open>
  \<open>firstSeen\<close>, \<open>voicesOf\<close> and the \<open>add\<close> closure, which lists an id once.  \<open>sort.Slice\<close>
  need not be stable; voices of one device that a split produced have distinct numbers.
\<close>

definition seen_speakers :: "segment list \<Rightarrow> string list" where
  "seen_speakers segs = first_seen (filter (\<lambda>i. i \<noteq> []) (map sg_speaker segs))"

definition voices_of :: "string list \<Rightarrow> string \<Rightarrow> string list" where
  "voices_of seen parent = sort_key voice_number (filter (\<lambda>i. voice_parent i \<noteq> [] \<and> voice_parent i = parent) seen)"

definition roster_ids :: "roster_entry list \<Rightarrow> segment list \<Rightarrow> string list" where
  "roster_ids base_roster segs =
     (let seen = seen_speakers segs in
      first_seen (concat (map (\<lambda>r. (if ro_id r \<in> set seen then [ro_id r] else []) @ voices_of seen (ro_id r)) base_roster)
        @ seen))"

definition build_roster :: "roster_entry list \<Rightarrow> speaker_label list \<Rightarrow> segment list \<Rightarrow> roster_entry list" where
  "build_roster base_roster labels segs =
     map (\<lambda>i. \<lparr>ro_id = i, ro_label = label_for base_roster labels i\<rparr>) (roster_ids base_roster segs)"

definition no_edits_report :: edits_report where
  "no_edits_report = \<lparr>er_splits = [], er_missing = [], er_inconclusive = [], er_merged = 0\<rparr>"

definition apply_speaker_edits :: "segment list \<Rightarrow> roster_entry list \<Rightarrow> speaker_edits \<Rightarrow> (string \<Rightarrow> turn_set option)
    \<Rightarrow> (edits_err, segment list \<times> roster_entry list \<times> edits_report) res" where
  "apply_speaker_edits base base_roster doc sets =
     bind_r (validate_edits doc) (\<lambda>_.
     bind_r (apply_splits sets (ed_splits doc) base no_edits_report) (\<lambda>(segs, rep).
       let (out, n) = apply_merges (ed_merges doc) segs in
       Inr (out, build_roster base_roster (ed_labels doc) out,
            rep\<lparr>er_merged := (if ed_merges doc = [] then 0 else n)\<rparr>)))"

subsection \<open>Names can be read back\<close>

lemma last_index_last:
  assumes "k < length sub" and "sub ! k = c" and "c \<notin> set (drop (Suc k) sub @ r)"
  shows "last_index sub (p @ sub @ r) = Some (length p)"
proof -
  let ?s = "p @ sub @ r" and ?P = "\<lambda>i. take (length sub) (drop i (p @ sub @ r)) = sub"
  have later: "\<not> ?P i" if "length p < i" for i
  proof
    assume e: "?P i"
    have "sub ! k = take (length sub) (drop i ?s) ! k" unfolding e ..
    also have "\<dots> = drop i ?s ! k" by (rule nth_take) (rule assms(1))
    finally have c: "drop i ?s ! k = c" using assms(2) by simp
    have "length (take (length sub) (drop i ?s)) = length sub" unfolding e ..
    then have "length sub \<le> length ?s - i" by (simp only: length_take length_drop min_def split: if_splits)
    then have l: "i + k < length ?s" using assms(1) by linarith
    have "c = ?s ! (i + k)" using c l by (subst (asm) nth_drop) simp_all
    also have "\<dots> = (sub @ r) ! (i + k - length p)" using that by (simp add: nth_append)
    also have "\<dots> = drop (Suc k) (sub @ r) ! (i + k - length p - Suc k)"
      using that l by (subst nth_drop) (auto simp: Suc_diff_Suc simp del: drop_append intro!: arg_cong[of _ _ "nth (sub @ r)"])
    also have "\<dots> \<in> set (drop (Suc k) (sub @ r))" using that l by (intro nth_mem) auto
    finally show False using assms(1,3) by simp
  qed
  have split: "rev [0..<Suc (length ?s)] = rev [Suc (length p)..<Suc (length ?s)] @ length p # rev [0..<length p]"
  proof -
    have "[0..<Suc (length ?s)] = [0..<length p] @ [length p..<Suc (length ?s)]"
      using upt_add_eq_append[of 0 "length p" "Suc (length sub + length r)"] by simp
    also have "[length p..<Suc (length ?s)] = length p # [Suc (length p)..<Suc (length ?s)]"
      by (rule upt_conv_Cons) simp
    finally show ?thesis by simp
  qed
  have "find ?P (rev [Suc (length p)..<Suc (length ?s)]) = None"
    using later by (intro find_None_iff[THEN iffD2]) (auto simp del: take_append drop_append upt_Suc)
  then show ?thesis unfolding last_index_def split by (simp add: find_append)
qed

lemma digits_no_char: "list_all is_digit s \<Longrightarrow> \<not> is_digit c \<Longrightarrow> c \<notin> set s"
  by (auto simp: list_all_iff)

lemma itoa_pos: "0 \<le> n \<Longrightarrow> itoa n = itoa_nat (nat n)"
  by (simp add: itoa_def)

lemma last_index_voice: "0 \<le> n \<Longrightarrow> last_index ''~'' (sub_speaker_id p n) = Some (length p)"
  unfolding sub_speaker_id_def
  by (rule last_index_last[where k = 0 and c = "CHR ''~''"])
    (use digits_no_char[OF itoa_nat_digits] in \<open>auto simp: itoa_pos is_digit_def in_range_def byte_def\<close>)

lemma voice_parent_sub: "0 \<le> n \<Longrightarrow> p \<noteq> [] \<Longrightarrow> voice_parent (sub_speaker_id p n) = p"
  by (simp add: voice_parent_def last_index_voice) (simp add: sub_speaker_id_def)

lemma digit_not_space: "is_digit c \<Longrightarrow> lead_space space_encodings (c # s) = 0"
  unfolding lead_space_0_iff[OF space_encodings_nonempty]
  by (auto simp: space_encodings_def is_digit_def in_range_def byte_def)

lemma while_digits [simp]:
  "takeWhile is_digit (itoa_nat n) = itoa_nat n" "dropWhile is_digit (itoa_nat n) = []"
  using itoa_nat_digits[of n] by (simp_all add: takeWhile_eq_all_conv dropWhile_eq_Nil_conv list_all_iff)

lemma sscanf_itoa:
  assumes "int n \<le> max_i64"
  shows "sscanf_d (itoa_nat n) = Some (int n)"
proof -
  obtain c cs where c: "itoa_nat n = c # cs" by (cases "itoa_nat n") (simp_all)
  have d: "list_all is_digit (c # cs)" using itoa_nat_digits[of n] by (simp add: c)
  then have "trim_left (itoa_nat n) = itoa_nat n"
    by (simp add: trim_left_def c strip_lead_id digit_not_space)
  moreover have "(case itoa_nat n of c # _ \<Rightarrow> if c \<in> {CHR ''+'', CHR ''-''} then [c] else [] | [] \<Rightarrow> []) = []"
    using d by (auto simp: c is_digit_def in_range_def byte_def)
  moreover have "in_i64 (int n)" using assms by (simp add: in_i64_def min_i64_def)
  ultimately show ?thesis by (simp add: sscanf_d_def Let_def)
qed

lemma voice_number_sub: "0 \<le> n \<Longrightarrow> n \<le> max_i64 \<Longrightarrow> p \<noteq> [] \<Longrightarrow> voice_number (sub_speaker_id p n) = n"
  using sscanf_itoa[of "nat n"]
  by (simp add: voice_number_def last_index_voice) (simp add: sub_speaker_id_def itoa_pos)

lemma device_label_default:
  assumes "0 \<le> n" and "l \<noteq> []"
  shows "device_label_from_voice_label (default_voice_label l n) = l"
proof -
  have li: "last_index voice_separator (default_voice_label l n) = Some (length l)"
    unfolding default_voice_label_def
    by (rule last_index_last[where k = 1 and c = "CHR 0xC2"])
      (use assms(1) digits_no_char[OF itoa_nat_digits] in
        \<open>auto simp: voice_separator_def itoa_pos is_digit_def in_range_def byte_def\<close>)
  show ?thesis using li assms
    by (simp add: device_label_from_voice_label_def Let_def) (simp add: default_voice_label_def itoa_pos trim_digits_def)
qed

subsection \<open>What the edits keep\<close>

lemma voice_id_sub: "is_voice_id (sub_speaker_id p n)"
  by (simp add: is_voice_id_def sub_speaker_id_def)

lemma voiced_words: "length assigned = length ws \<Longrightarrow> map snd (voiced p turns assigned ws) = ws"
  by (simp add: voiced_def case_prod_unfold comp_def)

lemma image_mset_split:
  "image_mset f (mset (filter (\<lambda>x. \<not> P x) xs)) + image_mset f (mset (filter P xs)) = image_mset f (mset xs)"
  by (induction xs) auto

lemma split_effect:
  assumes "split_speaker_segments segs parent turns = (out, res)"
  shows "mset (map snd (all_units out)) = mset (map snd (all_units segs))"
    and "q \<noteq> parent \<Longrightarrow> \<not> is_voice_id q \<Longrightarrow>
      mset (filter (\<lambda>u. fst u = q) (all_units out)) = mset (filter (\<lambda>u. fst u = q) (all_units segs))"
proof -
  note k = split_keeps[OF assms]
  show "mset (map snd (all_units out)) = mset (map snd (all_units segs))"
  proof (cases "parent_words parent segs")
    case (Cons w ws)
    show ?thesis
    proof (cases "assign_words_to_turns (w # ws) turns")
      case (Some assigned)
      then have len: "length assigned = length (w # ws)"
        by (auto simp: assign_words_to_turns_def Let_def split: if_splits)
      let ?U = "all_units segs"
      from k Cons Some have "mset (all_units out) = mset (filter (\<lambda>u. fst u \<noteq> parent) ?U) + mset (voiced parent turns assigned (w # ws))"
        by simp
      then have "image_mset snd (mset (all_units out)) = image_mset snd (mset (filter (\<lambda>u. fst u \<noteq> parent) ?U))
          + mset (map snd (voiced parent turns assigned (w # ws)))" by simp
      also have "map snd (voiced parent turns assigned (w # ws)) = map snd (map (Pair parent) (parent_words parent segs))"
        unfolding voiced_words[OF len] Cons by (simp add: comp_def)
      also have "mset \<dots> = image_mset snd (mset (filter (\<lambda>u. fst u = parent) ?U))"
        by (metis mset_map parent_units)
      also have "image_mset snd (mset (filter (\<lambda>u. fst u \<noteq> parent) ?U)) + \<dots> = image_mset snd (mset ?U)"
        by (rule image_mset_split)
      finally show ?thesis by simp
    qed (use k Cons in simp)
  qed (use k in simp)
  assume q: "q \<noteq> parent" "\<not> is_voice_id q"
  then have none: "filter (\<lambda>u. fst u = q) (voiced parent turns assigned ws) = []" for assigned ws
    using voice_id_sub by (auto simp: voiced_def filter_empty_conv)
  have other: "filter_mset (\<lambda>u. fst u = q) (filter_mset (\<lambda>u. fst u \<noteq> parent) M) = filter_mset (\<lambda>u. fst u = q) M" for M :: "attributed multiset"
    using q(1) by (simp add: filter_filter_mset) (rule filter_mset_cong; auto)
  have keep: "mset (filter (\<lambda>u. fst u = q) (all_units out)) = mset (filter (\<lambda>u. fst u = q) (all_units segs))"
    if m: "mset (all_units out) = mset (filter (\<lambda>u. fst u \<noteq> parent) (all_units segs)) + mset (voiced parent turns assigned ws)"
    for assigned ws
  proof -
    have "mset (filter (\<lambda>u. fst u = q) (all_units out)) =
        filter_mset (\<lambda>u. fst u = q) (filter_mset (\<lambda>u. fst u \<noteq> parent) (mset (all_units segs)))
        + mset (filter (\<lambda>u. fst u = q) (voiced parent turns assigned ws))"
      unfolding mset_filter m by simp
    then show ?thesis unfolding other none by (simp add: mset_filter)
  qed
  show "mset (filter (\<lambda>u. fst u = q) (all_units out)) = mset (filter (\<lambda>u. fst u = q) (all_units segs))"
  proof (cases "parent_words parent segs")
    case (Cons w ws)
    show ?thesis
    proof (cases "assign_words_to_turns (w # ws) turns")
      case (Some assigned)
      with k Cons show ?thesis by (intro keep) simp
    qed (use k Cons in simp)
  qed (use k in simp)
qed

definition moved :: "speaker_merge list \<Rightarrow> segment list \<Rightarrow> segment \<Rightarrow> segment" where
  "moved merges segs s = (case merge_target merges segs (sg_speaker s) of Some t \<Rightarrow> s\<lparr>sg_speaker := t\<rparr> | None \<Rightarrow> s)"

lemma validate_mergesD:
  "validate_merges seen ms = Inr u \<Longrightarrow> m \<in> set ms \<Longrightarrow> is_voice_id (sm_from m) \<and> is_voice_id (sm_into m)"
  by (induction ms arbitrary: seen) (auto split: if_splits)

lemma merge_target_voices:
  assumes "validate_merges [] merges = Inr ()" and "merge_target merges segs s = Some t"
  shows "is_voice_id s \<and> is_voice_id t"
proof -
  from assms(2) have "map_of (rev (map (\<lambda>m. (sm_from m, sm_into m)) merges)) s = Some t"
    by (auto simp: merge_target_def split: option.splits if_splits)
  then have "(s, t) \<in> set (rev (map (\<lambda>m. (sm_from m, sm_into m)) merges))" by (rule map_of_SomeD)
  then obtain m where "m \<in> set merges" "s = sm_from m" "t = sm_into m" by auto
  with validate_mergesD[OF assms(1)] show ?thesis by blast
qed

lemma moved_units:
  assumes "validate_merges [] merges = Inr ()"
  shows "map snd (all_units (map (moved merges segs) ss)) = map snd (all_units ss)"
    and "\<not> is_voice_id q \<Longrightarrow>
      filter (\<lambda>u. fst u = q) (all_units (map (moved merges segs) ss)) = filter (\<lambda>u. fst u = q) (all_units ss)"
proof -
  have "map snd (segment_words (moved merges segs s)) = map snd (segment_words s)" for s
    by (simp add: moved_def segment_words_def split: option.splits)
  then show "map snd (all_units (map (moved merges segs) ss)) = map snd (all_units ss)"
    by (induction ss) simp_all
  assume q: "\<not> is_voice_id q"
  have none: "filter (\<lambda>u. fst u = q) (map (Pair x) ws) = []" if "is_voice_id x" for x ws
    using that q by (auto simp: filter_empty_conv)
  have "filter (\<lambda>u. fst u = q) (segment_words (moved merges segs s)) = filter (\<lambda>u. fst u = q) (segment_words s)" for s
    using merge_target_voices[OF assms, of segs "sg_speaker s"]
    by (auto simp: moved_def segment_words_def none split: option.splits)
  then show "filter (\<lambda>u. fst u = q) (all_units (map (moved merges segs) ss)) = filter (\<lambda>u. fst u = q) (all_units ss)"
    by (induction ss) simp_all
qed

lemma apply_merges_effect:
  assumes "validate_merges [] merges = Inr ()" and "apply_merges merges segs = (out, n)"
  shows "mset (map snd (all_units out)) = mset (map snd (all_units segs))"
    and "\<not> is_voice_id q \<Longrightarrow>
      mset (filter (\<lambda>u. fst u = q) (all_units out)) = mset (filter (\<lambda>u. fst u = q) (all_units segs))"
proof -
  let ?m = "map (moved merges segs) segs"
  have one: "concat (map (\<lambda>x. [f x]) xs) = map f xs" for f :: "segment \<Rightarrow> segment" and xs by (induction xs) auto
  have "out = segs \<or> out = merge_and_sort_segments (map (\<lambda>s. [moved merges segs s]) segs)"
    using assms(2) by (auto simp: apply_merges_def Let_def moved_def split: if_splits)
  then have "mset (all_units out) = mset (all_units segs) \<or> mset (all_units out) = mset (all_units ?m)"
  proof
    assume out: "out = merge_and_sort_segments (map (\<lambda>s. [moved merges segs s]) segs)"
    have "merge_words (map (\<lambda>s. [moved merges segs s]) segs) = all_units ?m"
      by (simp add: merge_words_def all_units_def one)
    then show ?thesis unfolding out conjunct1[OF merge_keeps[OF refl]] by (simp add: word_order.srt_mset)
  qed simp
  then have *: "mset (f (all_units out)) = mset (f (all_units segs))"
    if "mset (f (all_units ?m)) = mset (f (all_units segs))" and "\<And>xs ys. mset xs = mset ys \<Longrightarrow> mset (f xs) = mset (f ys)"
    for f :: "attributed list \<Rightarrow> 'e list"
    using that by metis
  show "mset (map snd (all_units out)) = mset (map snd (all_units segs))"
    by (rule *) (simp_all only: moved_units[OF assms(1)] mset_map)
  assume q: "\<not> is_voice_id q"
  show "mset (filter (\<lambda>u. fst u = q) (all_units out)) = mset (filter (\<lambda>u. fst u = q) (all_units segs))"
  proof (rule *)
    show "mset (filter (\<lambda>u. fst u = q) (all_units ?m)) = mset (filter (\<lambda>u. fst u = q) (all_units segs))"
      by (simp only: moved_units(2)[OF assms(1) q])
  qed (simp add: mset_filter)
qed

lemma apply_splits_effect:
  "apply_splits sets ss segs rep = Inr (out, rep') \<Longrightarrow>
    mset (map snd (all_units out)) = mset (map snd (all_units segs)) \<and>
    (\<forall>q. q \<notin> set ss \<longrightarrow> \<not> is_voice_id q \<longrightarrow>
      mset (filter (\<lambda>u. fst u = q) (all_units out)) = mset (filter (\<lambda>u. fst u = q) (all_units segs)))"
proof (induction ss arbitrary: segs rep)
  case (Cons s ss)
  show ?case
  proof (cases "sets s")
    case None
    with Cons show ?thesis by auto
  next
    case (Some tset)
    obtain o' res where sp: "split_speaker_segments segs s (ts_turns tset) = (o', res)"
      by (cases "split_speaker_segments segs s (ts_turns tset)")
    from Cons.prems Some sp obtain r x where "apply_splits sets ss x r = Inr (out, rep')" "x = segs \<or> x = o'"
      by (auto simp: Let_def split: if_splits)
    with Cons.IH split_effect[OF sp] show ?thesis by (metis list.set_intros(1) list.set_intros(2))
  qed
qed simp

lemma apply_splits_error:
  "apply_splits sets ss segs rep = Inl e \<Longrightarrow>
    \<exists>s\<in>set ss. \<exists>t. sets s = Some t \<and> ts_speaker_id t \<noteq> s \<and> e = TurnsMismatch (ts_speaker_id t) s"
proof (induction ss arbitrary: segs rep)
  case (Cons s ss)
  show ?case
  proof (cases "sets s")
    case None
    with Cons show ?thesis by auto
  next
    case (Some tset)
    with Cons show ?thesis
      by (cases "split_speaker_segments segs s (ts_turns tset)") (fastforce simp: Let_def split: if_splits)
  qed
qed simp


lemma voices_of_seen: "set (voices_of seen p) \<subseteq> set seen"
  by (auto simp: voices_of_def)

lemma roster_ids_spec: "distinct (roster_ids base_roster segs) \<and> set (roster_ids base_roster segs) = set (seen_speakers segs)"
  using voices_of_seen[of "seen_speakers segs"] by (auto simp: roster_ids_def Let_def split: if_splits)

lemma validate_labels_distinct:
  "validate_labels seen ls = Inr u \<Longrightarrow> distinct (map sl_speaker ls) \<and> set (map sl_speaker ls) \<inter> set seen = {}"
proof (induction ls arbitrary: seen)
  case (Cons l ls)
  then have n: "sl_speaker l \<notin> set seen" and v: "validate_labels (sl_speaker l # seen) ls = Inr u"
    by (auto split: if_splits sum.splits)
  from Cons.IH[OF v] n show ?case by auto
qed simp

lemma map_of_rev_distinct: "distinct (map f xs) \<Longrightarrow> x \<in> set xs \<Longrightarrow> map_of (rev (map (\<lambda>x. (f x, g x)) xs)) (f x) = Some (g x)"
  by (rule map_of_is_SomeI) (auto simp: comp_def rev_map[symmetric])

text \<open>
  The roster of an edited transcript lists every speaker that has segments exactly once and
  nobody else, and whoever the document names carries that name.
\<close>

theorem roster_exact:
  assumes "apply_speaker_edits base base_roster doc sets = Inr (out, roster, rep)"
  shows "distinct (map ro_id roster) \<and> set (map ro_id roster) = sg_speaker ` set out - {[]} \<and>
    (\<forall>r\<in>set roster. \<forall>l\<in>set (ed_labels doc). sl_speaker l = ro_id r \<longrightarrow> ro_label r = sl_label l)"
proof -
  from assms obtain segs rep' where v: "validate_edits doc = Inr ()"
    and sp: "apply_splits sets (ed_splits doc) base no_edits_report = Inr (segs, rep')"
    by (auto simp: apply_speaker_edits_def)
  obtain o' n where "apply_merges (ed_merges doc) segs = (o', n)" by (cases "apply_merges (ed_merges doc) segs")
  with assms v sp have r: "roster = build_roster base_roster (ed_labels doc) out"
    by (auto simp: apply_speaker_edits_def)
  from v have d: "distinct (map sl_speaker (ed_labels doc))"
    by (auto simp: validate_edits_def dest: validate_labels_distinct split: if_splits)
  have "label_for base_roster (ed_labels doc) i = sl_label l" if "l \<in> set (ed_labels doc)" "sl_speaker l = i" for l i
    unfolding that(2)[symmetric] using map_of_rev_distinct[OF d that(1), of sl_label] by (simp add: label_for_def Let_def)
  then show ?thesis unfolding r using roster_ids_spec[of base_roster out]
    by (auto simp: build_roster_def comp_def seen_speakers_def)
qed

text \<open>
  A voice id gives back its device and number, and a voice's default label gives back the
  device's label, for every device, every label (containing a separator or not) and every number a
  split can give.
\<close>

theorem voice_names_roundtrip:
  assumes "0 \<le> n" and "n \<le> max_i64" and "parent \<noteq> []" and "label \<noteq> []"
  shows "voice_parent (sub_speaker_id parent n) = parent \<and> voice_number (sub_speaker_id parent n) = n \<and>
    is_voice_id (sub_speaker_id parent n) \<and>
    device_label_from_voice_label (default_voice_label label n) = label"
  using assms by (simp add: voice_parent_sub voice_number_sub voice_id_sub device_label_default)

theorem voice_names_roundtrip_witness:
  "voice_parent ''room~x~12'' = ''room~x'' \<and> voice_number ''room~x~12'' = 12"
proof -
  have "sub_speaker_id ''room~x'' 12 = ''room~x~12''" by code_simp
  with voice_names_roundtrip[of 12 "''room~x''" "''A''"] show ?thesis by (simp add: max_i64_def)
qed

definition ex_edits :: speaker_edits where
  "ex_edits = \<lparr>ed_format = speaker_edits_format, ed_revision = 1, ed_splits = [''ann''], ed_merges = [],
     ed_labels = [\<lparr>sl_speaker = ''ann~1'', sl_label = ''Ann''\<rparr>]\<rparr>"

definition ex_sets :: "string \<Rightarrow> turn_set option" where
  "ex_sets s = (if s = ''ann'' then Some \<lparr>ts_speaker_id = ''ann'', ts_turns = ex_turns\<rparr> else None)"

lemma result_cases:
  "(case r of Inl e \<Rightarrow> False | Inr (a, b, c) \<Rightarrow> P b) \<Longrightarrow> \<exists>a b c. r = Inr (a, b, c) \<and> P b"
  by (auto split: sum.splits prod.splits)


theorem roster_exact_witness:
  "\<exists>out roster rep. apply_speaker_edits (concat ex_segments) [] ex_edits ex_sets = Inr (out, roster, rep) \<and>
     distinct (map ro_id roster) \<and> set (map ro_id roster) = sg_speaker ` set out - {[]}"
proof -
  let ?r = "apply_speaker_edits (concat ex_segments) [] ex_edits ex_sets"
  have "case ?r of Inl e \<Rightarrow> False | Inr (out, roster, rep) \<Rightarrow> (\<lambda>_. True) roster" by code_simp
  from result_cases[OF this] obtain out roster rep where r: "?r = Inr (out, roster, rep)" by blast
  with roster_exact[OF r] show ?thesis by blast
qed

text \<open>
  An empty document does not give back every base unchanged: a roster entry without segments is
  dropped.
\<close>

definition ex_no_edits :: speaker_edits where
  "ex_no_edits = \<lparr>ed_format = speaker_edits_format, ed_revision = 0, ed_splits = [], ed_merges = [], ed_labels = []\<rparr>"

lemma empty_edits_drop_silent_speaker:
  "case apply_speaker_edits (concat ex_segments)
       [\<lparr>ro_id = ''ann'', ro_label = ''Ann''\<rparr>, \<lparr>ro_id = ''cem'', ro_label = ''Cem''\<rparr>, \<lparr>ro_id = ''bob'', ro_label = ''Bob''\<rparr>]
       ex_no_edits (\<lambda>_. None) of
     Inl e \<Rightarrow> False
   | Inr (out, roster, rep) \<Rightarrow> out = concat ex_segments \<and> map ro_id roster = [''ann'', ''bob'']"
  by code_simp

end
