(* ===== verification/Bytes.thy ===== *)
theory Bytes
  imports Go_Strings "HOL-Library.Word"
begin

text \<open>Bytes, integers in both byte orders (\<open>encoding/binary\<close>), and SHA-256 (\<open>crypto/sha256\<close>).\<close>

unbundle bit_operations_syntax

subsection \<open>Bytes and big-endian integers\<close>

type_synonym byte = "8 word"

fun be :: "nat \<Rightarrow> nat \<Rightarrow> byte list" where
  "be 0 v = []"
| "be (Suc k) v = be k (v div 256) @ [of_nat v]"

definition unbe :: "byte list \<Rightarrow> nat" where
  "unbe bs = foldl (\<lambda>a b. a * 256 + unat b) 0 bs"

lemma length_be [simp]: "length (be k v) = k"
  by (induction k arbitrary: v) auto

lemma unbe_snoc [simp]: "unbe (bs @ [b]) = unbe bs * 256 + unat b"
  by (simp add: unbe_def)

lemma unbe_Nil [simp]: "unbe [] = 0"
  by (simp add: unbe_def)

lemma unbe_be [simp]: "v < 256 ^ k \<Longrightarrow> unbe (be k v) = v"
proof (induction k arbitrary: v)
  case (Suc k)
  then have "v div 256 < 256 ^ k" by (simp add: div_less_iff_less_mult mult.commute)
  with Suc.IH show ?case by (simp add: unat_of_nat)
qed simp

text \<open>Go's \<open>uint32(n)\<close>.\<close>

definition u32 :: "nat \<Rightarrow> nat" where
  "u32 n = n mod 2 ^ 32"

lemma unbe_u32 [simp]: "n < 2 ^ 32 \<Longrightarrow> unbe (be 4 (u32 n)) = n"
  by (subst unbe_be) (simp_all add: u32_def)

subsection \<open>Little-endian integers\<close>

definition le :: "nat \<Rightarrow> nat \<Rightarrow> byte list" where
  "le k v = rev (be k v)"

definition unle :: "byte list \<Rightarrow> nat" where
  "unle bs = unbe (rev bs)"

lemma length_le [simp]: "length (le k v) = k"
  by (simp add: le_def)

lemma le_Nil [simp]: "le k v = [] \<longleftrightarrow> k = 0"
  by (metis length_0_conv length_le)

lemma unle_le [simp]: "v < 256 ^ k \<Longrightarrow> unle (le k v) = v"
  by (simp add: le_def unle_def)

definition ascii :: "string \<Rightarrow> byte list" where
  "ascii s = map (\<lambda>c. of_nat (of_char c)) s"

subsection \<open>Reading\<close>

text \<open>
  \<open>io.ReadFull\<close> and \<open>binary.Read\<close>: end of file when nothing is there, an unexpected end when
  something but not enough is; a short read consumes what was left.
\<close>

datatype io_err = EOF | UnexpectedEOF

fun read_full :: "nat \<Rightarrow> byte list \<Rightarrow> (io_err, byte list) res \<times> byte list" where
  "read_full n bs =
     (if n \<le> length bs then (Inr (take n bs), drop n bs)
      else if bs = [] then (Inl EOF, []) else (Inl UnexpectedEOF, []))"

declare read_full.simps [simp del]

lemma read_full_append [simp]: "n = length xs \<Longrightarrow> read_full n (xs @ ys) = (Inr xs, ys)"
  by (simp add: read_full.simps)

lemma read_full_exact [simp]: "n = length xs \<Longrightarrow> read_full n xs = (Inr xs, [])"
  by (simp add: read_full.simps)

lemma read_full_1 [simp]: "read_full 1 (x # xs) = (Inr [x], xs)" "read_full (Suc 0) (x # xs) = (Inr [x], xs)"
  by (simp_all add: read_full.simps)

lemma read_full_short:
  "length bs < n \<Longrightarrow> read_full n bs = (Inl (if bs = [] then EOF else UnexpectedEOF), [])"
  by (auto simp: read_full.simps)

lemma read_full_rest: "read_full n bs = (x, bs') \<Longrightarrow> length bs' \<le> length bs"
  by (auto simp: read_full.simps split: if_splits)

subsection \<open>SHA-256\<close>

text \<open>
  The round constants and the initial state: 32 bits of the fractional parts of the cube and square roots of
  the first primes, with an integer root found bit by bit.
\<close>

primrec bit_root :: "nat \<Rightarrow> nat \<Rightarrow> nat \<Rightarrow> nat \<Rightarrow> nat" where
  "bit_root k n r 0 = r"
| "bit_root k n r (Suc b) = bit_root k n (if (r + 2 ^ b) ^ k \<le> n then r + 2 ^ b else r) b"

definition small_primes :: "nat list" where
  "small_primes = filter (\<lambda>n. list_all (\<lambda>d. n mod d \<noteq> 0) [2..<n]) [2..<312]"

definition root_bits :: "nat \<Rightarrow> nat \<Rightarrow> 32 word" where
  "root_bits k p = of_nat (bit_root k (p * 2 ^ (32 * k)) 0 40)"

definition sha_k :: "32 word list" where
  "sha_k = map (root_bits 3) small_primes"

definition sha_h0 :: "32 word list" where
  "sha_h0 = map (root_bits 2) (take 8 small_primes)"

definition sha_pad :: "byte list \<Rightarrow> byte list" where
  "sha_pad m = m @ 0x80 # replicate ((119 - length m mod 64) mod 64) 0 @ be 8 (8 * length m mod 2 ^ 64)"

fun sha_words :: "byte list \<Rightarrow> 32 word list" where
  "sha_words (a # b # c # d # bs) = of_nat (unbe [a, b, c, d]) # sha_words bs"
| "sha_words _ = []"

primrec sha_schedule :: "nat \<Rightarrow> 32 word list \<Rightarrow> 32 word list" where
  "sha_schedule 0 ws = ws"
| "sha_schedule (Suc n) ws =
     (let t = length ws; x = ws ! (t - 15); y = ws ! (t - 2);
          s0 = word_rotr 7 x XOR word_rotr 18 x XOR drop_bit 3 x;
          s1 = word_rotr 17 y XOR word_rotr 19 y XOR drop_bit 10 y
      in sha_schedule n (ws @ [ws ! (t - 16) + s0 + ws ! (t - 7) + s1]))"

text \<open>One round on the eight working variables.\<close>

fun sha_round :: "32 word list \<Rightarrow> 32 word \<times> 32 word \<Rightarrow> 32 word list" where
  "sha_round [a, b, c, d, e, f, g, h] (k, w) =
     (let s1 = word_rotr 6 e XOR word_rotr 11 e XOR word_rotr 25 e;
          ch = (e AND f) XOR (NOT e AND g);
          t1 = h + s1 + ch + k + w;
          s0 = word_rotr 2 a XOR word_rotr 13 a XOR word_rotr 22 a;
          maj = (a AND b) XOR (a AND c) XOR (b AND c)
      in [t1 + s0 + maj, a, b, c, d + t1, e, f, g])"
| "sha_round vs _ = vs"

definition sha_block :: "32 word list \<Rightarrow> byte list \<Rightarrow> 32 word list" where
  "sha_block hs block = map2 (+) hs (foldl sha_round hs (zip sha_k (sha_schedule 48 (sha_words block))))"

function sha_blocks :: "32 word list \<Rightarrow> byte list \<Rightarrow> 32 word list" where
  "sha_blocks hs bs = (if length bs < 64 then hs else sha_blocks (sha_block hs (take 64 bs)) (drop 64 bs))"
  by pat_completeness auto
termination by (relation "measure (length \<circ> snd)") auto

declare sha_blocks.simps [simp del]

definition sha256 :: "byte list \<Rightarrow> byte list" where
  "sha256 m = concat (map (\<lambda>w. be 4 (unat w)) (sha_blocks sha_h0 (sha_pad m)))"

end
