(* ===== verification/Rtp_Store.thy ===== *)
theory Rtp_Store
  imports Bytes "HOL-Library.Sublist"
begin

text \<open>
  The recorder's raw stream logs (\<open>pkg/core/store\<close>, \<open>pkg/core/validate\<close> and
  \<open>pkg/core/streamid\<close> under \<open>cassini-go-recorder\<close>): the writer of a log, its reader, the sidecar
  index and the checker.  A file is the list of its bytes; a recorder that dies leaves a prefix
  of them.  The JSON codec of the stream header is an argument.
\<close>

text \<open>The IEEE CRC-32 of \<open>hash/crc32\<close>, bit by bit.\<close>

fun crc_shift :: "nat \<Rightarrow> 32 word \<Rightarrow> 32 word" where
  "crc_shift 0 c = c"
| "crc_shift (Suc n) c = crc_shift n (if odd c then drop_bit 1 c XOR 0xEDB88320 else drop_bit 1 c)"

definition crc32 :: "byte list \<Rightarrow> 32 word" where
  "crc32 bs = NOT (foldl (\<lambda>c b. crc_shift 8 (c XOR ucast b)) (NOT 0) bs)"

subsection \<open>Logs\<close>

definition magic :: "byte list" where
  "magic = map (\<lambda>c. of_nat (of_char c)) ''RTPL0'' @ [0, 0, 0]"

definition current_ver :: nat where "current_ver = 1"
definition flag_use_crc :: "16 word" where "flag_use_crc = push_bit 0 1"

definition kind_rtp :: byte where "kind_rtp = 1"
definition kind_rtcp :: byte where "kind_rtcp = 2"

record rtp_record =
  rec_recv :: "64 word"
  rec_kind :: byte
  rec_wire :: "byte list"

datatype log_err = Closed | BadKind byte | MarshalHeader | WriteFailed
  | ReadFailed io_err | BadMagic | UnmarshalHeader | ZeroLength | CrcMismatch | Eof

text \<open>
  The writer: the bytes it accepted so far (its buffer is flushed behind them), whether it is
  closed, and the offset it tracks.  A write that fails leaves the pieces accepted before it, and
  the buffered writer refuses every byte after a first failure.
\<close>

record rtp_writer =
  w_out :: "byte list"
  w_broken :: bool
  w_closed :: bool
  w_use_crc :: bool
  w_flags :: "16 word"
  w_offset :: "64 word"

definition put :: "bool \<Rightarrow> byte list \<Rightarrow> rtp_writer \<Rightarrow> (log_err, unit) res \<times> rtp_writer" where
  "put fails bs w =
     (if fails \<or> w_broken w then (Inl WriteFailed, w\<lparr>w_broken := True\<rparr>)
      else (Inr (), w\<lparr>w_out := w_out w @ bs\<rparr>))"

text \<open>\<open>puts\<close> writes the pieces in turn; the k-th fails when \<open>flt k\<close>.\<close>

fun puts :: "(nat \<Rightarrow> bool) \<Rightarrow> byte list list \<Rightarrow> rtp_writer \<Rightarrow> (log_err, unit) res \<times> rtp_writer" where
  "puts flt [] w = (Inr (), w)"
| "puts flt (p # ps) w = (case put (flt 0) p w of
     (Inl e, w) \<Rightarrow> (Inl e, w)
   | (Inr _, w) \<Rightarrow> puts (\<lambda>k. flt (Suc k)) ps w)"

definition header_pieces :: "16 word \<Rightarrow> byte list \<Rightarrow> byte list list" where
  "header_pieces flags hdr = [magic, be 2 current_ver, be 2 (unat flags), be 4 (u32 (length hdr)), hdr]"

definition new_writer ::
  "(nat \<Rightarrow> bool) \<Rightarrow> ('h \<Rightarrow> byte list option) \<Rightarrow> bool \<Rightarrow> 'h \<Rightarrow> (log_err, rtp_writer) res" where
  "new_writer flt marshal crc header =
     (let w = \<lparr>w_out = [], w_broken = False, w_closed = False, w_use_crc = crc,
               w_flags = (if crc then 0 OR flag_use_crc else 0), w_offset = 0\<rparr>
      in case marshal header of None \<Rightarrow> Inl MarshalHeader
         | Some hdr \<Rightarrow> (case puts flt (header_pieces (w_flags w) hdr) w of
             (Inl e, w) \<Rightarrow> Inl e
           | (Inr _, w) \<Rightarrow> Inr (w\<lparr>w_offset := of_nat (length magic + 2 + 2 + 4 + length hdr)\<rparr>)))"

definition record_pieces :: "bool \<Rightarrow> rtp_record \<Rightarrow> byte list list" where
  "record_pieces crc r =
     [be 8 (unat (rec_recv r)), [rec_kind r], be 4 (u32 (length (rec_wire r))), rec_wire r]
     @ (if crc then [be 4 (unat (crc32 (rec_wire r)))] else [])"

definition write_record :: "(nat \<Rightarrow> bool) \<Rightarrow> rtp_record \<Rightarrow> rtp_writer \<Rightarrow> (log_err, unit) res \<times> rtp_writer" where
  "write_record flt r w =
     (if w_closed w then (Inl Closed, w)
      else if rec_kind r \<noteq> kind_rtp \<and> rec_kind r \<noteq> kind_rtcp then (Inl (BadKind (rec_kind r)), w)
      else case puts flt (record_pieces (w_use_crc w) r) w of
        (Inl e, w) \<Rightarrow> (Inl e, w)
      | (Inr _, w) \<Rightarrow> (Inr (), w\<lparr>w_offset := w_offset w + 8 + 1 + 4 + of_nat (length (rec_wire r))
                                    + (if w_use_crc w then 4 else 0)\<rparr>))"

definition close_writer :: "bool \<Rightarrow> rtp_writer \<Rightarrow> (log_err, unit) res \<times> rtp_writer" where
  "close_writer fails w =
     (if w_closed w then (Inr (), w)
      else if fails \<or> w_broken w then (Inl WriteFailed, w\<lparr>w_closed := True\<rparr>)
      else (Inr (), w\<lparr>w_closed := True\<rparr>))"

subsection \<open>Reading\<close>

record 'h rtp_reader =
  rd_rest :: "byte list"
  rd_version :: nat
  rd_header :: 'h
  rd_flags :: nat
  rd_use_crc :: bool
  rd_truncated :: bool

definition open_reader :: "(byte list \<Rightarrow> 'h option) \<Rightarrow> byte list \<Rightarrow> (log_err, 'h rtp_reader) res" where
  "open_reader unmarshal file = (case read_full 8 file of
     (Inl e, _) \<Rightarrow> Inl (ReadFailed e)
   | (Inr m, bs) \<Rightarrow> if m \<noteq> magic then Inl BadMagic else (case read_full 2 bs of
     (Inl e, _) \<Rightarrow> Inl (ReadFailed e)
   | (Inr ver, bs) \<Rightarrow> (case read_full 2 bs of
     (Inl e, _) \<Rightarrow> Inl (ReadFailed e)
   | (Inr flags, bs) \<Rightarrow> (case read_full 4 bs of
     (Inl e, _) \<Rightarrow> Inl (ReadFailed e)
   | (Inr n, bs) \<Rightarrow> (case read_full (unbe n) bs of
     (Inl e, _) \<Rightarrow> Inl (ReadFailed e)
   | (Inr raw, bs) \<Rightarrow> (case unmarshal raw of
     None \<Rightarrow> Inl UnmarshalHeader
   | Some h \<Rightarrow> Inr \<lparr>rd_rest = bs, rd_version = unbe ver, rd_header = h, rd_flags = unbe flags,
        rd_use_crc = (word_of_nat (unbe flags) AND flag_use_crc \<noteq> 0), rd_truncated = False\<rparr>))))))"

definition next_record :: "'h rtp_reader \<Rightarrow> (log_err, rtp_record) res \<times> 'h rtp_reader" where
  "next_record r = (case read_full 8 (rd_rest r) of
     (Inl EOF, bs) \<Rightarrow> (Inl Eof, r\<lparr>rd_rest := bs\<rparr>)
   | (Inl UnexpectedEOF, bs) \<Rightarrow> (Inl Eof, r\<lparr>rd_rest := bs, rd_truncated := True\<rparr>)
   | (Inr recv, bs) \<Rightarrow> (case read_full 1 bs of
     (Inl _, bs) \<Rightarrow> (Inl Eof, r\<lparr>rd_rest := bs, rd_truncated := True\<rparr>)
   | (Inr k, bs) \<Rightarrow> (case read_full 4 bs of
     (Inl _, bs) \<Rightarrow> (Inl Eof, r\<lparr>rd_rest := bs, rd_truncated := True\<rparr>)
   | (Inr n, bs) \<Rightarrow> if unbe n = 0 then (Inl ZeroLength, r\<lparr>rd_rest := bs\<rparr>)
     else (case read_full (unbe n) bs of
     (Inl _, bs) \<Rightarrow> (Inl Eof, r\<lparr>rd_rest := bs, rd_truncated := True\<rparr>)
   | (Inr wire, bs) \<Rightarrow>
       (let ok = \<lparr>rec_recv = word_of_nat (unbe recv), rec_kind = hd k, rec_wire = wire\<rparr> in
        if \<not> rd_use_crc r then (Inr ok, r\<lparr>rd_rest := bs\<rparr>)
        else (case read_full 4 bs of
          (Inl _, bs) \<Rightarrow> (Inl Eof, r\<lparr>rd_rest := bs, rd_truncated := True\<rparr>)
        | (Inr c, bs) \<Rightarrow> if crc32 wire \<noteq> word_of_nat (unbe c) then (Inl CrcMismatch, r\<lparr>rd_rest := bs\<rparr>)
            else (Inr ok, r\<lparr>rd_rest := bs\<rparr>)))))))"

text \<open>Reading a log to its end: each record takes at least 14 bytes, so the rest shrinks.\<close>

lemma read_full_ok: "read_full n bs = (Inr xs, bs') \<Longrightarrow> bs = xs @ bs' \<and> length xs = n"
  by (auto simp: read_full.simps split: if_splits)

lemma next_record_shrinks:
  "next_record r = (Inr x, r') \<Longrightarrow> length (rd_rest r') < length (rd_rest r)"
  by (auto simp: next_record_def Let_def dest!: read_full_ok split: sum.splits prod.splits io_err.splits if_splits)

function read_all :: "'h rtp_reader \<Rightarrow> rtp_record list \<times> log_err \<times> 'h rtp_reader" where
  "read_all r = (case next_record r of
     (Inl e, r') \<Rightarrow> ([], e, r')
   | (Inr x, r') \<Rightarrow> (let (xs, e, r'') = read_all r' in (x # xs, e, r'')))"
  by pat_completeness auto
termination
  by (relation "measure (\<lambda>r. length (rd_rest r))") (simp_all, metis next_record_shrinks)

declare read_all.simps [simp del]

subsection \<open>What is written is what is read\<close>

definition enc_record :: "bool \<Rightarrow> rtp_record \<Rightarrow> byte list" where
  "enc_record crc r = concat (record_pieces crc r)"

definition enc_header :: "16 word \<Rightarrow> byte list \<Rightarrow> byte list" where
  "enc_header flags hdr = concat (header_pieces flags hdr)"

definition enc_log :: "bool \<Rightarrow> rtp_record list \<Rightarrow> byte list" where
  "enc_log crc rs = concat (map (enc_record crc) rs)"

definition ok_kind :: "rtp_record \<Rightarrow> bool" where
  "ok_kind r \<longleftrightarrow> rec_kind r \<in> {kind_rtp, kind_rtcp} \<and> length (rec_wire r) < 2 ^ 32"

definition ok_record :: "rtp_record \<Rightarrow> bool" where
  "ok_record r \<longleftrightarrow> ok_kind r \<and> rec_wire r \<noteq> []"

lemma enc_record_eq:
  "enc_record crc r = be 8 (unat (rec_recv r)) @ [rec_kind r] @ be 4 (u32 (length (rec_wire r))) @ rec_wire r @
     (if crc then be 4 (unat (crc32 (rec_wire r))) else [])"
  by (simp add: enc_record_def record_pieces_def)

lemma length_enc_record:
  "length (enc_record crc r) = 13 + length (rec_wire r) + (if crc then 4 else 0)"
  by (simp add: enc_record_eq)

lemma unat_64_bound: "unat (w :: 64 word) < 256 ^ 8"
  using unsigned_less[of w] by simp

lemma unat_32_bound: "unat (w :: 32 word) < 256 ^ 4"
  using unsigned_less[of w] by simp

lemma word_be [simp]:
  "word_of_nat (unbe (be 8 (unat w))) = w" "word_of_nat (unbe (be 4 (unat v))) = v"
  for w :: "64 word" and v :: "32 word"
  by (subst unbe_be[OF unat_64_bound], simp) (subst unbe_be[OF unat_32_bound], simp)

lemma next_enc_record:
  assumes "ok_record r" "rd_use_crc rd = crc"
  shows "next_record (rd\<lparr>rd_rest := enc_record crc r @ rest\<rparr>) = (Inr r, rd\<lparr>rd_rest := rest\<rparr>)"
proof -
  have n: "unbe (be 4 (u32 (length (rec_wire r)))) = length (rec_wire r)"
    using assms(1) by (intro unbe_u32) (simp add: ok_record_def ok_kind_def)
  have z: "length (rec_wire r) \<noteq> 0" using assms(1) by (simp add: ok_record_def)
  show ?thesis
    using assms z
    by (cases crc) (simp_all add: next_record_def enc_record_eq n Let_def)
qed

text \<open>A record cut short reads as the end of the log.\<close>

lemma next_cut_record:
  assumes ok: "ok_record r" "rd_use_crc rd = crc" and p: "p = take n (enc_record crc r)" "n < length (enc_record crc r)"
  shows "\<exists>rd'. next_record (rd\<lparr>rd_rest := p\<rparr>) = (Inl Eof, rd') \<and> rd_truncated rd' = (rd_truncated rd \<or> n \<noteq> 0) \<and>
    rd_rest rd' = []"
proof -
  let ?w = "rec_wire r" and ?tail = "if crc then be 4 (unat (crc32 (rec_wire r))) else []"
  have nl: "unbe (be 4 (u32 (length ?w))) = length ?w"
    using ok(1) by (intro unbe_u32) (simp add: ok_record_def ok_kind_def)
  have z: "length ?w \<noteq> 0" using ok(1) by (simp add: ok_record_def)
  have len: "length (enc_record crc r) = 13 + length ?w + length ?tail" by (simp add: length_enc_record)
  consider "n < 8" | "n = 8" | "9 \<le> n" "n < 13" | "13 \<le> n" "n < 13 + length ?w"
    | "crc" "13 + length ?w \<le> n" "n < 17 + length ?w"
    using p(2) len by (cases crc) (simp_all, linarith+)
  then show ?thesis
  proof cases
    case 1
    then have "p = take n (be 8 (unat (rec_recv r)))" by (simp add: p enc_record_eq)
    then have "length p = n" using 1 by simp
    then show ?thesis using 1 read_full_short[of p 8] by (cases "p = []") (auto simp: next_record_def)
  next
    case 2
    then have "p = be 8 (unat (rec_recv r))" by (simp add: p enc_record_eq)
    then show ?thesis using 2 by (simp add: next_record_def read_full_short)
  next
    case 3
    then have "p = be 8 (unat (rec_recv r)) @ rec_kind r # take (n - 9) (be 4 (u32 (length ?w)))"
      by (simp add: p enc_record_eq take_Cons')
    moreover have "length (take (n - 9) (be 4 (u32 (length ?w)))) < 4" using 3 by simp
    ultimately show ?thesis using 3
      by (simp add: next_record_def read_full_short split: prod.splits)
  next
    case 4
    then have "p = be 8 (unat (rec_recv r)) @ rec_kind r # be 4 (u32 (length ?w)) @ take (n - 13) ?w"
      by (simp add: p enc_record_eq take_Cons')
    moreover have "length (take (n - 13) ?w) < length ?w" using 4 by simp
    ultimately show ?thesis using 4 z
      by (simp add: next_record_def nl read_full_short split: prod.splits)
  next
    case 5
    then have "p = be 8 (unat (rec_recv r)) @ rec_kind r # be 4 (u32 (length ?w)) @ ?w @
        take (n - (13 + length ?w)) (be 4 (unat (crc32 ?w)))"
      by (simp add: p enc_record_eq take_Cons')
    moreover have "length (take (n - (13 + length ?w)) (be 4 (unat (crc32 ?w)))) < 4" using 5 by simp
    ultimately show ?thesis using 5 z ok(2)
      by (simp add: next_record_def nl read_full_short Let_def split: prod.splits)
  qed
qed

lemma read_all_log:
  assumes "\<forall>r\<in>set rs. ok_record r" "rd_use_crc rd = crc"
  shows "read_all (rd\<lparr>rd_rest := enc_log crc rs @ rest\<rparr>) =
    (let (xs, e, rd') = read_all (rd\<lparr>rd_rest := rest\<rparr>) in (rs @ xs, e, rd'))"
  using assms(1)
proof (induction rs)
  case (Cons r rs)
  then show ?case
    by (subst read_all.simps) (simp add: enc_log_def next_enc_record[OF _ assms(2)] Let_def case_prod_beta)
qed (simp add: enc_log_def)

lemma read_all_end: "read_all (rd\<lparr>rd_rest := []\<rparr>) = ([], Eof, rd\<lparr>rd_rest := []\<rparr>)"
  by (subst read_all.simps) (simp add: next_record_def read_full_short)

text \<open>
  A caller's run of writes: every record is offered, whatever the earlier answers were, and the
  k-th write fails at its j-th piece when \<open>flt k j\<close>.
\<close>

fun write_all :: "(nat \<Rightarrow> nat \<Rightarrow> bool) \<Rightarrow> rtp_record list \<Rightarrow> rtp_writer \<Rightarrow> (log_err, unit) res list \<times> rtp_writer" where
  "write_all flt [] w = ([], w)"
| "write_all flt (r # rs) w = (let (x, w) = write_record (flt 0) r w;
     (xs, w) = write_all (\<lambda>k. flt (Suc k)) rs w in (x # xs, w))"

lemma puts_cases:
  assumes "\<not> w_broken w"
  shows "(puts flt ps w = (Inr (), w\<lparr>w_out := w_out w @ concat ps\<rparr>)) \<or>
    (\<exists>p. puts flt ps w = (Inl WriteFailed, w\<lparr>w_out := w_out w @ p, w_broken := True\<rparr>) \<and> prefix p (concat ps) \<and>
       \<not> (\<forall>k. \<not> flt k))"
  using assms
proof (induction ps arbitrary: w flt)
  case (Cons p ps)
  show ?case
  proof (cases "flt 0")
    case True
    then have "puts flt (p # ps) w = (Inl WriteFailed, w\<lparr>w_out := w_out w @ [], w_broken := True\<rparr>)"
      by (simp add: put_def)
    then show ?thesis using True by (metis Nil_prefix)
  next
    case False
    let ?w = "w\<lparr>w_out := w_out w @ p\<rparr>"
    have e: "puts flt (p # ps) w = puts (\<lambda>k. flt (Suc k)) ps ?w"
      using False Cons.prems by (simp add: put_def)
    have "\<not> w_broken ?w" using Cons.prems by simp
    from Cons.IH[OF this, of "\<lambda>k. flt (Suc k)"] show ?thesis
    proof (elim disjE exE conjE)
      assume "puts (\<lambda>k. flt (Suc k)) ps ?w = (Inr (), ?w\<lparr>w_out := w_out ?w @ concat ps\<rparr>)"
      then have "puts flt (p # ps) w = (Inr (), w\<lparr>w_out := w_out w @ concat (p # ps)\<rparr>)" unfolding e by simp
      then show ?thesis ..
    next
      fix q assume "puts (\<lambda>k. flt (Suc k)) ps ?w = (Inl WriteFailed, ?w\<lparr>w_out := w_out ?w @ q, w_broken := True\<rparr>)"
        "prefix q (concat ps)" "\<not> (\<forall>k. \<not> flt (Suc k))"
      then have "puts flt (p # ps) w = (Inl WriteFailed, w\<lparr>w_out := w_out w @ (p @ q), w_broken := True\<rparr>)"
        "prefix (p @ q) (concat (p # ps))" "\<not> (\<forall>k. \<not> flt k)" using e by auto
      then show ?thesis by blast
    qed
  qed
qed simp

lemma puts_broken: "w_broken w \<Longrightarrow> ps \<noteq> [] \<Longrightarrow> puts flt ps w = (Inl WriteFailed, w)"
  by (cases ps) (simp_all add: put_def)

lemma record_pieces_ne [simp]: "record_pieces crc r \<noteq> []"
  by (simp add: record_pieces_def)

lemma write_record_ok:
  assumes "ok_kind r" "\<not> w_closed w" "\<not> w_broken w"
  shows "(write_record flt r w = (Inr (), w\<lparr>w_out := w_out w @ enc_record (w_use_crc w) r,
        w_offset := w_offset w + of_nat (length (enc_record (w_use_crc w) r))\<rparr>)) \<or>
    (\<exists>p. write_record flt r w = (Inl WriteFailed, w\<lparr>w_out := w_out w @ p, w_broken := True\<rparr>) \<and>
       prefix p (enc_record (w_use_crc w) r) \<and> \<not> (\<forall>k. \<not> flt k))"
proof -
  have k: "rec_kind r = kind_rtp \<or> rec_kind r = kind_rtcp" using assms(1) by (auto simp: ok_kind_def)
  from puts_cases[OF assms(3), of flt "record_pieces (w_use_crc w) r"] show ?thesis
    using k assms(2) unfolding write_record_def length_enc_record
    by (elim disjE exE conjE) (auto simp: enc_record_def add.assoc)
qed

lemma write_all_broken:
  assumes "w_broken w" "\<not> w_closed w" "\<forall>r\<in>set rs. ok_kind r"
  shows "write_all flt rs w = (replicate (length rs) (Inl WriteFailed), w)"
  using assms(3)
proof (induction rs arbitrary: flt)
  case (Cons r rs)
  then have "rec_kind r = kind_rtp \<or> rec_kind r = kind_rtcp" by (auto simp: ok_kind_def)
  then show ?case using Cons assms(1,2) by (auto simp: write_record_def puts_broken)
qed simp

text \<open>After any run the file is the records accepted, in order, then part of the one that failed.\<close>

lemma write_all_out:
  assumes "\<forall>r\<in>set rs. ok_kind r" "\<not> w_closed w" "\<not> w_broken w"
  shows "\<exists>m p w'. write_all flt rs w = (replicate m (Inr ()) @ replicate (length rs - m) (Inl WriteFailed), w') \<and>
    m \<le> length rs \<and> w_out w' = w_out w @ enc_log (w_use_crc w) (take m rs) @ p \<and>
    (if m < length rs then prefix p (enc_record (w_use_crc w) (rs ! m)) else p = []) \<and>
    (m = length rs \<longrightarrow> w_offset w' = w_offset w + of_nat (length (enc_log (w_use_crc w) rs)) \<and> \<not> w_broken w' \<and> \<not> w_closed w') \<and>
    ((\<forall>k j. \<not> flt k j) \<longrightarrow> m = length rs)"
  using assms
proof (induction rs arbitrary: w flt)
  case Nil
  show ?case by (intro exI[of _ 0] exI[of _ "[]"] exI[of _ w]) (use Nil in \<open>simp add: enc_log_def\<close>)
next
  case (Cons r rs)
  let ?c = "w_use_crc w"
  from write_record_ok[of r w "flt 0"] Cons.prems
  consider (ok) "write_record (flt 0) r w = (Inr (), w\<lparr>w_out := w_out w @ enc_record ?c r,
        w_offset := w_offset w + of_nat (length (enc_record ?c r))\<rparr>)"
    | (fail) p where "write_record (flt 0) r w = (Inl WriteFailed, w\<lparr>w_out := w_out w @ p, w_broken := True\<rparr>)"
       "prefix p (enc_record ?c r)" "\<not> (\<forall>k. \<not> flt 0 k)" by auto
  then show ?case
  proof cases
    case ok
    let ?w = "w\<lparr>w_out := w_out w @ enc_record ?c r, w_offset := w_offset w + of_nat (length (enc_record ?c r))\<rparr>"
    have c: "w_use_crc ?w = ?c" by simp
    have pr: "\<forall>r\<in>set rs. ok_kind r" "\<not> w_closed ?w" "\<not> w_broken ?w" using Cons.prems by simp_all
    from Cons.IH[OF pr, of "\<lambda>k. flt (Suc k)", unfolded c]
    obtain m p w' where IH: "write_all (\<lambda>k. flt (Suc k)) rs ?w =
        (replicate m (Inr ()) @ replicate (length rs - m) (Inl WriteFailed), w')"
      "m \<le> length rs" "w_out w' = w_out ?w @ enc_log ?c (take m rs) @ p"
      "if m < length rs then prefix p (enc_record ?c (rs ! m)) else p = []"
      "m = length rs \<longrightarrow> w_offset w' = w_offset ?w + of_nat (length (enc_log ?c rs)) \<and> \<not> w_broken w' \<and> \<not> w_closed w'"
      "(\<forall>k j. \<not> flt (Suc k) j) \<longrightarrow> m = length rs"
      by (elim exE conjE) (rule that)
    have "write_all flt (r # rs) w =
        (replicate (Suc m) (Inr ()) @ replicate (length (r # rs) - Suc m) (Inl WriteFailed), w')"
      by (simp add: ok IH(1))
    moreover have "w_out w' = w_out w @ enc_log ?c (take (Suc m) (r # rs)) @ p"
      using IH(3) by (simp add: enc_log_def)
    moreover have "if Suc m < length (r # rs) then prefix p (enc_record ?c ((r # rs) ! Suc m)) else p = []"
      using IH(4) by simp
    moreover have "Suc m = length (r # rs) \<longrightarrow> w_offset w' = w_offset w + of_nat (length (enc_log ?c (r # rs))) \<and>
        \<not> w_broken w' \<and> \<not> w_closed w'"
      using IH(5) by (simp add: enc_log_def add.assoc)
    moreover have "Suc m \<le> length (r # rs)" "(\<forall>k j. \<not> flt k j) \<longrightarrow> Suc m = length (r # rs)"
      using IH(2,6) by simp_all
    ultimately show ?thesis by blast
  next
    case fail
    have "write_all flt (r # rs) w = (replicate 0 (Inr ()) @ replicate (length (r # rs) - 0) (Inl WriteFailed),
        w\<lparr>w_out := w_out w @ p, w_broken := True\<rparr>)"
      using fail Cons.prems by (simp add: write_all_broken)
    moreover have "w_out (w\<lparr>w_out := w_out w @ p, w_broken := True\<rparr>) = w_out w @ enc_log ?c (take 0 (r # rs)) @ p"
      by (simp add: enc_log_def)
    moreover have "if 0 < length (r # rs) then prefix p (enc_record ?c ((r # rs) ! 0)) else p = []" using fail by simp
    moreover have "(\<forall>k j. \<not> flt k j) \<longrightarrow> 0 = length (r # rs)" using fail(3) by blast
    moreover have "0 \<le> length (r # rs)" "0 = length (r # rs) \<longrightarrow> X" for X by simp_all
    ultimately show ?thesis by blast
  qed
qed

lemma read_all_after:
  assumes "\<forall>r\<in>set rs. ok_record r" "rd_use_crc rd = crc" "rd_rest rd = enc_log crc rs @ rest"
    "read_all (rd\<lparr>rd_rest := rest\<rparr>) = (xs, e, rd')"
  shows "read_all rd = (rs @ xs, e, rd')"
proof -
  have "rd = rd\<lparr>rd_rest := enc_log crc rs @ rest\<rparr>" using assms(3) by (cases rd) simp
  then show ?thesis using read_all_log[OF assms(1,2), of rest] assms(4) by simp
qed

text \<open>Reading any prefix of a log yields the records it holds whole, then the end.\<close>

lemma read_all_prefix:
  assumes "\<forall>r\<in>set rs. ok_record r" "rd_use_crc rd = crc" "prefix q (enc_log crc rs)"
  shows "\<exists>m rd'. read_all (rd\<lparr>rd_rest := q\<rparr>) = (take m rs, Eof, rd') \<and> m \<le> length rs \<and>
    length (enc_log crc (take m rs)) \<le> length q \<and>
    (m < length rs \<longrightarrow> length q < length (enc_log crc (take (Suc m) rs))) \<and>
    rd_truncated rd' = (rd_truncated rd \<or> length q \<noteq> length (enc_log crc (take m rs)))"
  using assms(1,3)
proof (induction rs arbitrary: q)
  case Nil
  then show ?case using read_all_end[of rd] by (auto simp: enc_log_def)
next
  case (Cons r rs)
  have ok: "ok_record r" using Cons.prems(1) by simp
  have e: "enc_log crc (r # xs) = enc_record crc r @ enc_log crc xs" for xs by (simp add: enc_log_def)
  show ?case
  proof (cases "length (enc_record crc r) \<le> length q")
    case True
    then obtain q' where q: "q = enc_record crc r @ q'" and p': "prefix q' (enc_log crc rs)"
      using Cons.prems(2) unfolding e by (auto simp: prefix_def append_eq_append_conv2)
    have "\<forall>r\<in>set rs. ok_record r" using Cons.prems(1) by simp
    from Cons.IH[OF this p'] obtain m rd' where IH: "read_all (rd\<lparr>rd_rest := q'\<rparr>) = (take m rs, Eof, rd')"
      "m \<le> length rs" "length (enc_log crc (take m rs)) \<le> length q'"
      "m < length rs \<longrightarrow> length q' < length (enc_log crc (take (Suc m) rs))"
      "rd_truncated rd' = (rd_truncated rd \<or> length q' \<noteq> length (enc_log crc (take m rs)))" by blast
    have "read_all (rd\<lparr>rd_rest := q\<rparr>) = (take (Suc m) (r # rs), Eof, rd')"
      unfolding q by (subst read_all.simps) (simp add: next_enc_record[OF ok assms(2)] IH(1))
    then show ?thesis
      by (intro exI[of _ "Suc m"] exI[of _ rd']) (use IH(2-5) in \<open>simp add: e q\<close>)
  next
    case False
    have "q = take (length q) (enc_record crc r @ enc_log crc rs)"
      using Cons.prems(2) unfolding e by (metis prefix_def append_eq_conv_conj)
    then have q: "q = take (length q) (enc_record crc r)" using False by simp
    obtain rd' where n: "next_record (rd\<lparr>rd_rest := q\<rparr>) = (Inl Eof, rd')"
      "rd_truncated rd' = (rd_truncated rd \<or> length q \<noteq> 0)"
      using next_cut_record[OF ok assms(2) q] False by auto
    have "read_all (rd\<lparr>rd_rest := q\<rparr>) = (take 0 (r # rs), Eof, rd')"
      by (subst read_all.simps) (simp add: n(1))
    then show ?thesis
      by (intro exI[of _ 0] exI[of _ rd']) (use n(2) False in \<open>simp add: enc_log_def\<close>)
  qed
qed

lemma open_enc_header:
  assumes "unmarshal hdr = Some h" "length hdr < 2 ^ 32"
  shows "open_reader unmarshal (enc_header flags hdr @ rest) = Inr \<lparr>rd_rest = rest, rd_version = 1, rd_header = h,
    rd_flags = unat flags, rd_use_crc = (flags AND flag_use_crc \<noteq> 0), rd_truncated = False\<rparr>"
proof -
  have m: "length magic = 8" by (simp add: magic_def)
  have f: "unbe (be 2 (unat flags)) = unat flags"
    by (rule unbe_be) (use unsigned_less[of flags] in simp)
  have v: "unbe (be 2 current_ver) = 1" by (simp add: current_ver_def)
  have n: "unbe (be 4 (u32 (length hdr))) = length hdr" using assms(2) by (rule unbe_u32)
  show ?thesis
    using assms(1) by (simp add: open_reader_def enc_header_def header_pieces_def m f v n)
qed

lemma enc_header_length: "length (enc_header flags hdr) = 16 + length hdr"
  by (simp add: enc_header_def header_pieces_def magic_def)

lemma new_writer_ok:
  assumes "marshal h = Some hdr" "\<And>k. \<not> flt k"
  shows "\<exists>flags. new_writer flt marshal crc h = Inr \<lparr>w_out = enc_header flags hdr, w_broken = False, w_closed = False,
      w_use_crc = crc, w_flags = flags, w_offset = of_nat (length (enc_header flags hdr))\<rparr> \<and>
    (flags AND flag_use_crc \<noteq> 0) = crc"
proof -
  have m: "length magic = 8" by (simp add: magic_def)
  have fl: "(flag_use_crc :: 16 word) \<noteq> 0" "flag_use_crc AND flag_use_crc = flag_use_crc" "0 AND flag_use_crc = 0"
    by (simp_all add: flag_use_crc_def)
  let ?f = "if crc then 0 OR flag_use_crc else 0"
  let ?w = "\<lparr>w_out = [], w_broken = False, w_closed = False, w_use_crc = crc, w_flags = ?f, w_offset = 0\<rparr>"
  have "puts flt (header_pieces ?f hdr) ?w = (Inr (), ?w\<lparr>w_out := enc_header ?f hdr\<rparr>)"
    using puts_cases[of ?w flt "header_pieces ?f hdr"] assms(2) by (auto simp: enc_header_def)
  then have "new_writer flt marshal crc h = Inr \<lparr>w_out = enc_header ?f hdr, w_broken = False, w_closed = False,
      w_use_crc = crc, w_flags = ?f, w_offset = of_nat (length (enc_header ?f hdr))\<rparr>"
    by (simp add: new_writer_def assms(1) Let_def m enc_header_length)
  moreover have "(?f AND flag_use_crc \<noteq> 0) = crc" by (cases crc) (simp_all add: fl)
  ultimately show ?thesis by blast
qed

text \<open>
  C30: a log reads back as it was written.  When no write fails, the closed file of any records
  with a valid kind and a non-empty packet opens with the header and version, yields exactly the
  records in order, ends cleanly, and is as long as the offset the writer tracked.
\<close>

theorem rtp_log_roundtrip:
  assumes codec: "marshal h = Some hdr" "unmarshal hdr = Some h" "length hdr < 2 ^ 32"
    and ok: "\<forall>r\<in>set rs. ok_record r"
  shows "\<exists>w0 w w' rd rd'. new_writer (\<lambda>_. False) marshal crc h = Inr w0
    \<and> write_all (\<lambda>_ _. False) rs w0 = (replicate (length rs) (Inr ()), w)
    \<and> close_writer False w = (Inr (), w')
    \<and> w_offset w' = of_nat (length (w_out w'))
    \<and> open_reader unmarshal (w_out w') = Inr rd \<and> rd_header rd = h \<and> rd_version rd = current_ver
    \<and> read_all rd = (rs, Eof, rd') \<and> \<not> rd_truncated rd'"
proof -
  obtain flags where w0: "new_writer (\<lambda>_. False) marshal crc h = Inr \<lparr>w_out = enc_header flags hdr, w_broken = False,
      w_closed = False, w_use_crc = crc, w_flags = flags, w_offset = of_nat (length (enc_header flags hdr))\<rparr>" (is "_ = Inr ?w0")
    and fl: "(flags AND flag_use_crc \<noteq> 0) = crc"
    using new_writer_ok[where marshal = marshal and h = h and flt = "\<lambda>_. False" and crc = crc, OF codec(1)] by blast
  have "\<forall>r\<in>set rs. ok_kind r" using ok by (simp add: ok_record_def)
  from write_all_out[OF this, of ?w0 "\<lambda>_ _. False"] obtain w where
    w: "write_all (\<lambda>_ _. False) rs ?w0 = (replicate (length rs) (Inr ()), w)"
      "w_out w = enc_header flags hdr @ enc_log crc rs" "\<not> w_closed w" "\<not> w_broken w"
      "w_offset w = of_nat (length (enc_header flags hdr)) + of_nat (length (enc_log crc rs))"
    by auto
  let ?rd = "\<lparr>rd_rest = enc_log crc rs, rd_version = 1, rd_header = h,
    rd_flags = unat flags, rd_use_crc = (flags AND flag_use_crc \<noteq> 0), rd_truncated = False\<rparr>"
  have rd: "open_reader unmarshal (w_out w) = Inr ?rd"
    unfolding w(2) using codec(2,3) by (rule open_enc_header)
  have "read_all ?rd = (rs @ [], Eof, ?rd\<lparr>rd_rest := []\<rparr>)"
    by (rule read_all_after[OF ok _ _ read_all_end[of ?rd]]) (simp_all add: fl)
  then show ?thesis
    using w0 w rd by (simp add: close_writer_def current_ver_def)
qed


text \<open>
  an empty packet is written but cannot be read.  Every write of the run succeeds although
  one record has no bytes; reading the closed file stops with an error there, and the records
  after it are not read.
\<close>

theorem empty_record_unreadable:
  assumes codec: "marshal h = Some hdr" "unmarshal hdr = Some h" "length hdr < 2 ^ 32"
    and ok: "\<forall>r\<in>set rs. ok_record r" "\<forall>r\<in>set later. ok_record r" and e: "ok_kind e" "rec_wire e = []"
  shows "\<exists>w0 w rd rd'. new_writer (\<lambda>_. False) marshal crc h = Inr w0
    \<and> write_all (\<lambda>_ _. False) (rs @ e # later) w0 = (replicate (length rs + 1 + length later) (Inr ()), w)
    \<and> open_reader unmarshal (w_out w) = Inr rd \<and> read_all rd = (rs, ZeroLength, rd')"
proof -
  obtain flags where w0: "new_writer (\<lambda>_. False) marshal crc h = Inr \<lparr>w_out = enc_header flags hdr, w_broken = False,
      w_closed = False, w_use_crc = crc, w_flags = flags, w_offset = of_nat (length (enc_header flags hdr))\<rparr>" (is "_ = Inr ?w0")
    and fl: "(flags AND flag_use_crc \<noteq> 0) = crc"
    using new_writer_ok[where marshal = marshal and h = h and flt = "\<lambda>_. False" and crc = crc, OF codec(1)] by blast
  have "\<forall>r\<in>set (rs @ e # later). ok_kind r" using ok e by (auto simp: ok_record_def)
  from write_all_out[OF this, of ?w0 "\<lambda>_ _. False"] obtain w where
    w: "write_all (\<lambda>_ _. False) (rs @ e # later) ?w0 = (replicate (length rs + 1 + length later) (Inr ()), w)"
      "w_out w = enc_header flags hdr @ enc_log crc (rs @ e # later)"
    by auto
  let ?rest = "enc_record crc e @ enc_log crc later"
  let ?rd = "\<lparr>rd_rest = enc_log crc rs @ ?rest, rd_version = 1, rd_header = h,
    rd_flags = unat flags, rd_use_crc = (flags AND flag_use_crc \<noteq> 0), rd_truncated = False\<rparr>"
  have "w_out w = enc_header flags hdr @ enc_log crc rs @ ?rest" by (simp add: w(2) enc_log_def)
  then have rd: "open_reader unmarshal (w_out w) = Inr ?rd" using open_enc_header[where unmarshal = unmarshal, OF codec(2,3)] by simp
  have "unbe (be 4 (u32 0)) = 0" by simp
  then obtain rd' where "next_record (?rd\<lparr>rd_rest := ?rest\<rparr>) = (Inl ZeroLength, rd')"
    using e(2) by (simp add: next_record_def enc_record_eq)
  then have z: "read_all (?rd\<lparr>rd_rest := ?rest\<rparr>) = ([], ZeroLength, rd')"
    by (subst read_all.simps) simp
  have "read_all ?rd = (rs @ [], ZeroLength, rd')"
    by (rule read_all_after[OF ok(1) _ _ z]) (simp_all add: fl)
  then have "read_all ?rd = (rs, ZeroLength, rd')" by simp
  then show ?thesis using w0 w(1) rd by blast
qed

subsection \<open>The sidecar index\<close>

record index_entry =
  ie_recv :: "64 word"
  ie_offset :: "64 word"

text \<open>
  \<open>BuildIndex\<close>: the entries written so far and the error that stopped it, if any.  Errors of
  writing the sidecar are not modelled.
\<close>

function index_loop :: "bool \<Rightarrow> byte list \<Rightarrow> 64 word \<Rightarrow> index_entry list \<times> log_err option" where
  "index_loop crc bs offset = (case read_full 8 bs of
     (Inl EOF, _) \<Rightarrow> ([], None)
   | (Inl UnexpectedEOF, _) \<Rightarrow> ([], Some (ReadFailed UnexpectedEOF))
   | (Inr recv, bs) \<Rightarrow> (case read_full 1 bs of
     (Inl e, _) \<Rightarrow> ([], Some (ReadFailed e))
   | (Inr _, bs) \<Rightarrow> (case read_full 4 bs of
     (Inl e, _) \<Rightarrow> ([], Some (ReadFailed e))
   | (Inr n, bs) \<Rightarrow> (case read_full (unbe n) bs of
     (Inl e, _) \<Rightarrow> ([], Some (ReadFailed e))
   | (Inr _, bs) \<Rightarrow>
       (let entry = \<lparr>ie_recv = word_of_nat (unbe recv), ie_offset = offset\<rparr>;
            offset = offset + 8 + 1 + 4 + of_nat (unbe n)
        in if crc then (case read_full 4 bs of
             (Inl e, _) \<Rightarrow> ([], Some (ReadFailed e))
           | (Inr _, bs) \<Rightarrow> (let (es, e) = index_loop crc bs (offset + 4) in (entry # es, e)))
           else (let (es, e) = index_loop crc bs offset in (entry # es, e)))))))"
  by pat_completeness auto
termination
proof (relation "measure (\<lambda>(crc, bs, offset). length bs)", goal_cases)
  case 1
  then show ?case by simp
next
  case (2 crc bs offset x bs1 recv y bs2 k z bs3 n u bs4 w)
  then show ?case by (auto dest!: read_full_ok[OF sym] dest: sym)
next
  case (3 crc bs offset x bs1 recv y bs2 k z bs3 n u bs4 w)
  then show ?case by (auto dest!: read_full_ok[OF sym] dest: sym)
qed

declare index_loop.simps [simp del]

definition build_index :: "(byte list \<Rightarrow> 'h option) \<Rightarrow> byte list \<Rightarrow> index_entry list \<times> log_err option" where
  "build_index unmarshal file = (case read_full 8 file of
     (Inl e, _) \<Rightarrow> ([], Some (ReadFailed e))
   | (Inr m, bs) \<Rightarrow> if m \<noteq> magic then ([], Some BadMagic) else (case read_full 2 bs of
     (Inl e, _) \<Rightarrow> ([], Some (ReadFailed e))
   | (Inr ver, bs) \<Rightarrow> (case read_full 2 bs of
     (Inl e, _) \<Rightarrow> ([], Some (ReadFailed e))
   | (Inr flags, bs) \<Rightarrow> (case read_full 4 bs of
     (Inl e, _) \<Rightarrow> ([], Some (ReadFailed e))
   | (Inr n, bs) \<Rightarrow> (case read_full (unbe n) bs of
     (Inl e, _) \<Rightarrow> ([], Some (ReadFailed e))
   | (Inr raw, bs) \<Rightarrow> (case unmarshal raw of
     None \<Rightarrow> ([], Some UnmarshalHeader)
   | Some _ \<Rightarrow> index_loop (word_of_nat (unbe flags) AND flag_use_crc \<noteq> 0) bs
        (of_nat (length magic + 2 + 2 + 4 + length raw))))))))"

definition write_index :: "index_entry list \<Rightarrow> byte list" where
  "write_index es = concat (map (\<lambda>e. be 8 (unat (ie_recv e)) @ be 8 (unat (ie_offset e))) es)"

datatype index_err = IndexTruncated | IndexReadFailed io_err

function read_index :: "byte list \<Rightarrow> (index_err, index_entry list) res" where
  "read_index bs = (case read_full 8 bs of
     (Inl EOF, _) \<Rightarrow> Inr []
   | (Inl UnexpectedEOF, _) \<Rightarrow> Inl IndexTruncated
   | (Inr recv, bs) \<Rightarrow> (case read_full 8 bs of
     (Inl UnexpectedEOF, _) \<Rightarrow> Inl IndexTruncated
   | (Inl EOF, _) \<Rightarrow> Inl (IndexReadFailed EOF)
   | (Inr off, bs) \<Rightarrow> bind_r (read_index bs) (\<lambda>es.
       Inr (\<lparr>ie_recv = word_of_nat (unbe recv), ie_offset = word_of_nat (unbe off)\<rparr> # es))))"
  by pat_completeness auto
termination
  by (relation "measure length") (auto dest!: read_full_ok[OF sym] dest: sym)

declare read_index.simps [simp del]

lemma index_loop_log:
  assumes "\<forall>r\<in>set rs. ok_kind r"
  shows "index_loop crc (enc_log crc rs) off =
    (map (\<lambda>i. \<lparr>ie_recv = rec_recv (rs ! i), ie_offset = off + of_nat (length (enc_log crc (take i rs)))\<rparr>) [0..<length rs], None)"
  using assms
proof (induction rs arbitrary: off)
  case Nil
  show ?case by (subst index_loop.simps) (simp add: enc_log_def read_full_short)
next
  case (Cons r rs)
  have n: "unbe (be 4 (u32 (length (rec_wire r)))) = length (rec_wire r)"
    using Cons.prems by (intro unbe_u32) (simp add: ok_kind_def)
  have len: "of_nat (length (enc_record crc r)) = (8 + 1 + 4 + of_nat (length (rec_wire r)) + (if crc then 4 else 0) :: 64 word)"
    by (simp add: length_enc_record)
  have step: "index_loop crc (enc_record crc r @ enc_log crc rs) off =
      (let (es, e) = index_loop crc (enc_log crc rs) (off + of_nat (length (enc_record crc r)))
       in (\<lparr>ie_recv = rec_recv r, ie_offset = off\<rparr> # es, e))"
    by (subst index_loop.simps) (simp add: enc_record_eq n len Let_def add.assoc)
  have e: "enc_log crc (r # xs) = enc_record crc r @ enc_log crc xs" "enc_log crc [] = []" for xs
    by (simp_all add: enc_log_def)
  have "\<forall>r\<in>set rs. ok_kind r" using Cons.prems by simp
  then show ?case
    by (simp add: e step Cons.IH map_upt_Suc add.assoc del: upt_Suc)
qed

lemma read_write_index: "read_index (write_index es) = Inr es"
proof (induction es)
  case Nil
  show ?case by (subst read_index.simps) (simp add: write_index_def read_full_short)
next
  case (Cons e es)
  then show ?case by (subst read_index.simps) (simp add: write_index_def)
qed

lemma unat_of_nat_64: "n < 2 ^ 64 \<Longrightarrow> unat (of_nat n :: 64 word) = n"
  by (simp add: unat_of_nat take_bit_nat_eq_self)

text \<open>
  The index points at the records.  On the file of a log shorter than 2^64 bytes the index
  has one entry per record, with its receive time, and reading the file from that offset yields
  the record; the sidecar file reads back as the entries.
\<close>

theorem index_points_at_records:
  assumes codec: "unmarshal hdr = Some h" "length hdr < 2 ^ 32" and flags: "(flags AND flag_use_crc \<noteq> 0) = crc"
    and ok: "\<forall>r\<in>set rs. ok_record r" and fl: "file = enc_header flags hdr @ enc_log crc rs" "length file < 2 ^ 64"
  shows "\<exists>es rd. build_index unmarshal file = (es, None) \<and> length es = length rs
    \<and> read_index (write_index es) = Inr es \<and> open_reader unmarshal file = Inr rd
    \<and> (\<forall>i<length rs. ie_recv (es ! i) = rec_recv (rs ! i)
         \<and> fst (next_record (rd\<lparr>rd_rest := drop (unat (ie_offset (es ! i))) file\<rparr>)) = Inr (rs ! i))"
proof -
  let ?H = "length (enc_header flags hdr)"
  define es where "es = map (\<lambda>i. \<lparr>ie_recv = rec_recv (rs ! i),
      ie_offset = of_nat ?H + of_nat (length (enc_log crc (take i rs)))\<rparr>) [0..<length rs]"
  have okk: "\<forall>r\<in>set rs. ok_kind r" using ok by (simp add: ok_record_def)
  have m: "length magic = 8" by (simp add: magic_def)
  have f: "unbe (be 2 (unat flags)) = unat flags" by (rule unbe_be) (use unsigned_less[of flags] in simp)
  have n: "unbe (be 4 (u32 (length hdr))) = length hdr" using codec(2) by (rule unbe_u32)
  have H: "?H = 16 + length hdr" by (rule enc_header_length)
  have b: "build_index unmarshal file = (es, None)"
    using codec(1) flags index_loop_log[OF okk, of crc "of_nat ?H"]
    by (simp add: build_index_def fl(1) enc_header_def header_pieces_def m f n es_def)
  let ?rd = "\<lparr>rd_rest = enc_log crc rs, rd_version = 1, rd_header = h,
    rd_flags = unat flags, rd_use_crc = (flags AND flag_use_crc \<noteq> 0), rd_truncated = False\<rparr>"
  have rd: "open_reader unmarshal file = Inr ?rd" unfolding fl(1) using codec by (rule open_enc_header)
  have "fst (next_record (?rd\<lparr>rd_rest := drop (unat (ie_offset (es ! i))) file\<rparr>)) = Inr (rs ! i)"
    if i: "i < length rs" for i
  proof -
    let ?k = "?H + length (enc_log crc (take i rs))"
    have split: "enc_log crc rs = enc_log crc (take i rs) @ enc_record crc (rs ! i) @ enc_log crc (drop (Suc i) rs)"
      by (subst id_take_nth_drop[OF i]) (simp add: enc_log_def)
    then have "?k \<le> length file" by (simp add: fl(1))
    then have "?k < 2 ^ 64" using fl(2) by simp
    then have "unat (of_nat ?k :: 64 word) = ?k" by (rule unat_of_nat_64)
    then have "drop (unat (ie_offset (es ! i))) file = enc_record crc (rs ! i) @ enc_log crc (drop (Suc i) rs)"
      using i split by (simp add: es_def fl(1))
    moreover have "ok_record (rs ! i)" using ok i by simp
    ultimately show ?thesis using next_enc_record[of "rs ! i" ?rd crc] flags by simp
  qed
  then show ?thesis using b rd read_write_index[of es] by (simp add: es_def)
qed

text \<open>\<open>sort.Search\<close> and the seek.\<close>

function search_loop :: "(nat \<Rightarrow> bool) \<Rightarrow> nat \<Rightarrow> nat \<Rightarrow> nat" where
  "search_loop f i j = (if i < j then let h = (i + j) div 2 in
     if \<not> f h then search_loop f (h + 1) j else search_loop f i h else i)"
  by pat_completeness auto
termination by (relation "measure (\<lambda>(f, i, j). j - i)") auto

declare search_loop.simps [simp del]

definition find_offset :: "index_entry list \<Rightarrow> 64 word \<Rightarrow> index_entry option" where
  "find_offset es t = (if es = [] then None
     else let s = sort_key (\<lambda>e. (ie_recv e, ie_offset e)) es;
              idx = search_loop (\<lambda>i. t \<le> ie_recv (s ! i)) 0 (length s)
          in if length s \<le> idx then None else Some (s ! idx))"

lemma search_loop_least:
  assumes mono: "\<And>x y. x \<le> y \<Longrightarrow> y < n \<Longrightarrow> f x \<Longrightarrow> f y"
    and "i \<le> j" "j \<le> n" "\<forall>x<i. \<not> f x" "j < n \<longrightarrow> f j"
  shows "search_loop f i j \<le> n \<and> (\<forall>x< search_loop f i j. \<not> f x) \<and>
    (search_loop f i j < n \<longrightarrow> f (search_loop f i j))"
  using assms(2-)
proof (induction "j - i" arbitrary: i j rule: less_induct)
  case less
  show ?case
  proof (cases "i < j")
    case True
    let ?h = "(i + j) div 2"
    have h: "i \<le> ?h" "?h < j" using True by auto
    show ?thesis
    proof (cases "f ?h")
      case False
      have "\<forall>x<?h + 1. \<not> f x"
      proof (intro allI impI notI)
        fix x assume "x < ?h + 1" "f x"
        then have "f ?h" using mono[of x ?h] h less.prems(2) by simp
        with False show False by simp
      qed
      then have "search_loop f (?h + 1) j \<le> n \<and> (\<forall>x< search_loop f (?h + 1) j. \<not> f x) \<and>
          (search_loop f (?h + 1) j < n \<longrightarrow> f (search_loop f (?h + 1) j))"
        by (intro less.hyps) (use h True less.prems in simp_all)
      moreover have "search_loop f i j = search_loop f (?h + 1) j"
        using True False by (subst search_loop.simps) (simp add: Let_def)
      ultimately show ?thesis by simp
    next
      case T: True
      have "search_loop f i ?h \<le> n \<and> (\<forall>x< search_loop f i ?h. \<not> f x) \<and>
          (search_loop f i ?h < n \<longrightarrow> f (search_loop f i ?h))"
        by (intro less.hyps) (use h True T less.prems in simp_all)
      moreover have "search_loop f i j = search_loop f i ?h"
        using True T by (subst search_loop.simps) (simp add: Let_def)
      ultimately show ?thesis by simp
    qed
  next
    case False
    then have "i = j" using less.prems by simp
    moreover have "search_loop f i j = i" using False by (subst search_loop.simps) simp
    ultimately show ?thesis using less.prems by simp
  qed
qed

text \<open>
  the seek finds the least entry.  \<open>FindOffset\<close> answers an entry exactly when one is at or
  after the time, and then the least such entry by time, ties broken by offset, in whatever
  order the entries come.
\<close>

theorem find_offset_least:
  "find_offset es t = Some e \<longleftrightarrow> e \<in> set es \<and> t \<le> ie_recv e \<and>
     (\<forall>x\<in>set es. t \<le> ie_recv x \<longrightarrow> (ie_recv e, ie_offset e) \<le> (ie_recv x, ie_offset x))"
proof -
  let ?key = "\<lambda>e. (ie_recv e, ie_offset e)"
  define s where "s = sort_key ?key es"
  define f where "f = (\<lambda>i. t \<le> ie_recv (s ! i))"
  define k where "k = search_loop f 0 (length s)"
  have sorted: "sorted (map ?key s)" by (simp add: s_def)
  have set: "set s = set es" by (simp add: s_def)
  have le: "?key (s ! x) \<le> ?key (s ! y)" if "x \<le> y" "y < length s" for x y
    using sorted_nth_mono[OF sorted that(1)] that by simp
  have mono: "f y" if "x \<le> y" "y < length s" "f x" for x y
    using le[OF that(1,2)] that(3) by (auto simp: f_def less_eq_prod_def)
  have K: "k \<le> length s" "\<And>x. x < k \<Longrightarrow> \<not> f x" "k < length s \<Longrightarrow> f k"
    using search_loop_least[of "length s" f 0 "length s", OF mono] by (auto simp: k_def)
  have r: "find_offset es t = (if k < length s then Some (s ! k) else None)"
    by (auto simp: find_offset_def s_def[symmetric] f_def[symmetric] k_def[symmetric] Let_def) (simp add: s_def)+
  have least: "?key (s ! k) \<le> ?key x" "k < length s" if "x \<in> set es" "t \<le> ie_recv x" for x
  proof -
    from that(1) set obtain i where i: "i < length s" "x = s ! i" by (metis in_set_conv_nth)
    with that(2) have "f i" by (simp add: f_def)
    then have "k \<le> i" using K(2)[of i] by force
    with le[OF this i(1)] i show "?key (s ! k) \<le> ?key x" "k < length s" by simp_all
  qed
  show ?thesis
  proof
    assume "find_offset es t = Some e"
    then have e: "k < length s" "e = s ! k" using r by (auto split: if_splits)
    have "e \<in> set es" using nth_mem[OF e(1)] by (simp only: e(2) set)
    moreover have "t \<le> ie_recv e" using K(3)[OF e(1)] by (simp only: f_def e(2))
    moreover have "\<forall>x\<in>set es. t \<le> ie_recv x \<longrightarrow> ?key e \<le> ?key x" unfolding e(2) using least(1) by blast
    ultimately show "e \<in> set es \<and> t \<le> ie_recv e \<and> (\<forall>x\<in>set es. t \<le> ie_recv x \<longrightarrow> ?key e \<le> ?key x)" by blast
  next
    assume a: "e \<in> set es \<and> t \<le> ie_recv e \<and> (\<forall>x\<in>set es. t \<le> ie_recv x \<longrightarrow> ?key e \<le> ?key x)"
    then have "e \<in> set es" "t \<le> ie_recv e" by blast+
    then have k: "k < length s" "?key (s ! k) \<le> ?key e" by (rule least(2), rule least(1))
    then have "s ! k \<in> set es" using set nth_mem by metis
    moreover have "t \<le> ie_recv (s ! k)" using K(3)[OF k(1)] by (simp only: f_def)
    ultimately have "?key e \<le> ?key (s ! k)" using a by blast
    with k(2) have "?key e = ?key (s ! k)" by (rule order_antisym[rotated])
    then have "e = s ! k" by (intro index_entry.equality) simp_all
    then show "find_offset es t = Some e" using r k(1) by simp
  qed
qed

subsection \<open>The log checker\<close>

datatype issue_code = Recv_non_monotonic | Rtp_unmarshal | Payload_type_change | Truncated_tail

record log_issue =
  is_code :: issue_code
  is_message :: string
  is_index :: nat
  is_recv :: "64 word"

record log_report =
  lr_path :: string
  lr_records :: nat
  lr_rtp :: nat
  lr_rtcp :: nat
  lr_first :: "64 word"
  lr_last :: "64 word"
  lr_header_pt :: byte
  lr_issue_count :: nat
  lr_issues :: "log_issue list"

definition max_issues :: nat where "max_issues = 64"

definition add_issue :: "log_issue \<Rightarrow> log_report \<Rightarrow> log_report" where
  "add_issue i rep = (if max_issues \<le> length (lr_issues rep) then rep
     else rep\<lparr>lr_issues := lr_issues rep @ [i]\<rparr>)"

text \<open>
  The loop's state: the report, the previous receive time, whether there was one, and the index.
  \<open>parse\<close> is the RTP library's \<open>Unmarshal\<close>: an error text or the packet's payload type.
\<close>

type_synonym check_state = "log_report \<times> 64 word \<times> bool \<times> nat"

definition check_time :: "rtp_record \<Rightarrow> 64 word \<Rightarrow> bool \<Rightarrow> nat \<Rightarrow> log_report \<Rightarrow> log_report" where
  "check_time x prev has_prev index rep =
     (let recv = rec_recv x;
          rep = rep\<lparr>lr_records := lr_records rep + 1\<rparr>;
          rep = (if \<not> has_prev \<or> recv < lr_first rep then rep\<lparr>lr_first := recv\<rparr> else rep);
          rep = (if lr_last rep < recv then rep\<lparr>lr_last := recv\<rparr> else rep)
      in if has_prev \<and> recv < prev then add_issue \<lparr>is_code = Recv_non_monotonic,
           is_message = ''recv timestamp moved backwards ('' @ itoa (uint prev) @ '' -> '' @ itoa (uint recv) @ '')'',
           is_index = index, is_recv = recv\<rparr> rep else rep)"

definition check_kind :: "(byte list \<Rightarrow> (string, byte) res) \<Rightarrow> rtp_record \<Rightarrow> nat \<Rightarrow> log_report \<Rightarrow> log_report" where
  "check_kind parse x index rep =
     (if rec_kind x = kind_rtp then
        let rep = rep\<lparr>lr_rtp := lr_rtp rep + 1\<rparr> in
        (case parse (rec_wire x) of
           Inl e \<Rightarrow> add_issue \<lparr>is_code = Rtp_unmarshal, is_message = e, is_index = index, is_recv = rec_recv x\<rparr> rep
         | Inr pt \<Rightarrow> if lr_header_pt rep \<noteq> 0 \<and> pt \<noteq> lr_header_pt rep
             then add_issue \<lparr>is_code = Payload_type_change,
                is_message = ''packet payload type '' @ itoa (uint pt) @ '' != header payload type '' @ itoa (uint (lr_header_pt rep)),
                is_index = index, is_recv = rec_recv x\<rparr> rep else rep)
      else if rec_kind x = kind_rtcp then rep\<lparr>lr_rtcp := lr_rtcp rep + 1\<rparr> else rep)"

definition check_record :: "(byte list \<Rightarrow> (string, byte) res) \<Rightarrow> check_state \<Rightarrow> rtp_record \<Rightarrow> check_state" where
  "check_record parse st x = (case st of (rep, prev, has_prev, index) \<Rightarrow>
     (check_kind parse x index (check_time x prev has_prev index rep), rec_recv x, True, index + 1))"

definition empty_report :: "string \<Rightarrow> byte \<Rightarrow> log_report" where
  "empty_report path pt = \<lparr>lr_path = path, lr_records = 0, lr_rtp = 0, lr_rtcp = 0, lr_first = 0, lr_last = 0,
     lr_header_pt = pt, lr_issue_count = 0, lr_issues = []\<rparr>"

definition check_log ::
  "(byte list \<Rightarrow> 'h option) \<Rightarrow> ('h \<Rightarrow> byte) \<Rightarrow> (byte list \<Rightarrow> (string, byte) res) \<Rightarrow> string \<Rightarrow> byte list \<Rightarrow> (log_err, log_report) res" where
  "check_log unmarshal header_pt parse path file = (case open_reader unmarshal file of
     Inl e \<Rightarrow> Inl e
   | Inr rd \<Rightarrow> (let (xs, e, rd') = read_all rd in
       if e \<noteq> Eof then Inl e
       else let (rep, prev, _, index) = foldl (check_record parse) (empty_report path (header_pt (rd_header rd)), 0, False, 0) xs;
                rep = (if rd_truncated rd' then add_issue \<lparr>is_code = Truncated_tail,
                   is_message = ''log ended in a partially written record (recorder crashed mid-write); preceding records are intact'',
                   is_index = index, is_recv = prev\<rparr> rep else rep)
            in Inr (rep\<lparr>lr_issue_count := length (lr_issues rep)\<rparr>)))"

definition rtp_fits :: "(byte list \<Rightarrow> (string, byte) res) \<Rightarrow> byte \<Rightarrow> rtp_record \<Rightarrow> bool" where
  "rtp_fits parse hpt x \<longleftrightarrow> (rec_kind x = kind_rtp \<longrightarrow>
     (\<exists>pt. parse (rec_wire x) = Inr pt \<and> (hpt \<noteq> 0 \<longrightarrow> pt = hpt)))"

lemma add_issue_simps [simp]:
  "lr_records (add_issue i rep) = lr_records rep" "lr_rtp (add_issue i rep) = lr_rtp rep"
  "lr_rtcp (add_issue i rep) = lr_rtcp rep" "lr_first (add_issue i rep) = lr_first rep"
  "lr_last (add_issue i rep) = lr_last rep" "lr_header_pt (add_issue i rep) = lr_header_pt rep"
  "lr_issues (add_issue i rep) \<noteq> []"
  by (auto simp: add_issue_def max_issues_def)

lemma add_issue_bound: "length (lr_issues rep) \<le> 64 \<Longrightarrow> length (lr_issues (add_issue i rep)) \<le> 64"
  by (simp add: add_issue_def max_issues_def)

lemma check_time_effect:
  "lr_records (check_time x prev hp i rep) = lr_records rep + 1"
  "lr_rtp (check_time x prev hp i rep) = lr_rtp rep" "lr_rtcp (check_time x prev hp i rep) = lr_rtcp rep"
  "lr_first (check_time x prev hp i rep) = (if \<not> hp \<or> rec_recv x < lr_first rep then rec_recv x else lr_first rep)"
  "lr_last (check_time x prev hp i rep) = (if lr_last rep < rec_recv x then rec_recv x else lr_last rep)"
  "lr_header_pt (check_time x prev hp i rep) = lr_header_pt rep"
  "length (lr_issues rep) \<le> 64 \<Longrightarrow> length (lr_issues (check_time x prev hp i rep)) \<le> 64"
  "lr_issues (check_time x prev hp i rep) = [] \<longleftrightarrow> lr_issues rep = [] \<and> (hp \<longrightarrow> prev \<le> rec_recv x)"
  by (auto simp: check_time_def Let_def add_issue_bound not_less)

lemma check_kind_effect:
  "lr_records (check_kind parse x i rep) = lr_records rep"
  "lr_rtp (check_kind parse x i rep) = lr_rtp rep + (if rec_kind x = kind_rtp then 1 else 0)"
  "lr_rtcp (check_kind parse x i rep) = lr_rtcp rep + (if rec_kind x = kind_rtcp then 1 else 0)"
  "lr_first (check_kind parse x i rep) = lr_first rep" "lr_last (check_kind parse x i rep) = lr_last rep"
  "lr_header_pt (check_kind parse x i rep) = lr_header_pt rep"
  "length (lr_issues rep) \<le> 64 \<Longrightarrow> length (lr_issues (check_kind parse x i rep)) \<le> 64"
  "lr_issues (check_kind parse x i rep) = [] \<longleftrightarrow> lr_issues rep = [] \<and> rtp_fits parse (lr_header_pt rep) x"
  by (auto simp: check_kind_def Let_def add_issue_bound rtp_fits_def kind_rtp_def kind_rtcp_def split: sum.splits)

text \<open>The state of the loop after the records \<open>xs\<close>.\<close>

lemma check_loop:
  assumes "foldl (check_record parse) (empty_report path pt, 0, False, 0) xs = (rep, prev, hp, i)"
  shows "lr_records rep = length xs \<and> lr_header_pt rep = pt \<and> i = length xs \<and> hp = (xs \<noteq> []) \<and>
    lr_rtp rep = length (filter (\<lambda>x. rec_kind x = kind_rtp) xs) \<and>
    lr_rtcp rep = length (filter (\<lambda>x. rec_kind x = kind_rtcp) xs) \<and>
    (xs \<noteq> [] \<longrightarrow> prev = rec_recv (last xs)) \<and>
    (xs \<noteq> [] \<longrightarrow> lr_first rep = Min (rec_recv ` set xs)) \<and> (xs \<noteq> [] \<longrightarrow> lr_last rep = Max (rec_recv ` set xs)) \<and>
    (xs = [] \<longrightarrow> lr_last rep = 0) \<and>
    length (lr_issues rep) \<le> 64 \<and>
    (lr_issues rep = [] \<longleftrightarrow> sorted (map rec_recv xs) \<and> (\<forall>x\<in>set xs. rtp_fits parse pt x))"
  using assms
proof (induction xs arbitrary: rep prev hp i rule: rev_induct)
  case Nil
  then show ?case by (auto simp: empty_report_def)
next
  case (snoc x xs)
  obtain rep1 prev1 hp1 i1 where f: "foldl (check_record parse) (empty_report path pt, 0, False, 0) xs = (rep1, prev1, hp1, i1)"
    by (cases "foldl (check_record parse) (empty_report path pt, 0, False, 0) xs")
  note IH = snoc.IH[OF f]
  have e: "rep = check_kind parse x i1 (check_time x prev1 hp1 i1 rep1)" "prev = rec_recv x" "hp" "i = i1 + 1"
    using snoc.prems by (simp_all add: f check_record_def[of parse "(rep1, prev1, hp1, i1)"])
  have srt: "sorted (map rec_recv (xs @ [x])) \<longleftrightarrow> sorted (map rec_recv xs) \<and> (xs \<noteq> [] \<longrightarrow> rec_recv (last xs) \<le> rec_recv x)"
  proof (cases "xs = []")
    case False
    then have "map rec_recv xs = map rec_recv (butlast xs) @ [rec_recv (last xs)]"
      by (metis append_butlast_last_id list.simps(8,9) map_append)
    then show ?thesis using False by (auto simp: sorted_append intro: order_trans)
  qed simp
  have eff: "lr_first rep = (if \<not> hp1 \<or> rec_recv x < lr_first rep1 then rec_recv x else lr_first rep1)"
    "lr_last rep = (if lr_last rep1 < rec_recv x then rec_recv x else lr_last rep1)"
    by (simp_all only: e(1) check_kind_effect check_time_effect)
  have first: "lr_first rep = Min (rec_recv ` set (xs @ [x]))"
  proof (cases "xs = []")
    case False
    then have "Min (rec_recv ` set (xs @ [x])) = min (rec_recv x) (Min (rec_recv ` set xs))" by simp
    moreover have "lr_first rep1 = Min (rec_recv ` set xs)" "hp1" using IH False by simp_all
    ultimately show ?thesis unfolding eff by (auto simp: min_def)
  qed (use IH in \<open>simp add: eff\<close>)
  have last: "lr_last rep = Max (rec_recv ` set (xs @ [x]))"
  proof (cases "xs = []")
    case False
    then have "Max (rec_recv ` set (xs @ [x])) = max (rec_recv x) (Max (rec_recv ` set xs))" by simp
    moreover have "lr_last rep1 = Max (rec_recv ` set xs)" using IH False by simp
    ultimately show ?thesis unfolding eff by (auto simp: max_def)
  next
    case True
    then have "lr_last rep1 = 0" using IH by simp
    moreover have "rec_recv x = 0" if "\<not> 0 < rec_recv x" using that by (simp add: word_neq_0_conv[symmetric])
    ultimately show ?thesis using True by (auto simp: eff)
  qed
  have bound: "length (lr_issues rep) \<le> 64" using IH by (simp add: e(1) check_kind_effect check_time_effect)
  have clean: "lr_issues rep = [] \<longleftrightarrow> sorted (map rec_recv (xs @ [x])) \<and> (\<forall>y\<in>set (xs @ [x]). rtp_fits parse pt y)"
    using IH unfolding srt by (auto simp: e(1) check_kind_effect check_time_effect)
  show ?case
    using IH first last bound clean by (simp add: e check_kind_effect check_time_effect)
qed

text \<open>
  The checker's report is exact.  For a log that opens and reads to its end it counts the
  records and their kinds, gives the least and greatest receive time, keeps at most 64 issues, and
  reports none exactly when receive times never go back, every RTP packet parses with the
  header's payload type (if it has one), and the log was not cut short.
\<close>

theorem check_log_report:
  assumes "open_reader unmarshal bs = Inr rd" "read_all rd = (xs, Eof, rd')"
  shows "\<exists>rep. check_log unmarshal header_pt parse path bs = Inr rep
    \<and> lr_records rep = length xs \<and> lr_rtp rep = length (filter (\<lambda>x. rec_kind x = kind_rtp) xs)
    \<and> lr_rtcp rep = length (filter (\<lambda>x. rec_kind x = kind_rtcp) xs)
    \<and> (xs \<noteq> [] \<longrightarrow> lr_first rep = Min (rec_recv ` set xs) \<and> lr_last rep = Max (rec_recv ` set xs))
    \<and> lr_issue_count rep = length (lr_issues rep) \<and> lr_issue_count rep \<le> 64
    \<and> (lr_issue_count rep = 0 \<longleftrightarrow> sorted (map rec_recv xs)
         \<and> (\<forall>x\<in>set xs. rtp_fits parse (header_pt (rd_header rd)) x) \<and> \<not> rd_truncated rd')"
proof -
  obtain rep prev hp i where f: "foldl (check_record parse) (empty_report path (header_pt (rd_header rd)), 0, False, 0) xs = (rep, prev, hp, i)"
    by (cases "foldl (check_record parse) (empty_report path (header_pt (rd_header rd)), 0, False, 0) xs")
  show ?thesis
    using check_loop[OF f] add_issue_bound by (auto simp: check_log_def assms f Let_def)
qed

subsection \<open>Stream keys\<close>

record stream_key =
  sk_mid :: string
  sk_rid :: string
  sk_kind :: string

definition stream_key_string :: "stream_key \<Rightarrow> string" where
  "stream_key_string k = (if sk_rid k = [] then sk_mid k @ '':'' @ sk_kind k
     else sk_mid k @ '':'' @ sk_rid k @ '':'' @ sk_kind k)"

subsection \<open>Witnesses\<close>

definition ex_rec :: "nat \<Rightarrow> byte list \<Rightarrow> rtp_record" where
  "ex_rec t w = \<lparr>rec_recv = of_nat t, rec_kind = kind_rtp, rec_wire = w\<rparr>"

lemma ex_rec_ok [simp]: "ok_record (ex_rec t [a])" "ok_kind (ex_rec t [])" "rec_wire (ex_rec t w) = w"
  "rec_recv (ex_rec t w) = of_nat t" "rec_kind (ex_rec t w) = kind_rtp"
  by (simp_all add: ok_record_def ok_kind_def ex_rec_def)

lemma rtp_log_roundtrip_witness:
  "\<exists>w0 w rd rd'. new_writer (\<lambda>_. False) Some True [7] = Inr w0 \<and>
     write_all (\<lambda>_ _. False) [ex_rec 5 [1], ex_rec 9 [2]] w0 = ([Inr (), Inr ()], w) \<and>
     read_all rd = ([ex_rec 5 [1], ex_rec 9 [2]], Eof, rd') \<and> rd_header rd = ([7] :: byte list)"
  using rtp_log_roundtrip[of Some "[7]" "[7]" Some "[ex_rec 5 [1], ex_rec 9 [2]]" True]
  by (auto simp del: write_all.simps)


lemma empty_record_unreadable_witness:
  "\<exists>w0 w rd rd'. new_writer (\<lambda>_. False) Some True [7] = Inr w0 \<and>
     write_all (\<lambda>_ _. False) [ex_rec 5 [1], ex_rec 6 [], ex_rec 9 [2]] w0 = ([Inr (), Inr (), Inr ()], w) \<and>
     open_reader Some (w_out w) = Inr rd \<and> read_all rd = ([ex_rec 5 [1]], ZeroLength, rd')"
  using empty_record_unreadable[of Some "[7]" "[7]" Some "[ex_rec 5 [1]]" "[ex_rec 9 [2]]" "ex_rec 6 []" True]
  by (auto simp del: write_all.simps)

lemma index_points_at_records_witness:
  "\<exists>es. build_index Some (enc_header 1 [7] @ enc_log True [ex_rec 5 [1], ex_rec 9 [2]]) = (es, None) \<and>
     read_index (write_index es) = Inr es \<and> map ie_recv es = [5, 9]"
proof -
  have f: "((1 :: 16 word) AND flag_use_crc \<noteq> 0) = True" by (simp add: flag_use_crc_def)
  have l: "length (enc_header 1 [7] @ enc_log True [ex_rec 5 [1], ex_rec 9 [2]]) < 2 ^ 64"
    by (simp add: enc_header_length enc_log_def length_enc_record)
  obtain es where es: "build_index Some (enc_header 1 [7] @ enc_log True [ex_rec 5 [1], ex_rec 9 [2]]) = (es, None)"
    "length es = 2" "read_index (write_index es) = Inr es" "\<forall>i<2. ie_recv (es ! i) = rec_recv ([ex_rec 5 [1], ex_rec 9 [2]] ! i)"
    using index_points_at_records[of Some "[7]" "[7]" 1 True "[ex_rec 5 [1], ex_rec 9 [2]]", OF _ _ f _ refl l] by auto
  then obtain a b where "es = [a, b]" by (cases es) (auto simp: length_Suc_conv)
  with es show ?thesis by (auto simp: less_2_cases_iff)
qed

lemma find_offset_least_witness:
  "find_offset [\<lparr>ie_recv = 9, ie_offset = 40\<rparr>, \<lparr>ie_recv = 5, ie_offset = 20\<rparr>] 4 = Some \<lparr>ie_recv = 5, ie_offset = 20\<rparr>"
  by (subst find_offset_least) simp

lemma check_log_report_witness:
  "\<exists>rd rd' rep. open_reader Some (enc_header 0 [7] @ enc_log False [ex_rec 5 [1]]) = Inr rd \<and>
     read_all rd = ([ex_rec 5 [1]], Eof, rd') \<and>
     check_log Some (\<lambda>_. 0) (\<lambda>_. Inr 111) ''a.rtplog'' (enc_header 0 [7] @ enc_log False [ex_rec 5 [1]]) = Inr rep \<and>
     lr_records rep = 1 \<and> lr_issue_count rep = 0"
proof -
  let ?rd = "\<lparr>rd_rest = enc_log False [ex_rec 5 [1]], rd_version = 1, rd_header = [7],
    rd_flags = unat (0 :: 16 word), rd_use_crc = ((0 :: 16 word) AND flag_use_crc \<noteq> 0), rd_truncated = False\<rparr>"
  have op: "open_reader Some (enc_header 0 [7] @ enc_log False [ex_rec 5 [1]]) = Inr ?rd"
    by (rule open_enc_header) simp_all
  have "read_all ?rd = ([ex_rec 5 [1]] @ [], Eof, ?rd\<lparr>rd_rest := []\<rparr>)"
    by (rule read_all_after[OF _ _ _ read_all_end[of ?rd]]) simp_all
  then have r: "read_all ?rd = ([ex_rec 5 [1]], Eof, ?rd\<lparr>rd_rest := []\<rparr>)" by (simp only: append_Cons append_Nil)
  have "rtp_fits (\<lambda>_. Inr 111) 0 (ex_rec 5 [1])" by (simp add: rtp_fits_def)
  then show ?thesis
    using check_log_report[OF op r, of "\<lambda>_. 0" "\<lambda>_. Inr 111" "''a.rtplog''"] op r by auto
qed

end
