(* ===== verification/Timeline.thy ===== *)
theory Timeline
  imports Prelude "HOL-Library.While_Combinator"
begin

text \<open>
  Media time of a recorded stream (\<open>pkg/core/timeline/estimator.go\<close> of the recorder): the
  per-stream state of \<open>SegmentEstimator\<close>, every call on it, and \<open>unwrap32\<close> with its two
  loops.  \<open>float64\<close> is a type parameter whose operations are an argument; \<open>uint64\<close> and
  \<open>uint32\<close> are words, the unwrapped RTP time is an \<open>int64\<close> read as \<open>int\<close>.  The RTCP
  parser (pion/rtcp) is an argument.
\<close>


subsection \<open>Unwrapping 32-bit timestamps\<close>

text \<open>
  \<open>unwrap32\<close>: the two loops of the source, \<open>None\<close> when one does not end; the \<open>int64\<close>
  sum wraps.
\<close>

definition unwrap_delta :: "int \<Rightarrow> int option" where
  "unwrap_delta d =
     (case while_option (\<lambda>d. d > 2 ^ 31) (\<lambda>d. d - 2 ^ 32) d of
        None \<Rightarrow> None
      | Some d' \<Rightarrow> while_option (\<lambda>d. d < - (2 ^ 31)) (\<lambda>d. d + 2 ^ 32) d')"

definition unwrap32 :: "int \<Rightarrow> 32 word \<Rightarrow> int option" where
  "unwrap32 last_ts raw = map_option (\<lambda>d. wrap64 (last_ts + d)) (unwrap_delta (uint raw - last_ts mod 2 ^ 32))"

subsection \<open>The estimator\<close>

text \<open>
  The \<open>float64\<close> operations the estimator uses.  Nothing proved here depends on what they
  compute, so rounding, infinities and NaN are all covered.
\<close>

record 'f float_ops =
  fl_int :: "int \<Rightarrow> 'f"
  fl_lit :: "int \<Rightarrow> int \<Rightarrow> 'f"
  fl_add :: "'f \<Rightarrow> 'f \<Rightarrow> 'f"
  fl_sub :: "'f \<Rightarrow> 'f \<Rightarrow> 'f"
  fl_mul :: "'f \<Rightarrow> 'f \<Rightarrow> 'f"
  fl_div :: "'f \<Rightarrow> 'f \<Rightarrow> 'f"
  fl_neg :: "'f \<Rightarrow> 'f"
  fl_lt :: "'f \<Rightarrow> 'f \<Rightarrow> bool"
  fl_eq :: "'f \<Rightarrow> 'f \<Rightarrow> bool"
  fl_min :: "'f \<Rightarrow> 'f \<Rightarrow> 'f"
  fl_max :: "'f \<Rightarrow> 'f \<Rightarrow> 'f"
  fl_uint64 :: "'f \<Rightarrow> 64 word"

record 'f segment_state =
  ss_clock_rate :: "32 word"
  ss_start_mono :: "64 word"
  ss_start_rtp :: int
  ss_last_rtp :: int
  ss_slope :: 'f
  ss_intercept :: 'f
  ss_sr_seen :: bool
  ss_last_sr_recv :: "64 word"
  ss_last_sr_rtp :: int
  ss_seen :: bool
  ss_pts_ready :: bool
  ss_last_pts :: "64 word"

type_synonym 'f estimator = "32 word \<Rightarrow> 'f segment_state option"

definition default_clock_rate :: "32 word" where "default_clock_rate = 90000"

definition choose_clock_rate :: "32 word \<Rightarrow> 32 word" where
  "choose_clock_rate r = (if r > 0 then r else default_clock_rate)"


definition zero_state :: "'f float_ops \<Rightarrow> 'f segment_state" where
  "zero_state F = \<lparr>ss_clock_rate = 0, ss_start_mono = 0, ss_start_rtp = 0, ss_last_rtp = 0,
     ss_slope = fl_lit F 0 1, ss_intercept = fl_lit F 0 1, ss_sr_seen = False, ss_last_sr_recv = 0, ss_last_sr_rtp = 0,
     ss_seen = False, ss_pts_ready = False, ss_last_pts = 0\<rparr>"

definition ns_per_tick :: "'f float_ops \<Rightarrow> 32 word \<Rightarrow> 'f" where
  "ns_per_tick F rate = fl_div F (fl_lit F 1000000000 1) (fl_int F (uint rate))"

definition predict :: "'f float_ops \<Rightarrow> 'f segment_state \<Rightarrow> 'f \<Rightarrow> 'f" where
  "predict F s rtp = fl_add F (fl_mul F (ss_slope s) rtp) (ss_intercept s)"

definition anchored :: "'f float_ops \<Rightarrow> 'f segment_state \<Rightarrow> 64 word \<Rightarrow> 'f segment_state" where
  "anchored F s start_mono = s\<lparr>ss_slope := ns_per_tick F (ss_clock_rate s),
     ss_intercept := fl_sub F (fl_int F (uint start_mono)) (fl_mul F (ns_per_tick F (ss_clock_rate s)) (fl_int F (ss_start_rtp s)))\<rparr>"

text \<open>A new clock rate keeps the estimate at the last timestamp.\<close>

definition rebase :: "'f float_ops \<Rightarrow> 'f segment_state \<Rightarrow> 32 word \<Rightarrow> 'f segment_state" where
  "rebase F s rate =
     (let ref = predict F s (fl_int F (ss_last_rtp s)); slope = ns_per_tick F rate in
      s\<lparr>ss_clock_rate := rate, ss_slope := slope,
        ss_intercept := fl_sub F ref (fl_mul F slope (fl_int F (ss_last_rtp s)))\<rparr>)"

definition unwrap_rtp :: "'f segment_state \<Rightarrow> 32 word \<Rightarrow> int" where
  "unwrap_rtp s raw = (if \<not> ss_seen s then uint raw else the (unwrap32 (ss_last_rtp s) raw))"

definition observe_rtp :: "'f float_ops \<Rightarrow> 32 word \<Rightarrow> 64 word \<Rightarrow> 32 word \<Rightarrow> 32 word \<Rightarrow> 'f estimator \<Rightarrow> 'f estimator" where
  "observe_rtp F ssrc recv rtp_ts rate e =
     (let s = (case e ssrc of Some s \<Rightarrow> s | None \<Rightarrow> zero_state F) in
      if \<not> ss_seen s
      then e(ssrc \<mapsto> anchored F (s\<lparr>ss_seen := True, ss_start_mono := recv, ss_start_rtp := uint rtp_ts,
             ss_last_rtp := uint rtp_ts, ss_clock_rate := choose_clock_rate rate,
             ss_last_pts := recv, ss_pts_ready := False\<rparr>) recv)
      else
        let s = (if rate > 0 \<and> (ss_clock_rate s = 0 \<or> ss_clock_rate s = default_clock_rate)
                 then (if \<not> ss_sr_seen s then rebase F s rate else s\<lparr>ss_clock_rate := rate\<rparr>)
                 else s)
        in e(ssrc \<mapsto> s\<lparr>ss_last_rtp := unwrap_rtp s rtp_ts\<rparr>))"

definition blend :: "'f float_ops \<Rightarrow> 'f \<Rightarrow> 'f \<Rightarrow> 'f \<Rightarrow> 'f" where
  "blend F current observed alpha =
     fl_add F (fl_mul F current (fl_sub F (fl_lit F 1 1) alpha)) (fl_mul F observed alpha)"

definition clamp :: "'f float_ops \<Rightarrow> 'f \<Rightarrow> 'f \<Rightarrow> 'f \<Rightarrow> 'f" where
  "clamp F v lo hi = fl_max F lo (fl_min F hi v)"

definition correct_slope :: "'f float_ops \<Rightarrow> 64 word \<Rightarrow> int \<Rightarrow> 'f \<Rightarrow> 'f segment_state \<Rightarrow> 'f segment_state" where
  "correct_slope F recv cur observed s =
     (let ref_rtp = fl_int F cur; ref_pts = predict F s ref_rtp;
          slope = blend F (ss_slope s) observed (fl_lit F 10 100);
          s = s\<lparr>ss_slope := slope, ss_intercept := fl_sub F ref_pts (fl_mul F slope ref_rtp)\<rparr>;
          err = fl_sub F (fl_int F (uint recv)) (predict F s ref_rtp);
          step = fl_lit F 5000000 1;
          adj = clamp F (fl_mul F err (fl_lit F 20 100)) (fl_neg F step) step
      in s\<lparr>ss_intercept := fl_add F (ss_intercept s) adj\<rparr>)"

definition observe_sender_report :: "'f float_ops \<Rightarrow> 64 word \<Rightarrow> 'f segment_state \<Rightarrow> 32 word \<Rightarrow> 'f segment_state" where
  "observe_sender_report F recv s rtp_ts =
     (let cur = the (unwrap32 (if ss_sr_seen s then ss_last_sr_rtp s else ss_last_rtp s) rtp_ts) in
      if \<not> ss_sr_seen s then s\<lparr>ss_sr_seen := True, ss_last_sr_recv := recv, ss_last_sr_rtp := cur\<rparr>
      else
        let delta_rtp = wrap64 (cur - ss_last_sr_rtp s); delta_recv = recv - ss_last_sr_recv s;
            s = s\<lparr>ss_last_sr_recv := recv, ss_last_sr_rtp := cur\<rparr> in
        if delta_rtp \<le> 0 \<or> delta_recv = 0 then s
        else
          let observed = fl_div F (fl_int F (uint delta_recv)) (fl_int F delta_rtp);
              expected = ns_per_tick F (choose_clock_rate (ss_clock_rate s)) in
          if fl_lt F observed (fl_lit F 0 1) \<or> fl_eq F observed (fl_lit F 0 1) then s
          else if fl_lt F observed (fl_mul F expected (fl_lit F 50 100)) \<or> fl_lt F (fl_mul F expected (fl_lit F 150 100)) observed then s
          else correct_slope F recv cur observed s)"

text \<open>
  \<open>rtcp.Unmarshal\<close> is \<open>parse\<close>: \<open>None\<close> on an error, else for each packet the RTP time of a
  sender report or \<open>None\<close> for any other packet.
\<close>

definition observe_rtcp :: "'f float_ops \<Rightarrow> (nat list \<Rightarrow> 32 word option list option) \<Rightarrow> 32 word \<Rightarrow> 64 word \<Rightarrow> nat list
    \<Rightarrow> 'f estimator \<Rightarrow> 'f estimator" where
  "observe_rtcp F parse ssrc recv raw e =
     (if raw = [] then e
      else case parse raw of
        None \<Rightarrow> e
      | Some packets \<Rightarrow>
         (case e ssrc of
            None \<Rightarrow> e
          | Some s \<Rightarrow>
              if \<not> ss_seen s then e
              else e(ssrc \<mapsto> foldl (\<lambda>s p. case p of Some ts \<Rightarrow> observe_sender_report F recv s ts | None \<Rightarrow> s) s packets)))"

definition set_clock_rate :: "'f float_ops \<Rightarrow> 32 word \<Rightarrow> 32 word \<Rightarrow> 'f estimator \<Rightarrow> 'f estimator" where
  "set_clock_rate F ssrc rate e =
     (case e ssrc of
        None \<Rightarrow> e
      | Some s \<Rightarrow>
          if rate = 0 \<or> ss_clock_rate s = rate then e
          else if ss_seen s \<and> \<not> ss_sr_seen s then e(ssrc \<mapsto> rebase F s rate)
          else e(ssrc \<mapsto> s\<lparr>ss_clock_rate := rate\<rparr>))"

definition estimate_pts :: "'f float_ops \<Rightarrow> 'f segment_state \<Rightarrow> 32 word \<Rightarrow> 64 word" where
  "estimate_pts F s rtp_ts =
     (let predicted = predict F s (fl_int F (unwrap_rtp s rtp_ts));
          predicted = (if fl_lt F predicted (fl_lit F 0 1) then fl_lit F 0 1 else predicted);
          pts = fl_uint64 F predicted;
          pts = (if ss_pts_ready s \<and> pts \<le> ss_last_pts s then ss_last_pts s + 1 else pts)
      in if \<not> ss_pts_ready s \<and> pts < ss_start_mono s then ss_start_mono s else pts)"

definition pts :: "'f float_ops \<Rightarrow> 32 word \<Rightarrow> 32 word \<Rightarrow> 'f estimator \<Rightarrow> 64 word option \<times> 'f estimator" where
  "pts F ssrc rtp_ts e =
     (case e ssrc of
        None \<Rightarrow> (None, e)
      | Some s \<Rightarrow>
          if \<not> ss_seen s then (None, e)
          else
            let s = (if ss_clock_rate s = 0
                     then (let s = s\<lparr>ss_clock_rate := default_clock_rate\<rparr> in
                           if fl_eq F (ss_slope s) (fl_lit F 0 1) then anchored F s (ss_start_mono s) else s)
                     else s);
                p = estimate_pts F s rtp_ts
            in (Some p, e(ssrc \<mapsto> s\<lparr>ss_pts_ready := True, ss_last_pts := p\<rparr>)))"

definition close_stream :: "32 word \<Rightarrow> 'f estimator \<Rightarrow> 'f estimator" where
  "close_stream ssrc e = e(ssrc := None)"

datatype est_op =
    ObserveRTP "32 word" "64 word" "32 word" "32 word"
  | ObserveRTCP "32 word" "64 word" "nat list"
  | SetClockRate "32 word" "32 word"
  | PTS "32 word" "32 word"
  | CloseStream "32 word"

text \<open>One call, with the stream and the time a \<open>PTS\<close> call answered.\<close>

fun est_step :: "'f float_ops \<Rightarrow> (nat list \<Rightarrow> 32 word option list option) \<Rightarrow> est_op \<Rightarrow> 'f estimator
    \<Rightarrow> (32 word \<times> 64 word) list \<times> 'f estimator" where
  "est_step F parse (ObserveRTP ssrc recv ts rate) e = ([], observe_rtp F ssrc recv ts rate e)"
| "est_step F parse (ObserveRTCP ssrc recv raw) e = ([], observe_rtcp F parse ssrc recv raw e)"
| "est_step F parse (SetClockRate ssrc rate) e = ([], set_clock_rate F ssrc rate e)"
| "est_step F parse (PTS ssrc ts) e =
     (case pts F ssrc ts e of (Some p, e') \<Rightarrow> ([(ssrc, p)], e') | (None, e') \<Rightarrow> ([], e'))"
| "est_step F parse (CloseStream ssrc) e = ([], close_stream ssrc e)"

fun est_run :: "'f float_ops \<Rightarrow> (nat list \<Rightarrow> 32 word option list option) \<Rightarrow> est_op list \<Rightarrow> 'f estimator
    \<Rightarrow> (32 word \<times> 64 word) list" where
  "est_run F parse [] e = []"
| "est_run F parse (op # ops) e = (case est_step F parse op e of (out, e') \<Rightarrow> out @ est_run F parse ops e')"

definition stream_pts :: "32 word \<Rightarrow> (32 word \<times> 64 word) list \<Rightarrow> 64 word list" where
  "stream_pts ssrc outs = map snd (filter (\<lambda>x. fst x = ssrc) outs)"

subsection \<open>Unwrapping ends and is right\<close>

lemma while_once:
  assumes "\<not> b (c d)"
  shows "while_option b c d = Some (if b d then c d else d)"
  using assms by (subst while_option_unfold, simp, subst while_option_unfold, simp)

lemma unwrap_delta_exact:
  assumes "- (2 ^ 32) < d" and "d < 2 ^ 32"
  shows "\<exists>k. unwrap_delta d = Some (d + k * 2 ^ 32) \<and> \<bar>d + k * 2 ^ 32\<bar> \<le> 2 ^ 31"
proof -
  let ?e = "if d > 2 ^ 31 then d - 2 ^ 32 else d"
  have down: "while_option (\<lambda>d. d > 2 ^ 31) (\<lambda>d. d - 2 ^ 32) d = Some ?e"
    using while_once[of "\<lambda>d::int. d > 2 ^ 31" "\<lambda>d. d - 2 ^ 32" d] assms(2) by simp
  have up: "while_option (\<lambda>d. d < - (2 ^ 31)) (\<lambda>d. d + 2 ^ 32) ?e = Some (if ?e < - (2 ^ 31) then ?e + 2 ^ 32 else ?e)"
    using while_once[of "\<lambda>d::int. d < - (2 ^ 31)" "\<lambda>d. d + 2 ^ 32" ?e] assms(1) by auto
  have u: "unwrap_delta d = Some (if ?e < - (2 ^ 31) then ?e + 2 ^ 32 else ?e)"
    unfolding unwrap_delta_def down by (simp only: option.case up)
  consider "d > 2 ^ 31" | "d < - (2 ^ 31)" | "- (2 ^ 31) \<le> d \<and> d \<le> 2 ^ 31" by linarith
  then show ?thesis
  proof cases
    case 1
    then show ?thesis using assms by (intro exI[of _ "-1"]) (simp add: u)
  next
    case 2
    then show ?thesis using assms by (intro exI[of _ 1]) (simp add: u)
  next
    case 3
    then show ?thesis by (intro exI[of _ 0]) (auto simp: u)
  qed
qed

text \<open>
  unwrap32 returns for every last timestamp and every raw one, and answers with the value
  congruent to the raw timestamp modulo 2^32 that is at most 2^31 away from the last one.
\<close>

theorem unwrap32_nearest:
  assumes "- (2 ^ 62) \<le> last_ts" and "last_ts \<le> 2 ^ 62"
  shows "\<exists>u. unwrap32 last_ts raw = Some u \<and> u mod 2 ^ 32 = uint raw \<and> \<bar>u - last_ts\<bar> \<le> 2 ^ 31"
proof -
  let ?d = "uint raw - last_ts mod 2 ^ 32"
  have r: "0 \<le> uint raw" "uint raw < 2 ^ 32" using uint_bounded[of raw] by simp_all
  have m: "0 \<le> last_ts mod 2 ^ 32" "last_ts mod 2 ^ 32 < 2 ^ 32" by simp_all
  have b: "- (2 ^ 32) < ?d" "?d < 2 ^ 32" using r m by linarith+
  obtain k where k: "unwrap_delta ?d = Some (?d + k * 2 ^ 32)" and near: "\<bar>?d + k * 2 ^ 32\<bar> \<le> 2 ^ 31"
    using unwrap_delta_exact[OF b] by blast
  let ?u = "last_ts + (?d + k * 2 ^ 32)"
  have i64: "in_i64 ?u"
    unfolding in_i64_def min_i64_def max_i64_def using assms near by (auto simp: abs_le_iff)
  have "unwrap32 last_ts raw = Some ?u"
    unfolding unwrap32_def k by (simp only: option.map wrap64_id[OF i64])
  moreover have "?u mod 2 ^ 32 = uint raw"
  proof -
    have "?u = uint raw + (last_ts div 2 ^ 32 + k) * 2 ^ 32"
      using div_mult_mod_eq[of last_ts "2 ^ 32"] by (simp add: algebra_simps)
    then have "?u mod 2 ^ 32 = (uint raw + (last_ts div 2 ^ 32 + k) * 2 ^ 32) mod 2 ^ 32" by (rule arg_cong)
    also have "\<dots> = uint raw" unfolding mod_mult_self1 using r by (rule mod_pos_pos_trivial)
    finally show ?thesis .
  qed
  ultimately show ?thesis using near by auto
qed

subsection \<open>Presentation times only increase\<close>

text \<open>What the order of the answers depends on; no float operation touches it.\<close>

definition clock_core :: "'f segment_state \<Rightarrow> bool \<times> bool \<times> 64 word \<times> 64 word" where
  "clock_core s = (ss_seen s, ss_pts_ready s, ss_last_pts s, ss_start_mono s)"

lemma clock_core_simps [simp]:
  "clock_core (rebase F s r) = clock_core s"
  "clock_core (anchored F s v) = clock_core s"
  "clock_core (correct_slope F recv c obs s) = clock_core s"
  "clock_core (observe_sender_report F recv s ts) = clock_core s"
  "clock_core (s\<lparr>ss_last_rtp := x\<rparr>) = clock_core s"
  "clock_core (s\<lparr>ss_clock_rate := r\<rparr>) = clock_core s"
  by (simp_all add: clock_core_def rebase_def anchored_def correct_slope_def observe_sender_report_def Let_def)

lemma clock_core_reports:
  "clock_core (foldl (\<lambda>s p. case p of Some ts \<Rightarrow> observe_sender_report F recv s ts | None \<Rightarrow> s) s ps) = clock_core s"
  by (induction ps arbitrary: s) (auto split: option.splits)

lemma clock_core_eqD: "clock_core s = clock_core t \<Longrightarrow> ss_seen s = ss_seen t \<and> ss_pts_ready s = ss_pts_ready t
    \<and> ss_last_pts s = ss_last_pts t \<and> ss_start_mono s = ss_start_mono t"
  by (simp add: clock_core_def)

lemma quiet_step:
  assumes "e ssrc = Some s" and "ss_seen s" and "op \<noteq> CloseStream ssrc" and "\<And>ts. op \<noteq> PTS ssrc ts"
    and "est_step F parse op e = (out, e')"
  shows "stream_pts ssrc out = [] \<and> (\<exists>t. e' ssrc = Some t \<and> clock_core t = clock_core s)"
proof (cases op)
  case (ObserveRTP s' recv ts rate)
  with assms show ?thesis
    by (auto simp: stream_pts_def observe_rtp_def Let_def)
next
  case (ObserveRTCP s' recv raw)
  with assms show ?thesis
    by (auto simp: stream_pts_def observe_rtcp_def clock_core_reports split: if_splits option.splits)
next
  case (SetClockRate s' rate)
  with assms show ?thesis
    by (auto simp: stream_pts_def set_clock_rate_def split: if_splits option.splits)
next
  case (PTS s' ts)
  with assms(4) have "s' \<noteq> ssrc" by auto
  with PTS assms show ?thesis
    by (auto simp: stream_pts_def pts_def Let_def split: if_splits option.splits)
next
  case (CloseStream s')
  with assms show ?thesis by (auto simp: stream_pts_def close_stream_def)
qed

lemma word_inc: "x \<noteq> -1 \<Longrightarrow> x < x + 1" for x :: "64 word"
proof -
  assume "x \<noteq> -1"
  then have "uint x \<noteq> uint (-1 :: 64 word)" by (simp only: word_uint_eq_iff not_False_eq_True)
  moreover have "uint (-1 :: 64 word) = 2 ^ 64 - 1" by code_simp
  ultimately have "uint x + 1 < 2 ^ 64" using uint_bounded[of x] by simp
  then show ?thesis by (simp add: word_less_alt uint_word_ariths)
qed

lemma estimate_ready: "ss_pts_ready s \<Longrightarrow> ss_last_pts s \<noteq> -1 \<Longrightarrow> ss_last_pts s < estimate_pts F s ts"
  using word_inc[of "ss_last_pts s"] by (auto simp: estimate_pts_def Let_def not_le)

lemma estimate_first: "\<not> ss_pts_ready s \<Longrightarrow> ss_start_mono s \<le> estimate_pts F s ts"
  by (auto simp: estimate_pts_def Let_def)

lemma pts_step:
  assumes "e ssrc = Some s" and "ss_seen s" and "est_step F parse (PTS ssrc ts) e = (out, e')"
  shows "\<exists>p t. stream_pts ssrc out = [p] \<and> e' ssrc = Some t \<and> clock_core t = (True, True, p, ss_start_mono s)
    \<and> (ss_pts_ready s \<longrightarrow> ss_last_pts s \<noteq> -1 \<longrightarrow> ss_last_pts s < p) \<and> (\<not> ss_pts_ready s \<longrightarrow> ss_start_mono s \<le> p)"
proof -
  define s' where "s' = (if ss_clock_rate s = 0
      then (let s = s\<lparr>ss_clock_rate := default_clock_rate\<rparr> in
            if fl_eq F (ss_slope s) (fl_lit F 0 1) then anchored F s (ss_start_mono s) else s)
      else s)"
  have c: "clock_core s' = clock_core s" by (simp add: s'_def Let_def)
  have "out = [(ssrc, estimate_pts F s' ts)]"
    "e' ssrc = Some (s'\<lparr>ss_pts_ready := True, ss_last_pts := estimate_pts F s' ts\<rparr>)"
    using assms by (auto simp: pts_def s'_def Let_def)
  then show ?thesis using clock_core_eqD[OF c] assms(2) estimate_ready[of s' F ts] estimate_first[of s' F ts]
    by (auto simp: stream_pts_def clock_core_def)
qed

lemma running_increases:
  assumes "e ssrc = Some s" and "ss_seen s" and "CloseStream ssrc \<notin> set ops"
    and "ss_pts_ready s \<longrightarrow> ss_last_pts s \<noteq> -1 \<and> ss_start_mono s \<le> ss_last_pts s"
    and "-1 \<notin> set (stream_pts ssrc (est_run F parse ops e))"
  shows "sorted_wrt (<) (stream_pts ssrc (est_run F parse ops e)) \<and>
    (\<forall>p\<in>set (stream_pts ssrc (est_run F parse ops e)). ss_start_mono s \<le> p \<and> (ss_pts_ready s \<longrightarrow> ss_last_pts s < p))"
  using assms
proof (induction ops arbitrary: e s)
  case Nil
  then show ?case by (simp add: stream_pts_def)
next
  case (Cons op ops)
  obtain out e' where st: "est_step F parse op e = (out, e')" by (cases "est_step F parse op e")
  have split: "stream_pts ssrc (est_run F parse (op # ops) e) = stream_pts ssrc out @ stream_pts ssrc (est_run F parse ops e')"
    by (simp add: st stream_pts_def)
  have op: "op \<noteq> CloseStream ssrc" and rest: "CloseStream ssrc \<notin> set ops" using Cons.prems(3) by auto
  show ?case
  proof (cases "\<exists>ts. op = PTS ssrc ts")
    case True
    then obtain ts where "op = PTS ssrc ts" ..
    with pts_step[where e = e and ssrc = ssrc, OF Cons.prems(1,2)] st obtain p t where p: "stream_pts ssrc out = [p]" "e' ssrc = Some t"
      and c: "clock_core t = (True, True, p, ss_start_mono s)"
      and o1: "ss_pts_ready s \<longrightarrow> ss_last_pts s \<noteq> -1 \<longrightarrow> ss_last_pts s < p" and o2: "\<not> ss_pts_ready s \<longrightarrow> ss_start_mono s \<le> p"
      by blast
    have sp: "ss_start_mono s \<le> p" using o1 o2 Cons.prems(4) by auto
    have pm: "p \<noteq> -1" using Cons.prems(5) unfolding split p(1) by auto
    from Cons.IH[where e = e' and s = t, OF p(2) _ rest] c sp pm Cons.prems(5)[unfolded split]
    show ?thesis unfolding split p(1) using o1 Cons.prems(4)
      by (auto simp: clock_core_def dest: order.strict_trans less_imp_le)
  next
    case False
    with quiet_step[where e = e and ssrc = ssrc, OF Cons.prems(1,2) op _ st] obtain t where out: "stream_pts ssrc out = []"
      and t: "e' ssrc = Some t" and c: "clock_core t = clock_core s" by auto
    from Cons.IH[where e = e' and s = t, OF t _ rest] clock_core_eqD[OF c] Cons.prems show ?thesis
      unfolding split out by simp
  qed
qed

fun first_recv :: "32 word \<Rightarrow> est_op list \<Rightarrow> 64 word option" where
  "first_recv ssrc [] = None"
| "first_recv ssrc (ObserveRTP s recv ts rate # ops) = (if s = ssrc then Some recv else first_recv ssrc ops)"
| "first_recv ssrc (_ # ops) = first_recv ssrc ops"

text \<open>
  C31: as long as a stream is not closed its presentation times strictly increase and none is before
  the receive time of its first packet, whatever the packets, sender reports, clock rates, other
  streams and floating-point rounding; the one exception is a time that reaches the last \<open>uint64\<close>.
\<close>

theorem pts_strictly_increase:
  assumes "e ssrc = None" and "CloseStream ssrc \<notin> set ops"
    and "-1 \<notin> set (stream_pts ssrc (est_run F parse ops e))"
  shows "sorted_wrt (<) (stream_pts ssrc (est_run F parse ops e)) \<and>
    (\<forall>p\<in>set (stream_pts ssrc (est_run F parse ops e)). \<exists>r. first_recv ssrc ops = Some r \<and> r \<le> p)"
  using assms
proof (induction ops arbitrary: e)
  case Nil
  then show ?case by (simp add: stream_pts_def)
next
  case (Cons op ops)
  obtain out e' where st: "est_step F parse op e = (out, e')" by (cases "est_step F parse op e")
  have split: "stream_pts ssrc (est_run F parse (op # ops) e) = stream_pts ssrc out @ stream_pts ssrc (est_run F parse ops e')"
    by (simp add: st stream_pts_def)
  have rest: "CloseStream ssrc \<notin> set ops" using Cons.prems(2) by simp
  show ?case
  proof (cases "\<exists>recv ts rate. op = ObserveRTP ssrc recv ts rate")
    case True
    then obtain recv ts rate where op: "op = ObserveRTP ssrc recv ts rate" by blast
    have out: "stream_pts ssrc out = []" using st by (auto simp: op stream_pts_def)
    obtain t where t: "e' ssrc = Some t" and c: "clock_core t = (True, False, recv, recv)"
      using st Cons.prems(1) by (auto simp: op observe_rtp_def zero_state_def Let_def) (simp add: clock_core_def)
    from running_increases[where e = e' and ssrc = ssrc, OF t _ rest] c Cons.prems(3)[unfolded split]
    show ?thesis unfolding split out by (auto simp: clock_core_def op)
  next
    case False
    have out: "stream_pts ssrc out = []" and t: "e' ssrc = None" and f: "first_recv ssrc (op # ops) = first_recv ssrc ops"
      using st False Cons.prems(1)
      by (cases op; auto simp: stream_pts_def observe_rtp_def observe_rtcp_def set_clock_rate_def pts_def close_stream_def Let_def
        split: if_splits option.splits)+
    from Cons.IH[where e = e', OF t rest] Cons.prems(3)[unfolded split] show ?thesis unfolding split out f by simp
  qed
qed

subsection \<open>Concrete instances\<close>

definition ex_floats :: "int float_ops" where
  "ex_floats = \<lparr>fl_int = id, fl_lit = (div), fl_add = (+), fl_sub = (-), fl_mul = (*), fl_div = (div), fl_neg = uminus,
     fl_lt = (<), fl_eq = (=), fl_min = min, fl_max = max, fl_uint64 = word_of_int\<rparr>"

theorem unwrap32_nearest_witness: "\<exists>u. unwrap32 5 4294967295 = Some u \<and> u mod 2 ^ 32 = 4294967295 \<and> \<bar>u - 5\<bar> \<le> 2 ^ 31"
proof -
  have "- (2 ^ 62) \<le> (5::int)" "(5::int) \<le> 2 ^ 62" "uint (4294967295 :: 32 word) = 4294967295" by simp_all
  with unwrap32_nearest[of 5 4294967295] show ?thesis by metis
qed

theorem pts_strictly_increase_witness:
  "case stream_pts 7 (est_run ex_floats (\<lambda>_. None)
      [ObserveRTP 7 1000 10 48000, PTS 7 10, PTS 7 10, ObserveRTP 7 1500 20 48000, PTS 7 20] Map.empty) of
     ps \<Rightarrow> length ps = 3 \<and> sorted_wrt (<) ps"
proof -
  let ?ops = "[ObserveRTP 7 1000 10 48000, PTS 7 10, PTS 7 10, ObserveRTP 7 1500 20 48000, PTS 7 20]"
  have "length (stream_pts 7 (est_run ex_floats (\<lambda>_. None) ?ops Map.empty)) = 3"
    "-1 \<notin> set (stream_pts 7 (est_run ex_floats (\<lambda>_. None) ?ops Map.empty))" by code_simp+
  moreover have "CloseStream 7 \<notin> set ?ops" by simp
  ultimately show ?thesis
    using pts_strictly_increase[where e = Map.empty and ssrc = 7 and ops = ?ops and F = ex_floats and parse = "\<lambda>_. None"]
    by simp
qed

end
