(* ===== verification/Reorder_Window.thy ===== *)
theory Reorder_Window
  imports Prelude
begin

text \<open>
  A bounded look-ahead window that puts late arrivals back in order: every arrival is inserted into
  an ordered buffer, and what exceeds the window is released from its front.  Used for the RTP
  packets of a stream (\<open>pkg/core/depacket/write.go\<close>).  The locale \<open>reorder_window\<close> states what
  the insertion promises; from it follows that arrivals which are late by no more than the window
  come out in order, each key once, with the first arrival of the key.
\<close>

text \<open>The first arrival of every key, in arrival order, and those in the order of the keys.\<close>

fun firsts :: "('a \<Rightarrow> 'k) \<Rightarrow> 'a list \<Rightarrow> 'a list" where
  "firsts key [] = []"
| "firsts key (x # xs) = x # filter (\<lambda>y. key y \<noteq> key x) (firsts key xs)"

definition in_order :: "('a \<Rightarrow> int) \<Rightarrow> 'a list \<Rightarrow> 'a list" where
  "in_order key xs = sort_key key (firsts key xs)"

text \<open>
  No arrival is too late for a window of \<open>W\<close>: its key was seen before, or at most \<open>W\<close> of the
  earlier arrivals have a greater one.
\<close>

fun timely :: "('a \<Rightarrow> int) \<Rightarrow> nat \<Rightarrow> 'a list \<Rightarrow> 'a list \<Rightarrow> bool" where
  "timely key W us [] \<longleftrightarrow> True"
| "timely key W us (x # xs) \<longleftrightarrow>
     (key x \<in> key ` set us \<or> length (filter (\<lambda>y. key x < key y) us) \<le> W) \<and> timely key W (us @ [x]) xs"

text \<open>The entries above every earlier one, and one run of a window: what it releases and what it still holds.\<close>

fun climb :: "('a \<Rightarrow> int) \<Rightarrow> int option \<Rightarrow> 'a list \<Rightarrow> 'a list" where
  "climb key l [] = []"
| "climb key l (x # xs) =
     (if (case l of None \<Rightarrow> True | Some m \<Rightarrow> m < key x) then x # climb key (Some (key x)) xs else climb key l xs)"

fun window_run :: "('a \<Rightarrow> 'a list \<Rightarrow> 'a list) \<Rightarrow> nat \<Rightarrow> 'a list \<Rightarrow> 'a list \<Rightarrow> 'a list \<times> 'a list" where
  "window_run ins W [] b = ([], b)"
| "window_run ins W (x # xs) b =
     (let b' = ins x b; k = length b' - W; (ps, b'') = window_run ins W xs (drop k b') in (take k b' @ ps, b''))"

lemma filter_firsts: "filter (\<lambda>y. key y = k) (firsts key xs) = take 1 (filter (\<lambda>y. key y = k) xs)"
proof (induction xs)
  case (Cons x xs)
  have "filter (\<lambda>y. key y = key x) (filter (\<lambda>y. key y \<noteq> key x) ys) = []" for ys by (auto simp: filter_empty_conv)
  moreover have "filter (\<lambda>y. key y = k) (filter (\<lambda>y. key y \<noteq> key x) ys) = filter (\<lambda>y. key y = k) ys" if "k \<noteq> key x" for ys
    using that by (auto intro: filter_cong)
  ultimately show ?case using Cons.IH by auto
qed simp

lemma firsts_iff: "y \<in> set (firsts key xs) \<longleftrightarrow> (\<exists>ys. filter (\<lambda>z. key z = key y) xs = y # ys)"
proof -
  have "y \<in> set (firsts key xs) \<longleftrightarrow> y \<in> set (filter (\<lambda>z. key z = key y) (firsts key xs))" by simp
  also have "\<dots> \<longleftrightarrow> y \<in> set (take 1 (filter (\<lambda>z. key z = key y) xs))" by (simp only: filter_firsts)
  also have "\<dots> \<longleftrightarrow> (\<exists>ys. filter (\<lambda>z. key z = key y) xs = y # ys)"
    by (cases "filter (\<lambda>z. key z = key y) xs") auto
  finally show ?thesis .
qed

lemma firsts_keys: "key ` set (firsts key xs) = key ` set xs"
proof (intro set_eqI iffI)
  fix k assume "k \<in> key ` set (firsts key xs)"
  then obtain y ys where "k = key y" "filter (\<lambda>z. key z = key y) xs = y # ys" by (auto simp: firsts_iff)
  then show "k \<in> key ` set xs" by (auto dest: filter_eq_ConsD)
next
  fix k assume "k \<in> key ` set xs"
  then obtain y ys where y: "filter (\<lambda>z. key z = k) xs = y # ys" by (cases "filter (\<lambda>z. key z = k) xs") (auto simp: filter_empty_conv)
  then have "key y = k" by (auto dest: filter_eq_ConsD)
  then show "k \<in> key ` set (firsts key xs)" using y by (auto simp: firsts_iff)
qed

lemma distinct_firsts: "distinct (map key (firsts key xs))"
proof (induction xs)
  case (Cons x xs)
  then have "distinct (map key (filter (\<lambda>y. key y \<noteq> key x) (firsts key xs)))" by (rule distinct_map_filter)
  then show ?case by auto
qed simp

lemma firsts_map: "firsts key (map f xs) = map f (firsts (key \<circ> f) xs)"
  by (induction xs) (auto simp: filter_map comp_def)

lemma firsts_cong: "(\<And>x y. (key x = key y) = (key' x = key' y)) \<Longrightarrow> firsts key xs = firsts key' xs"
  by (induction xs) auto

lemma in_order_unique:
  assumes "sorted_wrt (<) (map key ys)" and "set ys \<subseteq> set (firsts key xs)" and "key ` set xs \<subseteq> key ` set ys"
  shows "ys = in_order key xs"
proof -
  have inj: "inj_on key (set (firsts key xs))" using distinct_firsts[of key xs] by (simp add: distinct_map)
  have "set (firsts key xs) \<subseteq> set ys"
  proof
    fix x assume x: "x \<in> set (firsts key xs)"
    then have "key x \<in> key ` set ys" using assms(3) firsts_keys[of key xs] by blast
    then obtain y where "y \<in> set ys" "key y = key x" by auto
    then show "x \<in> set ys" using inj x assms(2) by (auto dest: inj_onD)
  qed
  then have set: "set ys = set (firsts key xs)" using assms(2) by auto
  have srt: "sorted (map key ys)" "distinct (map key ys)"
    using assms(1) by (auto simp: strict_sorted_iff)
  have "mset ys = mset (firsts key xs)"
    using set srt(2) distinct_firsts[of key xs] by (auto simp: distinct_map set_eq_iff_mset_eq_distinct)
  then have "sort_key key ys = sort_key key (firsts key xs)" using inj set by (intro sort_key_unique) auto
  then show ?thesis using sort_key_id_if_sorted[OF srt(1)] by (simp add: in_order_def)
qed

lemma climb_append: "climb key l (xs @ ys) = climb key l xs @
    climb key (if climb key l xs = [] then l else Some (key (last (climb key l xs)))) ys"
  by (induction xs arbitrary: l) auto

lemma climb_sorted: "sorted_wrt (<) (map key (climb key l xs)) \<and> (\<forall>y\<in>set (climb key l xs). \<forall>m. l = Some m \<longrightarrow> m < key y)"
proof (induction xs arbitrary: l)
  case (Cons x xs)
  show ?case using Cons.IH[of l] Cons.IH[of "Some (key x)"] by (auto split: option.splits)
qed simp

lemma timely_snoc: "timely key W us (xs @ [x]) \<longleftrightarrow> timely key W us xs \<and>
    (key x \<in> key ` set (us @ xs) \<or> length (filter (\<lambda>y. key x < key y) (us @ xs)) \<le> W)"
  by (induction xs arbitrary: us) auto

lemma timely_take: "timely key W us xs \<Longrightarrow> timely key W us (take m xs)"
proof (induction xs arbitrary: us m)
  case (Cons x xs)
  then show ?case by (cases m) auto
qed simp

lemma window_run_snoc: "window_run ins W (xs @ [x]) b =
    (let (ps, b') = window_run ins W xs b; b'' = ins x b'; k = length b'' - W in (ps @ take k b'', drop k b''))"
  by (induction xs arbitrary: b) (auto simp: Let_def case_prod_beta)

text \<open>What the released entries \<open>R\<close> that climb and the held ones \<open>b\<close> say of the arrivals \<open>xs\<close>.\<close>

definition window_inv :: "('a \<Rightarrow> int) \<Rightarrow> 'a list \<Rightarrow> 'a list \<Rightarrow> 'a list \<Rightarrow> bool" where
  "window_inv key xs R b \<longleftrightarrow> sorted (map key b) \<and> set R \<subseteq> set (firsts key xs) \<and>
     key ` set xs = key ` set R \<union> key ` set b \<and> sorted_wrt (<) (map key R) \<and>
     (\<forall>y\<in>set b. key y \<in> key ` set R \<or> (R \<noteq> [] \<longrightarrow> key (last R) < key y)) \<and>
     (\<forall>k. k \<notin> key ` set R \<longrightarrow> filter (\<lambda>y. key y = k) b = filter (\<lambda>y. key y = k) xs)"

lemma sorted_last_max: "sorted_wrt (<) (map key R) \<Longrightarrow> y \<in> set R \<Longrightarrow> key y \<le> key (last R)" for key :: "'a \<Rightarrow> int"
  by (induction R rule: rev_induct) (auto simp: sorted_wrt_append less_imp_le)

lemma window_inv_release:
  assumes "window_inv key xs R (y # b)"
  shows "window_inv key xs (if R = [] \<or> key (last R) < key y then R @ [y] else R) b"
proof (cases "R = [] \<or> key (last R) < key y")
  case True
  have R: "sorted_wrt (<) (map key R)" using assms by (simp add: window_inv_def)
  have below: "\<forall>z\<in>set R. key z < key y" using True sorted_last_max[OF R] by fastforce
  then have new: "key y \<notin> key ` set R" by auto
  then have "filter (\<lambda>z. key z = key y) xs = y # filter (\<lambda>z. key z = key y) b"
    using assms by (auto simp: window_inv_def)
  then have f: "y \<in> set (firsts key xs)" by (simp add: firsts_iff)
  have s: "\<forall>z\<in>set b. key y \<le> key z" using assms by (auto simp: window_inv_def)
  show ?thesis unfolding window_inv_def
  proof (intro conjI)
    show "\<forall>z\<in>set b. key z \<in> key ` set (if R = [] \<or> key (last R) < key y then R @ [y] else R) \<or>
       ((if R = [] \<or> key (last R) < key y then R @ [y] else R) \<noteq> [] \<longrightarrow>
        key (last (if R = [] \<or> key (last R) < key y then R @ [y] else R)) < key z)"
      using s True by (auto simp: le_less)
    show "\<forall>k. k \<notin> key ` set (if R = [] \<or> key (last R) < key y then R @ [y] else R) \<longrightarrow>
       filter (\<lambda>y. key y = k) b = filter (\<lambda>y. key y = k) xs"
      using assms True by (auto simp: window_inv_def)
  qed (use assms True f below in \<open>auto simp: window_inv_def sorted_wrt_append\<close>)
next
  case False
  then have y: "key y \<in> key ` set R" using assms by (auto simp: window_inv_def)
  have "filter (\<lambda>z. key z = k) b = filter (\<lambda>z. key z = k) xs" if "k \<notin> key ` set R" for k
  proof -
    have "key y \<noteq> k" using y that by auto
    then have "filter (\<lambda>z. key z = k) (y # b) = filter (\<lambda>z. key z = k) b" by simp
    moreover have "filter (\<lambda>z. key z = k) (y # b) = filter (\<lambda>z. key z = k) xs"
      using assms that unfolding window_inv_def by blast
    ultimately show ?thesis by (simp only:)
  qed
  moreover have "key ` set xs = key ` set R \<union> key ` set b" using assms y by (auto simp: window_inv_def)
  ultimately show ?thesis using assms False unfolding window_inv_def by simp
qed

lemma window_inv_flush:
  assumes "window_inv key xs R b" and "R = climb key None ps"
  shows "climb key None (ps @ b) = in_order key xs"
  using assms
proof (induction b arbitrary: R ps)
  case Nil
  then show ?case by (auto intro!: in_order_unique simp: window_inv_def)
next
  case (Cons y b)
  have "climb key None (ps @ [y]) = (if R = [] \<or> key (last R) < key y then R @ [y] else R)"
    using Cons.prems(2) by (simp add: climb_append)
  from Cons.IH[OF window_inv_release[OF Cons.prems(1)] this[symmetric]] show ?case by simp
qed

text \<open>
  What the window asks of the insertion: it keeps the entries ordered and puts a new one behind
  its equals.
\<close>

locale reorder_window =
  fixes ins :: "'a \<Rightarrow> 'a list \<Rightarrow> 'a list" and key :: "'a \<Rightarrow> int"
  assumes ins_split: "sorted (map key b) \<Longrightarrow>
    \<exists>u v. b = u @ v \<and> ins x b = u @ x # v \<and> (\<forall>y\<in>set u. key y \<le> key x) \<and> (\<forall>y\<in>set v. key x < key y)"
begin

lemma insert_inv:
  assumes inv: "window_inv key xs R b"
    and late: "key x \<in> key ` set xs \<or> length (filter (\<lambda>y. key x < key y) xs) \<le> W"
    and full: "R \<noteq> [] \<longrightarrow> W < length (filter (\<lambda>y. key (last R) \<le> key y) xs)"
  shows "window_inv key (xs @ [x]) R (ins x b)"
proof -
  have b: "sorted (map key b)" using inv by (simp add: window_inv_def)
  obtain u v where s: "b = u @ v" "ins x b = u @ x # v" "\<forall>y\<in>set u. key y \<le> key x" "\<forall>y\<in>set v. key x < key y"
    using ins_split[OF b] by blast
  have srt: "sorted (map key (ins x b))" using b s by (auto simp: sorted_append less_imp_le)
  have sub: "set (firsts key xs) \<subseteq> set (firsts key (xs @ [x]))" by (auto simp: firsts_iff)
  have pos: "key x \<in> key ` set R \<or> (R \<noteq> [] \<longrightarrow> key (last R) < key x)"
  proof (rule ccontr)
    assume n: "\<not> ?thesis"
    then have R0: "R \<noteq> []" "key x \<notin> key ` set R" "\<not> key (last R) < key x" by blast+
    then have R: "R \<noteq> []" "key x < key (last R)" by (metis image_eqI last_in_set linorder_neqE)+
    from late show False
    proof
      assume "key x \<in> key ` set xs"
      then have "key x \<in> key ` set b" using R0(2) inv by (auto simp: window_inv_def)
      then obtain y where y: "y \<in> set b" "key y = key x" by auto
      then have "key y \<in> key ` set R \<or> key (last R) < key y" using inv R0(1) unfolding window_inv_def by blast
      then show False using R0 y(2) by simp
    next
      assume "length (filter (\<lambda>y. key x < key y) xs) \<le> W"
      moreover have "length (filter (\<lambda>y. key (last R) \<le> key y) xs) \<le> length (filter (\<lambda>y. key x < key y) xs)"
        using R(2) by (induction xs) auto
      ultimately show False using full R(1) by simp
    qed
  qed
  have eq: "filter (\<lambda>y. key y = k) (ins x b) = filter (\<lambda>y. key y = k) b @ filter (\<lambda>y. key y = k) [x]" for k
  proof -
    have "filter (\<lambda>y. key y = k) v = []" if "key x = k" using s(4) that by (auto simp: filter_empty_conv)
    then show ?thesis using s(1,2) by auto
  qed
  have set: "set (ins x b) = insert x (set b)" using s(1,2) by auto
  show ?thesis unfolding window_inv_def
  proof (intro conjI)
    show "sorted (map key (ins x b))" by (rule srt)
    show "set R \<subseteq> set (firsts key (xs @ [x]))" using inv sub by (auto simp: window_inv_def)
    show "key ` set (xs @ [x]) = key ` set R \<union> key ` set (ins x b)" using inv by (simp add: window_inv_def set)
    show "sorted_wrt (<) (map key R)" using inv by (simp add: window_inv_def)
    show "\<forall>y\<in>set (ins x b). key y \<in> key ` set R \<or> (R \<noteq> [] \<longrightarrow> key (last R) < key y)"
      using inv pos by (simp add: window_inv_def set)
    show "\<forall>k. k \<notin> key ` set R \<longrightarrow> filter (\<lambda>y. key y = k) (ins x b) = filter (\<lambda>y. key y = k) (xs @ [x])"
      using inv by (simp add: window_inv_def eq)
  qed
qed

lemma window_run_inv:
  assumes "timely key W [] xs" and "window_run ins W xs [] = (ps, b)" and "R = climb key None ps"
  shows "window_inv key xs R b \<and> length b \<le> W \<and> mset (ps @ b) = mset xs \<and>
    (R \<noteq> [] \<longrightarrow> W < length (filter (\<lambda>y. key (last R) \<le> key y) xs))"
  using assms
proof (induction xs arbitrary: ps b R rule: rev_induct)
  case Nil
  then show ?case by (simp add: window_inv_def)
next
  case (snoc x xs)
  obtain ps0 b0 where r0: "window_run ins W xs [] = (ps0, b0)" by (cases "window_run ins W xs []")
  let ?R0 = "climb key None ps0" and ?b = "ins x b0" and ?k = "length (ins x b0) - W"
  have t: "timely key W [] xs" and late: "key x \<in> key ` set xs \<or> length (filter (\<lambda>y. key x < key y) xs) \<le> W"
    using snoc.prems(1) by (simp_all add: timely_snoc)
  from snoc.IH[OF t r0 refl] have IH: "window_inv key xs ?R0 b0" "length b0 \<le> W" "mset (ps0 @ b0) = mset xs"
    "?R0 \<noteq> [] \<longrightarrow> W < length (filter (\<lambda>y. key (last ?R0) \<le> key y) xs)" by auto
  have inv: "window_inv key (xs @ [x]) ?R0 ?b" by (rule insert_inv[OF IH(1) late IH(4)])
  have b0: "sorted (map key b0)" using IH(1) by (simp add: window_inv_def)
  obtain u v where s: "b0 = u @ v" "?b = u @ x # v" using ins_split[OF b0] by blast
  have len: "length ?b = Suc (length b0)" and ms: "mset ?b = add_mset x (mset b0)" using s by simp_all
  have ps: "ps = ps0 @ take ?k ?b" "b = drop ?k ?b" using snoc.prems(2) r0 by (simp_all add: window_run_snoc Let_def)
  have mset: "mset (ps @ b) = mset (xs @ [x])"
  proof -
    have "mset (ps @ b) = mset ps0 + mset ?b"
      unfolding ps by (simp only: append_assoc append_take_drop_id mset_append)
    then show ?thesis using IH(3) ms by simp
  qed
  show ?case
  proof (cases "length b0 = W")
    case False
    then have "?k = 0" using len IH(2) by simp
    then show ?thesis using ps snoc.prems(3) inv IH(2,4) len False mset by auto
  next
    case True
    then have k: "?k = 1" using len by simp
    obtain y b1 where y: "?b = y # b1" using len by (cases ?b) auto
    have c: "ps = ps0 @ [y]" "b = b1" using ps k y by simp_all
    have R: "R = (if ?R0 = [] \<or> key (last ?R0) < key y then ?R0 @ [y] else ?R0)"
      using snoc.prems(3) c(1) by (simp add: climb_append)
    have inv': "window_inv key (xs @ [x]) R b" unfolding R c(2) by (rule window_inv_release) (use inv y in simp)
    have "\<forall>z\<in>set ?b. key y \<le> key z" using inv y by (auto simp: window_inv_def)
    then have all: "filter (\<lambda>z. key y \<le> key z) ?b = ?b" by (simp add: filter_id_conv)
    have sub: "mset ?b \<subseteq># mset (xs @ [x])" using IH(3) ms by (simp flip: IH(3))
    have "size (filter_mset (\<lambda>z. key y \<le> key z) (mset ?b)) \<le> size (filter_mset (\<lambda>z. key y \<le> key z) (mset (xs @ [x])))"
      by (intro size_mset_mono multiset_filter_mono) (rule sub)
    then have cnt: "W < length (filter (\<lambda>z. key y \<le> key z) (xs @ [x]))"
      using all len True by (metis Suc_le_eq mset_filter size_mset)
    have "W < length (filter (\<lambda>z. key (last R) \<le> key z) (xs @ [x]))" if "R \<noteq> []"
      using cnt IH(4) that by (auto simp: R split: if_splits)
    moreover have "length b \<le> W" using len True y c(2) by simp
    ultimately show ?thesis using inv' mset by blast
  qed
qed

lemma window_orders:
  assumes "timely key W [] xs" and "window_run ins W xs [] = (ps, b)"
  shows "climb key None (ps @ b) = in_order key xs"
  by (rule window_inv_flush[OF _ refl]) (use window_run_inv[OF assms refl] in simp)

end

end
