(* ===== verification/Depacket.thy ===== *)
theory Depacket
  imports Rtp_Store Timeline Reorder_Window
begin

text \<open>
  Turning a raw stream log into an elementary stream (\<open>pkg/core/depacket/write.go\<close> of the recorder):
  the ordered emitter, which puts the packets back in sequence order within a window, drops
  duplicates and gives every frame one timestamp on the receive clock, and the loop over the log.
  The RTP parser (pion/rtp) and the third-party writers are arguments, \<open>float64\<close> is a type parameter
  as in \<open>Timeline\<close>.  \<open>unwrap32\<close> is the same function in both files.
\<close>

subsection \<open>Packets and writers\<close>

text \<open>
  What the code reads of an \<open>rtp.Packet\<close>; its parser is an argument.  A writer of the
  \<open>rtpWriter\<close> interface is a state \<open>'w\<close> with its operations.
\<close>

record rtp_packet =
  pk_ssrc :: "32 word"
  pk_seq :: "16 word"
  pk_ts :: "32 word"
  pk_marker :: bool
  pk_payload :: "byte list"

datatype sink_kind = OggSink "32 word" | IvfClockSink string "32 word" | IvfAv1Sink | H264Sink

record ('e, 'w) sink_ops =
  so_open :: "sink_kind \<Rightarrow> ('e, 'w) res"
  so_write :: "rtp_packet \<Rightarrow> 'w \<Rightarrow> ('e, unit) res \<times> 'w"
  so_close :: "'w \<Rightarrow> ('e, unit) res \<times> 'w"

definition safe_clock_rate :: "32 word \<Rightarrow> 32 word \<Rightarrow> 32 word" where
  "safe_clock_rate r fallback = (if r = 0 then fallback else r)"

definition lower_codec :: "unicode \<Rightarrow> string \<Rightarrow> string" where
  "lower_codec uc codec = to_lower uc (trim_space codec)"

definition new_rtp_writer :: "unicode \<Rightarrow> string \<Rightarrow> 32 word \<Rightarrow> sink_kind option" where
  "new_rtp_writer uc codec rate =
     (let lc = lower_codec uc codec in
      if contains_str lc ''opus'' then Some (OggSink (if rate = 0 then 48000 else rate))
      else if contains_str lc ''vp8'' then Some (IvfClockSink ''vp8'' (safe_clock_rate rate 90000))
      else if contains_str lc ''vp9'' then Some (IvfClockSink ''vp9'' (safe_clock_rate rate 90000))
      else if contains_str lc ''av1'' then Some IvfAv1Sink
      else if contains_str lc ''h264'' then Some H264Sink
      else None)"

definition effective_clock_rate :: "unicode \<Rightarrow> string \<Rightarrow> 32 word \<Rightarrow> 32 word" where
  "effective_clock_rate uc codec rate =
     (if rate > 0 then rate
      else let lc = lower_codec uc codec in
        if contains_str lc ''opus'' then 48000
        else if contains_str lc ''vp8'' \<or> contains_str lc ''vp9'' \<or> contains_str lc ''h264'' \<or> contains_str lc ''av1'' then 90000
        else 90000)"

subsection \<open>Receive-time timestamps\<close>

record 'f round_ops = "'f float_ops" +
  fl_round :: "'f \<Rightarrow> 'f"

record recv_timeline =
  rt_init :: bool
  rt_base_recv :: "64 word"
  rt_base_ts :: "32 word"
  rt_last :: int

definition rewrite_ts :: "'f round_ops \<Rightarrow> 32 word \<Rightarrow> 64 word \<Rightarrow> 32 word \<Rightarrow> recv_timeline \<Rightarrow> 32 word \<times> recv_timeline" where
  "rewrite_ts F ts recv rate t =
     (if \<not> rt_init t
      then (ts, t\<lparr>rt_init := True, rt_base_recv := recv, rt_base_ts := ts, rt_last := uint ts\<rparr>)
      else
        let recv = (if recv < rt_base_recv t then rt_base_recv t else recv);
            delta = fl_div F (fl_int F (uint (recv - rt_base_recv t))) (fl_lit F 1000000000 1);
            ticks = fl_uint64 F (fl_round F (fl_mul F delta (fl_int F (uint rate))));
            candidate = (ucast (ucast (rt_base_ts t) + ticks) :: 32 word);
            u = the (unwrap32 (rt_last t) candidate);
            candidate = (if u < rt_last t then word_of_int (rt_last t) else candidate);
            u = (if u < rt_last t then rt_last t else u)
        in (candidate, t\<lparr>rt_last := u\<rparr>))"

subsection \<open>The ordered emitter\<close>

definition reorder_window_packets :: nat where "reorder_window_packets = 512"

record seq_packet =
  sp_ext :: int
  sp_recv :: "64 word"
  sp_pkt :: rtp_packet

text \<open>The emitter with its writer; \<open>em_packets\<close> is the packet count of the shared result.\<close>

record 'w emitter =
  em_sink :: 'w
  em_packets :: nat
  em_clock :: "32 word"
  em_buf :: "seq_packet list"
  em_have_seq :: bool
  em_highest :: "16 word"
  em_high_ext :: int
  em_last :: int
  em_timeline :: recv_timeline
  em_have_frame :: bool
  em_frame_ts :: "32 word"
  em_frame_new :: "32 word"

definition new_ordered_emitter :: "'w \<Rightarrow> 32 word \<Rightarrow> 'w emitter" where
  "new_ordered_emitter w rate = \<lparr>em_sink = w, em_packets = 0, em_clock = rate, em_buf = [], em_have_seq = False,
     em_highest = 0, em_high_ext = 0, em_last = min_i64,
     em_timeline = \<lparr>rt_init = False, rt_base_recv = 0, rt_base_ts = 0, rt_last = 0\<rparr>,
     em_have_frame = False, em_frame_ts = 0, em_frame_new = 0\<rparr>"

text \<open>The extended sequence number of an arrival.\<close>

definition extend_seq :: "16 word \<Rightarrow> 'w emitter \<Rightarrow> int \<times> 'w emitter" where
  "extend_seq s em =
     (if \<not> em_have_seq em
      then (uint s, em\<lparr>em_have_seq := True, em_highest := s, em_high_ext := uint s\<rparr>)
      else
        let delta = sint (s - em_highest em); ext = wrap64 (em_high_ext em + delta)
        in (ext, if delta > 0 then em\<lparr>em_highest := s, em_high_ext := ext\<rparr> else em))"

definition insert_seq :: "seq_packet \<Rightarrow> seq_packet list \<Rightarrow> seq_packet list" where
  "insert_seq sp buf =
     (let idx = search_loop (\<lambda>i. sp_ext sp < sp_ext (buf ! i)) 0 (length buf)
      in take idx buf @ sp # drop idx buf)"

definition frame_stamp :: "'f round_ops \<Rightarrow> seq_packet \<Rightarrow> 'w emitter \<Rightarrow> 'w emitter" where
  "frame_stamp F sp em =
     (if \<not> em_have_frame em \<or> pk_ts (sp_pkt sp) \<noteq> em_frame_ts em
      then let (new, t) = rewrite_ts F (pk_ts (sp_pkt sp)) (sp_recv sp) (em_clock em) (em_timeline em)
           in em\<lparr>em_have_frame := True, em_frame_ts := pk_ts (sp_pkt sp), em_frame_new := new, em_timeline := t\<rparr>
      else em)"

definition emit :: "(rtp_packet \<Rightarrow> 'w \<Rightarrow> ('e, unit) res \<times> 'w) \<Rightarrow> 'f round_ops \<Rightarrow> seq_packet \<Rightarrow> 'w emitter
    \<Rightarrow> ('e, unit) res \<times> 'w emitter" where
  "emit wr F sp em =
     (if sp_ext sp \<le> em_last em \<and> em_last em \<noteq> min_i64 then (Inr (), em)
      else
        let em = frame_stamp F sp (em\<lparr>em_last := sp_ext sp\<rparr>) in
        (case wr ((sp_pkt sp)\<lparr>pk_ts := em_frame_new em\<rparr>) (em_sink em) of
           (Inl e, w) \<Rightarrow> (Inl e, em\<lparr>em_sink := w\<rparr>)
         | (Inr _, w) \<Rightarrow> (Inr (), em\<lparr>em_sink := w, em_packets := em_packets em + 1\<rparr>)))"

fun release :: "(rtp_packet \<Rightarrow> 'w \<Rightarrow> ('e, unit) res \<times> 'w) \<Rightarrow> 'f round_ops \<Rightarrow> seq_packet list \<Rightarrow> 'w emitter
    \<Rightarrow> ('e, unit) res \<times> 'w emitter" where
  "release wr F [] em = (Inr (), em\<lparr>em_buf := []\<rparr>)"
| "release wr F (sp # buf) em =
     (if length (sp # buf) > reorder_window_packets
      then (case emit wr F sp (em\<lparr>em_buf := sp # buf\<rparr>) of
              (Inl e, em) \<Rightarrow> (Inl e, em)
            | (Inr _, em) \<Rightarrow> release wr F buf em)
      else (Inr (), em\<lparr>em_buf := sp # buf\<rparr>))"

definition push :: "(rtp_packet \<Rightarrow> 'w \<Rightarrow> ('e, unit) res \<times> 'w) \<Rightarrow> 'f round_ops \<Rightarrow> rtp_packet \<Rightarrow> 64 word \<Rightarrow> 'w emitter
    \<Rightarrow> ('e, unit) res \<times> 'w emitter" where
  "push wr F p recv em =
     (let (ext, em) = extend_seq (pk_seq p) em
      in release wr F (insert_seq \<lparr>sp_ext = ext, sp_recv = recv, sp_pkt = p\<rparr> (em_buf em)) em)"

fun emit_each :: "(rtp_packet \<Rightarrow> 'w \<Rightarrow> ('e, unit) res \<times> 'w) \<Rightarrow> 'f round_ops \<Rightarrow> seq_packet list \<Rightarrow> 'w emitter
    \<Rightarrow> ('e, unit) res \<times> 'w emitter" where
  "emit_each wr F [] em = (Inr (), em)"
| "emit_each wr F (sp # sps) em = (case emit wr F sp em of
     (Inl e, em) \<Rightarrow> (Inl e, em)
   | (Inr _, em) \<Rightarrow> emit_each wr F sps em)"

definition flush :: "(rtp_packet \<Rightarrow> 'w \<Rightarrow> ('e, unit) res \<times> 'w) \<Rightarrow> 'f round_ops \<Rightarrow> 'w emitter
    \<Rightarrow> ('e, unit) res \<times> 'w emitter" where
  "flush wr F em = (case emit_each wr F (em_buf em) em of
     (Inl e, em) \<Rightarrow> (Inl e, em)
   | (Inr _, em) \<Rightarrow> (Inr (), em\<lparr>em_buf := []\<rparr>))"

subsection \<open>A log as an elementary stream\<close>

record write_result =
  wr_rtp :: nat
  wr_rtcp :: nat
  wr_first :: "64 word"
  wr_last :: "64 word"
  wr_truncated :: bool

datatype 'e elem_err = UnsupportedCodec | OpenWriter 'e | OpenLog log_err | ReadLog log_err
  | UnmarshalRtp | WriteRtp 'e | CloseSink 'e

definition observe_recv :: "64 word \<Rightarrow> write_result \<Rightarrow> write_result" where
  "observe_recv recv res =
     (let res = (if wr_first res = 0 \<or> recv < wr_first res then res\<lparr>wr_first := recv\<rparr> else res)
      in if recv > wr_last res then res\<lparr>wr_last := recv\<rparr> else res)"

definition take_record :: "(rtp_packet \<Rightarrow> 'w \<Rightarrow> ('e, unit) res \<times> 'w) \<Rightarrow> 'f round_ops \<Rightarrow> (byte list \<Rightarrow> rtp_packet option)
    \<Rightarrow> rtp_record \<Rightarrow> 'w emitter \<Rightarrow> write_result \<Rightarrow> ('e elem_err, write_result) res \<times> 'w emitter" where
  "take_record wr F parse r em res =
     (if rec_kind r = kind_rtcp then (Inr (res\<lparr>wr_rtcp := wr_rtcp res + 1\<rparr>), em)
      else if rec_kind r = kind_rtp
      then (case parse (rec_wire r) of
              None \<Rightarrow> (Inl UnmarshalRtp, em)
            | Some p \<Rightarrow> (case push wr F p (rec_recv r) em of
                (Inl e, em) \<Rightarrow> (Inl (WriteRtp e), em)
              | (Inr _, em) \<Rightarrow> (Inr (observe_recv (rec_recv r) res), em)))
      else (Inr res, em))"

function elementary_loop :: "(rtp_packet \<Rightarrow> 'w \<Rightarrow> ('e, unit) res \<times> 'w) \<Rightarrow> 'f round_ops \<Rightarrow> (byte list \<Rightarrow> rtp_packet option)
    \<Rightarrow> 'h rtp_reader \<Rightarrow> 'w emitter \<Rightarrow> write_result \<Rightarrow> ('e elem_err, 'h rtp_reader \<times> write_result) res \<times> 'w emitter" where
  "elementary_loop wr F parse rd em res = (case next_record rd of
     (Inl e, rd) \<Rightarrow> if e = Eof then (Inr (rd, res), em) else (Inl (ReadLog e), em)
   | (Inr r, rd) \<Rightarrow> (case take_record wr F parse r em res of
       (Inl e, em) \<Rightarrow> (Inl e, em)
     | (Inr res, em) \<Rightarrow> elementary_loop wr F parse rd em res))"
  by pat_completeness auto
termination
  by (relation "measure (\<lambda>(wr, F, parse, rd, em, res). length (rd_rest rd))") (auto dest: next_record_shrinks[OF sym])

declare elementary_loop.simps [simp del]

definition flush_log :: "(rtp_packet \<Rightarrow> 'w \<Rightarrow> ('e, unit) res \<times> 'w) \<Rightarrow> 'f round_ops \<Rightarrow> (byte list \<Rightarrow> rtp_packet option)
    \<Rightarrow> 'h rtp_reader \<Rightarrow> 'w emitter \<Rightarrow> ('e elem_err, write_result) res \<times> 'w emitter" where
  "flush_log wr F parse rd em =
     (case elementary_loop wr F parse rd em \<lparr>wr_rtp = 0, wr_rtcp = 0, wr_first = 0, wr_last = 0, wr_truncated = False\<rparr> of
        (Inl e, em) \<Rightarrow> (Inl e, em)
      | (Inr (rd, res), em) \<Rightarrow> (case flush wr F em of
          (Inl e, em) \<Rightarrow> (Inl (WriteRtp e), em)
        | (Inr _, em) \<Rightarrow> (Inr (res\<lparr>wr_rtp := em_packets em, wr_truncated := rd_truncated rd\<rparr>), em)))"

text \<open>
  \<open>WriteElementaryFromRTPLog\<close>: the answer and the writer as it is left, after the deferred \<open>Close\<close>
  whose error is dropped.
\<close>

definition write_elementary :: "('e, 'w) sink_ops \<Rightarrow> unicode \<Rightarrow> 'f round_ops \<Rightarrow> (byte list \<Rightarrow> 'h option)
    \<Rightarrow> (byte list \<Rightarrow> rtp_packet option) \<Rightarrow> byte list \<Rightarrow> string \<Rightarrow> 32 word \<Rightarrow> ('e elem_err, write_result) res \<times> 'w option" where
  "write_elementary W uc F unmarshal parse file codec rate =
     (case new_rtp_writer uc codec rate of
        None \<Rightarrow> (Inl UnsupportedCodec, None)
      | Some kind \<Rightarrow> (case so_open W kind of
          Inl e \<Rightarrow> (Inl (OpenWriter e), None)
        | Inr w \<Rightarrow>
          (let (answer, w) = (case open_reader unmarshal file of
                 Inl e \<Rightarrow> (Inl (OpenLog e), w)
               | Inr rd \<Rightarrow> (case flush_log (so_write W) F parse rd (new_ordered_emitter w (effective_clock_rate uc codec rate)) of
                   (Inl e, em) \<Rightarrow> (Inl e, em_sink em)
                 | (Inr res, em) \<Rightarrow> (case so_close W (em_sink em) of
                     (Inl e, w) \<Rightarrow> (Inl (CloseSink e), w)
                   | (Inr _, w) \<Rightarrow> (Inr res, w))))
           in (answer, Some (snd (so_close W w))))))"

subsection \<open>The insertion is the one the window needs\<close>

lemma insert_seq_split:
  assumes "sorted (map sp_ext b)"
  shows "\<exists>u v. b = u @ v \<and> insert_seq x b = u @ x # v \<and> (\<forall>y\<in>set u. sp_ext y \<le> sp_ext x) \<and> (\<forall>y\<in>set v. sp_ext x < sp_ext y)"
proof -
  let ?f = "\<lambda>i. sp_ext x < sp_ext (b ! i)" and ?n = "search_loop (\<lambda>i. sp_ext x < sp_ext (b ! i)) 0 (length b)"
  have mono: "sp_ext (b ! i) \<le> sp_ext (b ! j)" if "i \<le> j" "j < length b" for i j
    using sorted_nth_mono[OF assms, of i j] that by simp
  have s: "?n \<le> length b \<and> (\<forall>i< ?n. \<not> ?f i) \<and> (?n < length b \<longrightarrow> ?f ?n)"
    by (rule search_loop_least) (use mono in force)+
  have "\<forall>y\<in>set (take ?n b). sp_ext y \<le> sp_ext x" using s by (auto simp: in_set_conv_nth not_less)
  moreover have "sp_ext x < sp_ext y" if "y \<in> set (drop ?n b)" for y
  proof -
    have "\<exists>i<length (drop ?n b). drop ?n b ! i = y" using that unfolding in_set_conv_nth[of y "drop ?n b"] .
    then obtain i where "i < length (drop ?n b)" "drop ?n b ! i = y" by blast
    then have "?n + i < length b" "y = b ! (?n + i)" using s by simp_all
    then show ?thesis using s mono[of ?n "?n + i"] by (auto intro: order.strict_trans2)
  qed
  moreover have "b = take ?n b @ drop ?n b" "insert_seq x b = take ?n b @ x # drop ?n b"
    by (simp_all add: insert_seq_def Let_def)
  ultimately show ?thesis by blast
qed

interpretation rw: reorder_window insert_seq sp_ext
  by unfold_locales (rule insert_seq_split)


subsection \<open>Emission as a pure function of the arrivals\<close>

fun feed :: "(rtp_packet \<Rightarrow> 'w \<Rightarrow> ('e, unit) res \<times> 'w) \<Rightarrow> rtp_packet list \<Rightarrow> 'w \<Rightarrow> ('e, unit) res \<times> 'w" where
  "feed wr [] w = (Inr (), w)"
| "feed wr (p # ps) w = (case wr p w of (Inl e, w) \<Rightarrow> (Inl e, w) | (Inr _, w) \<Rightarrow> feed wr ps w)"

text \<open>The packets the emitter writes for the entries it does not drop.\<close>

fun stamped :: "'f round_ops \<Rightarrow> 'w emitter \<Rightarrow> seq_packet list \<Rightarrow> rtp_packet list" where
  "stamped F em [] = []"
| "stamped F em (sp # sps) =
     (let em = frame_stamp F sp em in (sp_pkt sp)\<lparr>pk_ts := em_frame_new em\<rparr> # stamped F em sps)"

fun assign_exts :: "'w emitter \<Rightarrow> (64 word \<times> rtp_packet) list \<Rightarrow> seq_packet list" where
  "assign_exts em [] = []"
| "assign_exts em ((recv, p) # xs) =
     (let (ext, em) = extend_seq (pk_seq p) em
      in \<lparr>sp_ext = ext, sp_recv = recv, sp_pkt = p\<rparr> # assign_exts em xs)"

fun push_all :: "(rtp_packet \<Rightarrow> 'w \<Rightarrow> ('e, unit) res \<times> 'w) \<Rightarrow> 'f round_ops \<Rightarrow> (64 word \<times> rtp_packet) list \<Rightarrow> 'w emitter
    \<Rightarrow> ('e, unit) res \<times> 'w emitter" where
  "push_all wr F [] em = (Inr (), em)"
| "push_all wr F ((recv, p) # xs) em = (case push wr F p recv em of
     (Inl e, em) \<Rightarrow> (Inl e, em)
   | (Inr _, em) \<Rightarrow> push_all wr F xs em)"

definition requeue :: "seq_packet list \<Rightarrow> bool \<Rightarrow> 16 word \<Rightarrow> int \<Rightarrow> 'w emitter \<Rightarrow> 'w emitter" where
  "requeue b h hi he em = em\<lparr>em_buf := b, em_have_seq := h, em_highest := hi, em_high_ext := he\<rparr>"

lemma requeue_simps [simp]:
  "em_sink (requeue b h hi he em) = em_sink em" "em_packets (requeue b h hi he em) = em_packets em"
  "em_buf (requeue b h hi he em) = b" "(requeue b h hi he em)\<lparr>em_buf := b'\<rparr> = requeue b' h hi he em"
  "em_last (requeue b h hi he em) = em_last em"
  by (simp_all add: requeue_def)

lemma requeue_self: "em = requeue (em_buf em) (em_have_seq em) (em_highest em) (em_high_ext em) em"
  by (simp add: requeue_def)

lemma frame_stamp_requeue [simp]: "frame_stamp F sp (requeue b h hi he em) = requeue b h hi he (frame_stamp F sp em)"
  by (simp add: frame_stamp_def requeue_def case_prod_beta)

lemma frame_stamp_simps [simp]:
  "em_sink (frame_stamp F sp em) = em_sink em" "em_packets (frame_stamp F sp em) = em_packets em"
  "em_buf (frame_stamp F sp em) = em_buf em" "em_last (frame_stamp F sp em) = em_last em"
  "em_have_frame (frame_stamp F sp em)" "em_frame_ts (frame_stamp F sp em) = pk_ts (sp_pkt sp)"
  by (simp_all add: frame_stamp_def case_prod_beta)

lemma emit_requeue: "emit wr F sp (requeue b h hi he em) = map_prod id (requeue b h hi he) (emit wr F sp em)"
proof -
  have "frame_stamp F sp ((requeue b h hi he em)\<lparr>em_last := x\<rparr>) = requeue b h hi he (frame_stamp F sp (em\<lparr>em_last := x\<rparr>))" for x
  proof -
    have "(requeue b h hi he em)\<lparr>em_last := x\<rparr> = requeue b h hi he (em\<lparr>em_last := x\<rparr>)"
      by (cases em) (simp add: requeue_def)
    then show ?thesis by simp
  qed
  moreover have "em_frame_new (requeue b h hi he em') = em_frame_new em'" for em' :: "'a emitter" by (simp add: requeue_def)
  ultimately show ?thesis
    by (auto simp: emit_def Let_def split: prod.splits sum.splits) (simp_all add: requeue_def)
qed

lemma emit_each_requeue: "emit_each wr F sps (requeue b h hi he em) = map_prod id (requeue b h hi he) (emit_each wr F sps em)"
  by (induction sps arbitrary: em) (auto simp: emit_requeue split: prod.splits sum.splits)

lemma emit_each_append: "emit_each wr F (xs @ ys) em = (case emit_each wr F xs em of
    (Inl e, em) \<Rightarrow> (Inl e, em) | (Inr _, em) \<Rightarrow> emit_each wr F ys em)"
  by (induction xs arbitrary: em) (auto split: prod.splits sum.splits)

lemma release_eq:
  "case emit_each wr F (take (length b - reorder_window_packets) b) em of
     (Inl e, em') \<Rightarrow> \<exists>em''. release wr F b (requeue c h hi he em) = (Inl e, em'') \<and> em_sink em'' = em_sink em'
   | (Inr u, em') \<Rightarrow> release wr F b (requeue c h hi he em) =
       (Inr (), requeue (drop (length b - reorder_window_packets) b) h hi he em')"
proof (induction b arbitrary: em c)
  case (Cons sp b)
  show ?case
  proof (cases "length (sp # b) > reorder_window_packets")
    case True
    then have k: "length (sp # b) - reorder_window_packets = Suc (length b - reorder_window_packets)" by simp
    obtain x em1 where e: "emit wr F sp em = (x, em1)" by (cases "emit wr F sp em")
    show ?thesis
    proof (cases x)
      case (Inl er)
      then show ?thesis unfolding k using True e by (simp add: emit_requeue)
    next
      case (Inr u)
      have rel: "release wr F (sp # b) (requeue c h hi he em) = release wr F b (requeue (sp # b) h hi he em1)"
        using True e Inr by (simp add: emit_requeue)
      have "emit_each wr F (take (Suc (length b - reorder_window_packets)) (sp # b)) em
          = emit_each wr F (take (length b - reorder_window_packets) b) em1" using e Inr by simp
      then show ?thesis unfolding k rel using Cons.IH[where em = em1 and c = "sp # b"] by (simp only: drop_Suc_Cons)
    qed
  qed simp
qed simp


lemma extend_seq_requeue:
  "\<exists>ext h' hi' he'. \<forall>b (em :: 'w emitter). extend_seq s (requeue b h hi he em) = (ext, requeue b h' hi' he' em)"
proof -
  define ext where "ext = (if h then wrap64 (he + sint (s - hi)) else uint s)"
  define hi' where "hi' = (if h \<longrightarrow> sint (s - hi) > 0 then s else hi)"
  define he' where "he' = (if h \<longrightarrow> sint (s - hi) > 0 then ext else he)"
  have "extend_seq s (requeue b h hi he em) = (ext, requeue b True hi' he' em)" for b and em :: "'w emitter"
    by (cases em) (simp add: extend_seq_def requeue_def Let_def ext_def hi'_def he'_def)
  then show ?thesis by blast
qed

lemma assign_exts_core:
  "assign_exts (requeue b h hi he em) xs = assign_exts (requeue c h hi he em') xs" for em em' :: "'w emitter"
proof (induction xs arbitrary: b c h hi he em em')
  case (Cons x xs)
  obtain recv p where x: "x = (recv, p)" by (cases x)
  obtain ext h' hi' he' where "\<forall>b (em :: 'w emitter). extend_seq (pk_seq p) (requeue b h hi he em) = (ext, requeue b h' hi' he' em)"
    using extend_seq_requeue by blast
  then show ?case using Cons.IH[of b h' hi' he' em c em'] by (simp add: x)
qed simp

text \<open>Pushing the arrivals emits what the window releases.\<close>

lemma push_all_window:
  assumes "window_run insert_seq reorder_window_packets (assign_exts (requeue b h hi he em) xs) b = (ps, b')"
  shows "case emit_each wr F ps em of
     (Inl e, em') \<Rightarrow> \<exists>em''. push_all wr F xs (requeue b h hi he em) = (Inl e, em'') \<and> em_sink em'' = em_sink em'
   | (Inr u, em') \<Rightarrow> \<exists>h' hi' he'. push_all wr F xs (requeue b h hi he em) = (Inr (), requeue b' h' hi' he' em')"
  using assms
proof (induction xs arbitrary: b h hi he em ps)
  case Nil
  then show ?case by auto
next
  case (Cons x xs)
  obtain recv p where x: "x = (recv, p)" by (cases x)
  obtain ext h' hi' he' where ex: "extend_seq (pk_seq p) (requeue b h hi he em) = (ext, requeue b h' hi' he' em)"
    using extend_seq_requeue by meson
  let ?sp = "\<lparr>sp_ext = ext, sp_recv = recv, sp_pkt = p\<rparr>"
  let ?b = "insert_seq ?sp b" and ?k = "length (insert_seq ?sp b) - reorder_window_packets"
  obtain ps1 where w: "window_run insert_seq reorder_window_packets (assign_exts (requeue b h' hi' he' em) xs) (drop ?k ?b) = (ps1, b')"
    and ps: "ps = take ?k ?b @ ps1"
    using Cons.prems ex by (auto simp: x Let_def split: prod.splits)
  have push: "push wr F p recv (requeue b h hi he em) = release wr F ?b (requeue b h' hi' he' em)"
    by (simp add: push_def ex)
  obtain y em1 where e: "emit_each wr F (take ?k ?b) em = (y, em1)" by (cases "emit_each wr F (take ?k ?b) em")
  show ?case
  proof (cases y)
    case (Inl er)
    then show ?thesis using release_eq[where wr = wr and F = F and b = ?b and em = em and c = b and h = h' and hi = hi' and he = he'] e
      by (auto simp: x push ps emit_each_append)
  next
    case (Inr u)
    have rel: "release wr F ?b (requeue b h' hi' he' em) = (Inr (), requeue (drop ?k ?b) h' hi' he' em1)"
      using release_eq[where wr = wr and F = F and b = ?b and em = em and c = b and h = h' and hi = hi' and he = he'] e Inr by simp
    have "assign_exts (requeue b h' hi' he' em) xs = assign_exts (requeue (drop ?k ?b) h' hi' he' em1) xs"
      by (rule assign_exts_core)
    with w have "window_run insert_seq reorder_window_packets (assign_exts (requeue (drop ?k ?b) h' hi' he' em1) xs) (drop ?k ?b) = (ps1, b')"
      by simp
    moreover have "push_all wr F (x # xs) (requeue b h hi he em) = push_all wr F xs (requeue (drop ?k ?b) h' hi' he' em1)"
      by (simp add: x push rel)
    moreover have "emit_each wr F ps em = emit_each wr F ps1 em1" by (simp add: ps emit_each_append e Inr)
    ultimately show ?thesis using Cons.IH[of "drop ?k ?b" h' hi' he' em1 ps1] by (simp only:)
  qed
qed

text \<open>Emitting writes the stamped entries that climb.\<close>

lemma stamped_core: "stamped F (em\<lparr>em_sink := w, em_packets := n, em_last := l\<rparr>) sps = stamped F em sps"
proof (induction sps arbitrary: em)
  case (Cons sp sps)
  have "frame_stamp F sp (em\<lparr>em_sink := w, em_packets := n, em_last := l\<rparr>)
      = (frame_stamp F sp em)\<lparr>em_sink := w, em_packets := n, em_last := l\<rparr>"
    by (cases em) (simp add: frame_stamp_def case_prod_beta)
  then show ?case using Cons.IH by (simp add: Let_def)
qed simp

definition last_emitted :: "'w emitter \<Rightarrow> int option" where
  "last_emitted em = (if em_last em = min_i64 then None else Some (em_last em))"

definition fed :: "(rtp_packet \<Rightarrow> 'w \<Rightarrow> ('e, unit) res \<times> 'w) \<Rightarrow> 'f round_ops \<Rightarrow> seq_packet list \<Rightarrow> 'w emitter
    \<Rightarrow> ('e, unit) res \<times> 'w" where
  "fed wr F sps em = feed wr (stamped F em (climb sp_ext (last_emitted em) sps)) (em_sink em)"

lemma emit_each_feed:
  assumes "\<forall>sp\<in>set sps. sp_ext sp \<noteq> min_i64"
  shows "\<exists>em'. emit_each wr F sps em = (fst (fed wr F sps em), em') \<and> em_sink em' = snd (fed wr F sps em) \<and>
     (fst (fed wr F sps em) = Inr () \<longrightarrow> em_packets em' = em_packets em + length (climb sp_ext (last_emitted em) sps))"
  using assms unfolding fed_def
proof (induction sps arbitrary: em)
  case (Cons sp sps)
  have keep: "(case last_emitted em of None \<Rightarrow> True | Some m \<Rightarrow> m < sp_ext sp)
      \<longleftrightarrow> \<not> (sp_ext sp \<le> em_last em \<and> em_last em \<noteq> min_i64)"
    by (auto simp: last_emitted_def)
  have ne: "\<forall>sp\<in>set sps. sp_ext sp \<noteq> min_i64" using Cons.prems by simp
  show ?case
  proof (cases "sp_ext sp \<le> em_last em \<and> em_last em \<noteq> min_i64")
    case True
    have cl: "climb sp_ext (last_emitted em) (sp # sps) = climb sp_ext (last_emitted em) sps" using keep True by simp
    have e: "emit_each wr F (sp # sps) em = emit_each wr F sps em" using True by (simp add: emit_def)
    show ?thesis unfolding cl e by (rule Cons.IH[OF ne])
  next
    case False
    let ?em = "frame_stamp F sp (em\<lparr>em_last := sp_ext sp\<rparr>)"
    let ?p = "(sp_pkt sp)\<lparr>pk_ts := em_frame_new ?em\<rparr>" and ?cs = "climb sp_ext (Some (sp_ext sp)) sps"
    have cl: "climb sp_ext (last_emitted em) (sp # sps) = sp # ?cs" using keep False by simp
    have "stamped F (em\<lparr>em_sink := em_sink em, em_packets := em_packets em, em_last := sp_ext sp\<rparr>) (sp # ?cs) = stamped F em (sp # ?cs)"
      by (rule stamped_core)
    then have core: "stamped F em (sp # ?cs) = ?p # stamped F ?em ?cs" by (simp add: Let_def)
    obtain y w where wr: "wr ?p (em_sink em) = (y, w)" by (cases "wr ?p (em_sink em)")
    show ?thesis
    proof (cases y)
      case (Inl er)
      have "emit wr F sp em = (Inl er, ?em\<lparr>em_sink := w\<rparr>)" using wr False Inl by (auto simp: emit_def Let_def)
      then show ?thesis unfolding cl core using wr Inl by simp
    next
      case (Inr u)
      let ?em1 = "?em\<lparr>em_sink := w, em_packets := em_packets em + 1\<rparr>"
      have "emit wr F sp em = (Inr (), ?em1)" using wr False Inr by (auto simp: emit_def Let_def)
      then have e: "emit_each wr F (sp # sps) em = emit_each wr F sps ?em1" by simp
      have l: "last_emitted ?em1 = Some (sp_ext sp)" using Cons.prems by (simp add: last_emitted_def)
      have s: "stamped F ?em1 ?cs = stamped F ?em ?cs"
      proof -
        have "?em1 = ?em\<lparr>em_sink := w, em_packets := em_packets em + 1, em_last := em_last ?em\<rparr>" by (cases ?em) simp
        then show ?thesis by (rule trans[OF arg_cong[where f = "\<lambda>e. stamped F e ?cs"] stamped_core])
      qed
      have f: "feed wr (?p # stamped F ?em ?cs) (em_sink em) = feed wr (stamped F ?em1 ?cs) (em_sink ?em1)"
        using wr Inr s by simp
      show ?thesis unfolding cl core e f using Cons.IH[OF ne, of ?em1] unfolding l by simp
    qed
  qed
qed simp

subsection \<open>The emitter restores the order\<close>

text \<open>The whole run of an emitter over the packets of a log.\<close>

definition reordered :: "(rtp_packet \<Rightarrow> 'w \<Rightarrow> ('e, unit) res \<times> 'w) \<Rightarrow> 'f round_ops \<Rightarrow> (64 word \<times> rtp_packet) list
    \<Rightarrow> 'w emitter \<Rightarrow> ('e, unit) res \<times> 'w emitter" where
  "reordered wr F xs em = (case push_all wr F xs em of (Inl e, em) \<Rightarrow> (Inl e, em) | (Inr _, em) \<Rightarrow> flush wr F em)"

lemma reordered_feed:
  fixes w :: 'w and rate :: "32 word" and xs :: "(64 word \<times> rtp_packet) list"
  defines "em0 \<equiv> new_ordered_emitter w rate"
  assumes "timely sp_ext reorder_window_packets [] (assign_exts em0 xs)" and "\<forall>sp\<in>set (assign_exts em0 xs). sp_ext sp \<noteq> min_i64"
  shows "\<exists>em. reordered wr F xs em0 = (fst (feed wr (stamped F em0 (in_order sp_ext (assign_exts em0 xs))) w), em) \<and>
     em_sink em = snd (feed wr (stamped F em0 (in_order sp_ext (assign_exts em0 xs))) w) \<and>
     (fst (feed wr (stamped F em0 (in_order sp_ext (assign_exts em0 xs))) w) = Inr () \<longrightarrow>
        em_packets em = length (in_order sp_ext (assign_exts em0 xs)))"
proof -
  let ?es = "assign_exts em0 xs"
  obtain ps b where r: "window_run insert_seq reorder_window_packets ?es [] = (ps, b)"
    by (cases "window_run insert_seq reorder_window_packets ?es []")
  have cl: "climb sp_ext None (ps @ b) = in_order sp_ext ?es" by (rule rw.window_orders[OF assms(2) r])
  have "mset (ps @ b) = mset ?es" using rw.window_run_inv[OF assms(2) r refl] by simp
  then have "set (ps @ b) = set ?es" by (rule mset_eq_setD)
  then have ne: "\<forall>sp\<in>set (ps @ b). sp_ext sp \<noteq> min_i64" using assms(3) by simp
  have l: "last_emitted em0 = None" "em_sink em0 = w" "em_packets em0 = 0"
    by (simp_all add: em0_def new_ordered_emitter_def last_emitted_def)
  have fed: "fed wr F (ps @ b) em0 = feed wr (stamped F em0 (in_order sp_ext ?es)) w" by (simp add: fed_def l cl)
  obtain em' where em': "emit_each wr F (ps @ b) em0 = (fst (fed wr F (ps @ b) em0), em')"
      "em_sink em' = snd (fed wr F (ps @ b) em0)"
      "fst (fed wr F (ps @ b) em0) = Inr () \<longrightarrow> em_packets em' = length (in_order sp_ext ?es)"
    using emit_each_feed[OF ne, of wr F em0] by (auto simp: l cl)
  have q: "em0 = requeue [] False 0 0 em0" by (simp add: em0_def new_ordered_emitter_def requeue_def)
  have pw: "case emit_each wr F ps em0 of
     (Inl e, em') \<Rightarrow> \<exists>em''. push_all wr F xs em0 = (Inl e, em'') \<and> em_sink em'' = em_sink em'
   | (Inr u, em') \<Rightarrow> \<exists>h' hi' he'. push_all wr F xs em0 = (Inr (), requeue b h' hi' he' em')"
    by (rule push_all_window[of "[]" False 0 0 em0, folded q]) (rule r)
  obtain y em1 where e1: "emit_each wr F ps em0 = (y, em1)" by (cases "emit_each wr F ps em0")
  have "\<exists>em. reordered wr F xs em0 = (fst (emit_each wr F (ps @ b) em0), em) \<and> em_sink em = em_sink em' \<and> em_packets em = em_packets em'
    \<or> fst (emit_each wr F (ps @ b) em0) \<noteq> Inr () \<and> reordered wr F xs em0 = (fst (emit_each wr F (ps @ b) em0), em) \<and> em_sink em = em_sink em'"
  proof (cases y)
    case (Inl er)
    then have "emit_each wr F (ps @ b) em0 = (Inl er, em1)" using e1 by (simp add: emit_each_append)
    then show ?thesis using pw e1 Inl em'(1) by (auto simp: reordered_def)
  next
    case (Inr u)
    obtain h' hi' he' where pa: "push_all wr F xs em0 = (Inr (), requeue b h' hi' he' em1)" using pw e1 Inr by auto
    have ea: "emit_each wr F (ps @ b) em0 = emit_each wr F b em1" using e1 Inr by (simp add: emit_each_append)
    obtain z em2 where e2: "emit_each wr F b em1 = (z, em2)" by (cases "emit_each wr F b em1")
    have "em2 = em'" using ea e2 em'(1) by simp
    then show ?thesis using pa ea e2
      by (cases z) (auto simp: reordered_def flush_def emit_each_requeue intro!: exI[of _ "requeue b h' hi' he' em'"])
  qed
  then show ?thesis using em' unfolding fed by auto
qed

lemma mod_wrap64: "wrap64 x mod 2 ^ 32 = x mod 2 ^ 32"
proof -
  have "wrap64 x = x + (- ((x + 2 ^ 63) div 2 ^ 64) * 2 ^ 32) * 2 ^ 32"
    using div_mult_mod_eq[of "x + 2 ^ 63" "2 ^ 64"] unfolding wrap64_def by (simp add: algebra_simps)
  then show ?thesis by (simp only: mod_mult_self1)
qed

lemma unwrap32_word: "\<exists>u. unwrap32 l raw = Some u \<and> (word_of_int u :: 32 word) = raw"
proof -
  let ?d = "uint raw - l mod 2 ^ 32"
  have r: "0 \<le> uint raw" "uint raw < 2 ^ 32" using uint_bounded[of raw] by simp_all
  have m: "0 \<le> l mod 2 ^ 32" "l mod 2 ^ 32 < 2 ^ 32" by simp_all
  have b: "- (2 ^ 32) < ?d" "?d < 2 ^ 32" using r m by linarith+
  obtain k where k: "unwrap_delta ?d = Some (?d + k * 2 ^ 32)" using unwrap_delta_exact[of ?d] b by blast
  let ?u = "wrap64 (l + (?d + k * 2 ^ 32))"
  have s: "l + (?d + k * 2 ^ 32) = uint raw + (l div 2 ^ 32 + k) * 2 ^ 32"
    using div_mult_mod_eq[of l "2 ^ 32"] by (simp add: algebra_simps)
  have "?u mod 2 ^ 32 = (uint raw + (l div 2 ^ 32 + k) * 2 ^ 32) mod 2 ^ 32" unfolding mod_wrap64 s ..
  also have "\<dots> = uint raw" unfolding mod_mult_self1 using r by (rule mod_pos_pos_trivial)
  finally have "?u mod 2 ^ LENGTH(32) = uint raw" by simp
  then have "uint (word_of_int ?u :: 32 word) = uint raw" unfolding uint_word_of_int .
  then have "(word_of_int ?u :: 32 word) = raw" by (rule word_uint_eqI)
  then show ?thesis using k by (simp only: unwrap32_def option.map simp_thms) blast
qed


text \<open>The media times of the written packets, as the unwrapped times of the receive clock.\<close>

fun frame_times :: "'f round_ops \<Rightarrow> 'w emitter \<Rightarrow> seq_packet list \<Rightarrow> int list" where
  "frame_times F em [] = []"
| "frame_times F em (sp # sps) =
     (let em = frame_stamp F sp em in rt_last (em_timeline em) # frame_times F em sps)"

definition stamp_inv :: "'w emitter \<Rightarrow> bool" where
  "stamp_inv em \<longleftrightarrow> rt_init (em_timeline em) = em_have_frame em \<and>
     (em_have_frame em \<longrightarrow> em_frame_new em = word_of_int (rt_last (em_timeline em)))"

lemma rewrite_ts_clock:
  assumes "rewrite_ts F ts recv rate t = (new, t')"
  shows "new = word_of_int (rt_last t') \<and> rt_init t' \<and> (rt_init t \<longrightarrow> rt_last t \<le> rt_last t')"
proof (cases "rt_init t")
  case False
  then show ?thesis using assms by (auto simp: rewrite_ts_def)
next
  case True
  define c :: "32 word" where "c = (let recv = (if recv < rt_base_recv t then rt_base_recv t else recv);
            delta = fl_div F (fl_int F (uint (recv - rt_base_recv t))) (fl_lit F 1000000000 1)
     in ucast (ucast (rt_base_ts t) + fl_uint64 F (fl_round F (fl_mul F delta (fl_int F (uint rate))))))"
  obtain u where u: "unwrap32 (rt_last t) c = Some u" "(word_of_int u :: 32 word) = c" using unwrap32_word by blast
  have "rewrite_ts F ts recv rate t = (if u < rt_last t then word_of_int (rt_last t) else c,
      t\<lparr>rt_last := if u < rt_last t then rt_last t else u\<rparr>)"
    using True u(1) by (simp add: rewrite_ts_def c_def Let_def)
  then show ?thesis using assms u(2) True by auto
qed

lemma frame_stamp_inv:
  assumes "stamp_inv em"
  shows "stamp_inv (frame_stamp F sp em) \<and> em_have_frame (frame_stamp F sp em) \<and>
    em_frame_ts (frame_stamp F sp em) = pk_ts (sp_pkt sp) \<and>
    (em_have_frame em \<longrightarrow> rt_last (em_timeline em) \<le> rt_last (em_timeline (frame_stamp F sp em))) \<and>
    (em_have_frame em \<and> pk_ts (sp_pkt sp) = em_frame_ts em \<longrightarrow> frame_stamp F sp em = em)"
proof (cases "\<not> em_have_frame em \<or> pk_ts (sp_pkt sp) \<noteq> em_frame_ts em")
  case True
  obtain new t where r: "rewrite_ts F (pk_ts (sp_pkt sp)) (sp_recv sp) (em_clock em) (em_timeline em) = (new, t)"
    by (cases "rewrite_ts F (pk_ts (sp_pkt sp)) (sp_recv sp) (em_clock em) (em_timeline em)")
  have "frame_stamp F sp em = em\<lparr>em_have_frame := True, em_frame_ts := pk_ts (sp_pkt sp), em_frame_new := new, em_timeline := t\<rparr>"
    unfolding frame_stamp_def using True r by simp
  then show ?thesis using rewrite_ts_clock[OF r] assms True by (auto simp: stamp_inv_def)
next
  case False
  then have "frame_stamp F sp em = em" by (simp add: frame_stamp_def)
  then show ?thesis using assms False by auto
qed

lemma stamped_times:
  assumes "stamp_inv em"
  shows "stamped F em sps = map2 (\<lambda>sp u. (sp_pkt sp)\<lparr>pk_ts := word_of_int u\<rparr>) sps (frame_times F em sps) \<and>
    length (frame_times F em sps) = length sps \<and> sorted (frame_times F em sps) \<and>
    (em_have_frame em \<longrightarrow> (\<forall>u\<in>set (frame_times F em sps). rt_last (em_timeline em) \<le> u)) \<and>
    successively (\<lambda>(sp, u) (sp', u'). pk_ts (sp_pkt sp) = pk_ts (sp_pkt sp') \<longrightarrow> u = u') (zip sps (frame_times F em sps)) \<and>
    (em_have_frame em \<and> sps \<noteq> [] \<and> pk_ts (sp_pkt (hd sps)) = em_frame_ts em \<longrightarrow> hd (frame_times F em sps) = rt_last (em_timeline em))"
  using assms
proof (induction sps arbitrary: em)
  case (Cons sp sps)
  let ?em = "frame_stamp F sp em"
  note fs = frame_stamp_inv[OF Cons.prems, of F sp]
  have inv: "stamp_inv ?em" using fs by simp
  note IH = Cons.IH[OF inv]
  have new: "em_frame_new ?em = word_of_int (rt_last (em_timeline ?em))" using fs by (simp add: stamp_inv_def)
  have ft: "frame_times F em (sp # sps) = rt_last (em_timeline ?em) # frame_times F ?em sps" by (simp add: Let_def)
  have "stamped F em (sp # sps) = map2 (\<lambda>sp u. (sp_pkt sp)\<lparr>pk_ts := word_of_int u\<rparr>) (sp # sps) (frame_times F em (sp # sps))"
    unfolding ft using IH new by (simp add: Let_def)
  moreover have "sorted (frame_times F em (sp # sps))" unfolding ft using IH fs by simp
  moreover have "\<forall>u\<in>set (frame_times F em (sp # sps)). rt_last (em_timeline em) \<le> u" if "em_have_frame em"
    unfolding ft using IH fs that by (auto intro: order_trans)
  moreover have "successively (\<lambda>(sp, u) (sp', u'). pk_ts (sp_pkt sp) = pk_ts (sp_pkt sp') \<longrightarrow> u = u') (zip (sp # sps) (frame_times F em (sp # sps)))"
    unfolding ft using IH fs by (cases sps) (auto simp: Let_def)
  moreover have "length (frame_times F em (sp # sps)) = length (sp # sps)" unfolding ft using IH by simp
  ultimately show ?case using fs by (auto simp: ft)
qed simp

text \<open>The extended sequence numbers are the true ones, up to a constant.\<close>

fun near :: "int \<Rightarrow> int list \<Rightarrow> bool" where
  "near m [] \<longleftrightarrow> True"
| "near m (t # ts) \<longleftrightarrow> - (2 ^ 15) \<le> t - m \<and> t - m < 2 ^ 15 \<and> near (max m t) ts"

lemma sint_diff_word:
  assumes "- (2 ^ 15) \<le> t - m" and "t - m < 2 ^ 15"
  shows "sint (word_of_int t - word_of_int m :: 16 word) = t - m"
proof -
  have "sint (word_of_int t - word_of_int m :: 16 word) = signed_take_bit 15 (t - m)"
    by (simp add: sint_sbintrunc' flip: of_int_diff) 
  also have "\<dots> = t - m" using assms by (intro signed_take_bit_int_eq_self) simp_all
  finally show ?thesis .
qed

lemma assign_exts_true:
  assumes "near m (map fst arr)" and "\<forall>(t, recv, p)\<in>set arr. pk_seq p = word_of_int t \<and> \<bar>t + c\<bar> \<le> 2 ^ 62" and "\<bar>m + c\<bar> \<le> 2 ^ 62"
  shows "assign_exts (requeue b True (word_of_int m) (m + c) em) (map snd arr) =
    map (\<lambda>(t, recv, p). \<lparr>sp_ext = t + c, sp_recv = recv, sp_pkt = p\<rparr>) arr"
  using assms
proof (induction arr arbitrary: m)
  case (Cons a arr)
  obtain t recv p where a: "a = (t, recv, p)" by (cases a)
  have p: "pk_seq p = word_of_int t" and b: "\<bar>t + c\<bar> \<le> 2 ^ 62" and n: "- (2 ^ 15) \<le> t - m" "t - m < 2 ^ 15"
    using Cons.prems by (simp_all add: a)
  have d: "sint (pk_seq p - word_of_int m) = t - m" unfolding p by (rule sint_diff_word[OF n])
  have "in_i64 (t + c)" using b by (auto simp: in_i64_def min_i64_def max_i64_def)
  then have e: "wrap64 (m + c + (t - m)) = t + c" using wrap64_id by (simp add: algebra_simps)
  have ex: "extend_seq (pk_seq p) (requeue b True (word_of_int m) (m + c) em)
      = (t + c, requeue b True (word_of_int (max m t)) (max m t + c) em)"
  proof (cases "t - m > 0")
    case True
    then have "max m t = t" by simp
    then show ?thesis using d e p True by (cases em) (simp add: extend_seq_def requeue_def Let_def)
  next
    case False
    then have "max m t = m" by simp
    then show ?thesis using d e p False by (cases em) (simp add: extend_seq_def requeue_def Let_def)
  qed
  have "\<bar>max m t + c\<bar> \<le> 2 ^ 62" using b Cons.prems(3) by (simp add: max_def)
  with Cons.IH[of "max m t"] Cons.prems ex show ?case by (simp add: a)
qed simp

lemma in_order_shift:
  assumes "\<And>x. key' (f x) = key x + (c :: int)"
  shows "in_order key' (map f xs) = map f (in_order key xs)"
proof -
  have "firsts (key' \<circ> f) xs = firsts key xs" by (rule firsts_cong) (simp add: assms)
  moreover have "sort_key key' (map f ys) = map f (sort_key key ys)" for ys
  proof (rule properties_for_sort_key)
    show "mset (map f (sort_key key ys)) = mset (map f ys)" by simp
    have "map key' (map f zs) = map (\<lambda>x. key x + c) zs" for zs by (simp add: assms)
    then show "sorted (map key' (map f (sort_key key ys)))"
      using sorted_sort_key[of key ys] by (simp only: sorted_map add_le_cancel_right)
    show "filter (\<lambda>x. key' k = key' x) (map f (sort_key key ys)) = filter (\<lambda>x. key' k = key' x) (map f ys)"
      if "k \<in> set (map f (sort_key key ys))" for k
    proof -
      have eq: "((\<lambda>x. key' k = key' x) \<circ> f) = (\<lambda>x. key x = key' k - c)" by (auto simp: assms fun_eq_iff)
      show ?thesis unfolding filter_map eq by (simp add: sort_key_stable)
    qed
  qed
  ultimately show ?thesis by (simp add: in_order_def firsts_map)
qed

lemma timely_shift:
  assumes "\<And>x. key' (f x) = key x + (c :: int)"
  shows "timely key' W (map f us) (map f xs) = timely key W us xs"
proof (induction xs arbitrary: us)
  case (Cons x xs)
  have "key' ` set (map f us) = (\<lambda>x. key x + c) ` set us" by (simp add: image_image assms)
  then have "(key' (f x) \<in> key' ` set (map f us)) = (key x \<in> key ` set us)" by (auto simp: assms)
  moreover have "length (filter (\<lambda>y. key' (f x) < key' y) (map f us)) = length (filter (\<lambda>y. key x < key y) us)"
    by (simp add: filter_map comp_def assms)
  ultimately show ?case using Cons.IH[of "us @ [x]"] by simp
qed simp


text \<open>
  The conditions of the sender and the network: the arrivals \<open>(t, recv, p)\<close> carry the low 16 bits
  of their true number \<open>t\<close>, stay within half the number space of the newest arrival, and are late by
  at most the window.
\<close>

definition arrivals_ok :: "(int \<times> 64 word \<times> rtp_packet) list \<Rightarrow> bool" where
  "arrivals_ok arr \<longleftrightarrow> list_all (\<lambda>(t, recv, p). pk_seq p = word_of_int t \<and> \<bar>t\<bar> \<le> 2 ^ 60) arr \<and>
     (arr \<noteq> [] \<longrightarrow> near (fst (hd arr)) (map fst arr)) \<and> timely fst reorder_window_packets [] arr"

lemma near_take: "near m xs \<Longrightarrow> near m (take n xs)"
proof (induction xs arbitrary: m n)
  case (Cons x xs)
  then show ?case by (cases n) auto
qed simp

lemma arrivals_ok_take: "arrivals_ok arr \<Longrightarrow> arrivals_ok (take n arr)"
proof -
  assume ok: "arrivals_ok arr"
  have "near (fst (hd (take n arr))) (map fst (take n arr))" if "take n arr \<noteq> []"
  proof -
    have "hd (take n arr) = hd arr" using that by (cases arr; cases n) auto
    then show ?thesis using ok that near_take[of "fst (hd arr)" "map fst arr" n] by (auto simp: arrivals_ok_def take_map)
  qed
  then show ?thesis using ok timely_take by (auto simp: arrivals_ok_def list_all_iff dest: in_set_takeD)
qed

lemma arrivals_exts:
  assumes "arrivals_ok arr"
  shows "\<exists>c. assign_exts (new_ordered_emitter w rate) (map snd arr) =
      map (\<lambda>(t, recv, p). \<lparr>sp_ext = t + c, sp_recv = recv, sp_pkt = p\<rparr>) arr \<and> \<bar>c\<bar> \<le> 2 ^ 61"
proof (cases arr)
  case Nil
  then show ?thesis by (intro exI[of _ 0]) simp
next
  case (Cons a rest)
  obtain t recv p where a: "a = (t, recv, p)" by (cases a)
  have p: "pk_seq p = word_of_int t" and t: "\<bar>t\<bar> \<le> 2 ^ 60" using assms by (simp_all add: arrivals_ok_def Cons a)
  define c where "c = uint (pk_seq p) - t"
  have "0 \<le> uint (pk_seq p)" "uint (pk_seq p) < 2 ^ 16" using uint_bounded[of "pk_seq p"] by simp_all
  then have "\<bar>c\<bar> \<le> 2 ^ 60 + 2 ^ 16" using t unfolding c_def abs_le_iff by linarith
  then have c: "\<bar>c\<bar> \<le> 2 ^ 61" by simp
  let ?em = "new_ordered_emitter w rate"
  have ex: "extend_seq (pk_seq p) ?em = (t + c, requeue [] True (word_of_int t) (t + c) ?em)"
    unfolding c_def by (simp add: extend_seq_def requeue_def new_ordered_emitter_def flip: p)
  have "near t (map fst rest)" using assms by (simp add: arrivals_ok_def Cons a)
  moreover have "\<forall>(t, recv, p)\<in>set rest. pk_seq p = word_of_int t \<and> \<bar>t + c\<bar> \<le> 2 ^ 62"
    using assms c by (fastforce simp: arrivals_ok_def Cons list_all_iff abs_le_iff)
  moreover have "\<bar>t + c\<bar> \<le> 2 ^ 62" using t c by (simp add: abs_le_iff)
  ultimately have "assign_exts (requeue [] True (word_of_int t) (t + c) ?em) (map snd rest) =
      map (\<lambda>(t, recv, p). \<lparr>sp_ext = t + c, sp_recv = recv, sp_pkt = p\<rparr>) rest" by (rule assign_exts_true)
  then show ?thesis using c by (intro exI[of _ c]) (simp add: Cons a ex)
qed

lemma reordered_ordered:
  assumes "arrivals_ok arr"
  shows "\<exists>us em. length us = length (in_order fst arr) \<and> sorted us \<and>
    successively (\<lambda>(p, u) (q, v). pk_ts p = pk_ts q \<longrightarrow> u = v) (zip (map (snd \<circ> snd) (in_order fst arr)) us) \<and>
    reordered wr F (map snd arr) (new_ordered_emitter w rate) =
      (fst (feed wr (map2 (\<lambda>p u. p\<lparr>pk_ts := word_of_int u\<rparr>) (map (snd \<circ> snd) (in_order fst arr)) us) w), em) \<and>
    em_sink em = snd (feed wr (map2 (\<lambda>p u. p\<lparr>pk_ts := word_of_int u\<rparr>) (map (snd \<circ> snd) (in_order fst arr)) us) w) \<and>
    (fst (feed wr (map2 (\<lambda>p u. p\<lparr>pk_ts := word_of_int u\<rparr>) (map (snd \<circ> snd) (in_order fst arr)) us) w) = Inr () \<longrightarrow>
      em_packets em = length (in_order fst arr))"
proof -
  let ?em = "new_ordered_emitter w rate"
  obtain c where c: "assign_exts ?em (map snd arr) = map (\<lambda>(t, recv, p). \<lparr>sp_ext = t + c, sp_recv = recv, sp_pkt = p\<rparr>) arr"
    (is "_ = map ?g arr") and bc: "\<bar>c\<bar> \<le> 2 ^ 61" using arrivals_exts[OF assms, where w = w and rate = rate] by (elim exE conjE) rule
  have key: "sp_ext (?g x) = fst x + c" for x by (cases x) auto
  have t: "timely sp_ext reorder_window_packets [] (assign_exts ?em (map snd arr))"
    unfolding c using timely_shift[of sp_ext ?g fst c reorder_window_packets "[]" arr, OF key] assms
    by (simp add: arrivals_ok_def)
  have ne: "\<forall>sp\<in>set (assign_exts ?em (map snd arr)). sp_ext sp \<noteq> min_i64"
    unfolding c using assms bc by (fastforce simp: arrivals_ok_def list_all_iff min_i64_def abs_le_iff)
  let ?sps = "in_order sp_ext (assign_exts ?em (map snd arr))"
  have sps: "?sps = map ?g (in_order fst arr)" unfolding c by (rule in_order_shift) (rule key)
  let ?us = "frame_times F ?em ?sps" and ?ps = "map (snd \<circ> snd) (in_order fst arr)"
  have ps: "map sp_pkt ?sps = ?ps" unfolding sps by (simp add: case_prod_beta comp_def)
  have inv: "stamp_inv ?em" by (simp add: stamp_inv_def new_ordered_emitter_def)
  note st = stamped_times[OF inv, of F ?sps]
  have len: "length ?us = length ?ps" using st ps by (metis length_map)
  have "stamped F ?em ?sps = map2 (\<lambda>p u. p\<lparr>pk_ts := word_of_int u\<rparr>) (map sp_pkt ?sps) ?us"
    using st by (simp add: zip_map1 comp_def case_prod_beta)
  then have stamp: "stamped F ?em ?sps = map2 (\<lambda>p u. p\<lparr>pk_ts := word_of_int u\<rparr>) ?ps ?us" unfolding ps .
  have "successively (\<lambda>(p, u) (q, v). pk_ts p = pk_ts q \<longrightarrow> u = v) (zip (map sp_pkt ?sps) ?us)"
    using st by (simp add: zip_map1 successively_map case_prod_beta comp_def)
  then have frames: "successively (\<lambda>(p, u) (q, v). pk_ts p = pk_ts q \<longrightarrow> u = v) (zip ?ps ?us)" unfolding ps .
  let ?x = "feed wr (map2 (\<lambda>p u. p\<lparr>pk_ts := word_of_int u\<rparr>) ?ps ?us) w"
  have n: "length ?sps = length ?ps" unfolding sps by simp
  obtain em where em: "reordered wr F (map snd arr) ?em = (fst ?x, em)" "em_sink em = snd ?x"
      "fst ?x = Inr () \<longrightarrow> em_packets em = length ?ps"
    using reordered_feed[OF t ne, of wr F] unfolding stamp n by blast
  have "sorted ?us" using st by simp
  then show ?thesis using len frames em by auto
qed

text \<open>
  C13: the emitter restores the order.  Whatever the arrivals of a stream are, as long as none is late
  by more than the window, the writer is given exactly the first copy of every packet in the order of
  the sender, with new times that never go back and that the packets of a frame share; the run
  answers what the writer answers.
\<close>

theorem emitter_restores_order:
  assumes "arrivals_ok arr"
  shows "\<exists>us em. let ps = map (snd \<circ> snd) (in_order fst arr);
      written = feed wr (map2 (\<lambda>p u. p\<lparr>pk_ts := word_of_int u\<rparr>) ps us) w
    in length us = length ps \<and> sorted us \<and>
      successively (\<lambda>(p, u) (q, v). pk_ts p = pk_ts q \<longrightarrow> u = v) (zip ps us) \<and>
      reordered wr F (map snd arr) (new_ordered_emitter w rate) = (fst written, em) \<and> em_sink em = snd written \<and>
      (fst written = Inr () \<longrightarrow> em_packets em = length ps)"
  using reordered_ordered[OF assms, where wr = wr and F = F and w = w and rate = rate] unfolding Let_def by auto

subsection \<open>From a cut log to the elementary stream\<close>

fun take_records :: "(rtp_packet \<Rightarrow> 'w \<Rightarrow> ('e, unit) res \<times> 'w) \<Rightarrow> 'f round_ops \<Rightarrow> (byte list \<Rightarrow> rtp_packet option)
    \<Rightarrow> rtp_record list \<Rightarrow> 'w emitter \<Rightarrow> write_result \<Rightarrow> ('e elem_err, write_result) res \<times> 'w emitter" where
  "take_records wr F parse [] em res = (Inr res, em)"
| "take_records wr F parse (r # rs) em res = (case take_record wr F parse r em res of
     (Inl e, em) \<Rightarrow> (Inl e, em)
   | (Inr res, em) \<Rightarrow> take_records wr F parse rs em res)"

lemma elementary_loop_records:
  assumes "read_all rd = (rs, Eof, rd')"
  shows "elementary_loop wr F parse rd em res = (case take_records wr F parse rs em res of
     (Inl e, em) \<Rightarrow> (Inl e, em) | (Inr res, em) \<Rightarrow> (Inr (rd', res), em))"
  using assms
proof (induction rs arbitrary: rd em res)
  case Nil
  then have "next_record rd = (Inl Eof, rd')"
    by (subst (asm) read_all.simps) (auto simp: Let_def split: prod.splits sum.splits)
  then show ?case by (subst elementary_loop.simps) simp
next
  case (Cons r rs)
  then obtain rd1 where n: "next_record rd = (Inr r, rd1)" and "read_all rd1 = (rs, Eof, rd')"
    by (subst (asm) read_all.simps) (auto simp: Let_def split: prod.splits sum.splits)
  from Cons.IH[OF this(2)] show ?case
    by (subst elementary_loop.simps) (auto simp: n split: prod.splits sum.splits)
qed

definition rtp_arrivals :: "(byte list \<Rightarrow> rtp_packet option) \<Rightarrow> rtp_record list \<Rightarrow> (64 word \<times> rtp_packet) list" where
  "rtp_arrivals parse rs = map (\<lambda>r. (rec_recv r, the (parse (rec_wire r)))) (filter (\<lambda>r. rec_kind r = kind_rtp) rs)"

definition rtp_times :: "rtp_record list \<Rightarrow> 64 word list" where
  "rtp_times rs = map rec_recv (filter (\<lambda>r. rec_kind r = kind_rtp) rs)"

fun log_result :: "rtp_record list \<Rightarrow> write_result \<Rightarrow> write_result" where
  "log_result [] res = res"
| "log_result (r # rs) res = log_result rs (if rec_kind r = kind_rtcp then res\<lparr>wr_rtcp := wr_rtcp res + 1\<rparr>
     else if rec_kind r = kind_rtp then observe_recv (rec_recv r) res else res)"

lemma kinds_differ [simp]: "kind_rtcp \<noteq> kind_rtp" "kind_rtp \<noteq> kind_rtcp"
  by (simp_all add: kind_rtp_def kind_rtcp_def)

lemma take_records_push:
  assumes "\<forall>r\<in>set rs. rec_kind r = kind_rtp \<longrightarrow> parse (rec_wire r) \<noteq> None"
  shows "take_records wr F parse rs em res = (case push_all wr F (rtp_arrivals parse rs) em of
     (Inl e, em) \<Rightarrow> (Inl (WriteRtp e), em) | (Inr _, em) \<Rightarrow> (Inr (log_result rs res), em))"
  using assms
proof (induction rs arbitrary: em res)
  case Nil
  then show ?case by (simp add: rtp_arrivals_def)
next
  case (Cons r rs)
  have rest: "\<forall>r\<in>set rs. rec_kind r = kind_rtp \<longrightarrow> parse (rec_wire r) \<noteq> None" using Cons.prems by simp
  show ?case
  proof (cases "rec_kind r = kind_rtp")
    case True
    then obtain p where p: "parse (rec_wire r) = Some p" using Cons.prems by auto
    have "rtp_arrivals parse (r # rs) = (rec_recv r, p) # rtp_arrivals parse rs"
      "log_result (r # rs) res = log_result rs (observe_recv (rec_recv r) res)" for res
      using True p by (simp_all add: rtp_arrivals_def)
    then show ?thesis using True p Cons.IH[OF rest]
      by (auto simp: take_record_def split: prod.splits sum.splits)
  next
    case False
    then have a: "rtp_arrivals parse (r # rs) = rtp_arrivals parse rs" by (simp add: rtp_arrivals_def)
    let ?res = "if rec_kind r = kind_rtcp then res\<lparr>wr_rtcp := wr_rtcp res + 1\<rparr> else res"
    have t: "take_records wr F parse (r # rs) em res = take_records wr F parse rs em ?res"
      using False by (simp add: take_record_def)
    have l: "log_result (r # rs) res = log_result rs ?res" using False by simp
    show ?thesis unfolding a t l by (rule Cons.IH[OF rest])
  qed
qed

lemma observe_recv_simps [simp]:
  "wr_rtcp (observe_recv t res) = wr_rtcp res" "wr_rtp (observe_recv t res) = wr_rtp res"
  "wr_truncated (observe_recv t res) = wr_truncated res"
  by (simp_all add: observe_recv_def Let_def)

lemma log_result_counts:
  "wr_rtcp (log_result rs res) = wr_rtcp res + length (filter (\<lambda>r. rec_kind r = kind_rtcp) rs) \<and>
   wr_rtp (log_result rs res) = wr_rtp res"
  by (induction rs arbitrary: res) auto

text \<open>The first and the last receive time, when no time is zero.\<close>

lemma rtp_times_simps [simp]:
  "rtp_times [] = []"
  "rtp_times (r # rs) = (if rec_kind r = kind_rtp then rec_recv r # rtp_times rs else rtp_times rs)"
  by (simp_all add: rtp_times_def)

lemma log_result_last: "wr_last (log_result rs res) = Max (insert (wr_last res) (set (rtp_times rs)))"
proof (induction rs arbitrary: res)
  case (Cons r rs)
  have "Max (insert (max t l) S) = Max (insert l (insert t S))" if "finite S" for t l :: "64 word" and S
    using that by (cases "S = {}") (simp_all add: max.commute max.left_commute)
  moreover have "wr_last (observe_recv t res) = max t (wr_last res)" for t
    by (auto simp: observe_recv_def Let_def max_def)
  ultimately show ?case using Cons.IH by simp
qed simp

lemma log_result_first_set:
  assumes "0 \<notin> set (rtp_times rs)" and "wr_first res \<noteq> 0"
  shows "wr_first (log_result rs res) = Min (insert (wr_first res) (set (rtp_times rs)))"
  using assms
proof (induction rs arbitrary: res)
  case (Cons r rs)
  have eq: "Min (insert (min t l) S) = Min (insert l (insert t S))" if "finite S" for t l :: "64 word" and S
    using that by (cases "S = {}") (simp_all add: min.commute min.left_commute)
  show ?case
  proof (cases "rec_kind r = kind_rtp")
    case True
    have f: "wr_first (observe_recv (rec_recv r) res) = min (rec_recv r) (wr_first res)"
      using Cons.prems(2) by (auto simp: observe_recv_def Let_def min_def)
    then have nz: "wr_first (observe_recv (rec_recv r) res) \<noteq> 0" using Cons.prems True by (auto simp: min_def)
    show ?thesis using Cons.IH[OF _ nz] Cons.prems True unfolding f by (simp add: eq)
  qed (use Cons in simp)
qed simp

lemma log_result_first:
  assumes "0 \<notin> set (rtp_times rs)" and "wr_first res = 0"
  shows "wr_first (log_result rs res) = (if rtp_times rs = [] then 0 else Min (set (rtp_times rs)))"
  using assms
proof (induction rs arbitrary: res)
  case (Cons r rs)
  show ?case
  proof (cases "rec_kind r = kind_rtp")
    case True
    have f: "wr_first (observe_recv (rec_recv r) res) = rec_recv r"
      using Cons.prems(2) by (simp add: observe_recv_def Let_def)
    then show ?thesis using log_result_first_set[of rs "observe_recv (rec_recv r) res"] Cons.prems True by simp
  qed (use Cons in simp)
qed simp

fun whole_records :: "bool \<Rightarrow> nat \<Rightarrow> rtp_record list \<Rightarrow> rtp_record list" where
  "whole_records crc n [] = []"
| "whole_records crc n (r # rs) = (if length (enc_record crc r) \<le> n
     then r # whole_records crc (n - length (enc_record crc r)) rs else [])"

lemma whole_records_take:
  assumes "m \<le> length rs" and "length (enc_log crc (take m rs)) \<le> n"
    and "m < length rs \<longrightarrow> n < length (enc_log crc (take (Suc m) rs))"
  shows "whole_records crc n rs = take m rs"
  using assms
proof (induction rs arbitrary: m n)
  case (Cons r rs)
  have e: "enc_log crc (r # xs) = enc_record crc r @ enc_log crc xs" for xs by (simp add: enc_log_def)
  show ?case
  proof (cases m)
    case 0
    then show ?thesis using Cons.prems by (simp add: e) (simp add: enc_log_def)
  next
    case (Suc k)
    have "whole_records crc (n - length (enc_record crc r)) rs = take k rs"
      by (rule Cons.IH) (use Cons.prems Suc e in auto)
    then show ?thesis using Cons.prems Suc by (simp add: e)
  qed
qed simp

lemma whole_records_prefix: "\<exists>m. whole_records crc n rs = take m rs"
proof (induction rs arbitrary: n)
  case (Cons r rs)
  then obtain m where "whole_records crc (n - length (enc_record crc r)) rs = take m rs" by blast
  then show ?case by (cases "length (enc_record crc r) \<le> n") (auto intro: exI[of _ "Suc m"] exI[of _ 0])
qed simp

lemma whole_records_log:
  assumes "\<forall>r\<in>set rs. ok_record r" and "rd_use_crc rd = crc"
  shows "\<exists>rd'. read_all (rd\<lparr>rd_rest := take n (enc_log crc rs)\<rparr>) = (whole_records crc n rs, Eof, rd') \<and>
    rd_truncated rd' = (rd_truncated rd \<or> min n (length (enc_log crc rs)) \<noteq> length (enc_log crc (whole_records crc n rs)))"
proof -
  obtain m rd' where m: "read_all (rd\<lparr>rd_rest := take n (enc_log crc rs)\<rparr>) = (take m rs, Eof, rd')" "m \<le> length rs"
      "length (enc_log crc (take m rs)) \<le> length (take n (enc_log crc rs))"
      "m < length rs \<longrightarrow> length (take n (enc_log crc rs)) < length (enc_log crc (take (Suc m) rs))"
      "rd_truncated rd' = (rd_truncated rd \<or> length (take n (enc_log crc rs)) \<noteq> length (enc_log crc (take m rs)))"
    using read_all_prefix[OF assms take_is_prefix] by blast
  have "length (enc_log crc (take (Suc m) rs)) \<le> length (enc_log crc rs)"
  proof -
    have "enc_log crc rs = enc_log crc (take (Suc m) rs) @ enc_log crc (drop (Suc m) rs)"
      unfolding enc_log_def by (simp flip: concat_append map_append)
    then show ?thesis by simp
  qed
  then have "whole_records crc n rs = take m rs" using m by (intro whole_records_take) auto
  then show ?thesis using m by (auto simp: min.commute)
qed


text \<open>
  What the call answers and leaves once the writer was fed the packets \<open>ps\<close> of the records \<open>whole\<close>.
\<close>

definition elementary_outcome :: "('e, 'w) sink_ops \<Rightarrow> rtp_record list \<Rightarrow> nat \<Rightarrow> bool \<Rightarrow> ('e, unit) res \<times> 'w
    \<Rightarrow> ('e elem_err, write_result) res \<times> 'w option" where
  "elementary_outcome W whole packets cut_short written = (case written of
     (Inl e, w) \<Rightarrow> (Inl (WriteRtp e), Some (snd (so_close W w)))
   | (Inr _, w) \<Rightarrow> (case so_close W w of
       (Inl e, w) \<Rightarrow> (Inl (CloseSink e), Some (snd (so_close W w)))
     | (Inr _, w) \<Rightarrow>
         (Inr \<lparr>wr_rtp = packets, wr_rtcp = length (filter (\<lambda>r. rec_kind r = kind_rtcp) whole),
            wr_first = (if rtp_times whole = [] then 0 else Min (set (rtp_times whole))),
            wr_last = Max (insert 0 (set (rtp_times whole))), wr_truncated = cut_short\<rparr>,
          Some (snd (so_close W w)))))"

lemma cut_log_elementary:
  assumes codec: "new_rtp_writer uc codec rate = Some kind" "so_open W kind = Inr w"
    and header: "unmarshal hdr = Some h" "length hdr < 2 ^ 32" "(flags AND flag_use_crc \<noteq> 0) = crc"
    and records: "\<forall>r\<in>set rs. ok_record r \<and> rec_recv r \<noteq> 0 \<and> (rec_kind r = kind_rtp \<longrightarrow> parse (rec_wire r) \<noteq> None)"
    and arrivals: "map snd arr = rtp_arrivals parse rs" "arrivals_ok arr"
    and cut: "length (enc_header flags hdr) \<le> n"
  shows "\<exists>us. let whole = whole_records crc (n - length (enc_header flags hdr)) rs;
        ps = map (snd \<circ> snd) (in_order fst (take (length (rtp_times whole)) arr));
        written = feed (so_write W) (map2 (\<lambda>p u. p\<lparr>pk_ts := word_of_int u\<rparr>) ps us) w
      in length us = length ps \<and> sorted us \<and>
        successively (\<lambda>(p, u) (q, v). pk_ts p = pk_ts q \<longrightarrow> u = v) (zip ps us) \<and>
        write_elementary W uc F unmarshal parse (take n (enc_header flags hdr @ enc_log crc rs)) codec rate =
          elementary_outcome W whole (length ps)
            (min (n - length (enc_header flags hdr)) (length (enc_log crc rs)) \<noteq> length (enc_log crc whole)) written"
proof -
  let ?n = "n - length (enc_header flags hdr)" and ?rate = "effective_clock_rate uc codec rate"
  define whole where "whole = whole_records crc ?n rs"
  let ?rd = "\<lparr>rd_rest = take ?n (enc_log crc rs), rd_version = 1, rd_header = h, rd_flags = unat flags,
    rd_use_crc = (flags AND flag_use_crc \<noteq> 0), rd_truncated = False\<rparr>"
  let ?res = "\<lparr>wr_rtp = 0, wr_rtcp = 0, wr_first = 0, wr_last = 0, wr_truncated = False\<rparr>"
  have open_ok: "open_reader unmarshal (take n (enc_header flags hdr @ enc_log crc rs)) = Inr ?rd"
    using open_enc_header[where unmarshal = unmarshal and hdr = hdr and h = h and flags = flags and rest = "take ?n (enc_log crc rs)", OF header(1,2)] cut by simp
  have "\<forall>r\<in>set rs. ok_record r" using records by simp
  from whole_records_log[OF this, of ?rd crc ?n] header(3) obtain rd' where rd': "read_all ?rd = (whole, Eof, rd')"
    "rd_truncated rd' = (min ?n (length (enc_log crc rs)) \<noteq> length (enc_log crc whole))"
    by (auto simp: whole_def)
  obtain m where m: "whole = take m rs" using whole_records_prefix[of crc ?n rs] by (auto simp: whole_def)
  have sub: "set whole \<subseteq> set rs" unfolding m by (rule set_take_subset)
  then have parse: "\<forall>r\<in>set whole. rec_kind r = kind_rtp \<longrightarrow> parse (rec_wire r) \<noteq> None" using records by blast
  have times: "0 \<notin> set (rtp_times whole)" using sub records by (auto simp: rtp_times_def)
  define arr' where "arr' = take (length (rtp_times whole)) arr"
  have "rtp_arrivals parse whole = take (length (rtp_times whole)) (rtp_arrivals parse rs)"
  proof -
    have "rs = whole @ drop m rs" unfolding m by simp
    then have "rtp_arrivals parse rs = rtp_arrivals parse whole @ rtp_arrivals parse (drop m rs)"
      unfolding rtp_arrivals_def by (metis filter_append map_append)
    then show ?thesis by (simp add: rtp_arrivals_def rtp_times_def)
  qed
  then have arr: "rtp_arrivals parse whole = map snd arr'" unfolding arr'_def by (simp add: take_map flip: arrivals(1))
  have ok: "arrivals_ok arr'" unfolding arr'_def by (rule arrivals_ok_take[OF arrivals(2)])
  let ?ps = "map (snd \<circ> snd) (in_order fst arr')"
  obtain us em where us: "length us = length (in_order fst arr')" "sorted us"
      "successively (\<lambda>(p, u) (q, v). pk_ts p = pk_ts q \<longrightarrow> u = v) (zip ?ps us)"
    and em: "reordered (so_write W) F (map snd arr') (new_ordered_emitter w ?rate) =
        (fst (feed (so_write W) (map2 (\<lambda>p u. p\<lparr>pk_ts := word_of_int u\<rparr>) ?ps us) w), em)"
      "em_sink em = snd (feed (so_write W) (map2 (\<lambda>p u. p\<lparr>pk_ts := word_of_int u\<rparr>) ?ps us) w)"
      "fst (feed (so_write W) (map2 (\<lambda>p u. p\<lparr>pk_ts := word_of_int u\<rparr>) ?ps us) w) = Inr () \<longrightarrow>
         em_packets em = length (in_order fst arr')"
    using reordered_ordered[OF ok, of "so_write W" F w ?rate] by blast
  let ?x = "feed (so_write W) (map2 (\<lambda>p u. p\<lparr>pk_ts := word_of_int u\<rparr>) ?ps us) w"
  let ?r = "(log_result whole ?res)\<lparr>wr_rtp := length ?ps, wr_truncated := rd_truncated rd'\<rparr>"
  have loop: "elementary_loop (so_write W) F parse ?rd (new_ordered_emitter w ?rate) ?res =
     (case push_all (so_write W) F (map snd arr') (new_ordered_emitter w ?rate) of
        (Inl e, em) \<Rightarrow> (Inl (WriteRtp e), em) | (Inr _, em) \<Rightarrow> (Inr (rd', log_result whole ?res), em))"
    unfolding elementary_loop_records[OF rd'(1)] take_records_push[OF parse] arr
    by (simp split: prod.splits sum.splits)
  have flush_log: "flush_log (so_write W) F parse ?rd (new_ordered_emitter w ?rate) =
      (case fst ?x of Inl e \<Rightarrow> (Inl (WriteRtp e), em) | Inr _ \<Rightarrow> (Inr ?r, em))"
  proof -
    obtain y em1 where p: "push_all (so_write W) F (map snd arr') (new_ordered_emitter w ?rate) = (y, em1)"
      by (cases "push_all (so_write W) F (map snd arr') (new_ordered_emitter w ?rate)")
    obtain z em2 where f: "flush (so_write W) F em1 = (z, em2)" by (cases "flush (so_write W) F em1")
    show ?thesis
    proof (cases y)
      case (Inl e)
      then have "fst ?x = Inl e" "em = em1" using em(1) p unfolding reordered_def by simp_all
      then show ?thesis using loop p Inl by (simp add: flush_log_def)
    next
      case (Inr u)
      then have "fst ?x = z" "em = em2" using em(1) p f unfolding reordered_def by (simp_all split: sum.splits)
      then show ?thesis using loop p f Inr em(3) by (cases z) (simp_all add: flush_log_def)
    qed
  qed
  have r: "?r = \<lparr>wr_rtp = length ?ps, wr_rtcp = length (filter (\<lambda>r. rec_kind r = kind_rtcp) whole),
      wr_first = (if rtp_times whole = [] then 0 else Min (set (rtp_times whole))),
      wr_last = Max (insert 0 (set (rtp_times whole))),
      wr_truncated = (min ?n (length (enc_log crc rs)) \<noteq> length (enc_log crc whole))\<rparr>"
    using log_result_counts[of whole ?res] log_result_last[of whole ?res] log_result_first[OF times, of ?res] rd'(2)
    by (intro write_result.equality) simp_all
  have "write_elementary W uc F unmarshal parse (take n (enc_header flags hdr @ enc_log crc rs)) codec rate =
      (case fst ?x of
         Inl e \<Rightarrow> (Inl (WriteRtp e), Some (snd (so_close W (snd ?x))))
       | Inr _ \<Rightarrow> (case so_close W (snd ?x) of
           (Inl e, w) \<Rightarrow> (Inl (CloseSink e), Some (snd (so_close W w)))
         | (Inr _, w) \<Rightarrow> (Inr ?r, Some (snd (so_close W w)))))"
    unfolding write_elementary_def codec(1) option.case codec(2) sum.case open_ok flush_log
    by (simp add: Let_def em(2) split: prod.splits sum.splits)
  then have "write_elementary W uc F unmarshal parse (take n (enc_header flags hdr @ enc_log crc rs)) codec rate =
      elementary_outcome W whole (length ?ps) (min ?n (length (enc_log crc rs)) \<noteq> length (enc_log crc whole)) ?x"
    unfolding r elementary_outcome_def
    by (cases ?x; cases "fst ?x"; cases "so_close W (snd ?x)"; cases "fst (so_close W (snd ?x))") simp_all
  then show ?thesis using us unfolding Let_def whole_def[symmetric] arr'_def[symmetric]
    by (intro exI[of _ us] conjI) simp_all
qed


subsection \<open>Concrete instances\<close>

definition ex_round :: "int round_ops" where
  "ex_round = \<lparr>fl_int = id, fl_lit = (div), fl_add = (+), fl_sub = (-), fl_mul = (*), fl_div = (div), fl_neg = uminus,
     fl_lt = (<), fl_eq = (=), fl_min = min, fl_max = max, fl_uint64 = word_of_int, fl_round = id\<rparr>"

definition ex_pkt :: "nat \<Rightarrow> nat \<Rightarrow> bool \<Rightarrow> byte list \<Rightarrow> rtp_packet" where
  "ex_pkt s t m payload = \<lparr>pk_ssrc = 7, pk_seq = of_nat s, pk_ts = of_nat t, pk_marker = m, pk_payload = payload\<rparr>"

definition ex_arrivals :: "(int \<times> 64 word \<times> rtp_packet) list" where
  "ex_arrivals = [(0, 100, ex_pkt 0 10 False [1, 0]), (2, 200, ex_pkt 2 20 True [1, 3]),
     (1, 300, ex_pkt 1 10 True [0, 5]), (2, 400, ex_pkt 2 20 True [1, 3])]"

definition ex_parse :: "byte list \<Rightarrow> rtp_packet option" where
  "ex_parse bs = (case bs of [s, t, m, b, d] \<Rightarrow> Some (ex_pkt (unat s) (unat t) (m = 1) [b, d]) | _ \<Rightarrow> None)"

definition ex_records :: "rtp_record list" where
  "ex_records = [ex_rec 100 [0, 10, 0, 1, 0], ex_rec 200 [2, 20, 1, 1, 3], ex_rec 300 [1, 10, 1, 0, 5], ex_rec 400 [2, 20, 1, 1, 3]]"

definition ex_keep :: "rtp_packet \<Rightarrow> rtp_packet list \<Rightarrow> (unit, unit) res \<times> rtp_packet list" where
  "ex_keep p ps = (Inr (), ps @ [p])"

definition ex_sink :: "(unit, rtp_packet list) sink_ops" where
  "ex_sink = \<lparr>so_open = (\<lambda>_. Inr []), so_write = ex_keep, so_close = (\<lambda>ps. (Inr (), ps))\<rparr>"

lemma feed_keep [simp]: "feed ex_keep ps w = (Inr (), w @ ps)"
  by (induction ps arbitrary: w) (simp_all add: ex_keep_def)

lemma ex_arrivals_ok: "arrivals_ok ex_arrivals" "map snd ex_arrivals = rtp_arrivals ex_parse ex_records"
  "map (snd \<circ> snd) (in_order fst ex_arrivals) = [ex_pkt 0 10 False [1, 0], ex_pkt 1 10 True [0, 5], ex_pkt 2 20 True [1, 3]]"
proof -
  show "arrivals_ok ex_arrivals"
    by (simp add: arrivals_ok_def ex_arrivals_def ex_pkt_def reorder_window_packets_def)
  show "map snd ex_arrivals = rtp_arrivals ex_parse ex_records"
    by (simp add: ex_arrivals_def rtp_arrivals_def ex_parse_def ex_records_def ex_pkt_def)
  show "map (snd \<circ> snd) (in_order fst ex_arrivals) = [ex_pkt 0 10 False [1, 0], ex_pkt 1 10 True [0, 5], ex_pkt 2 20 True [1, 3]]"
    by (simp add: in_order_def ex_arrivals_def)
qed

lemma ex_records_ok: "\<forall>r\<in>set ex_records. ok_record r \<and> rec_recv r \<noteq> 0 \<and> (rec_kind r = kind_rtp \<longrightarrow> ex_parse (rec_wire r) \<noteq> None)"
  by (simp add: ex_records_def ex_parse_def ok_record_def ok_kind_def)

lemma ex_whole:
  "whole_records False (1000 - length (enc_header 0 [7])) ex_records = ex_records"
  "(min (1000 - length (enc_header 0 [7])) (length (enc_log False ex_records)) \<noteq> length (enc_log False ex_records)) = False"
  "rtp_times ex_records = [100, 200, 300, 400]"
  by (simp_all add: ex_records_def enc_header_length length_enc_record enc_log_def)

lemma ex_take: "take (length [100, 200, 300, 400 :: 64 word]) ex_arrivals = ex_arrivals"
  by (simp add: ex_arrivals_def)

lemma emitter_restores_order_witness:
  "\<exists>(us :: int list) em. length us = 3 \<and> sorted us \<and> us ! 0 = us ! 1 \<and>
     reordered ex_keep ex_round (map snd ex_arrivals) (new_ordered_emitter [] 90000) = (Inr (), em) \<and>
     map pk_seq (em_sink em) = [0, 1, 2]"
proof -
  let ?ps = "[ex_pkt 0 10 False [1, 0], ex_pkt 1 10 True [0, 5], ex_pkt 2 20 True [1, 3]]"
  obtain us em where r: "length us = length ?ps" "sorted us"
    "successively (\<lambda>(p, u) (q, v). pk_ts p = pk_ts q \<longrightarrow> u = v) (zip ?ps us)"
    "reordered ex_keep ex_round (map snd ex_arrivals) (new_ordered_emitter [] 90000) = (Inr (), em)"
    "em_sink em = map2 (\<lambda>p u. p\<lparr>pk_ts := word_of_int u\<rparr>) ?ps us"
    using emitter_restores_order[OF ex_arrivals_ok(1), where wr = ex_keep and F = ex_round and w = "[]" and rate = 90000]
    unfolding ex_arrivals_ok(3) Let_def feed_keep fst_conv snd_conv append_Nil by blast
  obtain a b c where us: "us = [a, b, c]" using r(1) by (auto simp: length_Suc_conv)
  have "us ! 0 = us ! 1" using r(3) by (simp add: us ex_pkt_def)
  moreover have "map pk_seq (em_sink em) = [0, 1, 2]" unfolding r(5) us by (simp add: ex_pkt_def)
  moreover have "length us = 3" using us by simp
  ultimately have "length us = 3 \<and> sorted us \<and> us ! 0 = us ! 1 \<and>
     reordered ex_keep ex_round (map snd ex_arrivals) (new_ordered_emitter [] 90000) = (Inr (), em) \<and>
     map pk_seq (em_sink em) = [0, 1, 2]" using r(2,4) by (intro conjI)
  then show ?thesis by (rule exI[of _ us, OF exI[of _ em]])
qed


end
