(* ===== verification/Ivf.thy ===== *)
theory Ivf
  imports Depacket
begin

text \<open>
  The recorder's own IVF writer for VP8 and VP9 video (\<open>pkg/core/depacket/ivf_clock_writer.go\<close>), a
  reader of the format, and the way of a recorded video stream from its log to the file.  The
  payload parsers of pion/rtp are arguments; every call on the file may fail.
\<close>

subsection \<open>Files\<close>

text \<open>
  An open file with the number of calls made on it.  \<open>flt n = Some k\<close> means that call \<open>n\<close> fails, and that
  a write then leaves \<open>k\<close> of its bytes.
\<close>

record disk =
  dk_bytes :: "byte list"
  dk_calls :: nat

definition file_call :: "(nat \<Rightarrow> nat option) \<Rightarrow> disk \<Rightarrow> bool \<times> disk" where
  "file_call flt d = (flt (dk_calls d) = None, d\<lparr>dk_calls := dk_calls d + 1\<rparr>)"

definition patch :: "nat \<Rightarrow> byte list \<Rightarrow> byte list \<Rightarrow> byte list" where
  "patch off bs file = take off file @ bs @ drop (off + length bs) file"

definition file_write :: "(nat \<Rightarrow> nat option) \<Rightarrow> nat \<Rightarrow> byte list \<Rightarrow> disk \<Rightarrow> bool \<times> disk" where
  "file_write flt off bs d = (case flt (dk_calls d) of
     None \<Rightarrow> (True, d\<lparr>dk_bytes := patch off bs (dk_bytes d), dk_calls := dk_calls d + 1\<rparr>)
   | Some k \<Rightarrow> (False, d\<lparr>dk_bytes := patch off (take k bs) (dk_bytes d), dk_calls := dk_calls d + 1\<rparr>))"

subsection \<open>The writer\<close>

datatype ivf_err = UnsupportedIvfCodec | ZeroClockRate | FileError | IvfClosed | BadPayload

text \<open>
  The third-party payload parsers: of VP8 the payload and the start bit, of VP9 the payload, the
  inter-picture bit and the start-of-frame bit.
\<close>

record vpx_parsers =
  vp8_unmarshal :: "byte list \<Rightarrow> (byte list \<times> 8 word) option"
  vp9_unmarshal :: "byte list \<Rightarrow> (byte list \<times> bool \<times> bool) option"

record ivf_writer =
  iv_open :: bool
  iv_disk :: disk
  iv_codec :: string
  iv_rate :: "32 word"
  iv_count :: "32 word"
  iv_first :: "32 word"
  iv_first_set :: bool
  iv_key :: bool
  iv_frame :: "byte list"

definition ivf_header :: "string \<Rightarrow> 32 word \<Rightarrow> byte list" where
  "ivf_header fourcc rate = ascii ''DKIF'' @ le 2 0 @ le 2 32 @ ascii fourcc @ le 2 640 @ le 2 480
     @ le 4 (unat rate) @ le 4 1 @ le 4 0 @ le 4 0"

definition new_ivf_clock_writer :: "(nat \<Rightarrow> nat option) \<Rightarrow> unicode \<Rightarrow> string \<Rightarrow> 32 word \<Rightarrow> (ivf_err, ivf_writer) res" where
  "new_ivf_clock_writer flt uc codec rate =
     (let lc = lower_codec uc codec; fourcc = (if lc = ''vp8'' then Some ''VP80'' else if lc = ''vp9'' then Some ''VP90'' else None)
      in case fourcc of None \<Rightarrow> Inl UnsupportedIvfCodec
       | Some fourcc \<Rightarrow>
         if rate = 0 then Inl ZeroClockRate
         else let (ok, d) = file_call flt \<lparr>dk_bytes = [], dk_calls = 0\<rparr> in
           if \<not> ok then Inl FileError
           else let (ok, d) = file_write flt 0 (ivf_header fourcc rate) d in
             if \<not> ok then Inl FileError
             else Inr \<lparr>iv_open = True, iv_disk = d, iv_codec = codec, iv_rate = rate, iv_count = 0, iv_first = 0,
                       iv_first_set = False, iv_key = False, iv_frame = []\<rparr>)"

text \<open>
  What one packet adds to the frame that is being collected: \<open>None\<close> when the packet is skipped.  The
  buffer is \<open>nil\<close> exactly when it is empty, since only non-empty payloads start one.
\<close>

definition collect_vp8 :: "vpx_parsers \<Rightarrow> byte list \<Rightarrow> ivf_writer \<Rightarrow> (ivf_err, byte list option) res" where
  "collect_vp8 V payload iv = (case vp8_unmarshal V payload of
     None \<Rightarrow> Inl BadPayload
   | Some (bs, s) \<Rightarrow>
       if bs = [] then Inr None
       else let is_key = (bs ! 0 AND 1 = 0) in
         if \<not> iv_key iv \<and> \<not> is_key then Inr None
         else if iv_frame iv = [] \<and> s \<noteq> 1 then Inr None
         else Inr (Some bs))"

definition collect_vp9 :: "vpx_parsers \<Rightarrow> byte list \<Rightarrow> ivf_writer \<Rightarrow> (ivf_err, byte list option) res" where
  "collect_vp9 V payload iv = (case vp9_unmarshal V payload of
     None \<Rightarrow> Inl BadPayload
   | Some (bs, p, b) \<Rightarrow>
       if \<not> iv_key iv \<and> p then Inr None
       else if iv_frame iv = [] \<and> \<not> b then Inr None
       else Inr (Some bs))"

definition collect_payload :: "vpx_parsers \<Rightarrow> unicode \<Rightarrow> byte list \<Rightarrow> ivf_writer \<Rightarrow> (ivf_err, byte list option) res" where
  "collect_payload V uc payload iv =
     (let lc = lower_codec uc (iv_codec iv) in
      if lc = ''vp8'' then collect_vp8 V payload iv
      else if lc = ''vp9'' then collect_vp9 V payload iv
      else Inl UnsupportedIvfCodec)"

definition write_frame :: "(nat \<Rightarrow> nat option) \<Rightarrow> 64 word \<Rightarrow> ivf_writer \<Rightarrow> (ivf_err, unit) res \<times> ivf_writer" where
  "write_frame flt rel iv =
     (let (ok, d) = file_write flt (length (dk_bytes (iv_disk iv))) (le 4 (u32 (length (iv_frame iv))) @ le 8 (unat rel)) (iv_disk iv) in
      if \<not> ok then (Inl FileError, iv\<lparr>iv_disk := d\<rparr>)
      else let (ok, d) = file_write flt (length (dk_bytes d)) (iv_frame iv) d in
        if \<not> ok then (Inl FileError, iv\<lparr>iv_disk := d\<rparr>)
        else (Inr (), iv\<lparr>iv_disk := d, iv_count := iv_count iv + 1, iv_frame := []\<rparr>))"

definition ivf_write_rtp :: "(nat \<Rightarrow> nat option) \<Rightarrow> vpx_parsers \<Rightarrow> unicode \<Rightarrow> rtp_packet \<Rightarrow> ivf_writer
    \<Rightarrow> (ivf_err, unit) res \<times> ivf_writer" where
  "ivf_write_rtp flt V uc p iv =
     (if \<not> iv_open iv then (Inl IvfClosed, iv)
      else if pk_payload p = [] then (Inr (), iv)
      else
        let iv = (if \<not> iv_first_set iv then iv\<lparr>iv_first := pk_ts p, iv_first_set := True\<rparr> else iv);
            rel = (ucast (pk_ts p - iv_first iv) :: 64 word)
        in (case collect_payload V uc (pk_payload p) iv of
              Inl e \<Rightarrow> (Inl e, iv)
            | Inr None \<Rightarrow> (Inr (), iv)
            | Inr (Some bs) \<Rightarrow>
                let iv = iv\<lparr>iv_key := True, iv_frame := iv_frame iv @ bs\<rparr> in
                if \<not> pk_marker p \<or> iv_frame iv = [] then (Inr (), iv)
                else write_frame flt rel iv))"

definition ivf_close :: "(nat \<Rightarrow> nat option) \<Rightarrow> ivf_writer \<Rightarrow> (ivf_err, unit) res \<times> ivf_writer" where
  "ivf_close flt iv =
     (if \<not> iv_open iv then (Inr (), iv)
      else
        let iv = iv\<lparr>iv_open := False\<rparr>; (ok, d) = file_call flt (iv_disk iv) in
        if \<not> ok then (Inl FileError, iv\<lparr>iv_disk := snd (file_call flt d)\<rparr>)
        else let (ok, d) = file_write flt 24 (le 4 (unat (iv_count iv))) d in
          if \<not> ok then (Inl FileError, iv\<lparr>iv_disk := snd (file_call flt d)\<rparr>)
          else let (ok, d) = file_call flt d in
            (if ok then Inr () else Inl FileError, iv\<lparr>iv_disk := d\<rparr>))"

text \<open>The writer as a sink of the elementary stream.\<close>

definition ivf_sink :: "(nat \<Rightarrow> nat option) \<Rightarrow> vpx_parsers \<Rightarrow> unicode \<Rightarrow> (ivf_err, ivf_writer) sink_ops" where
  "ivf_sink flt V uc = \<lparr>so_open = (\<lambda>k. case k of IvfClockSink codec rate \<Rightarrow> new_ivf_clock_writer flt uc codec rate
       | _ \<Rightarrow> Inl UnsupportedIvfCodec),
     so_write = ivf_write_rtp flt V uc, so_close = ivf_close flt\<rparr>"

subsection \<open>Reading an IVF file\<close>

function ivf_frames :: "byte list \<Rightarrow> (nat \<times> byte list) list option" where
  "ivf_frames bs =
     (if bs = [] then Some []
      else if length bs < 12 \<or> length bs < 12 + unle (take 4 bs) then None
      else map_option ((#) (unle (take 8 (drop 4 bs)), take (unle (take 4 bs)) (drop 12 bs)))
             (ivf_frames (drop (12 + unle (take 4 bs)) bs)))"
  by pat_completeness auto
termination by (relation "measure length") auto

declare ivf_frames.simps [simp del]

text \<open>The code, the ticks per second, the frame count and the frames.\<close>

definition read_ivf :: "byte list \<Rightarrow> (byte list \<times> nat \<times> nat \<times> (nat \<times> byte list) list) option" where
  "read_ivf file =
     (if length file < 32 \<or> take 4 file \<noteq> ascii ''DKIF'' then None
      else map_option (\<lambda>fs. (take 4 (drop 8 file), unle (take 4 (drop 16 file)), unle (take 4 (drop 24 file)), fs))
             (ivf_frames (drop 32 file)))"


subsection \<open>A finished file holds the frames of the stream\<close>

text \<open>What a packet carries: its part of the frame, whether it starts one, and whether that is a key frame.\<close>

definition vpx_part :: "vpx_parsers \<Rightarrow> string \<Rightarrow> rtp_packet \<Rightarrow> (byte list \<times> bool \<times> bool) option" where
  "vpx_part V lc p =
     (if lc = ''vp8'' then map_option (\<lambda>(bs, s). (bs, s = 1, bs ! 0 AND 1 = 0)) (vp8_unmarshal V (pk_payload p))
      else if lc = ''vp9'' then map_option (\<lambda>(bs, p, b). (bs, b, \<not> p)) (vp9_unmarshal V (pk_payload p))
      else None)"

definition part_bytes :: "vpx_parsers \<Rightarrow> string \<Rightarrow> rtp_packet \<Rightarrow> byte list" where
  "part_bytes V lc p = (case vpx_part V lc p of Some (bs, _, _) \<Rightarrow> bs | None \<Rightarrow> [])"

definition part_start :: "vpx_parsers \<Rightarrow> string \<Rightarrow> rtp_packet \<Rightarrow> bool" where
  "part_start V lc p = (case vpx_part V lc p of Some (_, s, _) \<Rightarrow> s | None \<Rightarrow> False)"

definition part_key :: "vpx_parsers \<Rightarrow> string \<Rightarrow> rtp_packet \<Rightarrow> bool" where
  "part_key V lc p = (case vpx_part V lc p of Some (_, _, k) \<Rightarrow> k | None \<Rightarrow> False)"

definition carries :: "vpx_parsers \<Rightarrow> string \<Rightarrow> rtp_packet \<Rightarrow> bool" where
  "carries V lc p \<longleftrightarrow> pk_payload p \<noteq> [] \<and> part_bytes V lc p \<noteq> []"

definition frame_bytes :: "vpx_parsers \<Rightarrow> string \<Rightarrow> rtp_packet list \<Rightarrow> byte list" where
  "frame_bytes V lc f = concat (map (part_bytes V lc) f)"

text \<open>The packets of one frame as a sender cuts it: only the first starts it, only the last has the marker.\<close>

definition whole_frame :: "vpx_parsers \<Rightarrow> string \<Rightarrow> rtp_packet list \<Rightarrow> bool" where
  "whole_frame V lc f \<longleftrightarrow> f \<noteq> [] \<and> list_all (carries V lc) f \<and> part_start V lc (hd f) \<and>
     list_all (\<lambda>p. \<not> part_start V lc p) (tl f) \<and> pk_marker (last f) \<and> list_all (\<lambda>p. \<not> pk_marker p) (butlast f) \<and>
     length (frame_bytes V lc f) < 2 ^ 32"

lemma collect_part:
  assumes "carries V lc p" and "lc = lower_codec uc (iv_codec iv)"
  shows "collect_payload V uc (pk_payload p) iv =
    Inr (if (\<not> iv_key iv \<and> \<not> part_key V lc p) \<or> (iv_frame iv = [] \<and> \<not> part_start V lc p) then None
         else Some (part_bytes V lc p))"
  using assms by (auto simp: carries_def part_bytes_def part_key_def part_start_def vpx_part_def collect_payload_def
      collect_vp8_def collect_vp9_def Let_def split: option.splits if_splits prod.splits)

lemma patch_end: "patch (length file) bs file = file @ bs"
  by (simp add: patch_def)

definition enc_frame :: "32 word \<Rightarrow> byte list \<Rightarrow> byte list" where
  "enc_frame rel bs = le 4 (u32 (length bs)) @ le 8 (unat (ucast rel :: 64 word)) @ bs"

definition add_frame :: "32 word \<Rightarrow> byte list \<Rightarrow> ivf_writer \<Rightarrow> ivf_writer" where
  "add_frame rel bs iv = iv\<lparr>iv_disk := \<lparr>dk_bytes = dk_bytes (iv_disk iv) @ enc_frame rel bs, dk_calls = dk_calls (iv_disk iv) + 2\<rparr>,
     iv_count := iv_count iv + 1, iv_key := True, iv_frame := []\<rparr>"

lemma write_frame_ok: "iv_key iv \<Longrightarrow> write_frame (\<lambda>_. None) (ucast rel) iv = (Inr (), add_frame rel (iv_frame iv) iv)"
  by (simp add: write_frame_def file_write_def patch_end add_frame_def enc_frame_def)

definition collecting :: "vpx_parsers \<Rightarrow> string \<Rightarrow> unicode \<Rightarrow> ivf_writer \<Rightarrow> bool" where
  "collecting V lc uc iv \<longleftrightarrow> iv_open iv \<and> iv_first_set iv \<and> lc = lower_codec uc (iv_codec iv)"

lemma ivf_write_part:
  assumes "collecting V lc uc iv" and "carries V lc p" and "iv_key iv \<or> part_key V lc p" and "iv_frame iv \<noteq> [] \<or> part_start V lc p"
  shows "ivf_write_rtp (\<lambda>_. None) V uc p iv = (Inr (),
    if pk_marker p then add_frame (pk_ts p - iv_first iv) (iv_frame iv @ part_bytes V lc p) (iv\<lparr>iv_key := True\<rparr>)
    else iv\<lparr>iv_key := True, iv_frame := iv_frame iv @ part_bytes V lc p\<rparr>)"
proof -
  have c: "collect_payload V uc (pk_payload p) iv = Inr (Some (part_bytes V lc p))"
    using collect_part[OF assms(2), of uc iv] assms by (auto simp: collecting_def)
  have ne: "pk_payload p \<noteq> []" "part_bytes V lc p \<noteq> []" using assms(2) by (simp_all add: carries_def)
  let ?iv = "iv\<lparr>iv_key := True, iv_frame := iv_frame iv @ part_bytes V lc p\<rparr>"
  have w: "write_frame (\<lambda>_. None) (ucast (pk_ts p - iv_first iv)) ?iv =
      (Inr (), add_frame (pk_ts p - iv_first iv) (iv_frame iv @ part_bytes V lc p) ?iv)"
    using write_frame_ok[of ?iv "pk_ts p - iv_first iv"] by simp
  have a: "add_frame r bs ?iv = add_frame r bs (iv\<lparr>iv_key := True\<rparr>)" for r bs by (simp add: add_frame_def)
  have o: "iv_open iv" "iv_first_set iv" using assms(1) by (simp_all add: collecting_def)
  show ?thesis unfolding ivf_write_rtp_def by (simp add: o ne c Let_def w a)
qed

lemma ivf_skip_part:
  assumes "collecting V lc uc iv" and "carries V lc p" and "\<not> iv_key iv" and "iv_frame iv = []" and "\<not> part_key V lc p \<or> \<not> part_start V lc p"
  shows "ivf_write_rtp (\<lambda>_. None) V uc p iv = (Inr (), iv)"
proof -
  have c: "collect_payload V uc (pk_payload p) iv = Inr None"
    using collect_part[OF assms(2), of uc iv] assms by (auto simp: collecting_def)
  have ne: "pk_payload p \<noteq> []" using assms(2) by (simp add: carries_def)
  have o: "iv_open iv" "iv_first_set iv" using assms(1) by (simp_all add: collecting_def)
  show ?thesis unfolding ivf_write_rtp_def by (simp add: o ne c Let_def)
qed

lemma ivf_rest_of_frame:
  assumes "collecting V lc uc iv" and "iv_key iv" and "iv_frame iv \<noteq> []" and "qs \<noteq> []" and "list_all (carries V lc) qs"
    and "pk_marker (last qs)" and "list_all (\<lambda>p. \<not> pk_marker p) (butlast qs)"
  shows "feed (ivf_write_rtp (\<lambda>_. None) V uc) qs iv =
    (Inr (), add_frame (pk_ts (last qs) - iv_first iv) (iv_frame iv @ frame_bytes V lc qs) iv)"
  using assms
proof (induction qs arbitrary: iv)
  case (Cons q qs)
  have c: "carries V lc q" using Cons.prems(5) by simp
  have k: "iv\<lparr>iv_key := True\<rparr> = iv" using Cons.prems(2) by (cases iv) simp
  note step = ivf_write_part[OF Cons.prems(1) c, unfolded k]
  show ?case
  proof (cases qs)
    case Nil
    then show ?thesis using step Cons.prems by (simp add: frame_bytes_def)
  next
    case (Cons q' qs')
    let ?iv = "iv\<lparr>iv_key := True, iv_frame := iv_frame iv @ part_bytes V lc q\<rparr>"
    have m: "\<not> pk_marker q" using Cons.prems(7) Cons by simp
    have "ivf_write_rtp (\<lambda>_. None) V uc q iv = (Inr (), ?iv)" using step m Cons.prems by simp
    moreover have "feed (ivf_write_rtp (\<lambda>_. None) V uc) qs ?iv =
        (Inr (), add_frame (pk_ts (last qs) - iv_first ?iv) (iv_frame ?iv @ frame_bytes V lc qs) ?iv)"
      by (rule Cons.IH) (use Cons Cons.prems in \<open>auto simp: collecting_def\<close>)
    moreover have "add_frame r bs ?iv = add_frame r bs iv" for r bs using Cons.prems(2) by (cases iv) (simp add: add_frame_def)
    ultimately show ?thesis using Cons by (simp add: frame_bytes_def)
  qed
qed simp

lemma feed_append: "feed wr (xs @ ys) w = (case feed wr xs w of (Inl e, w) \<Rightarrow> (Inl e, w) | (Inr _, w) \<Rightarrow> feed wr ys w)"
  by (induction xs arbitrary: w) (auto split: prod.splits sum.splits)

lemma ivf_frame:
  assumes "collecting V lc uc iv" and "iv_frame iv = []" and "whole_frame V lc f"
  shows "feed (ivf_write_rtp (\<lambda>_. None) V uc) f iv = (Inr (),
    if iv_key iv \<or> part_key V lc (hd f) then add_frame (pk_ts (last f) - iv_first iv) (frame_bytes V lc f) iv else iv)"
proof -
  obtain q qs where f: "f = q # qs" using assms(3) by (cases f) (auto simp: whole_frame_def)
  have w: "carries V lc q" "list_all (carries V lc) qs" "part_start V lc q" "list_all (\<lambda>p. \<not> part_start V lc p) qs"
    using assms(3) by (simp_all add: whole_frame_def f)
  show ?thesis
  proof (cases "iv_key iv \<or> part_key V lc q")
    case True
    note step = ivf_write_part[OF assms(1) w(1) True]
    let ?iv = "iv\<lparr>iv_key := True, iv_frame := part_bytes V lc q\<rparr>"
    have a: "add_frame r bs (iv\<lparr>iv_key := True\<rparr>) = add_frame r bs iv" "add_frame r bs ?iv = add_frame r bs iv" for r bs
      by (simp_all add: add_frame_def)
    show ?thesis
    proof (cases qs)
      case Nil
      then show ?thesis using step True w(3) assms(2,3) by (simp add: f frame_bytes_def whole_frame_def a)
    next
      case (Cons q' qs')
      have m: "\<not> pk_marker q" using assms(3) Cons by (simp add: f whole_frame_def)
      have s: "ivf_write_rtp (\<lambda>_. None) V uc q iv = (Inr (), ?iv)" using step w(3) m assms(2) by simp
      have "feed (ivf_write_rtp (\<lambda>_. None) V uc) qs ?iv =
          (Inr (), add_frame (pk_ts (last qs) - iv_first ?iv) (iv_frame ?iv @ frame_bytes V lc qs) ?iv)"
        by (rule ivf_rest_of_frame)
          (use assms(1,3) w Cons in \<open>auto simp: collecting_def f whole_frame_def carries_def\<close>)
      then show ?thesis using s True Cons by (simp add: f frame_bytes_def a)
    qed
  next
    case False
    have skip: "feed (ivf_write_rtp (\<lambda>_. None) V uc) ps iv = (Inr (), iv)"
      if "list_all (carries V lc) ps" "list_all (\<lambda>p. \<not> part_key V lc p \<or> \<not> part_start V lc p) ps" for ps
      using that ivf_skip_part[OF assms(1) _ _ assms(2)] False by (induction ps) auto
    show ?thesis using skip[of f] False w by (auto simp: f list_all_iff)
  qed
qed


lemma ivf_all_frames:
  assumes "collecting V lc uc iv" and "iv_frame iv = []" and "list_all (whole_frame V lc) fs"
  defines "gs \<equiv> (if iv_key iv then fs else dropWhile (\<lambda>f. \<not> part_key V lc (hd f)) fs)"
  shows "\<exists>iv'. feed (ivf_write_rtp (\<lambda>_. None) V uc) (concat fs) iv = (Inr (), iv') \<and> iv_open iv' \<and>
    dk_bytes (iv_disk iv') = dk_bytes (iv_disk iv) @
      concat (map (\<lambda>f. enc_frame (pk_ts (last f) - iv_first iv) (frame_bytes V lc f)) gs) \<and>
    iv_count iv' = iv_count iv + of_nat (length gs)"
  using assms(1-3) unfolding gs_def
proof (induction fs arbitrary: iv)
  case Nil
  then show ?case by (simp add: collecting_def)
next
  case (Cons f fs)
  have f: "whole_frame V lc f" and fs: "list_all (whole_frame V lc) fs" using Cons.prems(3) by simp_all
  note step = ivf_frame[OF Cons.prems(1,2) f]
  show ?case
  proof (cases "iv_key iv \<or> part_key V lc (hd f)")
    case True
    let ?iv = "add_frame (pk_ts (last f) - iv_first iv) (frame_bytes V lc f) iv"
    have "collecting V lc uc ?iv" "iv_frame ?iv = []" using Cons.prems(1) by (simp_all add: collecting_def add_frame_def)
    from Cons.IH[OF this fs] obtain iv' where "feed (ivf_write_rtp (\<lambda>_. None) V uc) (concat fs) ?iv = (Inr (), iv')" "iv_open iv'"
      "dk_bytes (iv_disk iv') = dk_bytes (iv_disk ?iv) @
        concat (map (\<lambda>f. enc_frame (pk_ts (last f) - iv_first ?iv) (frame_bytes V lc f)) fs)"
      "iv_count iv' = iv_count ?iv + of_nat (length fs)" by (auto simp: add_frame_def)
    moreover have "(if iv_key iv then f # fs else dropWhile (\<lambda>f. \<not> part_key V lc (hd f)) (f # fs)) = f # fs" using True by auto
    ultimately show ?thesis using step True by (simp add: feed_append) (simp add: add_frame_def)
  next
    case False
    have "feed (ivf_write_rtp (\<lambda>_. None) V uc) (concat (f # fs)) iv = feed (ivf_write_rtp (\<lambda>_. None) V uc) (concat fs) iv"
      using step False by (simp add: feed_append)
    then show ?thesis using Cons.IH[OF Cons.prems(1,2) fs] False by simp
  qed
qed

lemma unat_ucast_32_64: "unat (ucast (x :: 32 word) :: 64 word) = unat x"
proof -
  have "unat x < 2 ^ 64" using unat_32_bound[of x] by simp
  then show ?thesis unfolding unsigned_ucast_eq by (simp add: take_bit_nat_eq_self_iff)
qed

lemma ivf_frames_enc:
  assumes "length bs < 2 ^ 32"
  shows "ivf_frames (enc_frame rel bs @ rest) = map_option ((#) (unat rel, bs)) (ivf_frames rest)"
proof -
  have "u32 (length bs) = length bs" using assms by (simp add: u32_def)
  then have n: "unle (le 4 (u32 (length bs))) = length bs" using assms by simp
  have t: "unle (le 8 (unat rel)) = unat rel" using unat_32_bound[of rel] by (intro unle_le) simp
  show ?thesis by (subst ivf_frames.simps) (simp add: enc_frame_def n t unat_ucast_32_64)
qed

lemma ivf_frames_all:
  "\<forall>(rel, bs)\<in>set xs. length bs < 2 ^ 32 \<Longrightarrow>
    ivf_frames (concat (map (\<lambda>(rel, bs). enc_frame rel bs) xs)) = Some (map (\<lambda>(rel, bs). (unat rel, bs)) xs)"
proof (induction xs)
  case Nil
  then show ?case by (simp add: ivf_frames.simps)
next
  case (Cons x xs)
  then show ?case by (cases x) (simp add: ivf_frames_enc)
qed

lemma ivf_first_packet:
  assumes "\<not> iv_first_set iv" and "pk_payload p \<noteq> []" and "iv_open iv"
  shows "ivf_write_rtp flt V uc p iv = ivf_write_rtp flt V uc p (iv\<lparr>iv_first := pk_ts p, iv_first_set := True\<rparr>)"
  using assms by (simp add: ivf_write_rtp_def)

lemma ivf_file_frames:
  assumes "lower_codec uc codec = lc" and "lc \<in> {''vp8'', ''vp9''}" and "rate \<noteq> 0"
    and "list_all (whole_frame V lc) fs" and "length fs < 2 ^ 32"
  defines "gs \<equiv> dropWhile (\<lambda>f. \<not> part_key V lc (hd f)) fs"
  shows "\<exists>iv iv' iv''. new_ivf_clock_writer (\<lambda>_. None) uc codec rate = Inr iv \<and>
    feed (ivf_write_rtp (\<lambda>_. None) V uc) (concat fs) iv = (Inr (), iv') \<and>
    ivf_close (\<lambda>_. None) iv' = (Inr (), iv'') \<and>
    read_ivf (dk_bytes (iv_disk iv'')) = Some (ascii (if lc = ''vp8'' then ''VP80'' else ''VP90''), unat rate, length gs,
      map (\<lambda>f. (unat (pk_ts (last f) - pk_ts (hd (hd fs))), frame_bytes V lc f)) gs)"
proof -
  let ?cc = "if lc = ''vp8'' then ''VP80'' else ''VP90''"
  let ?hd = "ivf_header ?cc rate"
  let ?iv = "\<lparr>iv_open = True, iv_disk = \<lparr>dk_bytes = ?hd, dk_calls = 2\<rparr>, iv_codec = codec, iv_rate = rate, iv_count = 0,
      iv_first = 0, iv_first_set = False, iv_key = False, iv_frame = []\<rparr>"
  have new: "new_ivf_clock_writer (\<lambda>_. None) uc codec rate = Inr ?iv"
    using assms(1-3) by (auto simp: new_ivf_clock_writer_def Let_def file_call_def file_write_def patch_def)
  define iv0 where "iv0 = (if fs = [] then ?iv else ?iv\<lparr>iv_first := pk_ts (hd (hd fs)), iv_first_set := True\<rparr>)"
  have feed0: "feed (ivf_write_rtp (\<lambda>_. None) V uc) (concat fs) ?iv = feed (ivf_write_rtp (\<lambda>_. None) V uc) (concat fs) iv0"
  proof (cases fs)
    case (Cons f fs')
    then obtain p ps where p: "f = p # ps" using assms(4) by (cases f) (auto simp: whole_frame_def)
    have "pk_payload p \<noteq> []" using assms(4) by (simp add: Cons p whole_frame_def carries_def)
    then show ?thesis using ivf_first_packet[of ?iv p "\<lambda>_. None" V uc] by (simp add: Cons p iv0_def)
  qed (simp add: iv0_def)
  have "\<exists>iv'. feed (ivf_write_rtp (\<lambda>_. None) V uc) (concat fs) iv0 = (Inr (), iv') \<and> iv_open iv' \<and>
    dk_bytes (iv_disk iv') = dk_bytes (iv_disk iv0) @
      concat (map (\<lambda>f. enc_frame (pk_ts (last f) - iv_first iv0) (frame_bytes V lc f)) gs) \<and>
    iv_count iv' = iv_count iv0 + of_nat (length gs)"
  proof (cases "fs = []")
    case False
    have "collecting V lc uc iv0" using False assms(1) by (simp add: collecting_def iv0_def)
    from ivf_all_frames[OF this _ assms(4)] False show ?thesis by (simp add: iv0_def gs_def)
  qed (simp add: iv0_def gs_def)
  then obtain iv' where iv': "feed (ivf_write_rtp (\<lambda>_. None) V uc) (concat fs) iv0 = (Inr (), iv')" "iv_open iv'"
    "dk_bytes (iv_disk iv') = ?hd @ concat (map (\<lambda>f. enc_frame (pk_ts (last f) - iv_first iv0) (frame_bytes V lc f)) gs)"
    "iv_count iv' = of_nat (length gs)" by (auto simp: iv0_def)
  define xs where "xs = map (\<lambda>f. (pk_ts (last f) - iv_first iv0, frame_bytes V lc f)) gs"
  have first: "fs \<noteq> [] \<Longrightarrow> iv_first iv0 = pk_ts (hd (hd fs))" by (simp add: iv0_def)
  have lens: "\<forall>(rel, bs)\<in>set xs. length bs < 2 ^ 32"
    using assms(4) by (auto simp: xs_def gs_def list_all_iff whole_frame_def dest: set_dropWhileD)
  let ?body = "concat (map (\<lambda>(rel, bs). enc_frame rel bs) xs)"
  have body: "dk_bytes (iv_disk iv') = ?hd @ ?body" unfolding iv'(3) by (simp add: xs_def comp_def)
  have n: "unat (iv_count iv') = length gs"
  proof -
    have "length gs \<le> length fs" by (simp add: gs_def length_dropWhile_le)
    then show ?thesis using assms(5) by (simp add: iv'(4) unat_of_nat)
  qed
  define pre where "pre = ascii ''DKIF'' @ le 2 0 @ le 2 32 @ ascii ?cc @ le 2 640 @ le 2 480 @ le 4 (unat rate) @ le 4 1"
  have pre: "?hd = pre @ le 4 0 @ le 4 0" "length pre = 24" by (simp_all add: pre_def ivf_header_def ascii_def)
  obtain iv'' where close: "ivf_close (\<lambda>_. None) iv' = (Inr (), iv'')"
    and disk: "dk_bytes (iv_disk iv'') = pre @ le 4 (unat (iv_count iv')) @ le 4 0 @ ?body"
    using iv'(2) body pre by (simp add: ivf_close_def file_call_def file_write_def patch_def Let_def)
  have "unle (le 4 (unat rate)) = unat rate" by (intro unle_le unat_32_bound)
  moreover have "unle (le 4 (unat (iv_count iv'))) = length gs" unfolding n[symmetric] by (intro unle_le unat_32_bound)
  ultimately have "read_ivf (dk_bytes (iv_disk iv'')) = Some (ascii ?cc, unat rate, length gs, map (\<lambda>(rel, bs). (unat rel, bs)) xs)"
    unfolding disk read_ivf_def using pre(2) ivf_frames_all[OF lens] by (simp add: pre_def ascii_def)
  moreover have "map (\<lambda>(rel, bs). (unat rel, bs)) xs =
      map (\<lambda>f. (unat (pk_ts (last f) - pk_ts (hd (hd fs))), frame_bytes V lc f)) gs"
    using first by (cases "fs = []") (simp_all add: xs_def gs_def)
  ultimately have r: "read_ivf (dk_bytes (iv_disk iv'')) = Some (ascii ?cc, unat rate, length gs,
      map (\<lambda>f. (unat (pk_ts (last f) - pk_ts (hd (hd fs))), frame_bytes V lc f)) gs)" by (simp only:)
  have "feed (ivf_write_rtp (\<lambda>_. None) V uc) (concat fs) ?iv = (Inr (), iv')" using feed0 iv'(1) by (simp only:)
  then show ?thesis using new close r by blast
qed

subsection \<open>From the log of a video stream to its file\<close>

text \<open>Packets with new times keep their frames.\<close>

definition restamped :: "rtp_packet list \<Rightarrow> int list \<Rightarrow> rtp_packet list" where
  "restamped ps us = map2 (\<lambda>p u. p\<lparr>pk_ts := word_of_int u\<rparr>) ps us"

lemma vpx_part_ts [simp]: "vpx_part V lc (p\<lparr>pk_ts := t\<rparr>) = vpx_part V lc p"
  by (simp add: vpx_part_def)

lemma part_ts [simp]:
  "part_bytes V lc (p\<lparr>pk_ts := t\<rparr>) = part_bytes V lc p" "part_start V lc (p\<lparr>pk_ts := t\<rparr>) = part_start V lc p"
  "part_key V lc (p\<lparr>pk_ts := t\<rparr>) = part_key V lc p" "carries V lc (p\<lparr>pk_ts := t\<rparr>) = carries V lc p"
  by (simp_all add: part_bytes_def part_start_def part_key_def carries_def)

text \<open>The frames \<open>fs\<close> with the packet times \<open>us\<close>, and the time of each frame.\<close>

fun restamp_frames :: "rtp_packet list list \<Rightarrow> int list \<Rightarrow> rtp_packet list list" where
  "restamp_frames [] us = []"
| "restamp_frames (f # fs) us = restamped f (take (length f) us) # restamp_frames fs (drop (length f) us)"

fun frame_starts :: "rtp_packet list list \<Rightarrow> int list \<Rightarrow> int list" where
  "frame_starts [] us = []"
| "frame_starts (f # fs) us = hd us # frame_starts fs (drop (length f) us)"

lemma length_restamped [simp]: "length us = length ps \<Longrightarrow> length (restamped ps us) = length ps"
  by (simp add: restamped_def)

lemma restamped_hd: "length us = length ps \<Longrightarrow> ps \<noteq> [] \<Longrightarrow> hd (restamped ps us) = (hd ps)\<lparr>pk_ts := word_of_int (hd us)\<rparr>"
  by (cases ps; cases us) (simp_all add: restamped_def)

lemma restamped_maps:
  assumes "length us = length ps"
  shows "map (part_bytes V lc) (restamped ps us) = map (part_bytes V lc) ps"
    "map (part_start V lc) (restamped ps us) = map (part_start V lc) ps"
    "map (carries V lc) (restamped ps us) = map (carries V lc) ps"
    "map pk_marker (restamped ps us) = map pk_marker ps"
  using assms by (induction us ps rule: list_induct2) (simp_all add: restamped_def)

lemma list_all_map_id: "list_all P xs = list_all id (map P xs)" "list_all (\<lambda>x. \<not> P x) xs = list_all Not (map P xs)"
  by (simp_all add: list_all_iff)

lemma whole_frame_restamped:
  assumes "length us = length f" and "whole_frame V lc f"
  shows "whole_frame V lc (restamped f us)"
proof -
  have ne: "f \<noteq> []" using assms(2) by (simp add: whole_frame_def)
  then have ne': "restamped f us \<noteq> []" using length_restamped[OF assms(1)] by (metis length_0_conv)
  note m = restamped_maps[OF assms(1)]
  have "pk_marker (last (restamped f us)) = pk_marker (last f)" using m(4) ne ne' by (metis last_map)
  moreover have "list_all (\<lambda>p. \<not> pk_marker p) (butlast (restamped f us)) = list_all (\<lambda>p. \<not> pk_marker p) (butlast f)"
    by (simp only: list_all_map_id(2)[of pk_marker] map_butlast m(4))
  moreover have "list_all (\<lambda>p. \<not> part_start V lc p) (tl (restamped f us)) = list_all (\<lambda>p. \<not> part_start V lc p) (tl f)"
    by (simp only: list_all_map_id(2)[of "part_start V lc"] map_tl m(2))
  moreover have "list_all (carries V lc) (restamped f us) = list_all (carries V lc) f"
    by (simp only: list_all_map_id(1)[of "carries V lc"] m(3))
  moreover have "frame_bytes V lc (restamped f us) = frame_bytes V lc f" by (simp only: frame_bytes_def m(1))
  moreover have "part_start V lc (hd (restamped f us)) = part_start V lc (hd f)" using restamped_hd[OF assms(1) ne] by simp
  ultimately show ?thesis using assms(2) ne' by (simp add: whole_frame_def)
qed

definition one_time :: "rtp_packet list \<Rightarrow> bool" where
  "one_time f \<longleftrightarrow> list_all (\<lambda>p. pk_ts p = pk_ts (hd f)) f"

lemma one_time_shared:
  assumes "successively (\<lambda>(p, u) (q, v). pk_ts p = pk_ts q \<longrightarrow> u = v) (zip f us)" and "length us = length f"
    and "list_all (\<lambda>p. pk_ts p = t) f"
  shows "us = replicate (length us) (hd us)"
  using assms
proof (induction f arbitrary: us)
  case (Cons p f)
  obtain u us' where us: "us = u # us'" using Cons.prems(2) by (cases us) auto
  show ?case
  proof (cases f)
    case Nil
    then show ?thesis using Cons.prems us by simp
  next
    case (Cons q f')
    obtain v us'' where v: "us' = v # us''" using Cons.prems(2) us Cons by (cases us') auto
    have "u = v" using Cons.prems Cons us v by simp
    moreover have "us' = replicate (length us') (hd us')" by (rule Cons.IH) (use Cons.prems Cons us v in auto)
    ultimately show ?thesis using us v by simp
  qed
qed simp

lemma successively_zip_append:
  assumes "successively P (zip (f @ g) us)"
  shows "successively P (zip f (take (length f) us))" and "successively P (zip g (drop (length f) us))"
  using assms by (auto simp: zip_append1 successively_append_iff)

lemma restamp_frames:
  assumes "length us = length (concat fs)" and "list_all (whole_frame V lc) fs" and "list_all one_time fs"
    and "successively (\<lambda>(p, u) (q, v). pk_ts p = pk_ts q \<longrightarrow> u = v) (zip (concat fs) us)"
  shows "concat (restamp_frames fs us) = restamped (concat fs) us \<and> list_all (whole_frame V lc) (restamp_frames fs us) \<and>
    length (restamp_frames fs us) = length fs \<and> length (frame_starts fs us) = length fs \<and>
    map (\<lambda>f. (pk_ts (last f), frame_bytes V lc f, part_key V lc (hd f))) (restamp_frames fs us) =
    map2 (\<lambda>t f. (word_of_int t, frame_bytes V lc f, part_key V lc (hd f))) (frame_starts fs us) fs"
  using assms
proof (induction fs arbitrary: us)
  case Nil
  then show ?case by (simp add: restamped_def)
next
  case (Cons f fs)
  let ?us = "take (length f) us" and ?vs = "drop (length f) us"
  have len: "length ?us = length f" "length ?vs = length (concat fs)" using Cons.prems(1) by simp_all
  have f: "whole_frame V lc f" and ot: "one_time f" and ne: "f \<noteq> []"
    using Cons.prems(2,3) by (simp_all add: whole_frame_def)
  note sc = successively_zip_append[of _ f "concat fs" us, OF Cons.prems(4)[unfolded concat.simps]]
  note IH = Cons.IH[OF len(2) _ _ sc(2)]
  have "?us = replicate (length ?us) (hd ?us)"
    by (rule one_time_shared[OF sc(1) len(1)]) (use ot in \<open>simp add: one_time_def\<close>)
  moreover have "hd ?us = hd us" using ne by (cases us; cases f) auto
  ultimately have same: "?us = replicate (length f) (hd us)" by (metis len(1))
  have us0: "us \<noteq> []" using len(1) ne by (cases us) auto
  have "zip f ?us = map (\<lambda>p. (p, hd us)) f" unfolding same by (simp add: zip_replicate2)
  then have rs: "restamped f ?us = map (\<lambda>p. p\<lparr>pk_ts := word_of_int (hd us)\<rparr>) f" by (simp add: restamped_def)
  have "pk_ts (last (restamped f ?us)) = word_of_int (hd us)" unfolding rs using ne by (simp add: last_map)
  moreover have "frame_bytes V lc (restamped f ?us) = frame_bytes V lc f" unfolding rs by (simp add: frame_bytes_def comp_def)
  moreover have "part_key V lc (hd (restamped f ?us)) = part_key V lc (hd f)" unfolding rs using ne by (simp add: hd_map)
  moreover have "restamped (concat (f # fs)) us = restamped f ?us @ restamped (concat fs) ?vs"
    by (simp add: restamped_def zip_append1)
  ultimately show ?case using IH Cons.prems(2,3) whole_frame_restamped[OF len(1) f] by simp
qed


lemma new_rtp_writer_ivf:
  assumes "new_rtp_writer uc codec rate = Some (IvfClockSink vc r)"
  shows "vc \<in> {''vp8'', ''vp9''} \<and> r \<noteq> 0"
  using assms by (auto simp: new_rtp_writer_def safe_clock_rate_def Let_def split: if_splits)

lemma lower_codec_vpx [simp]: "lower_codec uc ''vp8'' = ''vp8''" "lower_codec uc ''vp9'' = ''vp9''"
proof -
  have r: "rune_list ''vp8'' = [118, 112, 56]" "rune_list ''vp9'' = [118, 112, 57]"
    "trim_space ''vp8'' = ''vp8''" "trim_space ''vp9'' = ''vp9''" by code_simp+
  have e: "map char_of (concat (map encode_rune [118, 112, 56])) = ''vp8''"
    "map char_of (concat (map encode_rune [118, 112, 57])) = ''vp9''" by code_simp+
  show "lower_codec uc ''vp8'' = ''vp8''" "lower_codec uc ''vp9'' = ''vp9''"
    unfolding lower_codec_def r to_lower_def using e by (simp_all add: lower_rune_def)
qed

lemma drop_frames_zip:
  assumes "length ts = length fs" and "map k gs = map2 h ts fs" and "\<And>t f. snd (snd (h t f)) = q f" and "\<And>g. snd (snd (k g)) = p g"
  shows "map k (dropWhile (\<lambda>g. \<not> p g) gs) = map (\<lambda>(t, f). h t f) (dropWhile (\<lambda>(t, f). \<not> q f) (zip ts fs))"
proof -
  have "map k (dropWhile (\<lambda>g. \<not> p g) gs) = dropWhile (\<lambda>x. \<not> snd (snd x)) (map k gs)"
    by (simp add: dropWhile_map comp_def assms(4))
  also have "\<dots> = map (\<lambda>(t, f). h t f) (dropWhile (\<lambda>(t, f). \<not> q f) (zip ts fs))"
    unfolding assms(2) by (simp add: dropWhile_map comp_def case_prod_unfold assms(3))
  finally show ?thesis .
qed

lemma frame_starts_sorted:
  assumes "sorted us" and "length us = length (concat fs)" and "\<forall>f\<in>set fs. f \<noteq> []"
  shows "sorted (frame_starts fs us) \<and> set (frame_starts fs us) \<subseteq> set us"
  using assms
proof (induction fs arbitrary: us)
  case (Cons f fs)
  let ?vs = "drop (length f) us"
  have IH: "sorted (frame_starts fs ?vs) \<and> set (frame_starts fs ?vs) \<subseteq> set ?vs"
    by (rule Cons.IH) (use Cons.prems in \<open>auto simp: sorted_wrt_drop\<close>)
  obtain u us' where us: "us = u # us'" using Cons.prems(2,3) by (cases us) auto
  have "set ?vs \<subseteq> set us" by (rule set_drop_subset)
  moreover have "\<forall>v\<in>set us. u \<le> v" using Cons.prems(1) by (simp add: us)
  ultimately show ?case using IH us by auto
qed simp

lemma ivf_close_closed: "\<not> iv_open (snd (ivf_close flt iv))"
  by (simp add: ivf_close_def Let_def case_prod_beta)


subsection \<open>A concrete instance\<close>

definition ex_vp8 :: vpx_parsers where
  "ex_vp8 = \<lparr>vp8_unmarshal = (\<lambda>bs. if bs = [] then None else Some (tl bs, hd bs)), vp9_unmarshal = (\<lambda>_. None)\<rparr>"

lemmas ex_frame_simps = whole_frame_def carries_def part_start_def part_bytes_def part_key_def vpx_part_def ex_vp8_def frame_bytes_def


end
