(* ===== verification/Recognizer_Words.thy ===== *)
theory Recognizer_Words
  imports Transcript_Segments "HOL-Library.Sublist"
begin

text \<open>
  From decoder tokens to words on the recording's clock: the word functions of
  \<open>src/cassini-go-recorder/internal/transcribe/stt.go\<close>.  \<open>tokens_to_words\<close> groups tokens,
  \<open>split_multi_word_tokens\<close> divides phrases, \<open>offset_decoder_words\<close> and
  \<open>clamp_words_to_timeline_end\<close> place them, and \<open>filter_words_by_energy\<close> keeps the words with sound under
  them and follows the sound to set their ends.  Floating point is a record of the operations the code
  uses, on bit patterns; milliseconds are \<open>int64\<close> and wrap; counts of samples are lengths of slices.
\<close>

subsection \<open>Floating point\<close>

text \<open>\<open>f64_muladd a x y\<close> is \<open>a + x * y\<close>: Go lets a compiler round it once or twice.\<close>

record floats =
  f32_wide :: "32 word \<Rightarrow> 64 word"
  f32_neg :: "32 word \<Rightarrow> 32 word"
  f32_less :: "32 word \<Rightarrow> 32 word \<Rightarrow> bool"
  f32_le :: "32 word \<Rightarrow> 32 word \<Rightarrow> bool"
  f64_add :: "64 word \<Rightarrow> 64 word \<Rightarrow> 64 word"
  f64_mul :: "64 word \<Rightarrow> 64 word \<Rightarrow> 64 word"
  f64_muladd :: "64 word \<Rightarrow> 64 word \<Rightarrow> 64 word \<Rightarrow> 64 word"
  f64_div :: "64 word \<Rightarrow> 64 word \<Rightarrow> 64 word"
  f64_less :: "64 word \<Rightarrow> 64 word \<Rightarrow> bool"
  f64_le :: "64 word \<Rightarrow> 64 word \<Rightarrow> bool"
  f64_of_int :: "int \<Rightarrow> 64 word"
  f64_trunc :: "64 word \<Rightarrow> int"

text \<open>The thresholds, as the bit patterns of 0.0005, 0.001 (\<open>float32\<close>) and 0.0001 (\<open>float64\<close>).\<close>

definition minimum_active_amplitude :: "32 word" where "minimum_active_amplitude = 0x3A03126F"
definition minimum_word_peak_amplitude :: "32 word" where "minimum_word_peak_amplitude = 0x3A83126F"
definition minimum_word_rms_amplitude :: "64 word" where "minimum_word_rms_amplitude = 0x3F1A36E2EB1C432D"
definition minimum_active_duration_ms :: int where "minimum_active_duration_ms = 5"
definition word_energy_pre_margin_ms :: int where "word_energy_pre_margin_ms = 100"
definition word_energy_post_margin_ms :: int where "word_energy_post_margin_ms = 200"
definition word_end_scan_window_ms :: int where "word_end_scan_window_ms = 10"
definition word_end_gap_tolerance_ms :: int where "word_end_gap_tolerance_ms = word_energy_post_margin_ms"


subsection \<open>Tokens\<close>

definition word_mark :: string where "word_mark = [CHR 0xE2, CHR 0x96, CHR 0x81]"
definition unknown_token :: string where "unknown_token = ''<unk>''"

text \<open>The three slices need not have one length; each token takes its own entries along.\<close>

fun drop_unknown :: "string list \<Rightarrow> 32 word list \<Rightarrow> 32 word list \<Rightarrow> string list \<times> 32 word list \<times> 32 word list" where
  "drop_unknown [] ts ds = ([], [], [])"
| "drop_unknown (tok # toks) ts ds =
     (let tok' = (if contains_str tok unknown_token then delete_all unknown_token tok else tok);
          (toks', ts', ds') = drop_unknown toks (tl ts) (tl ds)
      in if contains_str tok unknown_token \<and> tok' = [] then (toks', ts', ds')
         else (tok' # toks', take 1 ts @ ts', take 1 ds @ ds'))"

definition without_unknown_tokens ::
  "string list \<Rightarrow> 32 word list \<Rightarrow> 32 word list \<Rightarrow> string list \<times> 32 word list \<times> 32 word list" where
  "without_unknown_tokens toks ts ds =
     (if list_ex (\<lambda>t. contains_str t unknown_token) toks then drop_unknown toks ts ds else (toks, ts, ds))"

definition punctuation_runes :: "rune list" where
  "punctuation_runes = [46, 44, 63, 33, 59, 58, 8230, 8229, 191, 161, 12290, 65294, 65377, 65292, 12289, 65380,
     65311, 65281, 65307, 65306, 1567, 1548, 1563, 2404, 2405]"

definition token_is_non_acoustic_punctuation :: "string \<Rightarrow> bool" where
  "token_is_non_acoustic_punctuation tok \<longleftrightarrow>
     trim_space tok \<noteq> [] \<and> list_all (\<lambda>r. r \<in> set punctuation_runes) (rune_list (trim_space tok))"

definition max_float :: "floats \<Rightarrow> 64 word list \<Rightarrow> 64 word" where
  "max_float F xs = foldl (\<lambda>m v. if f64_less F m v then v else m) (hd xs) (tl xs)"


subsection \<open>Words from tokens\<close>

text \<open>The variables of the loop of \<open>tokensToWords\<close>.\<close>

record token_state =
  tk_words :: "stt_word list"
  tk_text :: string
  tk_start :: "64 word"
  tk_speech_end :: "64 word"
  tk_token_end :: "64 word"
  tk_has_speech :: bool

definition new_word :: "string \<Rightarrow> int \<Rightarrow> int \<Rightarrow> int \<Rightarrow> stt_word" where
  "new_word text start end cap = \<lparr>w_text = text, w_start_ms = start, w_end_ms = end, w_gap_db = 0, w_has_gap = False,
     w_low_confidence = False, w_extent_cap = cap\<rparr>"

definition fresh_word :: "floats \<Rightarrow> stt_word list \<Rightarrow> token_state" where
  "fresh_word F ws = \<lparr>tk_words = ws, tk_text = [], tk_start = f64_of_int F (- 1), tk_speech_end = f64_of_int F (- 1),
     tk_token_end = f64_of_int F (- 1), tk_has_speech = False\<rparr>"

definition flush_word :: "floats \<Rightarrow> token_state \<Rightarrow> token_state" where
  "flush_word F st =
     (let text = trim_space (tk_text st) in
      fresh_word F
        (if text \<noteq> [] then
           let end = (if f64_less F (tk_speech_end st) (tk_start st) then tk_start st else tk_speech_end st);
               cap = (if tk_has_speech st then max_float F [tk_token_end st, end] else end)
           in tk_words st @ [new_word text (f64_trunc F (tk_start st)) (f64_trunc F end) (f64_trunc F cap)]
         else tk_words st))"

definition starts_word :: "string \<Rightarrow> bool" where
  "starts_word tok \<longleftrightarrow> has_prefix tok word_mark \<or> has_prefix tok '' '' \<or> tok = ''<space>''"

definition strip_mark :: "string \<Rightarrow> string" where
  "strip_mark tok = dropWhile (\<lambda>c. c = CHR '' '') (trim_prefix tok word_mark)"

definition add_token :: "floats \<Rightarrow> string \<Rightarrow> 64 word \<Rightarrow> 64 word \<Rightarrow> token_state \<Rightarrow> token_state" where
  "add_token F tok ts end st =
     (let st = st\<lparr>tk_start := (if f64_less F (tk_start st) (f64_of_int F 0) then ts else tk_start st),
                  tk_text := tk_text st @ tok,
                  tk_token_end := max_float F [tk_token_end st, ts, end]\<rparr>
      in if token_is_non_acoustic_punctuation tok then st
         else st\<lparr>tk_has_speech := True, tk_speech_end := max_float F [tk_speech_end st, ts, end]\<rparr>)"

definition token_ms :: "floats \<Rightarrow> 32 word list \<Rightarrow> 64 word" where
  "token_ms F xs = (case xs of [] \<Rightarrow> f64_of_int F 0 | x # _ \<Rightarrow> f64_mul F (f32_wide F x) (f64_of_int F 1000))"

fun token_loop :: "floats \<Rightarrow> string list \<Rightarrow> 32 word list \<Rightarrow> 32 word list \<Rightarrow> token_state \<Rightarrow> token_state" where
  "token_loop F [] ts ds st = st"
| "token_loop F (tok # toks) ts ds st =
     (let t = token_ms F ts; end = f64_add F t (token_ms F ds) in
      token_loop F toks (tl ts) (tl ds)
        (if starts_word tok then
           let st = flush_word F st; tok = strip_mark tok in if tok = [] then st else add_token F tok t end st
         else add_token F tok t end st))"

text \<open>One part of a phrase.\<close>

definition phrase_part :: "stt_word \<Rightarrow> int \<Rightarrow> nat \<Rightarrow> nat \<Rightarrow> string \<Rightarrow> stt_word" where
  "phrase_part w span n i part =
     (let start = wrap64 (w_start_ms w + wrap64 (span * int i) sdiv int n);
          end = wrap64 (w_start_ms w + wrap64 (span * int (Suc i)) sdiv int n)
      in new_word part start (if end < start then start else end) (if Suc i = n then w_extent_cap w else 0))"

definition split_word :: "stt_word \<Rightarrow> stt_word list" where
  "split_word w =
     (let parts = string_fields (w_text w); n = length parts in
      if n \<le> 1 then [w]
      else let span = wrap64 (w_end_ms w - w_start_ms w); span = (if span \<le> 0 then int n else span)
           in map (\<lambda>(i, part). phrase_part w span n i part) (enumerate 0 parts))"

definition split_multi_word_tokens :: "stt_word list \<Rightarrow> stt_word list" where
  "split_multi_word_tokens ws = concat (map split_word ws)"

definition tokens_to_words :: "floats \<Rightarrow> string list \<Rightarrow> 32 word list \<Rightarrow> 32 word list \<Rightarrow> stt_word list" where
  "tokens_to_words F toks ts ds =
     (let (toks, ts, ds) = without_unknown_tokens toks ts ds in
      if toks = [] then []
      else split_multi_word_tokens (tk_words (flush_word F (token_loop F toks ts ds (fresh_word F [])))))"


subsection \<open>Placing words on the recording\<close>

definition offset_word :: "int \<Rightarrow> int \<Rightarrow> stt_word \<Rightarrow> stt_word" where
  "offset_word offset head w =
     (let shift = (\<lambda>t. wrap64 ((if head > 0 then max 0 (wrap64 (t - head)) else t) + offset))
      in w\<lparr>w_start_ms := shift (w_start_ms w), w_end_ms := shift (w_end_ms w), w_extent_cap := shift (w_extent_cap w)\<rparr>)"

definition offset_decoder_words :: "stt_word list \<Rightarrow> int \<Rightarrow> int \<Rightarrow> stt_word list" where
  "offset_decoder_words ws offset head = map (offset_word offset head) ws"

definition clamp_word :: "int \<Rightarrow> int \<Rightarrow> stt_word \<Rightarrow> stt_word option" where
  "clamp_word end padded w =
     (if w_end_ms w < w_start_ms w \<or> w_start_ms w > padded then None
      else
        let w = (if w_start_ms w \<ge> end then w\<lparr>w_start_ms := end, w_end_ms := end\<rparr>
                 else if w_end_ms w > end then w\<lparr>w_end_ms := end\<rparr> else w)
        in Some (if w_extent_cap w > end then w\<lparr>w_extent_cap := end\<rparr> else w))"

definition clamp_words_to_timeline_end :: "stt_word list \<Rightarrow> int \<Rightarrow> int \<Rightarrow> stt_word list" where
  "clamp_words_to_timeline_end ws end tail =
     (let padded = wrap64 (end + max 0 tail); padded = (if padded < end then max_i64 else padded)
      in List.map_filter (clamp_word end padded) ws)"

definition words_overlapping_speech :: "stt_word list \<Rightarrow> int \<Rightarrow> int \<Rightarrow> stt_word list" where
  "words_overlapping_speech ws start end = filter (\<lambda>w. w_start_ms w < end \<and> w_end_ms w > start) ws"


subsection \<open>The energy gate\<close>

definition f32_abs :: "floats \<Rightarrow> 32 word \<Rightarrow> 32 word" where
  "f32_abs F x = (if f32_less F x 0 then f32_neg F x else x)"

definition is_active :: "floats \<Rightarrow> 32 word \<Rightarrow> bool" where
  "is_active F x \<longleftrightarrow> f32_le F minimum_active_amplitude (f32_abs F x)"

definition energy_step :: "floats \<Rightarrow> 32 word \<times> 64 word \<times> nat \<Rightarrow> 32 word \<Rightarrow> 32 word \<times> 64 word \<times> nat" where
  "energy_step F acc x =
     (case acc of (peak, sq, active) \<Rightarrow>
        (if f32_less F peak (f32_abs F x) then f32_abs F x else peak,
         f64_muladd F sq (f32_wide F x) (f32_wide F x),
         if is_active F x then Suc active else active))"

definition sample_range :: "32 word list \<Rightarrow> int \<Rightarrow> int \<Rightarrow> 32 word list" where
  "sample_range samples start end = take (nat (end - start)) (drop (nat start) samples)"

definition ms_of_samples :: "int \<Rightarrow> int \<Rightarrow> int" where
  "ms_of_samples n rate = wrap64 (n * 1000) sdiv rate"

definition minimum_active_samples :: "int \<Rightarrow> int" where
  "minimum_active_samples rate = wrap64 (wrap64 (rate * minimum_active_duration_ms) + 999) sdiv 1000"

definition extent_cap_ms :: "stt_word \<Rightarrow> int" where
  "extent_cap_ms w = (if w_extent_cap w > w_end_ms w then w_extent_cap w else w_end_ms w)"

text \<open>The samples of one scan window, and whether enough of them are active.\<close>

definition scan_start :: "int \<Rightarrow> int \<Rightarrow> int" where
  "scan_start rate at = wrap64 (at * rate) sdiv 1000"

definition scan_stop :: "32 word list \<Rightarrow> int \<Rightarrow> int \<Rightarrow> int \<Rightarrow> int" where
  "scan_stop samples rate width at = min (scan_start rate at + width) (int (length samples))"

definition window_active :: "floats \<Rightarrow> 32 word list \<Rightarrow> int \<Rightarrow> int \<Rightarrow> int \<Rightarrow> bool" where
  "window_active F samples rate width at \<longleftrightarrow>
     int (length (filter (is_active F) (sample_range samples (scan_start rate at) (scan_stop samples rate width at))))
       \<ge> minimum_active_samples rate"

text \<open>The walk; it returns the end of the last active window, or -1.\<close>

function scan_end :: "floats \<Rightarrow> 32 word list \<Rightarrow> int \<Rightarrow> int \<Rightarrow> int \<Rightarrow> int \<Rightarrow> int \<Rightarrow> int \<Rightarrow> int" where
  "scan_end F samples rate width end cap at active_to =
     (if at < cap then
        if scan_start rate at < 0 \<or> scan_start rate at \<ge> scan_stop samples rate width at then active_to
        else if window_active F samples rate width at
        then scan_end F samples rate width end cap (at + word_end_scan_window_ms) (at + word_end_scan_window_ms)
        else if at - (if active_to < 0 then end else active_to) \<ge> word_end_gap_tolerance_ms then active_to
        else scan_end F samples rate width end cap (at + word_end_scan_window_ms) active_to
      else active_to)"
  by pat_completeness auto
termination by (relation "measure (\<lambda>(F, samples, rate, width, end, cap, at, active_to). nat (cap - at))")
    (auto simp: word_end_scan_window_ms_def)

declare scan_end.simps [simp del]

definition word_end_over_continuing_audio :: "floats \<Rightarrow> 32 word list \<Rightarrow> int \<Rightarrow> stt_word \<Rightarrow> int \<Rightarrow> int" where
  "word_end_over_continuing_audio F samples rate w audio_end =
     (let end = w_end_ms w; cap = min (extent_cap_ms w) audio_end;
          width = wrap64 (wrap64 (rate * word_end_scan_window_ms) + 999) sdiv 1000
      in if cap \<le> end \<or> rate \<le> 0 then end
         else if width \<le> 0 then end
         else let last = scan_end F samples rate width end cap end (- 1)
              in if last < 0 then end else max end (min last cap))"

text \<open>The samples a word is judged on: its extent with the margins, inside the recording.\<close>

definition gate_range :: "32 word list \<Rightarrow> int \<Rightarrow> stt_word \<Rightarrow> int \<times> int" where
  "gate_range samples rate w =
     (let audio_end = ms_of_samples (int (length samples)) rate;
          from_ms = max 0 (w_start_ms w); to_ms = min audio_end (w_end_ms w);
          from_ms = (if from_ms > word_energy_pre_margin_ms then from_ms - word_energy_pre_margin_ms else 0);
          to_ms = (if to_ms < wrap64 (audio_end - word_energy_post_margin_ms) then to_ms + word_energy_post_margin_ms else audio_end)
      in (wrap64 (from_ms * rate) sdiv 1000,
          min (wrap64 (wrap64 (to_ms * rate) + 999) sdiv 1000) (int (length samples))))"

definition gate_word :: "floats \<Rightarrow> 32 word list \<Rightarrow> int \<Rightarrow> stt_word \<Rightarrow> stt_word option" where
  "gate_word F samples rate w =
     (let audio_end = ms_of_samples (int (length samples)) rate in
      if w_end_ms w < 0 \<or> w_end_ms w < w_start_ms w \<or> w_start_ms w > audio_end then None
      else case gate_range samples rate w of (start, end) \<Rightarrow>
        if end \<le> start then None
        else case foldl (energy_step F) (0, f64_of_int F 0, 0) (sample_range samples start end) of (peak, sq, active) \<Rightarrow>
          if f32_le F minimum_word_peak_amplitude peak
            \<and> f64_le F (f64_mul F minimum_word_rms_amplitude minimum_word_rms_amplitude) (f64_div F sq (f64_of_int F (end - start)))
            \<and> int active \<ge> minimum_active_samples rate
          then Some (w\<lparr>w_end_ms := word_end_over_continuing_audio F samples rate w audio_end, w_extent_cap := 0\<rparr>)
          else None)"

definition filter_words_by_energy :: "floats \<Rightarrow> 32 word list \<Rightarrow> int \<Rightarrow> stt_word list \<Rightarrow> stt_word list" where
  "filter_words_by_energy F samples rate ws =
     (if ws = [] \<or> samples = [] \<or> rate \<le> 0 then ws else List.map_filter (gate_word F samples rate) ws)"

definition finalize_transcript_words :: "floats \<Rightarrow> 32 word list \<Rightarrow> int \<Rightarrow> stt_word list \<Rightarrow> int \<Rightarrow> int \<Rightarrow> stt_word list" where
  "finalize_transcript_words F samples rate ws audio_end tail =
     filter_words_by_energy F samples rate (clamp_words_to_timeline_end ws audio_end tail)"

subsection \<open>What the gate guarantees\<close>

definition active_count :: "floats \<Rightarrow> 32 word list \<Rightarrow> int" where
  "active_count F xs = int (length (filter (is_active F) xs))"

definition scan_width :: "int \<Rightarrow> int" where
  "scan_width rate = wrap64 (wrap64 (rate * word_end_scan_window_ms) + 999) sdiv 1000"

lemma scan_end_at_active:
  "scan_end F samples rate width end cap at last_ms = last_ms \<or>
   (\<exists>a\<ge>at. a < cap \<and> window_active F samples rate width a \<and>
      scan_end F samples rate width end cap at last_ms = a + word_end_scan_window_ms)"
proof (induction F samples rate width "end" cap at last_ms rule: scan_end.induct)
  case (1 F samples rate width "end" cap at last_ms)
  have w: "0 < word_end_scan_window_ms" by (simp add: word_end_scan_window_ms_def)
  let ?next = "scan_end F samples rate width end cap (at + word_end_scan_window_ms)"
  consider (stop) "scan_end F samples rate width end cap at last_ms = last_ms"
    | (active) "at < cap" "window_active F samples rate width at"
        "scan_end F samples rate width end cap at last_ms = ?next (at + word_end_scan_window_ms)"
        "\<not> (scan_start rate at < 0 \<or> scan_start rate at \<ge> scan_stop samples rate width at)"
    | (gap) "at < cap" "\<not> window_active F samples rate width at" "scan_end F samples rate width end cap at last_ms = ?next last_ms"
        "\<not> (scan_start rate at < 0 \<or> scan_start rate at \<ge> scan_stop samples rate width at)"
        "\<not> (at - (if last_ms < 0 then end else last_ms) \<ge> word_end_gap_tolerance_ms)"
    using scan_end.simps[of F samples rate width "end" cap at last_ms] by argo
  then show ?case
  proof cases
    case active
    then show ?thesis using 1(1)[OF active(1,4,2)] active w by force
  next
    case gap
    then show ?thesis using 1(2)[OF gap(1,4,2,5)] gap(3) w by force
  qed simp
qed

lemma word_end_bounds:
  defines "e \<equiv> \<lambda>F samples rate w audio_end. word_end_over_continuing_audio F samples rate w audio_end"
  shows "w_end_ms w \<le> e F samples rate w audio_end"
    and "e F samples rate w audio_end \<le> max (w_end_ms w) (min (extent_cap_ms w) audio_end)"
    and "w_end_ms w < e F samples rate w audio_end \<Longrightarrow>
      \<exists>a. w_end_ms w \<le> a \<and> a < e F samples rate w audio_end \<and> e F samples rate w audio_end \<le> a + word_end_scan_window_ms \<and>
        window_active F samples rate (scan_width rate) a"
proof -
  let ?cap = "min (extent_cap_ms w) audio_end"
  let ?r = "scan_end F samples rate (scan_width rate) (w_end_ms w) ?cap (w_end_ms w) (- 1)"
  have w: "0 < word_end_scan_window_ms" by (simp add: word_end_scan_window_ms_def)
  have e: "e F samples rate w audio_end = (if ?cap \<le> w_end_ms w \<or> rate \<le> 0 \<or> scan_width rate \<le> 0 \<or> ?r < 0 then w_end_ms w
      else max (w_end_ms w) (min ?r ?cap))"
    by (simp add: e_def word_end_over_continuing_audio_def Let_def scan_width_def)
  show "w_end_ms w \<le> e F samples rate w audio_end" by (simp add: e)
  show "e F samples rate w audio_end \<le> max (w_end_ms w) ?cap" by (auto simp: e)
  assume "w_end_ms w < e F samples rate w audio_end"
  then have r: "\<not> ?r < 0" "e F samples rate w audio_end = max (w_end_ms w) (min ?r ?cap)" by (auto simp: e split: if_splits)
  then have "?r \<noteq> - 1" by simp
  then obtain a where "w_end_ms w \<le> a" "a < ?cap" "window_active F samples rate (scan_width rate) a" "?r = a + word_end_scan_window_ms"
    using scan_end_at_active[of F samples rate "scan_width rate" "w_end_ms w" ?cap "w_end_ms w" "- 1"] by blast
  then show "\<exists>a. w_end_ms w \<le> a \<and> a < e F samples rate w audio_end \<and> e F samples rate w audio_end \<le> a + word_end_scan_window_ms \<and>
        window_active F samples rate (scan_width rate) a"
    using r(2) w by (intro exI[of _ a]) (auto simp: max_def min_def)
qed

lemma energy_active: "snd (snd (foldl (energy_step F) (p, s, n) xs)) = n + length (filter (is_active F) xs)"
  by (induction xs arbitrary: p s n) (simp_all add: energy_step_def)

text \<open>
  What the gate makes of a word: only its end and its cap change; it has sound; its end does not go back,
  stays under its cap and inside the recording, and when it moves it comes to lie in an active scan window.
\<close>

definition gated :: "floats \<Rightarrow> 32 word list \<Rightarrow> int \<Rightarrow> stt_word \<Rightarrow> stt_word \<Rightarrow> bool" where
  "gated F samples rate w k \<longleftrightarrow>
     k = w\<lparr>w_end_ms := w_end_ms k, w_extent_cap := 0\<rparr> \<and>
     active_count F (sample_range samples (fst (gate_range samples rate w)) (snd (gate_range samples rate w))) \<ge> minimum_active_samples rate \<and>
     w_end_ms w \<le> w_end_ms k \<and>
     w_end_ms k \<le> max (w_end_ms w) (min (extent_cap_ms w) (ms_of_samples (int (length samples)) rate)) \<and>
     (w_end_ms w < w_end_ms k \<longrightarrow> (\<exists>a. w_end_ms w \<le> a \<and> a < w_end_ms k \<and> w_end_ms k \<le> a + word_end_scan_window_ms \<and>
        window_active F samples rate (scan_width rate) a))"

lemma gate_word_gated:
  assumes "gate_word F samples rate w = Some k"
  shows "gated F samples rate w k \<and> w_start_ms w \<le> w_end_ms w"
proof -
  obtain start stop where g: "gate_range samples rate w = (start, stop)" by fastforce
  obtain peak sq n where f: "foldl (energy_step F) (0, f64_of_int F 0, 0) (sample_range samples start stop) = (peak, sq, n)"
    using prod_cases3 by blast
  have n: "n = length (filter (is_active F) (sample_range samples start stop))"
    using energy_active[of F 0 "f64_of_int F 0" 0 "sample_range samples start stop"] f by simp
  have k: "k = w\<lparr>w_end_ms := word_end_over_continuing_audio F samples rate w (ms_of_samples (int (length samples)) rate), w_extent_cap := 0\<rparr>"
    "int n \<ge> minimum_active_samples rate" "w_start_ms w \<le> w_end_ms w"
    using assms by (auto simp: gate_word_def Let_def g f split: if_splits)
  show ?thesis unfolding gated_def g k(1) using k(2,3) n word_end_bounds by (simp add: active_count_def)
qed

lemma map_filter_subseq: "\<exists>ks. subseq ks xs \<and> list_all2 (\<lambda>x y. f x = Some y) ks (List.map_filter f xs)"
proof (induction xs)
  case (Cons x xs)
  then obtain ks where "subseq ks xs" "list_all2 (\<lambda>x y. f x = Some y) ks (List.map_filter f xs)" by blast
  then show ?case
    by (cases "f x") (auto simp: List.map_filter_simps intro: exI[of _ ks] exI[of _ "x # ks"])
qed (simp add: List.map_filter_simps)

lemma gate_keeps:
  assumes "0 < rate" and "samples \<noteq> []"
  shows "\<exists>ks. subseq ks ws \<and> list_all2 (gated F samples rate) ks (filter_words_by_energy F samples rate ws)"
proof (cases "ws = []")
  case False
  obtain ks where ks: "subseq ks ws" "list_all2 (\<lambda>x y. gate_word F samples rate x = Some y) ks (List.map_filter (gate_word F samples rate) ws)"
    using map_filter_subseq by blast
  have "list_all2 (gated F samples rate) ks (List.map_filter (gate_word F samples rate) ws)"
    using ks(2) by (rule list_all2_mono) (use gate_word_gated in blast)
  then show ?thesis using ks(1) assms False by (auto simp: filter_words_by_energy_def)
qed (auto simp: filter_words_by_energy_def)


lemma clamp_word_inside:
  assumes "clamp_word end padded w = Some k"
  shows "w_text k = w_text w \<and> w_start_ms k = min (w_start_ms w) end \<and> w_start_ms k \<le> w_end_ms k \<and> w_end_ms k \<le> end \<and>
    w_end_ms k \<le> w_end_ms w \<and> w_extent_cap k \<le> end"
  using assms by (auto simp: clamp_word_def Let_def split: if_splits)

lemma set_map_filter: "k \<in> set (List.map_filter f ws) \<longleftrightarrow> (\<exists>w\<in>set ws. f w = Some k)"
  by (force simp: List.map_filter_def)

text \<open>Where the words of a finished transcript lie, and that each is a word that was there before.\<close>

definition in_recording :: "stt_word list \<Rightarrow> int \<Rightarrow> stt_word \<Rightarrow> bool" where
  "in_recording ws audio_end k \<longleftrightarrow> w_start_ms k \<le> w_end_ms k \<and> w_end_ms k \<le> audio_end \<and> w_extent_cap k = 0 \<and>
     (\<exists>w\<in>set ws. w_text k = w_text w \<and> w_start_ms k = min (w_start_ms w) audio_end)"

lemma finalize_in_recording:
  assumes "0 < rate" and "samples \<noteq> []" and "audio_end = ms_of_samples (int (length samples)) rate"
    and k: "k \<in> set (finalize_transcript_words F samples rate ws audio_end tail_ms)"
  shows "in_recording ws audio_end k"
proof -
  let ?cs = "clamp_words_to_timeline_end ws audio_end tail_ms"
  have "?cs \<noteq> []" using k by (auto simp: finalize_transcript_words_def filter_words_by_energy_def)
  then obtain c where c: "c \<in> set ?cs" "gate_word F samples rate c = Some k"
    using k assms(1,2) by (auto simp: finalize_transcript_words_def filter_words_by_energy_def set_map_filter)
  then obtain w padded where w: "w \<in> set ws" "clamp_word audio_end padded w = Some c"
    by (auto simp: clamp_words_to_timeline_end_def Let_def set_map_filter)
  note cw = clamp_word_inside[OF w(2)] and g = conjunct1[OF gate_word_gated[OF c(2)]]
  have k': "k = c\<lparr>w_end_ms := w_end_ms k, w_extent_cap := 0\<rparr>" using g unfolding gated_def by blast
  have "w_text k = w_text c" "w_start_ms k = w_start_ms c" "w_extent_cap k = 0" by (subst k', simp)+
  moreover have "w_end_ms c \<le> w_end_ms k" "w_end_ms k \<le> max (w_end_ms c) (min (extent_cap_ms c) audio_end)"
    using g unfolding gated_def assms(3) by blast+
  ultimately show ?thesis using cw w(1) unfolding in_recording_def by auto
qed

subsection \<open>Phrases\<close>

lemma part_time:
  assumes "small_ms (w_start_ms w)" and "0 \<le> span" "span \<le> 2 ^ 40" and "n < 2 ^ 20" and "i \<le> n"
  shows "wrap64 (w_start_ms w + wrap64 (span * int i) sdiv int n) = w_start_ms w + (span * int i) div int n"
proof -
  have m: "span * int i \<le> 2 ^ 40 * 2 ^ 20" using assms by (intro mult_mono) auto
  have p: "0 \<le> span * int i" using assms by simp
  have w: "wrap64 (span * int i) = span * int i" using m p by (intro wrap64_id) (simp add: in_i64_def min_i64_def max_i64_def)
  have d: "(span * int i) sdiv int n = (span * int i) div int n"
    using p by (simp add: signed_divide_int_def sgn_if)
  have "0 \<le> (span * int i) div int n" using p by (cases "n = 0") (simp_all add: pos_imp_zdiv_nonneg_iff)
  moreover have "(span * int i) div int n \<le> span * int i"
    using p zdiv_mono2[of "span * int i" 1 "int n"] by (cases "n = 0") simp_all
  ultimately have "wrap64 (w_start_ms w + (span * int i) div int n) = w_start_ms w + (span * int i) div int n"
    using m assms(1) by (intro wrap64_id) (simp add: in_i64_def min_i64_def max_i64_def small_ms_def)
  then show ?thesis by (simp add: w d)
qed


definition phrase_span :: "stt_word \<Rightarrow> nat \<Rightarrow> int" where
  "phrase_span w n = (if w_end_ms w \<le> w_start_ms w then int n else w_end_ms w - w_start_ms w)"

text \<open>Words that divide a phrase: its fields, end to end over its span, in parts that differ by at most a millisecond.\<close>

definition tiles :: "stt_word \<Rightarrow> stt_word list \<Rightarrow> bool" where
  "tiles w ps \<longleftrightarrow> map w_text ps = string_fields (w_text w) \<and>
     (\<forall>i<length ps. w_start_ms (ps ! i) = w_start_ms w + phrase_span w (length ps) * int i div int (length ps) \<and>
        w_end_ms (ps ! i) = w_start_ms w + phrase_span w (length ps) * int (Suc i) div int (length ps) \<and>
        w_start_ms (ps ! i) \<le> w_end_ms (ps ! i) \<and>
        w_extent_cap (ps ! i) = (if Suc i = length ps then w_extent_cap w else 0)) \<and>
     w_start_ms (hd ps) = w_start_ms w \<and> w_end_ms (last ps) = w_start_ms w + phrase_span w (length ps)"

lemma phrase_part_times:
  assumes "small_ms (w_start_ms w)" and "0 \<le> span" "span \<le> 2 ^ 40" and "n < 2 ^ 20" and "i < n"
  shows "phrase_part w span n i part = new_word part (w_start_ms w + span * int i div int n)
      (w_start_ms w + span * int (Suc i) div int n) (if Suc i = n then w_extent_cap w else 0)"
    and "span * int i div int n \<le> span * int (Suc i) div int n"
proof -
  show le: "span * int i div int n \<le> span * int (Suc i) div int n"
    using assms by (intro zdiv_mono1) (auto simp: algebra_simps)
  show "phrase_part w span n i part = new_word part (w_start_ms w + span * int i div int n)
      (w_start_ms w + span * int (Suc i) div int n) (if Suc i = n then w_extent_cap w else 0)"
    using part_time[OF assms(1-4), of i] part_time[OF assms(1-4), of "Suc i"] assms(5) le
    unfolding phrase_part_def Let_def by simp
qed

lemma split_word_tiles:
  assumes "1 < length (string_fields (w_text w))" "length (string_fields (w_text w)) < 2 ^ 20"
    and "small_ms (w_start_ms w)" "small_ms (w_end_ms w)" "w_end_ms w - w_start_ms w \<le> 2 ^ 40"
  shows "tiles w (split_word w)"
proof -
  define n where "n = length (string_fields (w_text w))"
  define parts where "parts = string_fields (w_text w)"
  have n: "1 < n" "n < 2 ^ 20" "length parts = n" using assms(1,2) by (simp_all add: n_def parts_def)
  have sp: "0 \<le> phrase_span w n" "phrase_span w n \<le> 2 ^ 40" using assms(5) n by (auto simp: phrase_span_def)
  have d: "wrap64 (w_end_ms w - w_start_ms w) = w_end_ms w - w_start_ms w" using small_diff assms(3,4) by blast
  have e: "split_word w = map (\<lambda>(i, part). phrase_part w (phrase_span w n) n i part) (enumerate 0 parts)"
    using n by (auto simp: split_word_def Let_def d phrase_span_def n_def[symmetric] parts_def[symmetric])
  have len: "length (split_word w) = n" by (simp add: e n)
  have at: "split_word w ! i = new_word (parts ! i) (w_start_ms w + phrase_span w n * int i div int n)
      (w_start_ms w + phrase_span w n * int (Suc i) div int n) (if Suc i = n then w_extent_cap w else 0)" if "i < n" for i
    using phrase_part_times(1)[OF assms(3) sp n(2) that] that n(3) by (simp add: e nth_enumerate_eq)
  have le: "phrase_span w n * int i div int n \<le> phrase_span w n * int (Suc i) div int n" if "i < n" for i
    by (rule phrase_part_times(2)[OF assms(3) sp n(2) that])
  have "map w_text (split_word w) = parts" by (rule nth_equalityI) (simp_all add: len n at new_word_def)
  moreover have "split_word w \<noteq> []" using len n by auto
  then have "hd (split_word w) = split_word w ! 0" "last (split_word w) = split_word w ! (n - 1)"
    using len by (simp_all add: hd_conv_nth last_conv_nth)
  ultimately show ?thesis using at le at[of 0] at[of "n - 1"] n unfolding tiles_def len parts_def[symmetric]
    by (simp add: new_word_def)
qed

lemma add_texts: "tk_words (add_token F tok x y st) = tk_words st" "tk_text (add_token F tok x y st) = tk_text st @ tok"
  by (simp_all add: add_token_def Let_def)

lemma flush_texts:
  "map w_text (tk_words (flush_word F st)) =
     map w_text (tk_words st) @ (if trim_space (tk_text st) = [] then [] else [trim_space (tk_text st)])"
  "tk_text (flush_word F st) = []"
  by (simp_all add: flush_word_def fresh_word_def new_word_def Let_def)

text \<open>What the words say, without times: a token either goes on with the current text or closes it first.\<close>

definition close_text :: "string list \<times> string \<Rightarrow> string list \<times> string" where
  "close_text g = (fst g @ (if trim_space (snd g) = [] then [] else [trim_space (snd g)]), [])"

definition group_token :: "string list \<times> string \<Rightarrow> string \<Rightarrow> string list \<times> string" where
  "group_token g tok =
     (if starts_word tok then (fst (close_text g), strip_mark tok) else (fst g, snd g @ tok))"

definition spoken_texts :: "string list \<Rightarrow> string list" where
  "spoken_texts toks = concat (map (\<lambda>t. if length (string_fields t) \<le> 1 then [t] else string_fields t)
     (fst (close_text (foldl group_token ([], []) toks))))"

definition said :: "token_state \<Rightarrow> string list \<times> string" where
  "said st = (map w_text (tk_words st), tk_text st)"

lemma said_add: "said (add_token F tok x y st) = (fst (said st), snd (said st) @ tok)"
  by (simp add: said_def add_texts)

lemma said_flush: "said (flush_word F st) = close_text (said st)"
  by (simp add: said_def close_text_def flush_texts)

lemma said_loop: "said (token_loop F toks ts ds st) = foldl group_token (said st) toks"
  by (induction toks arbitrary: ts ds st)
    (simp_all add: Let_def said_add said_flush group_token_def close_text_def)

lemma split_word_texts:
  "map w_text (split_word w) = (if length (string_fields (w_text w)) \<le> 1 then [w_text w] else string_fields (w_text w))"
  by (auto simp: split_word_def Let_def phrase_part_def new_word_def comp_def case_prod_beta simp flip: list.map_comp)

lemma tokens_texts:
  assumes "without_unknown_tokens toks ts ds = (toks', ts', ds')"
  shows "map w_text (tokens_to_words F toks ts ds) = spoken_texts toks'"
proof (cases "toks' = []")
  case True
  then show ?thesis using assms by (simp add: tokens_to_words_def spoken_texts_def close_text_def)
next
  case False
  have "map w_text (tk_words (flush_word F (token_loop F toks' ts' ds' (fresh_word F [])))) =
      fst (said (flush_word F (token_loop F toks' ts' ds' (fresh_word F []))))" by (simp add: said_def)
  also have "\<dots> = fst (close_text (foldl group_token ([], []) toks'))"
    unfolding said_flush said_loop by (simp add: said_def fresh_word_def)
  finally have w: "map w_text (tk_words (flush_word F (token_loop F toks' ts' ds' (fresh_word F [])))) = \<dots>" .
  have "map w_text (split_multi_word_tokens ws) =
      concat (map (\<lambda>t. if length (string_fields t) \<le> 1 then [t] else string_fields t) (map w_text ws))" for ws
    by (simp add: split_multi_word_tokens_def map_concat comp_def split_word_texts)
  then show ?thesis using assms False by (simp add: tokens_to_words_def spoken_texts_def w del: map_map)
qed

text \<open>For tokens of printing ASCII the words say every character of the tokens, in order.\<close>

definition token_body :: "string \<Rightarrow> string" where
  "token_body tok = (if starts_word tok then strip_mark tok else tok)"

definition printing :: "string \<Rightarrow> bool" where
  "printing s \<longleftrightarrow> list_all (\<lambda>c. 33 \<le> byte c \<and> byte c < 128) s"

lemma printing_trim: "printing s \<Longrightarrow> trim_space s = s"
  by (cases "s = []") (simp_all add: plain_trim plain_def printing_def)

lemma group_says:
  assumes "\<forall>tok\<in>set toks. printing (token_body tok)" and "printing (snd g)" and "\<forall>t\<in>set (fst g). plain t"
  shows "printing (snd (foldl group_token g toks)) \<and> (\<forall>t\<in>set (fst (foldl group_token g toks)). plain t) \<and>
    concat (fst (foldl group_token g toks)) @ snd (foldl group_token g toks) = concat (fst g) @ snd g @ concat (map token_body toks)"
  using assms
proof (induction toks arbitrary: g)
  case (Cons tok toks)
  have g: "printing (snd (group_token g tok))" "\<forall>t\<in>set (fst (group_token g tok)). plain t"
    using Cons.prems by (auto simp: group_token_def close_text_def token_body_def printing_trim)
      (auto simp: printing_def plain_def)
  have "concat (fst (group_token g tok)) @ snd (group_token g tok) = concat (fst g) @ snd g @ token_body tok"
    using Cons.prems by (simp add: group_token_def close_text_def token_body_def printing_trim)
  then show ?case using Cons.IH[OF _ g] Cons.prems by simp
qed simp

lemma spoken_says:
  assumes "\<forall>tok\<in>set toks. printing (token_body tok)"
  shows "concat (spoken_texts toks) = concat (map token_body toks) \<and> (\<forall>t\<in>set (spoken_texts toks). plain t)"
proof -
  let ?g = "foldl group_token ([], []) toks"
  have g: "printing (snd ?g)" "\<forall>t\<in>set (fst ?g). plain t" "concat (fst ?g) @ snd ?g = concat (map token_body toks)"
    using group_says[of toks "([], [])"] assms by (simp_all add: printing_def)
  have c: "\<forall>t\<in>set (fst (close_text ?g)). plain t" "concat (fst (close_text ?g)) = concat (fst ?g) @ snd ?g"
    using g(1,2) by (auto simp: close_text_def printing_trim plain_def printing_def)
  have m: "map (\<lambda>t. if length (string_fields t) \<le> 1 then [t] else string_fields t) (fst (close_text ?g)) = map (\<lambda>t. [t]) (fst (close_text ?g))"
    using c(1) by (simp add: plain_fields)
  have "spoken_texts toks = fst (close_text ?g)" unfolding spoken_texts_def m by simp
  then show ?thesis using c g(3) by simp
qed

text \<open>The \<open><space>\<close> token of a character-level vocabulary ends a word, and then is text of the next one.\<close>

lemma space_token_leaks:
  "map w_text (tokens_to_words F [''a'', ''<space>'', ''b''] ts ds) = [''a'', ''<space>b'']"
proof -
  have p: "plain ''a''" "plain ''<space>b''" by (simp_all add: plain_def byte_def)
  note t = plain_trim[OF p(1)] plain_trim[OF p(2)]
  note f = plain_fields[OF p(1)] plain_fields[OF p(2)]
  have u: "\<not> list_ex (\<lambda>t. contains_str t unknown_token) [''a'', ''<space>'', ''b'']"
    by (simp add: contains_str_def unknown_token_def upt_rec)
  have s: "starts_word ''<space>''" "\<not> starts_word ''a''" "\<not> starts_word ''b''" "strip_mark ''<space>'' = ''<space>''"
    by (simp_all add: starts_word_def strip_mark_def has_prefix_def trim_prefix_def word_mark_def)
  have w: "without_unknown_tokens [''a'', ''<space>'', ''b''] ts ds = ([''a'', ''<space>'', ''b''], ts, ds)"
    using u unfolding without_unknown_tokens_def by (simp only: if_False)
  show ?thesis unfolding tokens_texts[OF w] spoken_texts_def by (simp add: group_token_def close_text_def s t f)
qed


lemma said_tokens:
  assumes "without_unknown_tokens toks ts ds = (toks', ts', ds')"
  shows "map w_text (tokens_to_words F toks ts ds) = spoken_texts toks' \<and>
    ((\<forall>tok\<in>set toks'. printing (token_body tok)) \<longrightarrow>
     concat (map w_text (tokens_to_words F toks ts ds)) = concat (map token_body toks') \<and>
     (\<forall>w\<in>set (tokens_to_words F toks ts ds). w_text w \<noteq> []))"
proof (intro conjI impI)
  show t: "map w_text (tokens_to_words F toks ts ds) = spoken_texts toks'" by (rule tokens_texts[OF assms])
  assume "\<forall>tok\<in>set toks'. printing (token_body tok)"
  note s = spoken_says[OF this]
  show "concat (map w_text (tokens_to_words F toks ts ds)) = concat (map token_body toks')" unfolding t using s by simp
  have "w_text w \<in> set (spoken_texts toks')" if "w \<in> set (tokens_to_words F toks ts ds)" for w
    unfolding t[symmetric] using that by simp
  then show "\<forall>w\<in>set (tokens_to_words F toks ts ds). w_text w \<noteq> []" using s by (auto simp: plain_def)
qed

subsection \<open>Properties\<close>

text \<open>An arithmetic for examples, that orders bit patterns and keeps the first factor of a product.\<close>

definition ex_floats :: floats where
  "ex_floats = \<lparr>f32_wide = (\<lambda>x. push_bit 32 (ucast x)), f32_neg = (\<lambda>x. x), f32_less = (<), f32_le = (\<le>),
     f64_add = (+), f64_mul = (\<lambda>x y. x), f64_muladd = (\<lambda>a x y. max a x), f64_div = (\<lambda>x y. x),
     f64_less = (<s), f64_le = (\<le>s), f64_of_int = word_of_int, f64_trunc = sint\<rparr>"

definition ex_sound :: "32 word list" where
  "ex_sound = replicate 25 0x3F800000 @ replicate 15 0"

definition ex_heard :: stt_word where
  "ex_heard = new_word ''hey'' 0 10 100"



text \<open>
  C27: The energy gate returns some of its words, in order.  Each returned word keeps its text and start, has
  enough active samples around it, and ends no earlier than before; its end goes past the old one only up to
  its cap and the end of the recording, and then lies in a scan window with sound.
\<close>

theorem energy_gate_only_extends:
  assumes "0 < rate" and "samples \<noteq> []"
  shows "\<exists>ks. subseq ks ws \<and> list_all2 (gated F samples rate) ks (filter_words_by_energy F samples rate ws)"
  using assms by (rule gate_keeps)

lemma ex_gated: "filter_words_by_energy ex_floats ex_sound 1000 [ex_heard] = [new_word ''hey'' 0 30 0]"
  by code_simp

theorem energy_gate_only_extends_witness:
  "filter_words_by_energy ex_floats ex_sound 1000 [ex_heard] = [new_word ''hey'' 0 30 0] \<and>
   (\<exists>ks. subseq ks [ex_heard] \<and> list_all2 (gated ex_floats ex_sound 1000) ks [new_word ''hey'' 0 30 0])"
  using energy_gate_only_extends[of 1000 ex_sound "[ex_heard]" ex_floats] ex_gated by (simp add: ex_sound_def)

text \<open>
  A phrase that came as one token is divided into its fields end to end: the parts start at the phrase's
  start, each part ends where the next begins, none ends before it starts, the last ends at the phrase's end
  (a phrase with no extent gets a millisecond a part), and only the last may be extended.
\<close>

theorem phrase_parts_tile:
  assumes "1 < length (string_fields (w_text w))" "length (string_fields (w_text w)) < 2 ^ 20"
    and "small_ms (w_start_ms w)" "small_ms (w_end_ms w)" "w_end_ms w - w_start_ms w \<le> 2 ^ 40"
  shows "tiles w (split_word w)"
  using assms by (rule split_word_tiles)

theorem phrase_parts_tile_witness:
  "tiles (new_word ''so it is'' 100 400 500) (split_word (new_word ''so it is'' 100 400 500))"
proof -
  have "string_fields ''so it is'' = [''so'', ''it'', ''is'']" by code_simp
  then show ?thesis by (intro phrase_parts_tile) (simp_all add: new_word_def small_ms_def)
qed

end
