(* ===== verification/Overlap_Merge.thy ===== *)
theory Overlap_Merge
  imports Transcript_Segments
begin

text \<open>
  Joining the words of two recognition windows that overlap: \<open>dedupOverlappingWordsWithPolicy\<close> and what it
  calls, in \<open>src/cassini-go-recorder/internal/transcribe/stt.go\<close>.  The alignment is a dynamic program over
  two word lists; \<open>align_table\<close> builds it row by row as the code does, and \<open>trace_back\<close> reads the matches off
  its last cell.  The lemmas show that the table is the recursion over prefixes (\<open>cell_at\<close>), that no pairing
  beats it, and that the merge drops one word of each matched pair and no other.
\<close>

subsection \<open>Words at a seam\<close>

definition overlap_duplicate_tolerance :: int where "overlap_duplicate_tolerance = 400"
definition overlap_singleton_tolerance :: int where "overlap_singleton_tolerance = 200"
definition overlap_shift_consistency :: int where "overlap_shift_consistency = 100"

text \<open>
  \<open>normalizeOverlapWord\<close>, on runes: equal strings are equal rune lists.  \<open>unicode.IsLetter\<close> and
  \<open>unicode.IsNumber\<close> are one argument.
\<close>

record overlap_text =
  ot_case :: unicode
  ot_alnum :: "rune \<Rightarrow> bool"

definition overlap_marks :: "rune list" where
  "overlap_marks = [44, 33, 63, 59, 58, 34, 8220, 8221, 40, 41, 91, 93, 123, 125, 60, 62]"

definition normalize_overlap_word :: "overlap_text \<Rightarrow> string \<Rightarrow> rune list" where
  "normalize_overlap_word T text =
     (let rs = map (\<lambda>r. if r = 8216 \<or> r = 8217 then 39 else lower_rune (ot_case T) r) (rune_list text);
          strip = (\<lambda>r. r \<in> set space_runes \<or> r \<in> set overlap_marks);
          rs = rev (dropWhile strip (rev (dropWhile strip rs)));
          rs = rev (dropWhile (\<lambda>r. r = 46) (rev rs))
      in if list_ex (ot_alnum T) rs then rs else [])"

definition word_midpoint_ms :: "stt_word \<Rightarrow> int" where
  "word_midpoint_ms w = (if w_end_ms w \<le> w_start_ms w then w_start_ms w
     else wrap64 (w_start_ms w + wrap64 (w_end_ms w - w_start_ms w) sdiv 2))"

definition abs_ms_difference :: "int \<Rightarrow> int \<Rightarrow> int" where
  "abs_ms_difference a b = (if a \<ge> b then wrap64 (a - b) else wrap64 (b - a))"

subsection \<open>Alignment\<close>

record overlap_ref =
  or_index :: nat
  or_normal :: "rune list"
  or_time :: int

datatype align_step = StepNone | StepL | StepR | StepM

record alignment_cell =
  ac_matches :: int
  ac_distance :: int
  ac_step :: align_step

definition zero_cell :: alignment_cell where
  "zero_cell = \<lparr>ac_matches = 0, ac_distance = 0, ac_step = StepNone\<rparr>"

definition better_alignment :: "alignment_cell \<Rightarrow> alignment_cell \<Rightarrow> bool" where
  "better_alignment c d \<longleftrightarrow> ac_matches c > ac_matches d \<or> (ac_matches c = ac_matches d \<and> ac_distance c < ac_distance d)"

definition better_or_equal_alignment :: "alignment_cell \<Rightarrow> alignment_cell \<Rightarrow> bool" where
  "better_or_equal_alignment c d \<longleftrightarrow>
     ac_matches c > ac_matches d \<or> (ac_matches c = ac_matches d \<and> ac_distance c \<le> ac_distance d)"

fun overlap_refs_from :: "overlap_text \<Rightarrow> nat \<Rightarrow> stt_word list \<Rightarrow> int \<Rightarrow> int \<Rightarrow> int \<Rightarrow> overlap_ref list" where
  "overlap_refs_from T i [] lo hi tol = []"
| "overlap_refs_from T i (w # ws) lo hi tol =
     (if w_end_ms w < w_start_ms w \<or> w_end_ms w < wrap64 (lo - tol) \<or> w_start_ms w > wrap64 (hi + tol)
      then overlap_refs_from T (Suc i) ws lo hi tol
      else let n = normalize_overlap_word T (w_text w) in
        if n = [] then overlap_refs_from T (Suc i) ws lo hi tol
        else \<lparr>or_index = i, or_normal = n, or_time = w_start_ms w\<rparr> # overlap_refs_from T (Suc i) ws lo hi tol)"

definition overlap_word_refs :: "overlap_text \<Rightarrow> stt_word list \<Rightarrow> int \<Rightarrow> int \<Rightarrow> int \<Rightarrow> overlap_ref list" where
  "overlap_word_refs T ws lo hi tol = overlap_refs_from T 0 ws lo hi tol"

text \<open>One cell from its upper-left, upper and left neighbours.\<close>

definition align_cell :: "int \<Rightarrow> overlap_ref \<Rightarrow> overlap_ref \<Rightarrow> alignment_cell \<Rightarrow> alignment_cell \<Rightarrow> alignment_cell \<Rightarrow> alignment_cell" where
  "align_cell tol l r diag up left =
     (let best = up\<lparr>ac_step := StepL\<rparr>;
          best = (if better_alignment left best then left\<lparr>ac_step := StepR\<rparr> else best);
          distance = abs_ms_difference (or_time l) (or_time r)
      in if or_normal l = or_normal r \<and> distance \<le> tol
         then let matched = \<lparr>ac_matches = ac_matches diag + 1, ac_distance = wrap64 (ac_distance diag + distance), ac_step = StepM\<rparr>
              in if better_or_equal_alignment matched best then matched else best
         else best)"

fun fill_row :: "int \<Rightarrow> overlap_ref \<Rightarrow> overlap_ref list \<Rightarrow> alignment_cell \<Rightarrow> alignment_cell list \<Rightarrow> alignment_cell \<Rightarrow> alignment_cell list" where
  "fill_row tol l (r # rs) diag (up # ups) left =
     (let c = align_cell tol l r diag up left in c # fill_row tol l rs up ups c)"
| "fill_row tol l _ diag _ left = []"

definition first_row :: "overlap_ref list \<Rightarrow> alignment_cell list" where
  "first_row right = zero_cell # map (\<lambda>_. zero_cell\<lparr>ac_step := StepR\<rparr>) right"

definition next_row :: "int \<Rightarrow> overlap_ref list \<Rightarrow> overlap_ref \<Rightarrow> alignment_cell list \<Rightarrow> alignment_cell list" where
  "next_row tol right l row =
     (let c = (hd row)\<lparr>ac_step := StepL\<rparr> in c # fill_row tol l right (hd row) (tl row) c)"

fun fill_rows :: "int \<Rightarrow> overlap_ref list \<Rightarrow> overlap_ref list \<Rightarrow> alignment_cell list \<Rightarrow> alignment_cell list list" where
  "fill_rows tol right [] row = [row]"
| "fill_rows tol right (l # ls) row = row # fill_rows tol right ls (next_row tol right l row)"

definition align_table :: "int \<Rightarrow> overlap_ref list \<Rightarrow> overlap_ref list \<Rightarrow> alignment_cell list list" where
  "align_table tol left right = fill_rows tol right left (first_row right)"

text \<open>The walk back through the table; it appends, and the code reverses at the end.\<close>

function trace_back :: "alignment_cell list list \<Rightarrow> overlap_ref list \<Rightarrow> overlap_ref list \<Rightarrow> nat \<Rightarrow> nat \<Rightarrow> (nat \<times> nat) list" where
  "trace_back dp left right i j =
     (if i > 0 \<or> j > 0 then
        (case ac_step (dp ! i ! j) of
           StepM \<Rightarrow> if i > 0 \<and> j > 0
                    then (or_index (left ! (i - 1)), or_index (right ! (j - 1))) # trace_back dp left right (i - 1) (j - 1)
                    else []
         | StepL \<Rightarrow> if i > 0 then trace_back dp left right (i - 1) j else []
         | StepR \<Rightarrow> if j > 0 then trace_back dp left right i (j - 1) else []
         | StepNone \<Rightarrow> [])
      else [])"
  by pat_completeness auto
termination by (relation "measure (\<lambda>(dp, left, right, i, j). i + j)") auto

declare trace_back.simps [simp del]

definition align_overlap_words :: "overlap_text \<Rightarrow> stt_word list \<Rightarrow> stt_word list \<Rightarrow> int \<Rightarrow> int \<Rightarrow> int \<Rightarrow> (nat \<times> nat) list" where
  "align_overlap_words T acc nxt lo hi tol =
     (let left = overlap_word_refs T acc lo hi tol; right = overlap_word_refs T nxt lo hi tol in
      if left = [] \<or> right = [] then []
      else rev (trace_back (align_table tol left right) left right (length left) (length right)))"

subsection \<open>Merging\<close>

definition confident_match :: "stt_word list \<Rightarrow> stt_word list \<Rightarrow> int \<Rightarrow> nat \<times> nat \<Rightarrow> bool" where
  "confident_match acc nxt hi m =
     (let old = acc ! fst m; new = nxt ! snd m in
      abs_ms_difference (w_start_ms old) (w_start_ms new) \<le> overlap_singleton_tolerance \<or>
      (w_start_ms old = hi \<and> w_end_ms old = hi))"

definition match_shift :: "stt_word list \<Rightarrow> stt_word list \<Rightarrow> nat \<times> nat \<Rightarrow> int" where
  "match_shift acc nxt m = wrap64 (w_start_ms (nxt ! snd m) - w_start_ms (acc ! fst m))"

definition same_shift :: "stt_word list \<Rightarrow> stt_word list \<Rightarrow> nat \<times> nat \<Rightarrow> nat \<times> nat \<Rightarrow> bool" where
  "same_shift acc nxt l r \<longleftrightarrow> fst r = fst l + 1 \<and> snd r = snd l + 1 \<and>
     abs_ms_difference (match_shift acc nxt l) (match_shift acc nxt r) \<le> overlap_shift_consistency"

fun keep_runs :: "stt_word list \<Rightarrow> stt_word list \<Rightarrow> (nat \<times> nat) list \<Rightarrow> nat \<Rightarrow> bool list \<Rightarrow> bool list" where
  "keep_runs acc nxt (l # r # ms) i keep =
     keep_runs acc nxt (r # ms) (Suc i) (if same_shift acc nxt l r then keep[i := True, Suc i := True] else keep)"
| "keep_runs acc nxt _ i keep = keep"

definition confident_overlap_matches :: "(nat \<times> nat) list \<Rightarrow> stt_word list \<Rightarrow> stt_word list \<Rightarrow> int \<Rightarrow> (nat \<times> nat) list" where
  "confident_overlap_matches ms acc nxt hi =
     (let keep = keep_runs acc nxt ms 0 (map (confident_match acc nxt hi) ms)
      in map fst (filter snd (zip ms keep)))"

definition has_word_in_overlap :: "overlap_text \<Rightarrow> stt_word list \<Rightarrow> int \<Rightarrow> int \<Rightarrow> bool" where
  "has_word_in_overlap T ws lo hi = list_ex (\<lambda>w.
     \<not> (w_end_ms w < w_start_ms w \<or> normalize_overlap_word T (w_text w) = []) \<and>
     (if w_end_ms w = w_start_ms w then w_start_ms w \<ge> lo \<and> w_start_ms w \<le> hi
      else w_end_ms w > lo \<and> w_start_ms w < hi)) ws"

definition merge_overlap_at_midpoint :: "stt_word list \<Rightarrow> stt_word list \<Rightarrow> int \<Rightarrow> int \<Rightarrow> stt_word list" where
  "merge_overlap_at_midpoint acc nxt start overlap =
     (let cut = wrap64 (start + overlap sdiv 2)
      in rev (dropWhile (\<lambda>w. w_start_ms w \<ge> cut) (rev acc)) @ filter (\<lambda>w. w_start_ms w \<ge> cut) nxt)"

text \<open>Which copy of a matched word goes: true when the old one does.\<close>

definition drop_old :: "stt_word \<Rightarrow> stt_word \<Rightarrow> int \<Rightarrow> int \<Rightarrow> bool" where
  "drop_old old new lo hi =
     (let old_dur = w_end_ms old > w_start_ms old; new_dur = w_end_ms new > w_start_ms new in
      if old_dur \<noteq> new_dur then new_dur
      else max 0 (wrap64 (word_midpoint_ms new - lo)) > max 0 (wrap64 (hi - word_midpoint_ms old)))"

definition mark_drop :: "stt_word list \<Rightarrow> stt_word list \<Rightarrow> int \<Rightarrow> int \<Rightarrow> bool list \<times> bool list \<Rightarrow> nat \<times> nat \<Rightarrow> bool list \<times> bool list" where
  "mark_drop acc nxt lo hi d m =
     (if drop_old (acc ! fst m) (nxt ! snd m) lo hi then ((fst d)[fst m := True], snd d)
      else (fst d, (snd d)[snd m := True]))"

definition undropped :: "stt_word list \<Rightarrow> bool list \<Rightarrow> stt_word list" where
  "undropped ws d = map fst (filter (\<lambda>x. \<not> snd x) (zip ws d))"

definition dedup_with_policy :: "overlap_text \<Rightarrow> stt_word list \<Rightarrow> stt_word list \<Rightarrow> bool \<Rightarrow> int \<Rightarrow> int \<Rightarrow> bool \<Rightarrow> stt_word list" where
  "dedup_with_policy T acc nxt first start overlap midpoint =
     (if first \<or> acc = [] then acc @ nxt
      else if nxt = [] then acc
      else
        let hi = wrap64 (start + overlap);
            matches = confident_overlap_matches (align_overlap_words T acc nxt start hi overlap_duplicate_tolerance) acc nxt hi
        in if midpoint \<and> matches = [] \<and> has_word_in_overlap T acc start hi \<and> has_word_in_overlap T nxt start hi
           then merge_overlap_at_midpoint acc nxt start overlap
           else
             let d = foldl (mark_drop acc nxt start hi) (replicate (length acc) False, replicate (length nxt) False) matches
             in sort_key w_start_ms (undropped acc (fst d) @ undropped nxt (snd d)))"

definition dedup_overlapping_words :: "overlap_text \<Rightarrow> stt_word list \<Rightarrow> stt_word list \<Rightarrow> bool \<Rightarrow> int \<Rightarrow> int \<Rightarrow> stt_word list" where
  "dedup_overlapping_words T acc nxt first start overlap = dedup_with_policy T acc nxt first start overlap False"

definition dedup_merged_fallback_words :: "overlap_text \<Rightarrow> stt_word list \<Rightarrow> stt_word list \<Rightarrow> bool \<Rightarrow> int \<Rightarrow> int \<Rightarrow> stt_word list" where
  "dedup_merged_fallback_words T acc nxt first start overlap = dedup_with_policy T acc nxt first start overlap True"


subsection \<open>The alignment is a best one\<close>

lemma small_abs: "small_ms a \<Longrightarrow> small_ms b \<Longrightarrow> abs_ms_difference a b = \<bar>a - b\<bar>"
  using small_diff[of a b] small_diff[of b a] by (simp add: abs_ms_difference_def)

definition ref_match :: "int \<Rightarrow> overlap_ref \<Rightarrow> overlap_ref \<Rightarrow> bool" where
  "ref_match tol l r \<longleftrightarrow> or_normal l = or_normal r \<and> abs_ms_difference (or_time l) (or_time r) \<le> tol"

definition increasing :: "(nat \<times> nat) list \<Rightarrow> bool" where
  "increasing A \<longleftrightarrow> sorted_wrt (\<lambda>x y. fst x < fst y \<and> snd x < snd y) A"

definition aligned :: "int \<Rightarrow> overlap_ref list \<Rightarrow> overlap_ref list \<Rightarrow> nat \<Rightarrow> nat \<Rightarrow> (nat \<times> nat) list \<Rightarrow> bool" where
  "aligned tol left right i j A \<longleftrightarrow> increasing A \<and>
     (\<forall>x\<in>set A. fst x < i \<and> snd x < j \<and> ref_match tol (left ! fst x) (right ! snd x))"

definition ref_gap :: "overlap_ref list \<Rightarrow> overlap_ref list \<Rightarrow> nat \<times> nat \<Rightarrow> int" where
  "ref_gap left right x = abs_ms_difference (or_time (left ! fst x)) (or_time (right ! snd x))"

text \<open>More matches first, then less total distance.\<close>

definition align_score :: "overlap_ref list \<Rightarrow> overlap_ref list \<Rightarrow> (nat \<times> nat) list \<Rightarrow> int \<times> int" where
  "align_score left right A = (int (length A), - sum_list (map (ref_gap left right) A))"

definition cell_score :: "alignment_cell \<Rightarrow> int \<times> int" where
  "cell_score c = (ac_matches c, - ac_distance c)"

fun cell_at :: "int \<Rightarrow> overlap_ref list \<Rightarrow> overlap_ref list \<Rightarrow> nat \<Rightarrow> nat \<Rightarrow> alignment_cell" where
  "cell_at tol left right 0 0 = zero_cell"
| "cell_at tol left right 0 (Suc j) = zero_cell\<lparr>ac_step := StepR\<rparr>"
| "cell_at tol left right (Suc i) 0 = zero_cell\<lparr>ac_step := StepL\<rparr>"
| "cell_at tol left right (Suc i) (Suc j) = align_cell tol (left ! i) (right ! j) (cell_at tol left right i j)
     (cell_at tol left right i (Suc j)) (cell_at tol left right (Suc i) j)"

lemma fill_row_cells:
  assumes "j \<le> length right"
  shows "fill_row tol (left ! i) (drop j right) (cell_at tol left right i j)
      (map (cell_at tol left right i) [Suc j..<Suc (length right)]) (cell_at tol left right (Suc i) j) =
    map (cell_at tol left right (Suc i)) [Suc j..<Suc (length right)]"
  using assms
proof (induction "length right - j" arbitrary: j)
  case 0
  then show ?case by simp
next
  case (Suc n)
  then have j: "j < length right" and d: "drop j right = right ! j # drop (Suc j) right"
    by (simp_all add: Cons_nth_drop_Suc)
  have u: "[Suc j..<Suc (length right)] = Suc j # [Suc (Suc j)..<Suc (length right)]" using j by (simp add: upt_conv_Cons)
  have "fill_row tol (left ! i) (drop (Suc j) right) (cell_at tol left right i (Suc j))
      (map (cell_at tol left right i) [Suc (Suc j)..<Suc (length right)]) (cell_at tol left right (Suc i) (Suc j)) =
    map (cell_at tol left right (Suc i)) [Suc (Suc j)..<Suc (length right)]"
    by (rule Suc.hyps) (use Suc j in auto)
  then show ?case unfolding d u by (simp del: upt_Suc)
qed

lemma next_row_cells:
  "next_row tol right (left ! i) (map (cell_at tol left right i) [0..<Suc (length right)]) =
    map (cell_at tol left right (Suc i)) [0..<Suc (length right)]"
proof -
  have u: "[0..<Suc (length right)] = 0 # [Suc 0..<Suc (length right)]" by (rule upt_conv_Cons) simp
  have c: "(cell_at tol left right i 0)\<lparr>ac_step := StepL\<rparr> = cell_at tol left right (Suc i) 0" by (cases i) (simp_all add: zero_cell_def)
  show ?thesis unfolding u next_row_def using fill_row_cells[of 0 right tol left i] by (simp add: Let_def c del: upt_Suc)
qed

lemma first_row_cells: "first_row right = map (cell_at tol left right 0) [0..<Suc (length right)]"
proof -
  have u: "[0..<Suc (length right)] = 0 # map Suc [0..<length right]" unfolding map_Suc_upt by (rule upt_conv_Cons) simp
  show ?thesis unfolding u by (simp add: first_row_def comp_def map_replicate_const)
qed

lemma align_table_cells:
  assumes "i \<le> length left" and "j \<le> length right"
  shows "align_table tol left right ! i ! j = cell_at tol left right i j"
proof -
  have rows: "fill_rows tol right (drop k left) (map (cell_at tol left right k) [0..<Suc (length right)]) ! m =
      map (cell_at tol left right (k + m)) [0..<Suc (length right)]" if "k + m \<le> length left" for k m
    using that
  proof (induction m arbitrary: k)
    case 0
    then show ?case by (cases "drop k left") (simp_all del: upt_Suc)
  next
    case (Suc m)
    then have k: "drop k left = left ! k # drop (Suc k) left" by (simp add: Cons_nth_drop_Suc)
    show ?case unfolding k using Suc.IH[of "Suc k"] Suc.prems by (simp add: next_row_cells del: upt_Suc)
  qed
  show ?thesis unfolding align_table_def first_row_cells[of right tol left]
    using rows[of 0 i] assms by (simp del: upt_Suc add: nth_append less_Suc_eq_le)
qed

text \<open>Distances do not overflow.\<close>

lemma ref_gap_nonneg: "small_ms a \<Longrightarrow> small_ms b \<Longrightarrow> 0 \<le> abs_ms_difference a b"
  by (simp add: small_abs)

lemma better_iff: "better_alignment c d \<longleftrightarrow> cell_score d < cell_score c"
  "better_or_equal_alignment c d \<longleftrightarrow> cell_score d \<le> cell_score c"
  by (auto simp: better_alignment_def better_or_equal_alignment_def cell_score_def less_prod_def less_eq_prod_def)

lemma align_cell_cases:
  fixes diag up left :: alignment_cell and tol :: int
  assumes "in_i64 (ac_distance diag + abs_ms_difference (or_time l) (or_time r))"
  defines "c \<equiv> align_cell tol l r diag up left"
    and "m \<equiv> (fst (cell_score diag) + 1, snd (cell_score diag) - abs_ms_difference (or_time l) (or_time r))"
  shows "(ac_step c = StepL \<and> cell_score c = cell_score up \<or> ac_step c = StepR \<and> cell_score c = cell_score left \<or>
      ac_step c = StepM \<and> ref_match tol l r \<and> cell_score c = m) \<and>
    cell_score up \<le> cell_score c \<and> cell_score left \<le> cell_score c \<and> (ref_match tol l r \<longrightarrow> m \<le> cell_score c)"
proof -
  have s: "cell_score (x\<lparr>ac_step := st\<rparr>) = cell_score x" for x st by (simp add: cell_score_def)
  have w: "cell_score \<lparr>ac_matches = ac_matches diag + 1,
      ac_distance = wrap64 (ac_distance diag + abs_ms_difference (or_time l) (or_time r)), ac_step = StepM\<rparr> = m"
    by (simp add: cell_score_def m_def wrap64_id[OF assms(1)])
  show ?thesis unfolding c_def align_cell_def Let_def better_iff w s ref_match_def[symmetric]
    by (auto simp: s w not_less not_le split: if_splits dest: less_imp_le order.trans)
qed

lemma cell_bounds:
  assumes "\<forall>r\<in>set left \<union> set right. small_ms (or_time r)" and "0 \<le> tol" "tol \<le> 2 ^ 20" and "length left < 2 ^ 40"
    and "i \<le> length left" "j \<le> length right"
  shows "0 \<le> ac_matches (cell_at tol left right i j) \<and> ac_matches (cell_at tol left right i j) \<le> int i \<and>
    0 \<le> ac_distance (cell_at tol left right i j) \<and> ac_distance (cell_at tol left right i j) \<le> ac_matches (cell_at tol left right i j) * tol"
  using assms
proof (induction tol left right i j rule: cell_at.induct)
  case (4 tol left right i j)
  let ?D = "cell_at tol left right i j" and ?g = "abs_ms_difference (or_time (left ! i)) (or_time (right ! j))"
  have D: "0 \<le> ac_matches ?D" "ac_matches ?D \<le> int i" "0 \<le> ac_distance ?D" "ac_distance ?D \<le> ac_matches ?D * tol"
    using 4 by simp_all
  have "small_ms (or_time (left ! i))" "small_ms (or_time (right ! j))" using 4 by simp_all
  then have g: "0 \<le> ?g" by (rule ref_gap_nonneg)
  have ov: "in_i64 (ac_distance ?D + ?g)" if "?g \<le> tol"
  proof -
    have "ac_matches ?D * tol \<le> 2 ^ 40 * 2 ^ 20" using D 4 by (intro mult_mono) auto
    then show ?thesis using D(3,4) g that 4(6) by (simp add: in_i64_def min_i64_def max_i64_def)
  qed
  have w: "wrap64 (ac_distance ?D + ?g) = ac_distance ?D + ?g" if "?g \<le> tol" using wrap64_id[OF ov[OF that]] .
  have m: "ac_distance ?D + ?g \<le> (ac_matches ?D + 1) * tol" if "?g \<le> tol" using D(4) that by (simp add: algebra_simps)
  have U: "0 \<le> ac_matches (cell_at tol left right i (Suc j))" "ac_matches (cell_at tol left right i (Suc j)) \<le> int i"
    "0 \<le> ac_distance (cell_at tol left right i (Suc j))"
    "ac_distance (cell_at tol left right i (Suc j)) \<le> ac_matches (cell_at tol left right i (Suc j)) * tol" using 4 by simp_all
  have L: "0 \<le> ac_matches (cell_at tol left right (Suc i) j)" "ac_matches (cell_at tol left right (Suc i) j) \<le> int (Suc i)"
    "0 \<le> ac_distance (cell_at tol left right (Suc i) j)"
    "ac_distance (cell_at tol left right (Suc i) j) \<le> ac_matches (cell_at tol left right (Suc i) j) * tol" using 4 by simp_all
  show ?case using D U L w m g by (auto simp: align_cell_def Let_def)
qed (simp_all add: zero_cell_def)


definition calm_refs :: "int \<Rightarrow> overlap_ref list \<Rightarrow> overlap_ref list \<Rightarrow> bool" where
  "calm_refs tol left right \<longleftrightarrow> (\<forall>r\<in>set left \<union> set right. small_ms (or_time r)) \<and> 0 \<le> tol \<and> tol \<le> 2 ^ 20 \<and> length left < 2 ^ 40"

text \<open>A cell against its neighbours; a matched cell is only needed when the pair matches.\<close>

lemma cell_cases:
  assumes "calm_refs tol left right" and "i < length left" "j < length right"
  defines "c \<equiv> cell_at tol left right"
    and "m \<equiv> (fst (cell_score (cell_at tol left right i j)) + 1, snd (cell_score (cell_at tol left right i j)) - ref_gap left right (i, j))"
  shows "(ac_step (c (Suc i) (Suc j)) = StepL \<and> cell_score (c (Suc i) (Suc j)) = cell_score (c i (Suc j)) \<or>
      ac_step (c (Suc i) (Suc j)) = StepR \<and> cell_score (c (Suc i) (Suc j)) = cell_score (c (Suc i) j) \<or>
      ac_step (c (Suc i) (Suc j)) = StepM \<and> ref_match tol (left ! i) (right ! j) \<and> cell_score (c (Suc i) (Suc j)) = m) \<and>
    cell_score (c i (Suc j)) \<le> cell_score (c (Suc i) (Suc j)) \<and> cell_score (c (Suc i) j) \<le> cell_score (c (Suc i) (Suc j)) \<and>
    (ref_match tol (left ! i) (right ! j) \<longrightarrow> m \<le> cell_score (c (Suc i) (Suc j)))"
proof (cases "ref_match tol (left ! i) (right ! j)")
  case True
  have b: "0 \<le> ac_matches (c i j)" "ac_matches (c i j) \<le> int i" "0 \<le> ac_distance (c i j)" "ac_distance (c i j) \<le> ac_matches (c i j) * tol"
    using cell_bounds[of left right tol i j] assms(1-3) unfolding c_def calm_refs_def by auto
  have g: "0 \<le> ref_gap left right (i, j)" "ref_gap left right (i, j) \<le> tol"
    using assms(1-3) True by (auto simp: ref_gap_def ref_match_def calm_refs_def intro!: ref_gap_nonneg)
  have "ac_matches (c i j) * tol \<le> 2 ^ 40 * 2 ^ 20" using b assms(1-3) by (intro mult_mono) (auto simp: calm_refs_def)
  then have "in_i64 (ac_distance (c i j) + ref_gap left right (i, j))"
    using b g assms(1) by (simp add: in_i64_def min_i64_def max_i64_def calm_refs_def)
  then have "in_i64 (ac_distance (c i j) + abs_ms_difference (or_time (left ! i)) (or_time (right ! j)))"
    by (simp add: ref_gap_def)
  from align_cell_cases[OF this, of tol "c i (Suc j)" "c (Suc i) j"] show ?thesis
    by (simp add: c_def m_def ref_gap_def)
next
  case False
  have s: "cell_score (x\<lparr>ac_step := st\<rparr>) = cell_score x" for x st by (simp add: cell_score_def)
  have e: "c (Suc i) (Suc j) = (if better_alignment (c (Suc i) j) ((c i (Suc j))\<lparr>ac_step := StepL\<rparr>)
      then (c (Suc i) j)\<lparr>ac_step := StepR\<rparr> else (c i (Suc j))\<lparr>ac_step := StepL\<rparr>)"
    using False by (auto simp: c_def align_cell_def Let_def ref_match_def)
  show ?thesis unfolding e using False by (auto simp: better_iff s not_less less_imp_le)
qed

lemma score_mono: "(a, b) \<le> (c, d) \<Longrightarrow> (a + 1, b - g) \<le> (c + 1, d - (g :: int))" for a b c d :: int
  by (auto simp: less_eq_prod_def less_prod_def)

lemma aligned_score_le:
  assumes "calm_refs tol left right" and "aligned tol left right i j A" and "i \<le> length left" "j \<le> length right"
  shows "align_score left right A \<le> cell_score (cell_at tol left right i j)"
  using assms(2-)
proof (induction "i + j" arbitrary: i j A rule: less_induct)
  case less
  show ?case
  proof (cases "i = 0 \<or> j = 0")
    case True
    then have "A = []" using less.prems(1) by (cases A) (auto simp: aligned_def)
    then show ?thesis using True by (cases i; cases j) (auto simp: align_score_def cell_score_def zero_cell_def)
  next
    case False
    then obtain i' j' where ij: "i = Suc i'" "j = Suc j'" by (cases i; cases j) auto
    have len: "i' < length left" "j' < length right" using less.prems ij by simp_all
    note cc = cell_cases[OF assms(1) len]
    have inc: "increasing A" and el: "\<And>x. x \<in> set A \<Longrightarrow> fst x < i \<and> snd x < j \<and> ref_match tol (left ! fst x) (right ! snd x)"
      using less.prems(1) by (auto simp: aligned_def)
    consider "\<forall>x\<in>set A. fst x < i'" | "\<forall>x\<in>set A. snd x < j'" | x y where "x \<in> set A" "fst x = i'" "y \<in> set A" "snd y = j'"
      using el ij by (metis less_Suc_eq)
    then show ?thesis
    proof cases
      case 1
      then have "aligned tol left right i' j A" using less.prems(1) by (auto simp: aligned_def)
      then have "align_score left right A \<le> cell_score (cell_at tol left right i' j)"
        using less.hyps[of i' j A] less.prems ij by simp
      then show ?thesis using cc ij by (auto intro: order.trans)
    next
      case 2
      then have "aligned tol left right i j' A" using less.prems(1) by (auto simp: aligned_def)
      then have "align_score left right A \<le> cell_score (cell_at tol left right i j')"
        using less.hyps[of i j' A] less.prems ij by simp
      then show ?thesis using cc ij by (auto intro: order.trans)
    next
      case 3
      obtain B z where A: "A = B @ [z]" using 3(1) by (cases A rule: rev_cases) auto
      have before: "fst b < fst z \<and> snd b < snd z" if "b \<in> set B" for b
        using inc that by (auto simp: A increasing_def sorted_wrt_append)
      have zl: "fst z < Suc i'" "snd z < Suc j'" using el[of z] ij by (simp_all add: A)
      have "x = z" using 3(1,2) before[of x] zl by (auto simp: A)
      moreover have "y = z" using 3(3,4) before[of y] zl by (auto simp: A)
      ultimately have z: "z = (i', j')" using 3(2,4) by (metis prod.collapse)
      have m: "ref_match tol (left ! i') (right ! j')" using el[of z] by (simp add: A z)
      have "aligned tol left right i' j' B"
        using inc el before z by (auto simp: A aligned_def increasing_def sorted_wrt_append)
      then have "align_score left right B \<le> cell_score (cell_at tol left right i' j')"
        using less.hyps[of i' j' B] less.prems ij by simp
      then have "(fst (align_score left right B) + 1, snd (align_score left right B) - ref_gap left right (i', j')) \<le>
          (fst (cell_score (cell_at tol left right i' j')) + 1, snd (cell_score (cell_at tol left right i' j')) - ref_gap left right (i', j'))"
        by (intro score_mono) simp
      also have "\<dots> \<le> cell_score (cell_at tol left right i j)" using cc m ij by simp
      finally show ?thesis by (simp add: A z align_score_def add.commute)
    qed
  qed
qed

lemma trace_back_aligned:
  assumes "calm_refs tol left right" and "i \<le> length left" "j \<le> length right"
  shows "\<exists>A. aligned tol left right i j A \<and> align_score left right A = cell_score (cell_at tol left right i j) \<and>
    rev (trace_back (align_table tol left right) left right i j) = map (\<lambda>x. (or_index (left ! fst x), or_index (right ! snd x))) A"
  using assms(2-)
proof (induction "i + j" arbitrary: i j rule: less_induct)
  case less
  note at = align_table_cells[OF less.prems, of tol]
  have wider: "aligned tol left right i j A" if "aligned tol left right i' j' A" "i' \<le> i" "j' \<le> j" for i' j' A
    using that by (fastforce simp: aligned_def)
  consider "i = 0" "j = 0" | j' where "i = 0" "j = Suc j'" | i' where "i = Suc i'" "j = 0" | i' j' where "i = Suc i'" "j = Suc j'"
    by (cases i; cases j) auto
  then show ?case
  proof cases
    case 1
    then show ?thesis
      by (intro exI[of _ "[]"]) (simp add: trace_back.simps aligned_def increasing_def align_score_def cell_score_def zero_cell_def)
  next
    case 2
    then obtain A where A: "aligned tol left right 0 j' A" "align_score left right A = cell_score (cell_at tol left right 0 j')"
      "rev (trace_back (align_table tol left right) left right 0 j') = map (\<lambda>x. (or_index (left ! fst x), or_index (right ! snd x))) A"
      using less.hyps[of 0 j'] less.prems by auto
    have "trace_back (align_table tol left right) left right i j = trace_back (align_table tol left right) left right 0 j'"
      using at 2 by (subst trace_back.simps) simp
    moreover have "cell_score (cell_at tol left right i j) = cell_score (cell_at tol left right 0 j')"
      using 2 by (cases j') (simp_all add: cell_score_def zero_cell_def)
    ultimately show ?thesis using A wider[OF A(1)] 2 by auto
  next
    case 3
    then obtain A where A: "aligned tol left right i' 0 A" "align_score left right A = cell_score (cell_at tol left right i' 0)"
      "rev (trace_back (align_table tol left right) left right i' 0) = map (\<lambda>x. (or_index (left ! fst x), or_index (right ! snd x))) A"
      using less.hyps[of i' 0] less.prems by auto
    have "trace_back (align_table tol left right) left right i j = trace_back (align_table tol left right) left right i' 0"
      using at 3 by (subst trace_back.simps) simp
    moreover have "cell_score (cell_at tol left right i j) = cell_score (cell_at tol left right i' 0)"
      using 3 by (cases i') (simp_all add: cell_score_def zero_cell_def)
    ultimately show ?thesis using A wider[OF A(1)] 3 by auto
  next
    case 4
    have len: "i' < length left" "j' < length right" using less.prems 4 by simp_all
    from cell_cases[OF assms(1) len]
    consider (L) "ac_step (cell_at tol left right i j) = StepL" "cell_score (cell_at tol left right i j) = cell_score (cell_at tol left right i' j)"
      | (R) "ac_step (cell_at tol left right i j) = StepR" "cell_score (cell_at tol left right i j) = cell_score (cell_at tol left right i j')"
      | (M) "ac_step (cell_at tol left right i j) = StepM" "ref_match tol (left ! i') (right ! j')"
        "cell_score (cell_at tol left right i j) = (fst (cell_score (cell_at tol left right i' j')) + 1,
           snd (cell_score (cell_at tol left right i' j')) - ref_gap left right (i', j'))"
      using 4 by auto
    then show ?thesis
    proof cases
      case L
      then obtain A where A: "aligned tol left right i' j A" "align_score left right A = cell_score (cell_at tol left right i' j)"
        "rev (trace_back (align_table tol left right) left right i' j) = map (\<lambda>x. (or_index (left ! fst x), or_index (right ! snd x))) A"
        using less.hyps[of i' j] less.prems 4 by auto
      have "trace_back (align_table tol left right) left right i j = trace_back (align_table tol left right) left right i' j"
        using at L(1) 4 by (subst trace_back.simps) simp
      then show ?thesis using A wider[OF A(1)] 4 L(2) by auto
    next
      case R
      then obtain A where A: "aligned tol left right i j' A" "align_score left right A = cell_score (cell_at tol left right i j')"
        "rev (trace_back (align_table tol left right) left right i j') = map (\<lambda>x. (or_index (left ! fst x), or_index (right ! snd x))) A"
        using less.hyps[of i j'] less.prems 4 by auto
      have "trace_back (align_table tol left right) left right i j = trace_back (align_table tol left right) left right i j'"
        using at R(1) 4 by (subst trace_back.simps) simp
      then show ?thesis using A wider[OF A(1)] 4 R(2) by auto
    next
      case M
      obtain A where A: "aligned tol left right i' j' A" "align_score left right A = cell_score (cell_at tol left right i' j')"
        "rev (trace_back (align_table tol left right) left right i' j') = map (\<lambda>x. (or_index (left ! fst x), or_index (right ! snd x))) A"
        using less.hyps[of i' j'] less.prems 4 by auto
      have "trace_back (align_table tol left right) left right i j = (or_index (left ! i'), or_index (right ! j')) #
          trace_back (align_table tol left right) left right i' j'"
        using at M(1) 4 by (subst trace_back.simps) simp
      moreover have "aligned tol left right i j (A @ [(i', j')])"
        using A(1) M(2) 4 by (auto simp: aligned_def increasing_def sorted_wrt_append)
      moreover have "align_score left right (A @ [(i', j')]) = cell_score (cell_at tol left right i j)"
        unfolding M(3) A(2)[symmetric] by (simp add: align_score_def add.commute)
      ultimately show ?thesis using A(3) by (intro exI[of _ "A @ [(i', j')]"]) simp
    qed
  qed
qed


subsection \<open>Back to the words\<close>

text \<open>The words near the seam that have a text to compare.\<close>

definition near_seam :: "overlap_text \<Rightarrow> int \<Rightarrow> int \<Rightarrow> int \<Rightarrow> stt_word \<Rightarrow> bool" where
  "near_seam T lo hi tol w \<longleftrightarrow> w_start_ms w \<le> w_end_ms w \<and> wrap64 (lo - tol) \<le> w_end_ms w \<and>
     w_start_ms w \<le> wrap64 (hi + tol) \<and> normalize_overlap_word T (w_text w) \<noteq> []"

text \<open>A pairing of equal words near the seam, in order on both sides.\<close>

definition word_pairing :: "overlap_text \<Rightarrow> stt_word list \<Rightarrow> stt_word list \<Rightarrow> int \<Rightarrow> int \<Rightarrow> int \<Rightarrow> (nat \<times> nat) list \<Rightarrow> bool" where
  "word_pairing T acc nxt lo hi tol P \<longleftrightarrow> increasing P \<and> (\<forall>x\<in>set P. fst x < length acc \<and> snd x < length nxt \<and>
     near_seam T lo hi tol (acc ! fst x) \<and> near_seam T lo hi tol (nxt ! snd x) \<and>
     normalize_overlap_word T (w_text (acc ! fst x)) = normalize_overlap_word T (w_text (nxt ! snd x)) \<and>
     \<bar>w_start_ms (acc ! fst x) - w_start_ms (nxt ! snd x)\<bar> \<le> tol)"

definition pairing_distance :: "stt_word list \<Rightarrow> stt_word list \<Rightarrow> (nat \<times> nat) list \<Rightarrow> int" where
  "pairing_distance acc nxt P = sum_list (map (\<lambda>x. \<bar>w_start_ms (acc ! fst x) - w_start_ms (nxt ! snd x)\<bar>) P)"

definition seam_indices :: "overlap_text \<Rightarrow> stt_word list \<Rightarrow> int \<Rightarrow> int \<Rightarrow> int \<Rightarrow> nat list" where
  "seam_indices T ws lo hi tol = filter (\<lambda>k. near_seam T lo hi tol (ws ! k)) [0..<length ws]"

definition word_ref :: "overlap_text \<Rightarrow> stt_word list \<Rightarrow> nat \<Rightarrow> overlap_ref" where
  "word_ref T ws k = \<lparr>or_index = k, or_normal = normalize_overlap_word T (w_text (ws ! k)), or_time = w_start_ms (ws ! k)\<rparr>"

lemma overlap_refs_from_eq:
  "overlap_refs_from T i ws lo hi tol = map (\<lambda>k. \<lparr>or_index = i + k, or_normal = normalize_overlap_word T (w_text (ws ! k)),
     or_time = w_start_ms (ws ! k)\<rparr>) (seam_indices T ws lo hi tol)"
proof (induction ws arbitrary: i)
  case (Cons w ws)
  have "[0..<length (w # ws)] = 0 # map Suc [0..<length ws]" unfolding map_Suc_upt by (simp add: upt_conv_Cons del: upt_Suc)
  then have s: "seam_indices T (w # ws) lo hi tol = (if near_seam T lo hi tol w then [0] else []) @ map Suc (seam_indices T ws lo hi tol)"
    by (simp add: seam_indices_def filter_map comp_def)
  show ?case unfolding s by (auto simp: Cons.IH near_seam_def Let_def)
qed (simp add: seam_indices_def)

lemma overlap_word_refs_eq: "overlap_word_refs T ws lo hi tol = map (word_ref T ws) (seam_indices T ws lo hi tol)"
  by (simp add: overlap_word_refs_def overlap_refs_from_eq word_ref_def)

lemma seam_indices_sorted: "sorted_wrt (<) (seam_indices T ws lo hi tol)"
  unfolding seam_indices_def by (intro sorted_wrt_filter) simp

lemma seam_indices_nth:
  assumes "a < length (seam_indices T ws lo hi tol)"
  shows "seam_indices T ws lo hi tol ! a < length ws \<and> near_seam T lo hi tol (ws ! (seam_indices T ws lo hi tol ! a))"
  using nth_mem[OF assms] by (simp add: seam_indices_def)

lemma strict_nth_less:
  fixes xs :: "nat list"
  assumes "sorted_wrt (<) xs" and "a < length xs" "b < length xs"
  shows "xs ! a < xs ! b \<longleftrightarrow> a < b"
  using sorted_wrt_nth_less[OF assms(1)] assms(2,3) by (metis linorder_neqE_nat order_less_asym order_less_irrefl)

lemma align_words_best:
  fixes T :: overlap_text and lo hi tol :: int
  assumes small: "\<forall>w\<in>set acc \<union> set nxt. small_ms (w_start_ms w)" and tol: "0 \<le> tol" "tol \<le> 2 ^ 20" and len: "length acc < 2 ^ 40"
  defines "R \<equiv> align_overlap_words T acc nxt lo hi tol"
  shows "word_pairing T acc nxt lo hi tol R \<and> (\<forall>P. word_pairing T acc nxt lo hi tol P \<longrightarrow>
    length P \<le> length R \<and> (length P = length R \<longrightarrow> pairing_distance acc nxt R \<le> pairing_distance acc nxt P))"
proof -
  let ?L = "seam_indices T acc lo hi tol" and ?N = "seam_indices T nxt lo hi tol"
  let ?left = "map (word_ref T acc) ?L" and ?right = "map (word_ref T nxt) ?N"
  let ?idx = "\<lambda>x. (?L ! fst x, ?N ! snd x)"
  note Ln = seam_indices_nth[of _ T acc lo hi tol] and Nn = seam_indices_nth[of _ T nxt lo hi tol]
  note Ls = strict_nth_less[OF seam_indices_sorted[of T acc lo hi tol]] and Ns = strict_nth_less[OF seam_indices_sorted[of T nxt lo hi tol]]
  have in_acc: "acc ! (?L ! a) \<in> set acc" if "a < length ?L" for a using Ln[OF that] by simp
  have in_nxt: "nxt ! (?N ! b) \<in> set nxt" if "b < length ?N" for b using Nn[OF that] by simp
  have "length ?L \<le> length acc" unfolding seam_indices_def using length_filter_le[of _ "[0..<length acc]"] by simp
  then have calm: "calm_refs tol ?left ?right"
    using small tol len by (auto simp: calm_refs_def word_ref_def seam_indices_def)
  have gap: "abs_ms_difference (w_start_ms (acc ! (?L ! a))) (w_start_ms (nxt ! (?N ! b)))
      = \<bar>w_start_ms (acc ! (?L ! a)) - w_start_ms (nxt ! (?N ! b))\<bar>" if "a < length ?L" "b < length ?N" for a b
    using small in_acc[OF that(1)] in_nxt[OF that(2)] by (intro small_abs) auto
  have pair: "word_pairing T acc nxt lo hi tol (map ?idx A) \<longleftrightarrow> aligned tol ?left ?right (length ?L) (length ?N) A"
    if "\<forall>x\<in>set A. fst x < length ?L \<and> snd x < length ?N" for A
  proof -
    have "increasing (map ?idx A) \<longleftrightarrow> increasing A"
    proof -
      have "fst (?idx x) < fst (?idx y) \<and> snd (?idx x) < snd (?idx y) \<longleftrightarrow> fst x < fst y \<and> snd x < snd y"
        if "x \<in> set A" "y \<in> set A" for x y
        using \<open>\<forall>x\<in>set A. _ x\<close> that Ls[of "fst x" "fst y"] Ns[of "snd x" "snd y"] by auto
      then show ?thesis unfolding increasing_def sorted_wrt_map by (auto elim!: sorted_wrt_mono_rel[rotated])
    qed
    moreover have "fst (?idx x) < length acc \<and> snd (?idx x) < length nxt \<and> near_seam T lo hi tol (acc ! fst (?idx x)) \<and>
        near_seam T lo hi tol (nxt ! snd (?idx x))" if "fst x < length ?L" "snd x < length ?N" for x
      using Ln[OF that(1)] Nn[OF that(2)] by simp
    ultimately show ?thesis using that gap
      unfolding word_pairing_def aligned_def by (auto simp: ref_match_def word_ref_def)
  qed
  have score: "align_score ?left ?right A = (int (length (map ?idx A)), - pairing_distance acc nxt (map ?idx A))"
    if "\<forall>x\<in>set A. fst x < length ?L \<and> snd x < length ?N" for A
  proof -
    have gm: "map (ref_gap ?left ?right) A = map (\<lambda>x. \<bar>w_start_ms (acc ! fst x) - w_start_ms (nxt ! snd x)\<bar>) (map ?idx A)"
      using that gap by (simp add: ref_gap_def word_ref_def)
    show ?thesis unfolding align_score_def pairing_distance_def gm by simp
  qed
  obtain A where A: "aligned tol ?left ?right (length ?L) (length ?N) A" "map ?idx A = R"
    "align_score ?left ?right A = cell_score (cell_at tol ?left ?right (length ?L) (length ?N))"
  proof (cases "?L = [] \<or> ?N = []")
    case True
    then have "R = []" by (auto simp: R_def align_overlap_words_def overlap_word_refs_eq)
    moreover have "cell_score (cell_at tol ?left ?right (length ?L) (length ?N)) = (0, 0)"
      using True by (cases "length ?L"; cases "length ?N") (auto simp: cell_score_def zero_cell_def)
    ultimately show ?thesis using that[of "[]"] by (simp add: aligned_def increasing_def align_score_def)
  next
    case False
    have "\<exists>A. aligned tol ?left ?right (length ?left) (length ?right) A \<and>
      align_score ?left ?right A = cell_score (cell_at tol ?left ?right (length ?left) (length ?right)) \<and>
      rev (trace_back (align_table tol ?left ?right) ?left ?right (length ?left) (length ?right)) =
        map (\<lambda>x. (or_index (?left ! fst x), or_index (?right ! snd x))) A"
      by (rule trace_back_aligned[OF calm]) simp_all
    then obtain A where A: "aligned tol ?left ?right (length ?L) (length ?N) A"
      "align_score ?left ?right A = cell_score (cell_at tol ?left ?right (length ?L) (length ?N))"
      "R = map (\<lambda>x. (or_index (?left ! fst x), or_index (?right ! snd x))) A"
      using False by (auto simp: R_def align_overlap_words_def overlap_word_refs_eq)
    have "R = map ?idx A" unfolding A(3) using A(1) by (auto simp: aligned_def word_ref_def)
    then show ?thesis using that A(1,2) by blast
  qed
  have inA: "\<forall>x\<in>set A. fst x < length ?L \<and> snd x < length ?N" using A(1) by (auto simp: aligned_def)
  have "word_pairing T acc nxt lo hi tol R" using pair[OF inA] A(1,2) by simp
  moreover have "length P \<le> length R \<and> (length P = length R \<longrightarrow> pairing_distance acc nxt R \<le> pairing_distance acc nxt P)"
    if P: "word_pairing T acc nxt lo hi tol P" for P
  proof -
    have "\<exists>y. fst y < length ?L \<and> snd y < length ?N \<and> ?idx y = x" if "x \<in> set P" for x
    proof -
      have "fst x \<in> set ?L" "snd x \<in> set ?N" using P that by (auto simp: word_pairing_def seam_indices_def)
      then obtain a b where "a < length ?L" "?L ! a = fst x" "b < length ?N" "?N ! b = snd x" by (auto simp: in_set_conv_nth)
      then show ?thesis by (intro exI[of _ "(a, b)"]) simp
    qed
    then obtain g where g: "\<And>x. x \<in> set P \<Longrightarrow> fst (g x) < length ?L \<and> snd (g x) < length ?N \<and> ?idx (g x) = x" by metis
    let ?B = "map g P"
    have B: "\<forall>x\<in>set ?B. fst x < length ?L \<and> snd x < length ?N" "map ?idx ?B = P" using g by (auto simp: map_idI)
    have "align_score ?left ?right ?B \<le> cell_score (cell_at tol ?left ?right (length ?L) (length ?N))"
      by (rule aligned_score_le[OF calm]) (use pair[OF B(1)] B(2) P in auto)
    then have "(int (length P), - pairing_distance acc nxt P) \<le> (int (length R), - pairing_distance acc nxt R)"
      unfolding A(3)[symmetric] score[OF inA] score[OF B(1)] A(2) B(2) .
    then show ?thesis by (auto simp: less_eq_prod_def less_prod_def)
  qed
  ultimately show ?thesis by blast
qed


subsection \<open>What the merge drops\<close>

lemma keep_runs_length: "length (keep_runs acc nxt ms i keep) = length keep"
  by (induction acc nxt ms i keep rule: keep_runs.induct) auto

lemma keep_runs_nth:
  assumes "i + length ms \<le> length keep" and "k < length keep"
  shows "keep_runs acc nxt ms i keep ! k \<longleftrightarrow> keep ! k \<or>
    (\<exists>n. Suc n < length ms \<and> same_shift acc nxt (ms ! n) (ms ! Suc n) \<and> (k = i + n \<or> k = Suc (i + n)))"
  using assms
proof (induction acc nxt ms i keep rule: keep_runs.induct)
  case (1 acc nxt l r ms i keep)
  have ex: "(\<exists>n. Suc n < length (l # r # ms) \<and> Q n) \<longleftrightarrow> Q 0 \<or> (\<exists>n. Suc n < length (r # ms) \<and> Q (Suc n))" for Q
    by (metis (no_types, opaque_lifting) Suc_less_eq length_Cons not0_implies_Suc zero_less_Suc)
  show ?case unfolding ex using 1 by (auto simp: nth_list_update)
qed auto

text \<open>Why a pair counts: the starts are close, the old word is a stub at the seam, or a neighbour has the same shift.\<close>

definition justified :: "stt_word list \<Rightarrow> stt_word list \<Rightarrow> int \<Rightarrow> (nat \<times> nat) list \<Rightarrow> nat \<times> nat \<Rightarrow> bool" where
  "justified acc nxt hi P x \<longleftrightarrow> confident_match acc nxt hi x \<or> (\<exists>y\<in>set P. same_shift acc nxt x y \<or> same_shift acc nxt y x)"

lemma confident_matches_justified:
  assumes "x \<in> set (confident_overlap_matches ms acc nxt hi)"
  shows "justified acc nxt hi (confident_overlap_matches ms acc nxt hi) x"
proof -
  define keep where "keep = keep_runs acc nxt ms 0 (map (confident_match acc nxt hi) ms)"
  have l: "length keep = length ms" by (simp add: keep_def keep_runs_length)
  have c: "set (confident_overlap_matches ms acc nxt hi) = {ms ! k | k. k < length ms \<and> keep ! k}"
    using l unfolding confident_overlap_matches_def Let_def keep_def[symmetric] set_map set_filter set_zip
    by (auto intro!: image_eqI)
  have k: "keep ! k \<longleftrightarrow> confident_match acc nxt hi (ms ! k) \<or>
      (\<exists>n. Suc n < length ms \<and> same_shift acc nxt (ms ! n) (ms ! Suc n) \<and> (k = n \<or> k = Suc n))" if "k < length ms" for k
    using that keep_runs_nth[of 0 ms "map (confident_match acc nxt hi) ms" k acc nxt] by (simp add: keep_def)
  from assms obtain k where x: "k < length ms" "keep ! k" "x = ms ! k" unfolding c by auto
  show ?thesis
  proof (cases "confident_match acc nxt hi x")
    case False
    then obtain n where n: "Suc n < length ms" "same_shift acc nxt (ms ! n) (ms ! Suc n)" "k = n \<or> k = Suc n" using k[OF x(1)] x by auto
    then have "keep ! n" "keep ! Suc n" using k[of n] k[of "Suc n"] by auto
    then have "ms ! n \<in> set (confident_overlap_matches ms acc nxt hi)" "ms ! Suc n \<in> set (confident_overlap_matches ms acc nxt hi)"
      unfolding c using n(1) by (auto intro: Suc_lessD)
    then show ?thesis using n(2,3) x(3) unfolding justified_def by blast
  qed (simp add: justified_def)
qed

lemma filter_zip_increasing: "increasing ms \<Longrightarrow> increasing (map fst (filter snd (zip ms keep)))"
proof (induction ms arbitrary: keep)
  case (Cons m ms)
  have "set (map fst (filter snd (zip ms ks))) \<subseteq> set ms" for ks by (auto dest: set_zip_leftD)
  then show ?case using Cons by (cases keep) (fastforce simp: increasing_def)+
qed (simp add: increasing_def)

lemma confident_pairing:
  assumes "word_pairing T acc nxt lo hi tol ms"
  shows "word_pairing T acc nxt lo hi tol (confident_overlap_matches ms acc nxt h)"
proof -
  have "set (confident_overlap_matches ms acc nxt h) \<subseteq> set ms"
    by (auto simp: confident_overlap_matches_def Let_def dest: set_zip_leftD)
  moreover have "increasing (confident_overlap_matches ms acc nxt h)"
    unfolding confident_overlap_matches_def Let_def using assms by (intro filter_zip_increasing) (simp add: word_pairing_def)
  ultimately show ?thesis using assms unfolding word_pairing_def by blast
qed

text \<open>The word of a pair that goes.\<close>

definition loser :: "stt_word list \<Rightarrow> stt_word list \<Rightarrow> int \<Rightarrow> int \<Rightarrow> nat \<times> nat \<Rightarrow> stt_word" where
  "loser acc nxt lo hi x = (if drop_old (acc ! fst x) (nxt ! snd x) lo hi then acc ! fst x else nxt ! snd x)"

lemma undropped_none: "undropped ws (replicate (length ws) False) = ws"
  by (induction ws) (simp_all add: undropped_def)

lemma undropped_update:
  assumes "length d = length ws" and "k < length ws" and "\<not> d ! k"
  shows "mset (undropped ws d) = add_mset (ws ! k) (mset (undropped ws (d[k := True])))"
  using assms
proof (induction ws arbitrary: d k)
  case (Cons w ws)
  then obtain b bs where d: "d = b # bs" by (cases d) auto
  show ?case
  proof (cases k)
    case 0
    then show ?thesis using Cons.prems by (simp add: d undropped_def)
  next
    case (Suc n)
    then have "mset (undropped ws bs) = add_mset (ws ! n) (mset (undropped ws (bs[n := True])))"
      using Cons.IH[of bs n] Cons.prems by (simp add: d)
    then show ?thesis using Suc by (simp add: d undropped_def)
  qed
qed simp

lemma mark_drops:
  assumes "increasing P" and "\<forall>x\<in>set P. fst x < length acc \<and> snd x < length nxt"
    and "length (fst d) = length acc" "length (snd d) = length nxt"
    and "\<forall>x\<in>set P. \<not> fst d ! fst x \<and> \<not> snd d ! snd x"
  shows "mset (undropped acc (fst d)) + mset (undropped nxt (snd d)) =
    mset (undropped acc (fst (foldl (mark_drop acc nxt lo hi) d P))) +
    mset (undropped nxt (snd (foldl (mark_drop acc nxt lo hi) d P))) + mset (map (loser acc nxt lo hi) P)"
  using assms
proof (induction P arbitrary: d)
  case (Cons x P)
  let ?d = "mark_drop acc nxt lo hi d x"
  have step: "mset (undropped acc (fst d)) + mset (undropped nxt (snd d)) =
      add_mset (loser acc nxt lo hi x) (mset (undropped acc (fst ?d)) + mset (undropped nxt (snd ?d)))"
    using Cons.prems undropped_update[of "fst d" acc "fst x"] undropped_update[of "snd d" nxt "snd x"]
    by (simp add: mark_drop_def loser_def)
  have "mset (undropped acc (fst ?d)) + mset (undropped nxt (snd ?d)) =
    mset (undropped acc (fst (foldl (mark_drop acc nxt lo hi) ?d P))) +
    mset (undropped nxt (snd (foldl (mark_drop acc nxt lo hi) ?d P))) + mset (map (loser acc nxt lo hi) P)"
    by (rule Cons.IH) (use Cons.prems in \<open>auto simp: mark_drop_def increasing_def nth_list_update\<close>)
  then show ?case using step by simp
qed simp

text \<open>
  A merge is a start-sorted list of all the words but one of each pair of a pairing, whose pairs are
  equal words near the seam, each of them justified.
\<close>

definition drops_pairs :: "overlap_text \<Rightarrow> stt_word list \<Rightarrow> stt_word list \<Rightarrow> int \<Rightarrow> int \<Rightarrow> stt_word list \<Rightarrow> (nat \<times> nat) list \<Rightarrow> bool" where
  "drops_pairs T acc nxt lo hi merged P \<longleftrightarrow>
     word_pairing T acc nxt lo hi overlap_duplicate_tolerance P \<and> (\<forall>x\<in>set P. justified acc nxt hi P x) \<and>
     mset acc + mset nxt = mset merged + mset (map (loser acc nxt lo hi) P)"

lemma dedup_drops_pairs:
  fixes T :: overlap_text and start overlap :: int
  assumes "\<forall>w\<in>set acc \<union> set nxt. small_ms (w_start_ms w)" and "length acc < 2 ^ 40" and "acc \<noteq> []" "nxt \<noteq> []"
  shows "sorted (map w_start_ms (dedup_overlapping_words T acc nxt False start overlap)) \<and>
    (\<exists>P. drops_pairs T acc nxt start (wrap64 (start + overlap)) (dedup_overlapping_words T acc nxt False start overlap) P)"
proof -
  let ?hi = "wrap64 (start + overlap)"
  define P where "P = confident_overlap_matches (align_overlap_words T acc nxt start ?hi overlap_duplicate_tolerance) acc nxt ?hi"
  define d where "d = foldl (mark_drop acc nxt start ?hi) (replicate (length acc) False, replicate (length nxt) False) P"
  have M: "dedup_overlapping_words T acc nxt False start overlap = sort_key w_start_ms (undropped acc (fst d) @ undropped nxt (snd d))"
    using assms(3,4) by (simp add: dedup_overlapping_words_def dedup_with_policy_def Let_def P_def d_def)
  have "word_pairing T acc nxt start ?hi overlap_duplicate_tolerance
      (align_overlap_words T acc nxt start ?hi overlap_duplicate_tolerance)"
    using align_words_best[of acc nxt overlap_duplicate_tolerance T start ?hi] assms(1,2) by (simp add: overlap_duplicate_tolerance_def)
  then have pairing: "word_pairing T acc nxt start ?hi overlap_duplicate_tolerance P"
    unfolding P_def by (rule confident_pairing)
  have "mset acc + mset nxt = mset (undropped acc (fst d)) + mset (undropped nxt (snd d)) + mset (map (loser acc nxt start ?hi) P)"
    using mark_drops[of P acc nxt "(replicate (length acc) False, replicate (length nxt) False)" start ?hi] pairing
    by (simp add: d_def undropped_none word_pairing_def)
  then have "drops_pairs T acc nxt start ?hi (dedup_overlapping_words T acc nxt False start overlap) P"
    using pairing confident_matches_justified unfolding drops_pairs_def M P_def by auto
  then show ?thesis unfolding M by auto
qed

text \<open>The fallback cuts at the middle of the overlap when both sides have words there and none agree.\<close>

lemma midpoint_cut:
  assumes "sorted (map w_start_ms acc)"
  shows "merge_overlap_at_midpoint acc nxt start overlap =
    filter (\<lambda>w. w_start_ms w < wrap64 (start + overlap sdiv 2)) acc @ filter (\<lambda>w. w_start_ms w \<ge> wrap64 (start + overlap sdiv 2)) nxt"
proof -
  have "rev (dropWhile (\<lambda>w. w_start_ms w \<ge> c) (rev ws)) = filter (\<lambda>w. w_start_ms w < c) ws"
    if "sorted (map w_start_ms ws)" for ws c
    using that
  proof (induction ws rule: rev_induct)
    case (snoc w ws)
    then show ?case by (auto simp: sorted_append intro!: filter_True[symmetric])
  qed simp
  then show ?thesis using assms by (simp add: merge_overlap_at_midpoint_def Let_def)
qed


subsection \<open>Properties\<close>

definition ex_text :: overlap_text where
  "ex_text = \<lparr>ot_case = ascii_unicode, ot_alnum = (\<lambda>r. 48 \<le> r \<and> r \<le> 57 \<or> 97 \<le> r \<and> r \<le> 122)\<rparr>"

definition ex_timed :: "string \<Rightarrow> int \<Rightarrow> int \<Rightarrow> stt_word" where
  "ex_timed t a b = \<lparr>w_text = t, w_start_ms = a, w_end_ms = b, w_gap_db = 0, w_has_gap = False,
     w_low_confidence = False, w_extent_cap = b\<rparr>"

definition ex_acc :: "stt_word list" where
  "ex_acc = [ex_timed ''so'' 9000 9200, ex_timed ''Morning.'' 9600 9900]"

definition ex_nxt :: "stt_word list" where
  "ex_nxt = [ex_timed ''morning,'' 9650 9950, ex_timed ''all'' 10200 10400]"

lemma ex_normal:
  "normalize_overlap_word ex_text ''so'' = [115, 111]"
  "normalize_overlap_word ex_text ''Morning.'' = [109, 111, 114, 110, 105, 110, 103]"
  "normalize_overlap_word ex_text ''morning,'' = [109, 111, 114, 110, 105, 110, 103]"
  "normalize_overlap_word ex_text ''all'' = [97, 108, 108]"
  by (simp_all add: normalize_overlap_word_def rune_list_ascii byte_def lower_rune_def ex_text_def space_runes_def overlap_marks_def Let_def)

lemma ex_refs:
  "overlap_word_refs ex_text ex_acc 9500 10000 400 = [\<lparr>or_index = 0, or_normal = [115, 111], or_time = 9000\<rparr>,
     \<lparr>or_index = 1, or_normal = [109, 111, 114, 110, 105, 110, 103], or_time = 9600\<rparr>]"
  "overlap_word_refs ex_text ex_nxt 9500 10000 400 = [\<lparr>or_index = 0, or_normal = [109, 111, 114, 110, 105, 110, 103], or_time = 9650\<rparr>,
     \<lparr>or_index = 1, or_normal = [97, 108, 108], or_time = 10200\<rparr>]"
  by (simp_all add: overlap_word_refs_def ex_acc_def ex_nxt_def ex_timed_def ex_normal wrap64_def)

lemma ex_matches: "align_overlap_words ex_text ex_acc ex_nxt 9500 10000 400 = [(1, 0)]"
proof -
  have "trace_back (align_table 400 (overlap_word_refs ex_text ex_acc 9500 10000 400) (overlap_word_refs ex_text ex_nxt 9500 10000 400))
    (overlap_word_refs ex_text ex_acc 9500 10000 400) (overlap_word_refs ex_text ex_nxt 9500 10000 400) 2 2 = [(1, 0)]"
    unfolding ex_refs
    by (simp add: align_table_def first_row_def next_row_def align_cell_def zero_cell_def Let_def better_alignment_def
      better_or_equal_alignment_def abs_ms_difference_def wrap64_def trace_back.simps numeral_2_eq_2)
  then show ?thesis by (simp add: align_overlap_words_def ex_refs Let_def numeral_2_eq_2)
qed
lemma ex_merge: "map w_text (dedup_overlapping_words ex_text ex_acc ex_nxt False 9500 500) = [''so'', ''morning,'', ''all'']"
proof -
  have "wrap64 (9500 + 500) = 10000" by (simp add: wrap64_def)
  then show ?thesis
    by (simp add: dedup_overlapping_words_def dedup_with_policy_def overlap_duplicate_tolerance_def ex_matches Let_def)
      (simp add: ex_acc_def ex_nxt_def ex_timed_def confident_overlap_matches_def confident_match_def overlap_singleton_tolerance_def
        abs_ms_difference_def wrap64_def mark_drop_def drop_old_def word_midpoint_ms_def undropped_def Let_def numeral_2_eq_2 signed_divide_int_def)
qed

text \<open>
  C4: Aligning the words of two overlapping windows finds a best pairing: the matches are in order on both
  sides, they pair words near the seam that are equal after normalisation and start within the tolerance,
  no such pairing has more matches, and none with as many has a smaller total distance between starts.
\<close>

theorem overlap_alignment_best:
  assumes "\<forall>w\<in>set acc \<union> set nxt. small_ms (w_start_ms w)" and "0 \<le> tol" "tol \<le> 2 ^ 20" and "length acc < 2 ^ 40"
  shows "word_pairing T acc nxt lo hi tol (align_overlap_words T acc nxt lo hi tol) \<and>
    (\<forall>P. word_pairing T acc nxt lo hi tol P \<longrightarrow>
       length P \<le> length (align_overlap_words T acc nxt lo hi tol) \<and>
       (length P = length (align_overlap_words T acc nxt lo hi tol) \<longrightarrow>
        pairing_distance acc nxt (align_overlap_words T acc nxt lo hi tol) \<le> pairing_distance acc nxt P))"
  using assms by (rule align_words_best)

theorem overlap_alignment_best_witness:
  "align_overlap_words ex_text ex_acc ex_nxt 9500 10000 400 = [(1, 0)] \<and>
   word_pairing ex_text ex_acc ex_nxt 9500 10000 400 [(1, 0)] \<and> \<not> word_pairing ex_text ex_acc ex_nxt 9500 10000 400 [(0, 0), (1, 1)]"
proof -
  have "\<forall>w\<in>set ex_acc \<union> set ex_nxt. small_ms (w_start_ms w)"
    by (simp add: ex_acc_def ex_nxt_def ex_timed_def small_ms_def)
  moreover have "length ex_acc < 2 ^ 40" by (simp add: ex_acc_def)
  ultimately show ?thesis using overlap_alignment_best[of ex_acc ex_nxt 400 ex_text 9500 10000] by (fastforce simp: ex_matches)
qed

text \<open>
  C17: Merging the words of two overlapping windows loses none: the merge is sorted by start, and the words of
  the two windows are the words of the merge and one word of each matched pair.  The pairs are in order and
  disjoint, their words are equal after normalisation and near the seam with starts at most 400 ms apart, and
  each pair is justified: starts at most 200 ms apart, a stub at the seam, or a neighbouring pair with the same
  shift.
\<close>

theorem dedup_keeps_words:
  assumes "\<forall>w\<in>set acc \<union> set nxt. small_ms (w_start_ms w)" and "length acc < 2 ^ 40" and "acc \<noteq> []" "nxt \<noteq> []"
  shows "sorted (map w_start_ms (dedup_overlapping_words T acc nxt False start overlap)) \<and>
    (\<exists>P. drops_pairs T acc nxt start (wrap64 (start + overlap)) (dedup_overlapping_words T acc nxt False start overlap) P)"
  using assms by (rule dedup_drops_pairs)

theorem dedup_keeps_words_witness:
  "map w_text (dedup_overlapping_words ex_text ex_acc ex_nxt False 9500 500) = [''so'', ''morning,'', ''all''] \<and>
   (\<exists>P. drops_pairs ex_text ex_acc ex_nxt 9500 10000 (dedup_overlapping_words ex_text ex_acc ex_nxt False 9500 500) P)"
proof -
  have w: "wrap64 10000 = 10000" by (simp add: wrap64_def)
  have "\<forall>w\<in>set ex_acc \<union> set ex_nxt. small_ms (w_start_ms w)"
    by (simp add: ex_acc_def ex_nxt_def ex_timed_def small_ms_def)
  moreover have "length ex_acc < 2 ^ 40" "ex_acc \<noteq> []" "ex_nxt \<noteq> []" by (simp_all add: ex_acc_def ex_nxt_def)
  ultimately show ?thesis using dedup_keeps_words[of ex_acc ex_nxt ex_text 9500 500] by (simp add: ex_merge w)
qed

end
