(* ===== verification/Decode_Windows.thy ===== *)
theory Decode_Windows
  imports Recognizer_Words Overlap_Merge
begin

text \<open>
  Speech recognition around the decoder (\<open>src/cassini-go-recorder/internal/transcribe/stt.go\<close>): how a recording
  is cut into decode windows, padded, decoded, and put together.  The decoder and the voice activity detector
  are sherpa-onnx (C++); they are the arguments \<open>D\<close> and \<open>V\<close>, a function of the samples and a record of the calls
  on the detector's queue.  Counts of samples are lengths and indices of slices, \<open>int\<close> without overflow.  A slice
  expression out of range panics (\<open>SlicePanic\<close>).  \<open>transcribeSegmentWithPolicy\<close> calls itself on the windows of
  a long span; the model counts the calls down, and \<open>OutOfFuel\<close> is the recursion that does not end.
\<close>

subsection \<open>Windows\<close>

text \<open>\<open>windowBound\<close> and the decode policy.\<close>

record window_bound =
  wb_start :: int
  wb_end :: int

record decode_policy =
  dp_window :: int
  dp_overlap :: int
  dp_grace :: int
  dp_min_terminal :: int
  dp_head_padding_ms :: int
  dp_tail_padding_ms :: int
  dp_context_ms :: int
  dp_preserve_span :: bool
  dp_no_padding :: bool

definition default_vad_decode_policy :: decode_policy where
  "default_vad_decode_policy = \<lparr>dp_window = 16000 * 10, dp_overlap = 16000 div 2, dp_grace = 16000 div 2,
     dp_min_terminal = 16000 * 5, dp_head_padding_ms = 0, dp_tail_padding_ms = 500, dp_context_ms = 0,
     dp_preserve_span = False, dp_no_padding = False\<rparr>"

definition vad_decode_policy_for_model :: "bool \<Rightarrow> decode_policy" where
  "vad_decode_policy_for_model parakeet =
     (if parakeet
      then default_vad_decode_policy\<lparr>dp_preserve_span := True, dp_context_ms := 30, dp_tail_padding_ms := 0, dp_no_padding := True\<rparr>
      else default_vad_decode_policy)"

definition scale_samples :: "int \<Rightarrow> int \<Rightarrow> int" where
  "scale_samples n rate = (if rate = 16000 \<or> rate \<le> 0 then n else wrap64 (n * rate) sdiv 16000)"

function window_loop :: "int \<Rightarrow> int \<Rightarrow> int \<Rightarrow> int \<Rightarrow> window_bound list" where
  "window_loop extent window stride start =
     (if start < extent \<and> 0 < stride then
        let end = start + window in
        if end \<ge> extent then [\<lparr>wb_start = start, wb_end = extent\<rparr>]
        else \<lparr>wb_start = start, wb_end = end\<rparr> # window_loop extent window stride (start + stride)
      else [])"
  by pat_completeness auto
termination by (relation "measure (\<lambda>(extent, window, stride, start). nat (extent - start))") auto

declare window_loop.simps [simp del]

definition non_vad_window_bounds :: "int \<Rightarrow> int \<Rightarrow> int \<Rightarrow> window_bound list" where
  "non_vad_window_bounds extent window overlap =
     (if extent \<le> 0 then []
      else if window \<le> 0 \<or> window \<ge> extent then [\<lparr>wb_start = 0, wb_end = extent\<rparr>]
      else let stride = window - overlap; stride = (if stride \<le> 0 then window else stride)
           in window_loop extent window stride 0)"

text \<open>The last window of a span that is too short takes from the one before.\<close>

definition rebalance :: "int \<Rightarrow> int \<Rightarrow> int \<Rightarrow> window_bound list \<Rightarrow> window_bound list" where
  "rebalance extent min_terminal overlap bs =
     (if length bs > 1 \<and> wb_end (last bs) - wb_start (last bs) < min_terminal then
        let k = length bs - 1;
            bs = bs[k := (bs ! k)\<lparr>wb_start := extent - min_terminal\<rparr>]
        in bs[k - 1 := (bs ! (k - 1))\<lparr>wb_end := wb_start (bs ! k) + overlap\<rparr>]
      else bs)"

definition vad_segment_window_bounds :: "int \<Rightarrow> int \<Rightarrow> decode_policy \<Rightarrow> window_bound list" where
  "vad_segment_window_bounds extent rate p =
     (if dp_preserve_span p then (if extent \<le> 0 then [] else [\<lparr>wb_start = 0, wb_end = extent\<rparr>])
      else
        let window = scale_samples (dp_window p) rate; overlap = scale_samples (dp_overlap p) rate in
        if extent \<le> window + scale_samples (dp_grace p) rate
        then (if extent \<le> 0 then [] else [\<lparr>wb_start = 0, wb_end = extent\<rparr>])
        else rebalance extent (scale_samples (dp_min_terminal p) rate) overlap (non_vad_window_bounds extent window overlap))"

definition vad_context_bounds :: "int \<Rightarrow> int \<Rightarrow> int \<Rightarrow> int \<Rightarrow> int \<Rightarrow> window_bound" where
  "vad_context_bounds start end extent rate context_ms =
     (let n = wrap64 (context_ms * rate) sdiv 1000 in \<lparr>wb_start = max 0 (start - n), wb_end = min extent (end + n)\<rparr>)"


subsection \<open>Decoding a span\<close>

datatype decoded = NoStream | NoResult | Tokens "string list" "32 word list" "32 word list"

type_synonym decoder = "int \<Rightarrow> 32 word list \<Rightarrow> decoded"

datatype stt_err = StreamFailed | SlicePanic | OutOfFuel

definition max_safe_segment_samples :: int where "max_safe_segment_samples = 16000 * 55"

definition decoder_tail_pad_samples :: "int \<Rightarrow> int \<Rightarrow> bool \<Rightarrow> int" where
  "decoder_tail_pad_samples n rate vad =
     (if n \<le> 0 \<or> rate \<le> 0 then 0 else if vad \<or> n < 10 * rate then rate sdiv 2 else 0)"

definition samples_to_ceil_ms :: "int \<Rightarrow> int \<Rightarrow> int" where
  "samples_to_ceil_ms n rate = (if n \<le> 0 \<or> rate \<le> 0 then 0 else wrap64 (n * 1000 + rate - 1) sdiv rate)"

text \<open>The words of one chunk, from \<open>start\<close> on; a chunk under 20 ms is not decoded under the padding-free policy.\<close>

definition decode_chunk ::
  "floats \<Rightarrow> decoder \<Rightarrow> int \<Rightarrow> int \<Rightarrow> bool \<Rightarrow> decode_policy \<Rightarrow> 32 word list \<Rightarrow> int \<Rightarrow> (stt_err, stt_word list) res" where
  "decode_chunk F D rate offset vad p samples start =
     (let end = min (start + max_safe_segment_samples) (int (length samples));
          chunk = sample_range samples start end in
      if dp_no_padding p \<and> rate > 0 \<and> wrap64 (int (length chunk) * 1000) < wrap64 (rate * 20) then Inr []
      else
        let fixed = vad \<or> dp_no_padding p;
            head = (if fixed then wrap64 (dp_head_padding_ms p * rate) sdiv 1000 else 0);
            tail = (if fixed then wrap64 (dp_tail_padding_ms p * rate) sdiv 1000
                    else decoder_tail_pad_samples (int (length chunk)) rate vad);
            input = (if head > 0 \<or> tail > 0 then replicate (nat head) 0 @ chunk @ replicate (nat tail) 0 else chunk);
            place = (\<lambda>ws. clamp_words_to_timeline_end
              (offset_decoder_words ws (wrap64 (offset + ms_of_samples start rate)) (ms_of_samples head rate))
              (wrap64 (offset + ms_of_samples end rate)) (samples_to_ceil_ms tail rate))
        in case D rate input of
             NoStream \<Rightarrow> Inl StreamFailed
           | NoResult \<Rightarrow> Inr (place [])
           | Tokens toks ts ds \<Rightarrow> Inr (place (tokens_to_words F toks ts ds)))"

function decode_chunks ::
  "floats \<Rightarrow> decoder \<Rightarrow> int \<Rightarrow> int \<Rightarrow> bool \<Rightarrow> decode_policy \<Rightarrow> 32 word list \<Rightarrow> int \<Rightarrow> stt_word list \<Rightarrow> (stt_err, stt_word list) res" where
  "decode_chunks F D rate offset vad p samples start acc =
     (if start < int (length samples) then
        (case decode_chunk F D rate offset vad p samples start of
           Inl e \<Rightarrow> Inl e
         | Inr ws \<Rightarrow> decode_chunks F D rate offset vad p samples (start + max_safe_segment_samples) (acc @ ws))
      else Inr acc)"
  by pat_completeness auto
termination by (relation "measure (\<lambda>(F, D, rate, offset, vad, p, samples, start, acc). nat (int (length samples) - start))")
    (auto simp: max_safe_segment_samples_def)

declare decode_chunks.simps [simp del]

text \<open>\<open>samples[b.start:b.end]\<close>, and the loop that decodes windows in order and joins their words.\<close>

definition slice_samples :: "32 word list \<Rightarrow> window_bound \<Rightarrow> (stt_err, 32 word list) res" where
  "slice_samples samples b =
     (if 0 \<le> wb_start b \<and> wb_start b \<le> wb_end b \<and> wb_end b \<le> int (length samples)
      then Inr (sample_range samples (wb_start b) (wb_end b)) else Inl SlicePanic)"

type_synonym joiner = "stt_word list \<Rightarrow> stt_word list \<Rightarrow> bool \<Rightarrow> int \<Rightarrow> int \<Rightarrow> stt_word list"

fun join_windows ::
  "joiner \<Rightarrow> (32 word list \<Rightarrow> int \<Rightarrow> (stt_err, stt_word list) res) \<Rightarrow> 32 word list \<Rightarrow> int \<Rightarrow> int \<Rightarrow> int
   \<Rightarrow> window_bound list \<Rightarrow> bool \<Rightarrow> stt_word list \<Rightarrow> (stt_err, stt_word list) res" where
  "join_windows J child samples rate offset overlap [] first acc = Inr acc"
| "join_windows J child samples rate offset overlap (b # bs) first acc =
     (let at = wrap64 (offset + ms_of_samples (wb_start b) rate) in
      case slice_samples samples b of
        Inl e \<Rightarrow> Inl e
      | Inr xs \<Rightarrow> (case child xs at of
          Inl e \<Rightarrow> Inl e
        | Inr ws \<Rightarrow> join_windows J child samples rate offset overlap bs False (J acc ws first at overlap)))"

primrec transcribe_segment_with_policy ::
  "nat \<Rightarrow> floats \<Rightarrow> overlap_text \<Rightarrow> decoder \<Rightarrow> int \<Rightarrow> bool \<Rightarrow> decode_policy \<Rightarrow> 32 word list \<Rightarrow> int \<Rightarrow> (stt_err, stt_word list) res" where
  "transcribe_segment_with_policy 0 F T D rate vad p samples offset = Inl OutOfFuel"
| "transcribe_segment_with_policy (Suc n) F T D rate vad p samples offset =
     (let bounds = vad_segment_window_bounds (int (length samples)) rate p in
      if vad \<and> rate > 0 \<and> length bounds > 1
      then join_windows (dedup_overlapping_words T) (transcribe_segment_with_policy n F T D rate True p) samples rate offset
             (ms_of_samples (scale_samples (dp_overlap p) rate) rate) bounds True []
      else decode_chunks F D rate offset vad p samples 0 [])"

definition transcribe_non_vad_chunked ::
  "nat \<Rightarrow> floats \<Rightarrow> overlap_text \<Rightarrow> decoder \<Rightarrow> int \<Rightarrow> decode_policy \<Rightarrow> 32 word list \<Rightarrow> (stt_err, stt_word list) res" where
  "transcribe_non_vad_chunked n F T D rate p samples =
     (let window = scale_samples (16000 * 15) rate; overlap = scale_samples (16000 div 2) rate
      in join_windows (dedup_merged_fallback_words T) (transcribe_segment_with_policy n F T D rate False p) samples rate 0
           (ms_of_samples overlap rate) (non_vad_window_bounds (int (length samples)) window overlap) True [])"


subsection \<open>Speech segments\<close>

text \<open>The calls on the detector; a queued segment is its start and its samples, or nil.\<close>

record 'v vad_calls =
  vad_reset :: "'v \<Rightarrow> 'v"
  vad_accept :: "32 word list \<Rightarrow> 'v \<Rightarrow> 'v"
  vad_flush :: "'v \<Rightarrow> 'v"
  vad_is_empty :: "'v \<Rightarrow> bool"
  vad_front :: "'v \<Rightarrow> (int \<times> 32 word list) option"
  vad_pop :: "'v \<Rightarrow> 'v"

text \<open>What the loop carries: all words, and where the last decode ended.\<close>

type_synonym heard = "stt_word list \<times> int"

definition recover_segment ::
  "nat \<Rightarrow> floats \<Rightarrow> overlap_text \<Rightarrow> decoder \<Rightarrow> int \<Rightarrow> decode_policy \<Rightarrow> 32 word list \<Rightarrow> int \<Rightarrow> int
   \<Rightarrow> window_bound \<Rightarrow> int \<Rightarrow> stt_word list \<Rightarrow> (stt_err, stt_word list \<times> window_bound \<times> int) res" where
  "recover_segment n F T D rate p samples seg_start seg_end at offset ws =
     (let retry = vad_context_bounds seg_start seg_end (int (length samples)) rate 500 in
      if ws = [] \<and> dp_preserve_span p \<and> dp_no_padding p \<and> (wb_start retry < wb_start at \<or> wb_end retry > wb_end at) then
        let retry_offset = ms_of_samples (wb_start retry) rate in
        case slice_samples samples retry of
          Inl e \<Rightarrow> Inl e
        | Inr xs \<Rightarrow> (case transcribe_segment_with_policy n F T D rate True p xs retry_offset of
            Inl e \<Rightarrow> Inl e
          | Inr found \<Rightarrow> Inr (words_overlapping_speech found (ms_of_samples seg_start rate)
              (ms_of_samples (min (int (length samples)) seg_end) rate), retry, retry_offset))
      else Inr (ws, at, offset))"

definition hear_segment ::
  "nat \<Rightarrow> floats \<Rightarrow> overlap_text \<Rightarrow> decoder \<Rightarrow> int \<Rightarrow> decode_policy \<Rightarrow> 32 word list \<Rightarrow> int \<times> 32 word list \<Rightarrow> heard
   \<Rightarrow> (stt_err, heard) res" where
  "hear_segment n F T D rate p samples seg h =
     (case seg of (seg_start, seg_samples) \<Rightarrow>
        let seg_end = seg_start + int (length seg_samples);
            at = (if dp_context_ms p > 0 then vad_context_bounds seg_start seg_end (int (length samples)) rate (dp_context_ms p)
                  else \<lparr>wb_start = seg_start, wb_end = seg_end\<rparr>);
            offset = ms_of_samples (wb_start at) rate in
        case (if dp_context_ms p > 0 then slice_samples samples at else Inr seg_samples) of
          Inl e \<Rightarrow> Inl e
        | Inr xs \<Rightarrow> (case transcribe_segment_with_policy n F T D rate True p xs offset of
            Inl e \<Rightarrow> Inl e
          | Inr ws \<Rightarrow> (case recover_segment n F T D rate p samples seg_start seg_end at offset ws of
              Inl e \<Rightarrow> Inl e
            | Inr (ws, at, offset) \<Rightarrow>
                Inr (if dp_context_ms p > 0 \<and> snd h > wb_start at
                     then dedup_overlapping_words T (fst h) ws False offset (ms_of_samples (snd h - wb_start at) rate)
                     else fst h @ ws,
                     wb_end at))))"

primrec drain_segments ::
  "nat \<Rightarrow> nat \<Rightarrow> 'v vad_calls \<Rightarrow> floats \<Rightarrow> overlap_text \<Rightarrow> decoder \<Rightarrow> int \<Rightarrow> decode_policy \<Rightarrow> 32 word list \<Rightarrow> 'v \<Rightarrow> heard
   \<Rightarrow> (stt_err, 'v \<times> heard) res" where
  "drain_segments 0 n V F T D rate p samples v h = Inl OutOfFuel"
| "drain_segments (Suc k) n V F T D rate p samples v h =
     (if vad_is_empty V v then Inr (v, h)
      else let v' = vad_pop V v in
        case vad_front V v of
          None \<Rightarrow> drain_segments k n V F T D rate p samples v' h
        | Some seg \<Rightarrow>
            if snd seg = [] then drain_segments k n V F T D rate p samples v' h
            else (case hear_segment n F T D rate p samples seg h of
              Inl e \<Rightarrow> Inl e
            | Inr h' \<Rightarrow> drain_segments k n V F T D rate p samples v' h'))"

definition vad_window_samples :: int where "vad_window_samples = 512"
definition vad_drain_every_samples :: int where "vad_drain_every_samples = 16000 * 5"

function feed_loop ::
  "nat \<Rightarrow> nat \<Rightarrow> 'v vad_calls \<Rightarrow> floats \<Rightarrow> overlap_text \<Rightarrow> decoder \<Rightarrow> int \<Rightarrow> decode_policy \<Rightarrow> 32 word list \<Rightarrow> int \<Rightarrow> int
   \<Rightarrow> int \<Rightarrow> 'v \<Rightarrow> heard \<Rightarrow> (stt_err, int \<times> 'v \<times> heard) res" where
  "feed_loop k n V F T D rate p samples off since padding v h =
     (if off < int (length samples) then
        let end = min (off + vad_window_samples) (int (length samples));
            window = sample_range samples off end;
            short = int (length window) < vad_window_samples;
            padding = (if short then vad_window_samples - int (length window) else padding);
            window = (if short then window @ replicate (nat (vad_window_samples - int (length window))) 0 else window);
            v = vad_accept V window v; since = since + (end - off) in
        if since \<ge> vad_drain_every_samples
        then (case drain_segments k n V F T D rate p samples v h of
            Inl e \<Rightarrow> Inl e
          | Inr (v, h) \<Rightarrow> feed_loop k n V F T D rate p samples (off + vad_window_samples) 0 padding v h)
        else feed_loop k n V F T D rate p samples (off + vad_window_samples) since padding v h
      else Inr (padding, v, h))"
  by pat_completeness auto
termination by (relation "measure (\<lambda>(k, n, V, F, T, D, rate, p, samples, off, since, padding, v, h). nat (int (length samples) - off))")
    (auto simp: vad_window_samples_def)

declare feed_loop.simps [simp del]

text \<open>\<open>Transcribe\<close>; a recognizer's sample rate is positive.\<close>

definition transcribe ::
  "nat \<Rightarrow> nat \<Rightarrow> 'v vad_calls \<Rightarrow> floats \<Rightarrow> overlap_text \<Rightarrow> decoder \<Rightarrow> int \<Rightarrow> decode_policy \<Rightarrow> bool \<Rightarrow> 32 word list \<Rightarrow> 'v
   \<Rightarrow> (stt_err, stt_word list) res" where
  "transcribe k n V F T D rate p use_vad samples v =
     (if samples = [] then Inr []
      else let audio_end = ms_of_samples (int (length samples)) rate in
        if \<not> use_vad then
          (case transcribe_non_vad_chunked n F T D rate p samples of
             Inl e \<Rightarrow> Inl e
           | Inr ws \<Rightarrow> Inr (finalize_transcript_words F samples rate ws audio_end 0))
        else
          (case feed_loop k n V F T D rate p samples 0 0 0 (vad_reset V v) ([], 0) of
             Inl e \<Rightarrow> Inl e
           | Inr (padding, v, h) \<Rightarrow>
               (case drain_segments k n V F T D rate p samples (vad_flush V v) h of
                  Inl e \<Rightarrow> Inl e
                | Inr (v, h) \<Rightarrow> Inr (finalize_transcript_words F samples rate (fst h) audio_end (samples_to_ceil_ms padding rate)))))"

subsection \<open>Windows cover the span\<close>

text \<open>
  A cover of a span: it starts at 0 and ends at the extent, and each window starts the overlap before the end of
  the one before.
\<close>

fun chained :: "int \<Rightarrow> window_bound list \<Rightarrow> bool" where
  "chained overlap (b # c # bs) \<longleftrightarrow> wb_start c = wb_end b - overlap \<and> wb_start b < wb_start c \<and> chained overlap (c # bs)"
| "chained overlap _ \<longleftrightarrow> True"

definition covers :: "int \<Rightarrow> int \<Rightarrow> window_bound list \<Rightarrow> bool" where
  "covers extent overlap bs \<longleftrightarrow> bs \<noteq> [] \<and> wb_start (hd bs) = 0 \<and> wb_end (last bs) = extent \<and> chained overlap bs"

lemma window_loop_shape:
  assumes "0 \<le> overlap" "overlap < window" and "start + overlap < extent"
  shows "window_loop extent window (window - overlap) start \<noteq> [] \<and>
    wb_start (hd (window_loop extent window (window - overlap) start)) = start \<and>
    wb_end (last (window_loop extent window (window - overlap) start)) = extent \<and>
    chained overlap (window_loop extent window (window - overlap) start) \<and>
    (\<forall>b\<in>set (window_loop extent window (window - overlap) start). start \<le> wb_start b \<and> wb_end b \<le> extent \<and>
       overlap < wb_end b - wb_start b \<and> wb_end b - wb_start b \<le> window) \<and>
    (\<forall>b\<in>set (butlast (window_loop extent window (window - overlap) start)). wb_end b - wb_start b = window)"
  using assms
proof (induction "nat (extent - start)" arbitrary: start rule: less_induct)
  case less
  note u = window_loop.simps[of extent window "window - overlap" start]
  show ?case
  proof (cases "start + window \<ge> extent")
    case True
    then have "window_loop extent window (window - overlap) start = [\<lparr>wb_start = start, wb_end = extent\<rparr>]"
      unfolding u using less.prems by (simp add: Let_def)
    then show ?thesis using less.prems True by simp
  next
    case False
    let ?next = "window_loop extent window (window - overlap) (start + (window - overlap))"
    have e: "window_loop extent window (window - overlap) start = \<lparr>wb_start = start, wb_end = start + window\<rparr> # ?next"
      unfolding u using less.prems False by (simp add: Let_def)
    have ih: "?next \<noteq> [] \<and> wb_start (hd ?next) = start + (window - overlap) \<and> wb_end (last ?next) = extent \<and> chained overlap ?next \<and>
      (\<forall>b\<in>set ?next. start + (window - overlap) \<le> wb_start b \<and> wb_end b \<le> extent \<and> overlap < wb_end b - wb_start b \<and> wb_end b - wb_start b \<le> window) \<and>
      (\<forall>b\<in>set (butlast ?next). wb_end b - wb_start b = window)"
      by (rule less.hyps) (use less.prems False in auto)
    then obtain c bs where n: "?next = c # bs" by (cases ?next) auto
    show ?thesis unfolding e using ih less.prems False unfolding n by fastforce
  qed
qed

lemma bounds_cover:
  assumes "0 < extent" and "0 \<le> overlap" "overlap < window"
  shows "covers extent overlap (non_vad_window_bounds extent window overlap) \<and>
    (\<forall>b\<in>set (non_vad_window_bounds extent window overlap). 0 \<le> wb_start b \<and> wb_start b < wb_end b \<and> wb_end b \<le> extent \<and>
       wb_end b - wb_start b \<le> window) \<and>
    (\<forall>b\<in>set (butlast (non_vad_window_bounds extent window overlap)). wb_end b - wb_start b = window)"
proof (cases "window \<ge> extent")
  case True
  then show ?thesis using assms by (simp add: non_vad_window_bounds_def covers_def)
next
  case False
  then have e: "non_vad_window_bounds extent window overlap = window_loop extent window (window - overlap) 0"
    using assms by (simp add: non_vad_window_bounds_def Let_def)
  show ?thesis unfolding e using window_loop_shape[of overlap window 0 extent] assms False
    by (fastforce simp: covers_def)
qed


lemma chained_snoc2: "chained overlap (bs @ [b, c]) \<longleftrightarrow>
    chained overlap (bs @ [b]) \<and> wb_start c = wb_end b - overlap \<and> wb_start b < wb_start c"
proof (induction bs)
  case (Cons a bs)
  then show ?case by (cases bs) auto
qed simp

lemma chained_last: "wb_start b = wb_start c \<Longrightarrow> chained overlap (bs @ [b]) \<longleftrightarrow> chained overlap (bs @ [c])"
proof (induction bs)
  case (Cons a bs)
  then show ?case by (cases bs) auto
qed simp

lemma two_last:
  assumes "1 < length bs"
  obtains cs b c where "bs = cs @ [b, c]"
proof -
  obtain ds c where d: "bs = ds @ [c]" using assms by (cases bs rule: rev_cases) auto
  then obtain cs b where "ds = cs @ [b]" using assms by (cases ds rule: rev_cases) auto
  with d that show thesis by simp
qed

lemma rebalance_two:
  "rebalance extent m overlap (cs @ [b, c]) =
     (if wb_end c - wb_start c < m
      then cs @ [b\<lparr>wb_end := extent - m + overlap\<rparr>, c\<lparr>wb_start := extent - m\<rparr>] else cs @ [b, c])"
  by (simp add: rebalance_def Let_def nth_append list_update_append)

text \<open>A policy whose windows overlap, leave room for two terminal windows, and do not reach below nothing.\<close>

definition sound_policy :: "decode_policy \<Rightarrow> int \<Rightarrow> bool" where
  "sound_policy p rate \<longleftrightarrow>
     (let window = scale_samples (dp_window p) rate; overlap = scale_samples (dp_overlap p) rate;
          m = scale_samples (dp_min_terminal p) rate
      in 0 \<le> overlap \<and> overlap < window \<and> overlap < m \<and> 2 * m \<le> window + overlap \<and> 0 \<le> scale_samples (dp_grace p) rate)"

lemma default_policy_sound: "sound_policy default_vad_decode_policy 16000"
  by (simp add: sound_policy_def default_vad_decode_policy_def scale_samples_def)

lemma rebalance_cover:
  assumes "covers extent overlap bs" and "0 \<le> overlap" "overlap < window" "overlap < m" "2 * m \<le> window + overlap"
    and "\<forall>b\<in>set bs. 0 \<le> wb_start b \<and> wb_end b \<le> extent \<and> overlap < wb_end b - wb_start b \<and> wb_end b - wb_start b \<le> window"
    and "\<forall>b\<in>set (butlast bs). wb_end b - wb_start b = window" and "1 < length bs"
  shows "covers extent overlap (rebalance extent m overlap bs) \<and>
    (\<forall>b\<in>set (rebalance extent m overlap bs). 0 \<le> wb_start b \<and> wb_end b \<le> extent \<and> m \<le> wb_end b - wb_start b \<and>
       wb_end b - wb_start b \<le> window)"
proof -
  obtain cs b c where bs: "bs = cs @ [b, c]" using two_last[OF assms(8)] .
  have l: "wb_end c = extent" "wb_start c = wb_end b - overlap" "wb_start b < wb_start c" "chained overlap (cs @ [b])"
    using assms(1) by (auto simp: covers_def bs chained_snoc2)
  have w: "wb_end b - wb_start b = window" "\<forall>a\<in>set cs. wb_end a - wb_start a = window" using assms(7) by (auto simp: bs butlast_append)
  have c: "overlap < extent - wb_start c" using assms(6) l(1) by (auto simp: bs)
  show ?thesis
  proof (cases "wb_end c - wb_start c < m")
    case True
    let ?b = "b\<lparr>wb_end := extent - m + overlap\<rparr>" and ?c = "c\<lparr>wb_start := extent - m\<rparr>"
    have r: "rebalance extent m overlap bs = cs @ [?b, ?c]" using True by (simp add: bs rebalance_two)
    have "chained overlap (cs @ [?b])" using l(4) chained_last[of ?b b] by simp
    moreover have "wb_start b < extent - m" using True l(1,2) w(1) c assms(2-5) by linarith
    moreover have "wb_start (hd (cs @ [?b, ?c])) = 0" using assms(1) by (cases cs) (simp_all add: covers_def bs)
    ultimately have "covers extent overlap (rebalance extent m overlap bs)"
      unfolding r using l(1) by (simp add: covers_def chained_snoc2)
    moreover have "\<forall>x\<in>set cs. 0 \<le> wb_start x \<and> wb_end x \<le> extent \<and> m \<le> wb_end x - wb_start x \<and> wb_end x - wb_start x \<le> window"
      using w(2) assms(2-6) by (auto simp: bs)
    moreover have "0 \<le> wb_start b" using assms(6) by (simp add: bs)
    ultimately show ?thesis
      unfolding r using True l(1,2) w(1) c assms(2-5) by auto
  next
    case False
    then have r: "rebalance extent m overlap bs = bs" by (simp add: bs rebalance_two)
    have "m \<le> wb_end x - wb_start x" if "x \<in> set bs" for x
      using that False w assms(2-5) by (auto simp: bs)
    then show ?thesis unfolding r using assms(1,6) by blast
  qed
qed

lemma vad_bounds_cover:
  fixes extent rate :: int and p :: decode_policy
  defines "window \<equiv> scale_samples (dp_window p) rate" and "overlap \<equiv> scale_samples (dp_overlap p) rate"
    and "m \<equiv> scale_samples (dp_min_terminal p) rate" and "grace \<equiv> scale_samples (dp_grace p) rate"
    and "bs \<equiv> vad_segment_window_bounds extent rate p"
  assumes "0 < extent" and "sound_policy p rate" and "\<not> dp_preserve_span p"
  shows "covers extent overlap bs \<and> (\<forall>b\<in>set bs. 0 \<le> wb_start b \<and> wb_start b < wb_end b \<and> wb_end b \<le> extent) \<and>
    (if extent \<le> window + grace then bs = [\<lparr>wb_start = 0, wb_end = extent\<rparr>]
     else \<forall>b\<in>set bs. m \<le> wb_end b - wb_start b \<and> wb_end b - wb_start b \<le> window)"
proof (cases "extent \<le> window + grace")
  case True
  then have "bs = [\<lparr>wb_start = 0, wb_end = extent\<rparr>]"
    using assms(6,8) by (simp add: bs_def vad_segment_window_bounds_def Let_def window_def grace_def)
  then show ?thesis using True assms(6) by (simp add: covers_def)
next
  case False
  have s: "0 \<le> overlap" "overlap < window" "overlap < m" "2 * m \<le> window + overlap" "0 \<le> grace"
    using assms(7) by (simp_all add: sound_policy_def Let_def window_def overlap_def m_def grace_def)
  let ?ns = "window_loop extent window (window - overlap) 0"
  have n: "non_vad_window_bounds extent window overlap = ?ns"
    using False s assms(6) by (simp add: non_vad_window_bounds_def Let_def)
  note sh = window_loop_shape[OF s(1,2), of 0 extent]
  have big: "0 + overlap < extent" using False s by linarith
  have c: "covers extent overlap ?ns" using sh[OF big] by (simp add: covers_def)
  have "1 < length ?ns"
    using False s assms(6) window_loop.simps[of extent window "window - overlap" 0] sh[OF big]
      window_loop_shape[OF s(1,2), of "window - overlap" extent]
    by (auto simp: Let_def)
  from rebalance_cover[OF c s(1-4) _ _ this] sh[OF big]
  have r: "covers extent overlap (rebalance extent m overlap ?ns) \<and>
    (\<forall>b\<in>set (rebalance extent m overlap ?ns). 0 \<le> wb_start b \<and> wb_end b \<le> extent \<and> m \<le> wb_end b - wb_start b \<and>
       wb_end b - wb_start b \<le> window)" by simp
  have b: "bs = rebalance extent m overlap ?ns"
    using False assms(8) by (simp add: bs_def vad_segment_window_bounds_def Let_def window_def grace_def overlap_def m_def
      n[unfolded window_def overlap_def])
  show ?thesis unfolding b using r False s by fastforce
qed

subsection \<open>Decoding ends\<close>

text \<open>Neither out of fuel nor a slice out of range.\<close>

fun sane :: "(stt_err, 'a) res \<Rightarrow> bool" where
  "sane (Inl e) \<longleftrightarrow> e = StreamFailed"
| "sane (Inr _) \<longleftrightarrow> True"

definition within :: "32 word list \<Rightarrow> window_bound \<Rightarrow> bool" where
  "within samples b \<longleftrightarrow> 0 \<le> wb_start b \<and> wb_start b \<le> wb_end b \<and> wb_end b \<le> int (length samples)"

lemma slice_within: "within samples b \<Longrightarrow> slice_samples samples b = Inr (sample_range samples (wb_start b) (wb_end b))"
  by (simp add: slice_samples_def within_def)

lemma sample_range_length:
  "within samples b \<Longrightarrow> int (length (sample_range samples (wb_start b) (wb_end b))) = wb_end b - wb_start b"
  by (auto simp: sample_range_def within_def min_def nat_le_iff)

lemma decode_chunk_sane: "sane (decode_chunk F D rate offset vad p samples start)"
  by (auto simp: decode_chunk_def Let_def split: decoded.splits)

lemma decode_chunks_sane: "sane (decode_chunks F D rate offset vad p samples start acc)"
proof (induction F D rate offset vad p samples start acc rule: decode_chunks.induct)
  case (1 F D rate offset vad p samples start acc)
  then show ?case
    using decode_chunk_sane[of F D rate offset vad p samples start]
    by (subst decode_chunks.simps) (auto split: sum.splits)
qed

lemma join_windows_sane:
  assumes "\<forall>b\<in>set bs. within samples b" and "\<And>b at. b \<in> set bs \<Longrightarrow> sane (child (sample_range samples (wb_start b) (wb_end b)) at)"
  shows "sane (join_windows J child samples rate offset overlap bs first acc)"
  using assms
proof (induction bs arbitrary: first acc)
  case (Cons b bs)
  let ?r = "child (sample_range samples (wb_start b) (wb_end b)) (wrap64 (offset + ms_of_samples (wb_start b) rate))"
  have r: "sane ?r" by (rule Cons.prems(2)) simp
  have rest: "sane (join_windows J child samples rate offset overlap bs False acc')" for acc'
    by (rule Cons.IH) (use Cons.prems in auto)
  show ?case
  proof (cases ?r)
    case (Inl e)
    then show ?thesis using r Cons.prems(1) by (simp add: Let_def slice_within)
  next
    case (Inr ws)
    then show ?thesis using rest Cons.prems(1) by (simp add: Let_def slice_within)
  qed
qed simp

lemma join_windows_cong:
  assumes "\<forall>b\<in>set bs. within samples b"
    and "\<And>b at. b \<in> set bs \<Longrightarrow> child (sample_range samples (wb_start b) (wb_end b)) at = child' (sample_range samples (wb_start b) (wb_end b)) at"
  shows "join_windows J child samples rate offset overlap bs first acc = join_windows J child' samples rate offset overlap bs first acc"
  using assms by (induction bs arbitrary: first acc) (simp_all add: Let_def slice_within split: sum.split)

definition usable_policy :: "decode_policy \<Rightarrow> int \<Rightarrow> bool" where
  "usable_policy p rate \<longleftrightarrow> dp_preserve_span p \<or> sound_policy p rate"

lemma vad_bounds_within:
  assumes "usable_policy p rate" and "b \<in> set (vad_segment_window_bounds (int (length samples)) rate p)"
  shows "within samples b"
proof (cases "dp_preserve_span p")
  case True
  then show ?thesis using assms(2) by (auto simp: vad_segment_window_bounds_def within_def split: if_splits)
next
  case False
  then have s: "sound_policy p rate" using assms(1) by (simp add: usable_policy_def)
  have "0 < int (length samples)"
  proof (rule ccontr)
    assume "\<not> 0 < int (length samples)"
    then show False using assms(2) s False by (auto simp: vad_segment_window_bounds_def Let_def sound_policy_def split: if_splits)
  qed
  from vad_bounds_cover[OF this s False] assms(2) show ?thesis by (auto simp: within_def)
qed

text \<open>The windows of a window are the window itself, so the recursion is one level deep.\<close>

lemma child_bounds_single:
  assumes "usable_policy p rate" and "1 < length (vad_segment_window_bounds (int (length samples)) rate p)"
    and "b \<in> set (vad_segment_window_bounds (int (length samples)) rate p)"
  shows "\<not> 1 < length (vad_segment_window_bounds (int (length (sample_range samples (wb_start b) (wb_end b)))) rate p)"
proof -
  let ?w = "scale_samples (dp_window p) rate" and ?g = "scale_samples (dp_grace p) rate"
  have np: "\<not> dp_preserve_span p" using assms(2) by (auto simp: vad_segment_window_bounds_def split: if_splits)
  then have s: "sound_policy p rate" using assms(1) by (simp add: usable_policy_def)
  have l: "int (length (sample_range samples (wb_start b) (wb_end b))) = wb_end b - wb_start b"
    by (rule sample_range_length[OF vad_bounds_within[OF assms(1,3)]])
  have big: "\<not> int (length samples) \<le> ?w + ?g" using assms(2) np by (auto simp: vad_segment_window_bounds_def Let_def split: if_splits)
  have "0 \<le> ?w + ?g" using s by (simp add: sound_policy_def Let_def)
  then have "0 < int (length samples)" using big by linarith
  from vad_bounds_cover[OF this s np] assms(3) big have "wb_end b - wb_start b \<le> ?w" by auto
  moreover have "0 \<le> ?g" using s by (simp add: sound_policy_def Let_def)
  ultimately show ?thesis unfolding l using np by (simp add: vad_segment_window_bounds_def Let_def)
qed

lemma segment_decode_sane:
  assumes "usable_policy p rate"
  shows "transcribe_segment_with_policy (Suc (Suc n)) F T D rate vad p samples offset =
      transcribe_segment_with_policy 2 F T D rate vad p samples offset \<and>
    sane (transcribe_segment_with_policy 2 F T D rate vad p samples offset)"
proof (cases "vad \<and> rate > 0 \<and> length (vad_segment_window_bounds (int (length samples)) rate p) > 1")
  case False
  then show ?thesis by (auto simp: numeral_2_eq_2 Let_def decode_chunks_sane)
next
  case True
  let ?bs = "vad_segment_window_bounds (int (length samples)) rate p"
  have in_range: "\<forall>b\<in>set ?bs. within samples b" using vad_bounds_within[OF assms] by blast
  have child: "transcribe_segment_with_policy (Suc k) F T D rate True p (sample_range samples (wb_start b) (wb_end b)) at =
      decode_chunks F D rate at True p (sample_range samples (wb_start b) (wb_end b)) 0 []" if "b \<in> set ?bs" for b at k
    using child_bounds_single[OF assms _ that] True by (auto simp: Let_def)
  let ?join = "\<lambda>child. join_windows (dedup_overlapping_words T) child samples rate offset
      (ms_of_samples (scale_samples (dp_overlap p) rate) rate) ?bs True []"
  have "?join (transcribe_segment_with_policy (Suc n) F T D rate True p) = ?join (transcribe_segment_with_policy (Suc 0) F T D rate True p)"
    by (rule join_windows_cong[OF in_range]) (simp only: child)
  moreover have "sane (?join (transcribe_segment_with_policy (Suc 0) F T D rate True p))"
    by (rule join_windows_sane[OF in_range]) (simp only: child decode_chunks_sane)
  ultimately show ?thesis using True by (simp add: numeral_2_eq_2 Let_def)
qed

lemma segment_sane:
  assumes "usable_policy p rate" and "2 \<le> n"
  shows "sane (transcribe_segment_with_policy n F T D rate vad p samples offset)"
proof -
  obtain m where "n = Suc (Suc m)" using assms(2) by (metis Suc_le_D numeral_2_eq_2 Suc_le_mono)
  then show ?thesis using segment_decode_sane[OF assms(1)] by metis
qed

lemma scaled_window:
  assumes "0 < rate" and "rate < 2 ^ 31"
  shows "0 \<le> scale_samples (16000 div 2) rate \<and> scale_samples (16000 div 2) rate < scale_samples (16000 * 15) rate"
proof -
  have "wrap64 (8000 * rate) = 8000 * rate" "wrap64 (240000 * rate) = 240000 * rate"
    using assms by (intro wrap64_id; simp add: in_i64_def min_i64_def max_i64_def)+
  moreover have "(8000 * rate) sdiv 16000 = 8000 * rate div 16000" "(240000 * rate) sdiv 16000 = 240000 * rate div 16000"
    using assms(1) by (simp_all add: signed_divide_int_def sgn_if)
  moreover have "8000 * rate div 16000 < 240000 * rate div 16000" using assms(1) by simp
  ultimately show ?thesis using assms by (auto simp: scale_samples_def)
qed

lemma non_vad_sane:
  assumes "usable_policy p rate" and "2 \<le> n" and "0 < rate" "rate < 2 ^ 31"
  shows "sane (transcribe_non_vad_chunked n F T D rate p samples)"
proof (cases "samples = []")
  case True
  then show ?thesis by (simp add: transcribe_non_vad_chunked_def non_vad_window_bounds_def Let_def)
next
  case False
  then have "\<forall>b\<in>set (non_vad_window_bounds (int (length samples)) (scale_samples (16000 * 15) rate) (scale_samples (16000 div 2) rate)).
      within samples b"
    using bounds_cover[of "int (length samples)" "scale_samples (16000 div 2) rate" "scale_samples (16000 * 15) rate"]
      scaled_window[OF assms(3,4)] by (auto simp: within_def)
  then show ?thesis unfolding transcribe_non_vad_chunked_def Let_def
    by (rule join_windows_sane) (rule segment_sane[OF assms(1,2)])
qed


subsection \<open>A whole recording\<close>

text \<open>
  What the detector's queue promises: in every state a caller can reach it is shorter than the fuel, popping
  shortens it, and its segments start inside the recording.
\<close>

definition vad_laws :: "'v vad_calls \<Rightarrow> ('v \<Rightarrow> bool) \<Rightarrow> ('v \<Rightarrow> nat) \<Rightarrow> nat \<Rightarrow> int \<Rightarrow> bool" where
  "vad_laws V ok q k n \<longleftrightarrow>
     (\<forall>v. ok (vad_reset V v)) \<and> (\<forall>v w. ok v \<longrightarrow> ok (vad_accept V w v)) \<and> (\<forall>v. ok v \<longrightarrow> ok (vad_flush V v)) \<and>
     (\<forall>v. ok v \<longrightarrow> q v < k) \<and>
     (\<forall>v. ok v \<and> \<not> vad_is_empty V v \<longrightarrow> ok (vad_pop V v) \<and> q (vad_pop V v) < q v \<and>
       (\<forall>seg. vad_front V v = Some seg \<longrightarrow> 0 \<le> fst seg \<and> fst seg \<le> n))"

definition usable_context :: "decode_policy \<Rightarrow> int \<Rightarrow> bool" where
  "usable_context p rate \<longleftrightarrow> 0 \<le> wrap64 (dp_context_ms p * rate) sdiv 1000 \<and> 0 \<le> wrap64 (500 * rate) sdiv 1000"

lemma context_within:
  assumes "0 \<le> seg_start" "seg_start \<le> int (length samples)" "seg_start \<le> seg_end" and "0 \<le> wrap64 (c * rate) sdiv 1000"
  shows "within samples (vad_context_bounds seg_start seg_end (int (length samples)) rate c)"
  using assms by (auto simp: within_def vad_context_bounds_def Let_def)

lemma hear_segment_sane:
  assumes "usable_policy p rate" "usable_context p rate" and "2 \<le> n" and "0 \<le> fst seg" "fst seg \<le> int (length samples)"
  shows "sane (hear_segment n F T D rate p samples seg h)"
proof -
  obtain seg_start seg_samples where seg: "seg = (seg_start, seg_samples)" by fastforce
  define seg_end where "seg_end = seg_start + int (length seg_samples)"
  define at where "at = (if dp_context_ms p > 0 then vad_context_bounds seg_start seg_end (int (length samples)) rate (dp_context_ms p)
      else \<lparr>wb_start = seg_start, wb_end = seg_end\<rparr>)"
  note inr = assms(4,5)[unfolded seg fst_conv]
  have c: "within samples (vad_context_bounds seg_start seg_end (int (length samples)) rate (dp_context_ms p))"
    "within samples (vad_context_bounds seg_start seg_end (int (length samples)) rate 500)"
    using inr assms(2) by (intro context_within; simp add: usable_context_def seg_end_def)+
  have rec: "sane (recover_segment n F T D rate p samples seg_start seg_end at' offset ws)" for at' offset ws
  proof -
    have "sane (transcribe_segment_with_policy n F T D rate True p xs o')" for xs o' by (rule segment_sane[OF assms(1,3)])
    then have "transcribe_segment_with_policy n F T D rate True p xs o' = Inl e \<Longrightarrow> e = StreamFailed" for xs o' e
      by (metis sane.simps(1))
    then show ?thesis unfolding recover_segment_def Let_def slice_within[OF c(2)] by (auto split: sum.splits)
  qed
  define xs where "xs = (if dp_context_ms p > 0 then sample_range samples (wb_start at) (wb_end at) else seg_samples)"
  have xs: "(if dp_context_ms p > 0 then slice_samples samples at else Inr seg_samples) = Inr xs"
    by (simp add: xs_def at_def slice_within[OF c(1)])
  have h: "hear_segment n F T D rate p samples seg h =
      (case transcribe_segment_with_policy n F T D rate True p xs (ms_of_samples (wb_start at) rate) of
            Inl e \<Rightarrow> Inl e
          | Inr ws \<Rightarrow> (case recover_segment n F T D rate p samples seg_start seg_end at (ms_of_samples (wb_start at) rate) ws of
              Inl e \<Rightarrow> Inl e
            | Inr (ws, at, offset) \<Rightarrow>
                Inr (if dp_context_ms p > 0 \<and> snd h > wb_start at
                     then dedup_overlapping_words T (fst h) ws False offset (ms_of_samples (snd h - wb_start at) rate)
                     else fst h @ ws,
                     wb_end at)))"
    by (simp only: hear_segment_def seg prod.case Let_def seg_end_def[symmetric] at_def[symmetric] xs sum.case)
  have seg_sane: "transcribe_segment_with_policy n F T D rate True p xs o' = Inl e \<Longrightarrow> e = StreamFailed" for o' e
    using segment_sane[OF assms(1,3)] by (metis sane.simps(1))
  have rec_sane: "recover_segment n F T D rate p samples seg_start seg_end at' offset ws = Inl e \<Longrightarrow> e = StreamFailed" for at' offset ws e
    using rec by (metis sane.simps(1))
  show ?thesis unfolding h by (auto split: sum.splits dest: seg_sane rec_sane)
qed

lemma drain_sane:
  assumes "usable_policy p rate" "usable_context p rate" and "2 \<le> n" and "vad_laws V ok q K (int (length samples))"
    and "ok v" and "q v < k"
  shows "sane (drain_segments k n V F T D rate p samples v h) \<and>
    (\<forall>v' h'. drain_segments k n V F T D rate p samples v h = Inr (v', h') \<longrightarrow> ok v')"
  using assms(5,6)
proof (induction k arbitrary: v h)
  case (Suc k)
  show ?case
  proof (cases "vad_is_empty V v")
    case False
    then have v: "ok (vad_pop V v)" "q (vad_pop V v) < k"
      "\<And>seg. vad_front V v = Some seg \<Longrightarrow> 0 \<le> fst seg \<and> fst seg \<le> int (length samples)"
      using assms(4) Suc.prems by (fastforce simp: vad_laws_def)+
    show ?thesis
    proof (cases "vad_front V v")
      case None
      then show ?thesis using Suc.IH[OF v(1,2)] False by simp
    next
      case (Some seg)
      show ?thesis
      proof (cases "snd seg = []")
        case True
        then show ?thesis using Some Suc.IH[OF v(1,2)] False by simp
      next
        case nonempty: False
        have "sane (hear_segment n F T D rate p samples seg h)"
          by (rule hear_segment_sane[OF assms(1-3)]) (use v(3)[OF Some] in auto)
        then show ?thesis using Some nonempty False Suc.IH[OF v(1,2)]
          by (cases "hear_segment n F T D rate p samples seg h") simp_all
      qed
    qed
  qed (use Suc.prems in simp)
qed simp

lemma feed_sane:
  assumes "usable_policy p rate" "usable_context p rate" and "2 \<le> n" and "vad_laws V ok q k (int (length samples))" and "ok v"
  shows "sane (feed_loop k n V F T D rate p samples off since padding v h) \<and>
    (\<forall>x v' h'. feed_loop k n V F T D rate p samples off since padding v h = Inr (x, v', h') \<longrightarrow> ok v')"
  using assms(5)
proof (induction "nat (int (length samples) - off)" arbitrary: off since padding v h rule: less_induct)
  case less
  show ?case
  proof (cases "off < int (length samples)")
    case False
    then show ?thesis using less.prems by (simp add: feed_loop.simps[of k n V F T D rate p samples off])
  next
    case True
    define stop where "stop = min (off + vad_window_samples) (int (length samples))"
    define window where "window = sample_range samples off stop"
    define short where "short \<longleftrightarrow> int (length window) < vad_window_samples"
    define pad where "pad = (if short then vad_window_samples - int (length window) else padding)"
    define full where "full = (if short then window @ replicate (nat (vad_window_samples - int (length window))) 0 else window)"
    define v1 where "v1 = vad_accept V full v"
    have u: "feed_loop k n V F T D rate p samples off since padding v h =
        (if since + (stop - off) \<ge> vad_drain_every_samples
         then (case drain_segments k n V F T D rate p samples v1 h of
            Inl e \<Rightarrow> Inl e
          | Inr (v, h) \<Rightarrow> feed_loop k n V F T D rate p samples (off + vad_window_samples) 0 pad v h)
         else feed_loop k n V F T D rate p samples (off + vad_window_samples) (since + (stop - off)) pad v1 h)"
      unfolding feed_loop.simps[of k n V F T D rate p samples off] Let_def
      using True by (simp only: if_True stop_def[symmetric] window_def[symmetric] short_def[symmetric] pad_def[symmetric]
          full_def[symmetric] v1_def[symmetric])
    have v1: "ok v1" "q v1 < k" using assms(4) less.prems by (auto simp: vad_laws_def v1_def)
    have dec: "nat (int (length samples) - (off + vad_window_samples)) < nat (int (length samples) - off)"
      using True by (simp add: vad_window_samples_def)
    note d = drain_sane[OF assms(1-4) v1, of F T D h]
    show ?thesis
    proof (cases "since + (stop - off) \<ge> vad_drain_every_samples")
      case drain: True
      show ?thesis
      proof (cases "drain_segments k n V F T D rate p samples v1 h")
        case (Inl e)
        then show ?thesis unfolding u using d drain by simp
      next
        case (Inr vh)
        obtain v2 h2 where vh: "vh = (v2, h2)" by (metis surj_pair)
        have "ok v2" using d unfolding Inr vh by blast
        then show ?thesis unfolding u using less.hyps[OF dec] drain by (simp add: Inr vh)
      qed
    next
      case False
      then show ?thesis unfolding u using less.hyps[OF dec v1(1)] by simp
    qed
  qed
qed

lemma transcribe_sane:
  assumes "usable_policy p rate" "usable_context p rate" and "2 \<le> n" and "vad_laws V ok q k (int (length samples))"
    and "0 < rate" "rate < 2 ^ 31"
  shows "sane (transcribe k n V F T D rate p use_vad samples v)"
proof -
  have z: "sane (case r of Inl e \<Rightarrow> Inl e | Inr x \<Rightarrow> Inr (f x))" if "sane r" for r :: "(stt_err, 'b) res" and f :: "'b \<Rightarrow> 'c"
    using that by (cases r) simp_all
  show ?thesis
  proof (cases "samples = [] \<or> \<not> use_vad")
    case True
    then show ?thesis using z[OF non_vad_sane[OF assms(1,3,5,6), of F T D samples]] by (auto simp: transcribe_def Let_def)
  next
    case False
    have r: "ok (vad_reset V v)" using assms(4) by (simp add: vad_laws_def)
    note f = feed_sane[OF assms(1-4) r, of F T D 0 0 0 "([], 0)"]
    show ?thesis
    proof (cases "feed_loop k n V F T D rate p samples 0 0 0 (vad_reset V v) ([], 0)")
      case (Inl e)
      then show ?thesis using f False by (simp add: transcribe_def Let_def)
    next
      case (Inr x)
      obtain padding v2 h2 where x: "x = (padding, v2, h2)" by (metis prod.collapse)
      have "ok v2" using f unfolding Inr x by blast
      then have "ok (vad_flush V v2)" "q (vad_flush V v2) < k" using assms(4) by (auto simp: vad_laws_def)
      from conjunct1[OF drain_sane[OF assms(1-4) this, of F T D h2]]
      show ?thesis using False Inr x by (auto simp: transcribe_def Let_def split: sum.splits)
    qed
  qed
qed

lemma transcribe_in_recording:
  assumes "transcribe k n V F T D rate p use_vad samples v = Inr ws" and "0 < rate" and "w \<in> set ws"
  shows "w_start_ms w \<le> w_end_ms w \<and> w_end_ms w \<le> ms_of_samples (int (length samples)) rate \<and> w_extent_cap w = 0"
proof -
  have "samples \<noteq> []" using assms(1,3) by (auto simp: transcribe_def)
  moreover obtain us pad where "ws = finalize_transcript_words F samples rate us (ms_of_samples (int (length samples)) rate) pad"
    using assms(1) \<open>samples \<noteq> []\<close> by (auto simp: transcribe_def Let_def split: if_splits sum.splits)
  ultimately show ?thesis using finalize_in_recording[OF assms(2) _ refl] assms(3) unfolding in_recording_def by blast
qed

subsection \<open>Properties\<close>



definition ex_vad :: "(int \<times> 32 word list) list vad_calls" where
  "ex_vad = \<lparr>vad_reset = (\<lambda>v. [(0, ex_sound)]), vad_accept = (\<lambda>w v. v), vad_flush = (\<lambda>v. v), vad_is_empty = (\<lambda>v. v = []),
     vad_front = (\<lambda>v. case v of [] \<Rightarrow> None | x # _ \<Rightarrow> Some x), vad_pop = tl\<rparr>"

definition ex_queue :: "(int \<times> 32 word list) list \<Rightarrow> bool" where
  "ex_queue v \<longleftrightarrow> v = [] \<or> v = [(0, ex_sound)]"

definition ex_decoder :: decoder where
  "ex_decoder rate xs = Tokens [''hey''] [0] [0]"

definition ex_policy :: decode_policy where
  "ex_policy = vad_decode_policy_for_model True"



text \<open>
  Every word of a transcript lies inside its recording: it does not end before it starts, it ends by the end
  of the audio, and the decoder's cap on its end is gone.
\<close>

theorem transcript_in_recording:
  assumes "transcribe k n V F T D rate p use_vad samples v = Inr ws" and "0 < rate" and "w \<in> set ws"
  shows "w_start_ms w \<le> w_end_ms w \<and> w_end_ms w \<le> ms_of_samples (int (length samples)) rate \<and> w_extent_cap w = 0"
  using assms by (rule transcribe_in_recording)

lemma ex_tokens: "tokens_to_words ex_floats [''hey''] [0] [0] = [new_word ''hey'' 0 0 0]"
proof -
  have p: "plain ''hey''" by (simp add: plain_def byte_def)
  have u: "\<not> contains_str ''hey'' unknown_token" by (simp add: contains_str_def unknown_token_def upt_rec)
  have s: "\<not> starts_word ''hey''" by (simp add: starts_word_def has_prefix_def word_mark_def)
  have n: "\<not> token_is_non_acoustic_punctuation ''hey''"
    by (simp add: token_is_non_acoustic_punctuation_def plain_trim[OF p] rune_list_ascii byte_def punctuation_runes_def)
  show ?thesis
    by (simp add: tokens_to_words_def without_unknown_tokens_def u s n flush_word_def fresh_word_def add_token_def token_ms_def
      plain_trim[OF p] plain_fields[OF p] ex_floats_def max_float_def new_word_def split_multi_word_tokens_def split_word_def Let_def)
qed



lemma ex_transcribed:
  "transcribe 1 1 ex_vad ex_floats ex_text ex_decoder 1000 ex_policy False ex_sound [] = Inr [new_word ''hey'' 0 0 0]"
proof -
  have l: "length ex_sound = 40" by (simp add: ex_sound_def)
  have p: "dp_no_padding ex_policy" "dp_head_padding_ms ex_policy = 0" "dp_tail_padding_ms ex_policy = 0"
    by (simp_all add: ex_policy_def vad_decode_policy_for_model_def default_vad_decode_policy_def)
  have m: "ms_of_samples 0 1000 = 0" "ms_of_samples 40 1000 = 40" by (simp_all add: ms_of_samples_def wrap64_def)
  have w: "wrap64 0 = 0" "wrap64 40 = 40" by (simp_all add: wrap64_def)
  have k: "clamp_words_to_timeline_end [new_word ''hey'' 0 0 0] 40 0 = [new_word ''hey'' 0 0 0]"
    by (simp add: clamp_words_to_timeline_end_def clamp_word_def new_word_def List.map_filter_simps w Let_def)
  have c: "decode_chunk ex_floats ex_decoder 1000 0 False ex_policy ex_sound 0 = Inr [new_word ''hey'' 0 0 0]"
    by (simp add: decode_chunk_def p l ex_decoder_def ex_tokens max_safe_segment_samples_def sample_range_def m w Let_def
      offset_decoder_words_def offset_word_def samples_to_ceil_ms_def wrap64_def[of 40000] wrap64_def[of 20000] k)
     (simp add: new_word_def k[unfolded new_word_def] w)
  have d: "decode_chunks ex_floats ex_decoder 1000 0 False ex_policy ex_sound 0 [] = Inr [new_word ''hey'' 0 0 0]"
    by (simp add: decode_chunks.simps[of _ _ _ _ _ _ _ 0] c l) (simp add: decode_chunks.simps l max_safe_segment_samples_def)
  have n: "non_vad_window_bounds 40 15000 500 = [\<lparr>wb_start = 0, wb_end = 40\<rparr>]" by (simp add: non_vad_window_bounds_def)
  have s: "scale_samples 240000 1000 = 15000" "scale_samples 8000 1000 = 500" by (simp_all add: scale_samples_def wrap64_def)
  have r: "sample_range ex_sound 0 40 = ex_sound" by (simp add: sample_range_def l)
  have "transcribe_non_vad_chunked 1 ex_floats ex_text ex_decoder 1000 ex_policy ex_sound = Inr [new_word ''hey'' 0 0 0]"
    by (simp add: transcribe_non_vad_chunked_def l s n slice_samples_def r m w d Let_def dedup_merged_fallback_words_def dedup_with_policy_def)
  moreover have "filter_words_by_energy ex_floats ex_sound 1000 [new_word ''hey'' 0 0 0] = [new_word ''hey'' 0 0 0]" by code_simp
  ultimately show ?thesis
    by (simp add: transcribe_def l m finalize_transcript_words_def k Let_def) (simp add: ex_sound_def)
qed

theorem transcript_in_recording_witness:
  "transcribe 1 1 ex_vad ex_floats ex_text ex_decoder 1000 ex_policy False ex_sound [] = Inr [new_word ''hey'' 0 0 0] \<and>
   w_end_ms (new_word ''hey'' 0 0 0) \<le> ms_of_samples 40 1000"
  using transcript_in_recording[OF ex_transcribed, of "new_word ''hey'' 0 0 0"] ex_transcribed by (simp add: ex_sound_def)


end
