(* ===== verification/Pli.thy ===== *)
theory Pli
  imports Go_Strings
begin

text \<open>
  Keyframe requests for recorded video tracks (\<open>internal/talk/pli.go\<close> of the recorder):
  \<open>pliGapTracker\<close> with its throttle, its bookkeeping of missing sequence numbers and the debt
  of a request the throttle held back.  Sequence numbers are \<open>16 word\<close>, so they wrap as
  \<open>uint16\<close> does; the enumeration loop over a gap is a function with its termination proof.
\<close>


subsection \<open>The gap tracker\<close>

definition pli_nack_grace_period :: duration where "pli_nack_grace_period = 400000000"
definition pli_min_interval :: duration where "pli_min_interval = 2000000000"
definition pli_max_tracked_gap :: int where "pli_max_tracked_gap = 64"
definition pli_missing_expiry :: duration where "pli_missing_expiry = 5000000000"

text \<open>The map of missing sequence numbers is a list of pairs with distinct keys.\<close>

type_synonym missing = "(16 word \<times> go_time) list"

record pli_tracker =
  pt_initialized :: bool
  pt_ssrc :: "32 word"
  pt_highest :: "16 word"
  pt_missing :: missing
  pt_last_pli :: go_time
  pt_due :: go_time

definition new_pli_tracker :: pli_tracker where
  "new_pli_tracker = \<lparr>pt_initialized = False, pt_ssrc = 0, pt_highest = 0, pt_missing = [], pt_last_pli = 0, pt_due = 0\<rparr>"

definition drop_missing :: "16 word \<Rightarrow> missing \<Rightarrow> missing" where
  "drop_missing s m = filter (\<lambda>(k, _). k \<noteq> s) m"

definition set_missing :: "16 word \<Rightarrow> go_time \<Rightarrow> missing \<Rightarrow> missing" where
  "set_missing s t m = (s, t) # drop_missing s m"

lemma word_dist_less: "s \<noteq> q \<Longrightarrow> unat (q - (s + 1)) < unat (q - s)" for s q :: "16 word"
proof -
  assume "s \<noteq> q"
  then have "q - s \<noteq> 0" by simp
  then have "unat (q - s - 1) < unat (q - s)" by (rule measure_unat)
  moreover have "q - s - 1 = q - (s + 1)" by simp
  ultimately show ?thesis by simp
qed

text \<open>\<open>for s := highest + 1; s != seq; s++\<close>, with wrap-around.\<close>

function mark_missing :: "16 word \<Rightarrow> 16 word \<Rightarrow> go_time \<Rightarrow> missing \<Rightarrow> missing" where
  "mark_missing s seq now m = (if s = seq then m else mark_missing (s + 1) seq now (set_missing s now m))"
  by pat_completeness auto
termination by (relation "measure (\<lambda>(s, seq, _). unat (seq - s))") (auto simp: word_dist_less)

declare mark_missing.simps [simp del]

definition request_pli :: "go_time \<Rightarrow> pli_tracker \<Rightarrow> bool \<times> pli_tracker" where
  "request_pli now t =
     (if pt_last_pli t \<noteq> 0 \<and> time_sub now (pt_last_pli t) < pli_min_interval then (False, t)
      else (True, t\<lparr>pt_last_pli := now, pt_due := 0\<rparr>))"

definition defer_or_request_pli :: "go_time \<Rightarrow> pli_tracker \<Rightarrow> bool \<times> pli_tracker" where
  "defer_or_request_pli now t =
     (case request_pli now t of (True, t') \<Rightarrow> (True, t') | (False, t') \<Rightarrow> (False, t'\<lparr>pt_due := now\<rparr>))"

text \<open>The sweep over the missing entries: what it keeps, and whether one went stale.\<close>

definition sweep_missing :: "go_time \<Rightarrow> missing \<Rightarrow> missing" where
  "sweep_missing now m = filter (\<lambda>(_, seen). \<not> time_sub now seen > pli_missing_expiry) m"

definition sweep_stale :: "go_time \<Rightarrow> missing \<Rightarrow> bool" where
  "sweep_stale now m \<longleftrightarrow> list_ex (\<lambda>(_, seen). time_sub now seen > pli_nack_grace_period) (sweep_missing now m)"

definition sweep_and_request :: "go_time \<Rightarrow> pli_tracker \<Rightarrow> bool \<times> pli_tracker" where
  "sweep_and_request now t =
     (let stale = sweep_stale now (pt_missing t); t = t\<lparr>pt_missing := sweep_missing now (pt_missing t)\<rparr> in
      if \<not> stale \<and> pt_due t = 0 then (False, t) else request_pli now t)"

definition resync :: "32 word \<Rightarrow> 16 word \<Rightarrow> pli_tracker \<Rightarrow> pli_tracker" where
  "resync ssrc seq t = t\<lparr>pt_ssrc := ssrc, pt_highest := seq, pt_missing := []\<rparr>"

definition pli_observe :: "32 word \<Rightarrow> 16 word \<Rightarrow> go_time \<Rightarrow> pli_tracker \<Rightarrow> bool \<times> pli_tracker" where
  "pli_observe ssrc seq now t =
     (if \<not> pt_initialized t
      then (False, t\<lparr>pt_initialized := True, pt_ssrc := ssrc, pt_highest := seq\<rparr>)
      else if ssrc \<noteq> pt_ssrc t then defer_or_request_pli now (resync ssrc seq t)
      else
        let diff = sint (seq - pt_highest t) in
        if diff = 1 then sweep_and_request now (t\<lparr>pt_highest := seq\<rparr>)
        else if diff > 1 then
          (if diff > pli_max_tracked_gap then defer_or_request_pli now (resync ssrc seq t)
           else sweep_and_request now (t\<lparr>pt_missing := mark_missing (pt_highest t + 1) seq now (pt_missing t), pt_highest := seq\<rparr>))
        else sweep_and_request now (t\<lparr>pt_missing := drop_missing seq (pt_missing t)\<rparr>))"

record rtp_arrival =
  ar_ssrc :: "32 word"
  ar_seq :: "16 word"
  ar_now :: go_time

text \<open>A run: each packet, whether it asked for a keyframe, and the tracker after it.\<close>

fun pli_run :: "rtp_arrival list \<Rightarrow> pli_tracker \<Rightarrow> (rtp_arrival \<times> bool \<times> pli_tracker) list" where
  "pli_run [] t = []"
| "pli_run (p # ps) t =
     (case pli_observe (ar_ssrc p) (ar_seq p) (ar_now p) t of
        (sent, t') \<Rightarrow> (p, sent, t') # pli_run ps t')"

definition pli_times :: "rtp_arrival list \<Rightarrow> pli_tracker \<Rightarrow> go_time list" where
  "pli_times ps t = map (\<lambda>(p, _). ar_now p) (filter (\<lambda>(_, sent, _). sent) (pli_run ps t))"

subsection \<open>One packet\<close>

text \<open>The throttle lets a request through.\<close>

definition pli_allowed :: "go_time \<Rightarrow> pli_tracker \<Rightarrow> bool" where
  "pli_allowed now t \<longleftrightarrow> pt_last_pli t = 0 \<or> pli_min_interval \<le> time_sub now (pt_last_pli t)"

text \<open>Why a packet wants a keyframe: an unpaid request, a discontinuity, or a gap past its grace period.\<close>

definition discontinuity :: "pli_tracker \<Rightarrow> rtp_arrival \<Rightarrow> bool" where
  "discontinuity t p \<longleftrightarrow> ar_ssrc p \<noteq> pt_ssrc t \<or> sint (ar_seq p - pt_highest t) > pli_max_tracked_gap"

definition keyframe_wanted :: "pli_tracker \<Rightarrow> rtp_arrival \<Rightarrow> pli_tracker \<Rightarrow> bool" where
  "keyframe_wanted t p t' \<longleftrightarrow> pt_due t \<noteq> 0 \<or> discontinuity t p \<or>
     (\<exists>(s, seen)\<in>set (pt_missing t'). pli_nack_grace_period < time_sub (ar_now p) seen)"

definition observe_packet :: "pli_tracker \<Rightarrow> rtp_arrival \<Rightarrow> bool \<times> pli_tracker" where
  "observe_packet t p = pli_observe (ar_ssrc p) (ar_seq p) (ar_now p) t"

lemma sweep_step:
  assumes "sweep_and_request now t = (sent, t')"
  shows "(sent \<longleftrightarrow> (pt_due t \<noteq> 0 \<or> (\<exists>(s, seen)\<in>set (pt_missing t'). pli_nack_grace_period < time_sub now seen)) \<and> pli_allowed now t)"
    and "pt_last_pli t' = (if sent then now else pt_last_pli t)" and "pt_due t' = (if sent then 0 else pt_due t)"
    and "pt_initialized t' = pt_initialized t"
  using assms
  by (auto simp: sweep_and_request_def Let_def request_pli_def pli_allowed_def sweep_stale_def list_ex_iff split: if_splits)

lemma defer_step:
  assumes "defer_or_request_pli now t = (sent, t')"
  shows "sent \<longleftrightarrow> pli_allowed now t"
    and "pt_last_pli t' = (if sent then now else pt_last_pli t)" and "pt_due t' = (if sent then 0 else now)"
    and "pt_initialized t' = pt_initialized t"
  using assms by (auto simp: defer_or_request_pli_def request_pli_def pli_allowed_def split: if_splits)

lemma observe_jump:
  "pt_initialized t \<Longrightarrow> discontinuity t p \<Longrightarrow>
   observe_packet t p = defer_or_request_pli (ar_now p) (resync (ar_ssrc p) (ar_seq p) t)"
  by (auto simp: observe_packet_def pli_observe_def discontinuity_def Let_def pli_max_tracked_gap_def)

lemma observe_near:
  assumes "pt_initialized t" and "\<not> discontinuity t p"
  shows "\<exists>u. observe_packet t p = sweep_and_request (ar_now p) u \<and> pt_due u = pt_due t \<and>
    pt_last_pli u = pt_last_pli t \<and> pt_initialized u"
proof -
  let ?d = "sint (ar_seq p - pt_highest t)"
  let ?u = "if ?d = 1 then t\<lparr>pt_highest := ar_seq p\<rparr>
    else if ?d > 1 then t\<lparr>pt_missing := mark_missing (pt_highest t + 1) (ar_seq p) (ar_now p) (pt_missing t), pt_highest := ar_seq p\<rparr>
    else t\<lparr>pt_missing := drop_missing (ar_seq p) (pt_missing t)\<rparr>"
  have "observe_packet t p = sweep_and_request (ar_now p) ?u"
    using assms by (simp add: observe_packet_def pli_observe_def discontinuity_def Let_def)
  moreover have "pt_due ?u = pt_due t \<and> pt_last_pli ?u = pt_last_pli t \<and> pt_initialized ?u"
    using assms(1) by simp
  ultimately show ?thesis by blast
qed

lemma observe_step:
  assumes "pt_initialized t" and "ar_now p \<noteq> 0" and "observe_packet t p = (sent, t')"
  shows "sent \<longleftrightarrow> keyframe_wanted t p t' \<and> pli_allowed (ar_now p) t"
    and "pt_last_pli t' = (if sent then ar_now p else pt_last_pli t)"
    and "pt_due t \<noteq> 0 \<or> discontinuity t p \<Longrightarrow> \<not> sent \<Longrightarrow> pt_due t' \<noteq> 0"
    and "pt_initialized t'"
proof -
  consider (jump) "discontinuity t p" | (near) "\<not> discontinuity t p" by blast
  then have "(sent \<longleftrightarrow> keyframe_wanted t p t' \<and> pli_allowed (ar_now p) t) \<and>
      pt_last_pli t' = (if sent then ar_now p else pt_last_pli t) \<and>
      (pt_due t \<noteq> 0 \<or> discontinuity t p \<longrightarrow> \<not> sent \<longrightarrow> pt_due t' \<noteq> 0) \<and> pt_initialized t'"
  proof cases
    case jump
    with assms observe_jump[OF assms(1) jump] have "defer_or_request_pli (ar_now p) (resync (ar_ssrc p) (ar_seq p) t) = (sent, t')" by simp
    from defer_step[OF this] jump assms(1,2) show ?thesis
      by (auto simp: pli_allowed_def keyframe_wanted_def resync_def)
  next
    case near
    with observe_near[OF assms(1)] obtain u where u: "observe_packet t p = sweep_and_request (ar_now p) u"
      "pt_due u = pt_due t" "pt_last_pli u = pt_last_pli t" "pt_initialized u" by blast
    with assms have "sweep_and_request (ar_now p) u = (sent, t')" by simp
    from sweep_step[OF this] near u(2,3,4) show ?thesis
      by (auto simp: pli_allowed_def keyframe_wanted_def)
  qed
  then show "sent \<longleftrightarrow> keyframe_wanted t p t' \<and> pli_allowed (ar_now p) t"
    and "pt_last_pli t' = (if sent then ar_now p else pt_last_pli t)"
    and "pt_due t \<noteq> 0 \<or> discontinuity t p \<Longrightarrow> \<not> sent \<Longrightarrow> pt_due t' \<noteq> 0"
    and "pt_initialized t'" by blast+
qed

subsection \<open>A run\<close>

definition arrivals_ok :: "go_time \<Rightarrow> rtp_arrival list \<Rightarrow> bool" where
  "arrivals_ok t ps \<longleftrightarrow> sorted (t # map ar_now ps) \<and> 0 < t \<and> (\<forall>p\<in>set ps. ar_now p \<le> 2 ^ 62)"

lemma pli_times_Cons:
  "observe_packet t p = (sent, t') \<Longrightarrow> pli_times (p # ps) t = (if sent then ar_now p # pli_times ps t' else pli_times ps t')"
  by (simp add: pli_times_def observe_packet_def)

lemma pli_times_apart:
  assumes "pt_initialized t" and "arrivals_ok now ps" and "0 \<le> pt_last_pli t" and "pt_last_pli t \<le> now"
  shows "sorted_wrt (\<lambda>a b. pli_min_interval \<le> b - a) (pli_times ps t) \<and>
    (\<forall>a\<in>set (pli_times ps t). now \<le> a \<and> (pt_last_pli t \<noteq> 0 \<longrightarrow> pli_min_interval \<le> a - pt_last_pli t))"
  using assms
proof (induction ps arbitrary: t now)
  case Nil
  then show ?case by (simp add: pli_times_def)
next
  case (Cons p ps)
  obtain sent t' where ob: "observe_packet t p = (sent, t')" by (cases "observe_packet t p")
  from Cons.prems(2) have clk: "now \<le> ar_now p" "0 < now" "ar_now p \<le> 2 ^ 62" and rest: "arrivals_ok (ar_now p) ps"
    by (auto simp: arrivals_ok_def)
  then have nz: "ar_now p \<noteq> 0" by linarith
  note st = observe_step[OF Cons.prems(1) nz ob]
  have ts: "time_sub (ar_now p) (pt_last_pli t) = ar_now p - pt_last_pli t"
    using clk Cons.prems(3,4) by (auto simp: time_sub_def min_i64_def max_i64_def)
  have last: "0 \<le> pt_last_pli t'" "pt_last_pli t' \<le> ar_now p" using st(2) Cons.prems(3,4) clk by auto
  note ih = Cons.IH[OF st(4) rest last]
  show ?case
  proof (cases sent)
    case True
    have allowed: "pt_last_pli t \<noteq> 0 \<longrightarrow> pli_min_interval \<le> ar_now p - pt_last_pli t"
      using st(1) True by (auto simp: pli_allowed_def ts)
    have lp: "pt_last_pli t' = ar_now p" using st(2) True by simp
    have later: "now \<le> a \<and> (pt_last_pli t \<noteq> 0 \<longrightarrow> pli_min_interval \<le> a - pt_last_pli t)" if "a \<in> set (pli_times ps t')" for a
      using ih that clk allowed nz unfolding lp by fastforce
    show ?thesis unfolding pli_times_Cons[OF ob] using True ih allowed clk nz later unfolding lp by simp
  next
    case False
    have lp: "pt_last_pli t' = pt_last_pli t" using st(2) False by simp
    show ?thesis unfolding pli_times_Cons[OF ob] using False ih clk unfolding lp by fastforce
  qed
qed

definition pli_decided :: "pli_tracker \<Rightarrow> rtp_arrival \<times> bool \<times> pli_tracker \<Rightarrow> bool" where
  "pli_decided t r \<longleftrightarrow> (case r of (p, sent, t') \<Rightarrow>
     (sent \<longleftrightarrow> keyframe_wanted t p t' \<and> pli_allowed (ar_now p) t) \<and>
     ((pt_due t \<noteq> 0 \<or> discontinuity t p) \<and> \<not> sent \<longrightarrow> pt_due t' \<noteq> 0))"

lemma pli_run_decided:
  assumes "pt_initialized t" and "arrivals_ok now ps" and "snd (snd x) = t"
  shows "successively (\<lambda>(_, _, t) r. pli_decided t r) (x # pli_run ps t)"
  using assms
proof (induction ps arbitrary: t now x)
  case Nil
  then show ?case by simp
next
  case (Cons p ps)
  obtain sent t' where ob: "observe_packet t p = (sent, t')" by (cases "observe_packet t p")
  from Cons.prems(2) have nz: "ar_now p \<noteq> 0" and rest: "arrivals_ok (ar_now p) ps"
    by (auto simp: arrivals_ok_def)
  note st = observe_step[OF Cons.prems(1) nz ob]
  have run: "pli_run (p # ps) t = (p, sent, t') # pli_run ps t'"
    using ob by (simp add: observe_packet_def)
  have "pli_decided t (p, sent, t')" using st(1,3) by (auto simp: pli_decided_def)
  with Cons.IH[OF st(4) rest, of "(p, sent, t')"] Cons.prems(3) show ?case
    unfolding run by (cases x) simp
qed


definition ex_arrivals :: "rtp_arrival list" where
  "ex_arrivals =
     [\<lparr>ar_ssrc = 1, ar_seq = 65534, ar_now = 1\<rparr>, \<lparr>ar_ssrc = 1, ar_seq = 1, ar_now = 2\<rparr>,
      \<lparr>ar_ssrc = 1, ar_seq = 2, ar_now = 400000003\<rparr>, \<lparr>ar_ssrc = 2, ar_seq = 9, ar_now = 500000000\<rparr>,
      \<lparr>ar_ssrc = 2, ar_seq = 10, ar_now = 2400000003\<rparr>]"


end
