(* ===== verification/Rate_Limit.thy ===== *)
theory Rate_Limit
  imports Go_Strings
begin

text \<open>
  The search rate limiter of the operator (\<open>search_ratelimit.go\<close>): a token bucket per caller,
  refilled by whole intervals, with eviction of idle buckets.  Calls are atomic (the mutex) and
  carry the time the injected clock gives them.
\<close>


subsection \<open>The limiter\<close>

definition search_burst :: int where "search_burst = 10"
definition search_refill_interval :: duration where "search_refill_interval = 2000000000"
definition search_limiter_idle_ttl :: duration where "search_limiter_idle_ttl = 1800000000000"

record search_bucket =
  sb_tokens :: int
  sb_last :: go_time

record search_rate_limiter =
  rl_buckets :: "string \<Rightarrow> search_bucket option"
  rl_burst :: int
  rl_refill :: duration

definition new_search_rate_limiter :: search_rate_limiter where
  "new_search_rate_limiter = \<lparr>rl_buckets = (\<lambda>_. None), rl_burst = search_burst, rl_refill = search_refill_interval\<rparr>"

definition evict_idle :: "go_time \<Rightarrow> search_rate_limiter \<Rightarrow> search_rate_limiter" where
  "evict_idle now l = l\<lparr>rl_buckets := (\<lambda>k. case rl_buckets l k of
       None \<Rightarrow> None
     | Some b \<Rightarrow> if time_sub now (sb_last b) > search_limiter_idle_ttl then None else Some b)\<rparr>"

definition refill_bucket :: "int \<Rightarrow> duration \<Rightarrow> go_time \<Rightarrow> search_bucket \<Rightarrow> search_bucket" where
  "refill_bucket burst refill now b =
     (let elapsed = time_sub now (sb_last b) in
      if elapsed \<ge> refill
      then let granted = elapsed div refill; tokens = wrap64 (sb_tokens b + granted) in
           \<lparr>sb_tokens = (if tokens > burst then burst else tokens), sb_last = sb_last b + wrap64 (granted * refill)\<rparr>
      else b)"

definition spend_token :: "int \<Rightarrow> duration \<Rightarrow> go_time \<Rightarrow> search_bucket \<Rightarrow> (bool \<times> duration) \<times> search_bucket" where
  "spend_token burst refill now b =
     (if sb_tokens b \<le> 0
      then let wait = wrap64 (refill - time_sub now (sb_last b)) in ((False, if wait < 0 then 0 else wait), b)
      else let b = b\<lparr>sb_tokens := sb_tokens b - 1\<rparr> in
           ((True, 0), if sb_tokens b = burst - 1 then b\<lparr>sb_last := now\<rparr> else b))"

text \<open>\<open>None\<close> is the nil limiter.\<close>

definition allow :: "go_time \<Rightarrow> string \<Rightarrow> search_rate_limiter option \<Rightarrow> (bool \<times> duration) \<times> search_rate_limiter option" where
  "allow now caller limiter =
     (let key = trim_space caller in
      case limiter of
        None \<Rightarrow> ((True, 0), None)
      | Some l \<Rightarrow>
          if key = [] then ((True, 0), limiter)
          else
            let l = evict_idle now l;
                b = (case rl_buckets l key of
                       None \<Rightarrow> \<lparr>sb_tokens = rl_burst l, sb_last = now\<rparr>
                     | Some b \<Rightarrow> refill_bucket (rl_burst l) (rl_refill l) now b);
                (answer, b') = spend_token (rl_burst l) (rl_refill l) now b
            in (answer, Some (l\<lparr>rl_buckets := (rl_buckets l)(key := Some b')\<rparr>)))"

text \<open>A sequence of calls: who, when, and the answers.\<close>

fun allow_run :: "(go_time \<times> string) list \<Rightarrow> search_rate_limiter option \<Rightarrow> (go_time \<times> string \<times> bool \<times> duration) list" where
  "allow_run [] l = []"
| "allow_run ((now, caller) # calls) l =
     (case allow now caller l of (answer, l') \<Rightarrow> (now, caller, answer) # allow_run calls l')"

text \<open>Reference: one caller's bucket on its own, never evicted.\<close>

definition bucket_allow :: "go_time \<Rightarrow> search_bucket option \<Rightarrow> (bool \<times> duration) \<times> search_bucket" where
  "bucket_allow now bo =
     spend_token search_burst search_refill_interval now
       (case bo of None \<Rightarrow> \<lparr>sb_tokens = search_burst, sb_last = now\<rparr>
                 | Some b \<Rightarrow> refill_bucket search_burst search_refill_interval now b)"

fun bucket_run :: "go_time list \<Rightarrow> search_bucket option \<Rightarrow> (bool \<times> duration) list" where
  "bucket_run [] bo = []"
| "bucket_run (now # ts) bo = (case bucket_allow now bo of (answer, b) \<Rightarrow> answer # bucket_run ts (Some b))"

lemmas limits = search_burst_def search_refill_interval_def search_limiter_idle_ttl_def

text \<open>The clock of one run: it does not run backwards and stays within 292 years.\<close>

definition clock_ok :: "go_time \<Rightarrow> (go_time \<times> string) list \<Rightarrow> bool" where
  "clock_ok t calls \<longleftrightarrow> sorted (t # map fst calls) \<and> (\<forall>c\<in>set calls. fst c \<le> 2 ^ 62) \<and> 0 \<le> t"

definition bucket_ok :: "go_time \<Rightarrow> search_bucket \<Rightarrow> bool" where
  "bucket_ok now b \<longleftrightarrow> 0 \<le> sb_tokens b \<and> sb_tokens b \<le> search_burst \<and> 0 \<le> sb_last b \<and> sb_last b \<le> now \<and> now \<le> 2 ^ 62"

lemma time_sub_ok: "bucket_ok now b \<Longrightarrow> time_sub now (sb_last b) = now - sb_last b"
  by (auto simp: bucket_ok_def time_sub_def min_i64_def max_i64_def)

lemma refill_ok:
  assumes "bucket_ok now b"
  defines "g \<equiv> (now - sb_last b) div search_refill_interval"
  shows "refill_bucket search_burst search_refill_interval now b =
      \<lparr>sb_tokens = min search_burst (sb_tokens b + g), sb_last = sb_last b + g * search_refill_interval\<rparr>"
    and "bucket_ok now (refill_bucket search_burst search_refill_interval now b)"
    and "0 \<le> g" and "g * search_refill_interval \<le> now - sb_last b" and "now - sb_last b < (g + 1) * search_refill_interval"
proof -
  have d: "0 \<le> now - sb_last b" "now - sb_last b \<le> 2 ^ 62" using assms(1) by (auto simp: bucket_ok_def)
  show g0: "0 \<le> g" using d by (simp add: g_def limits pos_imp_zdiv_nonneg_iff)
  have m: "g * search_refill_interval + (now - sb_last b) mod search_refill_interval = now - sb_last b"
    by (simp add: g_def)
  moreover have r: "0 \<le> (now - sb_last b) mod search_refill_interval" "(now - sb_last b) mod search_refill_interval < search_refill_interval"
    by (simp_all add: limits)
  ultimately show g1: "g * search_refill_interval \<le> now - sb_last b" and g2: "now - sb_last b < (g + 1) * search_refill_interval"
    by (simp_all add: algebra_simps)
  have gb: "g \<le> 2 ^ 62" using g0 g1 d by (simp add: limits)
  have w1: "wrap64 (g * search_refill_interval) = g * search_refill_interval"
    using g0 g1 d by (intro wrap64_id) (auto simp: in_i64_def min_i64_def max_i64_def limits)
  have w2: "wrap64 (sb_tokens b + g) = sb_tokens b + g"
    using g0 gb assms(1) by (intro wrap64_id) (auto simp: in_i64_def min_i64_def max_i64_def limits bucket_ok_def)
  show eq: "refill_bucket search_burst search_refill_interval now b =
      \<lparr>sb_tokens = min search_burst (sb_tokens b + g), sb_last = sb_last b + g * search_refill_interval\<rparr>"
  proof (cases "now - sb_last b \<ge> search_refill_interval")
    case True
    then show ?thesis by (simp add: refill_bucket_def Let_def time_sub_ok[OF assms(1)] w1 w2 flip: g_def)
  next
    case False
    then have "g = 0" using d by (simp add: g_def)
    with False assms(1) show ?thesis
      by (simp add: refill_bucket_def Let_def time_sub_ok[OF assms(1)] bucket_ok_def)
  qed
  show "bucket_ok now (refill_bucket search_burst search_refill_interval now b)"
    using assms(1) g0 g1 unfolding eq by (auto simp: bucket_ok_def limits)
qed

lemma spend_ok:
  assumes "bucket_ok now b" and "spend_token search_burst refill now b = (answer, b')"
  shows "bucket_ok now b'"
  using assms by (auto simp: spend_token_def bucket_ok_def Let_def split: if_splits)

lemma bucket_ok_later: "bucket_ok t b \<Longrightarrow> t \<le> now \<Longrightarrow> now \<le> 2 ^ 62 \<Longrightarrow> bucket_ok now b"
  by (simp add: bucket_ok_def)

lemma fresh_ok: "0 \<le> now \<Longrightarrow> now \<le> 2 ^ 62 \<Longrightarrow> bucket_ok now \<lparr>sb_tokens = search_burst, sb_last = now\<rparr>"
  by (simp add: bucket_ok_def limits)

lemma bucket_allow_ok:
  assumes "case bo of None \<Rightarrow> True | Some b \<Rightarrow> bucket_ok now b" and "0 \<le> now" and "now \<le> 2 ^ 62"
    and "bucket_allow now bo = (answer, b')"
  shows "bucket_ok now b'"
proof (cases bo)
  case None
  with assms(4) show ?thesis
    by (intro spend_ok[OF fresh_ok[OF assms(2,3)]]) (simp add: bucket_allow_def)
next
  case (Some b)
  with assms(1) have "bucket_ok now b" by simp
  from spend_ok[OF refill_ok(2)[OF this]] assms(4) Some show ?thesis by (simp add: bucket_allow_def)
qed

text \<open>A bucket idle for longer than the time limit is full again: evicting it changes no answer.\<close>

lemma idle_is_fresh:
  assumes "bucket_ok now b" and "now - sb_last b > search_limiter_idle_ttl"
  shows "bucket_allow now (Some b) = bucket_allow now None"
proof -
  let ?g = "(now - sb_last b) div search_refill_interval"
  have "search_burst \<le> sb_tokens b + ?g"
    using assms refill_ok(5)[OF assms(1)] by (auto simp: limits bucket_ok_def)
  then have "refill_bucket search_burst search_refill_interval now b =
      \<lparr>sb_tokens = search_burst, sb_last = sb_last b + ?g * search_refill_interval\<rparr>"
    unfolding refill_ok(1)[OF assms(1)] by (simp add: min_def)
  then show ?thesis by (simp add: bucket_allow_def spend_token_def Let_def) (simp add: limits)
qed

definition standard :: "search_rate_limiter \<Rightarrow> bool" where
  "standard l \<longleftrightarrow> rl_burst l = search_burst \<and> rl_refill l = search_refill_interval"

lemma allow_standard:
  assumes "standard l" and "trim_space caller \<noteq> []"
  shows "allow now caller (Some l) =
    (case bucket_allow now (rl_buckets (evict_idle now l) (trim_space caller)) of
       (answer, b) \<Rightarrow> (answer, Some (l\<lparr>rl_buckets := (rl_buckets (evict_idle now l))(trim_space caller := Some b)\<rparr>)))"
  using assms by (simp add: allow_def Let_def standard_def evict_idle_def bucket_allow_def split: prod.splits option.splits)

text \<open>The limiter's bucket of a caller against the reference one: equal, or evicted when long idle.\<close>

definition tracks :: "go_time \<Rightarrow> search_bucket option \<Rightarrow> search_bucket option \<Rightarrow> bool" where
  "tracks now lb bo \<longleftrightarrow> (case bo of None \<Rightarrow> lb = None
     | Some b \<Rightarrow> bucket_ok now b \<and> (lb = Some b \<or> lb = None \<and> now - sb_last b > search_limiter_idle_ttl))"

lemma tracks_evict:
  assumes "tracks t (rl_buckets l k) bo" and "t \<le> now" and "now \<le> 2 ^ 62"
  shows "tracks now (rl_buckets (evict_idle now l) k) bo"
proof (cases bo)
  case None
  with assms show ?thesis by (simp add: tracks_def evict_idle_def)
next
  case (Some b)
  with assms have b: "bucket_ok now b" by (auto simp: tracks_def intro: bucket_ok_later)
  with Some assms time_sub_ok[OF b] show ?thesis
    by (auto simp: tracks_def evict_idle_def split: if_splits)
qed

lemma tracks_answer:
  assumes "tracks now lb bo"
  shows "bucket_allow now lb = bucket_allow now bo"
  using assms by (auto simp: tracks_def idle_is_fresh split: option.splits)

lemma allow_run_tracks:
  assumes "standard l" and "k \<noteq> []" and "tracks t (rl_buckets l k) bo" and "clock_ok t calls"
  shows "map (\<lambda>(_, _, a). a) (filter (\<lambda>(_, c, _). trim_space c = k) (allow_run calls (Some l)))
    = bucket_run (map fst (filter (\<lambda>(_, c). trim_space c = k) calls)) bo"
  using assms(1,3,4)
proof (induction calls arbitrary: l t bo)
  case (Cons call calls)
  obtain now c where call: "call = (now, c)" by (cases call)
  from Cons.prems(3) have clk: "t \<le> now" "0 \<le> now" "now \<le> 2 ^ 62" and rest: "clock_ok now calls"
    by (auto simp: clock_ok_def call)
  note ev = tracks_evict[OF Cons.prems(2) clk(1,3)]
  show ?case
  proof (cases "trim_space c = []")
    case True
    have "tracks now (rl_buckets l k) bo"
      using Cons.prems(2) clk by (auto simp: tracks_def intro: bucket_ok_later split: option.splits)
    from Cons.IH[OF Cons.prems(1) this rest] True assms(2) show ?thesis
      by (simp add: call allow_def Let_def)
  next
    case ne: False
    obtain a b where ba: "bucket_allow now (rl_buckets (evict_idle now l) (trim_space c)) = (a, b)"
      by (cases "bucket_allow now (rl_buckets (evict_idle now l) (trim_space c))")
    let ?l = "l\<lparr>rl_buckets := (rl_buckets (evict_idle now l))(trim_space c := Some b)\<rparr>"
    have al: "allow now c (Some l) = (a, Some ?l)"
      by (simp add: allow_standard[OF Cons.prems(1) ne] ba)
    have std: "standard ?l" using Cons.prems(1) by (simp add: standard_def)
    show ?thesis
    proof (cases "trim_space c = k")
      case True
      have bo: "bucket_allow now bo = (a, b)" using tracks_answer[OF ev] ba True by simp
      have "bucket_ok now b"
        using bucket_allow_ok[OF _ clk(2,3) bo] ev by (auto simp: tracks_def split: option.splits)
      then have "tracks now (rl_buckets ?l k) (Some b)" using True by (simp add: tracks_def)
      from Cons.IH[OF std this rest] show ?thesis using True by (simp add: call al bo)
    next
      case False
      then have "tracks now (rl_buckets ?l k) bo" using ev by simp
      from Cons.IH[OF std this rest] False show ?thesis by (simp add: call al)
    qed
  qed
qed simp

text \<open>
  C38: what a caller is answered depends on the times of their own calls alone: the limiter gives
  each caller exactly the answers of a bucket of their own, whatever the other callers do and
  although idle buckets are evicted.
\<close>

theorem limiter_per_caller:
  assumes "key \<noteq> []" and "clock_ok 0 calls"
  shows "map (\<lambda>(_, _, a). a) (filter (\<lambda>(_, c, _). trim_space c = key) (allow_run calls (Some new_search_rate_limiter)))
    = bucket_run (map fst (filter (\<lambda>(_, c). trim_space c = key) calls)) None"
  using assms by (intro allow_run_tracks[where t = 0]) (simp_all add: standard_def new_search_rate_limiter_def tracks_def)

subsection \<open>The rate\<close>

text \<open>The credit of a bucket in nanoseconds: its tokens and the part of the next one.\<close>

definition credit :: "go_time \<Rightarrow> search_bucket option \<Rightarrow> int" where
  "credit now bo = (case bo of None \<Rightarrow> search_burst * search_refill_interval
     | Some b \<Rightarrow> sb_tokens b * search_refill_interval + (now - sb_last b))"

lemma credit_step:
  assumes "case bo of None \<Rightarrow> True | Some b \<Rightarrow> bucket_ok now b" and "0 \<le> now" and "now \<le> 2 ^ 62"
    and "bucket_allow now bo = ((ok, wait), b')"
  shows "credit now (Some b') + (if ok then search_refill_interval else 0) \<le> credit now bo"
proof -
  define b0 where "b0 = (case bo of None \<Rightarrow> \<lparr>sb_tokens = search_burst, sb_last = now\<rparr>
      | Some b \<Rightarrow> refill_bucket search_burst search_refill_interval now b)"
  have ok0: "bucket_ok now b0"
    using assms(1-3) by (auto simp: b0_def intro: fresh_ok refill_ok(2) split: option.splits)
  have "credit now (Some b0) \<le> credit now bo"
  proof (cases bo)
    case None
    then show ?thesis by (simp add: b0_def credit_def)
  next
    case (Some b)
    with assms(1) have b: "bucket_ok now b" by simp
    let ?g = "(now - sb_last b) div search_refill_interval"
    have "min search_burst (sb_tokens b + ?g) * search_refill_interval \<le> (sb_tokens b + ?g) * search_refill_interval"
      by (rule mult_right_mono) (simp_all add: limits)
    then show ?thesis using Some refill_ok(1)[OF b] by (simp add: b0_def credit_def algebra_simps)
  qed
  moreover have "credit now (Some b') + (if ok then search_refill_interval else 0) \<le> credit now (Some b0)"
    using assms(4) ok0
    by (auto simp: bucket_allow_def spend_token_def Let_def credit_def bucket_ok_def algebra_simps simp flip: b0_def split: if_splits)
  ultimately show ?thesis by linarith
qed

lemma credit_bound:
  assumes "case bo of None \<Rightarrow> True | Some b \<Rightarrow> bucket_ok t b" and "sorted (t # ts)" and "0 \<le> t"
    and "\<forall>u\<in>set ts. u \<le> 2 ^ 62" and "bo = None \<longrightarrow> ts \<noteq> [] \<longrightarrow> hd ts = t"
  shows "int (length (filter fst (bucket_run ts bo))) * search_refill_interval \<le> credit t bo + (last (t # ts) - t)"
  using assms
proof (induction ts arbitrary: t bo)
  case Nil
  then show ?case by (auto simp: credit_def limits bucket_ok_def split: option.splits)
next
  case (Cons now ts)
  obtain ok wait b' where ba: "bucket_allow now bo = ((ok, wait), b')"
    by (cases "bucket_allow now bo") auto
  have clk: "t \<le> now" "0 \<le> now" "now \<le> 2 ^ 62" using Cons.prems by auto
  have okb: "case bo of None \<Rightarrow> True | Some b \<Rightarrow> bucket_ok now b"
    using Cons.prems(1) clk by (auto intro: bucket_ok_later split: option.splits)
  have "bucket_ok now b'" by (rule bucket_allow_ok[OF okb clk(2,3) ba])
  with Cons.prems clk have ih: "int (length (filter fst (bucket_run ts (Some b')))) * search_refill_interval
      \<le> credit now (Some b') + (last (now # ts) - now)"
    by (intro Cons.IH) auto
  have later: "credit now bo \<le> credit t bo + (now - t)"
    using Cons.prems(5) clk by (auto simp: credit_def split: option.splits)
  from credit_step[OF okb clk(2,3) ba] ih later show ?case
    by (auto simp: ba algebra_simps)
qed


subsection \<open>Concrete instances\<close>

definition ex_calls :: "(go_time \<times> string) list" where
  "ex_calls = map (\<lambda>i. (int i, ''ann'')) [0..<12] @ [(20, ''bob''), (2000000005, '' ann '')]"

lemma ex_calls_clock: "clock_ok 0 ex_calls"
  by (simp add: clock_ok_def ex_calls_def upt_rec)

theorem limiter_per_caller_witness:
  "map (\<lambda>(_, _, a). a) (filter (\<lambda>(_, c, _). trim_space c = ''ann'') (allow_run ex_calls (Some new_search_rate_limiter)))
    = replicate 10 (True, 0) @ [(False, 1999999990), (False, 1999999989), (True, 0)]"
proof -
  have "bucket_run (map fst (filter (\<lambda>(_, c). trim_space c = ''ann'') ex_calls)) None
      = replicate 10 (True, 0) @ [(False, 1999999990), (False, 1999999989), (True, 0)]" by code_simp
  with limiter_per_caller[OF _ ex_calls_clock, of "''ann''"] show ?thesis by simp
qed


end
