(* ===== verification/Opus_Integrity.thy ===== *)
theory Opus_Integrity
  imports Bytes "HOL-Library.Signed_Division"
begin

text \<open>
  The canonical digest of a recording's compressed audio
  (\<open>src/cassini-go-recorder/internal/portable/opus_integrity.go\<close>): an Ogg demultiplexer that checks every
  page, hashes the \<open>OpusHead\<close> and every audio packet, and leaves out the tags and the page layout.  A reader
  is the list of its bytes and whether it ends in an error instead of the end of the file.  The digest is kept
  as the bytes written to it.  Numbers in error messages are dropped.  The lemmas show that the
  result is a function of the packets and the last granule alone, that the hashed bytes determine them, and
  that a page with one changed byte is refused.
\<close>

subsection \<open>Pages\<close>

datatype opus_err = ReadHeader | AfterEos | CapturePattern | OggVersion | NotBos | OtherStream | SequenceJump
  | UnexpectedBos | ContinuedFlag | ReadSegments | ReadPayload | PageChecksum | PacketTooLong
  | NotOpusHead | HeadVersion | HeadChannels | HeadSize | StreamMapping | ChannelMapping | NotOpusTags
  | EmptyPacket | NoCountByte | ZeroFrames | PacketDuration | DecodedOverflow
  | EosWithoutAudio | FinalGranule | EmptyOgg | TruncatedPacket | MissingHeaders | NoAudio | NoEos | GranuleBelowSkip
  | SamplesBelowSkip | PlayableOverflow

definition opus_integrity_domain :: "byte list" where
  "opus_integrity_domain = ascii ''org.cassini.opus-packets/1'' @ [0]"

definition max_ogg_packet_bytes :: nat where "max_ogg_packet_bytes = 64 * 2 ^ 20"

primrec crc_bits :: "nat \<Rightarrow> 32 word \<Rightarrow> 32 word" where
  "crc_bits 0 crc = crc"
| "crc_bits (Suc n) crc =
     crc_bits n (if crc AND 0x80000000 \<noteq> 0 then push_bit 1 crc XOR 0x04C11DB7 else push_bit 1 crc)"

definition ogg_crc_step :: "32 word \<Rightarrow> byte \<Rightarrow> 32 word" where
  "ogg_crc_step crc v = crc_bits 8 (crc XOR push_bit 24 (ucast v))"

definition blank_checksum :: "byte list \<Rightarrow> byte list" where
  "blank_checksum header = take 22 header @ replicate (min 4 (length header - 22)) 0 @ drop 26 header"

definition validate_ogg_page_checksum :: "byte list \<Rightarrow> byte list \<Rightarrow> byte list \<Rightarrow> (opus_err, unit) res" where
  "validate_ogg_page_checksum header table payload =
     (let want = word_of_nat (unle (take 4 (drop 22 header)));
          crc = foldl ogg_crc_step 0 (blank_checksum header);
          crc = foldl ogg_crc_step crc table;
          crc = foldl ogg_crc_step crc payload
      in if crc \<noteq> want then Inl PageChecksum else Inr ())"

subsection \<open>Packets\<close>

definition opus_packet_sample_count :: "byte list \<Rightarrow> (opus_err, 64 word) res" where
  "opus_packet_sample_count packet =
     (case packet of [] \<Rightarrow> Inl EmptyPacket | toc # rest \<Rightarrow>
        let code = unat (drop_bit 3 toc AND 3);
            per_frame = (if toc AND 0x80 \<noteq> 0 then 48000 * 2 ^ code div 400
              else if toc AND 0x60 = 0x60 then (if toc AND 8 \<noteq> 0 then 48000 div 50 else 48000 div 100)
              else if code = 3 then 48000 * 60 div 1000 else 48000 * 2 ^ code div 100) :: nat;
            frames = (if toc AND 3 = 0 then Inr 1
              else if toc AND 3 = 1 \<or> toc AND 3 = 2 then Inr 2
              else case rest of [] \<Rightarrow> Inl NoCountByte | b # _ \<Rightarrow>
                if b AND 0x3F = 0 then Inl ZeroFrames else Inr (unat (b AND 0x3F)))
        in case frames of Inl e \<Rightarrow> Inl e | Inr n \<Rightarrow>
          if per_frame * n = 0 \<or> per_frame * n > 48000 * 120 div 1000 then Inl PacketDuration
          else Inr (of_nat (per_frame * n)))"

definition canonical_opus_head :: "byte list \<Rightarrow> (opus_err, byte list \<times> nat \<times> 64 word) res" where
  "canonical_opus_head packet =
     (if length packet < 19 \<or> take 8 packet \<noteq> ascii ''OpusHead'' then Inl NotOpusHead
      else if packet ! 8 = 0 \<or> packet ! 8 AND 0xF0 \<noteq> 0 then Inl HeadVersion
      else
        let channels = unat (packet ! 9);
            ok = Inr (take 12 packet @ replicate 4 0 @ drop 16 packet, channels, of_nat (unle (take 2 (drop 10 packet))))
        in if channels \<noteq> 1 \<and> channels \<noteq> 2 then Inl HeadChannels
        else if packet ! 18 = 0 then (if length packet \<noteq> 19 then Inl HeadSize else ok)
        else if length packet \<noteq> 21 + channels then Inl HeadSize
        else
          let streams = unat (packet ! 19); coupled = unat (packet ! 20) in
          if streams = 0 \<or> coupled > streams \<or> streams + coupled > 255 then Inl StreamMapping
          else if list_ex (\<lambda>m. unat m \<ge> streams + coupled \<and> m \<noteq> 255) (drop 21 packet) then Inl ChannelMapping
          else ok)"

definition hash_opus_packet :: "char \<Rightarrow> byte list \<Rightarrow> byte list" where
  "hash_opus_packet kind packet = ascii [kind] @ le 8 (length packet mod 2 ^ 64) @ packet"

subsection \<open>The stream\<close>

record ogg_state =
  os_digest :: "byte list"
  os_partial :: "byte list"
  os_index :: nat
  os_audio :: "64 word"
  os_decoded :: "64 word"
  os_pre_skip :: "64 word"
  os_granule :: "64 word option"
  os_channels :: nat
  os_serial :: "32 word"
  os_sequence :: "32 word"
  os_have_stream :: bool
  os_eos :: bool

definition ogg_start :: ogg_state where
  "ogg_start = \<lparr>os_digest = opus_integrity_domain, os_partial = [], os_index = 0, os_audio = 0, os_decoded = 0,
     os_pre_skip = 0, os_granule = None, os_channels = 0, os_serial = 0, os_sequence = 0, os_have_stream = False,
     os_eos = False\<rparr>"

text \<open>A finished packet; the flag says whether it was audio.\<close>

definition take_packet :: "byte list \<Rightarrow> ogg_state \<Rightarrow> (opus_err, ogg_state \<times> bool) res" where
  "take_packet packet st =
     (if os_index st = 0 then
        (case canonical_opus_head packet of Inl e \<Rightarrow> Inl e
         | Inr (head, channels, skip) \<Rightarrow>
             Inr (st\<lparr>os_channels := channels, os_pre_skip := skip,
                     os_digest := os_digest st @ hash_opus_packet (CHR ''H'') head, os_index := 1\<rparr>, False))
      else if os_index st = 1 then
        (if length packet < 8 \<or> take 8 packet \<noteq> ascii ''OpusTags'' then Inl NotOpusTags
         else Inr (st\<lparr>os_index := 2\<rparr>, False))
      else
        (case opus_packet_sample_count packet of Inl e \<Rightarrow> Inl e
         | Inr n \<Rightarrow>
             if os_decoded st > - 1 - n then Inl DecodedOverflow
             else Inr (st\<lparr>os_decoded := os_decoded st + n, os_digest := os_digest st @ hash_opus_packet (CHR ''A'') packet,
                          os_audio := os_audio st + 1, os_index := os_index st + 1\<rparr>, True)))"

fun take_segments :: "byte list \<Rightarrow> byte list \<Rightarrow> bool \<Rightarrow> ogg_state \<Rightarrow> (opus_err, ogg_state \<times> bool) res" where
  "take_segments [] payload audio st = Inr (st, audio)"
| "take_segments (lace # table) payload audio st =
     (if length (os_partial st) + unat lace > max_ogg_packet_bytes then Inl PacketTooLong
      else
        let packet = os_partial st @ take (unat lace) payload; payload = drop (unat lace) payload in
        if lace = 255 then take_segments table payload audio (st\<lparr>os_partial := packet\<rparr>)
        else case take_packet packet (st\<lparr>os_partial := []\<rparr>) of
            Inl e \<Rightarrow> Inl e
          | Inr (st, was_audio) \<Rightarrow> take_segments table payload (audio \<or> was_audio) st)"

text \<open>What the 27 bytes of a page header are checked for.\<close>

definition check_header :: "byte list \<Rightarrow> ogg_state \<Rightarrow> (opus_err, ogg_state) res" where
  "check_header header st =
     (let flags = header ! 5; serial = word_of_nat (unle (take 4 (drop 14 header)));
          sequence = word_of_nat (unle (take 4 (drop 18 header))) in
      if os_eos st then Inl AfterEos
      else if take 4 header \<noteq> ascii ''OggS'' then Inl CapturePattern
      else if header ! 4 \<noteq> 0 then Inl OggVersion
      else if \<not> os_have_stream st then
        (if flags AND 2 = 0 then Inl NotBos
         else Inr (st\<lparr>os_serial := serial, os_sequence := sequence, os_have_stream := True\<rparr>))
      else if serial \<noteq> os_serial st then Inl OtherStream
      else if sequence \<noteq> os_sequence st + 1 then Inl SequenceJump
      else if flags AND 2 \<noteq> 0 then Inl UnexpectedBos
      else Inr (st\<lparr>os_sequence := os_sequence st + 1\<rparr>))"

definition end_page :: "byte list \<Rightarrow> bool \<Rightarrow> ogg_state \<Rightarrow> (opus_err, ogg_state) res" where
  "end_page header audio st =
     (if header ! 5 AND 4 \<noteq> 0 then
        let granule = word_of_nat (unle (take 8 (drop 6 header))) :: 64 word in
        if \<not> audio then Inl EosWithoutAudio
        else if granule = - 1 \<or> granule > 0x7FFFFFFFFFFFFFFF then Inl FinalGranule
        else Inr (st\<lparr>os_granule := Some granule, os_eos := True\<rparr>)
      else Inr st)"

definition read_page :: "byte list \<Rightarrow> byte list \<Rightarrow> ogg_state \<Rightarrow> (opus_err, ogg_state \<times> byte list) res" where
  "read_page header bs st =
     (case check_header header st of Inl e \<Rightarrow> Inl e | Inr st \<Rightarrow>
        if (header ! 5 AND 1 \<noteq> 0) \<noteq> (os_partial st \<noteq> []) then Inl ContinuedFlag
        else case read_full (unat (header ! 26)) bs of
            (Inl _, _) \<Rightarrow> Inl ReadSegments
          | (Inr table, bs) \<Rightarrow>
              case read_full (sum_list (map unat table)) bs of
                (Inl _, _) \<Rightarrow> Inl ReadPayload
              | (Inr payload, bs) \<Rightarrow>
                  case validate_ogg_page_checksum header table payload of Inl e \<Rightarrow> Inl e | Inr _ \<Rightarrow>
                  case take_segments table payload False st of Inl e \<Rightarrow> Inl e | Inr (st, audio) \<Rightarrow>
                  case end_page header audio st of Inl e \<Rightarrow> Inl e | Inr st \<Rightarrow> Inr (st, bs))"

lemma read_page_rest: "read_page header bs st = Inr (st', rest) \<Longrightarrow> length rest \<le> length bs"
  unfolding read_page_def by (auto split: sum.splits prod.splits if_splits dest!: read_full_rest)

function read_pages :: "bool \<Rightarrow> byte list \<Rightarrow> ogg_state \<Rightarrow> (opus_err, ogg_state) res" where
  "read_pages broken bs st =
     (if bs = [] \<and> \<not> broken then Inr st
      else if length bs < 27 then Inl ReadHeader
      else case read_page (take 27 bs) (drop 27 bs) st of
          Inl e \<Rightarrow> Inl e
        | Inr (st, rest) \<Rightarrow> read_pages broken rest st)"
  by pat_completeness auto
termination by (relation "measure (\<lambda>(broken, bs, st). length bs)") (auto dest!: read_page_rest)

declare read_pages.simps [simp del]

subsection \<open>The result\<close>

record opus_audio_integrity =
  oi_sha256 :: string
  oi_sample_rate :: int
  oi_channels :: nat
  oi_sample_count :: int
  oi_duration_ms :: int
  oi_packet_count :: "64 word"

definition finish_stream :: "ogg_state \<Rightarrow> (opus_err, opus_audio_integrity) res" where
  "finish_stream st =
     (if \<not> os_have_stream st then Inl EmptyOgg
      else if os_partial st \<noteq> [] then Inl TruncatedPacket
      else if os_index st < 2 then Inl MissingHeaders
      else if os_audio st = 0 then Inl NoAudio
      else if \<not> os_eos st then Inl NoEos
      else case os_granule st of None \<Rightarrow> Inl GranuleBelowSkip | Some granule \<Rightarrow>
        if granule < os_pre_skip st then Inl GranuleBelowSkip
        else if os_decoded st < os_pre_skip st then Inl SamplesBelowSkip
        else
          let samples = min (os_decoded st - os_pre_skip st) (granule - os_pre_skip st) in
          if samples > 0x7FFFFFFFFFFFFFFF then Inl PlayableOverflow
          else Inr \<lparr>oi_sha256 = hex_string (sha256 (os_digest st @ ascii ''E'' @ le 8 (unat (os_audio st)) @ le 8 (unat samples))),
                    oi_sample_rate = 48000, oi_channels = os_channels st, oi_sample_count = uint samples,
                    oi_duration_ms = wrap64 (uint samples * 1000) sdiv 48000, oi_packet_count = os_audio st\<rparr>)"

definition compute_opus_audio_integrity :: "bool \<Rightarrow> byte list \<Rightarrow> (opus_err, opus_audio_integrity) res" where
  "compute_opus_audio_integrity broken bs =
     (case read_pages broken bs ogg_start of Inl e \<Rightarrow> Inl e | Inr st \<Rightarrow> finish_stream st)"

subsection \<open>The checksum\<close>

lemma crc_bits_inj: "crc_bits n a = crc_bits n b \<Longrightarrow> a = b"
proof (induction n arbitrary: a b)
  case (Suc n)
  let ?f = "\<lambda>c :: 32 word. if c AND 0x80000000 \<noteq> 0 then push_bit 1 c XOR 0x04C11DB7 else push_bit 1 c"
  have top: "c AND 0x80000000 \<noteq> 0 \<longleftrightarrow> bit c 31" for c :: "32 word"
  proof -
    have "(0x80000000 :: 32 word) = push_bit 31 1" by simp
    then show ?thesis using bit_iff_and_push_bit_not_eq_0[of c 31] by simp
  qed
  have low: "bit (?f c) 0 \<longleftrightarrow> bit c 31" for c
    unfolding top by (simp add: bit_simps bit_0 even_xor_iff)
  have "?f a = ?f b" by (rule Suc.IH) (use Suc.prems in \<open>simp only: crc_bits.simps\<close>)
  moreover have "bit a 31 \<longleftrightarrow> bit b 31" using low[of a] low[of b] \<open>?f a = ?f b\<close> by simp
  ultimately have "push_bit 1 a = push_bit 1 b" and t: "bit a 31 \<longleftrightarrow> bit b 31"
    unfolding top by (auto split: if_splits) (metis bit.xor_left_self xor.commute)
  have "bit a n = bit b n" if "n < 32" for n
  proof (cases "n = 31")
    case False
    have "bit (push_bit 1 a) (Suc n) = bit (push_bit 1 b) (Suc n)" unfolding \<open>push_bit 1 a = _\<close> ..
    then show ?thesis using False that unfolding bit_push_bit_iff by simp
  qed (use t in simp)
  then show ?case by (intro bit_word_eqI) simp
qed simp

lemma ogg_crc_step_inj:
  "ogg_crc_step a v = ogg_crc_step b v \<Longrightarrow> a = b"
  "ogg_crc_step c v = ogg_crc_step c w \<Longrightarrow> v = w"
proof -
  have x: "x = y" if "c XOR x = c XOR y" for c x y :: "32 word" using that by (metis bit.xor_left_self)
  show "a = b" if "ogg_crc_step a v = ogg_crc_step b v"
    using crc_bits_inj[OF that[unfolded ogg_crc_step_def]] x by (metis xor.commute)
  assume "ogg_crc_step c v = ogg_crc_step c w"
  then have "push_bit 24 (ucast v) = (push_bit 24 (ucast w) :: 32 word)"
    using crc_bits_inj x unfolding ogg_crc_step_def by blast
  then have p: "bit (push_bit 24 (ucast v) :: 32 word) (24 + n) = bit (push_bit 24 (ucast w) :: 32 word) (24 + n)" for n by simp
  show "v = w"
  proof (rule bit_word_eqI)
    fix n assume "n < LENGTH(8)"
    then show "bit v n = bit w n" using p[of n] by (simp add: bit_simps)
  qed
qed

lemma ogg_crc_fold_inj: "foldl ogg_crc_step a vs = foldl ogg_crc_step b vs \<Longrightarrow> a = b"
  by (induction vs arbitrary: a b) (auto dest: ogg_crc_step_inj(1))

lemma ogg_crc_one_byte:
  assumes "v \<noteq> w"
  shows "foldl ogg_crc_step c (xs @ v # ys) \<noteq> foldl ogg_crc_step c (xs @ w # ys)"
proof
  assume "foldl ogg_crc_step c (xs @ v # ys) = foldl ogg_crc_step c (xs @ w # ys)"
  then have "ogg_crc_step (foldl ogg_crc_step c xs) v = ogg_crc_step (foldl ogg_crc_step c xs) w"
    by (simp add: ogg_crc_fold_inj)
  then show False using ogg_crc_step_inj(2) assms by blast
qed


text \<open>A page with one byte of its body changed does not pass.\<close>

lemma changed_byte_fails:
  assumes "validate_ogg_page_checksum header table payload = Inr ()" and "v \<noteq> w"
  shows "table = xs @ v # ys \<Longrightarrow> validate_ogg_page_checksum header (xs @ w # ys) payload = Inl PageChecksum"
    and "payload = xs @ v # ys \<Longrightarrow> validate_ogg_page_checksum header table (xs @ w # ys) = Inl PageChecksum"
proof -
  note one = ogg_crc_one_byte[OF assms(2)]
  show "validate_ogg_page_checksum header (xs @ w # ys) payload = Inl PageChecksum" if "table = xs @ v # ys"
    using assms(1) one[of "foldl ogg_crc_step 0 (blank_checksum header)" xs ys] ogg_crc_fold_inj
    unfolding validate_ogg_page_checksum_def Let_def that by (metis sum.distinct(1))
  show "validate_ogg_page_checksum header table (xs @ w # ys) = Inl PageChecksum" if "payload = xs @ v # ys"
    using assms(1) one[of _ xs ys] unfolding validate_ogg_page_checksum_def Let_def that by (metis sum.distinct(1))
qed

subsection \<open>A stream in pages\<close>

text \<open>The segments of a packet, and a page of segments; a layout is a list of pages with their granules.\<close>

function lace :: "byte list \<Rightarrow> byte list list" where
  "lace p = (if length p < 255 then [p] else take 255 p # lace (drop 255 p))"
  by pat_completeness auto
termination by (relation "measure length") auto

declare lace.simps [simp del]

definition page_header :: "8 word \<Rightarrow> 64 word \<Rightarrow> 32 word \<Rightarrow> 32 word \<Rightarrow> byte list \<Rightarrow> nat \<Rightarrow> byte list" where
  "page_header flags granule serial sequence check n =
     ascii ''OggS'' @ [0, flags] @ le 8 (unat granule) @ le 4 (unat serial) @ le 4 (unat sequence) @ check @ [of_nat n]"

definition page_crc :: "8 word \<Rightarrow> 64 word \<Rightarrow> 32 word \<Rightarrow> 32 word \<Rightarrow> byte list list \<Rightarrow> 32 word" where
  "page_crc flags granule serial sequence segs =
     foldl ogg_crc_step 0 (page_header flags granule serial sequence (replicate 4 0) (length segs)
       @ map (of_nat \<circ> length) segs @ concat segs)"

definition page_bytes :: "8 word \<Rightarrow> 64 word \<Rightarrow> 32 word \<Rightarrow> 32 word \<Rightarrow> byte list list \<Rightarrow> byte list" where
  "page_bytes flags granule serial sequence segs =
     page_header flags granule serial sequence (le 4 (unat (page_crc flags granule serial sequence segs))) (length segs)
       @ map (of_nat \<circ> length) segs @ concat segs"

definition open_after :: "bool \<Rightarrow> byte list list \<Rightarrow> bool" where
  "open_after partial segs = (if segs = [] then partial else length (last segs) = 255)"

definition page_flags :: "bool \<Rightarrow> bool \<Rightarrow> bool \<Rightarrow> 8 word" where
  "page_flags partial first end = (if partial then 1 else 0) + (if first then 2 else 0) + (if end then 4 else 0)"

fun ogg_pages :: "32 word \<Rightarrow> 32 word \<Rightarrow> bool \<Rightarrow> bool \<Rightarrow> (byte list list \<times> 64 word) list \<Rightarrow> byte list" where
  "ogg_pages serial sequence first partial [] = []"
| "ogg_pages serial sequence first partial ((segs, granule) # pages) =
     page_bytes (page_flags partial first (pages = [])) granule serial sequence segs
       @ ogg_pages serial (sequence + 1) False (open_after partial segs) pages"

definition layout :: "byte list list \<Rightarrow> (byte list list \<times> 64 word) list \<Rightarrow> bool" where
  "layout packets pages \<longleftrightarrow> concat (map fst pages) = concat (map lace packets) \<and> pages \<noteq> [] \<and> fst (last pages) \<noteq> [] \<and>
     list_all (\<lambda>p. length (fst p) \<le> 255) pages"

subsection \<open>Reading segments\<close>

fun eat :: "byte list list \<Rightarrow> bool \<Rightarrow> ogg_state \<Rightarrow> (opus_err, ogg_state \<times> bool) res" where
  "eat [] audio st = Inr (st, audio)"
| "eat (seg # segs) audio st =
     (if length (os_partial st) + length seg > max_ogg_packet_bytes then Inl PacketTooLong
      else if length seg = 255 then eat segs audio (st\<lparr>os_partial := os_partial st @ seg\<rparr>)
      else case take_packet (os_partial st @ seg) (st\<lparr>os_partial := []\<rparr>) of
          Inl e \<Rightarrow> Inl e
        | Inr (st, was_audio) \<Rightarrow> eat segs (audio \<or> was_audio) st)"

lemma lace_length: "seg \<in> set (lace p) \<Longrightarrow> length seg \<le> 255"
proof (induction p rule: lace.induct)
  case (1 p)
  then show ?case by (subst (asm) lace.simps) (auto split: if_splits)
qed

lemma take_segments_eat:
  assumes "list_all (\<lambda>s. length s \<le> 255) segs"
  shows "take_segments (map (of_nat \<circ> length) segs) (concat segs) audio st = eat segs audio st"
  using assms
proof (induction segs arbitrary: audio st)
  case (Cons seg segs)
  have u: "unat (of_nat (length seg) :: 8 word) = length seg" using Cons.prems by (simp add: unat_of_nat)
  have w: "(of_nat (length seg) :: 8 word) = 255 \<longleftrightarrow> length seg = 255"
    unfolding word_unat_eq_iff u by simp
  show ?case using Cons by (simp add: u w Let_def split: sum.split prod.split)
qed simp

lemma eat_append:
  "eat (xs @ ys) audio st = (case eat xs audio st of Inl e \<Rightarrow> Inl e | Inr (st', audio') \<Rightarrow> eat ys audio' st')"
  by (induction xs audio st rule: eat.induct) (auto split: sum.split)

lemma eat_audio:
  "eat xs audio st = (case eat xs False st of Inl e \<Rightarrow> Inl e | Inr (st', a) \<Rightarrow> Inr (st', audio \<or> a))"
proof (induction xs arbitrary: audio st)
  case (Cons x xs)
  show ?case
  proof (cases "take_packet (os_partial st @ x) (st\<lparr>os_partial := []\<rparr>)")
    case (Inr y)
    obtain s b where y: "y = (s, b)" by fastforce
    show ?thesis using Inr y Cons.IH[of audio] Cons.IH[of "audio \<or> b" s] Cons.IH[of b s]
      by (auto split: sum.split)
  qed (use Cons.IH[of audio] in \<open>auto split: sum.split\<close>)
qed simp

text \<open>Segments do not look at the page fields.\<close>

definition on_page :: "bool \<Rightarrow> 32 word \<Rightarrow> 32 word \<Rightarrow> ogg_state \<Rightarrow> ogg_state" where
  "on_page have serial sequence st = st\<lparr>os_have_stream := have, os_serial := serial, os_sequence := sequence\<rparr>"

lemma take_packet_on_page:
  "take_packet p (on_page h s q st) = (case take_packet p st of Inl e \<Rightarrow> Inl e | Inr (st', a) \<Rightarrow> Inr (on_page h s q st', a))"
  by (auto simp: take_packet_def on_page_def split: sum.split)

lemma eat_on_page:
  "eat xs audio (on_page h s q st) = (case eat xs audio st of Inl e \<Rightarrow> Inl e | Inr (st', a) \<Rightarrow> Inr (on_page h s q st', a))"
proof (induction xs audio st rule: eat.induct)
  case (2 seg segs audio st)
  have p: "(on_page h s q st)\<lparr>os_partial := x\<rparr> = on_page h s q (st\<lparr>os_partial := x\<rparr>)" "os_partial (on_page h s q st) = os_partial st" for x
    by (simp_all add: on_page_def)
  show ?case using 2 by (auto simp: p take_packet_on_page split: sum.split)
qed simp

lemma take_packet_fields:
  assumes "take_packet p st = Inr (st', a)"
  shows "os_partial st' = os_partial st" "os_eos st' = os_eos st" "a \<longleftrightarrow> os_index st \<ge> 2" "os_index st' = Suc (os_index st)"
  using assms by (auto simp: take_packet_def split: if_splits sum.splits)

lemma eat_fields:
  assumes "eat segs a st = Inr (st', b)"
  shows "(os_partial st' \<noteq> [] \<longleftrightarrow> open_after (os_partial st \<noteq> []) segs) \<and> os_eos st' = os_eos st"
  using assms
proof (induction segs a st rule: eat.induct)
  case (2 seg segs audio st)
  show ?case
  proof (cases "length seg = 255")
    case True
    then have "seg \<noteq> []" by auto
    then show ?thesis using 2 True by (auto simp: open_after_def split: if_splits)
  next
    case False
    then obtain s w where p: "take_packet (os_partial st @ seg) (st\<lparr>os_partial := []\<rparr>) = Inr (s, w)" "eat segs (audio \<or> w) s = Inr (st', b)"
      using 2(3) by (auto split: if_splits sum.splits)
    then have "(os_partial st' \<noteq> [] \<longleftrightarrow> open_after (os_partial s \<noteq> []) segs) \<and> os_eos st' = os_eos s"
      using 2 False by (auto split: if_splits)
    then show ?thesis using take_packet_fields[OF p(1)] False by (simp add: open_after_def)
  qed
qed (simp add: open_after_def)

lemma eat_last_audio:
  assumes "eat segs a st = Inr (st', b)" and "segs \<noteq> []" "length (last segs) \<noteq> 255" and "3 \<le> os_index st'"
  shows b
proof -
  obtain xs x where segs: "segs = xs @ [x]" using assms(2) by (cases segs rule: rev_cases) auto
  then obtain s c where "eat xs a st = Inr (s, c)" "eat [x] c s = Inr (st', b)"
    using assms(1) by (auto simp: eat_append split: sum.splits)
  then obtain w where "take_packet (os_partial s @ x) (s\<lparr>os_partial := []\<rparr>) = Inr (st', w)" "b = (c \<or> w)"
    using assms(3) segs by (auto split: if_splits sum.splits)
  then show ?thesis using take_packet_fields[of "os_partial s @ x" "s\<lparr>os_partial := []\<rparr>" st' w] assms(4) by auto
qed

lemma eat_lace:
  assumes "length (os_partial st) + length p \<le> max_ogg_packet_bytes"
  shows "eat (lace p) audio st = (case take_packet (os_partial st @ p) (st\<lparr>os_partial := []\<rparr>) of
      Inl e \<Rightarrow> Inl e | Inr (st', a) \<Rightarrow> Inr (st', audio \<or> a))"
  using assms
proof (induction p arbitrary: st rule: lace.induct)
  case (1 p)
  show ?case
  proof (cases "length p < 255")
    case True
    then show ?thesis using 1(2) by (subst lace.simps) (auto split: sum.split)
  next
    case False
    then have l: "lace p = take 255 p # lace (drop 255 p)" by (subst lace.simps) simp
    have "eat (lace (drop 255 p)) audio (st\<lparr>os_partial := os_partial st @ take 255 p\<rparr>) =
        (case take_packet (os_partial st @ p) (st\<lparr>os_partial := []\<rparr>) of Inl e \<Rightarrow> Inl e | Inr (st', a) \<Rightarrow> Inr (st', audio \<or> a))"
      using 1(1)[OF False, of "st\<lparr>os_partial := os_partial st @ take 255 p\<rparr>"] 1(2) False by simp
    then show ?thesis unfolding l using 1(2) False by simp
  qed
qed

fun take_packets :: "byte list list \<Rightarrow> ogg_state \<Rightarrow> (opus_err, ogg_state) res" where
  "take_packets [] st = Inr st"
| "take_packets (p # ps) st = (case take_packet p st of Inl e \<Rightarrow> Inl e | Inr (st', _) \<Rightarrow> take_packets ps st')"

lemma eat_packets:
  assumes "list_all (\<lambda>p. length p \<le> max_ogg_packet_bytes) ps" and "os_partial st = []" and "take_packets ps st = Inr st'"
  shows "\<exists>b. eat (concat (map lace ps)) audio st = Inr (st', b)"
  using assms
proof (induction ps arbitrary: audio st)
  case (Cons p ps)
  then obtain s a where s: "take_packet p st = Inr (s, a)" "take_packets ps s = Inr st'" by (auto split: sum.splits)
  have "os_partial s = []" using take_packet_fields[OF s(1)] Cons.prems(2) by simp
  then obtain b where "eat (concat (map lace ps)) (audio \<or> a) s = Inr (st', b)"
    using Cons.IH[of s] Cons.prems(1) s(2) by auto
  moreover have same: "st\<lparr>os_partial := []\<rparr> = st" using Cons.prems(2) by simp
  ultimately show ?case using Cons.prems s(1) by (simp add: eat_append eat_lace same)
qed simp

lemma concat_lace_last:
  assumes "ps \<noteq> []"
  shows "concat (map lace ps) \<noteq> []" and "length (last (concat (map lace ps))) \<noteq> 255"
proof -
  have l: "lace p \<noteq> [] \<and> length (last (lace p)) < 255" for p
  proof (induction p rule: lace.induct)
    case (1 p)
    then show ?case by (subst (1 2) lace.simps) auto
  qed
  obtain qs q where ps: "ps = qs @ [q]" using assms by (cases ps rule: rev_cases) auto
  show "concat (map lace ps) \<noteq> []" "length (last (concat (map lace ps))) \<noteq> 255"
    using l[of q] by (auto simp: ps)
qed

subsection \<open>Reading pages\<close>

lemma page_header_fields:
  fixes flags :: "8 word" and granule :: "64 word" and serial sequence :: "32 word" and n :: nat
  assumes "length check = 4"
  defines "h \<equiv> page_header flags granule serial sequence check n"
  shows "length h = 27" "take 4 h = ascii ''OggS''" "h ! 4 = 0" "h ! 5 = flags" "h ! 26 = of_nat n"
    "word_of_nat (unle (take 8 (drop 6 h))) = granule" "word_of_nat (unle (take 4 (drop 14 h))) = serial"
    "word_of_nat (unle (take 4 (drop 18 h))) = sequence" "take 4 (drop 22 h) = check"
    "blank_checksum h = page_header flags granule serial sequence (replicate 4 0) n"
proof -
  have a: "length (ascii ''OggS'') = 4" by (simp add: ascii_def)
  have g: "unat granule < 256 ^ 8" "unat serial < 256 ^ 4" "unat sequence < 256 ^ 4"
    using unsigned_less[of granule, where 'a = nat] unsigned_less[of serial, where 'a = nat] unsigned_less[of sequence, where 'a = nat] by simp_all
  show "length h = 27" "take 4 h = ascii ''OggS''" "h ! 4 = 0" "h ! 5 = flags" "h ! 26 = of_nat n"
    "word_of_nat (unle (take 8 (drop 6 h))) = granule" "word_of_nat (unle (take 4 (drop 14 h))) = serial"
    "word_of_nat (unle (take 4 (drop 18 h))) = sequence" "take 4 (drop 22 h) = check"
    "blank_checksum h = page_header flags granule serial sequence (replicate 4 0) n"
    using a assms(1) g by (simp_all add: h_def page_header_def nth_append blank_checksum_def)
qed

lemma page_flags_bits:
  "page_flags partial first eos AND 1 \<noteq> 0 \<longleftrightarrow> partial" "page_flags partial first eos AND 2 = 0 \<longleftrightarrow> \<not> first"
  "page_flags partial first eos AND 4 \<noteq> 0 \<longleftrightarrow> eos"
  by (cases partial; cases first; cases eos; simp add: page_flags_def)+

lemma table_sum:
  "list_all (\<lambda>s. length s \<le> 255) segs \<Longrightarrow> sum_list (map unat (map (of_nat \<circ> length) segs :: byte list)) = length (concat segs)"
  by (induction segs) (simp_all add: unat_of_nat)

lemma read_page_encoded:
  fixes flags :: "8 word" and granule :: "64 word" and serial sequence :: "32 word"
  assumes "length segs \<le> 255" and "list_all (\<lambda>s. length s \<le> 255) segs"
  defines "h \<equiv> page_header flags granule serial sequence (le 4 (unat (page_crc flags granule serial sequence segs))) (length segs)"
  shows "read_page h (map (of_nat \<circ> length) segs @ concat segs @ rest) st =
    (case check_header h st of Inl e \<Rightarrow> Inl e | Inr st \<Rightarrow>
       if (flags AND 1 \<noteq> 0) \<noteq> (os_partial st \<noteq> []) then Inl ContinuedFlag
       else case eat segs False st of Inl e \<Rightarrow> Inl e | Inr (st, audio) \<Rightarrow>
       case end_page h audio st of Inl e \<Rightarrow> Inl e | Inr st \<Rightarrow> Inr (st, rest))"
proof -
  let ?c = "page_crc flags granule serial sequence segs"
  have l: "length (le 4 (unat ?c)) = 4" by simp
  note hf = page_header_fields[OF l, of flags granule serial sequence "length segs", folded h_def]
  have n: "unat (h ! 26) = length segs" using assms(1) by (simp add: hf unat_of_nat)
  have "unat ?c < 256 ^ 4" using unsigned_less[of ?c, where 'a = nat] by simp
  then have w: "word_of_nat (unle (le 4 (unat ?c))) = ?c" by simp
  have v: "validate_ogg_page_checksum h (map (of_nat \<circ> length) segs) (concat segs) = Inr ()"
    unfolding validate_ogg_page_checksum_def Let_def hf w by (simp add: page_crc_def)
  have f: "read_full (unat (h ! 26)) (map (of_nat \<circ> length) segs @ concat segs @ rest) = (Inr (map (of_nat \<circ> length) segs), concat segs @ rest)"
    by (simp add: n)
  have p: "read_full (sum_list (map unat (map (of_nat \<circ> length) segs :: byte list))) (concat segs @ rest) = (Inr (concat segs), rest)"
    using table_sum[OF assms(2)] by simp
  show ?thesis unfolding read_page_def f prod.case sum.case p v take_segments_eat[OF assms(2)] hf(4) ..
qed

lemma read_pages_page:
  assumes "length segs \<le> 255" and "list_all (\<lambda>s. length s \<le> 255) segs"
  shows "read_pages broken (page_bytes flags granule serial sequence segs @ rest) st =
    (case read_page (page_header flags granule serial sequence (le 4 (unat (page_crc flags granule serial sequence segs))) (length segs))
       (map (of_nat \<circ> length) segs @ concat segs @ rest) st of
       Inl e \<Rightarrow> Inl e | Inr (st, rest) \<Rightarrow> read_pages broken rest st)"
proof -
  have l: "length (page_header flags granule serial sequence (le 4 (unat (page_crc flags granule serial sequence segs))) (length segs)) = 27"
    by (rule page_header_fields(1)) simp
  then have "page_header flags granule serial sequence (le 4 (unat (page_crc flags granule serial sequence segs))) (length segs) \<noteq> []" by auto
  then show ?thesis using l by (subst read_pages.simps) (simp add: page_bytes_def)
qed

lemma check_header_encoded:
  fixes partial first eos :: bool and granule :: "64 word" and serial sequence :: "32 word" and c n :: nat
  assumes "\<not> os_eos st"
  defines "h \<equiv> page_header (page_flags partial first eos) granule serial sequence (le 4 c) n"
  shows "first \<Longrightarrow> \<not> os_have_stream st \<Longrightarrow> check_header h st = Inr (on_page True serial sequence st)"
    and "\<not> first \<Longrightarrow> check_header h (on_page True serial (sequence - 1) st) = Inr (on_page True serial sequence st)"
proof -
  have l: "length (le 4 c) = 4" by simp
  note hf = page_header_fields[OF l, of "page_flags partial first eos" granule serial sequence n, folded h_def]
  show "first \<Longrightarrow> \<not> os_have_stream st \<Longrightarrow> check_header h st = Inr (on_page True serial sequence st)"
    using assms(1) by (simp add: check_header_def hf page_flags_bits on_page_def)
  show "\<not> first \<Longrightarrow> check_header h (on_page True serial (sequence - 1) st) = Inr (on_page True serial sequence st)"
    using assms(1) by (simp add: check_header_def hf page_flags_bits on_page_def)
qed

lemma end_page_encoded:
  fixes partial first eos :: bool and granule :: "64 word" and serial sequence :: "32 word" and c n :: nat
  defines "h \<equiv> page_header (page_flags partial first eos) granule serial sequence (le 4 c) n"
  shows "\<not> eos \<Longrightarrow> end_page h audio st = Inr st"
    and "eos \<Longrightarrow> audio \<Longrightarrow> granule \<le> 0x7FFFFFFFFFFFFFFF \<Longrightarrow> end_page h audio st = Inr (st\<lparr>os_granule := Some granule, os_eos := True\<rparr>)"
proof -
  have l: "length (le 4 c) = 4" by simp
  note hf = page_header_fields[OF l, of "page_flags partial first eos" granule serial sequence n, folded h_def]
  show "\<not> eos \<Longrightarrow> end_page h audio st = Inr st" by (simp add: end_page_def hf page_flags_bits)
  have "\<not> (- 1 :: 64 word) \<le> 0x7FFFFFFFFFFFFFFF" by code_simp
  then have "granule \<le> 0x7FFFFFFFFFFFFFFF \<Longrightarrow> granule \<noteq> - 1" by blast
  then show "eos \<Longrightarrow> audio \<Longrightarrow> granule \<le> 0x7FFFFFFFFFFFFFFF \<Longrightarrow> end_page h audio st = Inr (st\<lparr>os_granule := Some granule, os_eos := True\<rparr>)"
    by (simp add: end_page_def hf page_flags_bits not_less)
qed

lemma read_layout:
  assumes "pages \<noteq> []" and "fst (last pages) \<noteq> []" "length (last (fst (last pages))) \<noteq> 255"
    and "list_all (\<lambda>p. length (fst p) \<le> 255 \<and> list_all (\<lambda>s. length s \<le> 255) (fst p)) pages"
    and "snd (last pages) \<le> 0x7FFFFFFFFFFFFFFF"
    and "eat (concat (map fst pages)) False core = Inr (done, b)" and "3 \<le> os_index done"
    and "\<not> os_eos core" and "st = (if first then core else on_page True serial (sequence - 1) core)" and "first \<longrightarrow> \<not> os_have_stream core"
  shows "read_pages False (ogg_pages serial sequence first (os_partial core \<noteq> []) pages) st =
    Inr ((on_page True serial (sequence + of_nat (length pages) - 1) done)\<lparr>os_granule := Some (snd (last pages)), os_eos := True\<rparr>)"
  using assms
proof (induction pages arbitrary: sequence first core st b)
  case (Cons page pages)
  obtain segs granule where page: "page = (segs, granule)" by fastforce
  have ok: "length segs \<le> 255" "list_all (\<lambda>s. length s \<le> 255) segs" using Cons.prems(4) page by simp_all
  obtain mid a where mid: "eat segs False core = Inr (mid, a)" "eat (concat (map fst pages)) a mid = Inr (done, b)"
    using Cons.prems(6) page by (auto simp: eat_append split: sum.splits)
  have m: "os_partial mid \<noteq> [] \<longleftrightarrow> open_after (os_partial core \<noteq> []) segs" "\<not> os_eos mid"
    using eat_fields[OF mid(1)] Cons.prems(8) by auto
  let ?rest = "ogg_pages serial (sequence + 1) False (open_after (os_partial core \<noteq> []) segs) pages"
  let ?h = "page_header (page_flags (os_partial core \<noteq> []) first (pages = [])) granule serial sequence
    (le 4 (unat (page_crc (page_flags (os_partial core \<noteq> []) first (pages = [])) granule serial sequence segs))) (length segs)"
  have ch: "check_header ?h st = Inr (on_page True serial sequence core)"
    using check_header_encoded[OF Cons.prems(8)] Cons.prems(9,10) by (cases first) simp_all
  have em: "eat segs False (on_page True serial sequence core) = Inr (on_page True serial sequence mid, a)"
    by (simp add: eat_on_page mid(1))
  have op: "os_partial (on_page True serial sequence core) = os_partial core" by (simp add: on_page_def)
  have r: "read_pages False (ogg_pages serial sequence first (os_partial core \<noteq> []) (page # pages)) st =
      (case end_page ?h a (on_page True serial sequence mid) of Inl e \<Rightarrow> Inl e | Inr st \<Rightarrow> read_pages False ?rest st)"
    by (simp only: page ogg_pages.simps read_pages_page[OF ok] read_page_encoded[OF ok] ch sum.case op page_flags_bits em prod.case
        HOL.simp_thms if_False) (simp split: sum.split)
  show ?case
  proof (cases "pages = []")
    case True
    have "3 \<le> os_index mid" "mid = done" using mid(2) True Cons.prems(7) by simp_all
    then have a using eat_last_audio[OF mid(1)] Cons.prems(2,3) True page by simp
    then have "end_page ?h a (on_page True serial sequence mid) =
        Inr ((on_page True serial sequence mid)\<lparr>os_granule := Some granule, os_eos := True\<rparr>)"
      using end_page_encoded(2) True Cons.prems(5) page by simp
    then show ?thesis unfolding r using True page \<open>mid = done\<close> by (simp add: read_pages.simps)
  next
    case False
    have e: "end_page ?h a (on_page True serial sequence mid) = Inr (on_page True serial sequence mid)"
      using end_page_encoded(1) False by simp
    obtain b' where b': "eat (concat (map fst pages)) False mid = Inr (done, b')"
      using mid(2) eat_audio[of "concat (map fst pages)" a mid] by (auto split: sum.splits)
    have "read_pages False (ogg_pages serial (sequence + 1) False (os_partial mid \<noteq> []) pages) (on_page True serial sequence mid) =
      Inr ((on_page True serial (sequence + 1 + of_nat (length pages) - 1) done)\<lparr>os_granule := Some (snd (last pages)), os_eos := True\<rparr>)"
      by (rule Cons.IH[where b = b']) (use Cons.prems False b' m(2) in simp_all)
    then show ?thesis unfolding r e sum.case m(1) using False by (simp add: algebra_simps)
  qed
qed simp

subsection \<open>The audio packets of a stream\<close>

definition samples_of :: "byte list \<Rightarrow> nat" where
  "samples_of p = (case opus_packet_sample_count p of Inl _ \<Rightarrow> 0 | Inr n \<Rightarrow> unat n)"

lemma packet_limit:
  assumes "(case frames of Inl e \<Rightarrow> Inl e | Inr m \<Rightarrow>
    if per * m = 0 \<or> per * m > 48000 * 120 div 1000 then Inl PacketDuration else Inr (of_nat (per * m))) = Inr (n :: 64 word)"
  shows "\<exists>k. n = of_nat k \<and> 0 < k \<and> k \<le> 5760"
proof (cases frames)
  case (Inr m)
  then show ?thesis using assms by (intro exI[of _ "per * m"]) (simp split: if_splits)
qed (use assms in simp)

lemma opus_packet_sample_count_Inr:
  assumes "opus_packet_sample_count p = Inr n"
  shows "samples_of p = unat n" and "0 < unat n" "unat n \<le> 5760"
proof -
  show "samples_of p = unat n" using assms by (simp add: samples_of_def)
  obtain k :: nat where k: "n = of_nat k" "0 < k" "k \<le> 5760"
  proof (cases p)
    case (Cons toc rest)
    show ?thesis using packet_limit[OF assms[unfolded opus_packet_sample_count_def Cons list.case Let_def]] that by blast
  qed (use assms in \<open>simp add: opus_packet_sample_count_def\<close>)
  then show "0 < unat n" "unat n \<le> 5760" by (simp_all add: unat_of_nat)
qed

lemma samples_pos: "0 < samples_of p \<longleftrightarrow> (\<exists>n. opus_packet_sample_count p = Inr n)"
  using opus_packet_sample_count_Inr unfolding samples_of_def by (cases "opus_packet_sample_count p") auto

definition total_samples :: "byte list list \<Rightarrow> nat" where
  "total_samples audio = sum_list (map samples_of audio)"

definition audio_ok :: "byte list list \<Rightarrow> bool" where
  "audio_ok audio \<longleftrightarrow> list_all (\<lambda>p. 0 < samples_of p) audio \<and> total_samples audio < 2 ^ 64"

lemma audio_ok_length: "audio_ok audio \<Longrightarrow> length audio \<le> total_samples audio"
proof -
  have "list_all (\<lambda>p. 0 < samples_of p) audio \<Longrightarrow> length audio \<le> total_samples audio"
    by (induction audio) (auto simp: total_samples_def)
  then show "audio_ok audio \<Longrightarrow> length audio \<le> total_samples audio" by (simp add: audio_ok_def)
qed

definition after_audio :: "byte list list \<Rightarrow> ogg_state \<Rightarrow> ogg_state" where
  "after_audio audio st = st\<lparr>os_decoded := os_decoded st + of_nat (total_samples audio),
     os_digest := os_digest st @ concat (map (hash_opus_packet (CHR ''A'')) audio),
     os_audio := os_audio st + of_nat (length audio), os_index := os_index st + length audio\<rparr>"

lemma no_overflow: "d > - 1 - n \<longleftrightarrow> 2 ^ 64 \<le> unat d + unat n" for d n :: "64 word"
proof -
  have m: "unat (- 1 :: 64 word) = 2 ^ 64 - 1" by (simp add: unsigned_minus_1_eq_mask mask_eq_exp_minus_1)
  have "n \<le> - 1" by simp
  then have "unat (- 1 - n) = 2 ^ 64 - 1 - unat n" by (simp add: unat_sub m)
  moreover have "unat n < 2 ^ 64" using unsigned_less[of n, where 'a = nat] by simp
  ultimately show ?thesis unfolding word_less_nat_alt by auto
qed

lemma take_packet_audio:
  assumes "2 \<le> os_index st"
  shows "take_packet p st = (case opus_packet_sample_count p of Inl e \<Rightarrow> Inl e | Inr n \<Rightarrow>
    if 2 ^ 64 \<le> unat (os_decoded st) + samples_of p then Inl DecodedOverflow else Inr (after_audio [p] st, True))"
proof (cases "opus_packet_sample_count p")
  case (Inr n)
  have u: "samples_of p = unat n" using Inr by (simp add: samples_of_def)
  have "os_index st \<noteq> 0 \<and> os_index st \<noteq> 1" using assms by auto
  then show ?thesis unfolding take_packet_def by (simp add: Inr no_overflow u after_audio_def total_samples_def)
qed (use assms in \<open>auto simp: take_packet_def\<close>)

lemma take_audio_packets:
  assumes "2 \<le> os_index st"
  shows "take_packets audio st = Inr st' \<longleftrightarrow>
    list_all (\<lambda>p. 0 < samples_of p) audio \<and> unat (os_decoded st) + total_samples audio < 2 ^ 64 \<and> st' = after_audio audio st"
  using assms
proof (induction audio arbitrary: st)
  case Nil
  have "after_audio [] st = st" by (simp add: after_audio_def total_samples_def)
  then show ?case using unsigned_less[of "os_decoded st", where 'a = nat] by (auto simp: total_samples_def)
next
  case (Cons p audio)
  show ?case
  proof (cases "0 < samples_of p \<and> unat (os_decoded st) + samples_of p < 2 ^ 64")
    case True
    then obtain n where n: "opus_packet_sample_count p = Inr n" using samples_pos by blast
    have d: "unat (os_decoded st + of_nat (samples_of p)) = unat (os_decoded st) + samples_of p"
      using True by (subst unat_word_ariths) (simp add: unat_of_nat)
    have a: "after_audio audio (after_audio [p] st) = after_audio (p # audio) st"
      by (simp add: after_audio_def total_samples_def)
    have "take_packets audio (after_audio [p] st) = Inr st' \<longleftrightarrow>
      list_all (\<lambda>p. 0 < samples_of p) audio \<and> unat (os_decoded (after_audio [p] st)) + total_samples audio < 2 ^ 64 \<and>
        st' = after_audio audio (after_audio [p] st)"
      by (rule Cons.IH) (use Cons.prems in \<open>simp add: after_audio_def\<close>)
    moreover have "os_decoded (after_audio [p] st) = os_decoded st + of_nat (samples_of p)"
      by (simp add: after_audio_def total_samples_def)
    ultimately show ?thesis using True n Cons.prems by (simp add: take_packet_audio a d total_samples_def add.assoc)
  next
    case False
    then have "\<not> (\<exists>s. take_packet p st = Inr s)"
      using samples_pos[of p] by (auto simp: take_packet_audio[OF Cons.prems] split: sum.splits)
    then show ?thesis using False by (auto simp: total_samples_def split: sum.splits)
  qed
qed

definition after_headers :: "byte list \<Rightarrow> nat \<Rightarrow> 64 word \<Rightarrow> ogg_state" where
  "after_headers h channels skip = ogg_start\<lparr>os_channels := channels, os_pre_skip := skip,
     os_digest := opus_integrity_domain @ hash_opus_packet (CHR ''H'') h, os_index := 2\<rparr>"

lemma take_head:
  "take_packet head ogg_start = (case canonical_opus_head head of Inl e \<Rightarrow> Inl e | Inr (h, channels, skip) \<Rightarrow>
     Inr ((after_headers h channels skip)\<lparr>os_index := 1\<rparr>, False))"
proof -
  have "os_index ogg_start = 0" "os_digest ogg_start = opus_integrity_domain" by (simp_all add: ogg_start_def)
  then show ?thesis by (simp add: take_packet_def after_headers_def split: sum.split)
qed

lemma take_tags:
  "take_packet tags ((after_headers h channels skip)\<lparr>os_index := 1\<rparr>) =
     (if take 8 tags = ascii ''OpusTags'' then Inr (after_headers h channels skip, False) else Inl NotOpusTags)"
proof -
  have "length (ascii ''OpusTags'') = 8" by (simp add: ascii_def)
  then have "take 8 tags = ascii ''OpusTags'' \<Longrightarrow> 8 \<le> length tags" by (metis length_take min_def nle_le)
  then show ?thesis by (auto simp: take_packet_def after_headers_def)
qed

lemma take_audio:
  "take_packets audio (after_headers h channels skip) = Inr st \<longleftrightarrow>
     audio_ok audio \<and> st = after_audio audio (after_headers h channels skip)"
proof -
  have "2 \<le> os_index (after_headers h channels skip)" "os_decoded (after_headers h channels skip) = 0"
    by (simp_all add: after_headers_def ogg_start_def)
  then show ?thesis by (simp add: take_audio_packets audio_ok_def)
qed

lemma take_packets_headers:
  "take_packets packets ogg_start = Inr st \<and> 2 \<le> os_index st \<longleftrightarrow>
    (\<exists>head tags audio h channels skip. packets = head # tags # audio \<and> canonical_opus_head head = Inr (h, channels, skip) \<and>
       take 8 tags = ascii ''OpusTags'' \<and> audio_ok audio \<and> st = after_audio audio (after_headers h channels skip))"
proof (cases packets)
  case Nil
  then show ?thesis by (auto simp: ogg_start_def)
next
  case (Cons head rest)
  show ?thesis
  proof (cases "canonical_opus_head head")
    case (Inr y)
    obtain h c s where y: "y = (h, c, s)" by (cases y)
    have "2 \<le> os_index (after_audio audio (after_headers h c s))" for audio
      by (simp add: after_audio_def after_headers_def)
    then show ?thesis using Inr
      by (cases rest) (auto simp: Cons y take_head take_tags[unfolded One_nat_def] take_audio split: if_splits)
  qed (simp add: Cons take_head)
qed


subsection \<open>The summary of a recording\<close>

definition digest_input :: "byte list \<Rightarrow> byte list list \<Rightarrow> nat \<Rightarrow> byte list" where
  "digest_input h audio samples =
     opus_integrity_domain @ hash_opus_packet (CHR ''H'') h @ concat (map (hash_opus_packet (CHR ''A'')) audio) @
     ascii ''E'' @ le 8 (length audio) @ le 8 samples"

text \<open>The samples that play: those decoded, or those the last granule counts if fewer, without the pre-skip.\<close>

definition playable :: "64 word \<Rightarrow> byte list list \<Rightarrow> 64 word \<Rightarrow> nat" where
  "playable skip audio granule = min (total_samples audio) (unat granule) - unat skip"

definition opus_summary :: "byte list \<Rightarrow> nat \<Rightarrow> 64 word \<Rightarrow> byte list list \<Rightarrow> 64 word \<Rightarrow> opus_audio_integrity" where
  "opus_summary h channels skip audio granule =
     \<lparr>oi_sha256 = hex_string (sha256 (digest_input h audio (playable skip audio granule))), oi_sample_rate = 48000,
      oi_channels = channels, oi_sample_count = int (playable skip audio granule),
      oi_duration_ms = wrap64 (int (playable skip audio granule) * 1000) sdiv 48000, oi_packet_count = of_nat (length audio)\<rparr>"

lemma min_sub: "s \<le> d \<Longrightarrow> s \<le> g \<Longrightarrow> unat (min (d - s) (g - s)) = min (unat d) (unat g) - unat s" for s d g :: "64 word"
  by (auto simp: min_def unat_sub word_le_nat_alt)

lemma finish_stream_Inr:
  assumes "os_have_stream st" "os_partial st = []" and "audio_ok audio"
    and "os_index st = length audio + 2" "os_audio st = of_nat (length audio)" "os_decoded st = of_nat (total_samples audio)"
    and "os_digest st = opus_integrity_domain @ hash_opus_packet (CHR ''H'') h @ concat (map (hash_opus_packet (CHR ''A'')) audio)"
    and "os_granule st = Some granule" "os_eos st" "granule \<le> 0x7FFFFFFFFFFFFFFF"
  shows "finish_stream st = Inr r \<longleftrightarrow> audio \<noteq> [] \<and> os_pre_skip st \<le> granule \<and> unat (os_pre_skip st) \<le> total_samples audio \<and>
    r = opus_summary h (os_channels st) (os_pre_skip st) audio granule"
proof -
  have t: "unat (of_nat (total_samples audio) :: 64 word) = total_samples audio"
    using assms(3) by (simp add: unat_of_nat audio_ok_def)
  have n: "unat (of_nat (length audio) :: 64 word) = length audio"
    using audio_ok_length[OF assms(3)] assms(3) by (simp add: unat_of_nat audio_ok_def)
  then have z: "(of_nat (length audio) :: 64 word) = 0 \<longleftrightarrow> audio = []" by (metis length_0_conv unat_0 word_unat_eq_iff)
  have d: "of_nat (total_samples audio) < os_pre_skip st \<longleftrightarrow> total_samples audio < unat (os_pre_skip st)"
    by (simp add: word_less_nat_alt t)
  show ?thesis
  proof (cases "os_pre_skip st \<le> granule \<and> unat (os_pre_skip st) \<le> total_samples audio")
    case True
    let ?s = "min (of_nat (total_samples audio) - os_pre_skip st) (granule - os_pre_skip st)"
    have s: "unat ?s = playable (os_pre_skip st) audio granule"
      unfolding playable_def by (subst min_sub) (use True in \<open>simp_all add: word_le_nat_alt t\<close>)
    have "unat ?s \<le> unat granule" unfolding s playable_def by simp
    then have "\<not> ?s > 0x7FFFFFFFFFFFFFFF" using assms(10) unfolding word_le_nat_alt word_less_nat_alt by simp
    moreover have "uint ?s = int (playable (os_pre_skip st) audio granule)" unfolding s[symmetric] by simp
    ultimately show ?thesis using True
      unfolding finish_stream_def Let_def assms(4-9) opus_summary_def digest_input_def
      by (auto simp: assms(1,2,9) z n s d)
  next
    case False
    then show ?thesis unfolding finish_stream_def assms(4-9)
      by (auto simp: assms(1,2,9) z d)
  qed
qed

lemma after_audio_headers:
  "os_index (after_audio audio (after_headers h c s)) = length audio + 2"
  "os_audio (after_audio audio (after_headers h c s)) = of_nat (length audio)"
  "os_decoded (after_audio audio (after_headers h c s)) = of_nat (total_samples audio)"
  "os_digest (after_audio audio (after_headers h c s)) =
     opus_integrity_domain @ hash_opus_packet (CHR ''H'') h @ concat (map (hash_opus_packet (CHR ''A'')) audio)"
  "os_pre_skip (after_audio audio (after_headers h c s)) = s" "os_channels (after_audio audio (after_headers h c s)) = c"
  "os_partial (after_audio audio (after_headers h c s)) = []"
  by (simp_all add: after_audio_def after_headers_def ogg_start_def)

text \<open>A recording whose packets the code accepts, and the pages of one of its encodings.\<close>

definition valid_recording :: "byte list list \<Rightarrow> 64 word \<Rightarrow> bool" where
  "valid_recording packets granule \<longleftrightarrow>
     (case packets of head # tags # audio \<Rightarrow>
        (case canonical_opus_head head of Inl _ \<Rightarrow> False | Inr (h, channels, skip) \<Rightarrow>
           take 8 tags = ascii ''OpusTags'' \<and> audio \<noteq> [] \<and> audio_ok audio \<and>
           skip \<le> granule \<and> unat skip \<le> total_samples audio \<and> granule \<le> 0x7FFFFFFFFFFFFFFF)
      | _ \<Rightarrow> False) \<and> list_all (\<lambda>p. length p \<le> max_ogg_packet_bytes) packets"

definition summary_of :: "byte list list \<Rightarrow> 64 word \<Rightarrow> opus_audio_integrity" where
  "summary_of packets granule = (case canonical_opus_head (hd packets) of
     Inr (h, channels, skip) \<Rightarrow> opus_summary h channels skip (drop 2 packets) granule)"

lemma concat_map_last: "xs \<noteq> [] \<Longrightarrow> concat (map f xs) = concat (map f (butlast xs)) @ f (last xs)"
  by (induction xs) auto

lemma encoded_summary:
  assumes "layout packets pages" and "valid_recording packets (snd (last pages))"
  shows "compute_opus_audio_integrity False (ogg_pages serial sequence True False pages) = Inr (summary_of packets (snd (last pages)))"
proof -
  let ?g = "snd (last pages)"
  obtain head tags audio h c s where p: "packets = head # tags # audio" "canonical_opus_head head = Inr (h, c, s)"
    "take 8 tags = ascii ''OpusTags''" "audio \<noteq> []" "audio_ok audio" "s \<le> ?g" "unat s \<le> total_samples audio"
    "?g \<le> 0x7FFFFFFFFFFFFFFF"
    using assms(2) unfolding valid_recording_def by (auto split: list.splits sum.splits)
  define st where "st = after_audio audio (after_headers h c s)"
  have st: "take_packets packets ogg_start = Inr st" using p take_packets_headers[of packets st] st_def by blast
  have start: "os_partial ogg_start = []" "\<not> os_eos ogg_start" "\<not> os_have_stream ogg_start" by (simp_all add: ogg_start_def)
  obtain b where b: "eat (concat (map lace packets)) False ogg_start = Inr (st, b)"
    using eat_packets[OF _ start(1) st] assms(2) unfolding valid_recording_def by blast
  have l: "fst (last pages) \<noteq> []" "pages \<noteq> []" "concat (map fst pages) = concat (map lace packets)"
    using assms(1) by (simp_all add: layout_def)
  have ll: "length (last (fst (last pages))) \<noteq> 255"
    using concat_lace_last(2)[of packets, folded l(3)] l(1) p(1) unfolding concat_map_last[OF l(2), of fst] by simp
  have "seg \<in> set (fst pg) \<Longrightarrow> length seg \<le> 255" if "pg \<in> set pages" for pg seg
  proof -
    assume "seg \<in> set (fst pg)"
    then have "seg \<in> set (concat (map lace packets))" using that unfolding l(3)[symmetric] by auto
    then show ?thesis using lace_length by auto
  qed
  then have ok: "list_all (\<lambda>p. length (fst p) \<le> 255 \<and> list_all (\<lambda>s. length s \<le> 255) (fst p)) pages"
    using assms(1) unfolding layout_def list_all_iff by blast
  have i: "3 \<le> os_index st" using p(4) by (cases audio) (simp_all add: st_def after_audio_headers)
  have r: "read_pages False (ogg_pages serial sequence True False pages) ogg_start =
      Inr ((on_page True serial (sequence + of_nat (length pages) - 1) st)\<lparr>os_granule := Some ?g, os_eos := True\<rparr>)"
    using read_layout[OF l(2,1) ll ok p(8) b[folded l(3)] i start(2), of ogg_start True serial sequence] start by simp
  show ?thesis unfolding compute_opus_audio_integrity_def r sum.case
    by (subst finish_stream_Inr[where audio = audio and h = h and granule = ?g])
      (use p in \<open>simp_all add: on_page_def st_def after_audio_headers summary_of_def\<close>)
qed

subsection \<open>The packets of any file\<close>

text \<open>The pages of a file by their length fields alone, and the packets their segments make.\<close>

fun cut :: "byte list \<Rightarrow> byte list \<Rightarrow> byte list list" where
  "cut [] bs = []"
| "cut (n # table) bs = take (unat n) bs # cut table (drop (unat n) bs)"

function raw_pages :: "byte list \<Rightarrow> (byte list \<times> byte list \<times> byte list) list" where
  "raw_pages bs =
     (if length bs < 27 then []
      else
        let header = take 27 bs; table = take (unat (header ! 26)) (drop 27 bs);
            body = drop (unat (header ! 26)) (drop 27 bs); n = sum_list (map unat table) in
        (header, table, take n body) # raw_pages (drop n body))"
  by pat_completeness auto
termination by (relation "measure length") auto

declare raw_pages.simps [simp del]

definition page_granule :: "byte list \<Rightarrow> 64 word" where
  "page_granule header = word_of_nat (unle (take 8 (drop 6 header)))"

fun join_segs :: "byte list \<Rightarrow> byte list list \<Rightarrow> byte list list" where
  "join_segs partial [] = []"
| "join_segs partial (seg # segs) =
     (if length seg = 255 then join_segs (partial @ seg) segs else (partial @ seg) # join_segs [] segs)"

definition ogg_packets :: "byte list \<Rightarrow> byte list list" where
  "ogg_packets bs = join_segs [] (concat (map (\<lambda>(h, table, payload). cut table payload) (raw_pages bs)))"

definition last_granule :: "byte list \<Rightarrow> 64 word" where
  "last_granule bs = page_granule (fst (last (raw_pages bs)))"

text \<open>A state without its page fields.\<close>

definition core_of :: "ogg_state \<Rightarrow> ogg_state" where
  "core_of st = st\<lparr>os_partial := [], os_granule := None, os_serial := 0, os_sequence := 0, os_have_stream := False, os_eos := False\<rparr>"

lemma take_packet_core:
  "take_packet p st = Inr (st', a) \<Longrightarrow> take_packet p (core_of st) = Inr (core_of st', a)"
  by (auto simp: take_packet_def core_of_def split: if_splits sum.splits)

lemma eat_core:
  assumes "eat segs a st = Inr (st', a')"
  shows "take_packets (join_segs (os_partial st) (segs @ zs)) (core_of st) = take_packets (join_segs (os_partial st') zs) (core_of st')"
  using assms
proof (induction segs a st rule: eat.induct)
  case (2 seg segs a st)
  show ?case
  proof (cases "length seg = 255")
    case True
    have "core_of (st\<lparr>os_partial := os_partial st @ seg\<rparr>) = core_of st" by (simp add: core_of_def)
    then show ?thesis using 2 True by (simp split: if_splits)
  next
    case False
    then obtain s w where s: "take_packet (os_partial st @ seg) (st\<lparr>os_partial := []\<rparr>) = Inr (s, w)" "eat segs (a \<or> w) s = Inr (st', a')"
      using 2(3) by (auto split: if_splits sum.splits)
    have c: "core_of (st\<lparr>os_partial := []\<rparr>) = core_of st" by (simp add: core_of_def)
    have p: "os_partial s = []" using take_packet_fields[OF s(1)] by simp
    show ?thesis using 2(2)[OF _ False s(1) refl] s(2) take_packet_core[OF s(1), unfolded c] False 2(3) p by (simp split: if_splits)
  qed
qed simp

lemma eat_stream: "eat segs a st = Inr (st', a') \<Longrightarrow> os_have_stream st' = os_have_stream st"
proof (induction segs a st rule: eat.induct)
  case (2 seg segs a st)
  have "take_packet p st = Inr (st', a) \<Longrightarrow> os_have_stream st' = os_have_stream st" for p st st' a
    by (auto simp: take_packet_def split: if_splits sum.splits)
  then show ?case using 2 by (fastforce split: if_splits sum.splits)
qed simp

lemma take_segments_cut:
  assumes "length payload = sum_list (map unat table)"
  shows "take_segments table payload a st = eat (cut table payload) a st"
  using assms
proof (induction table payload a st rule: take_segments.induct)
  case (2 lace table payload a st)
  have l: "length (take (unat lace) payload) = unat lace" using 2(3) by simp
  have w: "lace = 255 \<longleftrightarrow> unat lace = 255" by (simp add: word_unat_eq_iff)
  show ?case using 2 l by (simp add: w Let_def split: sum.split)
qed simp

lemma read_full_Inr: "read_full n bs = (Inr xs, rest) \<longleftrightarrow> n \<le> length bs \<and> xs = take n bs \<and> rest = drop n bs"
  by (auto simp: read_full.simps)

text \<open>A page that is read: its packets, what is left, and the last page's granule.\<close>

lemma read_page_parts:
  assumes "length table = unat (header ! 26)" and "length payload = sum_list (map unat table)"
  shows "read_page header (table @ payload @ rest) st =
    (case check_header header st of Inl e \<Rightarrow> Inl e | Inr st \<Rightarrow>
       if (header ! 5 AND 1 \<noteq> 0) \<noteq> (os_partial st \<noteq> []) then Inl ContinuedFlag
       else case validate_ogg_page_checksum header table payload of Inl e \<Rightarrow> Inl e | Inr _ \<Rightarrow>
       case eat (cut table payload) False st of Inl e \<Rightarrow> Inl e | Inr (st, audio) \<Rightarrow>
       case end_page header audio st of Inl e \<Rightarrow> Inl e | Inr st \<Rightarrow> Inr (st, rest))"
  unfolding read_page_def read_full_append[OF assms(1)[symmetric]] prod.case sum.case
    read_full_append[OF assms(2)[symmetric]] take_segments_cut[OF assms(2)] ..

lemma read_page_core:
  assumes "read_page header (table @ payload @ rest) st = Inr (st', rest)"
    and "length table = unat (header ! 26)" "length payload = sum_list (map unat table)"
  shows "take_packets (join_segs (os_partial st) (cut table payload @ zs)) (core_of st) = take_packets (join_segs (os_partial st') zs) (core_of st')"
    and "\<not> os_eos st" and "os_have_stream st'"
    and "os_eos st' \<Longrightarrow> os_granule st' = Some (page_granule header) \<and> page_granule header \<le> 0x7FFFFFFFFFFFFFFF"
    and "validate_ogg_page_checksum header table payload = Inr ()"
proof -
  obtain s1 s2 a where s: "check_header header st = Inr s1" "eat (cut table payload) False s1 = Inr (s2, a)" "end_page header a s2 = Inr st'"
    and v: "validate_ogg_page_checksum header table payload = Inr ()"
    using assms(1) unfolding read_page_parts[OF assms(2,3)] by (auto split: sum.splits prod.splits if_splits)
  show "validate_ogg_page_checksum header table payload = Inr ()" by (rule v)
  have h: "\<not> os_eos st" "os_have_stream s1" "\<not> os_eos s1" "os_partial s1 = os_partial st" "core_of s1 = core_of st"
    using s(1) unfolding check_header_def by (auto simp: Let_def core_of_def split: if_splits)
  have f: "os_have_stream s2" "\<not> os_eos s2" using eat_fields[OF s(2)] eat_stream[OF s(2)] h by auto
  have p: "os_partial st' = os_partial s2" "core_of st' = core_of s2" "os_have_stream st' = os_have_stream s2"
    using s(3) by (auto simp: end_page_def Let_def core_of_def split: if_splits)
  show "take_packets (join_segs (os_partial st) (cut table payload @ zs)) (core_of st) = take_packets (join_segs (os_partial st') zs) (core_of st')"
    using eat_core[OF s(2), of zs] by (simp add: h p)
  show "\<not> os_eos st" "os_have_stream st'" using h f p by auto
  show "os_granule st' = Some (page_granule header) \<and> page_granule header \<le> 0x7FFFFFFFFFFFFFFF" if "os_eos st'"
    using s(3) that f by (auto simp: end_page_def Let_def page_granule_def split: if_splits)
qed

text \<open>A successful read takes the raw pages one by one.\<close>

lemma read_pages_cases:
  assumes "read_pages broken bs st = Inr st'"
  obtains (none) "bs = []" "raw_pages bs = []" "st' = st" "\<not> broken"
  | (page) header table payload rest s where "bs = header @ table @ payload @ rest" "length header = 27"
      "length table = unat (header ! 26)" "length payload = sum_list (map unat table)"
      "read_page header (table @ payload @ rest) st = Inr (s, rest)" "read_pages broken rest s = Inr st'"
      "raw_pages bs = (header, table, payload) # raw_pages rest" "length rest < length bs"
proof (cases "length bs < 27")
  case True
  then have "bs = []" "st' = st" "\<not> broken" using assms by (subst (asm) read_pages.simps, auto split: if_splits)+
  then show ?thesis using none by (simp add: raw_pages.simps)
next
  case False
  then obtain s rest where s: "read_page (take 27 bs) (drop 27 bs) st = Inr (s, rest)" "read_pages broken rest s = Inr st'"
    using assms by (subst (asm) read_pages.simps) (auto split: if_splits sum.splits)
  let ?h = "take 27 bs"
  let ?t = "take (unat (?h ! 26)) (drop 27 bs)"
  let ?body = "drop (unat (?h ! 26)) (drop 27 bs)"
  let ?n = "sum_list (map unat ?t)"
  have n: "unat (?h ! 26) \<le> length (drop 27 bs)" "?n \<le> length ?body" "rest = drop ?n ?body"
    using s(1) unfolding read_page_def by (auto simp: read_full_Inr split: sum.splits prod.splits if_splits)
  have "drop 27 bs = ?t @ take ?n ?body @ rest" unfolding n(3) by (metis append_take_drop_id)
  moreover from this have "bs = ?h @ ?t @ take ?n ?body @ rest" by (metis append_take_drop_id)
  moreover have "raw_pages bs = (?h, ?t, take ?n ?body) # raw_pages rest"
    using False unfolding n(3) by (subst raw_pages.simps) (simp add: Let_def)
  moreover have "length ?h = 27" "length ?t = unat (?h ! 26)" "length (take ?n ?body) = ?n" "length rest < length bs"
    using n False by auto
  ultimately show ?thesis using s by (intro page) simp_all
qed

lemma read_pages_core:
  assumes "read_pages broken bs st = Inr st'"
  shows "take_packets (join_segs (os_partial st) (concat (map (\<lambda>(h, table, payload). cut table payload) (raw_pages bs)))) (core_of st) =
      Inr (core_of st') \<and>
    (os_eos st' \<longrightarrow> \<not> os_eos st \<longrightarrow> os_granule st' = Some (last_granule bs) \<and> last_granule bs \<le> 0x7FFFFFFFFFFFFFFF) \<and>
    (os_eos st \<longrightarrow> bs = [])"
  using assms
proof (induction "length bs" arbitrary: bs st rule: less_induct)
  case less
  from less.prems show ?case
  proof (cases rule: read_pages_cases)
    case (page header table payload rest s)
    note core = read_page_core[OF page(5,3,4)]
    note IH = less.hyps[OF page(8,6)]
    have "os_granule st' = Some (last_granule bs) \<and> last_granule bs \<le> 0x7FFFFFFFFFFFFFFF" if e: "os_eos st'"
      using page(6)
    proof (cases rule: read_pages_cases)
      case none
      then show ?thesis using core(4) e page(7) by (simp add: last_granule_def)
    next
      case other: (page header' table' payload' rest' s')
      then have "\<not> os_eos s" using IH by auto
      then show ?thesis using IH e other(7) page(7) by (simp add: last_granule_def)
    qed
    then show ?thesis using IH core(1,2) page(7) by simp
  qed simp
qed

text \<open>A file that is accepted holds the packets and the granule its result summarises.\<close>

lemma accepted_summary:
  assumes "compute_opus_audio_integrity broken bs = Inr r"
  shows "\<exists>head tags audio h channels skip. ogg_packets bs = head # tags # audio \<and> canonical_opus_head head = Inr (h, channels, skip) \<and>
    take 8 tags = ascii ''OpusTags'' \<and> audio \<noteq> [] \<and> audio_ok audio \<and> skip \<le> last_granule bs \<and> unat skip \<le> total_samples audio \<and>
    last_granule bs \<le> 0x7FFFFFFFFFFFFFFF \<and> r = opus_summary h channels skip audio (last_granule bs)"
proof -
  obtain st where st: "read_pages broken bs ogg_start = Inr st" "finish_stream st = Inr r"
    using assms by (auto simp: compute_opus_audio_integrity_def split: sum.splits)
  have c: "core_of ogg_start = ogg_start" "os_partial ogg_start = []" "\<not> os_eos ogg_start" by (simp_all add: ogg_start_def core_of_def)
  have f: "os_have_stream st" "os_partial st = []" "2 \<le> os_index st" "os_eos st"
    using st(2) by (auto simp: finish_stream_def split: if_splits)
  have g: "os_granule st = Some (last_granule bs)" "last_granule bs \<le> 0x7FFFFFFFFFFFFFFF"
    using read_pages_core[OF st(1)] f(4) c(3) by auto
  have "take_packets (ogg_packets bs) ogg_start = Inr (core_of st)"
    using read_pages_core[OF st(1)] by (simp only: c ogg_packets_def)
  then have "take_packets (ogg_packets bs) ogg_start = Inr (core_of st) \<and> 2 \<le> os_index (core_of st)"
    using f(3) by (simp add: core_of_def)
  then obtain head tags audio h ch skip where p: "ogg_packets bs = head # tags # audio" "canonical_opus_head head = Inr (h, ch, skip)"
      "take 8 tags = ascii ''OpusTags''" "audio_ok audio" "core_of st = after_audio audio (after_headers h ch skip)"
    using take_packets_headers[of "ogg_packets bs" "core_of st"] by blast
  have s: "os_index st = length audio + 2" "os_audio st = of_nat (length audio)" "os_decoded st = of_nat (total_samples audio)"
      "os_digest st = opus_integrity_domain @ hash_opus_packet (CHR ''H'') h @ concat (map (hash_opus_packet (CHR ''A'')) audio)"
      "os_pre_skip st = skip" "os_channels st = ch"
    using after_audio_headers[of audio h ch skip, folded p(5)] by (simp_all add: core_of_def)
  show ?thesis
    using finish_stream_Inr[OF f(1,2) p(4) s(1-4) g(1) f(4) g(2), of r] st(2) p g(2) s(5,6) by blast
qed

text \<open>No accepted packet is longer than the limit.\<close>

abbreviation short :: "byte list \<Rightarrow> bool" where
  "short p \<equiv> length p \<le> max_ogg_packet_bytes"

lemma eat_short:
  assumes "eat segs a st = Inr (st', a')" and "short (os_partial st)"
  shows "short (os_partial st') \<and> (list_all short (join_segs (os_partial st') zs) \<longrightarrow> list_all short (join_segs (os_partial st) (segs @ zs)))"
  using assms
proof (induction segs a st rule: eat.induct)
  case (2 seg segs a st)
  have l: "short (os_partial st @ seg)" using 2(3) by (simp split: if_splits)
  show ?case
  proof (cases "length seg = 255")
    case True
    then show ?thesis using 2(1)[OF _ True] 2(3) l by (simp split: if_splits)
  next
    case False
    then obtain s w where s: "take_packet (os_partial st @ seg) (st\<lparr>os_partial := []\<rparr>) = Inr (s, w)" "eat segs (a \<or> w) s = Inr (st', a')"
      using 2(3) by (auto split: if_splits sum.splits)
    have p: "os_partial s = []" using take_packet_fields[OF s(1)] by simp
    show ?thesis using 2(2)[OF _ False s(1) refl s(2)] False l p 2(3) by (simp split: if_splits)
  qed
qed simp

lemma accepted_short:
  assumes "compute_opus_audio_integrity broken bs = Inr r"
  shows "list_all short (ogg_packets bs)"
proof -
  have pages: "list_all short (join_segs (os_partial st) (concat (map (\<lambda>(h, table, payload). cut table payload) (raw_pages bs))))"
    if "read_pages broken bs st = Inr st'" "short (os_partial st)" for st st' bs
    using that
  proof (induction "length bs" arbitrary: bs st rule: less_induct)
    case less
    from less.prems(1) show ?case
    proof (cases rule: read_pages_cases)
      case (page header table payload rest s)
      obtain s1 s2 a where s: "check_header header st = Inr s1" "eat (cut table payload) False s1 = Inr (s2, a)" "end_page header a s2 = Inr s"
        using page(5) unfolding read_page_parts[OF page(3,4)] by (auto split: sum.splits prod.splits if_splits)
      have p: "os_partial s1 = os_partial st" "os_partial s = os_partial s2"
        using s(1,3) unfolding check_header_def end_page_def by (auto simp: Let_def split: if_splits)
      note e = eat_short[OF s(2), unfolded p(1), OF less.prems(2), folded p(2)]
      show ?thesis using e less.hyps[OF page(8,6)] page(7) by simp
    qed simp
  qed
  obtain st where "read_pages broken bs ogg_start = Inr st"
    using assms by (auto simp: compute_opus_audio_integrity_def split: sum.splits)
  then show ?thesis using pages[of bs ogg_start st] by (simp add: ogg_packets_def ogg_start_def)
qed

subsection \<open>What the digest determines\<close>

lemma hex_digit_inj: "m < 16 \<Longrightarrow> n < 16 \<Longrightarrow> hex_digit m = hex_digit n \<Longrightarrow> m = n"
proof -
  have d: "distinct ''0123456789abcdef''" by code_simp
  show "m < 16 \<Longrightarrow> n < 16 \<Longrightarrow> hex_digit m = hex_digit n \<Longrightarrow> m = n"
    using nth_eq_iff_index_eq[OF d, of m n] by (simp add: hex_digit_def)
qed

lemma hex_string_inj: "hex_string xs = hex_string ys \<Longrightarrow> xs = ys"
proof (induction xs arbitrary: ys)
  case (Cons x xs)
  then obtain y zs where y: "ys = y # zs" by (cases ys) (auto simp: hex_string_def hex_byte_def)
  have b: "unat b div 16 < 16" "unat b mod 16 < 16" for b :: "8 word"
    using unsigned_less[of b, where 'a = nat] by (simp_all add: less_mult_imp_div_less)
  have "unat x div 16 = unat y div 16" "unat x mod 16 = unat y mod 16"
    using Cons.prems b hex_digit_inj unfolding y hex_string_def hex_byte_def by simp_all
  then have "unat x = unat y" by (metis div_mult_mod_eq)
  then have "x = y" by (simp add: word_unat_eq_iff)
  then show ?case using Cons unfolding y by (auto simp: hex_string_def hex_byte_def)
qed (simp add: hex_string_def hex_byte_def; metis length_0_conv list.size(3) length_concat)

lemma le_inj: "m < 256 ^ k \<Longrightarrow> n < 256 ^ k \<Longrightarrow> le k m = le k n \<Longrightarrow> m = n"
  by (metis unle_le)

lemma hash_opus_packet_append:
  assumes "hash_opus_packet k p @ xs = hash_opus_packet k q @ ys" and "length p < 2 ^ 64" "length q < 2 ^ 64"
  shows "p = q" "xs = ys"
proof -
  have l: "le 8 (length p) = le 8 (length q)" and r: "p @ xs = q @ ys"
    using assms by (simp_all add: hash_opus_packet_def ascii_def)
  have "length p = length q" by (rule le_inj[OF _ _ l]) (use assms in simp_all)
  then show "p = q" "xs = ys" using r by simp_all
qed

lemma audio_hash_inj:
  assumes "concat (map (hash_opus_packet (CHR ''A'')) audio) @ ascii ''E'' @ xs =
      concat (map (hash_opus_packet (CHR ''A'')) audio') @ ascii ''E'' @ ys"
    and "list_all (\<lambda>p. length p < 2 ^ 64) audio" "list_all (\<lambda>p. length p < 2 ^ 64) audio'"
  shows "audio = audio' \<and> xs = ys"
  using assms
proof (induction audio arbitrary: audio')
  case Nil
  then show ?case by (cases audio') (auto simp: hash_opus_packet_def ascii_def)
next
  case (Cons p audio)
  then obtain q more where q: "audio' = q # more" by (cases audio') (auto simp: hash_opus_packet_def ascii_def)
  have "p = q \<and> concat (map (hash_opus_packet (CHR ''A'')) audio) @ ascii ''E'' @ xs =
      concat (map (hash_opus_packet (CHR ''A'')) more) @ ascii ''E'' @ ys"
    using hash_opus_packet_append[of "CHR ''A''" p _ q] Cons.prems unfolding q by simp
  then show ?case using Cons.IH[of more] Cons.prems unfolding q by simp
qed

lemma digest_input_inj:
  assumes "digest_input h audio n = digest_input h' audio' n'"
    and "list_all (\<lambda>p. length p < 2 ^ 64) (h # audio)" "list_all (\<lambda>p. length p < 2 ^ 64) (h' # audio')" "n < 2 ^ 64" "n' < 2 ^ 64"
  shows "h = h'" "audio = audio'" "n = n'"
proof -
  have "hash_opus_packet (CHR ''H'') h @ concat (map (hash_opus_packet (CHR ''A'')) audio) @ ascii ''E'' @ le 8 (length audio) @ le 8 n =
      hash_opus_packet (CHR ''H'') h' @ concat (map (hash_opus_packet (CHR ''A'')) audio') @ ascii ''E'' @ le 8 (length audio') @ le 8 n'"
    using assms(1) by (simp add: digest_input_def)
  note s = hash_opus_packet_append[OF this]
  show "h = h'" using s assms(2,3) by simp
  have "audio = audio' \<and> le 8 (length audio) @ le 8 n = le 8 (length audio') @ le 8 n'"
    by (rule audio_hash_inj) (use s assms(2,3) in simp_all)
  then have "audio = audio'" "le 8 n = le 8 n'" by simp_all
  then show "audio = audio'" "n = n'" using le_inj[of n 8 n'] assms(4,5) by simp_all
qed


lemma canonical_opus_head_fields:
  assumes "canonical_opus_head packet = Inr (h, channels, skip)"
  shows "length h = length packet" "channels = unat (h ! 9)"
  using assms unfolding canonical_opus_head_def Let_def by (auto simp: nth_append split: if_splits)

text \<open>The bytes that are hashed for a file, and a collision of the hash function.\<close>

definition hashed_head :: "byte list list \<Rightarrow> byte list" where
  "hashed_head packets = (case canonical_opus_head (hd packets) of Inl _ \<Rightarrow> [] | Inr (h, _, _) \<Rightarrow> h)"

definition hashed_bytes :: "byte list \<Rightarrow> opus_audio_integrity \<Rightarrow> byte list" where
  "hashed_bytes bs r = digest_input (hashed_head (ogg_packets bs)) (drop 2 (ogg_packets bs)) (nat (oi_sample_count r))"

definition sha256_collision :: "byte list \<Rightarrow> byte list \<Rightarrow> bool" where
  "sha256_collision x y \<longleftrightarrow> x \<noteq> y \<and> sha256 x = sha256 y"

lemma accepted_hash:
  assumes "compute_opus_audio_integrity broken bs = Inr r"
  shows "oi_sha256 r = hex_string (sha256 (hashed_bytes bs r))" "0 \<le> oi_sample_count r" "oi_sample_count r < 2 ^ 64"
    "list_all (\<lambda>p. length p < 2 ^ 64) (hashed_head (ogg_packets bs) # drop 2 (ogg_packets bs))"
    "r = \<lparr>oi_sha256 = oi_sha256 r, oi_sample_rate = 48000, oi_channels = unat (hashed_head (ogg_packets bs) ! 9),
      oi_sample_count = oi_sample_count r, oi_duration_ms = wrap64 (oi_sample_count r * 1000) sdiv 48000,
      oi_packet_count = of_nat (length (drop 2 (ogg_packets bs)))\<rparr>"
proof -
  obtain head tags audio h ch skip where p: "ogg_packets bs = head # tags # audio" "canonical_opus_head head = Inr (h, ch, skip)"
      "audio_ok audio" "r = opus_summary h ch skip audio (last_granule bs)"
    using accepted_summary[OF assms] by blast
  have "list_all short (head # tags # audio)" using accepted_short[OF assms] p(1) by simp
  then have "list_all (\<lambda>p. length p < 2 ^ 64) (h # audio)"
    using canonical_opus_head_fields(1)[OF p(2)] by (auto simp: list_all_iff max_ogg_packet_bytes_def)
  then show "list_all (\<lambda>p. length p < 2 ^ 64) (hashed_head (ogg_packets bs) # drop 2 (ogg_packets bs))"
    by (simp add: hashed_head_def p(1,2))
  have "playable skip audio (last_granule bs) \<le> total_samples audio" by (simp add: playable_def)
  then have "playable skip audio (last_granule bs) < 2 ^ 64" using p(3) by (simp add: audio_ok_def)
  then show "0 \<le> oi_sample_count r" "oi_sample_count r < 2 ^ 64" by (simp_all add: p(4) opus_summary_def)
  show "oi_sha256 r = hex_string (sha256 (hashed_bytes bs r))"
    unfolding p(4) by (simp add: opus_summary_def hashed_bytes_def hashed_head_def p(1,2))
  show "r = \<lparr>oi_sha256 = oi_sha256 r, oi_sample_rate = 48000, oi_channels = unat (hashed_head (ogg_packets bs) ! 9),
      oi_sample_count = oi_sample_count r, oi_duration_ms = wrap64 (oi_sample_count r * 1000) sdiv 48000,
      oi_packet_count = of_nat (length (drop 2 (ogg_packets bs)))\<rparr>"
    unfolding p(4) using canonical_opus_head_fields(2)[OF p(2)] by (simp add: opus_summary_def hashed_head_def p(1,2))
qed

subsection \<open>A changed byte\<close>

definition flatten_pages :: "(byte list \<times> byte list \<times> byte list) list \<Rightarrow> byte list" where
  "flatten_pages pages = concat (map (\<lambda>(header, table, payload). header @ table @ payload) pages)"

lemma read_pages_flatten: "read_pages broken bs st = Inr st' \<Longrightarrow> flatten_pages (raw_pages bs) = bs"
proof (induction "length bs" arbitrary: bs st rule: less_induct)
  case less
  from less.prems show ?case
  proof (cases rule: read_pages_cases)
    case (page header table payload rest s)
    have "flatten_pages (raw_pages rest) = rest" by (rule less.hyps[OF page(8,6)])
    then show ?thesis unfolding page(7) by (simp add: flatten_pages_def page(1))
  qed (simp add: flatten_pages_def)
qed

lemma read_pages_one:
  assumes "length header = 27" "length table = unat (header ! 26)" "length payload = sum_list (map unat table)"
  shows "read_pages broken (header @ table @ payload @ rest) st =
    (case read_page header (table @ payload @ rest) st of Inl e \<Rightarrow> Inl e | Inr (st, rest) \<Rightarrow> read_pages broken rest st)"
  using assms(1) by (subst read_pages.simps) (cases header, auto)

lemma read_pages_changed:
  assumes "read_pages broken bs st = Inr st'" and "raw_pages bs = before @ (h, table, xs @ v # ys) # after" and "v \<noteq> w"
  shows "read_pages broken (flatten_pages (before @ (h, table, xs @ w # ys) # after)) st = Inl PageChecksum"
  using assms(1,2)
proof (induction before arbitrary: bs st)
  case Nil
  from Nil(1) show ?case
  proof (cases rule: read_pages_cases)
    case (page header table' payload rest s)
    then have e: "header = h" "table' = table" "payload = xs @ v # ys" using Nil(2) by simp_all
    note p = page(2-5)[unfolded e]
    have v: "validate_ogg_page_checksum h table (xs @ w # ys) = Inl PageChecksum"
      using changed_byte_fails(2)[OF read_page_core(5)[OF p(4,2,3)] assms(3) refl] .
    have l: "length (xs @ w # ys) = sum_list (map unat table)" using p(3) by simp
    have "read_page h (table @ (xs @ w # ys) @ flatten_pages after) st = Inl PageChecksum"
      using p(4) unfolding read_page_parts[OF p(2,3)] read_page_parts[OF p(2) l] v
      by (auto split: sum.splits if_splits)
    then show ?thesis using read_pages_one[OF p(1,2) l, of broken "flatten_pages after" st] by (simp add: flatten_pages_def)
  qed (use Nil(2) in simp)
next
  case (Cons b before)
  from Cons.prems(1) show ?case
  proof (cases rule: read_pages_cases)
    case (page header table' payload rest s)
    have b: "b = (header, table', payload)" and r: "raw_pages rest = before @ (h, table, xs @ v # ys) # after"
      using Cons.prems(2) page(7) by simp_all
    let ?X = "flatten_pages (before @ (h, table, xs @ w # ys) # after)"
    have "read_page header (table' @ payload @ ?X) st = Inr (s, ?X)"
      using page(5) unfolding read_page_parts[OF page(3,4)] by (auto split: sum.splits if_splits)
    then show ?thesis using read_pages_one[OF page(2-4), of broken ?X st] Cons.IH[OF page(6) r] by (simp add: flatten_pages_def b)
  qed (use Cons.prems(2) in simp)
qed

lemma raw_pages_page:
  assumes "length segs \<le> 255" and "list_all (\<lambda>s. length s \<le> 255) segs"
  shows "raw_pages (page_bytes flags granule serial sequence segs @ rest) =
    (page_header flags granule serial sequence (le 4 (unat (page_crc flags granule serial sequence segs))) (length segs),
     map (of_nat \<circ> length) segs, concat segs) # raw_pages rest"
proof -
  let ?h = "page_header flags granule serial sequence (le 4 (unat (page_crc flags granule serial sequence segs))) (length segs)"
  have l: "length ?h = 27" "?h ! 26 = of_nat (length segs)" by (rule page_header_fields; simp)+
  have n: "unat (of_nat (length segs) :: 8 word) = length segs" using assms(1) by (simp add: unat_of_nat)
  show ?thesis using l n table_sum[OF assms(2)]
    by (subst raw_pages.simps) (simp add: page_bytes_def Let_def nth_append)
qed


subsection \<open>Properties\<close>

text \<open>
  C7: The integrity result of an Ogg Opus file depends on its packets and its last granule alone: however the
  packets are laced into pages, whatever the serial and the first sequence number, the code accepts the file
  and returns the same summary, in which the tags do not appear.
\<close>

theorem opus_digest_layout_free:
  assumes "layout packets pages" and "valid_recording packets (snd (last pages))"
  shows "compute_opus_audio_integrity False (ogg_pages serial sequence True False pages) = Inr (summary_of packets (snd (last pages)))"
  using assms by (rule encoded_summary)

definition sample_head :: "byte list" where
  "sample_head = ascii ''OpusHead'' @ [1, 1, 0, 0, 0x80, 0xBB, 0, 0, 0, 0, 0]"

definition sample_packets :: "byte list list" where
  "sample_packets = [sample_head, ascii ''OpusTags'' @ [7], [8, 1], [8, 2]]"

definition sample_pages :: "(byte list list \<times> 64 word) list" where
  "sample_pages = [([sample_head], 0), ([ascii ''OpusTags'' @ [7], [8, 1]], 960), ([[8, 2]], 1900)]"

lemma replicate_four: "replicate 4 (0 :: byte) = [0, 0, 0, 0]"
  by (simp add: eval_nat_numeral)

lemma sample_ok: "layout sample_packets sample_pages" "valid_recording sample_packets (snd (last sample_pages))"
proof -
  show "layout sample_packets sample_pages"
    by (simp add: layout_def sample_packets_def sample_pages_def sample_head_def ascii_def lace.simps)
  have "canonical_opus_head sample_head = Inr (sample_head[12 := 0, 13 := 0], 1, 0)"
    by (simp add: canonical_opus_head_def sample_head_def ascii_def Let_def unle_def unbe_def replicate_four)
  moreover have "samples_of [8, 1] = 960" "samples_of [8, 2] = 960" by (simp_all add: samples_of_def opus_packet_sample_count_def Let_def)
  moreover have "length sample_head = 19" by (simp add: sample_head_def ascii_def)
  ultimately show "valid_recording sample_packets (snd (last sample_pages))"
    by (simp add: valid_recording_def sample_packets_def sample_pages_def audio_ok_def total_samples_def max_ogg_packet_bytes_def ascii_def)
qed

theorem opus_digest_layout_free_witness:
  "compute_opus_audio_integrity False (ogg_pages 7 0xFFFFFFFF True False sample_pages) = Inr (summary_of sample_packets 1900)"
proof -
  have "snd (last sample_pages) = 1900" by (simp add: sample_pages_def)
  then show ?thesis using opus_digest_layout_free[OF sample_ok, of 7 "0xFFFFFFFF"] by simp
qed

text \<open>
  C8: Two accepted files with the same digest hold the same audio: their heads agree after the input rate is
  cleared, their audio packets are the same packets in the same order, and the results agree in every field;
  otherwise the two byte strings that were hashed are a collision of SHA-256.
\<close>

theorem opus_digest_identifies_audio:
  assumes "compute_opus_audio_integrity broken bs = Inr r" and "compute_opus_audio_integrity broken' bs' = Inr r'"
    and "oi_sha256 r = oi_sha256 r'"
  shows "sha256_collision (hashed_bytes bs r) (hashed_bytes bs' r') \<or>
    hashed_head (ogg_packets bs) = hashed_head (ogg_packets bs') \<and> drop 2 (ogg_packets bs) = drop 2 (ogg_packets bs') \<and> r = r'"
proof (cases "hashed_bytes bs r = hashed_bytes bs' r'")
  case True
  note a = accepted_hash[OF assms(1)] and b = accepted_hash[OF assms(2)]
  have "nat (oi_sample_count r) < 2 ^ 64" "nat (oi_sample_count r') < 2 ^ 64" using a(2,3) b(2,3) by (simp_all add: nat_less_iff)
  note same = digest_input_inj[OF True[unfolded hashed_bytes_def] a(4) b(4) this]
  have "oi_sample_count r = oi_sample_count r'" using same(3) a(2) b(2) by simp
  then have "r = r'" using a(5) b(5) same(1,2) assms(3) by metis
  then show ?thesis using same(1,2) by blast
next
  case False
  moreover have "sha256 (hashed_bytes bs r) = sha256 (hashed_bytes bs' r')"
    using accepted_hash(1)[OF assms(1)] accepted_hash(1)[OF assms(2)] assms(3) hex_string_inj by simp
  ultimately show ?thesis by (simp add: sha256_collision_def)
qed

text \<open>The same packets with other tags, another input rate and other pages.\<close>

definition other_head :: "byte list" where
  "other_head = ascii ''OpusHead'' @ [1, 1, 0, 0, 0x40, 0x1F, 0, 0, 0, 0, 0]"

definition other_packets :: "byte list list" where
  "other_packets = [other_head, ascii ''OpusTags'', [8, 1], [8, 2]]"

definition other_pages :: "(byte list list \<times> 64 word) list" where
  "other_pages = [([other_head, ascii ''OpusTags''], 0), ([[8, 1], [8, 2]], 1900)]"

lemma other_ok: "layout other_packets other_pages" "valid_recording other_packets (snd (last other_pages))"
proof -
  show "layout other_packets other_pages"
    by (simp add: layout_def other_packets_def other_pages_def other_head_def ascii_def lace.simps)
  have "canonical_opus_head other_head = Inr (other_head[12 := 0, 13 := 0], 1, 0)"
    by (simp add: canonical_opus_head_def other_head_def ascii_def Let_def unle_def unbe_def replicate_four)
  moreover have "samples_of [8, 1] = 960" "samples_of [8, 2] = 960" by (simp_all add: samples_of_def opus_packet_sample_count_def Let_def)
  moreover have "length other_head = 19" by (simp add: other_head_def ascii_def)
  ultimately show "valid_recording other_packets (snd (last other_pages))"
    by (simp add: valid_recording_def other_packets_def other_pages_def audio_ok_def total_samples_def max_ogg_packet_bytes_def ascii_def)
qed

lemma other_same: "summary_of other_packets (snd (last other_pages)) = summary_of sample_packets (snd (last sample_pages))"
proof -
  have "canonical_opus_head (hd other_packets) = canonical_opus_head (hd sample_packets)"
    by (simp add: other_packets_def sample_packets_def other_head_def sample_head_def canonical_opus_head_def ascii_def Let_def unle_def unbe_def
      replicate_four)
  moreover have "drop 2 other_packets = drop 2 sample_packets" "snd (last other_pages) = snd (last sample_pages)"
    by (simp_all add: other_packets_def sample_packets_def other_pages_def sample_pages_def)
  ultimately show ?thesis by (simp only: summary_of_def)
qed

theorem opus_digest_identifies_audio_witness:
  "let bs = ogg_pages 7 0 True False sample_pages; bs' = ogg_pages 9 5 True False other_pages;
       r = summary_of sample_packets (snd (last sample_pages)) in
   sha256_collision (hashed_bytes bs r) (hashed_bytes bs' r) \<or>
     hashed_head (ogg_packets bs) = hashed_head (ogg_packets bs') \<and> drop 2 (ogg_packets bs) = drop 2 (ogg_packets bs')"
  using opus_digest_identifies_audio[OF encoded_summary[OF sample_ok, of 7 0] encoded_summary[OF other_ok, of 9 5]]
  by (auto simp: other_same)

text \<open>
  C36: A file that is accepted is the sequence of its pages, and when one byte of one page's payload is
  changed the whole file is refused with the checksum error.
\<close>

theorem opus_changed_byte_refused:
  assumes "compute_opus_audio_integrity broken bs = Inr r"
    and "raw_pages bs = before @ (header, table, xs @ v # ys) # after" and "v \<noteq> w"
  shows "bs = flatten_pages (before @ (header, table, xs @ v # ys) # after) \<and>
    compute_opus_audio_integrity broken (flatten_pages (before @ (header, table, xs @ w # ys) # after)) = Inl PageChecksum"
proof -
  obtain st where st: "read_pages broken bs ogg_start = Inr st"
    using assms(1) by (auto simp: compute_opus_audio_integrity_def split: sum.splits)
  show ?thesis using read_pages_flatten[OF st] read_pages_changed[OF st assms(2,3)]
    by (simp add: compute_opus_audio_integrity_def assms(2))
qed

theorem opus_changed_byte_refused_witness:
  "\<exists>before header table after. ogg_pages 7 0 True False sample_pages = flatten_pages (before @ (header, table, [8] @ 2 # []) # after) \<and>
     compute_opus_audio_integrity False (flatten_pages (before @ (header, table, [8] @ 3 # []) # after)) = Inl PageChecksum"
proof -
  have "\<exists>before header table after. raw_pages (ogg_pages 7 0 True False sample_pages) = before @ (header, table, [8] @ 2 # []) # after"
  proof -
    obtain a b h t where "raw_pages (ogg_pages 7 0 True False sample_pages) = [a, b] @ (h, t, [8] @ 2 # []) # []"
      using raw_pages_page[of "[[8, 2]]" _ _ _ _ "[]"]
      by (simp add: sample_pages_def raw_pages_page raw_pages.simps[of "[]"] sample_head_def ascii_def)
    then show ?thesis by blast
  qed
  then show ?thesis using opus_changed_byte_refused[OF encoded_summary[OF sample_ok, of 7 0], of _ _ _ "[8]" 2 "[]" _ 3] by fastforce
qed

end
