(* ===== verification/Attribution.thy ===== *)
theory Attribution
  imports Recognizer_Words Bytes
begin

text \<open>
  Who spoke a word (\<open>src/cassini-go-recorder/internal/transcribe/attribution.go\<close>): the level envelope of a
  participant's track, streamed from the decoder's PCM; calibration over the streams of one participant; the gap
  between a word's owner and the loudest other track; the estimate of a meeting's crosstalk threshold; and
  annotating or dropping words.  Floating point is a record of operations on bit patterns, as in
  \<open>Recognizer_Words\<close>.  The output of ffmpeg is a list of bytes with the two errors that can follow it.
\<close>

subsection \<open>Floating point\<close>

record levels = floats +
  f32_of_int :: "int \<Rightarrow> 32 word"
  f32_div :: "32 word \<Rightarrow> 32 word \<Rightarrow> 32 word"
  f64_sub :: "64 word \<Rightarrow> 64 word \<Rightarrow> 64 word"
  f64_sqrt :: "64 word \<Rightarrow> 64 word"
  f64_log10 :: "64 word \<Rightarrow> 64 word"
  f64_abs :: "64 word \<Rightarrow> 64 word"
  f64_min :: "64 word \<Rightarrow> 64 word \<Rightarrow> 64 word"
  f64_max :: "64 word \<Rightarrow> 64 word \<Rightarrow> 64 word"

text \<open>The constants, as bit patterns of \<open>float64\<close>.\<close>

definition minus_inf :: "64 word" where "minus_inf = 0xFFF0000000000000"
definition fl_one :: "64 word" where "fl_one = 0x3FF0000000000000"
definition fl_two :: "64 word" where "fl_two = 0x4000000000000000"
definition fl_twenty :: "64 word" where "fl_twenty = 0x4034000000000000"
definition fl_hundred :: "64 word" where "fl_hundred = 0x4059000000000000"
definition log_epsilon :: "64 word" where "log_epsilon = 0x3D719799812DEA11"
definition attribution_floor_percentile :: "64 word" where "attribution_floor_percentile = fl_twenty"
definition attribution_speech_percentile :: "64 word" where "attribution_speech_percentile = 0x4058400000000000"
definition quiet_owner_shortfall_db :: "64 word" where "quiet_owner_shortfall_db = 0x402E000000000000"
definition attribution_frame_ms :: int where "attribution_frame_ms = 32"
definition attribution_hop_ms :: int where "attribution_hop_ms = 16"
definition attribution_pad_ms :: int where "attribution_pad_ms = 40"

text \<open>\<open>sort.Float64s\<close>: ascending, NaN first.\<close>

definition float_before :: "levels \<Rightarrow> 64 word \<Rightarrow> 64 word \<Rightarrow> bool" where
  "float_before F x y \<longleftrightarrow> f64_less F x y \<or> \<not> f64_le F x x \<and> f64_le F y y"

fun sift_float :: "levels \<Rightarrow> 64 word \<Rightarrow> 64 word list \<Rightarrow> 64 word list" where
  "sift_float F x [] = [x]"
| "sift_float F x (y # ys) = (if float_before F y x then y # sift_float F x ys else x # y # ys)"

definition sort_floats :: "levels \<Rightarrow> 64 word list \<Rightarrow> 64 word list" where
  "sort_floats F xs = foldr (sift_float F) xs []"

lemma sift_float_mset: "mset (sift_float F x xs) = mset (x # xs)"
  by (induction xs) auto

lemma sort_floats_mset: "mset (sort_floats F xs) = mset xs"
  by (induction xs) (auto simp: sort_floats_def sift_float_mset)

lemma sort_floats_length [simp]: "length (sort_floats F xs) = length xs"
  using sort_floats_mset[of F xs] by (metis size_mset)

definition percentile_of :: "levels \<Rightarrow> 64 word list \<Rightarrow> 64 word \<Rightarrow> 64 word" where
  "percentile_of F values pct =
     (if values = [] then 0
      else
        let sorted = sort_floats F values;
            idx = f64_trunc F (f64_mul F (f64_div F pct fl_hundred) (f64_of_int F (int (length values) - 1)));
            idx = (if idx < 0 then 0 else idx);
            idx = (if idx \<ge> int (length values) then int (length values) - 1 else idx)
        in sorted ! nat idx)"

subsection \<open>Envelopes\<close>

record speaker_envelope =
  ev_speaker_id :: string
  ev_frame_db :: "64 word list"
  ev_present :: "bool list"
  ev_floor_db :: "64 word"
  ev_speech_db :: "64 word"
  ev_hop_ms :: int

definition f32_nonzero :: "32 word \<Rightarrow> bool" where
  "f32_nonzero s \<longleftrightarrow> s AND 0x7FFFFFFF \<noteq> 0"

definition frame_stats :: "levels \<Rightarrow> 32 word list \<Rightarrow> 64 word \<times> bool" where
  "frame_stats F samples =
     (let voiced = filter f32_nonzero samples;
          total = foldl (\<lambda>sum s. f64_muladd F sum (f32_wide F s) (f32_wide F s)) 0 voiced;
          rms = (if length voiced > 0 then f64_sqrt F (f64_div F total (f64_of_int F (int (length voiced)))) else 0)
      in (f64_mul F fl_twenty (f64_log10 F (f64_add F rms log_epsilon)), length voiced > 0))"

definition blank_envelope :: "string \<Rightarrow> int \<Rightarrow> speaker_envelope" where
  "blank_envelope speaker hop_ms = \<lparr>ev_speaker_id = speaker, ev_frame_db = [], ev_present = [], ev_floor_db = 0,
     ev_speech_db = 0, ev_hop_ms = hop_ms\<rparr>"

definition present_levels :: "(64 word \<times> bool) list \<Rightarrow> 64 word list" where
  "present_levels stats = map fst (filter snd stats)"

text \<open>The levels are read off the present frames, when there are any.\<close>

definition calibrated :: "levels \<Rightarrow> 64 word list \<Rightarrow> speaker_envelope \<Rightarrow> speaker_envelope" where
  "calibrated F present env =
     (if present = [] then env
      else env\<lparr>ev_floor_db := percentile_of F present attribution_floor_percentile,
               ev_speech_db := percentile_of F present attribution_speech_percentile\<rparr>)"

definition envelope_from_samples :: "levels \<Rightarrow> string \<Rightarrow> 32 word list \<Rightarrow> nat \<Rightarrow> nat \<Rightarrow> int \<Rightarrow> speaker_envelope" where
  "envelope_from_samples F speaker samples frame hop hop_ms =
     (let env = blank_envelope speaker hop_ms in
      if length samples < frame \<or> frame = 0 \<or> hop = 0 then env
      else
        let n = 1 + (length samples - frame) div hop;
            stats = map (\<lambda>i. frame_stats F (take frame (drop (i * hop) samples))) [0..<n]
        in calibrated F (present_levels stats) (env\<lparr>ev_frame_db := map fst stats, ev_present := map snd stats\<rparr>))"

text \<open>\<open>envelopeBuilder\<close>: samples arrive in chunks; the tail that has not filled a frame is carried over.\<close>

record envelope_builder =
  eb_env :: speaker_envelope
  eb_present_db :: "64 word list"
  eb_work :: "32 word list"

definition new_envelope_builder :: "string \<Rightarrow> int \<Rightarrow> envelope_builder" where
  "new_envelope_builder speaker hop_ms = \<lparr>eb_env = blank_envelope speaker hop_ms, eb_present_db = [], eb_work = []\<rparr>"

definition add_level_frame :: "64 word \<times> bool \<Rightarrow> envelope_builder \<Rightarrow> envelope_builder" where
  "add_level_frame st b = b\<lparr>eb_env := (eb_env b)\<lparr>ev_frame_db := ev_frame_db (eb_env b) @ [fst st],
       ev_present := ev_present (eb_env b) @ [snd st]\<rparr>,
     eb_present_db := eb_present_db b @ (if snd st then [fst st] else [])\<rparr>"

text \<open>
  The loop of \<open>push\<close> with the offset moved into the list.  A hop beyond the end of the buffer makes the slice
  after the loop panic: \<open>None\<close>.
\<close>

function push_frames :: "levels \<Rightarrow> nat \<Rightarrow> nat \<Rightarrow> 32 word list \<Rightarrow> envelope_builder \<Rightarrow> envelope_builder option" where
  "push_frames F frame hop work b =
     (if hop = 0 then None
      else if frame \<le> length work then
        (if hop \<le> length work then push_frames F frame hop (drop hop work) (add_level_frame (frame_stats F (take frame work)) b) else None)
      else Some (b\<lparr>eb_work := work\<rparr>))"
  by pat_completeness auto
termination by (relation "measure (\<lambda>(F, frame, hop, work, b). length work)") auto

declare push_frames.simps [simp del]

definition builder_push :: "levels \<Rightarrow> nat \<Rightarrow> nat \<Rightarrow> 32 word list \<Rightarrow> envelope_builder \<Rightarrow> envelope_builder option" where
  "builder_push F frame hop chunk b = push_frames F frame hop (eb_work b @ chunk) b"

definition builder_finish :: "levels \<Rightarrow> envelope_builder \<Rightarrow> speaker_envelope" where
  "builder_finish F b = calibrated F (eb_present_db b) (eb_env b)"


subsection \<open>Decoding\<close>

datatype envelope_err = BadFrameHop | DecodeStart | OddPcm | ReadPcm | DecodeFailed | SlicePanic

record pcm_output =
  po_started :: bool
  po_bytes :: "byte list"
  po_broken :: bool
  po_exit_ok :: bool

definition attribution_read_chunk_bytes :: nat where "attribution_read_chunk_bytes = 16 * 1024"

fun pcm_floats :: "levels \<Rightarrow> byte list \<Rightarrow> 32 word list" where
  "pcm_floats F (lo # hi # bs) =
     f32_div F (f32_of_int F (sint (ucast lo OR push_bit 8 (ucast hi) :: 16 word))) 0x47000000 # pcm_floats F bs"
| "pcm_floats F _ = []"

function read_pcm :: "levels \<Rightarrow> nat \<Rightarrow> nat \<Rightarrow> bool \<Rightarrow> byte list \<Rightarrow> envelope_builder \<Rightarrow> (envelope_err, envelope_builder) res" where
  "read_pcm F frame hop broken bs b =
     (let raw = take attribution_read_chunk_bytes bs in
      if odd (length raw) then Inl OddPcm
      else case (if raw = [] then Some b else builder_push F frame hop (pcm_floats F raw) b) of
          None \<Rightarrow> Inl SlicePanic
        | Some b \<Rightarrow>
            if length raw < attribution_read_chunk_bytes then (if broken then Inl ReadPcm else Inr b)
            else read_pcm F frame hop broken (drop attribution_read_chunk_bytes bs) b)"
  by pat_completeness auto
termination by (relation "measure (\<lambda>(F, frame, hop, broken, bs, b). length bs)") (auto simp: attribution_read_chunk_bytes_def)

declare read_pcm.simps [simp del]

definition build_speaker_envelope_streaming ::
  "levels \<Rightarrow> string \<Rightarrow> pcm_output \<Rightarrow> nat \<Rightarrow> nat \<Rightarrow> (envelope_err, speaker_envelope) res" where
  "build_speaker_envelope_streaming F speaker out frame hop =
     (if \<not> po_started out then Inl DecodeStart
      else case read_pcm F frame hop (po_broken out) (po_bytes out) (new_envelope_builder speaker attribution_hop_ms) of
          Inl e \<Rightarrow> Inl e
        | Inr b \<Rightarrow> if \<not> po_exit_ok out then Inl DecodeFailed else Inr (builder_finish F b))"

text \<open>The streams of one participant share the quietest floor and the loudest speech level.\<close>

definition min_calibration_frames :: nat where "min_calibration_frames = 10"

definition present_frames :: "speaker_envelope \<Rightarrow> nat" where
  "present_frames env =
     (if length (ev_present env) = length (ev_frame_db env) then length (filter id (ev_present env)) else 0)"

definition pool_levels :: "levels \<Rightarrow> (string \<rightharpoonup> 64 word \<times> 64 word) \<Rightarrow> speaker_envelope \<Rightarrow> (string \<rightharpoonup> 64 word \<times> 64 word)" where
  "pool_levels F pooled env =
     (if present_frames env < min_calibration_frames then pooled
      else pooled(ev_speaker_id env \<mapsto>
        (case pooled (ev_speaker_id env) of
           None \<Rightarrow> (ev_floor_db env, ev_speech_db env)
         | Some (floor, speech) \<Rightarrow>
             (if f64_less F (ev_floor_db env) floor then ev_floor_db env else floor,
              if f64_less F speech (ev_speech_db env) then ev_speech_db env else speech))))"

definition calibrate_by_logical_speaker :: "levels \<Rightarrow> speaker_envelope list \<Rightarrow> speaker_envelope list" where
  "calibrate_by_logical_speaker F envelopes =
     (let pooled = foldl (pool_levels F) Map.empty envelopes in
      map (\<lambda>env. case pooled (ev_speaker_id env) of
          None \<Rightarrow> env
        | Some (floor, speech) \<Rightarrow> env\<lparr>ev_floor_db := floor, ev_speech_db := speech\<rparr>) envelopes)"

text \<open>\<open>decode\<close> stands for ffmpeg on a stream of the recording.\<close>

fun envelopes_of :: "levels \<Rightarrow> (audio_stream \<Rightarrow> pcm_output) \<Rightarrow> nat \<Rightarrow> nat \<Rightarrow> audio_stream list \<Rightarrow>
    (envelope_err, speaker_envelope list) res" where
  "envelopes_of F decode frame hop [] = Inr []"
| "envelopes_of F decode frame hop (s # ss) =
     (case build_speaker_envelope_streaming F (as_speaker_id s) (decode s) frame hop of
        Inl e \<Rightarrow> Inl e
      | Inr env \<Rightarrow> (case envelopes_of F decode frame hop ss of Inl e \<Rightarrow> Inl e | Inr envs \<Rightarrow> Inr (env # envs)))"

definition build_speaker_envelopes ::
  "levels \<Rightarrow> (audio_stream \<Rightarrow> pcm_output) \<Rightarrow> int \<Rightarrow> audio_stream list \<Rightarrow> (envelope_err, speaker_envelope list) res" where
  "build_speaker_envelopes F decode sample_rate streams =
     (let rate = (if sample_rate \<le> 0 then 16000 else sample_rate);
          frame = wrap64 (rate * attribution_frame_ms) sdiv 1000; hop = wrap64 (rate * attribution_hop_ms) sdiv 1000 in
      if frame \<le> 0 \<or> hop \<le> 0 then Inl BadFrameHop
      else case envelopes_of F decode (nat frame) (nat hop) streams of
          Inl e \<Rightarrow> Inl e
        | Inr envs \<Rightarrow> Inr (calibrate_by_logical_speaker F envs))"

subsection \<open>Gaps\<close>

definition above_floor :: "levels \<Rightarrow> speaker_envelope \<Rightarrow> int \<Rightarrow> int \<Rightarrow> 64 word option" where
  "above_floor F env start_ms end_ms =
     (let n = int (length (ev_frame_db env)) in
      if n = 0 \<or> ev_hop_ms env \<le> 0 then None
      else
        let lo = max 0 (wrap64 (start_ms - attribution_pad_ms) sdiv ev_hop_ms env);
            hi = min n (wrap64 (end_ms + attribution_pad_ms) sdiv ev_hop_ms env + 1) in
        if hi \<le> lo then None
        else
          let idxs = filter (\<lambda>i. length (ev_present env) \<noteq> length (ev_frame_db env) \<or> ev_present env ! i) [nat lo..<nat hi];
              sorted = sort_floats F (map (\<lambda>i. ev_frame_db env ! i) idxs) in
          if sorted = [] then None
          else
            let k = max 1 (length sorted div 2) in
            Some (f64_sub F (f64_div F (foldl (f64_add F) 0 (drop (length sorted - k) sorted)) (f64_of_int F (int k)))
                    (ev_floor_db env)))"

definition gap_step :: "levels \<Rightarrow> string \<Rightarrow> stt_word \<Rightarrow> 64 word option \<times> 64 word \<Rightarrow> speaker_envelope \<Rightarrow> 64 word option \<times> 64 word" where
  "gap_step F speaker w acc env =
     (case above_floor F env (w_start_ms w) (w_end_ms w) of
        None \<Rightarrow> acc
      | Some level \<Rightarrow>
          if ev_speaker_id env = speaker
          then (let own = (case fst acc of None \<Rightarrow> minus_inf | Some own \<Rightarrow> own) in
                (Some (if f64_less F own level then level else own), snd acc))
          else (fst acc, if f64_less F (snd acc) level then level else snd acc))"

definition attribution_gap_db :: "levels \<Rightarrow> stt_word \<Rightarrow> string \<Rightarrow> speaker_envelope list \<Rightarrow> 64 word option" where
  "attribution_gap_db F w speaker envelopes =
     (case foldl (gap_step F speaker w) (None, minus_inf) envelopes of
        (Some own, best) \<Rightarrow> if best = minus_inf then None else Some (f64_sub F best own)
      | (None, _) \<Rightarrow> None)"

definition owner_quiet_during :: "levels \<Rightarrow> stt_word \<Rightarrow> string \<Rightarrow> speaker_envelope list \<Rightarrow> bool" where
  "owner_quiet_during F w speaker envelopes =
     (let levels = List.map_filter (\<lambda>env. if ev_speaker_id env \<noteq> speaker then None
            else map_option (\<lambda>above. f64_sub F (ev_speech_db env) (f64_add F (ev_floor_db env) above))
              (above_floor F env (w_start_ms w) (w_end_ms w))) envelopes
      in levels \<noteq> [] \<and> list_all (\<lambda>shortfall. \<not> f64_less F shortfall quiet_owner_shortfall_db) levels)"


subsection \<open>The crosstalk threshold of a meeting\<close>

definition min_db :: "64 word" where "min_db = 0x4020000000000000"
definition min_mass :: "64 word" where "min_mass = 0x3F747AE147AE147B"
definition max_upper_spread_db :: "64 word" where "max_upper_spread_db = 0x4014000000000000"
definition min_separation_db :: "64 word" where "min_separation_db = 0x4028000000000000"
definition min_upper_count :: nat where "min_upper_count = 5"
definition min_sample_for_split :: nat where "min_sample_for_split = 50"
definition valley_half_width_db :: "64 word" where "valley_half_width_db = 0x4008000000000000"
definition valley_max_share :: "64 word" where "valley_max_share = 0x3FB999999999999A"
definition outlier_trim_percentile :: "64 word" where "outlier_trim_percentile = 0x4058C00000000000"
definition min_range_db :: "64 word" where "min_range_db = 0x3EB0C6F7A0B5ED8D"

definition float_len :: "levels \<Rightarrow> 'a list \<Rightarrow> 64 word" where
  "float_len F xs = f64_of_int F (int (length xs))"

definition nearer_second :: "levels \<Rightarrow> 64 word \<times> 64 word \<Rightarrow> 64 word \<Rightarrow> bool" where
  "nearer_second F centres g \<longleftrightarrow> f64_less F (f64_abs F (f64_sub F g (snd centres))) (f64_abs F (f64_sub F g (fst centres)))"

text \<open>One round of two-means: the mean of each cluster, in order.\<close>

definition centre_of :: "levels \<Rightarrow> 64 word \<Rightarrow> 64 word list \<Rightarrow> 64 word" where
  "centre_of F old members =
     (let total = foldl (f64_add F) 0 members; count = foldl (\<lambda>n _. f64_add F n fl_one) 0 members in
      if f64_less F 0 count then f64_div F total count else old)"

definition two_means_round :: "levels \<Rightarrow> 64 word list \<Rightarrow> 64 word \<times> 64 word \<Rightarrow> 64 word \<times> 64 word" where
  "two_means_round F gaps centres =
     (let c0 = centre_of F (fst centres) (filter (\<lambda>g. \<not> nearer_second F centres g) gaps);
          c1 = centre_of F (snd centres) (filter (nearer_second F centres) gaps) in
      if f64_less F c1 c0 then (c1, c0) else (c0, c1))"

definition std_dev :: "levels \<Rightarrow> 64 word list \<Rightarrow> 64 word" where
  "std_dev F values =
     (if length values < 2 then 0
      else
        let mean = f64_div F (foldl (f64_add F) 0 values) (float_len F values);
            total = foldl (\<lambda>sum v. f64_muladd F sum (f64_sub F v mean) (f64_sub F v mean)) 0 values
        in f64_sqrt F (f64_div F total (float_len F values)))"

definition trim_outliers :: "levels \<Rightarrow> 64 word list \<Rightarrow> 64 word list" where
  "trim_outliers F gaps = filter (\<lambda>g. f64_le F g (percentile_of F gaps outlier_trim_percentile)) gaps"

definition estimate_crosstalk_threshold_db :: "levels \<Rightarrow> 64 word list \<Rightarrow> 64 word option" where
  "estimate_crosstalk_threshold_db F gaps =
     (let gaps = trim_outliers F gaps; high = filter (f64_le F min_db) gaps in
      if length gaps < min_sample_for_split then None
      else if length high < min_upper_count \<or> f64_less F (f64_div F (float_len F high) (float_len F gaps)) min_mass then None
      else
        let lo = foldl (f64_min F) (hd gaps) gaps; hi = foldl (f64_max F) (hd gaps) gaps in
        if f64_less F (f64_sub F hi lo) min_range_db then None
        else
          let centres = (two_means_round F gaps ^^ 50) (lo, hi);
              upper = filter (nearer_second F centres) gaps in
          if length upper < min_upper_count \<or> length upper = length gaps then None
          else if f64_less F (f64_div F (float_len F upper) (float_len F gaps)) min_mass then None
          else if f64_less F (f64_sub F (snd centres) (fst centres)) min_separation_db then None
          else if f64_less F max_upper_spread_db (std_dev F upper) then None
          else
            let threshold = f64_max F (f64_div F (f64_add F (fst centres) (snd centres)) fl_two) min_db;
                valley = filter (\<lambda>g. f64_le F (f64_abs F (f64_sub F g threshold)) valley_half_width_db) gaps in
            if f64_less F (f64_mul F valley_max_share (float_len F upper)) (float_len F valley) then None
            else if length (filter (f64_le F threshold) gaps) < min_upper_count then None
            else Some threshold)"

subsection \<open>Annotating a transcript\<close>

record attribution_result =
  ar_words_measured :: nat
  ar_threshold_db :: "64 word"
  ar_threshold_found :: bool
  ar_flagged :: nat
  ar_dropped :: nat

definition measure_word :: "levels \<Rightarrow> speaker_envelope list \<Rightarrow> string \<Rightarrow> stt_word \<Rightarrow> stt_word" where
  "measure_word F envelopes speaker w =
     (case attribution_gap_db F w speaker envelopes of
        None \<Rightarrow> w
      | Some gap \<Rightarrow> w\<lparr>w_gap_db := gap, w_has_gap := True\<rparr>)"

definition measure_segment :: "levels \<Rightarrow> speaker_envelope list \<Rightarrow> segment \<Rightarrow> segment" where
  "measure_segment F envelopes s = s\<lparr>sg_words := map (measure_word F envelopes (sg_speaker s)) (sg_words s)\<rparr>"

text \<open>The words that get a gap with their segment's speaker, and the gaps of those whose owner was quiet.\<close>

definition measured_words :: "levels \<Rightarrow> speaker_envelope list \<Rightarrow> segment list \<Rightarrow> (string \<times> stt_word \<times> 64 word) list" where
  "measured_words F envelopes segs = concat (map (\<lambda>s. List.map_filter (\<lambda>w.
     map_option (\<lambda>gap. (sg_speaker s, w, gap)) (attribution_gap_db F w (sg_speaker s) envelopes)) (sg_words s)) segs)"

definition quiet_gaps :: "levels \<Rightarrow> speaker_envelope list \<Rightarrow> segment list \<Rightarrow> 64 word list" where
  "quiet_gaps F envelopes segs = map (snd \<circ> snd)
     (filter (\<lambda>(speaker, w, gap). owner_quiet_during F w speaker envelopes) (measured_words F envelopes segs))"

definition is_crosstalk :: "levels \<Rightarrow> speaker_envelope list \<Rightarrow> 64 word \<Rightarrow> string \<Rightarrow> stt_word \<Rightarrow> bool" where
  "is_crosstalk F envelopes threshold speaker w \<longleftrightarrow>
     w_has_gap w \<and> f64_le F threshold (w_gap_db w) \<and> owner_quiet_during F w speaker envelopes"

fun join_word_text :: "stt_word list \<Rightarrow> string" where
  "join_word_text [] = []"
| "join_word_text (w # ws) = w_text w @ concat (map (\<lambda>v. CHR '' '' # w_text v) ws)"

text \<open>\<open>Text\<close> and bounds of a segment from the words it keeps; running minimum and maximum.\<close>

definition rebuild_segment :: "stt_word list \<Rightarrow> segment \<Rightarrow> segment" where
  "rebuild_segment kept s =
     s\<lparr>sg_start_ms := foldl (\<lambda>m w. if w_start_ms w < m then w_start_ms w else m) (w_start_ms (hd kept)) (tl kept),
       sg_end_ms := foldl (\<lambda>m w. if m < w_end_ms w then w_end_ms w else m) (w_end_ms (hd kept)) (tl kept),
       sg_text := join_word_text kept\<rparr>"


definition flag_words :: "levels \<Rightarrow> speaker_envelope list \<Rightarrow> 64 word \<Rightarrow> bool \<Rightarrow> segment \<Rightarrow> stt_word list" where
  "flag_words F envelopes threshold drop_them s =
     List.map_filter (\<lambda>w. if is_crosstalk F envelopes threshold (sg_speaker s) w
         then (if drop_them then None else Some (w\<lparr>w_low_confidence := True\<rparr>)) else Some w) (sg_words s)"

definition flag_segment :: "levels \<Rightarrow> speaker_envelope list \<Rightarrow> 64 word \<Rightarrow> bool \<Rightarrow> segment \<Rightarrow> segment option" where
  "flag_segment F envelopes threshold drop_them s =
     (if sg_words s = [] then Some s
      else
        let kept = flag_words F envelopes threshold drop_them s in
        if kept = [] then None
        else if drop_them then Some (rebuild_segment kept (s\<lparr>sg_words := kept\<rparr>))
        else Some (s\<lparr>sg_words := kept\<rparr>))"

definition count_flagged :: "levels \<Rightarrow> speaker_envelope list \<Rightarrow> 64 word \<Rightarrow> segment list \<Rightarrow> nat" where
  "count_flagged F envelopes threshold segs =
     sum_list (map (\<lambda>s. length (filter (is_crosstalk F envelopes threshold (sg_speaker s)) (sg_words s))) segs)"

definition annotate_attribution :: "levels \<Rightarrow> segment list \<Rightarrow> speaker_envelope list \<Rightarrow> bool \<Rightarrow> segment list \<times> attribution_result" where
  "annotate_attribution F segments envelopes drop_them =
     (if segments = [] \<or> envelopes = []
      then (segments, \<lparr>ar_words_measured = 0, ar_threshold_db = 0, ar_threshold_found = False, ar_flagged = 0, ar_dropped = 0\<rparr>)
      else
        let measured = length (measured_words F envelopes segments);
            gaps = quiet_gaps F envelopes segments;
            segs = map (measure_segment F envelopes) segments;
            res = \<lparr>ar_words_measured = measured, ar_threshold_db = 0, ar_threshold_found = False, ar_flagged = 0, ar_dropped = 0\<rparr> in
        if measured = 0 then (segs, res)
        else case estimate_crosstalk_threshold_db F gaps of
            None \<Rightarrow> (segs, res)
          | Some threshold \<Rightarrow>
              let n = count_flagged F envelopes threshold segs in
              (List.map_filter (flag_segment F envelopes threshold drop_them) segs,
               res\<lparr>ar_threshold_db := threshold, ar_threshold_found := True, ar_flagged := n,
                   ar_dropped := (if drop_them then n else 0)\<rparr>))"

definition trusted_segment :: "segment \<Rightarrow> segment option" where
  "trusted_segment s =
     (if sg_words s = [] then Some s
      else
        let kept = filter (\<lambda>w. \<not> w_low_confidence w) (sg_words s) in
        if kept = [] then None
        else Some ((if length kept \<noteq> length (sg_words s) then rebuild_segment kept s else s)\<lparr>sg_words := kept\<rparr>))"

definition without_low_confidence_words :: "segment list \<Rightarrow> segment list \<times> nat" where
  "without_low_confidence_words segments =
     (List.map_filter trusted_segment segments,
      sum_list (map (\<lambda>s. length (filter w_low_confidence (sg_words s))) segments))"

subsection \<open>Streaming\<close>

text \<open>The frames of a buffer, and the tail that has not filled one.\<close>

function frames_of :: "nat \<Rightarrow> nat \<Rightarrow> 'a list \<Rightarrow> 'a list list" where
  "frames_of frame hop xs =
     (if hop = 0 \<or> frame < hop then [] else if frame \<le> length xs then take frame xs # frames_of frame hop (drop hop xs) else [])"
  by pat_completeness auto
termination by (relation "measure (\<lambda>(frame, hop, xs). length xs)") auto

function tail_of :: "nat \<Rightarrow> nat \<Rightarrow> 'a list \<Rightarrow> 'a list" where
  "tail_of frame hop xs =
     (if hop = 0 \<or> frame < hop then [] else if frame \<le> length xs then tail_of frame hop (drop hop xs) else xs)"
  by pat_completeness auto
termination by (relation "measure (\<lambda>(frame, hop, xs). length xs)") auto

declare frames_of.simps [simp del] tail_of.simps [simp del]

definition framing :: "nat \<Rightarrow> nat \<Rightarrow> bool" where
  "framing frame hop \<longleftrightarrow> 0 < hop \<and> hop \<le> frame"

lemma frames_step:
  assumes "framing frame hop"
  shows "frame \<le> length xs \<Longrightarrow> frames_of frame hop xs = take frame xs # frames_of frame hop (drop hop xs)"
    and "frame \<le> length xs \<Longrightarrow> tail_of frame hop xs = tail_of frame hop (drop hop xs)"
    and "\<not> frame \<le> length xs \<Longrightarrow> frames_of frame hop xs = [] \<and> tail_of frame hop xs = xs"
  using assms by (subst frames_of.simps tail_of.simps; simp add: framing_def tail_of.simps)+

lemma frames_append:
  assumes "framing frame hop"
  shows "frames_of frame hop (xs @ ys) = frames_of frame hop xs @ frames_of frame hop (tail_of frame hop xs @ ys) \<and>
    tail_of frame hop (xs @ ys) = tail_of frame hop (tail_of frame hop xs @ ys)"
proof (induction "length xs" arbitrary: xs rule: less_induct)
  case less
  show ?case
  proof (cases "frame \<le> length xs")
    case True
    have "length (drop hop xs) < length xs" "drop hop (xs @ ys) = drop hop xs @ ys" "take frame (xs @ ys) = take frame xs"
      using True assms by (auto simp: framing_def)
    then show ?thesis using less.hyps[of "drop hop xs"] True by (simp add: frames_step(1,2)[OF assms])
  qed (simp add: frames_step[OF assms])
qed

lemma frames_nth:
  assumes "framing frame hop"
  shows "frames_of frame hop xs = map (\<lambda>i. take frame (drop (i * hop) xs))
    [0..<if length xs < frame then 0 else 1 + (length xs - frame) div hop]"
proof (induction "length xs" arbitrary: xs rule: less_induct)
  case less
  show ?case
  proof (cases "frame \<le> length xs")
    case True
    let ?n = "\<lambda>m. if m < frame then 0 else 1 + (m - frame) div hop"
    have h: "0 < hop" "hop \<le> length xs" using True assms by (auto simp: framing_def)
    have n: "?n (length xs) = Suc (?n (length xs - hop))"
    proof (cases "length xs - hop < frame")
      case True
      then have "(length xs - frame) div hop = 0" using h \<open>frame \<le> length xs\<close> by (intro div_less) linarith
      then show ?thesis using True \<open>frame \<le> length xs\<close> by simp
    next
      case False
      then have "length xs - frame = (length xs - hop - frame) + hop" using h by linarith
      then have "(length xs - frame) div hop = Suc ((length xs - hop - frame) div hop)" using h by (metis Suc_eq_plus1 div_add_self2 less_not_refl)
      then show ?thesis using False \<open>frame \<le> length xs\<close> by simp
    qed
    have d: "drop (i * hop) (drop hop xs) = drop (Suc i * hop) xs" for i by (simp add: add.commute)
    have "frames_of frame hop (drop hop xs) = map (\<lambda>i. take frame (drop (Suc i * hop) xs)) [0..<?n (length xs - hop)]"
      using less.hyps[of "drop hop xs"] h unfolding d by simp
    then show ?thesis unfolding frames_step(1)[OF assms True] n upt_rec[of 0 "Suc _"]
      by (simp add: map_Suc_upt[symmetric] del: upt_Suc)
  qed (simp add: frames_step[OF assms])
qed

lemma push_frames_eq:
  assumes "framing frame hop"
  shows "push_frames F frame hop work b =
    Some ((foldl (\<lambda>b st. add_level_frame st b) b (map (frame_stats F) (frames_of frame hop work)))\<lparr>eb_work := tail_of frame hop work\<rparr>)"
proof (induction "length work" arbitrary: work b rule: less_induct)
  case less
  show ?case
  proof (cases "frame \<le> length work")
    case True
    have "hop \<noteq> 0" "hop \<le> length work" "length (drop hop work) < length work" using True assms by (auto simp: framing_def)
    then show ?thesis using less.hyps[of "drop hop work"] True
      by (subst push_frames.simps) (simp add: frames_step(1,2)[OF assms])
  next
    case False
    then show ?thesis using frames_step(3)[OF assms False] assms by (subst push_frames.simps) (simp add: framing_def)
  qed
qed

lemma add_frames_eq:
  "foldl (\<lambda>b st. add_level_frame st b) b stats = b\<lparr>eb_env := (eb_env b)\<lparr>ev_frame_db := ev_frame_db (eb_env b) @ map fst stats,
      ev_present := ev_present (eb_env b) @ map snd stats\<rparr>, eb_present_db := eb_present_db b @ present_levels stats\<rparr>"
proof (induction stats arbitrary: b)
  case Nil
  then show ?case by (cases b) (simp add: present_levels_def)
qed (simp add: add_level_frame_def present_levels_def)

text \<open>A builder after any samples: the frames of all of them, and their tail.\<close>

definition builder_after :: "levels \<Rightarrow> nat \<Rightarrow> nat \<Rightarrow> string \<Rightarrow> int \<Rightarrow> 32 word list \<Rightarrow> envelope_builder" where
  "builder_after F frame hop speaker hop_ms xs =
     (let stats = map (frame_stats F) (frames_of frame hop xs) in
      \<lparr>eb_env = (blank_envelope speaker hop_ms)\<lparr>ev_frame_db := map fst stats, ev_present := map snd stats\<rparr>,
       eb_present_db = present_levels stats, eb_work = tail_of frame hop xs\<rparr>)"

lemma builder_after_Nil:
  assumes "framing frame hop"
  shows "builder_after F frame hop speaker hop_ms [] = new_envelope_builder speaker hop_ms"
proof -
  have "\<not> frame \<le> length ([] :: 32 word list)" using assms by (simp add: framing_def)
  then show ?thesis using frames_step(3)[OF assms, of "[] :: 32 word list"]
    by (simp add: builder_after_def new_envelope_builder_def blank_envelope_def present_levels_def)
qed

lemma builder_push_after:
  assumes "framing frame hop"
  shows "builder_push F frame hop chunk (builder_after F frame hop speaker hop_ms xs) =
    Some (builder_after F frame hop speaker hop_ms (xs @ chunk))"
  using frames_append[OF assms, of xs chunk]
  by (simp add: builder_push_def push_frames_eq[OF assms] add_frames_eq builder_after_def present_levels_def Let_def)

lemma builder_finish_after:
  assumes "framing frame hop"
  shows "builder_finish F (builder_after F frame hop speaker hop_ms xs) = envelope_from_samples F speaker xs frame hop hop_ms"
proof -
  have f: "frame \<noteq> 0" "hop \<noteq> 0" using assms by (auto simp: framing_def)
  show ?thesis
  proof (cases "length xs < frame")
    case True
    then have "frames_of frame hop xs = []" using frames_step(3)[OF assms, of xs] by simp
    then show ?thesis using True
      by (simp add: builder_finish_def builder_after_def envelope_from_samples_def calibrated_def present_levels_def blank_envelope_def)
  next
    case False
    then show ?thesis using f
      by (simp add: builder_finish_def builder_after_def envelope_from_samples_def frames_nth[OF assms] Let_def comp_def)
  qed
qed

lemma pcm_floats_append: "even (length xs) \<Longrightarrow> pcm_floats F (xs @ ys) = pcm_floats F xs @ pcm_floats F ys"
  by (induction xs rule: pcm_floats.induct) simp_all

lemma read_pcm_eq:
  assumes "framing frame hop" and "even (length done)"
  shows "read_pcm F frame hop broken bs (builder_after F frame hop speaker hop_ms (pcm_floats F done)) =
    (if odd (length bs) then Inl OddPcm else if broken then Inl ReadPcm
     else Inr (builder_after F frame hop speaker hop_ms (pcm_floats F (done @ bs))))"
  using assms(2)
proof (induction "length bs" arbitrary: bs "done" rule: less_induct)
  case less
  let ?n = attribution_read_chunk_bytes
  have n: "even ?n" "0 < ?n" by (simp_all add: attribution_read_chunk_bytes_def)
  have push: "(if raw = [] then Some b else builder_push F frame hop (pcm_floats F raw) b) =
      Some (builder_after F frame hop speaker hop_ms (pcm_floats F (done @ raw)))"
    if "b = builder_after F frame hop speaker hop_ms (pcm_floats F done)" for raw b
    using that less.prems by (simp add: builder_push_after[OF assms(1)] pcm_floats_append)
  show ?case
  proof (cases "length bs < ?n")
    case True
    then show ?thesis using push by (subst read_pcm.simps) (simp add: Let_def)
  next
    case False
    then have l: "length (take ?n bs) = ?n" "length (drop ?n bs) < length bs" using n(2) by auto
    have "odd (length (drop ?n bs)) \<longleftrightarrow> odd (length bs)" using False n(1) by (simp add: even_diff_nat)
    moreover have "even (length (done @ take ?n bs))" using less.prems l(1) n(1) by simp
    moreover have "done @ bs = (done @ take ?n bs) @ drop ?n bs" by simp
    ultimately show ?thesis using less.hyps[OF l(2), of "done @ take ?n bs"] push l(1) n(1)
      by (subst read_pcm.simps) (simp only: Let_def option.case if_False l HOL.simp_thms if_True nat_less_le)
  qed
qed

lemma streamed_envelope:
  assumes "framing frame hop"
  shows "build_speaker_envelope_streaming F speaker out frame hop =
    (if \<not> po_started out then Inl DecodeStart else if odd (length (po_bytes out)) then Inl OddPcm
     else if po_broken out then Inl ReadPcm else if \<not> po_exit_ok out then Inl DecodeFailed
     else Inr (envelope_from_samples F speaker (pcm_floats F (po_bytes out)) frame hop attribution_hop_ms))"
  using read_pcm_eq[OF assms, of "[]" F "po_broken out" "po_bytes out" speaker attribution_hop_ms]
  by (simp add: build_speaker_envelope_streaming_def builder_after_Nil[OF assms] builder_finish_after[OF assms])

subsection \<open>Marking and dropping\<close>

lemma words_to_text_Cons: "words_to_text (w # ws) = w_text w @ (if ws = [] then [] else CHR '' '' # words_to_text ws)"
  by (cases ws) (simp_all add: words_to_text_def)

lemma join_word_text_eq: "join_word_text ws = words_to_text ws"
proof -
  have "concat (map (\<lambda>v. CHR '' '' # w_text v) ws) = (if ws = [] then [] else CHR '' '' # words_to_text ws)" for ws
    by (induction ws) (simp_all add: words_to_text_Cons)
  then show ?thesis by (cases ws) (simp_all add: words_to_text_Cons, simp add: words_to_text_def)
qed

lemma running_min: "foldl (\<lambda>m w. if f w < m then f w else m) a ws = Min (insert a (f ` set ws))" for f :: "'a \<Rightarrow> int"
proof (induction ws arbitrary: a)
  case (Cons w ws)
  have "(if f w < a then f w else a) = min a (f w)" by (simp add: min_def)
  moreover have "Min (insert (min a (f w)) (f ` set ws)) = Min (insert a (insert (f w) (f ` set ws)))"
    by (cases "ws = []") (simp_all add: min.assoc)
  ultimately show ?case using Cons by simp
qed simp

lemma running_max: "foldl (\<lambda>m w. if m < f w then f w else m) a ws = Max (insert a (f ` set ws))" for f :: "'a \<Rightarrow> int"
proof (induction ws arbitrary: a)
  case (Cons w ws)
  have "(if a < f w then f w else a) = max a (f w)" by (simp add: max_def)
  moreover have "Max (insert (max a (f w)) (f ` set ws)) = Max (insert a (insert (f w) (f ` set ws)))"
    by (cases "ws = []") (simp_all add: max.assoc)
  ultimately show ?case using Cons by simp
qed simp

lemma rebuild_segment_eq:
  assumes "kept \<noteq> []"
  shows "rebuild_segment kept s = s\<lparr>sg_start_ms := earliest_start kept, sg_end_ms := latest_end kept, sg_text := words_to_text kept\<rparr>"
proof -
  have "set kept = insert (hd kept) (set (tl kept))" using assms by (metis list.exhaust_sel list.simps(15))
  then show ?thesis
    by (simp add: rebuild_segment_def join_word_text_eq running_min running_max earliest_start_def latest_end_def)
qed

lemma rebuild_tight: "tight s \<Longrightarrow> rebuild_segment (sg_words s) s = s"
  by (cases s) (auto simp: tight_def rebuild_segment_eq)

text \<open>What a measurement leaves alone.\<close>

definition same_word :: "stt_word \<Rightarrow> stt_word \<Rightarrow> bool" where
  "same_word w w' \<longleftrightarrow> w_text w = w_text w' \<and> w_start_ms w = w_start_ms w' \<and> w_end_ms w = w_end_ms w' \<and> w_extent_cap w = w_extent_cap w'"

definition same_segment :: "segment \<Rightarrow> segment \<Rightarrow> bool" where
  "same_segment s s' \<longleftrightarrow> sg_speaker s = sg_speaker s' \<and> sg_start_ms s = sg_start_ms s' \<and> sg_end_ms s = sg_end_ms s' \<and>
     sg_text s = sg_text s' \<and> list_all2 same_word (sg_words s) (sg_words s')"

lemma same_word_times: "list_all2 same_word ws ws' \<Longrightarrow> map w_start_ms ws = map w_start_ms ws' \<and> map w_end_ms ws = map w_end_ms ws' \<and>
    map w_text ws = map w_text ws'"
  by (induction rule: list_all2_induct) (auto simp: same_word_def)

lemma same_segment_tight: "same_segment s s' \<Longrightarrow> tight s \<Longrightarrow> tight s'"
  using same_word_times[of "sg_words s" "sg_words s'"]
  by (auto simp: same_segment_def tight_def words_to_text_def earliest_start_def latest_end_def)

lemma measure_word_same: "same_word w (measure_word F envs spk w)" "w_low_confidence (measure_word F envs spk w) = w_low_confidence w"
  by (simp_all add: measure_word_def same_word_def split: option.split)

lemma measure_segment_same: "same_segment s (measure_segment F envs s)"
  by (simp add: same_segment_def measure_segment_def list_all2_map2 list_all2_same measure_word_same)

lemma times_matter:
  assumes "same_word w w'"
  shows "owner_quiet_during F w spk envs = owner_quiet_during F w' spk envs" "attribution_gap_db F w spk envs = attribution_gap_db F w' spk envs"
proof -
  have e: "w_start_ms w = w_start_ms w'" "w_end_ms w = w_end_ms w'" using assms by (simp_all add: same_word_def)
  have "gap_step F spk w = gap_step F spk w'" using assms by (intro ext) (simp add: gap_step_def same_word_def)
  then show "attribution_gap_db F w spk envs = attribution_gap_db F w' spk envs" by (simp add: attribution_gap_db_def)
  show "owner_quiet_during F w spk envs = owner_quiet_during F w' spk envs"
    using e by (simp only: owner_quiet_during_def)
qed

definition marked :: "levels \<Rightarrow> speaker_envelope list \<Rightarrow> 64 word \<Rightarrow> string \<Rightarrow> stt_word \<Rightarrow> stt_word" where
  "marked F envs threshold spk w = (if is_crosstalk F envs threshold spk w then w\<lparr>w_low_confidence := True\<rparr> else w)"

lemma flag_words_keep: "flag_words F envs t False s = map (marked F envs t (sg_speaker s)) (sg_words s)"
proof -
  have "List.map_filter (\<lambda>w. if P w then Some (f w) else Some w) ws = map (\<lambda>w. if P w then f w else w) ws" for P f and ws :: "stt_word list"
    by (induction ws) (simp_all add: map_filter_def)
  then show ?thesis by (simp add: flag_words_def marked_def if_distrib cong: if_cong)
qed

lemma flag_words_drop: "flag_words F envs t True s = filter (\<lambda>w. \<not> is_crosstalk F envs t (sg_speaker s) w) (sg_words s)"
proof -
  have "List.map_filter (\<lambda>w. if P w then None else Some w) ws = filter (\<lambda>w. \<not> P w) ws" for P and ws :: "stt_word list"
    by (induction ws) (simp_all add: map_filter_def)
  then show ?thesis unfolding flag_words_def if_True .
qed

lemma flag_segment_keep: "flag_segment F envs t False s = Some (s\<lparr>sg_words := map (marked F envs t (sg_speaker s)) (sg_words s)\<rparr>)"
  by (simp add: flag_segment_def flag_words_keep)

lemma map_filter_Some: "(\<And>x. x \<in> set xs \<Longrightarrow> f x = Some (g x)) \<Longrightarrow> List.map_filter f xs = map g xs"
  by (induction xs) (simp_all add: map_filter_def)

lemma trusted_marked:
  assumes "sg_words s = [] \<or> tight s" and "list_all (\<lambda>w. \<not> w_low_confidence w) (sg_words s)"
  shows "trusted_segment (s\<lparr>sg_words := map (marked F envs t (sg_speaker s)) (sg_words s)\<rparr>) = flag_segment F envs t True s"
    and "length (filter w_low_confidence (map (marked F envs t (sg_speaker s)) (sg_words s))) =
      length (filter (is_crosstalk F envs t (sg_speaker s)) (sg_words s))"
proof -
  let ?m = "marked F envs t (sg_speaker s)" and ?P = "is_crosstalk F envs t (sg_speaker s)"
  have low: "w_low_confidence (?m w) \<longleftrightarrow> ?P w" if "w \<in> set (sg_words s)" for w
    using assms(2) that by (auto simp: marked_def list_all_iff)
  show "length (filter w_low_confidence (map ?m (sg_words s))) = length (filter ?P (sg_words s))"
    using low by (auto simp: filter_map comp_def cong: filter_cong)
  have id: "map ?m (filter (\<lambda>w. \<not> ?P w) ws) = filter (\<lambda>w. \<not> ?P w) ws" for ws by (induction ws) (auto simp: marked_def)
  have k: "filter (\<lambda>w. \<not> w_low_confidence w) (map ?m (sg_words s)) = filter (\<lambda>w. \<not> ?P w) (sg_words s)"
    using low id[of "sg_words s"] by (auto simp: filter_map comp_def cong: filter_cong)
  let ?k = "filter (\<lambda>w. \<not> ?P w) (sg_words s)"
  show "trusted_segment (s\<lparr>sg_words := map ?m (sg_words s)\<rparr>) = flag_segment F envs t True s"
  proof (cases "?k = [] \<or> sg_words s = []")
    case True
    then show ?thesis by (auto simp: trusted_segment_def flag_segment_def flag_words_drop k)
  next
    case False
    show ?thesis
    proof (cases "length ?k = length (sg_words s)")
      case True
      then have all: "?k = sg_words s" by (metis length_filter_less linorder_neq_iff filter_True)
      have "tight s" using assms(1) False by simp
      then have "rebuild_segment ?k (s\<lparr>sg_words := ?k\<rparr>) = s" unfolding all using rebuild_tight[of s] by simp
      moreover have "s\<lparr>sg_words := ?k\<rparr> = s" unfolding all by simp
      ultimately show ?thesis using False True by (simp add: trusted_segment_def flag_segment_def flag_words_drop k)
    next
      case False': False
      then show ?thesis using False
        by (simp add: trusted_segment_def flag_segment_def flag_words_drop k rebuild_segment_eq Let_def)
    qed
  qed
qed

lemma map_filter_comp: "List.map_filter f (map g xs) = List.map_filter (f \<circ> g) xs"
  by (induction xs) (simp_all add: map_filter_def)

definition unflagged :: "segment list \<Rightarrow> bool" where
  "unflagged segs \<longleftrightarrow> list_all (\<lambda>s. list_all (\<lambda>w. \<not> w_low_confidence w) (sg_words s)) segs"

lemma trusted_unflagged:
  assumes "unflagged segs"
  shows "without_low_confidence_words segs = (segs, 0)"
proof -
  have e: "filter w_low_confidence (sg_words s) = []" "filter (\<lambda>w. \<not> w_low_confidence w) (sg_words s) = sg_words s" if "s \<in> set segs" for s
    using assms that by (auto simp: unflagged_def list_all_iff filter_empty_conv filter_id_conv)
  have "trusted_segment s = Some s" if "s \<in> set segs" for s using e[OF that] by (simp add: trusted_segment_def)
  then have "List.map_filter trusted_segment segs = map (\<lambda>s. s) segs" by (rule map_filter_Some)
  moreover have "map (\<lambda>s. length (filter w_low_confidence (sg_words s))) segs = map (\<lambda>_. 0) segs" using e by simp
  ultimately show ?thesis by (simp only: without_low_confidence_words_def) (simp add: sum_list_triv)
qed

lemma unflagged_measured: "unflagged segs \<Longrightarrow> unflagged (map (measure_segment F envs) segs)"
  by (simp add: unflagged_def list_all_iff measure_segment_def measure_word_same)

lemma dropped_is_filtered:
  assumes "list_all (\<lambda>s. sg_words s = [] \<or> tight s) segs" and "unflagged segs"
  shows "without_low_confidence_words (fst (annotate_attribution F segs envs False)) =
    (fst (annotate_attribution F segs envs True), ar_dropped (snd (annotate_attribution F segs envs True)))"
proof (cases "segs = [] \<or> envs = [] \<or> length (measured_words F envs segs) = 0 \<or>
    estimate_crosstalk_threshold_db F (quiet_gaps F envs segs) = None")
  case True
  then show ?thesis using trusted_unflagged[OF assms(2)] trusted_unflagged[OF unflagged_measured[OF assms(2), of F envs]]
    by (auto simp: annotate_attribution_def Let_def)
next
  case False
  then obtain t where t: "estimate_crosstalk_threshold_db F (quiet_gaps F envs segs) = Some t" by auto
  let ?segs = "map (measure_segment F envs) segs"
  have ok: "(sg_words s = [] \<or> tight s) \<and> list_all (\<lambda>w. \<not> w_low_confidence w) (sg_words s)" if "s \<in> set ?segs" for s
  proof -
    from that obtain s0 where s0: "s0 \<in> set segs" "s = measure_segment F envs s0" by auto
    have "sg_words s0 = [] \<Longrightarrow> sg_words s = []" using s0 by (simp add: measure_segment_def)
    moreover have "sg_words s0 = [] \<or> tight s0" using assms(1) s0 by (auto simp: list_all_iff)
    ultimately show ?thesis
      using same_segment_tight[OF measure_segment_same[of s0 F envs]] unflagged_measured[OF assms(2), of F envs] that s0
      by (auto simp: unflagged_def list_all_iff)
  qed
  let ?mark = "\<lambda>s. s\<lparr>sg_words := map (marked F envs t (sg_speaker s)) (sg_words s)\<rparr>"
  have keep: "fst (annotate_attribution F segs envs False) = map ?mark ?segs"
    using False t map_filter_Some[of ?segs "flag_segment F envs t False" ?mark, OF flag_segment_keep] by (simp add: annotate_attribution_def Let_def)
  have "List.map_filter trusted_segment (map ?mark ?segs) = List.map_filter (flag_segment F envs t True) ?segs"
    unfolding map_filter_comp[of trusted_segment ?mark] by (rule map_filter_same) (use ok trusted_marked(1) in auto)
  moreover have "map (\<lambda>s. length (filter w_low_confidence (sg_words s))) (map ?mark ?segs) =
      map (\<lambda>s. length (filter (is_crosstalk F envs t (sg_speaker s)) (sg_words s))) ?segs"
    unfolding map_map by (rule map_cong[OF refl]) (use ok trusted_marked(2) in \<open>auto simp: comp_def\<close>)
  moreover have "annotate_attribution F segs envs True = (List.map_filter (flag_segment F envs t True) ?segs,
      \<lparr>ar_words_measured = length (measured_words F envs segs), ar_threshold_db = t, ar_threshold_found = True,
        ar_flagged = count_flagged F envs t ?segs, ar_dropped = count_flagged F envs t ?segs\<rparr>)"
    using False t by (simp add: annotate_attribution_def Let_def)
  ultimately show ?thesis unfolding keep without_low_confidence_words_def count_flagged_def
    by (simp only: fst_conv snd_conv attribution_result.simps)
qed

text \<open>Five quiet words at least lie at or above an estimated threshold.\<close>

lemma threshold_count:
  assumes "estimate_crosstalk_threshold_db F gaps = Some t"
  shows "5 \<le> length (filter (f64_le F t) gaps)"
proof -
  have "5 \<le> length (filter (f64_le F t) (trim_outliers F gaps))"
    using assms unfolding estimate_crosstalk_threshold_db_def Let_def min_upper_count_def
    by (auto split: if_splits)
  also have "\<dots> \<le> length (filter (f64_le F t) gaps)"
  proof -
    have "length (filter P (filter Q xs)) \<le> length (filter P xs)" for P Q and xs :: "64 word list" by (induction xs) auto
    then show ?thesis unfolding trim_outliers_def .
  qed
  finally show ?thesis .
qed


lemma quiet_gaps_flagged:
  "length (filter (f64_le F t) (quiet_gaps F envs segs)) \<le> count_flagged F envs t (map (measure_segment F envs) segs)"
proof -
  have words: "length (filter (f64_le F t) (map (snd \<circ> snd) (filter (\<lambda>(spk, w, gap). owner_quiet_during F w spk envs)
      (List.map_filter (\<lambda>w. map_option (\<lambda>gap. (spk, w, gap)) (attribution_gap_db F w spk envs)) ws)))) \<le>
    length (filter (is_crosstalk F envs t spk) (map (measure_word F envs spk) ws))" for spk ws
  proof (induction ws)
    case (Cons w ws)
    show ?case
    proof (cases "attribution_gap_db F w spk envs")
      case (Some gap)
      have "is_crosstalk F envs t spk (measure_word F envs spk w) \<longleftrightarrow> f64_le F t gap \<and> owner_quiet_during F w spk envs"
        using times_matter(1)[OF measure_word_same(1)[of w F envs spk], of F spk envs] by (simp add: is_crosstalk_def measure_word_def Some)
      then show ?thesis using Cons.IH Some by (simp add: map_filter_def)
    qed (use Cons.IH in \<open>simp add: map_filter_def\<close>)
  qed (simp add: map_filter_def)
  show ?thesis
  proof (induction segs)
    case (Cons s segs)
    have "quiet_gaps F envs (s # segs) = map (snd \<circ> snd) (filter (\<lambda>(spk, w, gap). owner_quiet_during F w spk envs)
        (List.map_filter (\<lambda>w. map_option (\<lambda>gap. (sg_speaker s, w, gap)) (attribution_gap_db F w (sg_speaker s) envs)) (sg_words s)))
        @ quiet_gaps F envs segs"
      by (simp add: quiet_gaps_def measured_words_def)
    then show ?case using Cons.IH words[of "sg_speaker s" "sg_words s"] by (simp add: count_flagged_def measure_segment_def)
  qed (simp add: quiet_gaps_def measured_words_def count_flagged_def)
qed

text \<open>Why a word may be marked.\<close>

definition crosstalk_evidence :: "levels \<Rightarrow> speaker_envelope list \<Rightarrow> 64 word \<Rightarrow> string \<Rightarrow> stt_word \<Rightarrow> bool" where
  "crosstalk_evidence F envs threshold spk w \<longleftrightarrow>
     (case attribution_gap_db F w spk envs of None \<Rightarrow> False | Some gap \<Rightarrow> f64_le F threshold gap) \<and> owner_quiet_during F w spk envs"

lemma marked_evidence:
  assumes "\<not> w_has_gap w" "\<not> w_low_confidence w"
  shows "w_low_confidence (marked F envs t spk (measure_word F envs spk w)) \<longleftrightarrow> crosstalk_evidence F envs t spk w"
    and "same_word w (marked F envs t spk (measure_word F envs spk w))"
proof -
  have m: "same_word w (measure_word F envs spk w)" by (rule measure_word_same)
  then show "same_word w (marked F envs t spk (measure_word F envs spk w))" by (simp add: marked_def same_word_def)
  show "w_low_confidence (marked F envs t spk (measure_word F envs spk w)) \<longleftrightarrow> crosstalk_evidence F envs t spk w"
    using assms times_matter(1)[OF m, of F spk envs, symmetric]
    by (cases "attribution_gap_db F w spk envs") (simp_all add: marked_def is_crosstalk_def crosstalk_evidence_def measure_word_def)
qed

definition unmeasured :: "segment list \<Rightarrow> bool" where
  "unmeasured segs \<longleftrightarrow> list_all (\<lambda>s. list_all (\<lambda>w. \<not> w_has_gap w \<and> \<not> w_low_confidence w) (sg_words s)) segs"

definition annotated_from :: "levels \<Rightarrow> speaker_envelope list \<Rightarrow> attribution_result \<Rightarrow> segment \<Rightarrow> segment \<Rightarrow> bool" where
  "annotated_from F envs res s s' \<longleftrightarrow> same_segment s s' \<and>
     list_all2 (\<lambda>w w'. w_low_confidence w' = (ar_threshold_found res \<and> crosstalk_evidence F envs (ar_threshold_db res) (sg_speaker s) w))
       (sg_words s) (sg_words s')"

lemma annotate_cases:
  "segs = [] \<or> envs = [] \<Longrightarrow> annotate_attribution F segs envs d =
    (segs, \<lparr>ar_words_measured = 0, ar_threshold_db = 0, ar_threshold_found = False, ar_flagged = 0, ar_dropped = 0\<rparr>)"
  "segs \<noteq> [] \<Longrightarrow> envs \<noteq> [] \<Longrightarrow> measured_words F envs segs = [] \<or> estimate_crosstalk_threshold_db F (quiet_gaps F envs segs) = None \<Longrightarrow>
    annotate_attribution F segs envs d = (map (measure_segment F envs) segs,
      \<lparr>ar_words_measured = length (measured_words F envs segs), ar_threshold_db = 0, ar_threshold_found = False, ar_flagged = 0, ar_dropped = 0\<rparr>)"
  "segs \<noteq> [] \<Longrightarrow> envs \<noteq> [] \<Longrightarrow> measured_words F envs segs \<noteq> [] \<Longrightarrow> estimate_crosstalk_threshold_db F (quiet_gaps F envs segs) = Some t \<Longrightarrow>
    annotate_attribution F segs envs d = (List.map_filter (flag_segment F envs t d) (map (measure_segment F envs) segs),
      \<lparr>ar_words_measured = length (measured_words F envs segs), ar_threshold_db = t, ar_threshold_found = True,
        ar_flagged = count_flagged F envs t (map (measure_segment F envs) segs),
        ar_dropped = (if d then count_flagged F envs t (map (measure_segment F envs) segs) else 0)\<rparr>)"
  unfolding annotate_attribution_def Let_def by (simp_all split del: if_split, cases "measured_words F envs segs = []", simp_all)

lemma annotate_keeps:
  assumes "unmeasured segs" and "annotate_attribution F segs envs False = (out, res)"
  shows "list_all2 (annotated_from F envs res) segs out" and "ar_dropped res = 0" and "ar_threshold_found res \<Longrightarrow> 5 \<le> ar_flagged res"
proof -
  have u: "\<not> w_has_gap w" "\<not> w_low_confidence w" if "s \<in> set segs" "w \<in> set (sg_words s)" for s w
    using assms(1) that by (auto simp: unmeasured_def list_all_iff)
  have "list_all2 (annotated_from F envs res) segs out \<and> ar_dropped res = 0 \<and> (ar_threshold_found res \<longrightarrow> 5 \<le> ar_flagged res)"
  proof (cases "segs = [] \<or> envs = []")
    case True
    have r: "out = segs" "\<not> ar_threshold_found res" "ar_dropped res = 0" using assms(2) unfolding annotate_cases(1)[OF True] by auto
    have "annotated_from F envs res s s" if "s \<in> set segs" for s
      using u[OF that] r(2) by (simp add: annotated_from_def same_segment_def list_all2_same same_word_def)
    then show ?thesis using r by (simp add: list_all2_same)
  next
    case False
    then have ne: "segs \<noteq> []" "envs \<noteq> []" by simp_all
    show ?thesis
    proof (cases "measured_words F envs segs = [] \<or> estimate_crosstalk_threshold_db F (quiet_gaps F envs segs) = None")
      case True
      have r: "out = map (measure_segment F envs) segs" "\<not> ar_threshold_found res" "ar_dropped res = 0"
        using assms(2) unfolding annotate_cases(2)[OF ne True] by auto
      have "annotated_from F envs res s (measure_segment F envs s)" if "s \<in> set segs" for s
        using u[OF that] r(2) measure_segment_same[of s F envs]
        by (simp add: annotated_from_def measure_segment_def list_all2_map2 list_all2_same measure_word_same)
      then show ?thesis using r by (simp add: list_all2_map2 list_all2_same)
    next
      case found: False
      then obtain t where t: "measured_words F envs segs \<noteq> []" "estimate_crosstalk_threshold_db F (quiet_gaps F envs segs) = Some t" by auto
      let ?mark = "\<lambda>s. s\<lparr>sg_words := map (marked F envs t (sg_speaker s)) (sg_words s)\<rparr>"
      have r: "out = map ?mark (map (measure_segment F envs) segs)" "ar_threshold_found res" "ar_threshold_db res = t" "ar_dropped res = 0"
        "ar_flagged res = count_flagged F envs t (map (measure_segment F envs) segs)"
        using assms(2) map_filter_Some[of "map (measure_segment F envs) segs" "flag_segment F envs t False" ?mark, OF flag_segment_keep]
        unfolding annotate_cases(3)[OF ne t] by auto
      have "annotated_from F envs res s (?mark (measure_segment F envs s))" if "s \<in> set segs" for s
        using u[OF that] marked_evidence
        by (auto simp: annotated_from_def same_segment_def measure_segment_def list_all2_map2 list_all2_same r(2,3))
      then have "list_all2 (annotated_from F envs res) segs out" unfolding r(1) by (simp add: list_all2_map2 list_all2_same)
      moreover have "5 \<le> ar_flagged res" using threshold_count[OF t(2)] quiet_gaps_flagged[of F t envs segs] r(5) by linarith
      ultimately show ?thesis using r by simp
    qed
  qed
  then show "list_all2 (annotated_from F envs res) segs out" "ar_dropped res = 0" "ar_threshold_found res \<Longrightarrow> 5 \<le> ar_flagged res" by blast+
qed


subsection \<open>Properties\<close>

text \<open>
  C19: Building a track's envelope from ffmpeg's output, read in chunks of 16 KiB with at most one frame of samples
  carried over, gives the envelope of all the samples at once, frame for frame; and it fails exactly when ffmpeg
  does not start, writes an odd number of bytes, breaks off, or exits with an error, in this order.
\<close>

theorem envelope_streaming_exact:
  assumes "0 < hop" and "hop \<le> frame"
  shows "build_speaker_envelope_streaming F speaker out frame hop =
    (if \<not> po_started out then Inl DecodeStart else if odd (length (po_bytes out)) then Inl OddPcm
     else if po_broken out then Inl ReadPcm else if \<not> po_exit_ok out then Inl DecodeFailed
     else Inr (envelope_from_samples F speaker (pcm_floats F (po_bytes out)) frame hop attribution_hop_ms))"
  by (rule streamed_envelope) (use assms in \<open>simp add: framing_def\<close>)

text \<open>
  C20: Annotation without dropping keeps every segment and every word with its text and times; a word is marked
  exactly when the meeting has a threshold, the loudest other track exceeds the word's owner by at least it, and
  the owner was quiet; nothing is dropped, and a threshold comes with at least five marked words.
\<close>

theorem crosstalk_annotation_keeps_words:
  assumes "unmeasured segs" and "annotate_attribution F segs envs False = (out, res)"
  shows "list_all2 (annotated_from F envs res) segs out \<and> ar_dropped res = 0 \<and>
    (if ar_threshold_found res then 5 else 0) \<le> ar_flagged res"
  using annotate_keeps[OF assms] by simp

text \<open>
  C12: Dropping crosstalk is annotating it and then removing the marked words: on segments as the transcriber
  writes them, the result of drop mode is the low-confidence filter of the annotated transcript, segment for segment
  with rebuilt bounds and text, and it reports the number of words the filter removes.
\<close>

theorem crosstalk_drop_is_filter:
  assumes "list_all (\<lambda>s. sg_words s = [] \<or> tight s) segs" and "unflagged segs"
  shows "without_low_confidence_words (fst (annotate_attribution F segs envs False)) =
    (fst (annotate_attribution F segs envs True), ar_dropped (snd (annotate_attribution F segs envs True)))"
  using assms by (rule dropped_is_filtered)

subsection \<open>Examples\<close>

text \<open>Word arithmetic in the place of the floating-point unit.\<close>

definition ex_levels :: levels where
  "ex_levels = \<lparr>f32_wide = ucast, f32_neg = uminus, f32_less = (<), f32_le = (\<le>), f64_add = (+), f64_mul = (*),
     f64_muladd = (\<lambda>a x y. a + x * y), f64_div = (div), f64_less = (<), f64_le = (\<le>), f64_of_int = of_int, f64_trunc = uint,
     f32_of_int = of_int, f32_div = (\<lambda>x y. x), f64_sub = (-), f64_sqrt = id, f64_log10 = id, f64_abs = id,
     f64_min = min, f64_max = max\<rparr>"

definition ex_pcm :: pcm_output where
  "ex_pcm = \<lparr>po_started = True, po_bytes = [1, 0, 2, 0, 0, 0, 0, 0, 3, 0], po_broken = False, po_exit_ok = True\<rparr>"

definition ex_envelope :: "string \<Rightarrow> 64 word list \<Rightarrow> speaker_envelope" where
  "ex_envelope speaker db = \<lparr>ev_speaker_id = speaker, ev_frame_db = db, ev_present = map (\<lambda>_. True) db, ev_floor_db = 1,
     ev_speech_db = 40, ev_hop_ms = 16\<rparr>"

definition ex_envelopes :: "speaker_envelope list" where
  "ex_envelopes = [ex_envelope ''ann'' [2, 2, 3, 2], ex_envelope ''bob'' [30, 31, 30, 9]]"

definition ex_segments :: "segment list" where
  "ex_segments = [\<lparr>sg_speaker = ''ann'', sg_start_ms = 0, sg_end_ms = 60, sg_text = ''so yes'',
     sg_words = [\<lparr>w_text = ''so'', w_start_ms = 0, w_end_ms = 20, w_gap_db = 0, w_has_gap = False, w_low_confidence = False, w_extent_cap = 0\<rparr>,
       \<lparr>w_text = ''yes'', w_start_ms = 30, w_end_ms = 60, w_gap_db = 0, w_has_gap = False, w_low_confidence = False, w_extent_cap = 0\<rparr>]\<rparr>]"

theorem envelope_streaming_exact_witness:
  "build_speaker_envelope_streaming ex_levels ''ann'' ex_pcm 2 1 =
     Inr (envelope_from_samples ex_levels ''ann'' (pcm_floats ex_levels (po_bytes ex_pcm)) 2 1 attribution_hop_ms) \<and>
   build_speaker_envelope_streaming ex_levels ''ann'' (ex_pcm\<lparr>po_bytes := [1, 0, 2]\<rparr>) 2 1 = Inl OddPcm"
proof -
  have h: "0 < (1 :: nat)" "(1 :: nat) \<le> 2" by simp_all
  show ?thesis unfolding envelope_streaming_exact[OF h] by (simp add: ex_pcm_def)
qed

theorem crosstalk_annotation_keeps_words_witness:
  "let (out, res) = annotate_attribution ex_levels ex_segments ex_envelopes False in
   list_all2 (annotated_from ex_levels ex_envelopes res) ex_segments out \<and> ar_dropped res = 0 \<and>
     (if ar_threshold_found res then 5 else 0) \<le> ar_flagged res"
proof -
  have u: "unmeasured ex_segments" by (simp add: unmeasured_def ex_segments_def)
  obtain out res where a: "annotate_attribution ex_levels ex_segments ex_envelopes False = (out, res)" by fastforce
  show ?thesis unfolding a Let_def prod.case by (rule crosstalk_annotation_keeps_words[OF u a])
qed

theorem crosstalk_drop_is_filter_witness:
  "without_low_confidence_words (fst (annotate_attribution ex_levels ex_segments ex_envelopes False)) =
    (fst (annotate_attribution ex_levels ex_segments ex_envelopes True),
     ar_dropped (snd (annotate_attribution ex_levels ex_segments ex_envelopes True)))"
proof (rule crosstalk_drop_is_filter)
  show "list_all (\<lambda>s. sg_words s = [] \<or> tight s) ex_segments"
    by (simp add: ex_segments_def tight_def words_to_text_def earliest_start_def latest_end_def)
  show "unflagged ex_segments" by (simp add: unflagged_def ex_segments_def)
qed

end
