(* ===== verification/Work_Files.thy ===== *)
theory Work_Files
  imports Prelude "HOL-Library.Sublist" "HOL-Library.Char_ord" "HOL-Library.List_Lexorder"
begin

text \<open>
  The file system as the operator uses it.  A file tree is a list of entries under absolute paths, the first entry
  of a path counts, and the root is always there.  Every call to the operating system is one step of a world
  whose plan says what becomes of the coming calls: a call works, fails, or the process dies in it.  A call that
  fails or dies on the way may leave part of its work behind, which the plan also chooses.  After its
  death the process does nothing more, so the code can be followed to its end and the world is the one the crash left.
\<close>

subsection \<open>Trees\<close>

type_synonym path = "string list"

datatype file_entry = FileE string | DirE | LinkE | OtherE

type_synonym file_tree = "(path \<times> file_entry) list"

definition look :: "file_tree \<Rightarrow> path \<Rightarrow> file_entry option" where
  "look fs p = (if p = [] then Some DirE else map_of fs p)"

definition cut_tree :: "path \<Rightarrow> file_tree \<Rightarrow> file_tree" where
  "cut_tree p fs = filter (\<lambda>(q, _). \<not> prefix p q) fs"

text \<open>The entries under \<open>src\<close>, hung under \<open>dst\<close>.\<close>

definition graft :: "path \<Rightarrow> path \<Rightarrow> file_tree \<Rightarrow> file_tree" where
  "graft src dst fs = map (\<lambda>(q, e). (dst @ drop (length src) q, e)) (filter (\<lambda>(q, _). prefix src q) fs)"

definition move_tree :: "path \<Rightarrow> path \<Rightarrow> file_tree \<Rightarrow> file_tree" where
  "move_tree src dst fs = graft src dst fs @ cut_tree src (cut_tree dst fs)"

definition add_dirs :: "path \<Rightarrow> file_tree \<Rightarrow> file_tree" where
  "add_dirs p fs = map (\<lambda>k. (take k p, DirE)) (filter (\<lambda>k. look fs (take k p) = None) [1..<Suc (length p)]) @ fs"

lemma map_of_cut: "map_of (cut_tree p fs) q = (if prefix p q then None else map_of fs q)"
  by (induction fs) (auto simp: cut_tree_def)

lemma look_cut [simp]: "p \<noteq> [] \<Longrightarrow> look (cut_tree p fs) q = (if prefix p q then None else look fs q)"
  by (auto simp: look_def map_of_cut)

lemma map_of_graft: "map_of (graft src dst fs) q = (if prefix dst q then map_of fs (src @ drop (length dst) q) else None)"
proof (induction fs)
  case (Cons x fs)
  obtain p e where x: "x = (p, e)" by (cases x)
  show ?case
  proof (cases "prefix src p")
    case True
    then obtain r where r: "p = src @ r" by (auto simp: prefix_def)
    have "dst @ r = q \<longleftrightarrow> prefix dst q \<and> src @ drop (length dst) q = src @ r" by (auto simp: prefix_def)
    then show ?thesis using Cons.IH unfolding graft_def x by (auto simp: r)
  next
    case False
    then have "p \<noteq> src @ drop (length dst) q" by auto
    then show ?thesis using Cons.IH False unfolding graft_def x by auto
  qed
qed (simp add: graft_def)

lemma look_move:
  assumes "src \<noteq> []" "dst \<noteq> []" "\<not> prefix src dst" "\<not> prefix dst src"
  shows "look (move_tree src dst fs) q =
    (if prefix dst q then look fs (src @ drop (length dst) q) else if prefix src q then None else look fs q)"
proof (cases "q = []")
  case False
  have m: "map_of (move_tree src dst fs) q = (if prefix dst q then map_of fs (src @ drop (length dst) q)
      else if prefix src q then None else map_of fs q)"
    by (simp add: move_tree_def map_add_def map_of_graft map_of_cut split: option.split)
  show ?thesis using False assms(1) unfolding look_def m by simp
qed (use assms in \<open>simp add: look_def\<close>)

lemma look_add_dirs: "look (add_dirs p fs) q = (if look fs q = None \<and> prefix q p then Some DirE else look fs q)"
proof (cases "q = []")
  case False
  let ?ks = "filter (\<lambda>k. look fs (take k p) = None) [1..<Suc (length p)]"
  have "map_of (map (\<lambda>k. (take k p, DirE)) ks) q = (if \<exists>k\<in>set ks. take k p = q then Some DirE else None)" for ks :: "nat list"
    by (induction ks) auto
  moreover have "(\<exists>k\<in>set ?ks. take k p = q) \<longleftrightarrow> look fs q = None \<and> prefix q p"
  proof
    assume "look fs q = None \<and> prefix q p"
    then show "\<exists>k\<in>set ?ks. take k p = q" using False
      by (intro bexI[of _ "length q"]) (auto simp: prefix_def less_Suc_eq_le Suc_le_eq)
  qed (auto simp: take_is_prefix)
  ultimately show ?thesis using False by (auto simp: look_def add_dirs_def map_add_def split: option.split)
qed (simp add: look_def)

text \<open>The tree below a path.\<close>

definition tree_at :: "file_tree \<Rightarrow> path \<Rightarrow> path \<Rightarrow> file_entry option" where
  "tree_at fs p = (\<lambda>r. look fs (p @ r))"

definition no_tree :: "path \<Rightarrow> file_entry option" where
  "no_tree = (\<lambda>_. None)"

subsection \<open>Calls\<close>

datatype call_err = NotExist | CallFailed

datatype call_fate = Works | Fails file_tree | Dies file_tree

record 'd world =
  wd_fs :: file_tree
  wd_db :: 'd
  wd_plan :: "call_fate list"
  wd_dead :: bool

text \<open>\<open>run fs\<close> is the result of a call and the tree after it, \<open>partly left fs\<close> the tree it leaves when cut short.\<close>

definition file_call ::
  "(file_tree \<Rightarrow> (call_err, 'a) res \<times> file_tree) \<Rightarrow> (file_tree \<Rightarrow> file_tree \<Rightarrow> file_tree) \<Rightarrow> 'd world \<Rightarrow> (call_err, 'a) res \<times> 'd world" where
  "file_call run partly w =
     (if wd_dead w then (Inl CallFailed, w)
      else case wd_plan w of
          Fails left # plan \<Rightarrow> (Inl CallFailed, w\<lparr>wd_fs := partly left (wd_fs w), wd_plan := plan\<rparr>)
        | Dies left # plan \<Rightarrow> (Inl CallFailed, w\<lparr>wd_fs := partly left (wd_fs w), wd_plan := plan, wd_dead := True\<rparr>)
        | plan \<Rightarrow> (fst (run (wd_fs w)), w\<lparr>wd_fs := snd (run (wd_fs w)), wd_plan := tl plan\<rparr>))"

definition untouched :: "file_tree \<Rightarrow> file_tree \<Rightarrow> file_tree" where
  "untouched left fs = fs"

definition stat :: "path \<Rightarrow> 'd world \<Rightarrow> (call_err, file_entry) res \<times> 'd world" where
  "stat p = file_call (\<lambda>fs. (case look fs p of None \<Rightarrow> Inl NotExist | Some e \<Rightarrow> Inr e, fs)) untouched"

text \<open>\<open>os.MkdirAll\<close>: a part of the missing directories may remain.\<close>

definition mkdir_all :: "path \<Rightarrow> 'd world \<Rightarrow> (call_err, unit) res \<times> 'd world" where
  "mkdir_all p = file_call
     (\<lambda>fs. if list_all (\<lambda>k. look fs (take k p) \<in> {None, Some DirE}) [0..<Suc (length p)] then (Inr (), add_dirs p fs) else (Inl CallFailed, fs))
     (\<lambda>left fs. if list_all (\<lambda>k. look fs (take k p) \<in> {None, Some DirE}) [0..<Suc (length p)] then add_dirs (take (length left) p) fs else fs)"

text \<open>\<open>os.RemoveAll\<close>: any of the entries may remain.\<close>

definition remove_all :: "path \<Rightarrow> 'd world \<Rightarrow> (call_err, unit) res \<times> 'd world" where
  "remove_all p = file_call (\<lambda>fs. (Inr (), cut_tree p fs))
     (\<lambda>left fs. filter (\<lambda>(q, _). prefix p q \<longrightarrow> drop (length p) q \<in> set (map fst left)) fs)"

text \<open>\<open>os.Rename\<close>, which refuses to replace a directory.\<close>

definition rename_tree :: "path \<Rightarrow> path \<Rightarrow> file_tree \<Rightarrow> (call_err, unit) res \<times> file_tree" where
  "rename_tree src dst fs =
     (if look fs src = None \<or> look fs (butlast dst) = None then (Inl NotExist, fs)
      else if look fs dst = Some DirE \<or> look fs (butlast dst) \<noteq> Some DirE \<or> prefix src dst \<or> prefix dst src then (Inl CallFailed, fs)
      else if look fs src = Some DirE \<and> look fs dst \<noteq> None then (Inl CallFailed, fs)
      else (Inr (), move_tree src dst fs))"

definition rename :: "path \<Rightarrow> path \<Rightarrow> 'd world \<Rightarrow> (call_err, unit) res \<times> 'd world" where
  "rename src dst = file_call (rename_tree src dst) untouched"

text \<open>
  \<open>copyDirectory\<close> and \<open>copyFile\<close> of the operator, as one call each; anything may be left in the place copied to.
  Links have no target in these trees: a copy that meets one is taken to fail, where the code would follow it.
  A copy that meets a special file fails, as does one of a directory onto a file or the reverse.
\<close>

definition overwrites :: "file_entry option \<Rightarrow> file_entry \<Rightarrow> bool" where
  "overwrites new old \<longleftrightarrow> new \<noteq> None \<and> (old = LinkE \<or> old = OtherE \<or> (new = Some DirE) \<noteq> (old = DirE))"

definition copy_tree :: "path \<Rightarrow> path \<Rightarrow> file_tree \<Rightarrow> (call_err, unit) res \<times> file_tree" where
  "copy_tree src dst fs =
     (if look fs src = None then (Inl NotExist, fs)
      else if look fs src \<noteq> Some DirE \<or> list_ex (\<lambda>(q, _). prefix src q \<and> look fs q \<in> {Some LinkE, Some OtherE}) fs
        \<or> \<not> list_all (\<lambda>k. look fs (take k dst) \<in> {None, Some DirE}) [0..<Suc (length dst)]
        \<or> list_ex (\<lambda>(q, e). prefix dst q \<and> overwrites (look fs (src @ drop (length dst) q)) e) fs
      then (Inl CallFailed, fs)
      else (Inr (), graft src dst fs @ add_dirs dst fs))"

definition left_below :: "path \<Rightarrow> file_tree \<Rightarrow> file_tree \<Rightarrow> file_tree" where
  "left_below dst left fs = map (\<lambda>(r, e). (dst @ r, e)) left @ fs"

definition copy_directory :: "path \<Rightarrow> path \<Rightarrow> 'd world \<Rightarrow> (call_err, unit) res \<times> 'd world" where
  "copy_directory src dst = file_call (copy_tree src dst) (left_below dst)"

definition copy_file :: "path \<Rightarrow> path \<Rightarrow> 'd world \<Rightarrow> (call_err, unit) res \<times> 'd world" where
  "copy_file src dst = file_call
     (\<lambda>fs. case look fs src of
        Some (FileE c) \<Rightarrow>
          if look fs (butlast dst) = Some DirE \<and> look fs dst \<notin> {Some DirE, Some LinkE, Some OtherE} then (Inr (), (dst, FileE c) # fs)
          else (Inl CallFailed, fs)
      | None \<Rightarrow> (Inl NotExist, fs) | _ \<Rightarrow> (Inl CallFailed, fs))
     (\<lambda>left fs. if look fs dst \<in> {Some DirE, Some LinkE, Some OtherE} then fs else left_below dst (filter (\<lambda>(r, e). r = []) left) fs)"

text \<open>A hard link shares its bytes; sealed files are never written again.\<close>

definition link_file :: "path \<Rightarrow> path \<Rightarrow> 'd world \<Rightarrow> (call_err, unit) res \<times> 'd world" where
  "link_file src dst = file_call
     (\<lambda>fs. case look fs src of
        Some (FileE c) \<Rightarrow> if look fs dst = None \<and> look fs (butlast dst) = Some DirE then (Inr (), (dst, FileE c) # fs) else (Inl CallFailed, fs)
      | None \<Rightarrow> (Inl NotExist, fs) | _ \<Rightarrow> (Inl CallFailed, fs)) untouched"

definition remove_entry :: "path \<Rightarrow> 'd world \<Rightarrow> (call_err, unit) res \<times> 'd world" where
  "remove_entry p = file_call
     (\<lambda>fs. if look fs p = None then (Inl NotExist, fs)
       else if list_ex (\<lambda>(q, _). strict_prefix p q) fs then (Inl CallFailed, fs)
       else (Inr (), cut_tree p fs)) untouched"

text \<open>Opening a file or directory and flushing it.\<close>

definition sync_path :: "path \<Rightarrow> 'd world \<Rightarrow> (call_err, unit) res \<times> 'd world" where
  "sync_path p = file_call (\<lambda>fs. (if look fs p = None then Inl NotExist else Inr (), fs)) untouched"

definition names_in :: "path \<Rightarrow> file_tree \<Rightarrow> string list" where
  "names_in p fs = sort (remdups (map (\<lambda>(q, _). q ! length p) (filter (\<lambda>(q, _). strict_prefix p q) fs)))"

definition read_dir :: "path \<Rightarrow> 'd world \<Rightarrow> (call_err, string list) res \<times> 'd world" where
  "read_dir p = file_call
     (\<lambda>fs. (case look fs p of None \<Rightarrow> Inl NotExist | Some DirE \<Rightarrow> Inr (names_in p fs) | _ \<Rightarrow> Inl CallFailed, fs)) untouched"

text \<open>A process that starts again, with calls that work.\<close>

definition restarted :: "'d world \<Rightarrow> 'd world" where
  "restarted w = w\<lparr>wd_plan := [], wd_dead := False\<rparr>"

subsection \<open>What calls leave alone\<close>

definition apart :: "path \<Rightarrow> path \<Rightarrow> bool" where
  "apart p q \<longleftrightarrow> \<not> prefix p q \<and> \<not> prefix q p"

lemma apart_sym: "apart p q \<Longrightarrow> apart q p"
  by (simp add: apart_def)

lemma apart_below: "apart p q \<Longrightarrow> \<not> prefix p (q @ r) \<and> \<not> prefix (q @ r) p"
  unfolding apart_def by (metis append_prefixD prefix_append prefix_def prefix_same_cases)

lemma apart_siblings: "a \<noteq> b \<Longrightarrow> apart (p @ [a]) (p @ [b])"
  by (simp add: apart_def)

lemma apart_extend: "apart p q \<Longrightarrow> apart p (q @ r)"
  unfolding apart_def by (metis append_prefixD prefix_append prefix_def prefix_same_cases)

lemma file_call_cases:
  "wd_fs (snd (file_call run partly w)) = wd_fs w \<or> (\<exists>left. wd_fs (snd (file_call run partly w)) = partly left (wd_fs w)) \<or>
    wd_fs (snd (file_call run partly w)) = snd (run (wd_fs w))"
  by (auto simp: file_call_def split: list.split call_fate.split)

lemma file_call_db [simp]: "wd_db (snd (file_call run partly w)) = wd_db w"
  by (auto simp: file_call_def split: list.split call_fate.split)

lemma file_call_Inr:
  "file_call run partly w = (Inr x, w') \<Longrightarrow> fst (run (wd_fs w)) = Inr x \<and> wd_fs w' = snd (run (wd_fs w)) \<and> \<not> wd_dead w'"
  by (auto simp: file_call_def split: if_splits list.splits call_fate.splits)

lemma file_call_NotExist:
  "file_call run partly w = (Inl NotExist, w') \<Longrightarrow> fst (run (wd_fs w)) = Inl NotExist \<and> wd_fs w' = snd (run (wd_fs w)) \<and> \<not> wd_dead w'"
  by (auto simp: file_call_def split: if_splits list.splits call_fate.splits)

lemma file_call_works:
  assumes "wd_plan w = []" "\<not> wd_dead w"
  shows "file_call run partly w = (fst (run (wd_fs w)), w\<lparr>wd_fs := snd (run (wd_fs w))\<rparr>)"
  using assms by (cases w) (simp add: file_call_def)

text \<open>A call that changes nothing under \<open>x\<close>, finished or not, leaves the tree there.\<close>

lemma file_call_tree:
  assumes "\<And>fs r. look (snd (run fs)) (x @ r) = look fs (x @ r)" and "\<And>left fs r. look (partly left fs) (x @ r) = look fs (x @ r)"
  shows "tree_at (wd_fs (snd (file_call run partly w))) x = tree_at (wd_fs w) x"
  using file_call_cases[of run partly w] assms by (auto simp: tree_at_def)

lemma stat_fs [simp]: "wd_fs (snd (stat p w)) = wd_fs w"
  using file_call_cases[of "\<lambda>fs. (case look fs p of None \<Rightarrow> Inl NotExist | Some e \<Rightarrow> Inr e, fs)" untouched w]
  by (simp add: stat_def untouched_def)

lemma stat_result: "stat p w = (Inr e, w') \<Longrightarrow> look (wd_fs w) p = Some e" "stat p w = (Inl NotExist, w') \<Longrightarrow> look (wd_fs w) p = None"
  unfolding stat_def by (auto dest!: file_call_Inr file_call_NotExist split: option.splits)

lemma read_dir_fs [simp]: "wd_fs (snd (read_dir p w)) = wd_fs w"
  using file_call_cases[of "\<lambda>fs. (case look fs p of None \<Rightarrow> Inl NotExist | Some DirE \<Rightarrow> Inr (names_in p fs) | _ \<Rightarrow> Inl CallFailed, fs)" untouched w]
  by (simp add: read_dir_def untouched_def)

lemma sync_path_fs [simp]: "wd_fs (snd (sync_path p w)) = wd_fs w"
  using file_call_cases[of "\<lambda>fs. (if look fs p = None then Inl NotExist else Inr (), fs)" untouched w]
  by (simp add: sync_path_def untouched_def)

lemma map_of_filter: "map_of (filter (\<lambda>(q, _). P q) fs) q = (if P q then map_of fs q else None)"
  by (induction fs) auto

lemma look_filter: "q \<noteq> [] \<Longrightarrow> look (filter (\<lambda>(q, _). P q) fs) q = (if P q then look fs q else None)"
  by (simp add: look_def map_of_filter)

lemma remove_all_tree: "apart p x \<Longrightarrow> tree_at (wd_fs (snd (remove_all p w))) x = tree_at (wd_fs w) x"
proof -
  assume "apart p x"
  then have "p \<noteq> []" "\<not> prefix p (x @ r)" for r using apart_below[of p x] by (auto simp: apart_def)
  then show ?thesis unfolding remove_all_def
    by (intro file_call_tree) (auto simp: look_def map_of_filter map_of_cut)
qed

lemma remove_all_look: "\<not> prefix p q \<Longrightarrow> look (wd_fs (snd (remove_all p w))) q = look (wd_fs w) q"
proof -
  assume "\<not> prefix p q"
  then have "p \<noteq> []" "\<not> prefix p q" by auto
  then show ?thesis unfolding remove_all_def
    using file_call_tree[of "\<lambda>fs. (Inr (), cut_tree p fs)" "q" "\<lambda>left fs. filter (\<lambda>(q, _). prefix p q \<longrightarrow> drop (length p) q \<in> set (map fst left)) fs" w]
      file_call_cases[of "\<lambda>fs. (Inr (), cut_tree p fs)" "\<lambda>left fs. filter (\<lambda>(q, _). prefix p q \<longrightarrow> drop (length p) q \<in> set (map fst left)) fs" w]
    by (auto simp: look_def map_of_filter map_of_cut)
qed

lemma remove_all_none: "p \<noteq> [] \<Longrightarrow> tree_at (wd_fs w) p = no_tree \<Longrightarrow> tree_at (wd_fs (snd (remove_all p w))) p = no_tree"
proof -
  assume p: "p \<noteq> []" "tree_at (wd_fs w) p = no_tree"
  then have "map_of (wd_fs w) (p @ r) = None" for r
    by (metis append_is_Nil_conv look_def no_tree_def tree_at_def)
  then show ?thesis unfolding remove_all_def
    using file_call_cases[of "\<lambda>fs. (Inr (), cut_tree p fs)" "\<lambda>left fs. filter (\<lambda>(q, _). prefix p q \<longrightarrow> drop (length p) q \<in> set (map fst left)) fs" w] p
    by (auto simp: tree_at_def no_tree_def look_def map_of_filter map_of_cut fun_eq_iff)
qed

lemma remove_all_done: "p \<noteq> [] \<Longrightarrow> remove_all p w = (Inr u, w') \<Longrightarrow> tree_at (wd_fs w') p = no_tree"
  unfolding remove_all_def by (auto dest!: file_call_Inr simp: tree_at_def no_tree_def fun_eq_iff)

lemma mkdir_all_tree: "\<not> prefix x p \<Longrightarrow> tree_at (wd_fs (snd (mkdir_all p w))) x = tree_at (wd_fs w) x"
proof -
  assume n: "\<not> prefix x p"
  have a: "look (add_dirs (take k p) fs) (x @ r) = look fs (x @ r)" for k fs r
    using n by (auto simp: look_add_dirs) (metis append_prefixD prefix_order.trans take_is_prefix)
  have b: "look (add_dirs p fs) (x @ r) = look fs (x @ r)" for fs r using a[of "length p"] by simp
  show ?thesis unfolding mkdir_all_def by (intro file_call_tree) (simp_all add: a b)
qed

lemma mkdir_all_look: "look (wd_fs w) q \<noteq> None \<Longrightarrow> look (wd_fs (snd (mkdir_all p w))) q = look (wd_fs w) q"
  unfolding mkdir_all_def
  using file_call_cases[of "\<lambda>fs. if list_all (\<lambda>k. look fs (take k p) \<in> {None, Some DirE}) [0..<Suc (length p)] then (Inr (), add_dirs p fs) else (Inl CallFailed, fs)"
    "\<lambda>left fs. if list_all (\<lambda>k. look fs (take k p) \<in> {None, Some DirE}) [0..<Suc (length p)] then add_dirs (take (length left) p) fs else fs" w]
  by (auto simp: look_add_dirs split: if_splits)

lemma mkdir_all_done: "mkdir_all p w = (Inr u, w') \<Longrightarrow> prefix q p \<Longrightarrow> look (wd_fs w') q = Some DirE"
proof -
  assume m: "mkdir_all p w = (Inr u, w')" and "prefix q p"
  then have q: "q = take (length q) p" "length q < Suc (length p)" by (auto simp: prefix_def)
  have ok: "list_all (\<lambda>k. look (wd_fs w) (take k p) \<in> {None, Some DirE}) [0..<Suc (length p)]" "wd_fs w' = add_dirs p (wd_fs w)"
    using m unfolding mkdir_all_def by (auto dest!: file_call_Inr split: if_splits)
  then have "look (wd_fs w) (take (length q) p) \<in> {None, Some DirE}" using q(2) by (auto simp: list_all_iff simp del: upt_Suc)
  then show ?thesis using \<open>prefix q p\<close> q(1) by (auto simp: ok(2) look_add_dirs)
qed

lemma copy_directory_tree: "apart dst x \<Longrightarrow> tree_at (wd_fs (snd (copy_directory src dst w))) x = tree_at (wd_fs w) x"
proof -
  assume a: "apart dst x"
  then have n: "\<not> prefix dst (x @ r)" "\<not> prefix (x @ r) dst" for r using apart_below by blast+
  have m: "map_of (map (\<lambda>(r, e). (dst @ r, e)) left) (x @ r) = None" for left r
    using n[of r] by (auto simp: map_of_eq_None_iff)
  have g: "look (graft src dst fs @ add_dirs dst fs) (x @ r) = look fs (x @ r)" for fs r
    using n[of r] look_add_dirs[of dst fs "x @ r"] by (auto simp: look_def map_add_def map_of_graft)
  have "snd (copy_tree src dst fs) = fs \<or> snd (copy_tree src dst fs) = graft src dst fs @ add_dirs dst fs" for fs
    by (simp add: copy_tree_def)
  then have c: "look (snd (copy_tree src dst fs)) (x @ r) = look fs (x @ r)" for fs r using g by metis
  have l: "look (left_below dst left fs) (x @ r) = look fs (x @ r)" for left fs r
    using m[of left r] by (simp add: left_below_def look_def map_add_def)
  show ?thesis unfolding copy_directory_def by (intro file_call_tree) (rule c, rule l)
qed

lemma copy_directory_done:
  assumes "copy_directory src dst w = (Inr u, w')" and "tree_at (wd_fs w) dst = no_tree" and "dst \<noteq> []" "src \<noteq> []"
  shows "tree_at (wd_fs w') dst = tree_at (wd_fs w) src"
proof -
  have c: "look (wd_fs w) src = Some DirE" "wd_fs w' = graft src dst (wd_fs w) @ add_dirs dst (wd_fs w)"
    using assms(1) unfolding copy_directory_def by (auto dest!: file_call_Inr simp: copy_tree_def split: if_splits)
  show ?thesis
  proof
    fix r
    have "look (wd_fs w) (dst @ r) = None" using assms(2) by (metis no_tree_def tree_at_def)
    moreover have "prefix (dst @ r) dst \<longleftrightarrow> r = []" by auto
    moreover have "look (wd_fs w') (dst @ r) = (case look (wd_fs w) (src @ r) of Some e \<Rightarrow> Some e | None \<Rightarrow> look (add_dirs dst (wd_fs w)) (dst @ r))"
    proof -
      have l: "look fs (dst @ r) = map_of fs (dst @ r)" "look fs (src @ r) = map_of fs (src @ r)" for fs
        using assms(3,4) by (simp_all add: look_def)
      show ?thesis unfolding l c(2) by (simp add: map_add_def map_of_graft)
    qed
    ultimately show "tree_at (wd_fs w') dst r = tree_at (wd_fs w) src r"
      using c(1) by (auto simp: tree_at_def look_add_dirs split: option.split)
  qed
qed

lemma rename_tree_other: "apart src x \<Longrightarrow> apart dst x \<Longrightarrow> look (snd (rename_tree src dst fs)) (x @ r) = look fs (x @ r)"
proof -
  assume a: "apart src x" "apart dst x"
  then have "src \<noteq> []" "dst \<noteq> []" by (auto simp: apart_def)
  then show ?thesis using apart_below[OF a(1), of r] apart_below[OF a(2), of r] by (simp add: rename_tree_def look_move)
qed

lemma rename_other_tree: "apart src x \<Longrightarrow> apart dst x \<Longrightarrow> tree_at (wd_fs (snd (rename src dst w))) x = tree_at (wd_fs w) x"
  unfolding rename_def by (intro file_call_tree) (simp_all add: rename_tree_other untouched_def)

lemma rename_done:
  assumes "rename src dst w = (Inr u, w')" and "dst \<noteq> []" "src \<noteq> []"
  shows "tree_at (wd_fs w') dst = tree_at (wd_fs w) src" "tree_at (wd_fs w') src = no_tree" "look (wd_fs w) dst \<noteq> Some DirE"
    "look (wd_fs w) src \<noteq> None"
proof -
  have r: "\<not> prefix src dst" "\<not> prefix dst src" "wd_fs w' = move_tree src dst (wd_fs w)" "look (wd_fs w) dst \<noteq> Some DirE" "look (wd_fs w) src \<noteq> None"
    using assms(1) unfolding rename_def by (auto dest!: file_call_Inr simp: rename_tree_def split: if_splits)
  show "tree_at (wd_fs w') dst = tree_at (wd_fs w) src" "look (wd_fs w) dst \<noteq> Some DirE" "look (wd_fs w) src \<noteq> None"
    using assms(2,3) r by (auto simp: tree_at_def look_move)
  have "\<not> prefix dst (src @ r)" for r using apart_below[of dst src r] r(1,2) by (simp add: apart_def)
  then show "tree_at (wd_fs w') src = no_tree" using assms(2,3) r by (auto simp: tree_at_def no_tree_def look_move)
qed

lemma rename_failed: "rename src dst w = (Inl e, w') \<Longrightarrow> wd_fs w' = wd_fs w"
proof -
  assume r: "rename src dst w = (Inl e, w')"
  have "fst (rename_tree src dst fs) = Inl e' \<Longrightarrow> snd (rename_tree src dst fs) = fs" for fs e'
    by (auto simp: rename_tree_def split: if_splits)
  then show ?thesis using r unfolding rename_def file_call_def
    by (auto simp: untouched_def split: if_splits list.splits call_fate.splits)
qed

end
