(* ===== verification/Promotion.thy ===== *)
theory Promotion
  imports Work_Files Go_Strings
begin

text \<open>
  Replacing an artifact (\<open>src/cassini-operator/internal/operator/artifact_promotion.go\<close>): a directory is copied
  into a staging root, the previous one is set aside there, and the copy is renamed into place; a start after a crash
  repairs what was interrupted.  \<open>promotion_recovers\<close> says what is there after any crash or failure and the repair.
\<close>

datatype promote_err = StatSource call_err | SourceNotDir | SourceIsDir | MakeStaging call_err | CopyStaged call_err
  | PrepareStaged | MakeParent call_err | StatDestination call_err | DestinationNotDir | MoveAside call_err
  | PromoteRename call_err | PromoteRollback call_err call_err

datatype reconcile_err = ReadStaging call_err | RemoveOrphan path call_err | RemoveBackup path call_err
  | StatPromoted path call_err | RestoreBackup path call_err

datatype reconcile_action = RemovedOrphan path | RemovedBackup path | Restored path

definition promotion_backup_suffix :: string where "promotion_backup_suffix = ''.backup''"

definition current_root :: "path \<Rightarrow> path" where "current_root work = work @ [''current'']"
definition current_staging_root :: "path \<Rightarrow> path" where "current_staging_root work = current_root work @ [''.staging'']"
definition canonical_run_path :: "path \<Rightarrow> string \<Rightarrow> path" where "canonical_run_path work job = current_root work @ [job @ ''.run'']"
definition canonical_meeting_path :: "path \<Rightarrow> string \<Rightarrow> path" where
  "canonical_meeting_path work job = current_root work @ [job @ ''.meeting'']"

definition replace_staged_directory :: "path \<Rightarrow> path \<Rightarrow> path \<Rightarrow> 'd world \<Rightarrow> (promote_err, unit) res \<times> 'd world" where
  "replace_staged_directory staging destination root w =
     (let (info, w) = stat destination w in
      case info of
        Inl CallFailed \<Rightarrow> (Inl (StatDestination CallFailed), snd (remove_all staging w))
      | Inr e \<Rightarrow>
          if e \<noteq> DirE then (Inl DestinationNotDir, snd (remove_all staging w))
          else
            let backup = root @ [last destination @ promotion_backup_suffix];
                w = snd (remove_all backup w);
                (moved, w) = rename destination backup w in
            (case moved of
               Inl e \<Rightarrow> (Inl (MoveAside e), snd (remove_all staging w))
             | Inr _ \<Rightarrow>
                 let (placed, w) = rename staging destination w in
                 (case placed of
                    Inl e \<Rightarrow>
                      let (undone, w) = rename backup destination w in
                      (case undone of
                         Inl e' \<Rightarrow> (Inl (PromoteRollback e e'), w)
                       | Inr _ \<Rightarrow> (Inl (PromoteRename e), snd (remove_all staging w)))
                  | Inr _ \<Rightarrow> (Inr (), snd (remove_all backup w))))
      | Inl NotExist \<Rightarrow>
          let (placed, w) = rename staging destination w in
          (case placed of
             Inl e \<Rightarrow> (Inl (PromoteRename e), snd (remove_all staging w))
           | Inr _ \<Rightarrow> (Inr (), w)))"

text \<open>\<open>prepare\<close> is the caller's last change to the copy; the callers have none.\<close>

definition promote_directory ::
  "path \<Rightarrow> path \<Rightarrow> path \<Rightarrow> (path \<Rightarrow> 'd world \<Rightarrow> bool \<times> 'd world) option \<Rightarrow> 'd world \<Rightarrow> (promote_err, unit) res \<times> 'd world" where
  "promote_directory source destination root prepare w =
     (let (info, w) = stat source w in
      case info of
        Inl e \<Rightarrow> (Inl (StatSource e), w)
      | Inr e \<Rightarrow>
          if e \<noteq> DirE then (Inl SourceNotDir, w)
          else
            let (made, w) = mkdir_all root w in
            case made of
              Inl e \<Rightarrow> (Inl (MakeStaging e), w)
            | Inr _ \<Rightarrow>
                let staging = root @ [last destination];
                    w = snd (remove_all staging w);
                    (copied, w) = copy_directory source staging w in
                case copied of
                  Inl e \<Rightarrow> (Inl (CopyStaged e), snd (remove_all staging w))
                | Inr _ \<Rightarrow>
                    let (prepared, w) = (case prepare of None \<Rightarrow> (True, w) | Some f \<Rightarrow> f staging w) in
                    if \<not> prepared then (Inl PrepareStaged, snd (remove_all staging w))
                    else
                      let (made, w) = mkdir_all (butlast destination) w in
                      case made of
                        Inl e \<Rightarrow> (Inl (MakeParent e), snd (remove_all staging w))
                      | Inr _ \<Rightarrow> replace_staged_directory staging destination root w)"

definition promote_run_bundle :: "path \<Rightarrow> path \<Rightarrow> string \<Rightarrow> 'd world \<Rightarrow> (promote_err, path) res \<times> 'd world" where
  "promote_run_bundle work source job w =
     (let destination = canonical_run_path work job;
          (r, w) = promote_directory source destination (current_staging_root work) None w in
      (case r of Inl e \<Rightarrow> Inl e | Inr _ \<Rightarrow> Inr destination, w))"

definition promote_meeting_bundle :: "path \<Rightarrow> path \<Rightarrow> string \<Rightarrow> 'd world \<Rightarrow> (promote_err, path) res \<times> 'd world" where
  "promote_meeting_bundle work source job w =
     (let destination = canonical_meeting_path work job;
          (r, w) = promote_directory source destination (current_staging_root work) None w in
      (case r of Inl e \<Rightarrow> Inl e | Inr _ \<Rightarrow> Inr destination, w))"

text \<open>\<open>path.Ext\<close>: from the last dot of the file's name.\<close>

definition path_ext :: "string \<Rightarrow> string" where
  "path_ext s = (if CHR ''.'' \<in> set s then CHR ''.'' # rev (takeWhile (\<lambda>c. c \<noteq> CHR ''.'') (rev s)) else [])"

definition promote_opus_file :: "path \<Rightarrow> path \<Rightarrow> string \<Rightarrow> 'd world \<Rightarrow> (promote_err, path) res \<times> 'd world" where
  "promote_opus_file work source job w =
     (let (info, w) = stat source w in
      case info of
        Inl e \<Rightarrow> (Inl (StatSource e), w)
      | Inr e \<Rightarrow>
          if e = DirE then (Inl SourceIsDir, w)
          else
            let destination = current_root work @ [job @ path_ext (last source)]; root = current_staging_root work;
                (made, w) = mkdir_all root w in
            case made of
              Inl e \<Rightarrow> (Inl (MakeStaging e), w)
            | Inr _ \<Rightarrow>
                let (made, w) = mkdir_all (butlast destination) w in
                case made of
                  Inl e \<Rightarrow> (Inl (MakeParent e), w)
                | Inr _ \<Rightarrow>
                    let staging = root @ [last destination];
                        w = snd (remove_entry staging w);
                        (linked, w) = link_file source staging w;
                        (staged, w) = (case linked of Inr _ \<Rightarrow> (Inr (), w) | Inl _ \<Rightarrow>
                          let (copied, w) = copy_file source staging w in
                          case copied of Inr _ \<Rightarrow> (Inr (), w) | Inl e \<Rightarrow> (Inl e, snd (remove_entry staging w))) in
                    case staged of
                      Inl e \<Rightarrow> (Inl (CopyStaged e), w)
                    | Inr _ \<Rightarrow>
                        let (placed, w) = rename staging destination w in
                        case placed of
                          Inl e \<Rightarrow> (Inl (PromoteRename e), snd (remove_entry staging w))
                        | Inr _ \<Rightarrow> (Inr destination, w))"

definition has_suffix :: "string \<Rightarrow> string \<Rightarrow> bool" where
  "has_suffix s t \<longleftrightarrow> length t \<le> length s \<and> drop (length s - length t) s = t"

definition trim_suffix :: "string \<Rightarrow> string \<Rightarrow> string" where
  "trim_suffix s t = (if has_suffix s t then take (length s - length t) s else s)"

fun reconcile_entries ::
  "path \<Rightarrow> string list \<Rightarrow> reconcile_action list \<Rightarrow> 'd world \<Rightarrow> reconcile_action list \<times> (reconcile_err, unit) res \<times> 'd world" where
  "reconcile_entries root [] actions w = (actions, Inr (), w)"
| "reconcile_entries root (name # names) actions w =
     (let staged = root @ [name] in
      if \<not> has_suffix name promotion_backup_suffix then
        let (gone, w) = remove_all staged w in
        case gone of
          Inl e \<Rightarrow> (actions, Inl (RemoveOrphan staged e), w)
        | Inr _ \<Rightarrow> reconcile_entries root names (actions @ [RemovedOrphan staged]) w
      else
        let destination = butlast root @ [trim_suffix name promotion_backup_suffix];
            (info, w) = stat destination w in
        case info of
          Inr _ \<Rightarrow>
            let (gone, w) = remove_all staged w in
            (case gone of
               Inl e \<Rightarrow> (actions, Inl (RemoveBackup staged e), w)
             | Inr _ \<Rightarrow> reconcile_entries root names (actions @ [RemovedBackup staged]) w)
        | Inl CallFailed \<Rightarrow> (actions, Inl (StatPromoted destination CallFailed), w)
        | Inl NotExist \<Rightarrow>
            let (moved, w) = rename staged destination w in
            (case moved of
               Inl e \<Rightarrow> (actions, Inl (RestoreBackup destination e), w)
             | Inr _ \<Rightarrow> reconcile_entries root names (actions @ [Restored destination]) w))"

definition reconcile_promotion_staging :: "path \<Rightarrow> 'd world \<Rightarrow> reconcile_action list \<times> (reconcile_err, unit) res \<times> 'd world" where
  "reconcile_promotion_staging root w =
     (let (entries, w) = read_dir root w in
      case entries of
        Inl NotExist \<Rightarrow> ([], Inr (), w)
      | Inl CallFailed \<Rightarrow> ([], Inl (ReadStaging CallFailed), w)
      | Inr names \<Rightarrow> reconcile_entries root names [] w)"

subsection \<open>A promotion and its repair\<close>

definition staging_of :: "path \<Rightarrow> path \<Rightarrow> path" where "staging_of root dst = root @ [last dst]"
definition backup_of :: "path \<Rightarrow> path \<Rightarrow> path" where "backup_of root dst = root @ [last dst @ promotion_backup_suffix]"

text \<open>
  Where a promotion may start: the staging root beside the destination, the source elsewhere, nothing staged or set
  aside for this destination, and no entry of the staging root without its directory entry.
\<close>

definition rooted :: "path \<Rightarrow> file_tree \<Rightarrow> bool" where
  "rooted root f \<longleftrightarrow> look f root = None \<or> look f root = Some DirE \<and> look f (butlast root) = Some DirE"

definition promotion_paths :: "path \<Rightarrow> path \<Rightarrow> bool" where
  "promotion_paths dst root \<longleftrightarrow> dst \<noteq> [] \<and> \<not> has_suffix (last dst) promotion_backup_suffix \<and>
     root \<noteq> [] \<and> butlast root = butlast dst \<and> last root \<noteq> last dst"

definition promotable :: "file_tree \<Rightarrow> path \<Rightarrow> path \<Rightarrow> path \<Rightarrow> bool" where
  "promotable fs src dst root \<longleftrightarrow>
     promotion_paths dst root \<and> apart src root \<and> apart src dst \<and> rooted root fs \<and>
     tree_at fs (staging_of root dst) = no_tree \<and> tree_at fs (backup_of root dst) = no_tree \<and>
     (look fs dst = None \<longrightarrow> tree_at fs dst = no_tree) \<and>
     (\<forall>n. look fs (root @ [n]) = None \<longrightarrow> tree_at fs (root @ [n]) = no_tree)"

definition settled :: "file_tree \<Rightarrow> path \<Rightarrow> path \<Rightarrow> path \<Rightarrow> file_tree \<Rightarrow> bool" where
  "settled fs src dst root f \<longleftrightarrow> tree_at f dst = tree_at fs dst \<and> (look fs dst = None \<longrightarrow> tree_at f (backup_of root dst) = no_tree)"

definition set_aside :: "file_tree \<Rightarrow> path \<Rightarrow> path \<Rightarrow> path \<Rightarrow> file_tree \<Rightarrow> bool" where
  "set_aside fs src dst root f \<longleftrightarrow> look fs dst = Some DirE \<and> tree_at f dst = no_tree \<and>
     tree_at f (backup_of root dst) = tree_at fs dst \<and> look f (butlast dst) = Some DirE \<and> look f root = Some DirE"

definition promoted :: "file_tree \<Rightarrow> path \<Rightarrow> path \<Rightarrow> path \<Rightarrow> file_tree \<Rightarrow> bool" where
  "promoted fs src dst root f \<longleftrightarrow> tree_at f dst = tree_at fs src \<and> look fs src = Some DirE"

definition others_same :: "file_tree \<Rightarrow> path \<Rightarrow> path \<Rightarrow> file_tree \<Rightarrow> bool" where
  "others_same fs dst root f \<longleftrightarrow>
     (\<forall>n. n \<noteq> last dst \<longrightarrow> n \<noteq> last dst @ promotion_backup_suffix \<longrightarrow> tree_at f (root @ [n]) = tree_at fs (root @ [n]))"

lemma backup_name: "last dst \<noteq> last dst @ promotion_backup_suffix"
  by (simp add: promotion_backup_suffix_def)

lemma paths_apart:
  assumes "promotion_paths dst root"
  shows "apart dst root" "apart dst (root @ [n])" "\<not> prefix dst (butlast dst)" "\<not> prefix (root @ [n]) root" "\<not> prefix (root @ [n]) (butlast dst)"
    "prefix (butlast dst) root" "dst = butlast dst @ [last dst]" "root = butlast dst @ [last root]"
proof -
  note a = assms[unfolded promotion_paths_def]
  show r: "root = butlast dst @ [last root]" and d: "dst = butlast dst @ [last dst]" using a by (metis append_butlast_last_id)+
  show dr: "apart dst root" using apart_siblings[of "last dst" "last root" "butlast dst"] r d a by metis
  then show "apart dst (root @ [n])" by (rule apart_extend)
  show "\<not> prefix dst (butlast dst)" using d by (metis append_butlast_last_id butlast_append prefix_length_le length_append_singleton not_less_eq_eq order_refl)
  show "\<not> prefix (root @ [n]) root" by (auto dest: prefix_length_le)
  show "\<not> prefix (root @ [n]) (butlast dst)" using r prefix_length_le[of "root @ [n]" "butlast dst"] by (metis Suc_n_not_le_n length_append_singleton le_SucI)
  show "prefix (butlast dst) root" using r by (metis prefixI)
qed

lemma promotable_apart:
  assumes "promotable fs src dst root"
  shows "apart (staging_of root dst) dst" "apart (backup_of root dst) dst" "apart (staging_of root dst) (backup_of root dst)"
    "apart (staging_of root dst) src" "apart (backup_of root dst) src" "apart dst src" "apart dst (root @ [n])"
    "n \<noteq> last dst \<Longrightarrow> apart (staging_of root dst) (root @ [n])"
    "n \<noteq> last dst @ promotion_backup_suffix \<Longrightarrow> apart (backup_of root dst) (root @ [n])"
    "staging_of root dst \<noteq> []" "backup_of root dst \<noteq> []" "dst \<noteq> []" "\<not> prefix dst root" "\<not> prefix dst (butlast dst)"
    "\<not> prefix (root @ [n]) root" "\<not> prefix (root @ [n]) (butlast dst)" "prefix (butlast dst) root" "src \<noteq> []" "\<not> prefix src root"
    "\<not> prefix src (butlast dst)" "butlast (backup_of root dst) = root" "butlast (staging_of root dst) = root"
proof -
  note a = assms[unfolded promotable_def]
  note pa = paths_apart[OF conjunct1[OF a]]
  from pa(2) show "apart (staging_of root dst) dst" "apart (backup_of root dst) dst" by (simp_all add: staging_of_def backup_of_def apart_sym)
  show "apart (staging_of root dst) (backup_of root dst)"
    unfolding staging_of_def backup_of_def by (rule apart_siblings) (rule backup_name)
  have "apart src (root @ [n])" for n using apart_extend a by blast
  then show "apart (staging_of root dst) src" "apart (backup_of root dst) src" unfolding staging_of_def backup_of_def by (blast intro: apart_sym)+
  show "apart dst src" using a apart_sym by blast
  show "n \<noteq> last dst \<Longrightarrow> apart (staging_of root dst) (root @ [n])" "n \<noteq> last dst @ promotion_backup_suffix \<Longrightarrow> apart (backup_of root dst) (root @ [n])"
    unfolding staging_of_def backup_of_def by (rule apart_siblings; simp)+
  show "\<not> prefix dst root" using pa(1) by (simp add: apart_def)
  show "src \<noteq> []" "\<not> prefix src root" using a by (auto simp: apart_def)
  show "\<not> prefix src (butlast dst)" using a pa(6) by (metis apart_def prefix_order.trans)
qed (use assms paths_apart[of dst root] in \<open>simp_all add: staging_of_def backup_of_def promotable_def promotion_paths_def\<close>)

text \<open>Staging: until the first rename the destination and what is set aside do not change.\<close>

definition staged_ready :: "file_tree \<Rightarrow> path \<Rightarrow> path \<Rightarrow> path \<Rightarrow> file_tree \<Rightarrow> bool" where
  "staged_ready fs src dst root f \<longleftrightarrow> tree_at f dst = tree_at fs dst \<and> tree_at f (backup_of root dst) = no_tree \<and> others_same fs dst root f"

lemma ready_steps:
  assumes p: "promotable fs src dst root" and "staged_ready fs src dst root (wd_fs w)"
  shows "staged_ready fs src dst root (wd_fs (snd (remove_all (staging_of root dst) w)))"
    and "staged_ready fs src dst root (wd_fs (snd (copy_directory src (staging_of root dst) w)))"
    and "prefix d root \<Longrightarrow> staged_ready fs src dst root (wd_fs (snd (mkdir_all d w)))"
proof -
  note a = promotable_apart[OF p]
  show "staged_ready fs src dst root (wd_fs (snd (remove_all (staging_of root dst) w)))"
    "staged_ready fs src dst root (wd_fs (snd (copy_directory src (staging_of root dst) w)))"
    using assms(2) a(1,3,8) by (simp_all add: staged_ready_def others_same_def remove_all_tree copy_directory_tree)
  assume d: "prefix d root"
  have "\<not> prefix dst d" "\<not> prefix (root @ [n]) d" for n using a(13,15) d by (metis prefix_order.trans)+
  then show "staged_ready fs src dst root (wd_fs (snd (mkdir_all d w)))"
    using assms(2) by (simp add: staged_ready_def others_same_def mkdir_all_tree backup_of_def)
qed

lemma ready_settled: "promotable fs src dst root \<Longrightarrow> staged_ready fs src dst root f \<Longrightarrow> settled fs src dst root f"
  by (simp add: staged_ready_def settled_def)

definition safe_state :: "file_tree \<Rightarrow> path \<Rightarrow> path \<Rightarrow> path \<Rightarrow> file_tree \<Rightarrow> bool" where
  "safe_state fs src dst root f \<longleftrightarrow> (settled fs src dst root f \<or> set_aside fs src dst root f \<or> promoted fs src dst root f) \<and> others_same fs dst root f"

lemma ready_safe: "promotable fs src dst root \<Longrightarrow> staged_ready fs src dst root f \<Longrightarrow> safe_state fs src dst root f"
  using ready_settled by (auto simp: safe_state_def staged_ready_def)

lemma safe_staging:
  assumes p: "promotable fs src dst root" and "safe_state fs src dst root (wd_fs w)"
  shows "safe_state fs src dst root (wd_fs (snd (remove_all (staging_of root dst) w)))"
proof -
  note a = promotable_apart[OF p]
  have "look (wd_fs (snd (remove_all (staging_of root dst) w))) (butlast dst) = look (wd_fs w) (butlast dst)"
    using a(16)[of "last dst"] by (intro remove_all_look) (simp add: staging_of_def)
  moreover have "look (wd_fs (snd (remove_all (staging_of root dst) w))) root = look (wd_fs w) root"
    using a(15)[of "last dst"] by (intro remove_all_look) (simp add: staging_of_def)
  ultimately show ?thesis using assms(2) a(1,3,8)
    by (simp add: safe_state_def settled_def set_aside_def promoted_def others_same_def remove_all_tree)
qed


lemma rename_look: "\<not> prefix src q \<Longrightarrow> \<not> prefix dst q \<Longrightarrow> look (wd_fs (snd (rename src dst w))) q = look (wd_fs w) q"
proof -
  assume n: "\<not> prefix src q" "\<not> prefix dst q"
  then have "src \<noteq> []" "dst \<noteq> []" by auto
  then have "look (snd (rename_tree src dst fs)) q = look fs q" for fs using n by (simp add: rename_tree_def look_move)
  then show ?thesis using file_call_cases[of "rename_tree src dst" untouched w] by (auto simp: rename_def untouched_def)
qed

lemma replace_safe:
  assumes p: "promotable fs src dst root" and r: "staged_ready fs src dst root (wd_fs w)"
    and st: "tree_at (wd_fs w) (staging_of root dst) = tree_at fs src" and sd: "look fs src = Some DirE"
    and pd: "look (wd_fs w) (butlast dst) = Some DirE"
    and run: "replace_staged_directory (staging_of root dst) dst root w = (res, w')"
  shows "safe_state fs src dst root (wd_fs w') \<and> (res = Inr () \<longrightarrow> promoted fs src dst root (wd_fs w'))"
proof -
  note a = promotable_apart[OF p]
  let ?S = "staging_of root dst" and ?B = "backup_of root dst"
  have placed: "safe_state fs src dst root (wd_fs w2) \<and> promoted fs src dst root (wd_fs w2)"
    if "rename ?S dst w1 = (Inr u, w2)" "tree_at (wd_fs w1) ?S = tree_at fs src" "others_same fs dst root (wd_fs w1)" for w1 w2 u
  proof -
    have "others_same fs dst root (wd_fs w2)"
      using that rename_other_tree[OF a(8) a(7), of _ w1] by (simp add: others_same_def)
    moreover have "promoted fs src dst root (wd_fs w2)" using rename_done(1)[OF that(1) a(12,10)] that(2) sd by (simp add: promoted_def)
    ultimately show ?thesis by (simp add: safe_state_def)
  qed
  obtain info w1 where i: "stat dst w = (info, w1)" by fastforce
  have f1: "wd_fs w1 = wd_fs w" using stat_fs[of dst w] i by simp
  note ready = ready_safe[OF p] and cleared = safe_staging[OF p]
  consider (failed) "info = Inl CallFailed" | (missing) "info = Inl NotExist" | (notdir) e where "info = Inr e" "e \<noteq> DirE" | (dir) "info = Inr DirE"
    by (cases info) (auto intro: call_err.exhaust)
  then show ?thesis
  proof cases
    case missing
    obtain pl w2 where q: "rename ?S dst w1 = (pl, w2)" by fastforce
    show ?thesis
    proof (cases pl)
      case (Inl e)
      then have "wd_fs w2 = wd_fs w" using rename_failed q f1 by metis
      then show ?thesis using run missing Inl cleared[of w2] ready[OF r] by (auto simp: replace_staged_directory_def i q)
    next
      case (Inr u)
      then show ?thesis using run missing placed[of w1 u w2] q st r f1 by (auto simp: replace_staged_directory_def i staged_ready_def)
    qed
  next
    case dir
    have od: "look fs dst = Some DirE"
      using stat_result(1)[of dst w DirE w1] i dir r by (metis append_Nil2 staged_ready_def tree_at_def)
    let ?w2 = "snd (remove_all ?B w1)"
    have r2: "staged_ready fs src dst root (wd_fs ?w2)" "tree_at (wd_fs ?w2) ?S = tree_at fs src" "look (wd_fs ?w2) (butlast dst) = Some DirE"
      using r st pd f1 a(2,3,9,11) a(16)[of "last dst @ promotion_backup_suffix"]
      by (simp_all add: staged_ready_def others_same_def remove_all_tree remove_all_none remove_all_look apart_sym backup_of_def)
    obtain mv w3 where q3: "rename dst ?B ?w2 = (mv, w3)" by fastforce
    show ?thesis
    proof (cases mv)
      case (Inl e)
      then have "wd_fs w3 = wd_fs ?w2" using rename_failed q3 by metis
      then show ?thesis using run dir Inl q3 cleared[of w3] ready[OF r2(1)] by (auto simp: replace_staged_directory_def i backup_of_def Let_def)
    next
      case (Inr u)
      note m = rename_done[OF q3[unfolded Inr] a(11,12)]
      have s3: "set_aside fs src dst root (wd_fs w3)" "tree_at (wd_fs w3) ?S = tree_at fs src" "others_same fs dst root (wd_fs w3)"
        "look (wd_fs w3) (butlast dst) = Some DirE"
      proof -
        show l: "look (wd_fs w3) (butlast dst) = Some DirE"
          using rename_look[of dst "butlast dst" ?B ?w2] a(14) a(16)[of "last dst @ promotion_backup_suffix"] q3 r2(3) by (simp add: backup_of_def)
        have "look (wd_fs ?w2) root = Some DirE"
          using file_call_Inr[OF q3[unfolded Inr rename_def]] a(21) by (auto simp: rename_tree_def split: if_splits)
        then have "look (wd_fs w3) root = Some DirE"
          using rename_look[of dst root ?B ?w2] a(13) a(15)[of "last dst @ promotion_backup_suffix"] q3 by (simp add: backup_of_def)
        then show "set_aside fs src dst root (wd_fs w3)" using m r2(1) od l by (simp add: set_aside_def staged_ready_def)
        show "tree_at (wd_fs w3) ?S = tree_at fs src"
          using rename_other_tree[of dst ?S ?B ?w2] a(1,3) q3 r2(2) by (simp add: apart_sym)
        show "others_same fs dst root (wd_fs w3)"
          using rename_other_tree[OF a(7) a(9), of _ ?w2] q3 r2(1) by (simp add: others_same_def staged_ready_def)
      qed
      obtain pl w4 where q4: "rename ?S dst w3 = (pl, w4)" by fastforce
      show ?thesis
      proof (cases pl)
        case (Inr u')
        note d = placed[OF q4[unfolded Inr] s3(2,3)]
        have "promoted fs src dst root (wd_fs (snd (remove_all ?B w4)))" "others_same fs dst root (wd_fs (snd (remove_all ?B w4)))"
          using d a(2,9) by (simp_all add: promoted_def safe_state_def others_same_def remove_all_tree)
        then show ?thesis using run dir \<open>mv = Inr u\<close> Inr q3 q4
          by (auto simp: replace_staged_directory_def i backup_of_def Let_def safe_state_def)
      next
        case (Inl e)
        then have f4: "wd_fs w4 = wd_fs w3" using rename_failed q4 by metis
        obtain un w5 where q5: "rename ?B dst w4 = (un, w5)" by fastforce
        show ?thesis
        proof (cases un)
          case Inl': (Inl e')
          then have "wd_fs w5 = wd_fs w3" using rename_failed q5 f4 by metis
          then show ?thesis using run dir \<open>mv = Inr u\<close> Inl Inl' q3 q4 q5 s3
            by (auto simp: replace_staged_directory_def i backup_of_def Let_def safe_state_def)
        next
          case (Inr v)
          note n = rename_done[OF q5[unfolded Inr] a(12,11)]
          have "settled fs src dst root (wd_fs w5)" using n s3(1) f4 by (simp add: settled_def set_aside_def)
          moreover have "others_same fs dst root (wd_fs w5)"
            using rename_other_tree[OF a(9) a(7), of _ w4] q5 s3(3) f4 by (simp add: others_same_def)
          ultimately have "safe_state fs src dst root (wd_fs w5)" by (simp add: safe_state_def)
          then show ?thesis using run dir \<open>mv = Inr u\<close> Inl Inr q3 q4 q5 cleared[of w5]
            by (auto simp: replace_staged_directory_def i backup_of_def Let_def)
        qed
      qed
    qed
  qed (use run cleared[of w1] ready[OF r] f1 in \<open>auto simp: replace_staged_directory_def i\<close>)
qed

lemma promote_safe:
  assumes p: "promotable (wd_fs w) src dst root" and run: "promote_directory src dst root None w = (res, w')"
  shows "safe_state (wd_fs w) src dst root (wd_fs w') \<and> (res = Inr () \<longrightarrow> promoted (wd_fs w) src dst root (wd_fs w'))"
proof -
  note a = promotable_apart[OF p]
  let ?fs = "wd_fs w" and ?S = "staging_of root dst"
  note ready = ready_safe[OF p] and cleared = safe_staging[OF p] and steps = ready_steps[OF p]
  have r0: "staged_ready ?fs src dst root ?fs" using p by (simp add: staged_ready_def promotable_def others_same_def)
  have s0: "safe_state ?fs src dst root ?fs" using ready[OF r0] .
  obtain info w1 where i: "stat src w = (info, w1)" by fastforce
  have f1: "wd_fs w1 = ?fs" using stat_fs[of src w] i by simp
  show ?thesis
  proof (cases "info = Inr DirE")
    case False
    then show ?thesis using run s0 f1 by (cases info) (auto simp: promote_directory_def i)
  next
    case True
    have sd: "look ?fs src = Some DirE" using stat_result(1) i True by metis
    obtain m w2 where q2: "mkdir_all root w1 = (m, w2)" by fastforce
    have r2: "staged_ready ?fs src dst root (wd_fs w2)" "tree_at (wd_fs w2) ?S = no_tree" "tree_at (wd_fs w2) src = tree_at ?fs src"
      using steps(3)[of w1 root] mkdir_all_tree[OF a(15), of w1 "last dst"] mkdir_all_tree[OF a(19), of w1] q2 r0 f1 p
      by (simp_all add: promotable_def staging_of_def)
    show ?thesis
    proof (cases m)
      case (Inl e)
      then show ?thesis using run True q2 ready[OF r2(1)] by (auto simp: promote_directory_def i)
    next
      case (Inr u)
      let ?w3 = "snd (remove_all ?S w2)"
      have r3: "staged_ready ?fs src dst root (wd_fs ?w3)" "tree_at (wd_fs ?w3) ?S = no_tree" "tree_at (wd_fs ?w3) src = tree_at ?fs src"
        using steps(1)[OF r2(1)] remove_all_none[OF a(10) r2(2)] remove_all_tree[OF a(4), of w2] r2(3) by simp_all
      obtain c w4 where q4: "copy_directory src ?S ?w3 = (c, w4)" by fastforce
      have r4: "staged_ready ?fs src dst root (wd_fs w4)" using steps(2)[OF r3(1)] q4 by simp
      show ?thesis
      proof (cases c)
        case Inl': (Inl e)
        then show ?thesis using run True Inr q2 q4 cleared[OF ready[OF r4]]
          by (auto simp: promote_directory_def i staging_of_def Let_def)
      next
        case Inr': (Inr v)
        have t4: "tree_at (wd_fs w4) ?S = tree_at ?fs src"
          using copy_directory_done[OF q4[unfolded Inr'] r3(2) a(10,18)] r3(3) by simp
        obtain m' w5 where q5: "mkdir_all (butlast dst) w4 = (m', w5)" by fastforce
        have r5: "staged_ready ?fs src dst root (wd_fs w5)" "tree_at (wd_fs w5) ?S = tree_at ?fs src"
          using steps(3)[OF r4 a(17)] mkdir_all_tree[OF a(16), of w4 "last dst"] q5 t4 by (simp_all add: staging_of_def)
        show ?thesis
        proof (cases m')
          case Inl'': (Inl e)
          then show ?thesis using run True Inr Inr' q2 q4 q5 cleared[OF ready[OF r5(1)]]
            by (auto simp: promote_directory_def i staging_of_def Let_def)
        next
          case Inr'': (Inr v')
          have "look (wd_fs w5) (butlast dst) = Some DirE" using mkdir_all_done[OF q5[unfolded Inr'']] by simp
          then show ?thesis using replace_safe[OF p r5 sd, of res w'] run True Inr Inr' Inr'' q2 q4 q5
            by (auto simp: promote_directory_def i staging_of_def Let_def)
        qed
      qed
    qed
  qed
qed


subsection \<open>The repair\<close>

lemma map_of_tree: "p \<noteq> [] \<Longrightarrow> map_of fs (p @ r) = tree_at fs p r"
  by (simp add: tree_at_def look_def)

lemma names_in_tree: "n \<in> set (names_in p fs) \<longleftrightarrow> tree_at fs (p @ [n]) \<noteq> no_tree"
proof -
  have "n \<in> set (names_in p fs) \<longleftrightarrow> (\<exists>q\<in>fst ` set fs. strict_prefix p q \<and> q ! length p = n)"
    by (force simp: names_in_def)
  also have "\<dots> \<longleftrightarrow> (\<exists>r. p @ n # r \<in> fst ` set fs)"
  proof
    assume "\<exists>q\<in>fst ` set fs. strict_prefix p q \<and> q ! length p = n"
    then obtain q where q: "q \<in> fst ` set fs" "strict_prefix p q" "q ! length p = n" by blast
    from q(2) obtain y ys where "q = p @ y # ys" by (rule strict_prefixE')
    then show "\<exists>r. p @ n # r \<in> fst ` set fs" using q by auto
  next
    assume "\<exists>r. p @ n # r \<in> fst ` set fs"
    then obtain r where "p @ n # r \<in> fst ` set fs" by blast
    then show "\<exists>q\<in>fst ` set fs. strict_prefix p q \<and> q ! length p = n"
      by (rule bexI[rotated]) (simp add: strict_prefix_def)
  qed
  also have "\<dots> \<longleftrightarrow> (\<exists>r. map_of fs ((p @ [n]) @ r) \<noteq> None)" by (simp add: map_of_eq_None_iff)
  also have "\<dots> \<longleftrightarrow> tree_at fs (p @ [n]) \<noteq> no_tree" by (subst map_of_tree) (auto simp: no_tree_def fun_eq_iff)
  finally show ?thesis .
qed

lemma names_in_distinct [simp]: "distinct (names_in p fs)"
  by (simp add: names_in_def)

lemma restarted_simps [simp]: "wd_plan (restarted w) = []" "\<not> wd_dead (restarted w)" "wd_fs (restarted w) = wd_fs w"
  by (simp_all add: restarted_def)

definition works :: "'d world \<Rightarrow> bool" where "works w \<longleftrightarrow> wd_plan w = [] \<and> \<not> wd_dead w"

lemma works_calls:
  assumes "works w"
  shows "remove_all p w = (Inr (), w\<lparr>wd_fs := cut_tree p (wd_fs w)\<rparr>)"
    and "stat p w = (case look (wd_fs w) p of None \<Rightarrow> Inl NotExist | Some e \<Rightarrow> Inr e, w)"
    and "rename p q w = (fst (rename_tree p q (wd_fs w)), w\<lparr>wd_fs := snd (rename_tree p q (wd_fs w))\<rparr>)"
    and "read_dir p w = (case look (wd_fs w) p of None \<Rightarrow> Inl NotExist | Some DirE \<Rightarrow> Inr (names_in p (wd_fs w)) | _ \<Rightarrow> Inl CallFailed, w)"
    and "works (w\<lparr>wd_fs := f\<rparr>)"
  using assms by (simp_all add: works_def remove_all_def stat_def rename_def read_dir_def file_call_works)

lemma has_suffix_append [simp]: "has_suffix (s @ t) t" "trim_suffix (s @ t) t = s"
  by (simp_all add: has_suffix_def trim_suffix_def)

lemma has_suffixD: "has_suffix n t \<Longrightarrow> n = trim_suffix n t @ t"
  by (metis append_take_drop_id has_suffix_def trim_suffix_def)


text \<open>
  While entries remain: the destination can be repaired if its backup is among them and is right otherwise; entries
  that were dealt with are gone.
\<close>

definition repairable :: "file_tree \<Rightarrow> path \<Rightarrow> path \<Rightarrow> path \<Rightarrow> string list \<Rightarrow> file_tree \<Rightarrow> bool" where
  "repairable fs src dst root names f \<longleftrightarrow>
     (if last dst @ promotion_backup_suffix \<in> set names
      then (settled fs src dst root f \<or> set_aside fs src dst root f \<or> promoted fs src dst root f) \<and> tree_at f (backup_of root dst) \<noteq> no_tree
      else tree_at f dst = tree_at fs dst \<or> promoted fs src dst root f) \<and>
     (\<forall>n\<in>set names. n \<noteq> last dst \<longrightarrow> n \<noteq> last dst @ promotion_backup_suffix \<longrightarrow> look f (root @ [n]) \<noteq> None) \<and>
     (\<forall>n. n \<notin> set names \<longrightarrow> tree_at f (root @ [n]) = no_tree) \<and> look f root = Some DirE \<and> look f (butlast dst) = Some DirE"

lemma look_tree: "look f p = tree_at f p []"
  by (simp add: tree_at_def)

lemma repairable_gone:
  assumes "repairable fs src dst root (n # names) f" and "n \<notin> set names"
    and "\<And>m. m \<noteq> n \<Longrightarrow> tree_at g (root @ [m]) = tree_at f (root @ [m])" and "tree_at g (root @ [n]) = no_tree"
    and "look g root = Some DirE" "look g (butlast dst) = Some DirE"
    and "n = last dst @ promotion_backup_suffix \<Longrightarrow> tree_at g dst = tree_at fs dst \<or> promoted fs src dst root g"
    and "n \<noteq> last dst @ promotion_backup_suffix \<Longrightarrow> tree_at g dst = tree_at f dst"
  shows "repairable fs src dst root names g"
proof -
  have "tree_at g (root @ [m]) = no_tree" if "m \<notin> set names" for m
    using assms(1,3,4) that by (cases "m = n") (auto simp: repairable_def)
  moreover have "look g (root @ [m]) \<noteq> None" if "m \<in> set names" "m \<noteq> last dst" "m \<noteq> last dst @ promotion_backup_suffix" for m
  proof -
    have "m \<noteq> n" using that(1) assms(2) by blast
    then show ?thesis using assms(1,3) that unfolding look_tree repairable_def by auto
  qed
  moreover have "if last dst @ promotion_backup_suffix \<in> set names
      then (settled fs src dst root g \<or> set_aside fs src dst root g \<or> promoted fs src dst root g) \<and> tree_at g (backup_of root dst) \<noteq> no_tree
      else tree_at g dst = tree_at fs dst \<or> promoted fs src dst root g"
  proof (cases "n = last dst @ promotion_backup_suffix")
    case False
    have b: "tree_at g (backup_of root dst) = tree_at f (backup_of root dst)" using assms(3) False by (simp add: backup_of_def)
    have "look f root = look g root" "look f (butlast dst) = look g (butlast dst)" using assms(1,5,6) by (simp_all add: repairable_def)
    moreover have "if last dst @ promotion_backup_suffix \<in> set names
        then (settled fs src dst root f \<or> set_aside fs src dst root f \<or> promoted fs src dst root f) \<and> tree_at f (backup_of root dst) \<noteq> no_tree
        else tree_at f dst = tree_at fs dst \<or> promoted fs src dst root f"
      using assms(1) False by (simp add: repairable_def split: if_splits)
    ultimately show ?thesis unfolding settled_def set_aside_def promoted_def b assms(8)[OF False] by metis
  qed (use assms(2,7) in auto)
  ultimately show ?thesis using assms(5,6) by (simp add: repairable_def)
qed

lemma cut_other: "apart p x \<Longrightarrow> tree_at (cut_tree p f) x = tree_at f x"
  using apart_below[of p x] by (auto simp: tree_at_def look_def map_of_cut apart_def)

lemma cut_gone: "p \<noteq> [] \<Longrightarrow> tree_at (cut_tree p f) p = no_tree"
  by (auto simp: tree_at_def no_tree_def)

lemma repair_step:
  assumes p: "promotion_paths dst root" and w: "works w" and r: "repairable fs src dst root (n # names) (wd_fs w)" and n: "n \<notin> set names"
  shows "\<exists>acts' w'. reconcile_entries root (n # names) acts w = reconcile_entries root names acts' w' \<and> works w' \<and>
    repairable fs src dst root names (wd_fs w')"
proof -
  note a = paths_apart[OF p]
  let ?f = "wd_fs w" and ?b = "last dst @ promotion_backup_suffix"
  have root: "root = butlast dst @ [last root]" "dst = butlast dst @ [last dst]" using p by (metis append_butlast_last_id promotion_paths_def)+
  have rp: "look ?f root = Some DirE" "look ?f (butlast dst) = Some DirE" using r by (simp_all add: repairable_def)
  have cut: "repairable fs src dst root names (cut_tree (root @ [n]) ?f)"
    if "n = ?b \<Longrightarrow> tree_at ?f dst = tree_at fs dst \<or> promoted fs src dst root ?f"
  proof (rule repairable_gone[OF r n])
    show "tree_at (cut_tree (root @ [n]) ?f) (root @ [m]) = tree_at ?f (root @ [m])" if "m \<noteq> n" for m
      by (rule cut_other) (use that in \<open>simp add: apart_siblings\<close>)
    show "tree_at (cut_tree (root @ [n]) ?f) (root @ [n]) = no_tree" by (rule cut_gone) simp
    show "look (cut_tree (root @ [n]) ?f) root = Some DirE" "look (cut_tree (root @ [n]) ?f) (butlast dst) = Some DirE"
      using rp a(4,5) by simp_all
    have d: "tree_at (cut_tree (root @ [n]) ?f) dst = tree_at ?f dst" by (rule cut_other) (use a(2) apart_sym in blast)
    then show "tree_at (cut_tree (root @ [n]) ?f) dst = tree_at ?f dst" .
    show "n = ?b \<Longrightarrow> tree_at (cut_tree (root @ [n]) ?f) dst = tree_at fs dst \<or> promoted fs src dst root (cut_tree (root @ [n]) ?f)"
      using that d by (simp add: promoted_def)
  qed
  show ?thesis
  proof (cases "has_suffix n promotion_backup_suffix")
    case False
    then have "n \<noteq> ?b" by auto
    then show ?thesis using False cut works_calls[OF w]
      by (intro exI[of _ "acts @ [RemovedOrphan (root @ [n])]"] exI[of _ "w\<lparr>wd_fs := cut_tree (root @ [n]) ?f\<rparr>"]) (simp add: Let_def)
  next
    case True
    let ?x = "trim_suffix n promotion_backup_suffix"
    let ?d = "butlast root @ [?x]"
    have nx: "n = ?x @ promotion_backup_suffix" by (rule has_suffixD[OF True])
    have bd: "butlast root = butlast dst" using p by (simp add: promotion_paths_def)
    have nd: "n \<noteq> last dst" using True p by (auto simp: promotion_paths_def)
    show ?thesis
    proof (cases "look ?f ?d")
      case (Some e)
      have "tree_at ?f dst = tree_at fs dst \<or> promoted fs src dst root ?f" if "n = ?b"
      proof -
        have "?d = dst" using that nx bd root(2) by auto
        then have "tree_at ?f dst \<noteq> no_tree" using Some by (auto simp: look_tree no_tree_def)
        then show ?thesis using r that by (auto simp: repairable_def settled_def set_aside_def)
      qed
      then show ?thesis using True Some cut works_calls[OF w]
        by (intro exI[of _ "acts @ [RemovedBackup (root @ [n])]"] exI[of _ "w\<lparr>wd_fs := cut_tree (root @ [n]) ?f\<rparr>"]) (simp add: Let_def)
    next
      case None
      have xr: "?x \<noteq> last root" using None rp(1) root(1) bd by auto
      have dr: "apart ?d root" using apart_siblings[OF xr, of "butlast dst"] root(1) bd by metis
      have dm: "apart ?d (root @ [m])" for m by (rule apart_extend[OF dr])
      have ar: "apart (root @ [n]) ?d" by (rule apart_sym[OF dm])
      have look_n: "look ?f (root @ [n]) \<noteq> None"
      proof (cases "n = ?b")
        case True
        then have d: "?d = dst" using nx bd root(2) by auto
        have bk: "root @ [n] = backup_of root dst" using True by (simp add: backup_of_def)
        consider "settled fs src dst root ?f" | "set_aside fs src dst root ?f" | "promoted fs src dst root ?f"
          using r True by (auto simp: repairable_def)
        then show ?thesis
        proof cases
          case 1
          then have "look fs dst = None" using None d by (metis look_tree settled_def)
          then show ?thesis using 1 r True by (simp add: repairable_def settled_def)
        next
          case 2
          then have "look ?f (backup_of root dst) = Some DirE" by (metis look_tree set_aside_def)
          then show ?thesis by (simp add: bk)
        next
          case 3
          then show ?thesis using None d by (metis look_tree promoted_def option.distinct(1))
        qed
      qed (use r nd in \<open>auto simp: repairable_def\<close>)
      let ?g = "move_tree (root @ [n]) ?d ?f"
      have ren: "rename_tree (root @ [n]) ?d ?f = (Inr (), ?g)"
        using look_n None rp(2) bd ar by (simp add: rename_tree_def apart_def)
      have g: "look ?g q = (if prefix ?d q then look ?f ((root @ [n]) @ drop (length ?d) q) else if prefix (root @ [n]) q then None else look ?f q)" for q
        using ar by (intro look_move) (simp_all add: apart_def)
      have other: "tree_at ?g x = tree_at ?f x" if "apart ?d x" "apart (root @ [n]) x" for x
        using apart_below[OF that(1)] apart_below[OF that(2)] by (simp add: tree_at_def g)
      have "repairable fs src dst root names ?g"
      proof (rule repairable_gone[OF r n])
        show "tree_at ?g (root @ [m]) = tree_at ?f (root @ [m])" if "m \<noteq> n" for m
          by (rule other[OF dm apart_siblings]) (use that in simp)
        show "tree_at ?g (root @ [n]) = no_tree" using apart_below[OF dm[of n]] by (simp add: tree_at_def no_tree_def g del: append_assoc)
        have "\<not> prefix ?d root" using dr by (simp add: apart_def)
        then show "look ?g root = Some DirE" using rp(1) a(4) by (simp add: g)
        have "\<not> prefix ?d (butlast dst)" using bd prefix_length_le[of ?d "butlast dst"] by simp
        then show "look ?g (butlast dst) = Some DirE" using rp(2) a(5) by (simp add: g)
        show "n \<noteq> ?b \<Longrightarrow> tree_at ?g dst = tree_at ?f dst"
        proof (rule other)
          assume "n \<noteq> ?b"
          then have "?x \<noteq> last dst" using nx by auto
          then show "apart ?d dst" using apart_siblings[of ?x "last dst" "butlast dst"] root(2) bd by simp
          show "apart (root @ [n]) dst" using a(2) apart_sym by blast
        qed
        show "n = ?b \<Longrightarrow> tree_at ?g dst = tree_at fs dst \<or> promoted fs src dst root ?g"
        proof -
          assume nb: "n = ?b"
          then have d: "?d = dst" using nx bd root(2) by auto
          have bk: "root @ [n] = backup_of root dst" using nb by (simp add: backup_of_def)
          have mv: "tree_at ?g dst = tree_at ?f (backup_of root dst)" using d by (auto simp: tree_at_def g bk[symmetric])
          have nodst: "look ?f dst = None" using None d by simp
          consider "settled fs src dst root ?f" | "set_aside fs src dst root ?f" | "promoted fs src dst root ?f"
            using r nb by (auto simp: repairable_def)
          then show ?thesis
          proof cases
            case 1
            then have "look fs dst = None" using nodst by (metis look_tree settled_def)
            then show ?thesis using 1 r nb by (simp add: repairable_def settled_def)
          next
            case 2
            then show ?thesis using mv by (simp add: set_aside_def)
          next
            case 3
            then show ?thesis using nodst by (metis look_tree promoted_def option.distinct(1))
          qed
        qed
      qed
      then show ?thesis using True None works_calls[OF w] ren
        by (intro exI[of _ "acts @ [Restored ?d]"] exI[of _ "w\<lparr>wd_fs := ?g\<rparr>"]) (simp add: Let_def)
    qed
  qed
qed

lemma repair_all:
  assumes p: "promotion_paths dst root" and "works w" and "repairable fs src dst root names (wd_fs w)" and "distinct names"
  shows "\<exists>acts' w'. reconcile_entries root names acts w = (acts', Inr (), w') \<and> repairable fs src dst root [] (wd_fs w')"
  using assms(2-)
proof (induction names arbitrary: acts w)
  case (Cons n names)
  then obtain acts' w' where s: "reconcile_entries root (n # names) acts w = reconcile_entries root names acts' w'" "works w'"
      "repairable fs src dst root names (wd_fs w')"
    using repair_step[OF p Cons.prems(1,2), of acts] by auto
  show ?case unfolding s(1) by (rule Cons.IH) (use s Cons.prems(3) in simp_all)
qed simp

lemma rooted_calls:
  assumes "rooted root (wd_fs w)" and r: "root \<noteq> []"
  shows "stat p w = (i, w') \<Longrightarrow> rooted root (wd_fs w')"
    and "remove_all p w = (u, w') \<Longrightarrow> \<not> prefix p root \<Longrightarrow> rooted root (wd_fs w')"
    and "rename p q w = (u, w') \<Longrightarrow> \<not> prefix p root \<Longrightarrow> \<not> prefix q root \<Longrightarrow> rooted root (wd_fs w')"
    and "copy_directory p (root @ [n]) w = (u, w') \<Longrightarrow> rooted root (wd_fs w')"
    and "mkdir_all d w = (u, w') \<Longrightarrow> d \<in> {root, butlast root} \<Longrightarrow> rooted root (wd_fs w')"
proof -
  have pb: "\<not> prefix p root \<Longrightarrow> \<not> prefix p (butlast root)" for p :: path
    by (metis append_butlast_last_id prefix_prefix r)
  show "stat p w = (i, w') \<Longrightarrow> rooted root (wd_fs w')" using assms stat_fs[of p w] by simp
  show "remove_all p w = (u, w') \<Longrightarrow> \<not> prefix p root \<Longrightarrow> rooted root (wd_fs w')"
    using assms remove_all_look[of p _ w] pb by (simp add: rooted_def)
  show "rename p q w = (u, w') \<Longrightarrow> \<not> prefix p root \<Longrightarrow> \<not> prefix q root \<Longrightarrow> rooted root (wd_fs w')"
    using assms rename_look[of p _ q w] pb by (simp add: rooted_def)
  have bt: "butlast root = take (length root - 1) root" "length root - 1 < length root" using r by (simp_all add: butlast_conv_take)
  have grow: "rooted root (add_dirs d fs)" if "rooted root fs" "\<And>k. k < Suc (length d) \<Longrightarrow> look fs (take k d) \<in> {None, Some DirE}" for d fs
  proof (cases "prefix root d")
    case True
    then have "look fs root \<in> {None, Some DirE}" "look fs (butlast root) \<in> {None, Some DirE}" "prefix (butlast root) d"
      using that(2)[of "length root"] that(2)[of "length root - 1"] r
      by (auto simp: prefix_def butlast_conv_take) (metis append_take_drop_id append.assoc)+
    then show ?thesis using True by (auto simp: rooted_def look_add_dirs)
  qed (use that in \<open>auto simp: rooted_def look_add_dirs\<close>)
  have below: "rooted root (map (\<lambda>(r, e). ((root @ [n]) @ drop l r, e)) xs @ fs)" if "rooted root fs" for l n fs and xs :: file_tree
  proof -
    have "map_of (map (\<lambda>(r, e). ((root @ [n]) @ drop l r, e)) xs) q = None" if "length q \<le> length root" for q
      using that by (induction xs) auto
    then have "map_of (map (\<lambda>(r, e). ((root @ [n]) @ drop l r, e)) xs) root = None" "map_of (map (\<lambda>(r, e). ((root @ [n]) @ drop l r, e)) xs) (butlast root) = None"
      by simp_all
    then show ?thesis using that r by (auto simp: rooted_def look_def map_add_def)
  qed
  have grow': "rooted root (add_dirs (take l d) fs)"
    if "rooted root fs" "list_all (\<lambda>k. look fs (take k d) \<in> {None, Some DirE}) [0..<Suc (length d)]" for l d fs
  proof (rule grow[OF that(1)])
    fix k
    have "take k (take l d) = take (min (min k l) (length d)) d" by (simp add: min_def)
    moreover have "min (min k l) (length d) \<in> set [0..<Suc (length d)]" by (simp add: less_Suc_eq_le del: upt_Suc)
    ultimately show "look fs (take k (take l d)) \<in> {None, Some DirE}" using that(2) unfolding list_all_iff by metis
  qed
  show "mkdir_all d w = (u, w') \<Longrightarrow> d \<in> {root, butlast root} \<Longrightarrow> rooted root (wd_fs w')"
    using assms(1) grow'[of "wd_fs w" d] grow'[of "wd_fs w" d "length d"]
    file_call_cases[of "\<lambda>fs. if list_all (\<lambda>k. look fs (take k d) \<in> {None, Some DirE}) [0..<Suc (length d)] then (Inr (), add_dirs d fs) else (Inl CallFailed, fs)"
      "\<lambda>left fs. if list_all (\<lambda>k. look fs (take k d) \<in> {None, Some DirE}) [0..<Suc (length d)] then add_dirs (take (length left) d) fs else fs" w]
    unfolding mkdir_all_def[symmetric] by (auto split: if_splits simp del: upt_Suc)
  show "copy_directory p (root @ [n]) w = (u, w') \<Longrightarrow> rooted root (wd_fs w')"
  proof -
    assume c: "copy_directory p (root @ [n]) w = (u, w')"
    have 1: "rooted root (left_below (root @ [n]) left (wd_fs w))" for left
      using below[OF assms(1), of n 0 left] by (simp add: left_below_def)
    have 2: "rooted root (snd (copy_tree p (root @ [n]) (wd_fs w)))"
      using below[of "add_dirs (root @ [n]) (wd_fs w)" n "length p"] grow'[OF assms(1), of "root @ [n]" "Suc (length root)"] assms(1)
      by (simp add: copy_tree_def graft_def del: upt_Suc)
    show ?thesis using file_call_cases[of "copy_tree p (root @ [n])" "left_below (root @ [n])" w] 1 2 assms(1) c
      by (auto simp: copy_directory_def)
  qed
qed

lemma replace_rooted:
  assumes p: "promotable fs src dst root" and "rooted root (wd_fs w)"
    and run: "replace_staged_directory (staging_of root dst) dst root w = (res, w')"
  shows "rooted root (wd_fs w')"
proof -
  note a = promotable_apart[OF p] 
  have r: "root \<noteq> []" using p by (simp add: promotable_def promotion_paths_def)
  have s: "\<not> prefix (staging_of root dst) root" "\<not> prefix (backup_of root dst) root"
    using a(15) by (simp_all add: staging_of_def backup_of_def)
  note c = rooted_calls(1)[OF _ r] rooted_calls(2)[OF _ r _ s(1)] rooted_calls(2)[OF _ r _ s(2)] rooted_calls(3)[OF _ r _ a(13) s(2)]
    rooted_calls(3)[OF _ r _ s(2) a(13)] rooted_calls(3)[OF _ r _ s(1) a(13)]
  show ?thesis using assms(2) run unfolding replace_staged_directory_def Let_def backup_of_def[symmetric]
    by (auto split: prod.splits sum.splits call_err.splits if_splits simp: snd_def; meson c)
qed

lemma promote_rooted:
  assumes p: "promotable (wd_fs w) src dst root" and run: "promote_directory src dst root None w = (res, w')"
  shows "rooted root (wd_fs w')"
proof -
  note a = promotable_apart[OF p]
  have r: "root \<noteq> []" "butlast dst = butlast root" and w: "rooted root (wd_fs w)" using p by (simp_all add: promotable_def promotion_paths_def)
  have s: "\<not> prefix (staging_of root dst) root" using a(15) by (simp add: staging_of_def)
  note c = rooted_calls(1)[OF _ r(1)] rooted_calls(2)[OF _ r(1) _ s] rooted_calls(4)[OF _ r(1), of _ _ "last dst", folded staging_of_def]
    rooted_calls(5)[OF _ r(1)] replace_rooted[OF p]
  show ?thesis using w run unfolding promote_directory_def Let_def staging_of_def[symmetric] r(2)
    by (auto split: prod.splits sum.splits if_splits simp: snd_def; meson c insertCI)
qed

lemma repair_ends:
  assumes "promotion_paths dst root" and "reconcile_promotion_staging root (restarted w) = (acts, repaired, w')"
    and "rooted root (wd_fs w)" and "look (wd_fs w) root = None \<Longrightarrow> tree_at (wd_fs w) dst = tree_at fs dst \<or> promoted fs src dst root (wd_fs w)"
    and "look (wd_fs w) root \<noteq> None \<Longrightarrow> repairable fs src dst root (names_in root (wd_fs w)) (wd_fs w)"
  shows "repaired = Inr () \<and> (tree_at (wd_fs w') dst = tree_at fs dst \<or> promoted fs src dst root (wd_fs w')) \<and>
    (look (wd_fs w') root = None \<or> names_in root (wd_fs w') = [])"
proof -
  have rd: "works (restarted w)" by (simp add: works_def)
  note d = works_calls(4)[OF rd, of root]
  show ?thesis
  proof (cases "look (wd_fs w) root")
    case None
    then have "repaired = Inr ()" "w' = restarted w" using assms(2) d by (simp_all add: reconcile_promotion_staging_def)
    then show ?thesis using None assms(4) by simp
  next
    case (Some e)
    then have e: "e = DirE" using assms(3) by (simp add: rooted_def)
    obtain acts' v where v: "reconcile_entries root (names_in root (wd_fs w)) [] (restarted w) = (acts', Inr (), v)"
        "repairable fs src dst root [] (wd_fs v)"
      using repair_all[OF assms(1) rd, of fs src "names_in root (wd_fs w)" "[]"] assms(5) Some by (metis names_in_distinct option.distinct(1) restarted_simps(3))
    have "n \<notin> set (names_in root (wd_fs v))" for n using v(2) unfolding names_in_tree by (simp add: repairable_def)
    then have "names_in root (wd_fs v) = []" by (cases "names_in root (wd_fs v)") auto
    moreover have "repaired = Inr ()" "w' = v" using assms(2) d v(1) Some e by (simp_all add: reconcile_promotion_staging_def)
    ultimately show ?thesis using v(2) by (simp add: repairable_def)
  qed
qed

lemma safe_repairable:
  assumes p: "promotable fs src dst root" and s: "safe_state fs src dst root f" and r: "rooted root f" "look f root \<noteq> None"
  shows "repairable fs src dst root (names_in root f) f"
    and "promoted fs src dst root f \<Longrightarrow> repairable f dst dst root (names_in root f) f"
proof -
  have dirs: "look f root = Some DirE" "look f (butlast dst) = Some DirE" using r p by (auto simp: rooted_def promotable_def promotion_paths_def)
  have o: "look f (root @ [n]) \<noteq> None" if "n \<in> set (names_in root f)" "n \<noteq> last dst" "n \<noteq> last dst @ promotion_backup_suffix" for n
  proof -
    have "tree_at f (root @ [n]) = tree_at fs (root @ [n])" using s that by (simp add: safe_state_def others_same_def)
    then show ?thesis using p that(1) unfolding names_in_tree look_tree promotable_def by metis
  qed
  have n: "tree_at f (root @ [n]) = no_tree" if "n \<notin> set (names_in root f)" for n using that by (simp add: names_in_tree)
  show "repairable fs src dst root (names_in root f) f"
  proof (cases "last dst @ promotion_backup_suffix \<in> set (names_in root f)")
    case True
    then show ?thesis using s o n dirs unfolding repairable_def safe_state_def by (simp add: backup_of_def names_in_tree)
  next
    case False
    then have "\<not> set_aside fs src dst root f"
      using n[of "last dst @ promotion_backup_suffix"] by (auto simp: set_aside_def backup_of_def look_tree no_tree_def dest: fun_cong[of _ _ "[]"])
    then show ?thesis using False s o n dirs unfolding repairable_def safe_state_def settled_def by auto
  qed
  assume q: "promoted fs src dst root f"
  then have "promoted f dst dst root f" by (simp add: promoted_def look_tree)
  then show "repairable f dst dst root (names_in root f) f" using o n dirs unfolding repairable_def by (auto simp: backup_of_def names_in_tree)
qed

text \<open>
  C11: A promotion in which any call fails or the process dies, followed by the repair of the next start, leaves
  the whole new directory in place or, if the promotion did not report success, the whole previous one (or none, as
  before); the repair succeeds and nothing stays staged or set aside.
\<close>
theorem promotion_recovers:
  assumes "promotable (wd_fs w) src dst root" and "promote_directory src dst root None w = (r, w1)"
    and "reconcile_promotion_staging root (restarted w1) = (acts, repaired, w2)"
  shows "repaired = Inr () \<and>
    (tree_at (wd_fs w2) dst = tree_at (wd_fs w) src \<or> r \<noteq> Inr () \<and> tree_at (wd_fs w2) dst = tree_at (wd_fs w) dst) \<and>
    (look (wd_fs w2) root = None \<or> names_in root (wd_fs w2) = [])"
proof -
  note p = assms(1)
  have pp: "promotion_paths dst root" using p by (simp add: promotable_def)
  note s = promote_safe[OF p assms(2)] and rt = promote_rooted[OF p assms(2)]
  have missing: "\<not> set_aside (wd_fs w) src dst root (wd_fs w1)" if "look (wd_fs w1) root = None" using that by (simp add: set_aside_def)
  show ?thesis
  proof (cases "r = Inr ()")
    case True
    then have q: "promoted (wd_fs w) src dst root (wd_fs w1)" using s by simp
    have "repaired = Inr () \<and> (tree_at (wd_fs w2) dst = tree_at (wd_fs w1) dst \<or> promoted (wd_fs w1) dst dst root (wd_fs w2)) \<and>
        (look (wd_fs w2) root = None \<or> names_in root (wd_fs w2) = [])"
      by (rule repair_ends[OF pp assms(3) rt]) (use safe_repairable(2)[OF p _ rt _ q] s in auto)
    then show ?thesis using q by (auto simp: promoted_def)
  next
    case False
    have "repaired = Inr () \<and> (tree_at (wd_fs w2) dst = tree_at (wd_fs w) dst \<or> promoted (wd_fs w) src dst root (wd_fs w2)) \<and>
        (look (wd_fs w2) root = None \<or> names_in root (wd_fs w2) = [])"
      by (rule repair_ends[OF pp assms(3) rt])
        (use safe_repairable(1)[OF p _ rt] s missing in \<open>auto simp: safe_state_def settled_def\<close>)
    then show ?thesis using False by (auto simp: promoted_def)
  qed
qed

text \<open>A crash between the two renames.\<close>

definition between_renames :: "unit world" where
  "between_renames = \<lparr>wd_fs = [([''current''], DirE), ([''current'', ''j.run''], DirE), ([''current'', ''j.run'', ''a''], FileE ''old''),
      ([''scratch''], DirE), ([''scratch'', ''a''], FileE ''new'')],
     wd_db = (), wd_plan = replicate 8 Works @ [Dies []], wd_dead = False\<rparr>"

theorem promotion_recovers_witness:
  "(let (r, w1) = promote_directory [''scratch''] [''current'', ''j.run''] [''current'', ''.staging''] None between_renames;
        (acts, repaired, w2) = reconcile_promotion_staging [''current'', ''.staging''] (restarted w1)
    in acts = [RemovedOrphan [''current'', ''.staging'', ''j.run''], Restored [''current'', ''j.run'']] \<and> repaired = Inr () \<and>
      tree_at (wd_fs w2) [''current'', ''j.run''] = tree_at (wd_fs between_renames) [''current'', ''j.run''])"
proof -
  let ?p = "promote_directory [''scratch''] [''current'', ''j.run''] [''current'', ''.staging''] None between_renames"
  let ?q = "reconcile_promotion_staging [''current'', ''.staging''] (restarted (snd ?p))"
  have r: "fst ?q = [RemovedOrphan [''current'', ''.staging'', ''j.run''], Restored [''current'', ''j.run'']]" "look (wd_fs (snd (snd ?q))) [''current'', ''j.run'', ''a''] = Some (FileE ''old'')"
    by code_simp+
  have "promotable (wd_fs between_renames) [''scratch''] [''current'', ''j.run''] [''current'', ''.staging'']"
    by (auto simp: promotable_def promotion_paths_def apart_def rooted_def between_renames_def look_def tree_at_def no_tree_def
        staging_of_def backup_of_def has_suffix_def promotion_backup_suffix_def)
  from promotion_recovers[OF this prod.collapse[symmetric], of "fst ?q" "fst (snd ?q)" "snd (snd ?q)"]
  have c: "fst (snd ?q) = Inr ()" "tree_at (wd_fs (snd (snd ?q))) [''current'', ''j.run''] = tree_at (wd_fs between_renames) [''scratch''] \<or>
      tree_at (wd_fs (snd (snd ?q))) [''current'', ''j.run''] = tree_at (wd_fs between_renames) [''current'', ''j.run'']" by auto
  have "look (wd_fs between_renames) [''scratch'', ''a''] = Some (FileE ''new'')" by (simp add: between_renames_def look_def)
  then have "tree_at (wd_fs (snd (snd ?q))) [''current'', ''j.run''] \<noteq> tree_at (wd_fs between_renames) [''scratch'']"
    using r(2) by (auto simp: tree_at_def dest: fun_cong[of _ _ "[''a'']"])
  then show ?thesis using c r by (simp add: case_prod_beta' Let_def)
qed

end
