(* ===== verification/Artifact_Journal.thy ===== *)
theory Artifact_Journal
  imports Promotion "HOL-Library.AList"
begin

text \<open>
  The journal of artifact operations (\<open>src/cassini-operator/internal/operator/retention_operations.go\<close>): replacing
  the published pair of a recording or removing expired files is written down before it starts and finished after
  any interruption.  \<open>Artifact_Recovery\<close> shows that it is.
  The database is the \<open>wd_db\<close> of the world: its statements and transactions are single calls.
\<close>

subsection \<open>Paths\<close>

definition runs_root :: "path \<Rightarrow> path" where "runs_root work = work @ [''runs'']"

text \<open>\<open>%03d\<close> counts a sign as a digit.\<close>

definition attempt_base_name :: "string \<Rightarrow> int \<Rightarrow> string" where
  "attempt_base_name job attempt =
     job @ ''--attempt-'' @ (if attempt < 0 then ''-'' @ pad_zeros 2 (itoa (- attempt)) else pad_zeros 3 (itoa attempt))"

definition canonical_opus_path :: "path \<Rightarrow> string \<Rightarrow> path" where "canonical_opus_path work job = current_root work @ [job @ ''.opus'']"
definition attempt_run_path :: "path \<Rightarrow> string \<Rightarrow> int \<Rightarrow> path" where
  "attempt_run_path work job attempt = runs_root work @ [attempt_base_name job attempt @ ''.run'']"
definition attempt_meeting_path :: "path \<Rightarrow> string \<Rightarrow> int \<Rightarrow> path" where
  "attempt_meeting_path work job attempt = runs_root work @ [attempt_base_name job attempt @ ''.meeting'']"
definition attempt_site_path :: "path \<Rightarrow> string \<Rightarrow> int \<Rightarrow> path" where
  "attempt_site_path work job attempt = runs_root work @ [attempt_base_name job attempt @ ''.site'']"
definition attempt_seal_dir :: "path \<Rightarrow> string \<Rightarrow> int \<Rightarrow> path" where
  "attempt_seal_dir work job attempt = runs_root work @ [attempt_base_name job attempt @ ''.seal'']"
definition attempt_logs_dir :: "path \<Rightarrow> string \<Rightarrow> int \<Rightarrow> path" where
  "attempt_logs_dir work job attempt = runs_root work @ [attempt_base_name job attempt @ ''.logs'']"
definition attempt_scratch_path :: "path \<Rightarrow> string \<Rightarrow> int \<Rightarrow> path" where
  "attempt_scratch_path work job attempt = runs_root work @ [attempt_base_name job attempt @ ''.scratch'']"

definition media_promotion_paths :: "path \<Rightarrow> string \<Rightarrow> path list" where
  "media_promotion_paths work job = concat (map (\<lambda>ext. map (\<lambda>suffix. current_staging_root work @ [job @ ext @ suffix])
     [[], promotion_backup_suffix]) [''.run'', ''.meeting'', ''.opus''])"

definition operation_dir :: "path \<Rightarrow> string \<Rightarrow> path" where "operation_dir work job = work @ [''.artifact-operations'', job]"

text \<open>A name without separators is its own base name.\<close>

definition valid_artifact_job :: "string \<Rightarrow> bool" where
  "valid_artifact_job job \<longleftrightarrow> job \<notin> {[], ''.'', ''..''} \<and> CHR ''/'' \<notin> set job \<and> CHR 0x5C \<notin> set job"

text \<open>
  \<open>safeArtifactPath\<close> and \<open>validateArtifactTree\<close>, as one call that changes nothing: the path is below the work root, no
  part of it is a link or lies below a file, and everything under it is a directory or a regular file.
\<close>

definition safe_artifact_path :: "path \<Rightarrow> path \<Rightarrow> file_tree \<Rightarrow> bool" where
  "safe_artifact_path work p fs \<longleftrightarrow> strict_prefix work p \<and>
     list_all (\<lambda>k. look fs (take k p) \<noteq> Some LinkE) [length work..<Suc (length p)] \<and>
     list_all (\<lambda>k. look fs (take k p) \<in> {None, Some DirE, Some LinkE}) [0..<length p]"

definition validate_artifact_tree :: "path \<Rightarrow> path \<Rightarrow> 'd world \<Rightarrow> (call_err, unit) res \<times> 'd world" where
  "validate_artifact_tree work p = file_call
     (\<lambda>fs. (if safe_artifact_path work p fs \<and> list_all (\<lambda>(q, _). prefix p q \<longrightarrow> look fs q \<notin> {Some LinkE, Some OtherE}) fs
        then Inr () else Inl CallFailed, fs)) untouched"

subsection \<open>The journal\<close>

record artifact_operation =
  ao_missing_meeting :: bool
  ao_job :: string
  ao_attempt :: int
  ao_action :: string
  ao_kind :: string
  ao_targets :: "path list"
  ao_digest :: string
  ao_revision :: int
  ao_deadline :: int

record artifact_availability =
  av_published_attempt :: int
  av_source :: string
  av_output :: string
  av_video :: string

record job_artifacts =
  ja_meeting :: "path option"
  ja_opus :: "path option"
  ja_sha256 :: "string option"

text \<open>A deadline is a time; its text is only for the log.  Rows of the tables \<open>artifact_operations\<close>, \<open>artifact_availability\<close> and \<open>jobs\<close>.\<close>

record journal_db =
  jd_operations :: "(string \<times> artifact_operation) list"
  jd_availability :: "(string \<times> artifact_availability) list"
  jd_jobs :: "(string \<times> job_artifacts) list"

datatype journal_err = InvalidJob | UnownedTarget path | UnknownOperation | FailedCall call_err | PendingOperation
  | NoSecondTarget | SettingsChanged | SettingsUnavailable

definition db_call :: "('d \<Rightarrow> 'a \<times> 'd) \<Rightarrow> 'd world \<Rightarrow> (call_err, 'a) res \<times> 'd world" where
  "db_call f w =
     (if wd_dead w then (Inl CallFailed, w)
      else case wd_plan w of
          Fails _ # plan \<Rightarrow> (Inl CallFailed, w\<lparr>wd_plan := plan\<rparr>)
        | Dies _ # plan \<Rightarrow> (Inl CallFailed, w\<lparr>wd_plan := plan, wd_dead := True\<rparr>)
        | plan \<Rightarrow> (Inr (fst (f (wd_db w))), w\<lparr>wd_db := snd (f (wd_db w)), wd_plan := tl plan\<rparr>))"

text \<open>A call whose error is returned, and a step after another one.\<close>

definition do_call :: "(call_err, 'a) res \<times> 'w \<Rightarrow> ('a \<Rightarrow> 'w \<Rightarrow> (journal_err, 'b) res \<times> 'w) \<Rightarrow> (journal_err, 'b) res \<times> 'w" where
  "do_call r k = (case r of (Inl e, w) \<Rightarrow> (Inl (FailedCall e), w) | (Inr a, w) \<Rightarrow> k a w)"

definition do_step :: "(journal_err, 'a) res \<times> 'w \<Rightarrow> ('a \<Rightarrow> 'w \<Rightarrow> (journal_err, 'b) res \<times> 'w) \<Rightarrow> (journal_err, 'b) res \<times> 'w" where
  "do_step r k = (case r of (Inl e, w) \<Rightarrow> (Inl e, w) | (Inr a, w) \<Rightarrow> k a w)"

text \<open>\<open>syncArtifactTree\<close>, as one call: it changes nothing and fails when the tree or its parent is not there.\<close>

definition sync_artifact_tree :: "path \<Rightarrow> 'd world \<Rightarrow> (call_err, unit) res \<times> 'd world" where
  "sync_artifact_tree p = file_call (\<lambda>fs. (if look fs p = None \<or> look fs (butlast p) = None then Inl NotExist else Inr (), fs)) untouched"

definition save_operation :: "path \<Rightarrow> artifact_operation \<Rightarrow> journal_db world \<Rightarrow> (journal_err, unit) res \<times> journal_db world" where
  "save_operation work op w =
     do_call (sync_artifact_tree (operation_dir work (ao_job op)) w) (\<lambda>_ w.
     do_call (db_call (\<lambda>db. ((), db\<lparr>jd_operations := AList.update (ao_job op) op (jd_operations db)\<rparr>)) w) (\<lambda>_ w. (Inr (), w)))"

definition pending_artifact_operation :: "string \<Rightarrow> journal_db world \<Rightarrow> bool \<times> journal_db world" where
  "pending_artifact_operation job w =
     (let (n, w) = db_call (\<lambda>db. (map_of (jd_operations db) job \<noteq> None, db)) w in (case n of Inl _ \<Rightarrow> True | Inr b \<Rightarrow> b, w))"

subsection \<open>Finishing an operation\<close>

text \<open>The targets are relative to the work root, as the path functions give them for an empty root.\<close>

definition owned_targets :: "artifact_operation \<Rightarrow> path list" where
  "owned_targets op =
     (let job = ao_job op; attempt = ao_attempt op in
      [canonical_run_path [] job, canonical_meeting_path [] job, current_root [] @ [job @ ''.json''], canonical_opus_path [] job,
       attempt_run_path [] job attempt, attempt_meeting_path [] job attempt, attempt_seal_dir [] job attempt,
       attempt_site_path [] job attempt, attempt_logs_dir [] job attempt])"

definition may_target :: "artifact_operation \<Rightarrow> path \<Rightarrow> bool" where
  "may_target op rel \<longleftrightarrow> rel \<in> set (owned_targets op) \<or>
     ao_kind op = ''media-disposal'' \<and> ao_action op = ''remove'' \<and>
       (rel \<in> set (media_promotion_paths [] (ao_job op)) \<or> rel = attempt_scratch_path [] (ao_job op) (ao_attempt op) \<or>
        butlast rel = attempt_seal_dir [] (ao_job op) (ao_attempt op) \<and> last rel \<noteq> ao_job op @ ''.json'')"

definition replaces :: "artifact_operation \<Rightarrow> bool" where
  "replaces op \<longleftrightarrow> ao_action op = ''promote'' \<or> ao_action op = ''video''"

definition removes :: "artifact_operation \<Rightarrow> nat \<Rightarrow> bool" where
  "removes op i \<longleftrightarrow> ao_action op = ''remove'' \<or> ao_action op = ''promote'' \<and> ao_missing_meeting op \<and> i = 0"

definition new_path :: "path \<Rightarrow> artifact_operation \<Rightarrow> nat \<Rightarrow> path" where
  "new_path work op i = operation_dir work (ao_job op) @ [''new-'' @ itoa_nat i]"
definition old_path :: "path \<Rightarrow> artifact_operation \<Rightarrow> nat \<Rightarrow> path" where
  "old_path work op i = operation_dir work (ao_job op) @ [''old-'' @ itoa_nat i]"

text \<open>The target is moved away unless that has happened, and the prepared tree takes its place.\<close>

definition move_aside :: "path \<Rightarrow> path \<Rightarrow> 'd world \<Rightarrow> (call_err, unit) res \<times> 'd world" where
  "move_aside dst old w =
     (let (info, w) = stat old w in
      case info of
        Inr _ \<Rightarrow> (Inr (), w)
      | Inl CallFailed \<Rightarrow> (Inl CallFailed, w)
      | Inl NotExist \<Rightarrow> (let (r, w) = rename dst old w in (if r = Inl NotExist then Inr () else r, w)))"

definition put_in_place :: "path \<Rightarrow> path \<Rightarrow> 'd world \<Rightarrow> (journal_err, unit) res \<times> 'd world" where
  "put_in_place staged dst w = do_call (mkdir_all (butlast dst) w) (\<lambda>_ w. do_call (rename staged dst w) (\<lambda>_ w. (Inr (), w)))"

definition exchange :: "path \<Rightarrow> artifact_operation \<Rightarrow> nat \<Rightarrow> path \<Rightarrow> 'd world \<Rightarrow> (journal_err, unit) res \<times> 'd world" where
  "exchange work op i dst w =
     do_call (move_aside dst (old_path work op i) w) (\<lambda>_ w.
     do_step (if removes op i then (Inr (), w) else put_in_place (new_path work op i) dst w) (\<lambda>_ w.
     do_call (sync_path (butlast dst) w) (\<lambda>_ w.
     do_call (sync_path (operation_dir work (ao_job op)) w) (\<lambda>_ w. (Inr (), w)))))"

definition finish_target :: "path \<Rightarrow> artifact_operation \<Rightarrow> nat \<Rightarrow> path \<Rightarrow> 'd world \<Rightarrow> (journal_err, unit) res \<times> 'd world" where
  "finish_target work op i rel w =
     (if \<not> may_target op rel then (Inl (UnownedTarget rel), w)
      else let dst = work @ rel in
        do_call (validate_artifact_tree work dst w) (\<lambda>_ w.
        do_call (if replaces op then mkdir_all (butlast dst) w else (Inr (), w)) (\<lambda>_ w.
        if removes op i then exchange work op i dst w
        else if \<not> replaces op then (Inl UnknownOperation, w)
        else
          let (info, w) = stat (new_path work op i) w in
          case info of
            Inl NotExist \<Rightarrow> (Inr (), w)
          | Inl CallFailed \<Rightarrow> (Inl (FailedCall CallFailed), w)
          | Inr _ \<Rightarrow> exchange work op i dst w)))"

fun finish_targets :: "path \<Rightarrow> artifact_operation \<Rightarrow> nat \<Rightarrow> path list \<Rightarrow> 'd world \<Rightarrow> (journal_err, unit) res \<times> 'd world" where
  "finish_targets work op i [] w = (Inr (), w)"
| "finish_targets work op i (rel # rels) w = do_step (finish_target work op i rel w) (\<lambda>_ w. finish_targets work op (Suc i) rels w)"

text \<open>What the database says afterwards.  A row is inserted with its default columns.\<close>

definition availability_row :: "string \<Rightarrow> journal_db \<Rightarrow> artifact_availability" where
  "availability_row job db =
     (case map_of (jd_availability db) job of
        Some row \<Rightarrow> row
      | None \<Rightarrow> \<lparr>av_published_attempt = 0, av_source = [], av_output = [], av_video = []\<rparr>)"

definition set_availability :: "string \<Rightarrow> (artifact_availability \<Rightarrow> artifact_availability) \<Rightarrow> journal_db \<Rightarrow> journal_db" where
  "set_availability job f db = db\<lparr>jd_availability := AList.update job (f (availability_row job db)) (jd_availability db)\<rparr>"

definition set_job_artifacts :: "string \<Rightarrow> path option \<Rightarrow> path \<Rightarrow> string \<Rightarrow> journal_db \<Rightarrow> journal_db" where
  "set_job_artifacts job meeting opus digest db =
     db\<lparr>jd_jobs := map (\<lambda>(id, row). (id, if id = job
        then row\<lparr>ja_meeting := meeting, ja_opus := Some opus, ja_sha256 := Some digest\<rparr> else row)) (jd_jobs db)\<rparr>"

definition db_outcome :: "path \<Rightarrow> artifact_operation \<Rightarrow> journal_db \<Rightarrow> journal_db" where
  "db_outcome work op db =
     (let job = ao_job op in
      if ao_action op = ''promote'' then
        set_availability job (\<lambda>row. row\<lparr>av_published_attempt := ao_attempt op, av_output := ''present''\<rparr>)
          (set_job_artifacts job (if ao_missing_meeting op then None else Some (canonical_meeting_path work job))
            (work @ ao_targets op ! 1) (ao_digest op) db)
      else if ao_action op = ''video'' then set_availability job (\<lambda>row. row\<lparr>av_video := ''expired''\<rparr>) db
      else if ao_action op = ''remove'' \<and> ao_kind op = ''current'' then set_availability job (\<lambda>row. row\<lparr>av_output := ''expired''\<rparr>) db
      else if ao_action op = ''remove'' \<and> ao_kind op \<in> {''recordings'', ''audio''} then
        set_availability job (\<lambda>row. row\<lparr>av_source := ''expired''\<rparr>) db
      else db)"

definition record_outcome :: "path \<Rightarrow> artifact_operation \<Rightarrow> journal_db world \<Rightarrow> (journal_err, unit) res \<times> journal_db world" where
  "record_outcome work op w =
     (if ao_action op = ''promote'' \<and> length (ao_targets op) < 2 then (Inl NoSecondTarget, w)
      else if ao_action op \<in> {''promote'', ''video''} \<or> ao_action op = ''remove'' \<and> ao_kind op \<in> {''recordings'', ''audio'', ''current''}
      then do_call (db_call (\<lambda>db. ((), db_outcome work op db)) w) (\<lambda>_ w. (Inr (), w))
      else (Inr (), w))"

definition finish_operation :: "path \<Rightarrow> artifact_operation \<Rightarrow> journal_db world \<Rightarrow> (journal_err, unit) res \<times> journal_db world" where
  "finish_operation work op w =
     (let dir = operation_dir work (ao_job op) in
      if \<not> valid_artifact_job (ao_job op) then (Inl InvalidJob, w)
      else
        do_call (validate_artifact_tree work dir w) (\<lambda>_ w.
        do_call (mkdir_all dir w) (\<lambda>_ w.
        do_step (finish_targets work op 0 (ao_targets op) w) (\<lambda>_ w.
        do_step (record_outcome work op w) (\<lambda>_ w.
        do_call (remove_all dir w) (\<lambda>_ w.
        do_call (if ao_kind op = ''media-disposal'' then sync_path (butlast dir) w else (Inr (), w)) (\<lambda>_ w.
        do_call (db_call (\<lambda>db. ((), db\<lparr>jd_operations := AList.delete (ao_job op) (jd_operations db)\<rparr>)) w) (\<lambda>_ w. (Inr (), w)))))))))"

text \<open>After a start every journalled operation is finished; one that fails does not keep the others back.\<close>

fun recover_all :: "path \<Rightarrow> artifact_operation list \<Rightarrow> journal_db world \<Rightarrow> journal_db world" where
  "recover_all work [] w = w"
| "recover_all work (op # ops) w = recover_all work ops (snd (finish_operation work op w))"

definition recover_artifact_operations :: "path \<Rightarrow> journal_db world \<Rightarrow> journal_db world" where
  "recover_artifact_operations work w =
     (let (rows, w) = db_call (\<lambda>db. (map snd (jd_operations db), db)) w in
      case rows of Inl _ \<Rightarrow> w | Inr ops \<Rightarrow> recover_all work ops w)"

subsection \<open>Starting an operation\<close>

text \<open>The paths that exist, relative to the work root; every one is validated.\<close>

fun existing_targets :: "path \<Rightarrow> path list \<Rightarrow> 'd world \<Rightarrow> (journal_err, path list) res \<times> 'd world" where
  "existing_targets work [] w = (Inr [], w)"
| "existing_targets work (p # ps) w =
     do_call (validate_artifact_tree work p w) (\<lambda>_ w.
       (case stat p w of
          (Inl NotExist, w) \<Rightarrow> existing_targets work ps w
        | (Inl CallFailed, w) \<Rightarrow> (Inl (FailedCall CallFailed), w)
        | (Inr _, w) \<Rightarrow> do_step (existing_targets work ps w) (\<lambda>ts w. (Inr (drop (length work) p # ts), w))))"

definition fresh_operation_dir :: "path \<Rightarrow> string \<Rightarrow> 'd world \<Rightarrow> (journal_err, unit) res \<times> 'd world" where
  "fresh_operation_dir work job w =
     do_call (remove_all (operation_dir work job) w) (\<lambda>_ w.
     do_call (mkdir_all (operation_dir work job) w) (\<lambda>_ w. (Inr (), w)))"

definition journal_operation :: "path \<Rightarrow> artifact_operation \<Rightarrow> journal_db world \<Rightarrow> (journal_err, unit) res \<times> journal_db world" where
  "journal_operation work op w = do_step (save_operation work op w) (\<lambda>_ w. finish_operation work op w)"

text \<open>
  The two ways files are removed differ in the recheck of the settings right before the operation is journalled:
  \<open>recheck\<close> is its error.
\<close>

definition start_removal ::
  "path \<Rightarrow> artifact_operation \<Rightarrow> path list \<Rightarrow> journal_err option \<Rightarrow> journal_db world \<Rightarrow> (journal_err, unit) res \<times> journal_db world" where
  "start_removal work op paths recheck w =
     do_step (existing_targets work paths w) (\<lambda>targets w.
       if targets = [] then (Inr (), w)
       else
         let (pending, w) = pending_artifact_operation (ao_job op) w in
         if pending then (Inl PendingOperation, w)
         else
           do_call (validate_artifact_tree work (operation_dir work (ao_job op)) w) (\<lambda>_ w.
           do_step (fresh_operation_dir work (ao_job op) w) (\<lambda>_ w.
             case recheck of
               Some e \<Rightarrow> (Inl e, w)
             | None \<Rightarrow> journal_operation work (op\<lparr>ao_targets := targets\<rparr>) w)))"

definition media_disposal_op :: "string \<Rightarrow> int \<Rightarrow> artifact_operation" where
  "media_disposal_op job attempt = \<lparr>ao_missing_meeting = False, ao_job = job, ao_attempt = attempt, ao_action = ''remove'',
     ao_kind = ''media-disposal'', ao_targets = [], ao_digest = [], ao_revision = 0, ao_deadline = 0\<rparr>"

definition remove_media_paths :: "path \<Rightarrow> string \<Rightarrow> int \<Rightarrow> path list \<Rightarrow> journal_db world \<Rightarrow> (journal_err, unit) res \<times> journal_db world" where
  "remove_media_paths work job attempt paths = start_removal work (media_disposal_op job attempt) paths None"

text \<open>
  The end of \<open>promotePublishedPair\<close>, once the attempt's meeting and sealed file are verified: both are brought into
  the operation's directory and the pair is journalled.  \<open>deletes\<close> is the job's policy to delete its source media,
  \<open>prior\<close> the attempt published before.
\<close>

definition promote_op :: "string \<Rightarrow> int \<Rightarrow> string \<Rightarrow> bool \<Rightarrow> string \<Rightarrow> artifact_operation" where
  "promote_op job attempt digest missing ext = \<lparr>ao_missing_meeting = missing, ao_job = job, ao_attempt = attempt, ao_action = ''promote'',
     ao_kind = [], ao_targets = [canonical_meeting_path [] job, current_root [] @ [job @ ext]], ao_digest = digest,
     ao_revision = 0, ao_deadline = 0\<rparr>"

definition publish_verified_pair ::
  "path \<Rightarrow> string \<Rightarrow> int \<Rightarrow> string \<Rightarrow> string \<Rightarrow> path \<Rightarrow> path \<Rightarrow> bool \<Rightarrow> int \<Rightarrow> journal_db world \<Rightarrow> (journal_err, unit) res \<times> journal_db world" where
  "publish_verified_pair work job attempt digest ext meeting opus deletes prior w =
     do_call (validate_artifact_tree work (operation_dir work job) w) (\<lambda>_ w.
       let (pending, w) = pending_artifact_operation job w in
       if pending then (Inl PendingOperation, w)
       else
         do_step (fresh_operation_dir work job w) (\<lambda>_ w.
         do_call (db_call (\<lambda>db. ((), db)) w) (\<lambda>_ w.
           let (info, w) = stat meeting w in
           do_call (case info of
               Inr _ \<Rightarrow> (Inr deletes, w)
             | Inl e \<Rightarrow> if e = NotExist \<and> prior = 0 then (Inr True, w) else (Inl e, w)) (\<lambda>missing w.
             let op = promote_op job attempt digest missing ext in
             do_call (if missing then (Inr (), w) else copy_directory meeting (new_path work op 0) w) (\<lambda>_ w.
               let (linked, w) = link_file opus (new_path work op 1) w in
               do_call (case linked of Inr _ \<Rightarrow> (Inr (), w) | Inl _ \<Rightarrow> copy_file opus (new_path work op 1) w) (\<lambda>_ w.
                 journal_operation work op w))))))"

end
