(* ===== verification/Artifact_Recovery.thy ===== *)
theory Artifact_Recovery
  imports Artifact_Journal
begin

text \<open>
  Journalled operations under failing calls and crashes.  \<open>leads\<close> is what holds after a call, with a rule for each
  kind of call; \<open>midway\<close> is the invariant of an operation however far it got, \<open>goes\<close> a step of it on one target.
  \<open>operation_completes\<close> is about one operation in the journal, \<open>removal_all_or_nothing\<close> about a removal from its request on.
\<close>

subsection \<open>Results of calls\<close>

text \<open>What holds after a call that answers, and after one that fails.\<close>

definition leads :: "('e, 'a) res \<times> 'w \<Rightarrow> ('a \<Rightarrow> 'w \<Rightarrow> bool) \<Rightarrow> ('e \<Rightarrow> 'w \<Rightarrow> bool) \<Rightarrow> bool" where
  "leads r Q E \<longleftrightarrow> (case r of (Inl e, w) \<Rightarrow> E e w | (Inr a, w) \<Rightarrow> Q a w)"

lemma leads_simps [simp]: "leads (Inr a, w) Q E \<longleftrightarrow> Q a w" "leads (Inl e, w) Q E \<longleftrightarrow> E e w"
  by (simp_all add: leads_def)

lemma leads_call: "leads c (\<lambda>a w. leads (k a w) Q E) (\<lambda>e w. E (FailedCall e) w) \<Longrightarrow> leads (do_call c k) Q E"
  by (cases c; cases "fst c") (auto simp: leads_def do_call_def)

lemma leads_step: "leads c (\<lambda>a w. leads (k a w) Q E) E \<Longrightarrow> leads (do_step c k) Q E"
  by (cases c; cases "fst c") (auto simp: leads_def do_step_def)

lemma leads_mono: "leads r Q E \<Longrightarrow> (\<And>a w. Q a w \<Longrightarrow> Q' a w) \<Longrightarrow> (\<And>e w. E e w \<Longrightarrow> E' e w) \<Longrightarrow> leads r Q' E'"
  by (cases r; cases "fst r") (auto simp: leads_def)

text \<open>
  A file call answers what it computes, or fails with \<open>CallFailed\<close> when not every call works; a working world works on.
\<close>

lemma file_call_leads:
  assumes "\<And>a w'. fst (run (wd_fs w)) = Inr a \<Longrightarrow> wd_fs w' = snd (run (wd_fs w)) \<Longrightarrow> wd_db w' = wd_db w \<Longrightarrow> (works w \<Longrightarrow> works w') \<Longrightarrow> Q a w'"
    and "\<And>e w'. fst (run (wd_fs w)) = Inl e \<Longrightarrow> wd_fs w' = snd (run (wd_fs w)) \<Longrightarrow> wd_db w' = wd_db w \<Longrightarrow> (works w \<Longrightarrow> works w') \<Longrightarrow> E e w'"
    and "\<And>left w'. wd_fs w' = wd_fs w \<or> wd_fs w' = partly left (wd_fs w) \<Longrightarrow> wd_db w' = wd_db w \<Longrightarrow> \<not> works w \<Longrightarrow> E CallFailed w'"
  shows "leads (file_call run partly w) Q E"
proof (cases "wd_dead w")
  case True
  then show ?thesis using assms(3)[of w] by (simp add: file_call_def works_def)
next
  case False
  have runs: "leads (fst (run (wd_fs w)), w\<lparr>wd_fs := snd (run (wd_fs w)), wd_plan := tl (wd_plan w)\<rparr>) Q E"
  proof (cases "fst (run (wd_fs w))")
    case (Inl e)
    show ?thesis unfolding Inl leads_simps by (rule assms(2)[OF Inl]) (auto simp: works_def)
  next
    case (Inr a)
    show ?thesis unfolding Inr leads_simps by (rule assms(1)[OF Inr]) (auto simp: works_def)
  qed
  show ?thesis
  proof (cases "wd_plan w")
    case (Cons fate plan)
    then have nw: "\<not> works w" by (simp add: works_def)
    show ?thesis using False Cons runs assms(3)[OF _ _ nw, of "w\<lparr>wd_fs := partly left (wd_fs w), wd_plan := plan\<rparr>" for left]
        assms(3)[OF _ _ nw, of "w\<lparr>wd_fs := partly left (wd_fs w), wd_plan := plan, wd_dead := True\<rparr>" for left]
      by (cases fate) (auto simp: file_call_def)
  qed (use False runs in \<open>simp add: file_call_def\<close>)
qed

text \<open>A call that only looks, and whose answer is right.\<close>

lemma look_call_leads:
  assumes "\<And>fs. snd (run fs) = fs" and "\<And>left fs. partly left fs = fs"
    and "\<And>a w'. fst (run (wd_fs w)) = Inr a \<Longrightarrow> wd_fs w' = wd_fs w \<Longrightarrow> wd_db w' = wd_db w \<Longrightarrow> (works w \<Longrightarrow> works w') \<Longrightarrow> Q a w'"
    and "\<And>e w'. fst (run (wd_fs w)) = Inl e \<or> e = CallFailed \<and> \<not> works w \<Longrightarrow> wd_fs w' = wd_fs w \<Longrightarrow> wd_db w' = wd_db w \<Longrightarrow> (works w \<Longrightarrow> works w') \<Longrightarrow> E e w'"
  shows "leads (file_call run partly w) Q E"
  by (rule file_call_leads) (use assms in auto)

lemma db_call_leads:
  assumes "\<And>w'. wd_fs w' = wd_fs w \<Longrightarrow> wd_db w' = snd (f (wd_db w)) \<Longrightarrow> (works w \<Longrightarrow> works w') \<Longrightarrow> Q (fst (f (wd_db w))) w'"
    and "\<And>w'. wd_fs w' = wd_fs w \<Longrightarrow> wd_db w' = wd_db w \<Longrightarrow> \<not> works w \<Longrightarrow> E CallFailed w'"
  shows "leads (db_call f w) Q E"
proof (cases "wd_dead w")
  case True
  then show ?thesis using assms(2)[of w] by (simp add: db_call_def works_def)
next
  case False
  show ?thesis
  proof (cases "wd_plan w")
    case Nil
    then show ?thesis using False assms(1)[of "w\<lparr>wd_db := snd (f (wd_db w)), wd_plan := []\<rparr>"] by (simp add: db_call_def works_def)
  next
    case (Cons fate plan)
    then have nw: "\<not> works w" by (simp add: works_def)
    show ?thesis using False Cons assms(1)[of "w\<lparr>wd_db := snd (f (wd_db w)), wd_plan := plan\<rparr>"] nw
        assms(2)[of "w\<lparr>wd_plan := plan\<rparr>"] assms(2)[of "w\<lparr>wd_plan := plan, wd_dead := True\<rparr>"]
      by (cases fate) (auto simp: db_call_def)
  qed
qed


text \<open>\<open>opened\<close>: the directories down to a path are there or can be made.\<close>

lemma mkdir_all_leads:
  assumes "\<And>q. prefix q d \<Longrightarrow> look (wd_fs w) q \<in> {None, Some DirE}"
    and "\<And>w'. (\<And>q. look (wd_fs w') q = (if look (wd_fs w) q = None \<and> prefix q d then Some DirE else look (wd_fs w) q)) \<Longrightarrow>
      wd_db w' = wd_db w \<Longrightarrow> (works w \<Longrightarrow> works w') \<Longrightarrow> Q () w'"
    and "\<And>w'. (\<And>q. look (wd_fs w') q = look (wd_fs w) q \<or> look (wd_fs w) q = None \<and> look (wd_fs w') q = Some DirE \<and> prefix q d) \<Longrightarrow>
      wd_db w' = wd_db w \<Longrightarrow> \<not> works w \<Longrightarrow> E CallFailed w'"
  shows "leads (mkdir_all d w) Q E"
proof -
  have ok: "list_all (\<lambda>k. look (wd_fs w) (take k d) \<in> {None, Some DirE}) [0..<Suc (length d)]"
    using assms(1) by (simp add: list_all_iff take_is_prefix del: upt_Suc)
  show ?thesis unfolding mkdir_all_def
  proof (rule file_call_leads, goal_cases)
    case (1 a w')
    then have "Q () w'" using ok by (intro assms(2)) (simp_all add: look_add_dirs del: upt_Suc)
    then show ?case by simp
  next
    case (2 e w')
    then show ?case using ok by (simp del: upt_Suc)
  next
    case (3 left w')
    have "prefix q (take (length left) d) \<Longrightarrow> prefix q d" for q by (meson prefix_order.trans take_is_prefix)
    then have "look (wd_fs w') q = look (wd_fs w) q \<or> look (wd_fs w) q = None \<and> look (wd_fs w') q = Some DirE \<and> prefix q d" for q
      using ok 3(1) by (auto simp: look_add_dirs simp del: upt_Suc split: if_splits)
    then show ?case using 3(2,3) by (rule assms(3))
  qed
qed

lemma stat_leads:
  assumes "\<And>e w'. look (wd_fs w) p = Some e \<Longrightarrow> wd_fs w' = wd_fs w \<Longrightarrow> wd_db w' = wd_db w \<Longrightarrow> (works w \<Longrightarrow> works w') \<Longrightarrow> Q e w'"
    and "\<And>w'. look (wd_fs w) p = None \<Longrightarrow> wd_fs w' = wd_fs w \<Longrightarrow> wd_db w' = wd_db w \<Longrightarrow> (works w \<Longrightarrow> works w') \<Longrightarrow> E NotExist w'"
    and "\<And>w'. wd_fs w' = wd_fs w \<Longrightarrow> wd_db w' = wd_db w \<Longrightarrow> \<not> works w \<Longrightarrow> E CallFailed w'"
  shows "leads (stat p w) Q E"
  unfolding stat_def by (rule look_call_leads) (use assms in \<open>auto simp: untouched_def split: option.splits\<close>)

lemma sync_path_leads:
  assumes "look (wd_fs w) p \<noteq> None"
    and "\<And>w'. wd_fs w' = wd_fs w \<Longrightarrow> wd_db w' = wd_db w \<Longrightarrow> (works w \<Longrightarrow> works w') \<Longrightarrow> Q () w'"
    and "\<And>w'. wd_fs w' = wd_fs w \<Longrightarrow> wd_db w' = wd_db w \<Longrightarrow> \<not> works w \<Longrightarrow> E CallFailed w'"
  shows "leads (sync_path p w) Q E"
  unfolding sync_path_def by (rule look_call_leads) (use assms in \<open>auto simp: untouched_def\<close>)

lemma validate_leads:
  assumes "strict_prefix work p" and "\<And>q. strict_prefix q p \<Longrightarrow> look (wd_fs w) q \<in> {None, Some DirE}"
    and "\<And>q. prefix p q \<Longrightarrow> look (wd_fs w) q \<notin> {Some LinkE, Some OtherE}"
    and "\<And>w'. wd_fs w' = wd_fs w \<Longrightarrow> wd_db w' = wd_db w \<Longrightarrow> (works w \<Longrightarrow> works w') \<Longrightarrow> Q () w'"
    and "\<And>w'. wd_fs w' = wd_fs w \<Longrightarrow> wd_db w' = wd_db w \<Longrightarrow> \<not> works w \<Longrightarrow> E CallFailed w'"
  shows "leads (validate_artifact_tree work p w) Q E"
proof -
  have st: "strict_prefix (take k p) p" if "k < length p" for k
    using that take_is_prefix[of k p] by (auto simp: strict_prefix_def)
  have "look (wd_fs w) (take k p) \<noteq> Some LinkE" for k using assms(2)[OF st, of k] assms(3)[of p] by (cases "k < length p") auto
  moreover have "look (wd_fs w) (take k p) \<in> {None, Some DirE, Some LinkE}" if "k < length p" for k using assms(2)[OF st[OF that]] by auto
  ultimately have "safe_artifact_path work p (wd_fs w)" using assms(1) by (auto simp: safe_artifact_path_def list_all_iff)
  moreover have "list_all (\<lambda>(q, _). prefix p q \<longrightarrow> look (wd_fs w) q \<notin> {Some LinkE, Some OtherE}) (wd_fs w)"
    using assms(3) by (auto simp: list_all_iff)
  ultimately show ?thesis unfolding validate_artifact_tree_def by (intro look_call_leads) (use assms(4,5) in \<open>auto simp: untouched_def\<close>)
qed

lemma remove_all_leads:
  assumes "p \<noteq> []"
    and "\<And>w'. (\<And>q. look (wd_fs w') q = (if prefix p q then None else look (wd_fs w) q)) \<Longrightarrow> wd_db w' = wd_db w \<Longrightarrow> (works w \<Longrightarrow> works w') \<Longrightarrow> Q () w'"
    and "\<And>w'. (\<And>q. look (wd_fs w') q = look (wd_fs w) q \<or> look (wd_fs w') q = None \<and> prefix p q) \<Longrightarrow> wd_db w' = wd_db w \<Longrightarrow> \<not> works w \<Longrightarrow> E CallFailed w'"
  shows "leads (remove_all p w) Q E"
  unfolding remove_all_def
proof (rule file_call_leads, goal_cases)
  case (3 left w')
  let ?kept = "filter (\<lambda>(q, _). prefix p q \<longrightarrow> drop (length p) q \<in> set (map fst left)) (wd_fs w)"
  have k: "look ?kept q = look (wd_fs w) q \<or> look ?kept q = None \<and> prefix p q" for q
    using look_filter[of q "\<lambda>q. prefix p q \<longrightarrow> drop (length p) q \<in> set (map fst left)" "wd_fs w"]
    by (cases "q = []") (simp_all add: look_def split: if_splits)
  have "look (wd_fs w') q = look (wd_fs w) q \<or> look (wd_fs w') q = None \<and> prefix p q" for q
    using 3(1) by (elim disjE) (simp_all only: k simp_thms)
  then show ?case using 3(2,3) by (rule assms(3))
qed (use assms(1,2) in auto)

lemma rename_leads:
  assumes "src \<noteq> []" "dst \<noteq> []" "apart src dst"
    and "look (wd_fs w) (butlast dst) = Some DirE" and "look (wd_fs w) dst = None"
    and "\<And>w'. look (wd_fs w) src \<noteq> None \<Longrightarrow> (\<And>q. look (wd_fs w') q = (if prefix dst q then look (wd_fs w) (src @ drop (length dst) q) else if prefix src q then None else look (wd_fs w) q)) \<Longrightarrow>
      wd_db w' = wd_db w \<Longrightarrow> (works w \<Longrightarrow> works w') \<Longrightarrow> Q () w'"
    and "\<And>w'. look (wd_fs w) src = None \<Longrightarrow> wd_fs w' = wd_fs w \<Longrightarrow> wd_db w' = wd_db w \<Longrightarrow> (works w \<Longrightarrow> works w') \<Longrightarrow> E NotExist w'"
    and "\<And>w'. wd_fs w' = wd_fs w \<Longrightarrow> wd_db w' = wd_db w \<Longrightarrow> \<not> works w \<Longrightarrow> E CallFailed w'"
  shows "leads (rename src dst w) Q E"
  unfolding rename_def
proof (rule file_call_leads, goal_cases)
  case (1 a w')
  then have "look (wd_fs w) src \<noteq> None" "wd_fs w' = move_tree src dst (wd_fs w)" by (auto simp: rename_tree_def split: if_splits)
  then have "Q () w'" using 1 assms(1-3) by (intro assms(6)) (simp_all add: look_move apart_def)
  then show ?case by simp
next
  case (2 e w')
  then have "look (wd_fs w) src = None \<and> e = NotExist \<and> wd_fs w' = wd_fs w"
    using assms(3-5) by (auto simp: rename_tree_def apart_def split: if_splits)
  then show ?case using 2 assms(7) by simp
next
  case (3 left w')
  then show ?case using assms(8) by (simp add: untouched_def)
qed


subsection \<open>Interrupted operations\<close>

definition target_path :: "path \<Rightarrow> artifact_operation \<Rightarrow> nat \<Rightarrow> path" where
  "target_path work op i = work @ ao_targets op ! i"

text \<open>
  Where an operation may be journalled: its targets are its own and apart from each other, directories lead to them
  and to the operation's directory, nothing in either is a link or special, and nothing was moved aside yet.
\<close>

definition prepared :: "path \<Rightarrow> artifact_operation \<Rightarrow> file_tree \<Rightarrow> bool" where
  "prepared work op fs \<longleftrightarrow>
     valid_artifact_job (ao_job op) \<and> ao_action op \<in> {''promote'', ''video'', ''remove''} \<and>
     (ao_action op = ''promote'' \<longrightarrow> 2 \<le> length (ao_targets op)) \<and> (\<forall>i<length (ao_targets op). may_target op (ao_targets op ! i)) \<and>
     (\<forall>i<length (ao_targets op). \<forall>j<length (ao_targets op). i \<noteq> j \<longrightarrow> apart (target_path work op i) (target_path work op j)) \<and>
     (\<forall>q. prefix (operation_dir work (ao_job op)) q \<or> (\<exists>i<length (ao_targets op). prefix (target_path work op i) q) \<longrightarrow>
       look fs q \<notin> {Some LinkE, Some OtherE}) \<and>
     (\<forall>q. prefix q (operation_dir work (ao_job op)) \<or> (\<exists>i<length (ao_targets op). strict_prefix q (target_path work op i)) \<longrightarrow>
       look fs q \<in> {None, Some DirE}) \<and>
     (\<forall>i<length (ao_targets op).
       (ao_action op = ''remove'' \<longrightarrow> look fs (butlast (target_path work op i)) = Some DirE) \<and> tree_at fs (old_path work op i) = no_tree \<and>
       (look fs (new_path work op i) = None \<longrightarrow> tree_at fs (new_path work op i) = no_tree) \<and>
       (look fs (target_path work op i) = None \<longrightarrow> tree_at fs (target_path work op i) = no_tree))"

text \<open>What is to be at a target in the end.\<close>

definition final_tree :: "path \<Rightarrow> artifact_operation \<Rightarrow> file_tree \<Rightarrow> nat \<Rightarrow> path \<Rightarrow> file_entry option" where
  "final_tree work op fs i =
     (if removes op i then no_tree
      else if look fs (new_path work op i) \<noteq> None then tree_at fs (new_path work op i) else tree_at fs (target_path work op i))"

definition waiting :: "path \<Rightarrow> artifact_operation \<Rightarrow> file_tree \<Rightarrow> nat \<Rightarrow> file_tree \<Rightarrow> bool" where
  "waiting work op fs i f \<longleftrightarrow> tree_at f (target_path work op i) = tree_at fs (target_path work op i) \<and>
     tree_at f (old_path work op i) = no_tree \<and> tree_at f (new_path work op i) = tree_at fs (new_path work op i)"

definition moved_out :: "path \<Rightarrow> artifact_operation \<Rightarrow> file_tree \<Rightarrow> nat \<Rightarrow> file_tree \<Rightarrow> bool" where
  "moved_out work op fs i f \<longleftrightarrow> tree_at f (target_path work op i) = no_tree \<and>
     (removes op i \<or> tree_at f (new_path work op i) = tree_at fs (new_path work op i) \<and> look fs (new_path work op i) \<noteq> None)"

definition finished :: "path \<Rightarrow> artifact_operation \<Rightarrow> file_tree \<Rightarrow> nat \<Rightarrow> file_tree \<Rightarrow> bool" where
  "finished work op fs i f \<longleftrightarrow> tree_at f (target_path work op i) = final_tree work op fs i \<and>
     (removes op i \<or> tree_at f (new_path work op i) = no_tree)"

definition midway :: "path \<Rightarrow> artifact_operation \<Rightarrow> file_tree \<Rightarrow> file_tree \<Rightarrow> bool" where
  "midway work op fs f \<longleftrightarrow>
     (\<forall>i<length (ao_targets op). waiting work op fs i f \<or> moved_out work op fs i f \<or> finished work op fs i f) \<and>
     (\<forall>q. prefix (operation_dir work (ao_job op)) q \<longrightarrow> look f q \<notin> {Some LinkE, Some OtherE}) \<and>
     (\<forall>q. prefix q (operation_dir work (ao_job op)) \<or> (\<exists>i<length (ao_targets op). strict_prefix q (target_path work op i)) \<longrightarrow>
       look f q \<in> {None, Some DirE}) \<and>
     (\<forall>i<length (ao_targets op). ao_action op = ''remove'' \<longrightarrow> look f (butlast (target_path work op i)) = Some DirE) \<and>
     (\<forall>p. apart p (operation_dir work (ao_job op)) \<longrightarrow> (\<forall>i<length (ao_targets op). apart p (target_path work op i)) \<longrightarrow> tree_at f p = tree_at fs p) \<and>
     (\<forall>q. (\<exists>i<length (ao_targets op). strict_prefix q (target_path work op i)) \<longrightarrow> look fs q = Some DirE \<longrightarrow> look f q = Some DirE)"

text \<open>The paths of an operation are apart.\<close>

lemma path_names:
  assumes "may_target op rel"
  obtains r rs where "rel = r # rs" "r \<noteq> ''.artifact-operations''" "rs \<noteq> []"
proof -
  note defs = owned_targets_def canonical_run_path_def canonical_meeting_path_def canonical_opus_path_def current_root_def runs_root_def
    attempt_run_path_def attempt_meeting_path_def attempt_seal_dir_def attempt_site_path_def attempt_logs_dir_def attempt_scratch_path_def
    media_promotion_paths_def current_staging_root_def Let_def
  have "\<exists>r rs. rel = r # rs \<and> r \<noteq> ''.artifact-operations'' \<and> rs \<noteq> []"
  proof (cases "butlast rel = attempt_seal_dir [] (ao_job op) (ao_attempt op)")
    case True
    then have "rel = attempt_seal_dir [] (ao_job op) (ao_attempt op) @ [last rel]"
      by (metis append_butlast_last_id butlast.simps(1) attempt_seal_dir_def append_is_Nil_conv list.distinct(1))
    then have r: "rel = ''runs'' # [attempt_base_name (ao_job op) (ao_attempt op) @ ''.seal'', last rel]" by (simp add: defs)
    show ?thesis by (rule exI[of _ "''runs''"], rule exI, rule conjI, rule r) simp
  qed (use assms in \<open>auto simp: may_target_def defs\<close>)
  then show ?thesis using that by blast
qed

lemma operation_paths:
  assumes "prepared work op fs" and i: "i < length (ao_targets op)"
  defines "t \<equiv> target_path work op i" and "d \<equiv> operation_dir work (ao_job op)"
  shows "apart t d" "apart d t" "apart t (d @ r)" "apart (d @ r) t" "strict_prefix work t" "strict_prefix work d" "t \<noteq> []" "d \<noteq> []" "\<not> prefix t (butlast t)"
    "strict_prefix (butlast t) t" "\<not> prefix d (butlast t)"
proof -
  obtain a rs where a: "ao_targets op ! i = a # rs" "a \<noteq> ''.artifact-operations''" "rs \<noteq> []"
    by (rule path_names[of op "ao_targets op ! i"]) (use assms(1) i in \<open>auto simp: prepared_def\<close>)
  show ap: "apart t d" using a by (simp add: t_def d_def target_path_def operation_dir_def apart_def)
  then show "apart d t" "apart t (d @ r)" "apart (d @ r) t" using apart_sym apart_extend by blast+
  show "strict_prefix work t" "strict_prefix work d" "t \<noteq> []" "d \<noteq> []" using a by (simp_all add: t_def d_def target_path_def operation_dir_def strict_prefix_def)
  have t: "t = butlast t @ [last t]" using \<open>t \<noteq> []\<close> by simp
  then show b: "strict_prefix (butlast t) t" by (metis strict_prefix_def prefixI not_Cons_self2 append_self_conv)
  then show "\<not> prefix t (butlast t)" by auto
  show "\<not> prefix d (butlast t)" using ap b by (meson apart_def prefix_order.trans prefix_order.less_imp_le)
qed

lemma old_new_paths:
  "old_path work op i = operation_dir work (ao_job op) @ [''old-'' @ itoa_nat i]" "new_path work op i = operation_dir work (ao_job op) @ [''new-'' @ itoa_nat i]"
  "apart (old_path work op i) (new_path work op j)" "apart (new_path work op i) (old_path work op j)"
  "i \<noteq> j \<Longrightarrow> apart (old_path work op i) (old_path work op j)" "i \<noteq> j \<Longrightarrow> apart (new_path work op i) (new_path work op j)"
  by (auto simp: old_path_def new_path_def apart_def)

text \<open>
  A step on target \<open>i\<close> changes what is under its own three paths and makes directories that lead to it; the invariant
  needs to be checked for that target only.
\<close>

definition only_target :: "path \<Rightarrow> artifact_operation \<Rightarrow> nat \<Rightarrow> file_tree \<Rightarrow> file_tree \<Rightarrow> bool" where
  "only_target work op i f g \<longleftrightarrow> (\<forall>q. look g q = look f q \<or> prefix (target_path work op i) q \<or>
      (prefix (old_path work op i) q \<or> prefix (new_path work op i) q) \<and> look g q \<notin> {Some LinkE, Some OtherE} \<or>
      look f q = None \<and> look g q = Some DirE \<and> strict_prefix q (target_path work op i))"

lemma only_target_apart:
  assumes "only_target work op i f g" and "apart x (target_path work op i)" "apart x (old_path work op i)" "apart x (new_path work op i)"
  shows "tree_at g x = tree_at f x"
proof -
  have "look g (x @ r) = look f (x @ r)" for r
  proof -
    have "\<not> prefix (target_path work op i) (x @ r)" "\<not> prefix (old_path work op i) (x @ r)" "\<not> prefix (new_path work op i) (x @ r)"
      "\<not> prefix (x @ r) (target_path work op i)"
      using apart_below[OF apart_sym[OF assms(2)]] apart_below[OF apart_sym[OF assms(3)]] apart_below[OF apart_sym[OF assms(4)]] by blast+
    then show ?thesis using assms(1) unfolding only_target_def by (meson prefix_order.less_imp_le)
  qed
  then show ?thesis by (simp add: tree_at_def)
qed

lemma only_target_midway:
  assumes p: "prepared work op fs" and m: "midway work op fs f" and i: "i < length (ao_targets op)" and o: "only_target work op i f g"
    and t: "waiting work op fs i g \<or> moved_out work op fs i g \<or> finished work op fs i g"
  shows "midway work op fs g" and "j < length (ao_targets op) \<Longrightarrow> j \<noteq> i \<Longrightarrow> finished work op fs j f \<Longrightarrow> finished work op fs j g"
    and "prefix q (operation_dir work (ao_job op)) \<Longrightarrow> look f q = Some DirE \<Longrightarrow> look g q = Some DirE"
    and "look f (butlast (target_path work op i)) = Some DirE \<Longrightarrow> look g (butlast (target_path work op i)) = Some DirE"
proof -
  let ?d = "operation_dir work (ao_job op)" and ?t = "target_path work op"
  note ps = operation_paths[OF p]
  note mm = m[unfolded midway_def]
  have tt: "apart (?t j) (?t i)" if "j < length (ao_targets op)" "j \<noteq> i" for j using p i that by (simp add: prepared_def)
  have same: "tree_at g (?t j) = tree_at f (?t j)" "tree_at g (old_path work op j) = tree_at f (old_path work op j)"
      "tree_at g (new_path work op j) = tree_at f (new_path work op j)" if j: "j < length (ao_targets op)" "j \<noteq> i" for j
  proof -
    have "apart (?t j) (?d @ r)" "apart (?d @ r) (?t i)" for r using ps(3,4) i j(1) by blast+
    then show "tree_at g (?t j) = tree_at f (?t j)" "tree_at g (old_path work op j) = tree_at f (old_path work op j)"
        "tree_at g (new_path work op j) = tree_at f (new_path work op j)"
      using tt[OF j] old_new_paths(3-6) j(2) by (intro only_target_apart[OF o]; simp add: old_new_paths(1,2))+
  qed
  show "finished work op fs j g" if "j < length (ao_targets op)" "j \<noteq> i" "finished work op fs j f" for j
    using same[OF that(1,2)] that(3) by (simp add: finished_def)
  have at: "look g q = look f q \<or> look f q = None \<and> look g q = Some DirE"
    if "\<not> prefix (?t i) q" "\<not> prefix (old_path work op i) q" "\<not> prefix (new_path work op i) q" for q
    using o that unfolding only_target_def by blast
  have up: "\<not> prefix (old_path work op k) q \<and> \<not> prefix (new_path work op k) q" if "prefix q ?d" for q k
    using that by (auto simp: old_path_def new_path_def dest!: prefix_length_le)
  have lead: "\<not> prefix (?t i) q \<and> \<not> prefix (old_path work op i) q \<and> \<not> prefix (new_path work op i) q"
    if "prefix q ?d \<or> (\<exists>j<length (ao_targets op). strict_prefix q (?t j))" for q
  proof (cases "prefix q ?d")
    case True
    then show ?thesis using up ps(1)[OF i] by (meson apart_def prefix_order.trans)
  next
    case False
    from False that obtain j where j: "j < length (ao_targets op)" "strict_prefix q (?t j)" by blast
    have "\<not> prefix (?t i) q"
    proof
      assume "prefix (?t i) q"
      then have "strict_prefix (?t i) (?t j)" using j(2) by (meson prefix_order.le_less_trans)
      then show False using tt[OF j(1)] by (cases "j = i") (auto simp: apart_def)
    qed
    moreover have "\<not> prefix (?d @ r) q" for r using ps(4)[OF j(1)] j(2) by (meson apart_def prefix_order.trans prefix_order.less_imp_le)
    ultimately show ?thesis by (simp add: old_new_paths(1,2))
  qed
  show "prefix q ?d \<Longrightarrow> look f q = Some DirE \<Longrightarrow> look g q = Some DirE" using at[of q] lead[of q] by auto
  show "look f (butlast (?t i)) = Some DirE \<Longrightarrow> look g (butlast (?t i)) = Some DirE"
    using at[of "butlast (?t i)"] lead[of "butlast (?t i)"] ps(10)[OF i] i by auto
  show "midway work op fs g" unfolding midway_def
  proof (intro conjI allI impI)
    fix j assume "j < length (ao_targets op)"
    then show "waiting work op fs j g \<or> moved_out work op fs j g \<or> finished work op fs j g"
      using t mm same[of j] by (cases "j = i") (auto simp: waiting_def moved_out_def finished_def)
  next
    fix q assume "prefix ?d q"
    moreover have "\<not> prefix (?t i) q" using ps(1)[OF i] \<open>prefix ?d q\<close> by (meson apart_def prefix_same_cases)
    ultimately show "look g q \<notin> {Some LinkE, Some OtherE}" using o mm unfolding only_target_def by (metis file_entry.distinct(7,9) insertE option.inject singletonD)
  next
    fix q assume "prefix q ?d \<or> (\<exists>i<length (ao_targets op). strict_prefix q (?t i))"
    then show "look g q \<in> {None, Some DirE}" using at[of q] lead[of q] mm by (metis insert_iff)
  next
    fix j assume "j < length (ao_targets op)" "ao_action op = ''remove''"
    then show "look g (butlast (?t j)) = Some DirE" using at[of "butlast (?t j)"] lead[of "butlast (?t j)"] mm ps(10) by auto
  next
    fix x assume x: "apart x ?d" "\<forall>i<length (ao_targets op). apart x (?t i)"
    have "tree_at g x = tree_at f x"
      by (rule only_target_apart[OF o]) (use x i apart_extend in \<open>auto simp: old_new_paths(1,2)\<close>)
    then show "tree_at g x = tree_at fs x" using mm x by simp
  next
    fix q assume q: "\<exists>i<length (ao_targets op). strict_prefix q (?t i)" "look fs q = Some DirE"
    then have "look f q = Some DirE" using mm by blast
    then show "look g q = Some DirE" using at[of q] lead[of q] q(1) by auto
  qed
qed

lemma leads_case:
  "leads c (\<lambda>a w. leads (k (Inr a) w) Q E) (\<lambda>e w. leads (k (Inl e) w) Q E) \<Longrightarrow> leads (case c of (r, w) \<Rightarrow> k r w) Q E"
  by (cases c; cases "fst c") (auto simp: leads_def)

text \<open>One step of an operation, on its target \<open>i\<close>.\<close>

definition goes :: "path \<Rightarrow> artifact_operation \<Rightarrow> file_tree \<Rightarrow> nat \<Rightarrow> 'd world \<Rightarrow> 'd world \<Rightarrow> bool" where
  "goes work op fs i w w' \<longleftrightarrow> midway work op fs (wd_fs w') \<and> wd_db w' = wd_db w \<and>
     (\<forall>j<length (ao_targets op). j \<noteq> i \<longrightarrow> finished work op fs j (wd_fs w) \<longrightarrow> finished work op fs j (wd_fs w')) \<and>
     (\<forall>q. prefix q (operation_dir work (ao_job op)) \<or> q = butlast (target_path work op i) \<longrightarrow>
       look (wd_fs w) q = Some DirE \<longrightarrow> look (wd_fs w') q = Some DirE)"

lemma goes_trans: "goes work op fs i w w' \<Longrightarrow> goes work op fs i w' w'' \<Longrightarrow> goes work op fs i w w''"
  by (auto simp: goes_def)

lemma goes_same: "midway work op fs (wd_fs w) \<Longrightarrow> wd_fs w' = wd_fs w \<Longrightarrow> wd_db w' = wd_db w \<Longrightarrow> goes work op fs i w w'"
  by (simp add: goes_def)

lemma goes_only:
  assumes "prepared work op fs" "midway work op fs (wd_fs w)" "i < length (ao_targets op)" "only_target work op i (wd_fs w) (wd_fs w')"
    and "waiting work op fs i (wd_fs w') \<or> moved_out work op fs i (wd_fs w') \<or> finished work op fs i (wd_fs w')" and "wd_db w' = wd_db w"
  shows "goes work op fs i w w'"
  using only_target_midway[OF assms(1-5)] assms(6) by (auto simp: goes_def)

lemma made_directories:
  assumes p: "prepared work op fs" and i: "i < length (ao_targets op)"
    and l: "\<And>q. look g q = look f q \<or> look f q = None \<and> look g q = Some DirE \<and> prefix q (butlast (target_path work op i))"
  shows "only_target work op i f g" "tree_at g (target_path work op i) = tree_at f (target_path work op i)"
    "tree_at g (old_path work op i) = tree_at f (old_path work op i)" "tree_at g (new_path work op i) = tree_at f (new_path work op i)"
    "waiting work op fs i f \<or> moved_out work op fs i f \<or> finished work op fs i f \<Longrightarrow> waiting work op fs i g \<or> moved_out work op fs i g \<or> finished work op fs i g"
proof -
  let ?t = "target_path work op i"
  note ps = operation_paths[OF p i]
  have st: "prefix q (butlast ?t) \<Longrightarrow> strict_prefix q ?t" for q using ps(10) by (meson prefix_order.le_less_trans)
  then show "only_target work op i f g" using l unfolding only_target_def by blast
  have "\<not> strict_prefix (?t @ r) ?t" for r by (metis prefixI prefix_order.less_le_not_le)
  moreover have "\<not> strict_prefix ((operation_dir work (ao_job op) @ s) @ r) ?t" for r s
    using apart_below[OF apart_sym[OF ps(4)], of s r] by (meson prefix_order.less_imp_le)
  ultimately have "look g (?t @ r) = look f (?t @ r)" "look g ((operation_dir work (ao_job op) @ s) @ r) = look f ((operation_dir work (ao_job op) @ s) @ r)" for r s
    using l st by blast+
  note L = this
  show 1: "tree_at g ?t = tree_at f ?t" "tree_at g (old_path work op i) = tree_at f (old_path work op i)"
      "tree_at g (new_path work op i) = tree_at f (new_path work op i)"
    unfolding tree_at_def old_new_paths(1,2) by (simp_all only: L)
  show "waiting work op fs i f \<or> moved_out work op fs i f \<or> finished work op fs i f \<Longrightarrow> waiting work op fs i g \<or> moved_out work op fs i g \<or> finished work op fs i g"
    using 1 by (simp add: waiting_def moved_out_def finished_def)
qed

lemma make_parent_leads:
  assumes p: "prepared work op fs" and i: "i < length (ao_targets op)" and m: "midway work op fs (wd_fs w)"
  shows "leads (mkdir_all (butlast (target_path work op i)) w)
    (\<lambda>_ w'. goes work op fs i w w' \<and> (works w \<longrightarrow> works w') \<and> look (wd_fs w') (butlast (target_path work op i)) = Some DirE \<and>
      (moved_out work op fs i (wd_fs w) \<longrightarrow> moved_out work op fs i (wd_fs w')) \<and>
      (look (wd_fs w) (new_path work op i) = None \<longleftrightarrow> look (wd_fs w') (new_path work op i) = None))
    (\<lambda>_ w'. goes work op fs i w w' \<and> \<not> works w)"
proof -
  let ?t = "target_path work op i"
  note ps = operation_paths[OF p i]
  have st: "prefix q (butlast ?t) \<Longrightarrow> strict_prefix q ?t" for q using ps(10) by (meson prefix_order.le_less_trans)
  have T: "waiting work op fs i (wd_fs w) \<or> moved_out work op fs i (wd_fs w) \<or> finished work op fs i (wd_fs w)" using m i by (simp add: midway_def)
  have open': "look (wd_fs w) q \<in> {None, Some DirE}" if "prefix q (butlast ?t)" for q using m i st[OF that] unfolding midway_def by blast
  show ?thesis
  proof (rule mkdir_all_leads, goal_cases)
    case (1 q)
    then show ?case by (rule open')
  next
    case (2 w')
    then have l: "look (wd_fs w') q = look (wd_fs w) q \<or> look (wd_fs w) q = None \<and> look (wd_fs w') q = Some DirE \<and> prefix q (butlast ?t)" for q
      by auto
    note md = made_directories[OF p i l]
    have "goes work op fs i w w'" by (rule goes_only[OF p m i md(1) md(5)[OF T]]) (rule 2(2))
    moreover have "look (wd_fs w') (butlast ?t) = Some DirE" using 2(1)[of "butlast ?t"] open'[of "butlast ?t"] by auto
    moreover have "look (wd_fs w') (new_path work op i) = look (wd_fs w) (new_path work op i)" using md(4) by (metis look_tree)
    ultimately show ?case using 2(3) md(2-4) by (simp add: moved_out_def)
  next
    case (3 w')
    note md = made_directories[OF p i 3(1)]
    have "goes work op fs i w w'" by (rule goes_only[OF p m i md(1) md(5)[OF T]]) (rule 3(2))
    then show ?case using 3(3) by simp
  qed
qed

lemma move_aside_leads:
  assumes p: "prepared work op fs" and i: "i < length (ao_targets op)" and m: "midway work op fs (wd_fs w)"
    and d: "look (wd_fs w) (operation_dir work (ao_job op)) = Some DirE"
    and r: "removes op i \<or> look fs (new_path work op i) \<noteq> None"
    and T: "waiting work op fs i (wd_fs w) \<or> moved_out work op fs i (wd_fs w)"
  shows "leads (move_aside (target_path work op i) (old_path work op i) w)
    (\<lambda>_ w'. goes work op fs i w w' \<and> (works w \<longrightarrow> works w') \<and> moved_out work op fs i (wd_fs w')) (\<lambda>_ w'. goes work op fs i w w' \<and> \<not> works w)"
proof -
  let ?t = "target_path work op i" and ?o = "old_path work op i" and ?d = "operation_dir work (ao_job op)"
  note ps = operation_paths[OF p i]
  have ap: "apart ?t ?o" "apart ?o ?t" using ps(3,4) by (simp_all add: old_path_def)
  have bo: "butlast ?o = ?d" by (simp add: old_path_def)
  have ot: "tree_at fs ?t = no_tree" if "look fs ?t = None" using p i that by (simp add: prepared_def)
  show ?thesis unfolding move_aside_def Let_def
  proof (rule leads_case, rule stat_leads, goal_cases)
    case (1 e w')
    then have "tree_at (wd_fs w) ?o \<noteq> no_tree" by (auto simp: look_tree no_tree_def)
    then have "moved_out work op fs i (wd_fs w)" using T by (auto simp: waiting_def)
    then show ?case using 1 goes_same[OF m 1(2,3)] by simp
  next
    case (2 w1)
    show ?case unfolding sum.case call_err.case
    proof (rule leads_case, rule rename_leads, goal_cases)
      case 3 show ?case by (rule ap)
    next
      case 4 show ?case using d 2 by (simp add: bo)
    next
      case 5 show ?case using 2 by simp
    next
      case (6 w')
      then have "waiting work op fs i (wd_fs w)" using T 2 by (auto simp: moved_out_def look_tree no_tree_def)
      then have w: "tree_at (wd_fs w) ?t = tree_at fs ?t" "tree_at (wd_fs w) (new_path work op i) = tree_at fs (new_path work op i)"
        by (simp_all add: waiting_def)
      have l: "look (wd_fs w') q = (if prefix ?o q then look (wd_fs w) (?t @ drop (length ?o) q) else if prefix ?t q then None else look (wd_fs w) q)" for q
        using 6(2) 2(2) by simp
      have clean: "look (wd_fs w) (?t @ x) \<notin> {Some LinkE, Some OtherE}" for x
        using p i w(1) unfolding prepared_def tree_at_def by (metis prefixI)
      have o: "only_target work op i (wd_fs w) (wd_fs w')" using l clean unfolding only_target_def by metis
      have "\<not> prefix ?o (?t @ x)" "\<not> prefix ?o (new_path work op i @ x)" "\<not> prefix ?t (new_path work op i @ x)" for x
        using apart_below[OF ap(2)] apart_below[OF old_new_paths(3)[of work op i i]] apart_below[OF ps(3)[of "[''new-'' @ itoa_nat i]", folded new_path_def]] by blast+
      then have "moved_out work op fs i (wd_fs w')" using l w(2) r by (simp add: moved_out_def tree_at_def no_tree_def)
      then show ?case using goes_only[OF p m i o, of] 6(3,4) 2 by simp
    next
      case (7 w')
      have n: "look (wd_fs w) ?t = None" using 7(1) 2(2) by simp
      have "moved_out work op fs i (wd_fs w)"
      proof (cases "waiting work op fs i (wd_fs w)")
        case True
        then have "tree_at (wd_fs w) ?t = no_tree" using n ot by (metis look_tree waiting_def)
        then show ?thesis using True r by (simp add: waiting_def moved_out_def)
      qed (use T in simp)
      then show ?case using goes_same[OF m] 7 2 by simp
    next
      case (8 w')
      then show ?case using goes_same[OF m, of w'] 2 by auto
    qed (use ps(7) in \<open>simp_all add: old_path_def\<close>)
  next
    case (3 w')
    then show ?case using goes_same[OF m 3(1,2)] by simp
  qed
qed

lemma put_in_place_leads:
  assumes p: "prepared work op fs" and i: "i < length (ao_targets op)" and m: "midway work op fs (wd_fs w)"
    and t: "moved_out work op fs i (wd_fs w)" and r: "\<not> removes op i"
  shows "leads (put_in_place (new_path work op i) (target_path work op i) w)
    (\<lambda>_ w'. goes work op fs i w w' \<and> (works w \<longrightarrow> works w') \<and> finished work op fs i (wd_fs w')) (\<lambda>_ w'. goes work op fs i w w' \<and> \<not> works w)"
proof -
  let ?t = "target_path work op i" and ?n = "new_path work op i"
  note ps = operation_paths[OF p i]
  have ap: "apart ?t ?n" "apart ?n ?t" using ps(3,4) by (simp_all add: new_path_def)
  show ?thesis unfolding put_in_place_def
  proof (rule leads_call, rule leads_mono[OF make_parent_leads[OF p i m]], goal_cases)
    case (1 u w1)
    then have g: "goes work op fs i w w1" and t1: "moved_out work op fs i (wd_fs w1)" and m1: "midway work op fs (wd_fs w1)"
      using t by (simp_all add: goes_def)
    show ?case
    proof (rule leads_call, rule rename_leads, goal_cases)
      case 3 show ?case by (rule ap)
    next
      case 4 show ?case using 1 by simp
    next
      case 5 show ?case using t1 by (simp add: moved_out_def look_tree no_tree_def)
    next
      case (6 w')
      have o: "only_target work op i (wd_fs w1) (wd_fs w')" using 6(2) unfolding only_target_def by auto
      have "\<not> prefix ?t (?n @ x)" for x using apart_below[OF ap(1)] by blast
      then have "finished work op fs i (wd_fs w')" using 6(2) t1 r
        by (simp add: finished_def final_tree_def moved_out_def tree_at_def no_tree_def)
      then show ?case using goes_trans[OF g goes_only[OF p m1 i o]] 6(3,4) 1 by auto
    next
      case (7 w')
      then show ?case using t1 r by (simp add: moved_out_def look_tree)
    next
      case (8 w')
      then show ?case using goes_trans[OF g goes_same[OF m1, of w']] 1 by auto
    qed (use ps(7) in \<open>simp_all add: new_path_def\<close>)
  qed simp
qed

lemma exchange_leads:
  assumes p: "prepared work op fs" and i: "i < length (ao_targets op)" and m: "midway work op fs (wd_fs w)"
    and d: "look (wd_fs w) (operation_dir work (ao_job op)) = Some DirE" "look (wd_fs w) (butlast (target_path work op i)) = Some DirE"
    and r: "removes op i \<or> look fs (new_path work op i) \<noteq> None"
    and T: "waiting work op fs i (wd_fs w) \<or> moved_out work op fs i (wd_fs w)"
  shows "leads (exchange work op i (target_path work op i) w)
    (\<lambda>_ w'. goes work op fs i w w' \<and> (works w \<longrightarrow> works w') \<and> finished work op fs i (wd_fs w')) (\<lambda>_ w'. goes work op fs i w w' \<and> \<not> works w)"
  unfolding exchange_def
proof (rule leads_call, rule leads_mono[OF move_aside_leads[OF p i m d(1) r T]], goal_cases)
  case (1 u w1)
  then have g1: "goes work op fs i w w1" and m1: "midway work op fs (wd_fs w1)" by (simp_all add: goes_def)
  have placed: "leads (if removes op i then (Inr (), w1) else put_in_place (new_path work op i) (target_path work op i) w1)
      (\<lambda>_ w'. goes work op fs i w1 w' \<and> (works w1 \<longrightarrow> works w') \<and> finished work op fs i (wd_fs w')) (\<lambda>_ w'. goes work op fs i w1 w' \<and> \<not> works w1)"
  proof (cases "removes op i")
    case True
    then show ?thesis using 1 goes_same[OF m1, of w1] by (simp add: moved_out_def finished_def final_tree_def)
  qed (use put_in_place_leads[OF p i m1] 1 in auto)
  show ?case
  proof (rule leads_step, rule leads_mono[OF placed], goal_cases)
    case (1 u' w2)
    then have g2: "goes work op fs i w w2" using goes_trans[OF g1] by blast
    then have m2: "midway work op fs (wd_fs w2)" and d2: "look (wd_fs w2) (operation_dir work (ao_job op)) = Some DirE"
        "look (wd_fs w2) (butlast (target_path work op i)) = Some DirE"
      using d by (simp_all add: goes_def)
    have same: "goes work op fs i w w'" if "wd_fs w' = wd_fs w2" "wd_db w' = wd_db w2" for w'
      using goes_trans[OF g2 goes_same[OF m2 that]] .
    show ?case
      by (rule leads_call, rule sync_path_leads, simp add: d2, rule leads_call, rule sync_path_leads, simp add: d2)
        (use same 1 \<open>goes work op fs i w w1 \<and> (works w \<longrightarrow> works w1) \<and> moved_out work op fs i (wd_fs w1)\<close> in auto)
  next
    case (2 e w')
    then show ?case using goes_trans[OF g1] \<open>goes work op fs i w w1 \<and> (works w \<longrightarrow> works w1) \<and> moved_out work op fs i (wd_fs w1)\<close> by auto
  qed
qed simp

lemma finish_target_leads:
  assumes p: "prepared work op fs" and i: "i < length (ao_targets op)" and m: "midway work op fs (wd_fs w)"
    and d: "look (wd_fs w) (operation_dir work (ao_job op)) = Some DirE"
  shows "leads (finish_target work op i (ao_targets op ! i) w)
    (\<lambda>_ w'. goes work op fs i w w' \<and> (works w \<longrightarrow> works w') \<and> finished work op fs i (wd_fs w')) (\<lambda>_ w'. goes work op fs i w w' \<and> \<not> works w)"
proof -
  let ?t = "target_path work op i" and ?n = "new_path work op i" and ?d = "operation_dir work (ao_job op)"
  note ps = operation_paths[OF p i]
  have own: "may_target op (ao_targets op ! i)" and act: "ao_action op \<in> {''promote'', ''video'', ''remove''}" using p i by (simp_all add: prepared_def)
  have T: "waiting work op fs i (wd_fs w) \<or> moved_out work op fs i (wd_fs w) \<or> finished work op fs i (wd_fs w)" using m i by (simp add: midway_def)
  have cl: "tree_at fs x r \<notin> {Some LinkE, Some OtherE}" if "x \<in> {?t, ?n}" for x r
  proof -
    from that consider (1) "x = ?t" | (2) "x = ?n" by blast
    then have "prefix ?d (x @ r) \<or> (\<exists>i<length (ao_targets op). prefix (target_path work op i) (x @ r))"
    proof cases
      case 1
      then show ?thesis using i by (intro disjI2 exI[of _ i]) simp
    qed (simp add: new_path_def)
    moreover have "\<forall>q. prefix ?d q \<or> (\<exists>i<length (ao_targets op). prefix (target_path work op i) q) \<longrightarrow> look fs q \<notin> {Some LinkE, Some OtherE}"
      using p unfolding prepared_def by (elim conjE) assumption
    ultimately show ?thesis unfolding tree_at_def by blast
  qed
  have tr: "tree_at (wd_fs w) ?t \<in> {tree_at fs ?t, no_tree, tree_at fs ?n}" using T
    by (auto simp: waiting_def moved_out_def finished_def final_tree_def split: if_splits)
  have clean: "look (wd_fs w) q \<notin> {Some LinkE, Some OtherE}" if q: "prefix ?t q" for q
  proof -
    from q obtain r where "q = ?t @ r" by (auto simp: prefix_def)
    then have l: "look (wd_fs w) q = tree_at (wd_fs w) ?t r" by (simp add: tree_at_def)
    show ?thesis using tr cl[of ?t r] cl[of ?n r] unfolding l by (auto simp: no_tree_def)
  qed
  have opened: "look (wd_fs w) q \<in> {None, Some DirE}" if "strict_prefix q ?t" for q using m i that unfolding midway_def by blast
  have parent: "leads (if replaces op then mkdir_all (butlast ?t) w1 else (Inr (), w1))
      (\<lambda>_ w'. goes work op fs i w1 w' \<and> (works w1 \<longrightarrow> works w') \<and> look (wd_fs w') (butlast ?t) = Some DirE)
      (\<lambda>_ w'. goes work op fs i w1 w' \<and> \<not> works w1)" if m1: "midway work op fs (wd_fs w1)" for w1 :: "'a world"
  proof (cases "replaces op")
    case True
    then show ?thesis using leads_mono[OF make_parent_leads[OF p i m1]] by simp
  next
    case False
    then have "ao_action op = ''remove''" using act by (simp add: replaces_def)
    then show ?thesis using False m1 i goes_same[OF m1, of w1] by (simp add: midway_def)
  qed
  show ?thesis unfolding finish_target_def Let_def target_path_def[symmetric] if_not_P[OF own[THEN iffD2[OF not_not]]]
  proof (rule leads_call, rule validate_leads[OF ps(5) opened clean], goal_cases)
    case (3 w1)
    then have m1: "midway work op fs (wd_fs w1)" using m by simp
    show ?case
    proof (rule leads_call, rule leads_mono[OF parent[OF m1]], goal_cases)
      case (1 u w2)
      then have g2: "goes work op fs i w w2" using goes_trans[OF goes_same[OF m 3(1,2)]] by blast
      have w2: "works w \<Longrightarrow> works w2" using 1 3(3) by blast
      have m2: "midway work op fs (wd_fs w2)" and d2: "look (wd_fs w2) ?d = Some DirE" "look (wd_fs w2) (butlast ?t) = Some DirE"
        using g2 d 1 by (simp_all add: goes_def)
      have T2: "waiting work op fs i (wd_fs w2) \<or> moved_out work op fs i (wd_fs w2) \<or> finished work op fs i (wd_fs w2)"
        using m2 i by (simp add: midway_def)
      have ex: "leads (exchange work op i ?t w3) (\<lambda>_ w'. goes work op fs i w w' \<and> (works w \<longrightarrow> works w') \<and> finished work op fs i (wd_fs w'))
          (\<lambda>_ w'. goes work op fs i w w' \<and> \<not> works w)"
        if e: "wd_fs w3 = wd_fs w2" "wd_db w3 = wd_db w2" "works w2 \<Longrightarrow> works w3" and r: "removes op i \<or> look (wd_fs w2) ?n \<noteq> None" for w3
      proof -
        have T3: "waiting work op fs i (wd_fs w3) \<or> moved_out work op fs i (wd_fs w3)"
          using T2 r e(1) by (auto simp: finished_def moved_out_def final_tree_def look_tree no_tree_def)
        then have r3: "removes op i \<or> look fs ?n \<noteq> None" using r e(1) by (auto simp: waiting_def moved_out_def look_tree)
        have "goes work op fs i w w3" using goes_trans[OF g2 goes_same[OF m2 e(1,2)]] .
        moreover have "midway work op fs (wd_fs w3)" "look (wd_fs w3) ?d = Some DirE" "look (wd_fs w3) (butlast ?t) = Some DirE"
          using m2 d2 e(1) by simp_all
        ultimately show ?thesis using exchange_leads[OF p i _ _ _ r3 T3] goes_trans w2 e(3) by (auto elim!: leads_mono)
      qed
      show ?case
      proof (cases "removes op i")
        case True
        then show ?thesis using ex[of w2] by simp
      next
        case False
        then have rep: "replaces op" using act by (auto simp: removes_def replaces_def)
        show ?thesis unfolding if_not_P[OF False] if_not_P[OF rep[THEN iffD2[OF not_not]]]
        proof (rule leads_case, rule stat_leads, goal_cases)
          case (1 e w3)
          then show ?case using ex[of w3] by simp
        next
          case (2 w3)
          have "finished work op fs i (wd_fs w2)"
          proof (cases "waiting work op fs i (wd_fs w2)")
            case True
            then have "look fs ?n = None" using 2(1) by (simp add: waiting_def look_tree)
            moreover from this have "tree_at fs ?n = no_tree" using p i by (simp add: prepared_def)
            ultimately show ?thesis using True False by (simp add: waiting_def finished_def final_tree_def)
          next
            case w: False
            show ?thesis
            proof (cases "moved_out work op fs i (wd_fs w2)")
              case True
              then show ?thesis using 2(1) False by (simp add: moved_out_def look_tree)
            qed (use w T2 in blast)
          qed
          then show ?case using goes_trans[OF g2 goes_same[OF m2 2(2,3)]] w2 2(2,4) by simp
        next
          case (3 w3)
          then show ?case using goes_trans[OF g2 goes_same[OF m2 3(1,2)]] w2 by auto
        qed
      qed
    next
      case (2 e w2)
      then show ?case using goes_trans[OF goes_same[OF m 3(1,2)]] 3(3) by auto
    qed
  next
    case (4 w1)
    then show ?case using goes_same[OF m 4(1,2)] by simp
  qed auto
qed

subsection \<open>The whole operation\<close>

text \<open>All targets, from the one at \<open>i\<close> on.\<close>

definition all_finished :: "path \<Rightarrow> artifact_operation \<Rightarrow> file_tree \<Rightarrow> nat \<Rightarrow> file_tree \<Rightarrow> bool" where
  "all_finished work op fs n f \<longleftrightarrow> (\<forall>j<n. finished work op fs j f)"

definition directory_kept :: "path \<Rightarrow> artifact_operation \<Rightarrow> 'd world \<Rightarrow> 'd world \<Rightarrow> bool" where
  "directory_kept work op w w' \<longleftrightarrow> (\<forall>q. prefix q (operation_dir work (ao_job op)) \<longrightarrow> look (wd_fs w) q = Some DirE \<longrightarrow> look (wd_fs w') q = Some DirE)"

lemma finish_targets_leads:
  assumes p: "prepared work op fs" and "midway work op fs (wd_fs w)" and "look (wd_fs w) (operation_dir work (ao_job op)) = Some DirE"
    and "all_finished work op fs i (wd_fs w)" and "rels = drop i (ao_targets op)" and "i \<le> length (ao_targets op)"
  shows "leads (finish_targets work op i rels w)
    (\<lambda>_ w'. midway work op fs (wd_fs w') \<and> wd_db w' = wd_db w \<and> directory_kept work op w w' \<and> (works w \<longrightarrow> works w') \<and>
      all_finished work op fs (length (ao_targets op)) (wd_fs w'))
    (\<lambda>_ w'. midway work op fs (wd_fs w') \<and> wd_db w' = wd_db w \<and> \<not> works w)"
  using assms(2-)
proof (induction rels arbitrary: i w)
  case Nil
  then show ?case by (simp add: directory_kept_def)
next
  case (Cons rel rels)
  then have i: "i < length (ao_targets op)" and rel: "rel = ao_targets op ! i" and rels: "rels = drop (Suc i) (ao_targets op)"
    by (auto simp: drop_eq_Nil2 Cons_nth_drop_Suc[symmetric] not_le[symmetric]) (metis Cons_nth_drop_Suc drop_eq_Nil2 linorder_not_le list.discI list.inject)+
  show ?case unfolding finish_targets.simps rel
  proof (rule leads_step, rule leads_mono[OF finish_target_leads[OF p i Cons.prems(1,2)]], goal_cases)
    case (1 u w1)
    then have g: "goes work op fs i w w1" by blast
    have "midway work op fs (wd_fs w1)" "look (wd_fs w1) (operation_dir work (ao_job op)) = Some DirE" "directory_kept work op w w1" "wd_db w1 = wd_db w"
      using g Cons.prems(2) by (simp_all add: goes_def directory_kept_def)
    moreover have "all_finished work op fs (Suc i) (wd_fs w1)"
      using 1 Cons.prems(3) i by (auto simp: all_finished_def goes_def less_Suc_eq)
    ultimately show ?case using Cons.IH[of w1 "Suc i"] rels i 1
      by (auto elim!: leads_mono simp: directory_kept_def)
  next
    case (2 e w1)
    then show ?case by (simp add: goes_def)
  qed
qed

lemma outcome_again: "db_outcome work op (db_outcome work op db) = db_outcome work op db"
proof -
  have a: "set_availability job f (set_availability job f db) = set_availability job f db" if "\<And>row. f (f row) = f row" for job f db
    using that by (simp add: set_availability_def availability_row_def update_conv')
  have b: "set_job_artifacts job m x y (set_availability job f db) = set_availability job f (set_job_artifacts job m x y db)" for job m x y f db
    by (simp add: set_availability_def set_job_artifacts_def availability_row_def)
  have c: "set_job_artifacts job m x y (set_job_artifacts job m x y db) = set_job_artifacts job m x y db" for job m x y db
    by (simp add: set_job_artifacts_def comp_def case_prod_beta')
  show ?thesis by (auto simp: db_outcome_def Let_def a b c)
qed

definition closed_db :: "path \<Rightarrow> artifact_operation \<Rightarrow> journal_db \<Rightarrow> journal_db" where
  "closed_db work op db = (db_outcome work op db)\<lparr>jd_operations := AList.delete (ao_job op) (jd_operations db)\<rparr>"

definition applied :: "path \<Rightarrow> artifact_operation \<Rightarrow> file_tree \<Rightarrow> file_tree \<Rightarrow> bool" where
  "applied work op fs f \<longleftrightarrow>
     (\<forall>i<length (ao_targets op). tree_at f (target_path work op i) = final_tree work op fs i) \<and>
     tree_at f (operation_dir work (ao_job op)) = no_tree \<and>
     (\<forall>p. apart p (operation_dir work (ao_job op)) \<longrightarrow> (\<forall>i<length (ao_targets op). apart p (target_path work op i)) \<longrightarrow> tree_at f p = tree_at fs p) \<and>
     (\<forall>q. (\<exists>i<length (ao_targets op). strict_prefix q (target_path work op i)) \<longrightarrow> look fs q = Some DirE \<longrightarrow> look f q = Some DirE)"

text \<open>Directories made on the way to the operation's directory, and entries removed from it.\<close>

lemma directory_made:
  assumes p: "prepared work op fs" and m: "midway work op fs f"
    and l: "\<And>q. look g q = look f q \<or> look f q = None \<and> look g q = Some DirE \<and> prefix q (operation_dir work (ao_job op))"
  shows "midway work op fs g"
proof -
  let ?d = "operation_dir work (ao_job op)" and ?t = "target_path work op"
  have same: "tree_at g x = tree_at f x" if "\<And>r. \<not> prefix (x @ r) ?d" for x using l that by (auto simp: tree_at_def)
  have "tree_at g (?t i) = tree_at f (?t i)" if "i < length (ao_targets op)" for i
    using apart_below[OF operation_paths(2)[OF p that]] by (intro same) blast
  moreover have "tree_at g (old_path work op i) = tree_at f (old_path work op i)" "tree_at g (new_path work op i) = tree_at f (new_path work op i)" for i
    by (auto intro!: same simp: old_path_def new_path_def dest: prefix_length_le)
  moreover have "tree_at g x = tree_at f x" if "apart x ?d" for x using apart_below[OF apart_sym[OF that]] by (intro same) blast
  ultimately show ?thesis using m l unfolding midway_def waiting_def moved_out_def finished_def
    by (auto split: if_splits) (metis file_entry.distinct(7,9) option.inject option.distinct(1))+
qed

lemma directory_cut:
  assumes p: "prepared work op fs" and m: "midway work op fs f" and a: "all_finished work op fs (length (ao_targets op)) f"
    and l: "\<And>q. look g q = look f q \<or> look g q = None \<and> prefix (operation_dir work (ao_job op)) q"
  shows "midway work op fs g" and "all_finished work op fs (length (ao_targets op)) g"
proof -
  let ?d = "operation_dir work (ao_job op)" and ?t = "target_path work op"
  have same: "tree_at g x = tree_at f x" if "apart ?d x" for x using l apart_below[OF that] by (auto simp: tree_at_def)
  have t: "tree_at g (?t i) = tree_at f (?t i)" if "i < length (ao_targets op)" for i
    using operation_paths(2)[OF p that] by (rule same)
  have n: "tree_at g x = no_tree" if "tree_at f x = no_tree" for x
  proof
    fix r show "tree_at g x r = no_tree r" using l[of "x @ r"] fun_cong[OF that, of r] by (auto simp: tree_at_def no_tree_def)
  qed
  show fin: "all_finished work op fs (length (ao_targets op)) g" using a t n by (auto simp: all_finished_def finished_def)
  have "look g q = look f q" if "strict_prefix q ?d \<or> (\<exists>i<length (ao_targets op). prefix q (?t i))" for q
  proof -
    have "\<not> prefix ?d q" using that operation_paths(2)[OF p] by (meson apart_def prefix_order.le_less_trans prefix_order.less_irrefl prefix_order.trans)
    then show ?thesis using l by blast
  qed
  note up = this
  show "midway work op fs g" unfolding midway_def
  proof (intro conjI allI impI)
    fix i assume "i < length (ao_targets op)"
    then show "waiting work op fs i g \<or> moved_out work op fs i g \<or> finished work op fs i g" using fin by (simp add: all_finished_def)
  next
    fix q assume "prefix ?d q"
    then show "look g q \<notin> {Some LinkE, Some OtherE}" using l[of q] m by (auto simp: midway_def)
  next
    fix q assume "prefix q ?d \<or> (\<exists>i<length (ao_targets op). strict_prefix q (?t i))"
    then show "look g q \<in> {None, Some DirE}" using l[of q] m unfolding midway_def by (metis insertCI)
  next
    fix i assume i: "i < length (ao_targets op)" "ao_action op = ''remove''"
    have "look g (butlast (?t i)) = look f (butlast (?t i))" by (rule up) (use i operation_paths(10)[OF p i(1)] in \<open>auto dest: prefix_order.less_imp_le\<close>)
    then show "look g (butlast (?t i)) = Some DirE" using i m by (simp add: midway_def)
  next
    fix x assume "apart x ?d" "\<forall>i<length (ao_targets op). apart x (?t i)"
    then show "tree_at g x = tree_at fs x" using same[OF apart_sym] m by (simp add: midway_def)
  next
    fix q assume q: "\<exists>i<length (ao_targets op). strict_prefix q (?t i)" "look fs q = Some DirE"
    have "look g q = look f q" by (rule up) (use q(1) in \<open>auto dest: prefix_order.less_imp_le\<close>)
    then show "look g q = Some DirE" using q m unfolding midway_def by metis
  qed
qed

lemma outcome_operations [simp]: "jd_operations (db_outcome work op db) = jd_operations db"
  by (simp add: db_outcome_def Let_def set_availability_def set_job_artifacts_def)

lemma record_outcome_leads:
  assumes p: "prepared work op fs" and m: "midway work op fs (wd_fs w)" and db: "wd_db w = db \<or> wd_db w = db_outcome work op db"
  shows "leads (record_outcome work op w)
    (\<lambda>_ w'. wd_fs w' = wd_fs w \<and> wd_db w' = db_outcome work op db \<and> (works w \<longrightarrow> works w'))
    (\<lambda>_ w'. wd_fs w' = wd_fs w \<and> wd_db w' = wd_db w \<and> \<not> works w)"
proof (cases "ao_action op \<in> {''promote'', ''video''} \<or> ao_action op = ''remove'' \<and> ao_kind op \<in> {''recordings'', ''audio'', ''current''}")
  case True
  have o: "db_outcome work op (wd_db w) = db_outcome work op db" using db outcome_again by metis
  have n: "\<not> (ao_action op = ''promote'' \<and> length (ao_targets op) < 2)" using p unfolding prepared_def by linarith
  show ?thesis unfolding record_outcome_def if_not_P[OF n] if_P[OF True]
    by (rule leads_call, rule db_call_leads) (simp_all add: o)
next
  case False
  then have "db_outcome work op d = d" for d using p by (auto simp: db_outcome_def Let_def prepared_def)
  then show ?thesis using False db p by (auto simp: record_outcome_def)
qed

lemma finish_operation_leads:
  assumes p: "prepared work op fs" and m: "midway work op fs (wd_fs w)" and db: "wd_db w = db \<or> wd_db w = db_outcome work op db"
  shows "leads (finish_operation work op w)
    (\<lambda>_ w'. applied work op fs (wd_fs w') \<and> wd_db w' = closed_db work op db \<and> (works w \<longrightarrow> works w'))
    (\<lambda>_ w'. midway work op fs (wd_fs w') \<and> (wd_db w' = db \<or> wd_db w' = db_outcome work op db) \<and> \<not> works w)"
proof -
  let ?d = "operation_dir work (ao_job op)"
  have valid: "\<not> \<not> valid_artifact_job (ao_job op)" using p by (simp add: prepared_def)
  have sd: "strict_prefix work ?d" "?d \<noteq> []" by (simp_all add: operation_dir_def strict_prefix_def)
  have opened: "look (wd_fs w) q \<in> {None, Some DirE}" if "prefix q ?d" for q using m that unfolding midway_def by blast
  have clean: "look (wd_fs w) q \<notin> {Some LinkE, Some OtherE}" if "prefix ?d q" for q using m that unfolding midway_def by blast
  show ?thesis unfolding finish_operation_def Let_def if_not_P[OF valid]
  proof (rule leads_call, rule validate_leads, goal_cases)
    case (4 w1)
    show ?case
    proof (rule leads_call, rule mkdir_all_leads, goal_cases)
      case (1 q)
      then show ?case using opened 4(1) by simp
    next
      case (2 w2)
      have m2: "midway work op fs (wd_fs w2)" by (rule directory_made[OF p m]) (use 2(1) 4(1) in auto)
      have dirs: "look (wd_fs w2) q = Some DirE" if "prefix q ?d" for q using 2(1)[of q] opened[OF that] 4(1) that by auto
      have db2: "wd_db w2 = wd_db w" and w2: "works w \<Longrightarrow> works w2" using 2 4 by simp_all
      show ?case
      proof (rule leads_step, rule leads_mono[OF finish_targets_leads[OF p m2 dirs[OF prefix_order.refl]]], goal_cases)
        case (4 u w3)
        have d3: "look (wd_fs w3) q = Some DirE" if "prefix q ?d" for q using 4 dirs[OF that] that by (simp add: directory_kept_def)
        show ?case
        proof (rule leads_step, rule leads_mono[OF record_outcome_leads[OF p, of w3 db]], goal_cases)
          case 1 show ?case using 4 by blast
        next
          case 2 show ?case using 4 db db2 by simp
        next
          case (3 u' w4)
          have m4: "midway work op fs (wd_fs w4)" "all_finished work op fs (length (ao_targets op)) (wd_fs w4)" using 3 4 by simp_all
          have w4: "works w \<Longrightarrow> works w4" using 3 4 w2 by blast
          show ?case
          proof (rule leads_call, rule remove_all_leads, goal_cases)
            case 1 show ?case by (rule sd)
          next
            case (2 w5)
            note c = directory_cut[OF p m4, of "wd_fs w5"]
            have l: "look (wd_fs w5) q = look (wd_fs w4) q \<or> look (wd_fs w5) q = None \<and> prefix ?d q" for q using 2(1) by simp
            have gone: "tree_at (wd_fs w5) ?d = no_tree" using 2(1) by (auto simp: tree_at_def no_tree_def)
            have ap: "applied work op fs (wd_fs w5)" using c[OF l] gone by (simp add: applied_def midway_def all_finished_def finished_def)
            have bd: "strict_prefix (butlast ?d) ?d" by (auto simp: operation_dir_def butlast_append strict_prefix_def)
            then have "\<not> prefix ?d (butlast ?d)" by auto
            then have b5: "look (wd_fs w5) (butlast ?d) \<noteq> None" using 2(1) d3[of "butlast ?d"] 3 bd by (auto dest: prefix_order.less_imp_le)
            have last_steps: "leads (do_call (db_call (\<lambda>db. ((), db\<lparr>jd_operations := AList.delete (ao_job op) (jd_operations db)\<rparr>)) w6) (\<lambda>_ w. (Inr (), w)))
                (\<lambda>_ w'. applied work op fs (wd_fs w') \<and> wd_db w' = closed_db work op db \<and> (works w \<longrightarrow> works w'))
                (\<lambda>_ w'. midway work op fs (wd_fs w') \<and> (wd_db w' = db \<or> wd_db w' = db_outcome work op db) \<and> \<not> works w)"
              if e: "wd_fs w6 = wd_fs w5" "wd_db w6 = wd_db w5" "works w \<Longrightarrow> works w6" for w6
              by (rule leads_call, rule db_call_leads) (use e ap c[OF l] 2(2) 3 in \<open>auto simp: closed_db_def\<close>)
            show ?case
            proof (cases "ao_kind op = ''media-disposal''")
              case True
              show ?thesis unfolding if_P[OF True]
                by (rule leads_call, rule sync_path_leads, rule b5, rule last_steps) (use c[OF l] 2 3 w4 in auto)
            next
              case False
              show ?thesis unfolding if_not_P[OF False] by (rule leads_call) (use last_steps[of w5] 2(3) w4 in simp)
            qed
          next
            case (3 w5)
            then show ?case using directory_cut(1)[OF p m4, of "wd_fs w5"] \<open>wd_fs w4 = wd_fs w3 \<and> wd_db w4 = db_outcome work op db \<and> (works w3 \<longrightarrow> works w4)\<close> w4 by auto
          qed
        next
          case (4 e w4)
          then show ?case using \<open>midway work op fs (wd_fs w3) \<and> wd_db w3 = wd_db w2 \<and> _\<close> db db2 w2 by auto
        qed
      qed (use db db2 w2 in \<open>auto simp: all_finished_def\<close>)
    next
      case (3 w2)
      have "midway work op fs (wd_fs w2)" by (rule directory_made[OF p m]) (use 3(1) 4(1) in auto)
      then show ?case using 3 4 db by auto
    qed
  next
    case (5 w1)
    then show ?case using m db by simp
  qed (use sd opened clean in \<open>auto dest: prefix_order.less_imp_le\<close>)
qed

text \<open>Starts with any fates of their calls.\<close>

fun interrupted_starts :: "path \<Rightarrow> call_fate list list \<Rightarrow> journal_db world \<Rightarrow> journal_db world" where
  "interrupted_starts work [] w = w"
| "interrupted_starts work (plan # plans) w =
     interrupted_starts work plans (recover_artifact_operations work (w\<lparr>wd_plan := plan, wd_dead := False\<rparr>))"

definition journal_state :: "path \<Rightarrow> artifact_operation \<Rightarrow> file_tree \<Rightarrow> journal_db \<Rightarrow> journal_db world \<Rightarrow> bool" where
  "journal_state work op fs db w \<longleftrightarrow>
     midway work op fs (wd_fs w) \<and> (wd_db w = db \<or> wd_db w = db_outcome work op db) \<or> applied work op fs (wd_fs w) \<and> wd_db w = closed_db work op db"

lemma recover_state:
  assumes p: "prepared work op fs" and j: "jd_operations db = [(ao_job op, op)]" and s: "journal_state work op fs db w"
  shows "journal_state work op fs db (recover_artifact_operations work w)"
    and "works w \<Longrightarrow> applied work op fs (wd_fs (recover_artifact_operations work w)) \<and> wd_db (recover_artifact_operations work w) = closed_db work op db"
proof -
  have "leads (db_call (\<lambda>db. (map snd (jd_operations db), db)) w)
      (\<lambda>ops w'. ops = map snd (jd_operations (wd_db w)) \<and> wd_fs w' = wd_fs w \<and> wd_db w' = wd_db w \<and> (works w \<longrightarrow> works w'))
      (\<lambda>_ w'. wd_fs w' = wd_fs w \<and> wd_db w' = wd_db w \<and> \<not> works w)"
    by (rule db_call_leads) simp_all
  then obtain r w1 where r: "db_call (\<lambda>db. (map snd (jd_operations db), db)) w = (r, w1)" "wd_fs w1 = wd_fs w" "wd_db w1 = wd_db w"
      "r = Inr (map snd (jd_operations (wd_db w))) \<and> (works w \<longrightarrow> works w1) \<or> (\<exists>e. r = Inl e) \<and> \<not> works w"
    by (cases "db_call (\<lambda>db. (map snd (jd_operations db), db)) w"; cases "fst (db_call (\<lambda>db. (map snd (jd_operations db), db)) w)") (auto simp: leads_def)
  have s1: "journal_state work op fs db w1" using s r(2,3) by (simp add: journal_state_def)
  have closed: "jd_operations (closed_db work op db) = []" using j by (simp add: closed_db_def)
  have "journal_state work op fs db (recover_artifact_operations work w) \<and> (works w \<longrightarrow>
      applied work op fs (wd_fs (recover_artifact_operations work w)) \<and> wd_db (recover_artifact_operations work w) = closed_db work op db)"
  proof (cases r)
    case (Inl e)
    then show ?thesis using r s1 by (simp add: recover_artifact_operations_def)
  next
    case (Inr ops)
    consider (open') "midway work op fs (wd_fs w)" "wd_db w = db \<or> wd_db w = db_outcome work op db"
      | (closed) "applied work op fs (wd_fs w)" "wd_db w = closed_db work op db" using s by (auto simp: journal_state_def)
    then show ?thesis
    proof cases
      case open'
      then have "ops = [op]" using Inr r(4) j by auto
      then have f: "recover_artifact_operations work w = snd (finish_operation work op w1)" using r(1) Inr by (simp add: recover_artifact_operations_def)
      have "leads (finish_operation work op w1)
          (\<lambda>_ w'. applied work op fs (wd_fs w') \<and> wd_db w' = closed_db work op db \<and> (works w1 \<longrightarrow> works w'))
          (\<lambda>_ w'. midway work op fs (wd_fs w') \<and> (wd_db w' = db \<or> wd_db w' = db_outcome work op db) \<and> \<not> works w1)"
        by (rule finish_operation_leads[OF p]) (use open' r(2,3) in simp_all)
      then show ?thesis unfolding f using r(4) Inr
        by (cases "finish_operation work op w1"; cases "fst (finish_operation work op w1)") (auto simp: leads_def journal_state_def)
    next
      case closed
      then have "ops = []" using Inr r(4) \<open>jd_operations (closed_db work op db) = []\<close> by auto
      then show ?thesis using r Inr closed s1 by (simp add: recover_artifact_operations_def)
    qed
  qed
  then show "journal_state work op fs db (recover_artifact_operations work w)"
    "works w \<Longrightarrow> applied work op fs (wd_fs (recover_artifact_operations work w)) \<and> wd_db (recover_artifact_operations work w) = closed_db work op db"
    by blast+
qed

lemma prepared_midway: "prepared work op fs \<Longrightarrow> midway work op fs fs"
  unfolding midway_def prepared_def waiting_def by (intro conjI allI impI) (blast | simp)+

lemma starts_state:
  assumes "prepared work op fs" and "jd_operations db = [(ao_job op, op)]" and "journal_state work op fs db w"
  shows "journal_state work op fs db (interrupted_starts work plans w)"
  using assms(3)
proof (induction plans arbitrary: w)
  case (Cons plan plans)
  have "journal_state work op fs db (w\<lparr>wd_plan := plan, wd_dead := False\<rparr>)" using Cons.prems by (simp add: journal_state_def)
  then show ?case using recover_state(1)[OF assms(1,2)] Cons.IH by simp
qed simp

text \<open>
  C9: A journalled operation is carried out whole: after any number of starts of which each may fail or die in any
  call, one start whose calls work leaves at every target what the operation promises (the prepared tree, or nothing),
  everything else untouched, no operation directory, and a database that records the outcome once and no longer
  holds the operation.
\<close>

theorem operation_completes:
  assumes "prepared work op (wd_fs w)" and "jd_operations (wd_db w) = [(ao_job op, op)]"
    and "w' = recover_artifact_operations work (restarted (interrupted_starts work plans w))"
  shows "applied work op (wd_fs w) (wd_fs w') \<and> wd_db w' = closed_db work op (wd_db w)"
proof -
  have "journal_state work op (wd_fs w) (wd_db w) w" using prepared_midway[OF assms(1)] by (simp add: journal_state_def)
  then have "journal_state work op (wd_fs w) (wd_db w) (restarted (interrupted_starts work plans w))"
    using starts_state[OF assms(1,2)] by (simp add: journal_state_def restarted_def)
  then show ?thesis unfolding assms(3) by (rule recover_state(2)[OF assms(1,2)]) (simp add: works_def)
qed

subsection \<open>From the request to the end\<close>

text \<open>Every entry has its directory.\<close>

definition closed_tree :: "file_tree \<Rightarrow> bool" where
  "closed_tree fs \<longleftrightarrow> (\<forall>q. q \<noteq> [] \<longrightarrow> look fs q \<noteq> None \<longrightarrow> look fs (butlast q) = Some DirE)"

lemma closed_tree_above:
  assumes "closed_tree fs" "look fs (p @ r) \<noteq> None" "r \<noteq> []"
  shows "look fs p = Some DirE"
  using assms(2,3)
proof (induction r rule: rev_induct)
  case (snoc x xs)
  have "look fs (p @ xs) = Some DirE" using assms(1) snoc.prems(1) unfolding closed_tree_def by (metis append.assoc append_is_Nil_conv butlast_snoc not_Cons_self2)
  then show ?case using snoc.IH by (cases "xs = []") simp_all
qed simp

lemma closed_tree_none: "closed_tree fs \<Longrightarrow> look fs p = None \<Longrightarrow> tree_at fs p = no_tree"
  using closed_tree_above[of fs p] by (fastforce simp: tree_at_def no_tree_def)

text \<open>Before an operation is journalled only its directory, and the way there, has changed.\<close>

definition only_directory :: "path \<Rightarrow> file_tree \<Rightarrow> file_tree \<Rightarrow> bool" where
  "only_directory d fs f \<longleftrightarrow> (\<forall>q. \<not> prefix d q \<longrightarrow> look f q = look fs q \<or> look fs q = None \<and> look f q = Some DirE \<and> strict_prefix q d)"

lemma only_directory_tree: "only_directory d fs f \<Longrightarrow> apart x d \<Longrightarrow> tree_at f x = tree_at fs x"
  using apart_below[of d x] apart_sym[of x d] by (auto simp: only_directory_def tree_at_def) (metis prefix_order.less_imp_le)

lemma validated:
  assumes "\<And>w'. safe_artifact_path work p (wd_fs w) \<Longrightarrow> (\<And>q. prefix p q \<Longrightarrow> look (wd_fs w) q \<notin> {Some LinkE, Some OtherE}) \<Longrightarrow>
      wd_fs w' = wd_fs w \<Longrightarrow> wd_db w' = wd_db w \<Longrightarrow> Q () w'"
    and "\<And>w'. wd_fs w' = wd_fs w \<Longrightarrow> wd_db w' = wd_db w \<Longrightarrow> E CallFailed w'"
  shows "leads (validate_artifact_tree work p w) Q E"
  unfolding validate_artifact_tree_def
proof (rule look_call_leads, goal_cases)
  case (3 a w')
  then have s: "safe_artifact_path work p (wd_fs w)"
      "list_all (\<lambda>(q, _). prefix p q \<longrightarrow> look (wd_fs w) q \<notin> {Some LinkE, Some OtherE}) (wd_fs w)" by (auto split: if_splits)
  have "look (wd_fs w) q \<notin> {Some LinkE, Some OtherE}" if "prefix p q" for q
  proof (cases "q = []")
    case False
    show ?thesis
    proof (cases "look (wd_fs w) q")
      case (Some e)
      then have "(q, e) \<in> set (wd_fs w)" using False by (simp add: look_def map_of_SomeD)
      then show ?thesis using s(2) that by (auto simp: list_all_iff)
    qed simp
  qed (simp add: look_def)
  then have "Q () w'" using assms(1)[OF s(1) _ 3(2,3)] by blast
  then show ?case by simp
next
  case (4 e w')
  then have "e = CallFailed" by (auto split: if_splits)
  then show ?case using assms(2) 4 by simp
qed (simp_all add: untouched_def)

definition valid_at :: "path \<Rightarrow> path \<Rightarrow> file_tree \<Rightarrow> bool" where
  "valid_at work p fs \<longleftrightarrow> safe_artifact_path work p fs \<and> (\<forall>q. prefix p q \<longrightarrow> look fs q \<notin> {Some LinkE, Some OtherE})"

lemma existing_targets_leads:
  "leads (existing_targets work ps w)
    (\<lambda>ts w'. wd_fs w' = wd_fs w \<and> wd_db w' = wd_db w \<and> ts = map (drop (length work)) (filter (\<lambda>p. look (wd_fs w) p \<noteq> None) ps) \<and>
      (\<forall>p\<in>set ps. valid_at work p (wd_fs w)))
    (\<lambda>_ w'. wd_fs w' = wd_fs w \<and> wd_db w' = wd_db w)"
proof (induction ps arbitrary: w)
  case (Cons p ps)
  show ?case unfolding existing_targets.simps
  proof (rule leads_call, rule validated, goal_cases)
    case (1 w1)
    then have v: "valid_at work p (wd_fs w)" by (simp add: valid_at_def)
    show ?case
    proof (rule leads_case, rule stat_leads, goal_cases)
      case (1 e w2)
      show ?case unfolding sum.case
        by (rule leads_step, rule leads_mono[OF Cons.IH]) (use 1 v \<open>wd_fs w1 = wd_fs w\<close> \<open>wd_db w1 = wd_db w\<close> in auto)
    next
      case (2 w2)
      show ?case unfolding sum.case call_err.case
        by (rule leads_mono[OF Cons.IH]) (use 2 v \<open>wd_fs w1 = wd_fs w\<close> \<open>wd_db w1 = wd_db w\<close> in auto)
    next
      case (3 w2)
      then show ?case using \<open>wd_fs w1 = wd_fs w\<close> \<open>wd_db w1 = wd_db w\<close> by simp
    qed
  qed simp
qed simp

lemma fresh_operation_dir_leads:
  assumes "safe_artifact_path work (operation_dir work job) (wd_fs w)" and "look (wd_fs w) work = Some DirE" and "closed_tree (wd_fs w)"
  shows "leads (fresh_operation_dir work job w)
    (\<lambda>_ w'. only_directory (operation_dir work job) (wd_fs w) (wd_fs w') \<and> wd_db w' = wd_db w \<and>
      (\<forall>q. prefix (operation_dir work job) q \<longrightarrow> look (wd_fs w') q = (if q = operation_dir work job then Some DirE else None)) \<and>
      (\<forall>q. prefix q (operation_dir work job) \<longrightarrow> look (wd_fs w') q = Some DirE))
    (\<lambda>_ w'. only_directory (operation_dir work job) (wd_fs w) (wd_fs w') \<and> wd_db w' = wd_db w)"
proof -
  let ?d = "operation_dir work job"
  have dn: "?d \<noteq> []" by (simp add: operation_dir_def)
  have above: "look (wd_fs w) q \<in> {None, Some DirE}" if "strict_prefix q ?d" for q
  proof (cases "strict_prefix q work")
    case True
    then obtain r where "work = q @ r" "r \<noteq> []" by (auto simp: strict_prefix_def prefix_def)
    then show ?thesis using closed_tree_above[OF assms(3), of q r] assms(2) by simp
  next
    case False
    from that obtain k where k: "q = take k ?d" "k < length ?d" by (metis prefix_length_less append_eq_conv_conj prefix_def prefix_order.less_imp_le)
    have "length work \<le> k"
    proof (rule ccontr)
      assume "\<not> length work \<le> k"
      then have "q = take k work" "k < length work" using k(1) by (simp_all add: operation_dir_def)
      then show False using False by (metis append_take_drop_id drop_eq_Nil2 linorder_not_le prefixI strict_prefix_def self_append_conv)
    qed
    then have "k \<in> set [length work..<Suc (length ?d)]" "k \<in> set [0..<length ?d]" using k(2) by (simp_all del: upt_Suc)
    then show ?thesis using assms(1) k(1) unfolding safe_artifact_path_def list_all_iff by (metis insert_iff)
  qed
  have up: "\<not> prefix ?d q" if "strict_prefix q ?d" for q using that by auto
  show ?thesis unfolding fresh_operation_dir_def
  proof (rule leads_call, rule remove_all_leads[OF dn], goal_cases)
    case (1 w1)
    show ?case
    proof (rule leads_call, rule mkdir_all_leads, goal_cases)
      case (1 q)
      then show ?case using above[of q] \<open>\<And>q. look (wd_fs w1) q = _ q\<close> by (cases "q = ?d") (auto simp: strict_prefix_def)
    next
      case (2 w2)
      have l: "look (wd_fs w2) q = (if prefix q ?d \<and> (prefix ?d q \<or> look (wd_fs w) q = None) then Some DirE else if prefix ?d q then None else look (wd_fs w) q)" for q
        using 2(1)[of q] 1(1)[of q] by auto
      have "look (wd_fs w2) q = Some DirE" if "prefix q ?d" for q
        using l[of q] above[of q] that up[of q] by (cases "q = ?d") (auto simp: strict_prefix_def)
      then show ?case using l 2(2) 1(2) by (auto simp: only_directory_def strict_prefix_def)
    next
      case (3 w2)
      have "look (wd_fs w2) q = look (wd_fs w) q \<or> look (wd_fs w) q = None \<and> look (wd_fs w2) q = Some DirE \<and> strict_prefix q ?d"
        if "\<not> prefix ?d q" for q using 3(1)[of q] 1(1)[of q] that by (auto simp: strict_prefix_def)
      then show ?case using 3(2) 1(2) by (simp add: only_directory_def)
    qed
  next
    case (2 w1)
    then show ?case by (auto simp: only_directory_def)
  qed
qed

text \<open>What a removal does to the paths it is asked to remove, and to the rest.\<close>

definition paths_kept :: "path list \<Rightarrow> file_tree \<Rightarrow> file_tree \<Rightarrow> bool" where
  "paths_kept paths fs f \<longleftrightarrow> list_all (\<lambda>p. tree_at f p = tree_at fs p) paths"

definition paths_gone :: "path list \<Rightarrow> file_tree \<Rightarrow> bool" where
  "paths_gone paths f \<longleftrightarrow> list_all (\<lambda>p. tree_at f p = no_tree) paths"

definition rest_kept :: "path list \<Rightarrow> file_tree \<Rightarrow> file_tree \<Rightarrow> bool" where
  "rest_kept paths fs f \<longleftrightarrow> (\<forall>x. list_all (apart x) paths \<longrightarrow> tree_at f x = tree_at fs x)"

definition removable :: "path \<Rightarrow> artifact_operation \<Rightarrow> path list \<Rightarrow> file_tree \<Rightarrow> bool" where
  "removable work op paths fs \<longleftrightarrow> closed_tree fs \<and> look fs work = Some DirE \<and> valid_artifact_job (ao_job op) \<and> ao_action op = ''remove'' \<and>
     list_all (\<lambda>p. prefix work p \<and> may_target op (drop (length work) p)) paths \<and> sorted_wrt apart paths"

lemma may_target_targets [simp]: "may_target (op\<lparr>ao_targets := ts\<rparr>) rel = may_target op rel"
  by (simp add: may_target_def owned_targets_def)

lemma outcome_removal: "ao_action op = ''remove'' \<Longrightarrow> db_outcome work (op\<lparr>ao_targets := ts\<rparr>) db = db_outcome work op db"
  by (simp add: db_outcome_def Let_def)

lemma sorted_wrt_apart: "sorted_wrt apart ps \<Longrightarrow> i < length ps \<Longrightarrow> j < length ps \<Longrightarrow> i \<noteq> j \<Longrightarrow> apart (ps ! i) (ps ! j)"
  by (metis apart_sym linorder_neqE_nat sorted_wrt_nth_less)

lemma sorted_wrt_apart_in: "sorted_wrt apart ps \<Longrightarrow> p \<in> set ps \<Longrightarrow> q \<in> set ps \<Longrightarrow> p \<noteq> q \<Longrightarrow> apart p q"
  by (induction ps) (auto intro: apart_sym)

lemma removal_prepared:
  assumes r: "removable work op paths fs" and v: "\<forall>p\<in>set paths. valid_at work p fs" and o: "only_directory (operation_dir work (ao_job op)) fs f"
    and d: "\<And>q. prefix (operation_dir work (ao_job op)) q \<Longrightarrow> look f q = (if q = operation_dir work (ao_job op) then Some DirE else None)"
    and u: "\<And>q. prefix q (operation_dir work (ao_job op)) \<Longrightarrow> look f q = Some DirE"
  defines "op' \<equiv> op\<lparr>ao_targets := map (drop (length work)) (filter (\<lambda>p. look fs p \<noteq> None) paths)\<rparr>"
  shows "prepared work op' f"
proof -
  let ?d = "operation_dir work (ao_job op)" and ?ps = "filter (\<lambda>p. look fs p \<noteq> None) paths"
  note rr = r[unfolded removable_def]
  have job: "ao_job op' = ao_job op" "ao_action op' = ''remove''" "length (ao_targets op') = length ?ps" using rr by (simp_all add: op'_def)
  have t: "target_path work op' i = ?ps ! i" "?ps ! i \<in> set paths" "look fs (?ps ! i) \<noteq> None" if "i < length ?ps" for i
  proof -
    show m: "?ps ! i \<in> set paths" "look fs (?ps ! i) \<noteq> None" using nth_mem[OF that] by auto
    then have "prefix work (?ps ! i)" using rr by (auto simp: list_all_iff)
    then have "work @ drop (length work) (?ps ! i) = ?ps ! i" by (auto simp: prefix_def)
    then show "target_path work op' i = ?ps ! i" using that by (simp add: target_path_def op'_def)
  qed
  have ap: "apart (?ps ! i) (?ps ! j)" if "i < length ?ps" "j < length ?ps" "i \<noteq> j" for i j
    using sorted_wrt_apart[OF sorted_wrt_filter that] rr by blast
  have dir_apart: "apart (?ps ! i) ?d" if il: "i < length ?ps" for i
  proof -
    obtain a rs where a: "drop (length work) (?ps ! i) = a # rs" "a \<noteq> ''.artifact-operations''"
      by (rule path_names[of op "drop (length work) (?ps ! i)"]) (use rr t(2)[OF il] in \<open>auto simp: list_all_iff\<close>)
    have "?ps ! i = work @ drop (length work) (?ps ! i)" using t(1)[OF il] il by (simp add: target_path_def op'_def)
    then have e: "?ps ! i = work @ a # rs" unfolding a(1) .
    show ?thesis unfolding e using a(2) by (simp add: apart_def operation_dir_def)
  qed
  have same: "look f q = look fs q" if "\<exists>i<length ?ps. prefix (?ps ! i) q" for q
  proof -
    from that obtain i r where "i < length ?ps" "q = ?ps ! i @ r" by (auto simp: prefix_def)
    then show ?thesis using only_directory_tree[OF o dir_apart] by (metis tree_at_def)
  qed
  have up: "look f q = Some DirE" if i: "i < length ?ps" and q: "strict_prefix q (?ps ! i)" for i q
  proof -
    obtain x where x: "?ps ! i = q @ x" "x \<noteq> []" using q by (auto simp: strict_prefix_def prefix_def)
    then have "look fs q = Some DirE" using closed_tree_above[of fs q x] rr t(3)[OF i] by simp
    moreover have "\<not> prefix ?d q" using dir_apart[OF i] q by (meson apart_def prefix_order.less_imp_le prefix_order.trans)
    ultimately show ?thesis using o by (auto simp: only_directory_def)
  qed
  have bl: "strict_prefix (butlast (?ps ! i)) (?ps ! i)" if "i < length ?ps" for i
  proof -
    have "?ps ! i \<noteq> []" using dir_apart[OF that] by (auto simp: apart_def)
    then show ?thesis by (metis append_butlast_last_id prefixI strict_prefix_def not_Cons_self2 self_append_conv)
  qed
  have inside: "tree_at f (?d @ x) = no_tree" if "x \<noteq> []" for x
    using d[of "?d @ x @ r" for r] that by (simp add: tree_at_def no_tree_def)
  show ?thesis unfolding prepared_def job
  proof (intro conjI allI impI)
    fix i assume "i < length ?ps"
    then show "may_target op' (ao_targets op' ! i)" using rr t(2) by (auto simp: op'_def list_all_iff)
  next
    fix i j assume "i < length ?ps" "j < length ?ps" "i \<noteq> j"
    then show "apart (target_path work op' i) (target_path work op' j)" using ap t(1) by simp
  next
    fix q assume a: "prefix ?d q \<or> (\<exists>i<length ?ps. prefix (target_path work op' i) q)"
    show "look f q \<notin> {Some LinkE, Some OtherE}"
    proof (cases "prefix ?d q")
      case False
      then obtain i where i: "i < length ?ps" "prefix (?ps ! i) q" using a t(1) by auto
      then have "look f q = look fs q" by (intro same) blast
      then show ?thesis using v t(2)[OF i(1)] i(2) unfolding valid_at_def by metis
    qed (simp add: d)
  next
    fix q assume "prefix q ?d \<or> (\<exists>i<length ?ps. strict_prefix q (target_path work op' i))"
    then show "look f q \<in> {None, Some DirE}" using u up t(1) by auto
  next
    fix i assume i: "i < length ?ps"
    show "look f (butlast (target_path work op' i)) = Some DirE" using up[OF i bl[OF i]] t(1)[OF i] by simp
    show "tree_at f (old_path work op' i) = no_tree" "tree_at f (new_path work op' i) = no_tree"
      using inside by (simp_all add: old_path_def new_path_def job)
    show "look f (target_path work op' i) = None \<Longrightarrow> tree_at f (target_path work op' i) = no_tree"
    proof -
      assume "look f (target_path work op' i) = None"
      moreover have "look f (?ps ! i) = look fs (?ps ! i)" by (rule same) (use i in blast)
      ultimately show ?thesis using t[OF i] by simp
    qed
  qed (use rr in auto)
qed

lemma paths_kept_untouched: "only_directory d fs f \<Longrightarrow> list_all (\<lambda>p. apart p d) paths \<Longrightarrow> paths_kept paths fs f"
  by (simp add: paths_kept_def list_all_iff only_directory_tree)

lemma recover_nothing:
  assumes "jd_operations (wd_db w) = []"
  shows "wd_fs (recover_artifact_operations work w) = wd_fs w \<and> wd_db (recover_artifact_operations work w) = wd_db w"
  using assms by (auto simp: recover_artifact_operations_def db_call_def split: list.splits call_fate.splits)

lemma starts_nothing:
  "jd_operations (wd_db w) = [] \<Longrightarrow> wd_fs (interrupted_starts work plans w) = wd_fs w \<and> wd_db (interrupted_starts work plans w) = wd_db w"
proof (induction plans arbitrary: w)
  case (Cons plan plans)
  then show ?case using recover_nothing[of "w\<lparr>wd_plan := plan, wd_dead := False\<rparr>" work] by simp
qed simp

text \<open>Where a removal may stop: before it is journalled, or in the journal or done.\<close>

definition journalled ::
  "path \<Rightarrow> artifact_operation \<Rightarrow> path list \<Rightarrow> file_tree \<Rightarrow> journal_db \<Rightarrow> journal_db world \<Rightarrow> bool" where
  "journalled work op paths fs db w \<longleftrightarrow>
     (let op' = op\<lparr>ao_targets := map (drop (length work)) (filter (\<lambda>p. look fs p \<noteq> None) paths)\<rparr> in
      \<exists>f. prepared work op' f \<and> only_directory (operation_dir work (ao_job op)) fs f \<and>
        journal_state work op' f (db\<lparr>jd_operations := [(ao_job op, op')]\<rparr>) w)"

definition not_journalled ::
  "path \<Rightarrow> artifact_operation \<Rightarrow> file_tree \<Rightarrow> journal_db \<Rightarrow> journal_db world \<Rightarrow> bool" where
  "not_journalled work op fs db w \<longleftrightarrow> only_directory (operation_dir work (ao_job op)) fs (wd_fs w) \<and> wd_db w = db"

lemma pending_same: "pending_artifact_operation job w = (b, w') \<Longrightarrow> wd_fs w' = wd_fs w \<and> wd_db w' = wd_db w"
  by (auto simp: pending_artifact_operation_def db_call_def Let_def split: if_splits list.splits call_fate.splits)

lemma journal_operation_leads:
  assumes p: "prepared work op f" and f: "wd_fs w = f" and db: "jd_operations (wd_db w) = []"
  shows "leads (journal_operation work op w)
    (\<lambda>_ w'. journal_state work op f ((wd_db w)\<lparr>jd_operations := [(ao_job op, op)]\<rparr>) w')
    (\<lambda>_ w'. wd_fs w' = f \<and> wd_db w' = wd_db w \<or> journal_state work op f ((wd_db w)\<lparr>jd_operations := [(ao_job op, op)]\<rparr>) w')"
proof -
  let ?db = "(wd_db w)\<lparr>jd_operations := [(ao_job op, op)]\<rparr>"
  have saved: "leads (save_operation work op w) (\<lambda>_ w'. wd_fs w' = f \<and> wd_db w' = ?db) (\<lambda>_ w'. wd_fs w' = f \<and> wd_db w' = wd_db w)"
    unfolding save_operation_def sync_artifact_tree_def
    by (rule leads_call, rule look_call_leads; (simp add: untouched_def f)?)
      (rule leads_call, rule db_call_leads, use f db in simp_all)
  show ?thesis unfolding journal_operation_def
  proof (rule leads_step, rule leads_mono[OF saved], goal_cases)
    case (1 u w1)
    then have m: "midway work op f (wd_fs w1)" using prepared_midway[OF p] by simp
    show ?case by (rule leads_mono[OF finish_operation_leads[OF p m, of ?db]]) (use 1 in \<open>auto simp: journal_state_def\<close>)
  qed simp
qed

lemma removal_leads:
  assumes r: "removable work op paths (wd_fs w)" and db: "jd_operations (wd_db w) = []"
  shows "leads (start_removal work op paths recheck w)
    (\<lambda>_ w'. journalled work op paths (wd_fs w) (wd_db w) w' \<or> not_journalled work op (wd_fs w) (wd_db w) w' \<and> list_all (\<lambda>p. look (wd_fs w) p = None) paths)
    (\<lambda>_ w'. journalled work op paths (wd_fs w) (wd_db w) w' \<or> not_journalled work op (wd_fs w) (wd_db w) w')"
  unfolding start_removal_def
proof (rule leads_step, rule leads_mono[OF existing_targets_leads], goal_cases)
  case (1 ts w1)
  let ?d = "operation_dir work (ao_job op)" and ?op = "op\<lparr>ao_targets := ts\<rparr>"
  have same: "not_journalled work op (wd_fs w) (wd_db w) w'" if "wd_fs w' = wd_fs w" "wd_db w' = wd_db w" for w'
    using that by (simp add: not_journalled_def only_directory_def)
  show ?case
  proof (cases "ts = []")
    case True
    then have "list_all (\<lambda>p. look (wd_fs w) p = None) paths" using 1 by (simp add: list_all_iff filter_empty_conv)
    then show ?thesis using True same 1 by simp
  next
    case False
    obtain b w2 where b: "pending_artifact_operation (ao_job op) w1 = (b, w2)" by fastforce
    have w2: "wd_fs w2 = wd_fs w" "wd_db w2 = wd_db w" using pending_same[OF b] 1 by simp_all
    show ?thesis
    proof (cases b)
      case True
      then show ?thesis using False b same[OF w2] by simp
    next
      case nb: False
      have "leads (do_call (validate_artifact_tree work ?d w2) (\<lambda>_ w. do_step (fresh_operation_dir work (ao_job op) w) (\<lambda>_ w.
          case recheck of Some e \<Rightarrow> (Inl e, w) | None \<Rightarrow> journal_operation work ?op w)))
        (\<lambda>_ w'. journalled work op paths (wd_fs w) (wd_db w) w' \<or> not_journalled work op (wd_fs w) (wd_db w) w' \<and> list_all (\<lambda>p. look (wd_fs w) p = None) paths)
        (\<lambda>_ w'. journalled work op paths (wd_fs w) (wd_db w) w' \<or> not_journalled work op (wd_fs w) (wd_db w) w')"
      proof (rule leads_call, rule validated, goal_cases)
        case (1 w3)
        then have w3: "wd_fs w3 = wd_fs w" "wd_db w3 = wd_db w" and safe: "safe_artifact_path work ?d (wd_fs w3)" using w2 by simp_all
        have c: "look (wd_fs w3) work = Some DirE" "closed_tree (wd_fs w3)" using r w3 by (simp_all add: removable_def)
        show ?case
        proof (rule leads_step, rule leads_mono[OF fresh_operation_dir_leads[OF safe c]], goal_cases)
          case (1 u w4)
          then have w4: "only_directory ?d (wd_fs w) (wd_fs w4)" "wd_db w4 = wd_db w" using w3 by simp_all
          have p: "prepared work ?op (wd_fs w4)"
            using removal_prepared[OF r _ w4(1)] 1 \<open>wd_fs w1 = wd_fs w \<and> wd_db w1 = wd_db w \<and> _\<close> by simp
          show ?case
          proof (cases recheck)
            case None
            have j: "leads (journal_operation work ?op w4)
                (\<lambda>_ w'. journal_state work ?op (wd_fs w4) ((wd_db w)\<lparr>jd_operations := [(ao_job op, ?op)]\<rparr>) w')
                (\<lambda>_ w'. wd_fs w' = wd_fs w4 \<and> wd_db w' = wd_db w \<or> journal_state work ?op (wd_fs w4) ((wd_db w)\<lparr>jd_operations := [(ao_job op, ?op)]\<rparr>) w')"
              using journal_operation_leads[OF p refl] db w4(2) by simp
            have jd: "journalled work op paths (wd_fs w) (wd_db w) w'"
              if "journal_state work ?op (wd_fs w4) ((wd_db w)\<lparr>jd_operations := [(ao_job op, ?op)]\<rparr>) w'" for w'
              using that p w4(1) \<open>wd_fs w1 = wd_fs w \<and> wd_db w1 = wd_db w \<and> _\<close> by (auto simp: journalled_def Let_def)
            show ?thesis unfolding None option.case
              by (rule leads_mono[OF j]) (use jd w4 in \<open>auto simp: not_journalled_def\<close>)
          qed (use w4 in \<open>simp add: not_journalled_def\<close>)
        next
          case (2 e w4)
          then show ?case using w3 by (simp add: not_journalled_def)
        qed
      next
        case (2 w3)
        then show ?case using same w2 by simp
      qed
      then show ?thesis using False b nb by simp
    qed
  qed
next
  case (2 e w1)
  then show ?case by (simp add: not_journalled_def only_directory_def)
qed

lemma paths_apart_directory:
  assumes "removable work op paths fs"
  shows "list_all (\<lambda>p. apart p (operation_dir work (ao_job op))) paths"
proof -
  have "apart p (operation_dir work (ao_job op))" if p: "p \<in> set paths" for p
  proof -
    obtain rel where e: "p = work @ rel" "may_target op rel" using assms p by (auto simp: removable_def list_all_iff prefix_def)
    obtain a rs where "rel = a # rs" "a \<noteq> ''.artifact-operations''" by (rule path_names[OF e(2)])
    then show ?thesis unfolding e(1) by (simp add: apart_def operation_dir_def)
  qed
  then show ?thesis by (simp add: list_all_iff)
qed

lemma applied_removal:
  assumes r: "removable work op paths fs" and o: "only_directory (operation_dir work (ao_job op)) fs f"
    and a: "applied work (op\<lparr>ao_targets := map (drop (length work)) (filter (\<lambda>p. look fs p \<noteq> None) paths)\<rparr>) f g"
  shows "paths_gone paths g" and "list_all (apart x) paths \<Longrightarrow> apart x (operation_dir work (ao_job op)) \<Longrightarrow> tree_at g x = tree_at fs x"
proof -
  let ?ps = "filter (\<lambda>p. look fs p \<noteq> None) paths" and ?d = "operation_dir work (ao_job op)"
  let ?op = "op\<lparr>ao_targets := map (drop (length work)) ?ps\<rparr>"
  note rr = r[unfolded removable_def]
  have pd: "apart p ?d" if "p \<in> set paths" for p using paths_apart_directory[OF r] that by (simp add: list_all_iff)
  have t: "target_path work ?op i = ?ps ! i" if "i < length ?ps" for i
  proof -
    have "?ps ! i \<in> set paths" using nth_mem[OF that] by auto
    then have "work @ drop (length work) (?ps ! i) = ?ps ! i" using rr by (auto simp: list_all_iff prefix_def)
    then show ?thesis using that by (simp add: target_path_def)
  qed
  have rest: "tree_at g x = tree_at f x" if "apart x ?d" "\<forall>p\<in>set ?ps. apart x p" for x
  proof -
    have "apart x (target_path work ?op i)" if "i < length ?ps" for i
      using \<open>\<forall>p\<in>set ?ps. apart x p\<close> nth_mem[OF that] t[OF that] by metis
    then show ?thesis using a that(1) unfolding applied_def by simp
  qed
  show "list_all (apart x) paths \<Longrightarrow> apart x ?d \<Longrightarrow> tree_at g x = tree_at fs x" for x
    using rest[of x] only_directory_tree[OF o, of x] by (simp add: list_all_iff)
  show "paths_gone paths g" unfolding paths_gone_def list_all_iff
  proof
    fix p assume p: "p \<in> set paths"
    show "tree_at g p = no_tree"
    proof (cases "look fs p")
      case None
      have "apart p q" if "q \<in> set ?ps" for q
      proof -
        have "q \<in> set paths" "p \<noteq> q" using that None by auto
        then show ?thesis using p rr sorted_wrt_apart_in by blast
      qed
      then have "tree_at g p = tree_at fs p" using rest[OF pd[OF p]] only_directory_tree[OF o pd[OF p]] by simp
      then show ?thesis using closed_tree_none None rr by metis
    next
      case (Some e)
      then have "p \<in> set ?ps" using p by simp
      then obtain i where "i < length ?ps" "?ps ! i = p" unfolding in_set_conv_nth by blast
      then show ?thesis using a t[of i] rr by (auto simp: applied_def final_tree_def removes_def)
    qed
  qed
qed

lemma removal_ends:
  assumes r: "removable work op paths fs" and db: "jd_operations db = []"
    and s: "journalled work op paths fs db w \<or> not_journalled work op fs db w"
    and w'_def: "w' = recover_artifact_operations work (restarted (interrupted_starts work plans w))"
  shows "journalled work op paths fs db w \<Longrightarrow> paths_gone paths (wd_fs w') \<and> wd_db w' = db_outcome work op db"
    and "not_journalled work op fs db w \<Longrightarrow> paths_kept paths fs (wd_fs w') \<and> wd_fs w' = wd_fs w \<and> wd_db w' = db"
    and "rest_kept (operation_dir work (ao_job op) # paths) fs (wd_fs w')"
proof -
  have kept: "paths_kept paths fs (wd_fs w') \<and> wd_fs w' = wd_fs w \<and> wd_db w' = db" if n: "not_journalled work op fs db w"
  proof -
    have "wd_fs w' = wd_fs w \<and> wd_db w' = db"
      using n db starts_nothing[of w work plans] recover_nothing[of "restarted (interrupted_starts work plans w)" work]
      by (simp add: not_journalled_def restarted_def w'_def)
    then show ?thesis using paths_kept_untouched paths_apart_directory[OF r] n by (auto simp: not_journalled_def)
  qed
  then show "not_journalled work op fs db w \<Longrightarrow> paths_kept paths fs (wd_fs w') \<and> wd_fs w' = wd_fs w \<and> wd_db w' = db" .
  have gone: "paths_gone paths (wd_fs w') \<and> wd_db w' = db_outcome work op db \<and>
      (\<forall>x. apart x (operation_dir work (ao_job op)) \<longrightarrow> list_all (apart x) paths \<longrightarrow> tree_at (wd_fs w') x = tree_at fs x)"
    if j: "journalled work op paths fs db w"
  proof -
    let ?op = "op\<lparr>ao_targets := map (drop (length work)) (filter (\<lambda>p. look fs p \<noteq> None) paths)\<rparr>"
      and ?db = "db\<lparr>jd_operations := [(ao_job op, op\<lparr>ao_targets := map (drop (length work)) (filter (\<lambda>p. look fs p \<noteq> None) paths)\<rparr>)]\<rparr>"
    obtain f where f: "prepared work ?op f" "only_directory (operation_dir work (ao_job op)) fs f" "journal_state work ?op f ?db w"
      using j by (auto simp: journalled_def Let_def)
    have single: "jd_operations ?db = [(ao_job ?op, ?op)]" by simp
    have "journal_state work ?op f ?db (restarted (interrupted_starts work plans w))"
      using starts_state[OF f(1) single f(3)] by (simp add: journal_state_def restarted_def)
    from recover_state(2)[OF f(1) single this] have a: "applied work ?op f (wd_fs w')" "wd_db w' = closed_db work ?op ?db"
      by (simp_all add: works_def w'_def)
    have act: "ao_action op = ''remove''" using r by (simp add: removable_def)
    have "db_outcome work op ?db = (db_outcome work op db)\<lparr>jd_operations := jd_operations ?db\<rparr>"
      using act by (simp add: db_outcome_def Let_def set_availability_def availability_row_def)
    then have "wd_db w' = (db_outcome work op db)\<lparr>jd_operations := []\<rparr>" using a(2) by (simp add: closed_db_def outcome_removal[OF act])
    moreover have "(db_outcome work op db)\<lparr>jd_operations := []\<rparr> = db_outcome work op db" using db outcome_operations[of work op db] by (cases "db_outcome work op db") simp
    ultimately show ?thesis using applied_removal[OF r f(2) a(1)] by simp
  qed
  then show "journalled work op paths fs db w \<Longrightarrow> paths_gone paths (wd_fs w') \<and> wd_db w' = db_outcome work op db" by blast
  show "rest_kept (operation_dir work (ao_job op) # paths) fs (wd_fs w')"
    unfolding rest_kept_def using s gone kept only_directory_tree by (fastforce simp: not_journalled_def)
qed


subsection \<open>Examples\<close>

text \<open>A published pair replaced by the second attempt's, with a process that dies between two targets.\<close>

definition pair_op :: artifact_operation where "pair_op = promote_op ''j'' 2 ''new'' False ''.opus''"

definition pair_world :: "journal_db world" where
  "pair_world = \<lparr>wd_fs = [([''w''], DirE), ([''w'', ''current''], DirE), ([''w'', ''current'', ''j.meeting''], DirE),
      ([''w'', ''current'', ''j.meeting'', ''a''], FileE ''old''), ([''w'', ''current'', ''j.opus''], FileE ''old''),
      ([''w'', ''.artifact-operations''], DirE), ([''w'', ''.artifact-operations'', ''j''], DirE),
      ([''w'', ''.artifact-operations'', ''j'', ''new-0''], DirE), ([''w'', ''.artifact-operations'', ''j'', ''new-0'', ''a''], FileE ''new''),
      ([''w'', ''.artifact-operations'', ''j'', ''new-1''], FileE ''new'')],
    wd_db = \<lparr>jd_operations = [(''j'', pair_op)], jd_availability = [], jd_jobs = []\<rparr>, wd_plan = [], wd_dead = False\<rparr>"

lemma pair_prepared: "prepared [''w''] pair_op (wd_fs pair_world)"
proof -
  have paths: "operation_dir [''w''] ''j'' = [''w'', ''.artifact-operations'', ''j'']" "itoa_nat 0 = ''0''" "itoa_nat 1 = ''1''"
    "canonical_meeting_path [] ''j'' = [''current'', ''j.meeting'']" "current_root [] = [''current'']"
    by code_simp+
  have nopre: "look (wd_fs pair_world) q \<notin> {Some LinkE, Some OtherE}" for q by (auto simp: pair_world_def look_def split: if_splits)
  have files: "look (wd_fs pair_world) q \<in> {None, Some DirE}" if "q \<in> {[], [''w''], [''w'', ''current''], [''w'', ''.artifact-operations''], [''w'', ''.artifact-operations'', ''j'']}" for q
    using that by (auto simp: pair_world_def look_def)
  have lead: "q \<in> {[], [''w''], [''w'', ''current''], [''w'', ''.artifact-operations''], [''w'', ''.artifact-operations'', ''j'']}"
    if "prefix q [''w'', ''.artifact-operations'', ''j''] \<or> strict_prefix q [''w'', ''current'', ''j.meeting''] \<or> strict_prefix q [''w'', ''current'', ''j.opus'']" for q
    using that by (auto simp: prefix_Cons strict_prefix_def)
  have ones: "itoa_nat (Suc 0) = ''1''" using paths(3) by simp
  have trees: "tree_at (wd_fs pair_world) [''w'', ''.artifact-operations'', ''j'', ''old-0''] = no_tree"
    "tree_at (wd_fs pair_world) [''w'', ''.artifact-operations'', ''j'', ''old-1''] = no_tree"
    by (auto simp: pair_world_def look_def tree_at_def no_tree_def)
  have there: "look (wd_fs pair_world) [''w'', ''.artifact-operations'', ''j'', ''new-0''] = Some DirE"
    "look (wd_fs pair_world) [''w'', ''.artifact-operations'', ''j'', ''new-1''] = Some (FileE ''new'')"
    "look (wd_fs pair_world) [''w'', ''current'', ''j.meeting''] = Some DirE" "look (wd_fs pair_world) [''w'', ''current'', ''j.opus''] = Some (FileE ''old'')"
    by (simp_all add: pair_world_def look_def)
  have own: "may_target pair_op [''current'', ''j.meeting'']" "may_target pair_op [''current'', ''j.opus'']" by code_simp+
  show ?thesis using lead nopre own files
    unfolding prepared_def
    by (simp add: pair_op_def promote_op_def paths ones trees there target_path_def old_path_def new_path_def apart_def valid_artifact_job_def All_less_Suc Ex_less_Suc numeral_2_eq_2)
qed

text \<open>The second start dies right after the old meeting was moved away.\<close>

theorem operation_completes_witness:
  "let w' = recover_artifact_operations [''w''] (restarted (interrupted_starts [''w''] [replicate 8 Works @ [Dies []]] pair_world)) in
   look (wd_fs (interrupted_starts [''w''] [replicate 8 Works @ [Dies []]] pair_world)) [''w'', ''current'', ''j.meeting''] = None \<and>
   applied [''w''] pair_op (wd_fs pair_world) (wd_fs w') \<and> wd_db w' = closed_db [''w''] pair_op (wd_db pair_world) \<and>
   look (wd_fs w') [''w'', ''current'', ''j.meeting'', ''a''] = Some (FileE ''new'')"
proof -
  have single: "jd_operations (wd_db pair_world) = [(ao_job pair_op, pair_op)]" by (simp add: pair_world_def pair_op_def promote_op_def)
  have "look (wd_fs (interrupted_starts [''w''] [replicate 8 Works @ [Dies []]] pair_world)) [''w'', ''current'', ''j.meeting''] = None" by code_simp
  moreover have "look (wd_fs (recover_artifact_operations [''w''] (restarted (interrupted_starts [''w''] [replicate 8 Works @ [Dies []]] pair_world))))
      [''w'', ''current'', ''j.meeting'', ''a''] = Some (FileE ''new'')" by code_simp
  ultimately show ?thesis using operation_completes[OF pair_prepared single refl] unfolding Let_def by blast
qed

text \<open>A removal that dies after it was journalled.\<close>

definition expired_world :: "journal_db world" where
  "expired_world = \<lparr>wd_fs = [([''w''], DirE), ([''w'', ''runs''], DirE), ([''w'', ''runs'', ''j--attempt-001.run''], DirE),
      ([''w'', ''runs'', ''j--attempt-001.run'', ''a''], FileE ''old'')],
    wd_db = \<lparr>jd_operations = [], jd_availability = [], jd_jobs = []\<rparr>, wd_plan = replicate 12 Works @ [Dies []], wd_dead = False\<rparr>"

definition expired_paths :: "path list" where
  "expired_paths = [attempt_run_path [''w''] ''j'' 1, attempt_meeting_path [''w''] ''j'' 1]"


end
